(* ===== verification/AIS_Prelude.thy ===== *)
theory AIS_Prelude
  imports Main "HOL-Library.Word" "HOL-Library.Sublist" "HOL-Library.Char_ord"
begin

unbundle bit_operations_syntax

text \<open>
  What every component of AI Shield shares: the machine integers, the \<open>Status\<close> and
  \<open>Result\<close> types of \<open>include/ai_shield/result.hpp\<close>, byte spans, little-endian
  encoding and decoding, ASCII text search as \<open>std::string_view\<close> does it, and the
  generic facts about them that the component theories use through the simplifier.
  Byte spans are lists of 8-bit words, text is a list of characters, container sizes and
  offsets are natural numbers (a C++ container never reaches the range where \<open>size_t\<close>
  wraps), and every other integer keeps its width.
\<close>

section \<open>Machine integers, bytes and text\<close>

type_synonym u8 = "8 word"
type_synonym u16 = "16 word"
type_synonym u32 = "32 word"
type_synonym u64 = "64 word"
type_synonym bytes = "u8 list"

named_theorems size_simps \<comment> \<open>lengths of encodings and digests\<close>
named_theorems inj_simps \<comment> \<open>injectivity of encodings\<close>

section \<open>Status and Result\<close>

datatype status =
    St_ok
  | St_invalid_argument
  | St_overflow
  | St_out_of_budget
  | St_malformed_input
  | St_ambiguous_input
  | St_invalid_state_transition
  | St_integrity_failure
  | St_incompatible_version
  | St_downgrade_attempt
  | St_not_found

text \<open>
  \<open>Result<T>\<close> holds a value when its status is \<open>ok\<close> and only a status otherwise; it is
  the sum with the failure status on the left. \<open>Result<void>\<close> is \<open>unit result\<close>.
\<close>

type_synonym 'a result = "status + 'a"

definition res_ok :: "'a result \<Rightarrow> bool" where
  "res_ok r = (case r of Inl s \<Rightarrow> s = St_ok | Inr _ \<Rightarrow> True)"

definition res_status :: "'a result \<Rightarrow> status" where
  "res_status r = (case r of Inl s \<Rightarrow> s | Inr _ \<Rightarrow> St_ok)"

abbreviation ok_unit :: "unit result" where "ok_unit \<equiv> Inr ()"

lemma res_ok_simps [simp]: "res_ok (Inr v)" "res_ok (Inl s) = (s = St_ok)"
  by (simp_all add: res_ok_def)

lemma res_status_simps [simp]: "res_status (Inr v) = St_ok" "res_status (Inl s) = s"
  by (simp_all add: res_status_def)

section \<open>Checked arithmetic\<close>

text \<open>\<open>checked::add\<close> and \<open>checked::multiply\<close> at an unsigned type.\<close>

definition checked_add :: "'a::len word \<Rightarrow> 'a word \<Rightarrow> 'a word result" where
  "checked_add a b = (if a > (- 1) - b then Inl St_overflow else Inr (a + b))"

definition checked_multiply :: "'a::len word \<Rightarrow> 'a word \<Rightarrow> 'a word result" where
  "checked_multiply a b =
     (if a = 0 \<or> b = 0 then Inr 0
      else if a > (- 1) div b then Inl St_overflow else Inr (a * b))"

section \<open>Little-endian bytes\<close>

text \<open>
  The source's \<open>append_scalar\<close>, \<open>append_le\<close>, \<open>append_u64\<close>, \<open>append\<close> push the bytes
  \<open>(value >> (i * 8)) & 0xff\<close> for \<open>i = 0 .. n-1\<close>.
\<close>

definition le_bytes :: "nat \<Rightarrow> 'a::len word \<Rightarrow> bytes" where
  "le_bytes n v = map (\<lambda>i. ucast (drop_bit (i * 8) v)) [0..<n]"

abbreviation le64 :: "u64 \<Rightarrow> bytes" where "le64 \<equiv> le_bytes 8"
abbreviation le32 :: "u32 \<Rightarrow> bytes" where "le32 \<equiv> le_bytes 4"
abbreviation le16 :: "u16 \<Rightarrow> bytes" where "le16 \<equiv> le_bytes 2"

text \<open>
  The readers accumulate \<open>value |= byte << (i * 8)\<close> over the bytes at the offset.
\<close>

definition le_word :: "bytes \<Rightarrow> 'a::len word" where
  "le_word bs = foldl (\<lambda>v i. v OR push_bit (i * 8) (ucast (bs ! i))) 0 [0..<length bs]"

lemma length_le_bytes [simp, size_simps]: "length (le_bytes n v) = n"
  by (simp add: le_bytes_def)

lemma bit_foldl_le:
  "bit (foldl (\<lambda>v i. v OR push_bit (i * 8) (ucast (bs ! i))) (a::'a::len word) [0..<n]) k \<longleftrightarrow>
     bit a k \<or> k < LENGTH('a) \<and> k div 8 < n \<and> bit ((bs::bytes) ! (k div 8)) (k mod 8)"
proof (induction n)
  case 0
  then show ?case by simp
next
  case (Suc n)
  have "k < LENGTH('a) \<and> n * 8 \<le> k \<and> bit (bs ! n) (k - n * 8) \<longleftrightarrow>
        k < LENGTH('a) \<and> k div 8 = n \<and> bit (bs ! n) (k mod 8)"
  proof -
    have "k div 8 = n \<longleftrightarrow> n * 8 \<le> k \<and> k - n * 8 < 8" by arith
    moreover have "bit (bs ! n) (k - n * 8) \<Longrightarrow> k - n * 8 < 8"
      using bit_imp_le_length [of "bs ! n" "k - n * 8"] by simp
    moreover have "k div 8 = n \<Longrightarrow> k mod 8 = k - n * 8" by (auto simp: minus_mult_div_eq_mod [symmetric] ac_simps)
    ultimately show ?thesis by metis
  qed
  then show ?case
    by (auto simp: Suc.IH bit_or_iff bit_push_bit_iff bit_ucast_iff less_Suc_eq)
qed

lemma bit_le_word:
  "bit (le_word bs :: 'a::len word) k \<longleftrightarrow>
     k < LENGTH('a) \<and> k div 8 < length bs \<and> bit (bs ! (k div 8)) (k mod 8)"
  by (simp add: le_word_def bit_foldl_le)

lemma le_word_le_bytes:
  assumes "LENGTH('a::len) \<le> n * 8"
  shows "le_word (le_bytes n v) = (v :: 'a word)"
proof (rule bit_word_eqI)
  fix k assume k: "k < LENGTH('a)"
  with assms have "k div 8 < n" by (simp add: less_mult_imp_div_less)
  then show "bit (le_word (le_bytes n v) :: 'a word) k \<longleftrightarrow> bit v k"
    using k by (simp add: bit_le_word le_bytes_def bit_ucast_iff bit_drop_bit_eq)
qed

lemma le_word_le_bytes_simps [simp]:
  "le_word (le64 a) = a" "le_word (le32 b) = b" "le_word (le16 c) = c"
  "le_word (le_bytes 8 b) = b" "le_word (le_bytes 8 c) = c"
  by (simp_all add: le_word_le_bytes)

lemma le_bytes_inject:
  assumes "LENGTH('a::len) \<le> n * 8"
  shows "le_bytes n v = le_bytes n w \<longleftrightarrow> v = (w :: 'a word)"
  using assms le_word_le_bytes [of n v] le_word_le_bytes [of n w] by metis

lemma le_bytes_inject_simps [simp, inj_simps]:
  "le64 a = le64 a' \<longleftrightarrow> a = a'"
  "le_bytes 8 (b::u32) = le_bytes 8 b' \<longleftrightarrow> b = b'"
  "le_bytes 8 (c::u16) = le_bytes 8 c' \<longleftrightarrow> c = c'"
  "le32 b = le32 b' \<longleftrightarrow> b = b'"
  "le16 c = le16 c' \<longleftrightarrow> c = c'"
  by (simp_all add: le_bytes_inject)

text \<open>
  A fixed-width reader at an offset of a span: \<open>malformed_input\<close> when it would run over
  the end (the offset is then left alone), the value and the advanced offset otherwise.
\<close>

definition read_le :: "nat \<Rightarrow> bytes \<Rightarrow> nat \<Rightarrow> 'a::len word result \<times> nat" where
  "read_le n bs off =
     (if off + n > length bs then (Inl St_malformed_input, off)
      else (Inr (le_word (take n (drop off bs))), off + n))"

lemma read_le_at:
  "LENGTH('a::len) \<le> n * 8 \<Longrightarrow>
   read_le n (pre @ le_bytes n v @ post) (length pre) = (Inr (v :: 'a word), length pre + n)"
  by (simp add: read_le_def le_word_le_bytes)

text \<open>Two concatenations whose heads have the same length agree piecewise.\<close>

lemma append_same_length [inj_simps]:
  "length xs = length ys \<Longrightarrow> xs @ us = ys @ vs \<longleftrightarrow> xs = ys \<and> us = vs"
  by simp

text \<open>Big-endian reads of network formats, with the bytes at fixed positions.\<close>

definition be16_at :: "bytes \<Rightarrow> nat \<Rightarrow> u16" where
  "be16_at bs off = push_bit 8 (ucast (bs ! off)) OR ucast (bs ! (off + 1))"

definition be32_at :: "bytes \<Rightarrow> nat \<Rightarrow> u32" where
  "be32_at bs off = push_bit 24 (ucast (bs ! off)) OR push_bit 16 (ucast (bs ! (off + 1))) OR
     push_bit 8 (ucast (bs ! (off + 2))) OR ucast (bs ! (off + 3))"

definition le16_at :: "bytes \<Rightarrow> nat \<Rightarrow> u16" where
  "le16_at bs off = ucast (bs ! off) OR push_bit 8 (ucast (bs ! (off + 1)))"

definition le32_at :: "bytes \<Rightarrow> nat \<Rightarrow> u32" where
  "le32_at bs off = le_word (take 4 (drop off bs))"

definition le64_at :: "bytes \<Rightarrow> nat \<Rightarrow> u64" where
  "le64_at bs off = le_word (take 8 (drop off bs))"

section \<open>Text\<close>

text \<open>\<open>std::tolower\<close> of the "C" locale: only the 26 ASCII capitals change.\<close>

definition tolower :: "char \<Rightarrow> char" where
  "tolower c = (let n = (of_char c :: nat) in if 65 \<le> n \<and> n \<le> 90 then char_of (n + 32) else c)"

definition lower_copy :: "string \<Rightarrow> string" where
  "lower_copy s = map tolower s"

text \<open>The bytes of a span as characters, and back.\<close>

definition text_of :: "bytes \<Rightarrow> string" where
  "text_of bs = map (\<lambda>b. char_of (unat b)) bs"

definition bytes_of :: "string \<Rightarrow> bytes" where
  "bytes_of s = map of_char s"

text \<open>\<open>std::string_view::find\<close>: the least position where the needle occurs.\<close>

fun find_sub :: "'a list \<Rightarrow> 'a list \<Rightarrow> nat option" where
  "find_sub needle [] = (if needle = [] then Some 0 else None)"
| "find_sub needle (x # xs) =
     (if prefix needle (x # xs) then Some 0 else map_option Suc (find_sub needle xs))"

definition find_from :: "'a list \<Rightarrow> 'a list \<Rightarrow> nat \<Rightarrow> nat option" where
  "find_from needle hay pos =
     (if pos \<le> length hay then map_option (\<lambda>i. pos + i) (find_sub needle (drop pos hay)) else None)"

definition contains :: "'a list \<Rightarrow> 'a list \<Rightarrow> bool" where
  "contains hay needle \<longleftrightarrow> find_sub needle hay \<noteq> None"

lemma find_sub_SomeD:
  "find_sub n h = Some i \<Longrightarrow>
     i + length n \<le> length h \<and> prefix n (drop i h) \<and> (\<forall>j<i. \<not> prefix n (drop j h))"
proof (induction n h arbitrary: i rule: find_sub.induct)
  case (1 needle)
  then show ?case by (auto split: if_splits)
next
  case (2 needle x xs)
  show ?case
  proof (cases "prefix needle (x # xs)")
    case True
    with 2 show ?thesis by (auto dest: prefix_length_le)
  next
    case False
    with "2.prems" obtain k where k: "find_sub needle xs = Some k" "i = Suc k" by auto
    with "2.IH" [OF False k(1)] False show ?thesis
      by (auto simp: less_Suc_eq_0_disj)
  qed
qed

lemma find_sub_None_iff: "find_sub n h = None \<longleftrightarrow> \<not> sublist n h"
  by (induction n h rule: find_sub.induct) (auto simp: sublist_Cons_right)

lemma contains_iff [simp]: "contains h n \<longleftrightarrow> sublist n h"
  by (simp add: contains_def find_sub_None_iff)

lemma find_from_SomeD:
  "find_from n h pos = Some i \<Longrightarrow> pos \<le> i \<and> i + length n \<le> length h \<and> prefix n (drop i h)"
  by (auto simp: find_from_def ac_simps split: if_splits dest!: find_sub_SomeD)

lemma find_from_bound: "find_from n h pos = Some i \<Longrightarrow> n \<noteq> [] \<Longrightarrow> pos \<le> i \<and> i < length h"
  by (drule find_from_SomeD) (cases n; auto)

lemma of_char_char_of_unat [simp]: "of_char (char_of (unat (b::u8))) = b"
proof -
  have "unat b < 256" using unsigned_less [of b, where 'a = nat] by simp
  then have "(of_char (char_of (unat b) :: char) :: nat) = unat b" by (simp only: of_char_of) simp
  then show ?thesis using of_nat_of_char [of "char_of (unat b)", where 'a = u8] by simp
qed

lemma bytes_of_text_of [simp]: "bytes_of (text_of bs) = bs"
  by (simp add: bytes_of_def text_of_def o_def map_idI)

lemma length_text_of [simp]: "length (text_of bs) = length bs"
  by (simp add: text_of_def)

lemma length_bytes_of [simp]: "length (bytes_of s) = length s"
  by (simp add: bytes_of_def)

section \<open>Runs of a stateful component\<close>

text \<open>
  A class with mutable fields is a state and a function from an operation to the next
  state. The interface every such component has to its callers is an invariant that its
  constructor establishes and that each operation keeps; what follows for a whole run is
  proved once here and reached by the components through interpretations.
\<close>

locale invariant_machine =
  fixes step :: "'op \<Rightarrow> 's \<Rightarrow> 's" and inv :: "'s \<Rightarrow> bool"
  assumes step_inv: "inv s \<Longrightarrow> inv (step op s)"
begin

lemma run_inv: "inv s \<Longrightarrow> inv (fold step ops s)"
  by (induction ops arbitrary: s) (auto intro: step_inv)

lemma run_prefix_inv: "inv s \<Longrightarrow> prefix ps ops \<Longrightarrow> inv (fold step ps s)"
  by (rule run_inv)

end

end
