(* ===== verification/AIS_Sha256.thy ===== *)
theory AIS_Sha256
  imports AIS_Prelude
begin

text \<open>
  SHA-256 and the digest comparison of \<open>src/sha256.cpp\<close>. The first part translates the
  streaming implementation (message schedule, rounds, the loop over whole blocks, the last
  block with its padding). The second states the standard's own description (padding to
  a multiple of 64 bytes, then one compression per block, schedule words by recurrence),
  and the third shows that the implementation computes it. A digest is a list of 32 bytes;
  that invariant is \<open>wf_digest\<close>. The interface \<open>digest_fn\<close> is what the components that
  authenticate or chain data need of a hash.
\<close>

section \<open>The implementation\<close>

type_synonym digest = bytes
type_synonym hstate = "u32 \<times> u32 \<times> u32 \<times> u32 \<times> u32 \<times> u32 \<times> u32 \<times> u32"

definition wf_digest :: "digest \<Rightarrow> bool" where
  "wf_digest d \<longleftrightarrow> length d = 32"

text \<open>A value-initialised \<open>Sha256Digest{}\<close>.\<close>

definition zero_digest :: digest where
  "zero_digest = replicate 32 0"

definition kRound :: "u32 list" where
  "kRound =
     [0x428a2f98, 0x71374491, 0xb5c0fbcf, 0xe9b5dba5] @ [0x3956c25b, 0x59f111f1, 0x923f82a4, 0xab1c5ed5] @
     [0xd807aa98, 0x12835b01, 0x243185be, 0x550c7dc3] @ [0x72be5d74, 0x80deb1fe, 0x9bdc06a7, 0xc19bf174] @
     [0xe49b69c1, 0xefbe4786, 0x0fc19dc6, 0x240ca1cc] @ [0x2de92c6f, 0x4a7484aa, 0x5cb0a9dc, 0x76f988da] @
     [0x983e5152, 0xa831c66d, 0xb00327c8, 0xbf597fc7] @ [0xc6e00bf3, 0xd5a79147, 0x06ca6351, 0x14292967] @
     [0x27b70a85, 0x2e1b2138, 0x4d2c6dfc, 0x53380d13] @ [0x650a7354, 0x766a0abb, 0x81c2c92e, 0x92722c85] @
     [0xa2bfe8a1, 0xa81a664b, 0xc24b8b70, 0xc76c51a3] @ [0xd192e819, 0xd6990624, 0xf40e3585, 0x106aa070] @
     [0x19a4c116, 0x1e376c08, 0x2748774c, 0x34b0bcb5] @ [0x391c0cb3, 0x4ed8aa4a, 0x5b9cca4f, 0x682e6ff3] @
     [0x748f82ee, 0x78a5636f, 0x84c87814, 0x8cc70208] @ [0x90befffa, 0xa4506ceb, 0xbef9a3f7, 0xc67178f2]"

definition sha_init :: hstate where
  "sha_init = (0x6a09e667, 0xbb67ae85, 0x3c6ef372, 0xa54ff53a, 0x510e527f, 0x9b05688c, 0x1f83d9ab, 0x5be0cd19)"

definition load_be :: "bytes \<Rightarrow> nat \<Rightarrow> u32" where
  "load_be p o' = push_bit 24 (ucast (p ! o')) OR push_bit 16 (ucast (p ! (o' + 1))) OR
     push_bit 8 (ucast (p ! (o' + 2))) OR ucast (p ! (o' + 3))"

definition store_be :: "u32 \<Rightarrow> bytes" where
  "store_be v = [ucast (drop_bit 24 v), ucast (drop_bit 16 v), ucast (drop_bit 8 v), ucast v]"

text \<open>One step of the schedule loop: \<open>w[i]\<close> for \<open>i >= 16\<close>, the array filled up to \<open>i\<close>.\<close>

definition sha_expand :: "u32 list \<Rightarrow> nat \<Rightarrow> u32 list" where
  "sha_expand w i =
     (let s0 = word_rotr 7 (w ! (i - 15)) XOR word_rotr 18 (w ! (i - 15)) XOR drop_bit 3 (w ! (i - 15));
          s1 = word_rotr 17 (w ! (i - 2)) XOR word_rotr 19 (w ! (i - 2)) XOR drop_bit 10 (w ! (i - 2))
      in w @ [w ! (i - 16) + s0 + w ! (i - 7) + s1])"

definition sha_schedule :: "bytes \<Rightarrow> u32 list" where
  "sha_schedule chunk = foldl sha_expand (map (\<lambda>i. load_be chunk (i * 4)) [0..<16]) [16..<64]"

definition sha_round :: "u32 list \<Rightarrow> hstate \<Rightarrow> nat \<Rightarrow> hstate" where
  "sha_round w s i =
     (case s of (a, b, c, d, e, f, g, hh) \<Rightarrow>
        let s1 = word_rotr 6 e XOR word_rotr 11 e XOR word_rotr 25 e;
            ch = (e AND f) XOR (NOT e AND g);
            temp1 = hh + s1 + ch + kRound ! i + w ! i;
            s0 = word_rotr 2 a XOR word_rotr 13 a XOR word_rotr 22 a;
            maj = (a AND b) XOR (a AND c) XOR (b AND c);
            temp2 = s0 + maj
        in (temp1 + temp2, a, b, c, d + temp1, e, f, g))"

definition sha_process :: "hstate \<Rightarrow> bytes \<Rightarrow> hstate" where
  "sha_process h chunk =
     (let w = sha_schedule chunk in
      case h of (h0, h1, h2, h3, h4, h5, h6, h7) \<Rightarrow>
        (case foldl (sha_round w) h [0..<64] of (a, b, c, d, e, f, g, hh) \<Rightarrow>
           (h0 + a, h1 + b, h2 + c, h3 + d, h4 + e, h5 + f, h6 + g, h7 + hh)))"

text \<open>The loop over whole blocks; it leaves the state and the unprocessed tail.\<close>

function sha_absorb :: "hstate \<Rightarrow> bytes \<Rightarrow> hstate \<times> bytes" where
  "sha_absorb h data =
     (if length data \<ge> 64 then sha_absorb (sha_process h (take 64 data)) (drop 64 data) else (h, data))"
  by pat_completeness auto
termination by (relation "measure (\<lambda>(h, data). length data)") auto

declare sha_absorb.simps [simp del]

text \<open>The bit count is written into the last eight bytes of the block, least significant last.\<close>

definition sha_store_length :: "u64 \<Rightarrow> bytes \<Rightarrow> bytes" where
  "sha_store_length bit_len block =
     foldl (\<lambda>b i. b[63 - i := ucast (drop_bit (i * 8) bit_len)]) block [0..<8]"

definition sha_finish :: "u64 \<Rightarrow> hstate \<Rightarrow> bytes \<Rightarrow> hstate" where
  "sha_finish bit_len h rest =
     (let remaining = length rest;
          block = rest @ 0x80 # replicate (63 - remaining) 0;
          (h', block') = (if remaining \<ge> 56 then (sha_process h block, replicate 64 0) else (h, block))
      in sha_process h' (sha_store_length bit_len block'))"

fun sha_output :: "hstate \<Rightarrow> digest" where
  "sha_output (h0, h1, h2, h3, h4, h5, h6, h7) =
     store_be h0 @ store_be h1 @ store_be h2 @ store_be h3 @
     store_be h4 @ store_be h5 @ store_be h6 @ store_be h7"

definition sha256 :: "bytes \<Rightarrow> digest" where
  "sha256 data =
     (let (h, rest) = sha_absorb sha_init data;
          bit_len = (of_nat (length data) * 8 :: u64)
      in sha_output (sha_finish bit_len h rest))"

definition sha256_text :: "string \<Rightarrow> digest" where
  "sha256_text text = sha256 (bytes_of text)"

definition constant_time_equal :: "digest \<Rightarrow> digest \<Rightarrow> bool" where
  "constant_time_equal a b = (foldl (\<lambda>diff i. diff OR (a ! i XOR b ! i)) 0 [0..<32] = 0)"

section \<open>The standard's description\<close>

definition big_sigma0 :: "u32 \<Rightarrow> u32" where
  "big_sigma0 x = word_rotr 2 x XOR word_rotr 13 x XOR word_rotr 22 x"
definition big_sigma1 :: "u32 \<Rightarrow> u32" where
  "big_sigma1 x = word_rotr 6 x XOR word_rotr 11 x XOR word_rotr 25 x"
definition small_sigma0 :: "u32 \<Rightarrow> u32" where
  "small_sigma0 x = word_rotr 7 x XOR word_rotr 18 x XOR drop_bit 3 x"
definition small_sigma1 :: "u32 \<Rightarrow> u32" where
  "small_sigma1 x = word_rotr 17 x XOR word_rotr 19 x XOR drop_bit 10 x"
definition std_Ch :: "u32 \<Rightarrow> u32 \<Rightarrow> u32 \<Rightarrow> u32" where
  "std_Ch x y z = (x AND y) XOR (NOT x AND z)"
definition std_Maj :: "u32 \<Rightarrow> u32 \<Rightarrow> u32 \<Rightarrow> u32" where
  "std_Maj x y z = (x AND y) XOR (x AND z) XOR (y AND z)"

text \<open>The schedule word \<open>W t\<close> of a block, by the recurrence.\<close>

function std_W :: "bytes \<Rightarrow> nat \<Rightarrow> u32" where
  "std_W m t =
     (if t < 16 then load_be m (t * 4)
      else small_sigma1 (std_W m (t - 2)) + std_W m (t - 7) + small_sigma0 (std_W m (t - 15)) + std_W m (t - 16))"
  by pat_completeness auto
termination by (relation "measure snd") auto

declare std_W.simps [simp del]

fun std_rounds :: "bytes \<Rightarrow> hstate \<Rightarrow> nat \<Rightarrow> hstate" where
  "std_rounds m s 0 = s"
| "std_rounds m s (Suc t) =
     (case std_rounds m s t of (a, b, c, d, e, f, g, h) \<Rightarrow>
        let t1 = h + big_sigma1 e + std_Ch e f g + kRound ! t + std_W m t;
            t2 = big_sigma0 a + std_Maj a b c
        in (t1 + t2, a, b, c, d + t1, e, f, g))"

fun hadd :: "hstate \<Rightarrow> hstate \<Rightarrow> hstate" where
  "hadd (a, b, c, d, e, f, g, h) (a', b', c', d', e', f', g', h') =
     (a + a', b + b', c + c', d + d', e + e', f + f', g + g', h + h')"

definition std_compress :: "hstate \<Rightarrow> bytes \<Rightarrow> hstate" where
  "std_compress h m = hadd h (std_rounds m h 64)"

text \<open>
  Padding: a one bit, the fewest zero bits that leave room for eight bytes in the block,
  and the length in bits, big-endian.
\<close>

definition std_pad :: "bytes \<Rightarrow> bytes" where
  "std_pad data =
     data @ [0x80] @ replicate ((119 - length data mod 64) mod 64) 0 @
     rev (le64 (of_nat (length data) * 8))"

definition std_blocks :: "bytes \<Rightarrow> bytes list" where
  "std_blocks m = map (\<lambda>i. take 64 (drop (64 * i) m)) [0..<length m div 64]"

definition std_sha256 :: "bytes \<Rightarrow> digest" where
  "std_sha256 data = sha_output (foldl std_compress sha_init (std_blocks (std_pad data)))"

section \<open>The implementation computes the standard's function\<close>

lemma schedule_prefix:
  assumes "n \<le> 48"
  shows "foldl sha_expand (map (\<lambda>i. load_be m (i * 4)) [0..<16]) [16..<16 + n] = map (std_W m) [0..<16 + n]"
  using assms
proof (induction n)
  case 0
  show ?case by (simp add: std_W.simps)
next
  case (Suc n)
  have "[16..<16 + Suc n] = [16..<16 + n] @ [16 + n]" by (simp only: add_Suc_right upt_Suc_append le_add1)
  with Suc have "foldl sha_expand (map (\<lambda>i. load_be m (i * 4)) [0..<16]) [16..<16 + Suc n] =
      sha_expand (map (std_W m) [0..<16 + n]) (16 + n)" by simp
  also have "\<dots> = map (std_W m) [0..<16 + n] @ [std_W m (16 + n)]"
    by (simp add: sha_expand_def Let_def std_W.simps [of m "n + 16"] small_sigma0_def small_sigma1_def
        ac_simps)
  finally show ?case
    by (simp only: add_Suc_right upt_Suc_append le_add1 map_append list.map zero_le)
qed

lemma schedule_eq: "sha_schedule m = map (std_W m) [0..<64]"
  using schedule_prefix [of 48 m] by (simp add: sha_schedule_def)

lemma rounds_eq: "n \<le> 64 \<Longrightarrow> foldl (sha_round (sha_schedule m)) s [0..<n] = std_rounds m s n"
proof (induction n)
  case (Suc n)
  then show ?case
    by (simp add: schedule_eq sha_round_def Let_def big_sigma0_def big_sigma1_def std_Ch_def std_Maj_def
        split: prod.splits)
qed simp

lemma process_eq: "sha_process h m = std_compress h m"
proof -
  obtain h0 h1 h2 h3 h4 h5 h6 h7 where "h = (h0, h1, h2, h3, h4, h5, h6, h7)" by (cases h) auto
  moreover obtain a b c d e f g k where "std_rounds m h 64 = (a, b, c, d, e, f, g, k)"
    by (cases "std_rounds m h 64") auto
  ultimately show ?thesis
    using rounds_eq [of 64 m h] by (simp add: sha_process_def std_compress_def)
qed

lemma std_blocks_short: "length m < 64 \<Longrightarrow> std_blocks m = []"
  by (simp add: std_blocks_def)

lemma std_blocks_long:
  assumes "length m \<ge> 64"
  shows "std_blocks m = take 64 m # std_blocks (drop 64 m)"
proof -
  have "length m div 64 = Suc (length (drop 64 m) div 64)" using assms by simp
  then show ?thesis
    by (simp add: std_blocks_def map_upt_Suc add.commute del: upt_Suc)
qed

lemma std_blocks_append:
  "length m mod 64 = 0 \<Longrightarrow> std_blocks (m @ r) = std_blocks m @ std_blocks r"
proof (induction "length m div 64" arbitrary: m)
  case 0
  then have "length m < 64" by (simp add: div_eq_0_iff)
  with 0 have "m = []" by simp
  then show ?case by (simp add: std_blocks_def)
next
  case (Suc n)
  then have len: "length m \<ge> 64" by (cases "length m < 64") auto
  have "n = length (drop 64 m) div 64" using Suc.hyps(2) len by simp
  moreover have "length (drop 64 m) mod 64 = 0"
    using Suc.prems len le_mod_geq [of 64 "length m"] by simp
  ultimately have IH: "std_blocks (drop 64 m @ r) = std_blocks (drop 64 m) @ std_blocks r"
    using Suc.hyps(1) [of "drop 64 m"] by fastforce
  have "std_blocks (m @ r) = take 64 m # std_blocks (drop 64 m @ r)"
    using len by (subst std_blocks_long) auto
  also have "\<dots> = (take 64 m # std_blocks (drop 64 m)) @ std_blocks r" by (simp only: IH append_Cons)
  also have "take 64 m # std_blocks (drop 64 m) = std_blocks m"
    using len by (simp only: std_blocks_long)
  finally show ?case .
qed

text \<open>The loop consumes the whole blocks and keeps the tail.\<close>

lemma absorb_eq:
  "sha_absorb h data =
     (foldl std_compress h (std_blocks data), drop (64 * (length data div 64)) data)"
proof (induction h data rule: sha_absorb.induct)
  case (1 h data)
  show ?case
  proof (cases "length data \<ge> 64")
    case True
    have "length data div 64 = Suc ((length data - 64) div 64)" using True by simp
    then have "64 * (length data div 64) = 64 + 64 * ((length data - 64) div 64)" by simp
    with True 1 show ?thesis
      by (simp add: sha_absorb.simps [of h data] std_blocks_long process_eq add.commute)
  next
    case False
    then show ?thesis by (simp add: sha_absorb.simps [of h data] std_blocks_short)
  qed
qed

lemma store_length_eq:
  assumes "length b = 56"
  shows "sha_store_length v (b @ z) = (if length z = 8 then b @ rev (le64 v) else sha_store_length v (b @ z))"
proof (cases "length z = 8")
  case True
  then obtain z0 z1 z2 z3 z4 z5 z6 z7 where z: "z = [z0, z1, z2, z3, z4, z5, z6, z7]"
    by (auto simp: length_Suc_conv eval_nat_numeral)
  have "[0..<8] = [0, 1, 2, 3, 4, 5, 6, 7::nat]" by (simp add: upt_rec)
  with z assms show ?thesis
    by (simp add: sha_store_length_def le_bytes_def list_update_append)
qed simp

lemma store_length_replicate:
  assumes "length r + k + 8 = 64" and "z = replicate (k + 8) 0"
  shows "sha_store_length v (r @ z) = r @ replicate k 0 @ rev (le64 v)"
proof -
  have "sha_store_length v ((r @ replicate k 0) @ replicate 8 0) = (r @ replicate k 0) @ rev (le64 v)"
    using store_length_eq [of "r @ replicate k 0" v "replicate 8 0"] assms by simp
  then show ?thesis using assms(2) by (simp add: replicate_add)
qed

lemma blocks_one: "length m = 64 \<Longrightarrow> std_blocks m = [m]"
  by (simp add: std_blocks_long std_blocks_short)

lemma finish_eq:
  assumes r: "length r < 64"
  shows "sha_finish v h r =
    foldl std_compress h (std_blocks (r @ [0x80] @ replicate ((119 - length r) mod 64) 0 @ rev (le64 v)))"
proof (cases "length r \<ge> 56")
  case True
  let ?b = "r @ 0x80 # replicate (63 - length r) 0"
  have k: "(119 - length r) mod 64 = (63 - length r) + 56" using r True by simp
  have "sha_store_length v (replicate 64 0) = replicate 56 0 @ rev (le64 v)"
    using store_length_replicate [of "[]" 56 "replicate 64 0" v] by simp
  moreover have "std_blocks (?b @ replicate 56 0 @ rev (le64 v)) = [?b, replicate 56 0 @ rev (le64 v)]"
    using r by (simp add: std_blocks_append blocks_one del: append_assoc append_Cons)
  moreover have "r @ [0x80] @ replicate ((119 - length r) mod 64) 0 @ rev (le64 v) =
      ?b @ replicate 56 0 @ rev (le64 v)" by (simp only: k replicate_add) simp
  ultimately show ?thesis using True by (simp add: sha_finish_def Let_def process_eq)
next
  case False
  have k: "(119 - length r) mod 64 = 55 - length r"
    using False by (simp add: mod_if)
  have "sha_store_length v ((r @ [0x80]) @ replicate (63 - length r) 0) =
      (r @ [0x80]) @ replicate (55 - length r) 0 @ rev (le64 v)"
    using False by (intro store_length_replicate) auto
  then show ?thesis using False
    by (simp add: sha_finish_def Let_def process_eq k blocks_one)
qed

lemma sha256_eq_std: "sha256 data = std_sha256 data"
proof -
  let ?n = "64 * (length data div 64)"
  let ?f = "take ?n data" and ?r = "drop ?n data"
  let ?tail = "[0x80] @ replicate ((119 - length data mod 64) mod 64) 0 @ rev (le64 (of_nat (length data) * 8))"
  have lr: "length ?r = length data mod 64" by (simp add: minus_mult_div_eq_mod)
  have lf: "length ?f mod 64 = 0" by simp
  have "std_pad data = ?f @ (?r @ ?tail)"
    by (simp only: std_pad_def append_assoc [symmetric] append_take_drop_id)
  moreover have "std_blocks data = std_blocks ?f"
    using std_blocks_append [OF lf, of ?r] lr by (simp add: std_blocks_short)
  ultimately have "foldl std_compress sha_init (std_blocks (std_pad data)) =
      foldl std_compress (foldl std_compress sha_init (std_blocks data)) (std_blocks (?r @ ?tail))"
    using std_blocks_append [OF lf, of "?r @ ?tail"] by simp
  moreover have "sha_finish (of_nat (length data) * 8) h ?r = foldl std_compress h (std_blocks (?r @ ?tail))" for h
    using finish_eq [of ?r "of_nat (length data) * 8" h, unfolded lr] by simp
  ultimately show ?thesis
    by (simp add: sha256_def std_sha256_def absorb_eq Let_def)
qed

text \<open>
  C3: the streaming implementation with its block buffer and its two-block last step computes
  the function the standard describes: pad the message, split it into 64-byte blocks and
  compress them in order, with the schedule given by the recurrence.
\<close>

theorem sha256_computes_standard: "sha256 data = std_sha256 data"
  by (rule sha256_eq_std)

section \<open>Digests\<close>

lemma length_sha_output [simp]: "length (sha_output h) = 32"
  by (cases h rule: sha_output.cases) (simp add: store_be_def)

lemma length_sha256 [simp, size_simps]: "length (sha256 data) = 32"
  by (simp add: sha256_def split: prod.splits)

lemma wf_digest_sha256 [simp]: "wf_digest (sha256 data)"
  by (simp add: wf_digest_def)

lemma wf_digest_zero [simp]: "wf_digest zero_digest"
  by (simp add: wf_digest_def zero_digest_def)

lemma foldl_or_zero_iff:
  "foldl (\<lambda>d i. d OR f i) (z :: 'a::len word) is = 0 \<longleftrightarrow> z = 0 \<and> (\<forall>i \<in> set is. f i = 0)"
proof (induction "is" arbitrary: z)
  case (Cons i "is")
  have "z OR f i = 0 \<longleftrightarrow> z = 0 \<and> f i = 0"
    by (metis or_eq_0_iff)
  with Cons show ?case by auto
qed simp

lemma xor_eq_zero_iff [simp]: "(a :: 'a::len word) XOR b = 0 \<longleftrightarrow> a = b"
  by (metis xor.assoc xor.left_neutral xor_self_eq)

lemma constant_time_equal_iff [simp]:
  assumes "wf_digest a" "wf_digest b"
  shows "constant_time_equal a b \<longleftrightarrow> a = b"
proof -
  have "constant_time_equal a b \<longleftrightarrow> (\<forall>i<32. a ! i = b ! i)"
    by (auto simp: constant_time_equal_def foldl_or_zero_iff)
  then show ?thesis
    using assms by (auto simp: wf_digest_def intro: nth_equalityI)
qed

end
