(* ===== verification/AIS_Digest.thy ===== *)
theory AIS_Digest
  imports AIS_Sha256
begin

text \<open>
  The interface between SHA-256 and the components that authenticate or chain data. A
  component encodes a message and keeps a digest of the encoding. What it may conclude from
  two equal digests is that the digested contents agree, unless the two messages exhibit a
  collision of SHA-256 among byte strings that can be read off them. The locale states
  this contract once; every message type of the program interprets it.
\<close>

section \<open>Collisions\<close>

definition is_collision :: "bytes \<times> bytes \<Rightarrow> bool" where
  "is_collision p \<longleftrightarrow> fst p \<noteq> snd p \<and> sha256 (fst p) = sha256 (snd p)"

lemma sha256_equal_or_collision:
  "sha256 x = sha256 y \<Longrightarrow> x = y \<or> is_collision (x, y)"
  by (auto simp: is_collision_def)

section \<open>Authenticated messages\<close>

locale authenticated_message =
  fixes enc :: "'m \<Rightarrow> bytes"
    and digest_of :: "bytes \<Rightarrow> digest"
    and pairs :: "bytes \<Rightarrow> bytes \<Rightarrow> (bytes \<times> bytes) list"
    and wf :: "'m \<Rightarrow> bool"
    and content :: "'m \<Rightarrow> 'c"
  assumes enc_inj: "wf m \<Longrightarrow> wf m' \<Longrightarrow> enc m = enc m' \<Longrightarrow> content m = content m'"
    and digest_inj: "digest_of x = digest_of y \<Longrightarrow> x = y \<or> (\<exists>p \<in> set (pairs x y). is_collision p)"
    and digest_wf: "wf_digest (digest_of x)"
begin

lemma binding:
  assumes "wf m" "wf m'" "digest_of (enc m) = digest_of (enc m')"
  shows "content m = content m' \<or> (\<exists>p \<in> set (pairs (enc m) (enc m')). is_collision p)"
  using assms enc_inj digest_inj by blast

text \<open>The check every receiver makes: the digest it computes against the one it was given.\<close>

lemma binding_checked:
  assumes "wf m" "wf m'" "wf_digest d"
    and "constant_time_equal (digest_of (enc m)) d" "constant_time_equal (digest_of (enc m')) d"
  shows "content m = content m' \<or> (\<exists>p \<in> set (pairs (enc m) (enc m')). is_collision p)"
  using assms digest_wf by (intro binding) auto

end

text \<open>The digest is SHA-256 of a fixed prefix (a key, or nothing) and the encoding.\<close>

definition prefixed_hash :: "bytes \<Rightarrow> bytes \<Rightarrow> digest" where
  "prefixed_hash pre x = sha256 (pre @ x)"

definition prefixed_pairs :: "bytes \<Rightarrow> bytes \<Rightarrow> bytes \<Rightarrow> (bytes \<times> bytes) list" where
  "prefixed_pairs pre x y = [(pre @ x, pre @ y)]"

lemma prefixed_hash_inj:
  "prefixed_hash pre x = prefixed_hash pre y \<Longrightarrow>
     x = y \<or> (\<exists>p \<in> set (prefixed_pairs pre x y). is_collision p)"
  using sha256_equal_or_collision [of "pre @ x" "pre @ y"]
  by (auto simp: prefixed_hash_def prefixed_pairs_def)

lemma wf_prefixed_hash [simp]: "wf_digest (prefixed_hash pre x)"
  by (simp add: prefixed_hash_def)

locale hashed_message =
  fixes enc :: "'m \<Rightarrow> bytes" and pre :: bytes and wf :: "'m \<Rightarrow> bool" and content :: "'m \<Rightarrow> 'c"
  assumes hashed_inj: "wf m \<Longrightarrow> wf m' \<Longrightarrow> enc m = enc m' \<Longrightarrow> content m = content m'"

sublocale hashed_message \<subseteq> authenticated_message enc "prefixed_hash pre" "prefixed_pairs pre" wf content
  by unfold_locales (auto dest: hashed_inj prefixed_hash_inj)

section \<open>HMAC\<close>

text \<open>
  \<open>hmac_sha256\<close> of \<open>src/abi2.cpp\<close>: the 32-byte key fills the first half of the two pads.
\<close>

definition hmac_inner_key :: "digest \<Rightarrow> bytes" where
  "hmac_inner_key key = map (\<lambda>b. b XOR 0x36) key @ replicate (64 - length key) 0x36"

definition hmac_outer_key :: "digest \<Rightarrow> bytes" where
  "hmac_outer_key key = map (\<lambda>b. b XOR 0x5c) key @ replicate (64 - length key) 0x5c"

definition hmac_sha256 :: "bytes \<Rightarrow> digest \<Rightarrow> digest" where
  "hmac_sha256 message key =
     (let inner_hash = sha256 (hmac_inner_key key @ message)
      in sha256 (hmac_outer_key key @ inner_hash))"

text \<open>The construction of the standard: the key padded with zeros to a block, then masked.\<close>

definition std_hmac :: "digest \<Rightarrow> bytes \<Rightarrow> digest" where
  "std_hmac key message =
     (let k = key @ replicate (64 - length key) 0;
          mask = \<lambda>m. map (\<lambda>b. b XOR m) k
      in std_sha256 (mask 0x5c @ std_sha256 (mask 0x36 @ message)))"

definition hmac_pairs :: "digest \<Rightarrow> bytes \<Rightarrow> bytes \<Rightarrow> (bytes \<times> bytes) list" where
  "hmac_pairs key x y =
     [(hmac_outer_key key @ sha256 (hmac_inner_key key @ x), hmac_outer_key key @ sha256 (hmac_inner_key key @ y)),
      (hmac_inner_key key @ x, hmac_inner_key key @ y)]"

text \<open>
  C4: the keyed digest of the sensor channel is the HMAC of the standard over the standard's
  SHA-256, for every key and message.
\<close>

theorem hmac_computes_standard: "hmac_sha256 message key = std_hmac key message"
  by (simp add: hmac_sha256_def std_hmac_def Let_def hmac_inner_key_def hmac_outer_key_def
      sha256_eq_std map_replicate)

lemma wf_hmac [simp]: "wf_digest (hmac_sha256 m k)"
  by (simp add: hmac_sha256_def)

lemma hmac_inj:
  "hmac_sha256 x key = hmac_sha256 y key \<Longrightarrow>
     x = y \<or> (\<exists>p \<in> set (hmac_pairs key x y). is_collision p)"
  by (auto simp: hmac_sha256_def hmac_pairs_def is_collision_def Let_def)

locale hmac_message =
  fixes enc :: "'m \<Rightarrow> bytes" and key :: digest and wf :: "'m \<Rightarrow> bool" and content :: "'m \<Rightarrow> 'c"
  assumes keyed_inj: "wf m \<Longrightarrow> wf m' \<Longrightarrow> enc m = enc m' \<Longrightarrow> content m = content m'"

sublocale hmac_message \<subseteq>
  authenticated_message enc "\<lambda>x. hmac_sha256 x key" "hmac_pairs key" wf content
  by unfold_locales (auto dest: keyed_inj hmac_inj)

end
