(* ===== verification/AIS_Abi.thy ===== *)
theory AIS_Abi
  imports AIS_Digest
begin

text \<open>
  The binary contracts between the drivers, the broker and the core:
  \<open>include/ai_shield/abi.hpp\<close> (actions, reason codes, \<open>FlowEvent\<close>, \<open>ShieldDecision\<close>),
  \<open>correlation.hpp\<close>, the header checks of \<open>src/abi_validation.cpp\<close>, the authenticated
  flow events of \<open>src/ipc_validator.cpp\<close> and the ABI 2.0 sensor channel of
  \<open>src/abi2.cpp\<close>. Structures arrive from outside, so their enumeration fields are kept as
  raw integers; time stamps and sequence numbers are 64-bit words and wrap as the code's do.
\<close>

section \<open>abi.hpp\<close>

definition kAbiVersion :: u32 where
  "kAbiVersion = push_bit 16 1 OR 0"

datatype shield_action =
    SA_allow | SA_allow_monitored | SA_rate_limit | SA_redirect_sandbox
  | SA_quarantine | SA_drop_flow | SA_block_origin | SA_suspend_target

fun action_code :: "shield_action \<Rightarrow> u32" where
  "action_code SA_allow = 0"
| "action_code SA_allow_monitored = 1"
| "action_code SA_rate_limit = 2"
| "action_code SA_redirect_sandbox = 3"
| "action_code SA_quarantine = 4"
| "action_code SA_drop_flow = 5"
| "action_code SA_block_origin = 6"
| "action_code SA_suspend_target = 7"

lemma action_code_inject [simp]: "action_code a = action_code b \<longleftrightarrow> a = b"
  by (cases a; cases b) simp_all

abbreviation (input) proto_malformed :: u32 where "proto_malformed \<equiv> 0x0001"
abbreviation (input) proto_ambiguous :: u32 where "proto_ambiguous \<equiv> 0x0002"
abbreviation (input) signature_match :: u32 where "signature_match \<equiv> 0x0004"
abbreviation (input) path_traversal :: u32 where "path_traversal \<equiv> 0x0008"
abbreviation (input) command_execution :: u32 where "command_execution \<equiv> 0x0010"
abbreviation (input) external_exec_pending :: u32 where "external_exec_pending \<equiv> 0x0020"
abbreviation (input) sandbox_inconclusive :: u32 where "sandbox_inconclusive \<equiv> 0x0040"
abbreviation (input) sandbox_escape_signal :: u32 where "sandbox_escape_signal \<equiv> 0x0080"
abbreviation (input) sensor_integrity_gap :: u32 where "sensor_integrity_gap \<equiv> 0x0100"
abbreviation (input) abi_violation :: u32 where "abi_violation \<equiv> 0x0200"
abbreviation (input) policy_signature_invalid :: u32 where "policy_signature_invalid \<equiv> 0x0400"
abbreviation (input) model_signature_invalid :: u32 where "model_signature_invalid \<equiv> 0x0800"
abbreviation (input) campaign_correlation :: u32 where "campaign_correlation \<equiv> 0x1000"
abbreviation (input) consequence_detected :: u32 where "consequence_detected \<equiv> 0x2000"
abbreviation (input) queue_overflow :: u32 where "queue_overflow \<equiv> 0x4000"
abbreviation (input) degraded_mode :: u32 where "degraded_mode \<equiv> 0x8000"
abbreviation (input) unregistered_service :: u32 where "unregistered_service \<equiv> 0x00010000"
abbreviation (input) archive_path_escape :: u32 where "archive_path_escape \<equiv> 0x00020000"
abbreviation (input) archive_bomb_risk :: u32 where "archive_bomb_risk \<equiv> 0x00040000"
abbreviation (input) executable_format_anomaly :: u32 where "executable_format_anomaly \<equiv> 0x00080000"
abbreviation (input) update_rollback :: u32 where "update_rollback \<equiv> 0x00100000"
abbreviation (input) tls_downgrade :: u32 where "tls_downgrade \<equiv> 0x00200000"
abbreviation (input) xml_entity_expansion :: u32 where "xml_entity_expansion \<equiv> 0x00400000"
abbreviation (input) document_active_content :: u32 where "document_active_content \<equiv> 0x00800000"
abbreviation (input) adaptive_mutation :: u32 where "adaptive_mutation \<equiv> 0x01000000"
abbreviation (input) proxy_loop :: u32 where "proxy_loop \<equiv> 0x02000000"
abbreviation (input) rate_limited :: u32 where "rate_limited \<equiv> 0x04000000"
abbreviation (input) worker_crash :: u32 where "worker_crash \<equiv> 0x08000000"
abbreviation (input) privacy_redacted :: u32 where "privacy_redacted \<equiv> 0x10000000"
abbreviation (input) online_learning_blocked :: u32 where "online_learning_blocked \<equiv> 0x20000000"
abbreviation (input) transaction_rollback :: u32 where "transaction_rollback \<equiv> 0x40000000"
abbreviation (input) decision_timeout :: u32 where "decision_timeout \<equiv> 0x80000000"

record shield_decision =
  sd_abi_version :: u32
  sd_structure_size :: u32
  sd_decision_id :: u64
  sd_flow_id :: u64
  sd_action :: u32
  sd_risk_score :: u16
  sd_confidence :: u16
  sd_reason_mask :: u32
  sd_valid_until_monotonic_ns :: u64
  sd_evidence_hash :: digest
  sd_message_mac :: digest

record flow_event =
  fe_abi_version :: u32
  fe_structure_size :: u32
  fe_sequence :: u64
  fe_flow_id :: u64
  fe_monotonic_ns :: u64
  fe_source_ipv4_be :: u32
  fe_target_ipv4_be :: u32
  fe_source_port_be :: u16
  fe_target_port_be :: u16
  fe_protocol :: u16
  fe_flags :: u16
  fe_payload_hash :: digest
  fe_message_mac :: digest

text \<open>
  Both structures are aligned to 64 bytes: 112 bytes of members each, padded to 128
  (\<open>ShieldDecision\<close>: 40, padded for its 64-bit deadline, 48, then two digests).
\<close>

definition sizeof_FlowEvent :: u32 where "sizeof_FlowEvent = 128"
definition sizeof_ShieldDecision :: u32 where "sizeof_ShieldDecision = 128"

definition valid_header :: "u32 \<Rightarrow> u32 \<Rightarrow> u32 \<Rightarrow> bool" where
  "valid_header version size' expected_size \<longleftrightarrow> version = kAbiVersion \<and> size' = expected_size"

record corr_context =
  cx_flow_id :: u64
  cx_object_id :: u64
  cx_file_id :: u64
  cx_volume_id :: u64
  cx_provenance_id :: u64
  cx_process_id :: u64
  cx_parent_process_id :: u64
  cx_policy_version :: u64
  cx_model_version :: u64

definition correlation_valid :: "corr_context \<Rightarrow> bool" where
  "correlation_valid c \<longleftrightarrow> cx_flow_id c \<noteq> 0 \<and> cx_policy_version c \<noteq> 0 \<and> cx_model_version c \<noteq> 0"

definition empty_context :: corr_context where
  "empty_context = \<lparr>cx_flow_id = 0, cx_object_id = 0, cx_file_id = 0, cx_volume_id = 0, cx_provenance_id = 0,
     cx_process_id = 0, cx_parent_process_id = 0, cx_policy_version = 0, cx_model_version = 0\<rparr>"

section \<open>abi_validation.cpp\<close>

record av_context =
  av_expected_next_sequence :: u64
  av_now_monotonic_ns :: u64
  av_max_clock_skew_ns :: u64
  av_known_flow_id :: u64

definition kKnownFlowFlags :: u16 where "kKnownFlowFlags = 0x0003"

definition valid_action :: "u32 \<Rightarrow> bool" where
  "valid_action a \<longleftrightarrow>
     a \<in> set (map action_code [SA_allow, SA_allow_monitored, SA_rate_limit, SA_redirect_sandbox,
                SA_quarantine, SA_drop_flow, SA_block_origin, SA_suspend_target])"

definition av_validate_flow_event_header :: "u32 \<Rightarrow> u32 \<Rightarrow> u16 \<Rightarrow> unit result" where
  "av_validate_flow_event_header abi_version structure_size flags =
     (if abi_version \<noteq> kAbiVersion then Inl St_incompatible_version
      else if structure_size < sizeof_FlowEvent \<or> structure_size > sizeof_FlowEvent then Inl St_malformed_input
      else if flags AND NOT kKnownFlowFlags \<noteq> 0 then Inl St_malformed_input
      else ok_unit)"

definition av_validate_flow_event :: "flow_event \<Rightarrow> av_context \<Rightarrow> unit result" where
  "av_validate_flow_event event context =
     (let header = av_validate_flow_event_header (fe_abi_version event) (fe_structure_size event) (fe_flags event) in
      if \<not> res_ok header then Inl (res_status header)
      else if fe_sequence event < av_expected_next_sequence context then Inl St_integrity_failure
      else if fe_flow_id event = 0 \<or> (av_known_flow_id context \<noteq> 0 \<and> fe_flow_id event \<noteq> av_known_flow_id context)
        then Inl St_not_found
      else if fe_monotonic_ns event + av_max_clock_skew_ns context < av_now_monotonic_ns context
        then Inl St_invalid_state_transition
      else ok_unit)"

definition av_validate_shield_decision :: "shield_decision \<Rightarrow> av_context \<Rightarrow> unit result" where
  "av_validate_shield_decision decision context =
     (if sd_abi_version decision \<noteq> kAbiVersion then Inl St_incompatible_version
      else if sd_structure_size decision < sizeof_ShieldDecision \<or> sd_structure_size decision > sizeof_ShieldDecision
        then Inl St_malformed_input
      else if \<not> valid_action (sd_action decision) then Inl St_malformed_input
      else if sd_flow_id decision = 0 \<or>
              (av_known_flow_id context \<noteq> 0 \<and> sd_flow_id decision \<noteq> av_known_flow_id context)
        then Inl St_not_found
      else if sd_valid_until_monotonic_ns decision + av_max_clock_skew_ns context < av_now_monotonic_ns context
        then Inl St_invalid_state_transition
      else ok_unit)"

lemma valid_action_code [simp]: "valid_action (action_code a)"
  by (cases a) (simp_all add: valid_action_def)

section \<open>ipc_validator.cpp\<close>

record ipc_context =
  ipc_expected_next_sequence :: u64
  ipc_now_monotonic_ns :: u64
  ipc_max_clock_skew_ns :: u64
  ipc_mac_key :: digest

text \<open>Every field is widened to 64 bits before it is appended.\<close>

definition flow_event_bytes :: "flow_event \<Rightarrow> bytes" where
  "flow_event_bytes event =
     le_bytes 8 (fe_abi_version event) @ le_bytes 8 (fe_structure_size event) @ le64 (fe_sequence event) @
     le64 (fe_flow_id event) @ le64 (fe_monotonic_ns event) @ le_bytes 8 (fe_source_ipv4_be event) @
     le_bytes 8 (fe_target_ipv4_be event) @ le_bytes 8 (fe_source_port_be event) @
     le_bytes 8 (fe_target_port_be event) @ le_bytes 8 (fe_protocol event) @ le_bytes 8 (fe_flags event) @
     fe_payload_hash event"

definition compute_flow_event_mac :: "flow_event \<Rightarrow> digest \<Rightarrow> digest" where
  "compute_flow_event_mac event key = prefixed_hash key (flow_event_bytes event)"

text \<open>
  The clock window shared by the two authenticated channels: the lower bound is cut off
  at zero, the upper bound is a 64-bit sum and wraps.
\<close>

definition skew_lower :: "u64 \<Rightarrow> u64 \<Rightarrow> u64" where
  "skew_lower now skew = (if now > skew then now - skew else 0)"

definition ipc_validate_flow_event :: "flow_event \<Rightarrow> ipc_context \<Rightarrow> unit result" where
  "ipc_validate_flow_event event context =
     (if \<not> valid_header (fe_abi_version event) (fe_structure_size event) sizeof_FlowEvent
        then Inl St_integrity_failure
      else if fe_sequence event \<noteq> ipc_expected_next_sequence context then Inl St_integrity_failure
      else
        let lower_bound = skew_lower (ipc_now_monotonic_ns context) (ipc_max_clock_skew_ns context);
            upper_bound = ipc_now_monotonic_ns context + ipc_max_clock_skew_ns context
        in if fe_monotonic_ns event < lower_bound \<or> fe_monotonic_ns event > upper_bound
             then Inl St_integrity_failure
           else if \<not> constant_time_equal (compute_flow_event_mac event (ipc_mac_key context)) (fe_message_mac event)
             then Inl St_integrity_failure
           else ok_unit)"

section \<open>abi2.cpp\<close>

definition kMagic :: u32 where "kMagic = 0x32485341"
definition kMajor :: u16 where "kMajor = 2"
definition kMinor :: u16 where "kMinor = 0"
definition kKnownHeaderFlags :: u32 where "kKnownHeaderFlags = 0"
definition kKnownEventFlags :: u32 where "kKnownEventFlags = 0x0000001f"
definition mt_sensor_event :: u16 where "mt_sensor_event = 1"
definition sizeof_MessageHeader :: u32 where "sizeof_MessageHeader = 104"
definition sizeof_SensorEvent :: u32 where "sizeof_SensorEvent = 248"

record message_header =
  mh_magic :: u32
  mh_abi_major :: u16
  mh_abi_minor :: u16
  mh_message_type :: u16
  mh_header_size :: u16
  mh_structure_size :: u32
  mh_sequence :: u64
  mh_monotonic_ns :: u64
  mh_payload_length :: u32
  mh_flags :: u32
  mh_flow_id :: u64
  mh_object_id :: u64
  mh_policy_version :: u64
  mh_model_version :: u64
  mh_message_mac :: digest

record sensor_event =
  se_header :: message_header
  se_sensor :: u32
  se_kind :: u32
  se_process_id :: u64
  se_parent_process_id :: u64
  se_provenance_id :: u64
  se_volume_id :: u64
  se_file_id :: u64
  se_subject_id :: u64
  se_local_port :: u32
  se_remote_port :: u32
  se_address_family :: u16
  se_protocol :: u16
  se_decision :: u32
  se_event_flags :: u32
  se_source_address :: bytes
  se_target_address :: bytes
  se_evidence_hash :: digest

record abi2_context =
  a2_expected_sequence :: u64
  a2_now_monotonic_ns :: u64
  a2_maximum_clock_skew_ns :: u64
  a2_channel_key :: digest

definition header_bytes :: "message_header \<Rightarrow> bytes" where
  "header_bytes h =
     le32 (mh_magic h) @ le16 (mh_abi_major h) @ le16 (mh_abi_minor h) @ le16 (mh_message_type h) @
     le16 (mh_header_size h) @ le32 (mh_structure_size h) @ le64 (mh_sequence h) @ le64 (mh_monotonic_ns h) @
     le32 (mh_payload_length h) @ le32 (mh_flags h) @ le64 (mh_flow_id h) @ le64 (mh_object_id h) @
     le64 (mh_policy_version h) @ le64 (mh_model_version h)"

definition authenticated_bytes :: "sensor_event \<Rightarrow> bytes" where
  "authenticated_bytes e =
     header_bytes (se_header e) @
     le32 (se_sensor e) @ le32 (se_kind e) @ le64 (se_process_id e) @ le64 (se_parent_process_id e) @
     le64 (se_provenance_id e) @ le64 (se_volume_id e) @ le64 (se_file_id e) @ le64 (se_subject_id e) @
     le32 (se_local_port e) @ le32 (se_remote_port e) @ le16 (se_address_family e) @ le16 (se_protocol e) @
     le32 (se_decision e) @ le32 (se_event_flags e) @ se_source_address e @ se_target_address e @
     se_evidence_hash e"

definition abi2_compute_mac :: "sensor_event \<Rightarrow> digest \<Rightarrow> digest" where
  "abi2_compute_mac event key = hmac_sha256 (authenticated_bytes event) key"

definition abi2_seal :: "sensor_event \<Rightarrow> digest \<Rightarrow> sensor_event" where
  "abi2_seal event key =
     (let header = (se_header event)\<lparr>mh_magic := kMagic, mh_abi_major := kMajor, mh_abi_minor := kMinor,
            mh_message_type := mt_sensor_event, mh_header_size := ucast sizeof_MessageHeader,
            mh_structure_size := sizeof_SensorEvent,
            mh_payload_length := sizeof_SensorEvent - sizeof_MessageHeader\<rparr>;
          event = event\<lparr>se_header := header\<rparr>
      in event\<lparr>se_header := header\<lparr>mh_message_mac := abi2_compute_mac event key\<rparr>\<rparr>)"

text \<open>The first condition of \<open>validate\<close>: header constants, flags, sequence, sensor and kind.\<close>

definition abi2_contract_violated :: "sensor_event \<Rightarrow> abi2_context \<Rightarrow> bool" where
  "abi2_contract_violated event context \<longleftrightarrow>
     (let header = se_header event in
      mh_magic header \<noteq> kMagic \<or> mh_abi_major header \<noteq> kMajor \<or> mh_abi_minor header > kMinor \<or>
      mh_message_type header \<noteq> mt_sensor_event \<or> mh_header_size header \<noteq> ucast sizeof_MessageHeader \<or>
      mh_structure_size header \<noteq> sizeof_SensorEvent \<or>
      mh_payload_length header \<noteq> sizeof_SensorEvent - sizeof_MessageHeader \<or>
      mh_flags header AND NOT kKnownHeaderFlags \<noteq> 0 \<or> se_event_flags event AND NOT kKnownEventFlags \<noteq> 0 \<or>
      mh_sequence header \<noteq> a2_expected_sequence context \<or> se_sensor event = 0 \<or> se_kind event = 0)"

definition abi2_validate :: "sensor_event \<Rightarrow> abi2_context \<Rightarrow> unit result" where
  "abi2_validate event context =
     (let header = se_header event in
      if abi2_contract_violated event context then Inl St_integrity_failure
      else if mh_monotonic_ns header < skew_lower (a2_now_monotonic_ns context) (a2_maximum_clock_skew_ns context) \<or>
              mh_monotonic_ns header > a2_now_monotonic_ns context + a2_maximum_clock_skew_ns context
      then Inl St_integrity_failure
      else if \<not> constant_time_equal (abi2_compute_mac event (a2_channel_key context)) (mh_message_mac header)
      then Inl St_integrity_failure
      else ok_unit)"

section \<open>What the checks establish\<close>

text \<open>Array members have their declared lengths.\<close>

definition wf_flow_event :: "flow_event \<Rightarrow> bool" where
  "wf_flow_event e \<longleftrightarrow> wf_digest (fe_payload_hash e) \<and> wf_digest (fe_message_mac e)"

definition wf_sensor_event :: "sensor_event \<Rightarrow> bool" where
  "wf_sensor_event e \<longleftrightarrow> wf_digest (mh_message_mac (se_header e)) \<and> length (se_source_address e) = 16 \<and>
     length (se_target_address e) = 16 \<and> wf_digest (se_evidence_hash e)"

text \<open>What a digest binds: everything but the digest field itself.\<close>

definition flow_content :: "flow_event \<Rightarrow> flow_event" where
  "flow_content e = e\<lparr>fe_message_mac := zero_digest\<rparr>"

definition sensor_content :: "sensor_event \<Rightarrow> sensor_event" where
  "sensor_content e = e\<lparr>se_header := (se_header e)\<lparr>mh_message_mac := zero_digest\<rparr>\<rparr>"

lemma flow_event_bytes_inj:
  assumes "wf_flow_event e" "wf_flow_event e'" "flow_event_bytes e = flow_event_bytes e'"
  shows "flow_content e = flow_content e'"
  using assms
  by (simp add: flow_event_bytes_def wf_flow_event_def wf_digest_def flow_content_def inj_simps)

lemma length_header_bytes [simp, size_simps]: "length (header_bytes h) = 72"
  by (simp add: header_bytes_def)

lemma header_bytes_inject:
  "header_bytes h = header_bytes h' \<longleftrightarrow>
     h\<lparr>mh_message_mac := zero_digest\<rparr> = h'\<lparr>mh_message_mac := zero_digest\<rparr>"
  by (cases h; cases h') (auto simp: header_bytes_def inj_simps)

lemma authenticated_bytes_inj:
  assumes "wf_sensor_event e" "wf_sensor_event e'" "authenticated_bytes e = authenticated_bytes e'"
  shows "sensor_content e = sensor_content e'"
  using assms
  by (simp add: authenticated_bytes_def wf_sensor_event_def wf_digest_def sensor_content_def inj_simps
      header_bytes_inject)

lemma length_authenticated_bytes [size_simps]:
  "wf_sensor_event e \<Longrightarrow> length (authenticated_bytes e) = 212"
  by (simp add: authenticated_bytes_def wf_sensor_event_def wf_digest_def)

interpretation ipc_message: hashed_message flow_event_bytes key wf_flow_event flow_content
  for key
  by unfold_locales (rule flow_event_bytes_inj)

interpretation abi2_message: hmac_message authenticated_bytes key wf_sensor_event sensor_content
  for key
  by unfold_locales (rule authenticated_bytes_inj)

section \<open>Properties of the sensor channel\<close>

definition within_window :: "u64 \<Rightarrow> u64 \<Rightarrow> u64 \<Rightarrow> bool" where
  "within_window now skew t \<longleftrightarrow> skew_lower now skew \<le> t \<and> t \<le> now + skew"

lemma within_window_distance:
  assumes "unat now + unat skew < 2 ^ 64"
  shows "within_window now skew t \<longleftrightarrow> \<bar>int (unat t) - int (unat now)\<bar> \<le> int (unat skew)"
proof -
  have "unat (now + skew) = unat now + unat skew"
    using assms by (simp add: unat_plus_if')
  moreover have "unat (skew_lower now skew) = unat now - unat skew"
    by (simp add: skew_lower_def unat_sub_if' word_less_nat_alt)
  ultimately show ?thesis
    by (simp add: within_window_def word_le_nat_alt del: of_nat_unat) linarith
qed

lemma skew_checks [simp]:
  "(t < skew_lower now skew \<or> now + skew < t) \<longleftrightarrow> \<not> within_window now skew t"
  by (auto simp: within_window_def not_le)

lemma abi2_accepted_iff:
  "abi2_validate e c = ok_unit \<longleftrightarrow>
     \<not> abi2_contract_violated e c \<and>
     within_window (a2_now_monotonic_ns c) (a2_maximum_clock_skew_ns c) (mh_monotonic_ns (se_header e)) \<and>
     constant_time_equal (abi2_compute_mac e (a2_channel_key c)) (mh_message_mac (se_header e))"
  by (simp add: abi2_validate_def Let_def)

text \<open>What sealing writes and what it leaves alone.\<close>

lemma sealed_simps [simp]:
  "mh_magic (se_header (abi2_seal e k)) = kMagic"
  "mh_abi_major (se_header (abi2_seal e k)) = kMajor"
  "mh_abi_minor (se_header (abi2_seal e k)) = kMinor"
  "mh_message_type (se_header (abi2_seal e k)) = mt_sensor_event"
  "mh_header_size (se_header (abi2_seal e k)) = ucast sizeof_MessageHeader"
  "mh_structure_size (se_header (abi2_seal e k)) = sizeof_SensorEvent"
  "mh_payload_length (se_header (abi2_seal e k)) = sizeof_SensorEvent - sizeof_MessageHeader"
  "mh_sequence (se_header (abi2_seal e k)) = mh_sequence (se_header e)"
  "mh_monotonic_ns (se_header (abi2_seal e k)) = mh_monotonic_ns (se_header e)"
  "mh_flags (se_header (abi2_seal e k)) = mh_flags (se_header e)"
  "se_event_flags (abi2_seal e k) = se_event_flags e"
  "se_sensor (abi2_seal e k) = se_sensor e" "se_kind (abi2_seal e k) = se_kind e"
  "se_source_address (abi2_seal e k) = se_source_address e"
  "se_target_address (abi2_seal e k) = se_target_address e"
  "se_evidence_hash (abi2_seal e k) = se_evidence_hash e"
  by (simp_all add: abi2_seal_def Let_def)

lemma header_bytes_mac [simp]: "header_bytes (h\<lparr>mh_message_mac := m\<rparr>) = header_bytes h"
  by (simp add: header_bytes_def)

lemma authenticated_bytes_mac [simp]:
  "authenticated_bytes (e\<lparr>se_header := h\<lparr>mh_message_mac := m\<rparr>\<rparr>) = authenticated_bytes (e\<lparr>se_header := h\<rparr>)"
  by (simp add: authenticated_bytes_def)

lemma sealed_mac: "mh_message_mac (se_header (abi2_seal e k)) = abi2_compute_mac (abi2_seal e k) k"
  by (simp add: abi2_seal_def abi2_compute_mac_def Let_def)

lemma wf_abi2_mac [simp]: "wf_digest (abi2_compute_mac e k)"
  by (simp add: abi2_compute_mac_def)

lemma constant_time_equal_refl [simp]: "wf_digest d \<Longrightarrow> constant_time_equal d d"
  by simp

lemma abi2_sealed_accepted_iff:
  "abi2_validate (abi2_seal event (a2_channel_key context)) context = ok_unit \<longleftrightarrow>
     mh_flags (se_header event) AND NOT kKnownHeaderFlags = 0 \<and>
     se_event_flags event AND NOT kKnownEventFlags = 0 \<and>
     mh_sequence (se_header event) = a2_expected_sequence context \<and>
     se_sensor event \<noteq> 0 \<and> se_kind event \<noteq> 0 \<and>
     within_window (a2_now_monotonic_ns context) (a2_maximum_clock_skew_ns context)
       (mh_monotonic_ns (se_header event))"
  by (auto simp: abi2_accepted_iff abi2_contract_violated_def Let_def sealed_mac)

text \<open>
  An event that was sealed with the channel key is accepted exactly when it sets no
  unknown flag, carries the expected sequence number, names a sensor and a kind, and its
  time stamp lies in the clock window; the header constants and the MAC never get in the
  way of an honest sender.
\<close>

theorem abi2_sealed_accepted:
  "abi2_validate (abi2_seal event (a2_channel_key context)) context = ok_unit \<longleftrightarrow>
     mh_flags (se_header event) AND NOT kKnownHeaderFlags = 0 \<and>
     se_event_flags event AND NOT kKnownEventFlags = 0 \<and>
     mh_sequence (se_header event) = a2_expected_sequence context \<and>
     se_sensor event \<noteq> 0 \<and> se_kind event \<noteq> 0 \<and>
     within_window (a2_now_monotonic_ns context) (a2_maximum_clock_skew_ns context)
       (mh_monotonic_ns (se_header event))"
  by (rule abi2_sealed_accepted_iff)

lemma abi2_accepted_mac:
  "abi2_validate e c = ok_unit \<Longrightarrow>
     constant_time_equal (abi2_compute_mac e (a2_channel_key c)) (mh_message_mac (se_header e))"
  by (simp add: abi2_accepted_iff)

lemma abi2_accepted_window:
  "abi2_validate e c = ok_unit \<Longrightarrow>
     within_window (a2_now_monotonic_ns c) (a2_maximum_clock_skew_ns c) (mh_monotonic_ns (se_header e)) \<and>
     mh_sequence (se_header e) = a2_expected_sequence c"
  by (simp add: abi2_accepted_iff abi2_contract_violated_def Let_def)

text \<open>
  C5: two events that receivers with the same channel key accepted and that carry the same MAC
  are the same event, field by field, unless they exhibit a collision of SHA-256 among
  the four strings that the two MAC computations hash.
\<close>

theorem abi2_mac_binds_event:
  assumes "abi2_validate e c = ok_unit" "abi2_validate e' c' = ok_unit"
    and "a2_channel_key c' = a2_channel_key c"
    and "mh_message_mac (se_header e') = mh_message_mac (se_header e)"
    and "wf_sensor_event e" "wf_sensor_event e'"
  shows "e = e' \<or>
    (\<exists>p \<in> set (hmac_pairs (a2_channel_key c) (authenticated_bytes e) (authenticated_bytes e')). is_collision p)"
proof -
  have "sensor_content e = sensor_content e' \<or>
    (\<exists>p \<in> set (hmac_pairs (a2_channel_key c) (authenticated_bytes e) (authenticated_bytes e')). is_collision p)"
    using abi2_accepted_mac [OF assms(1)] abi2_accepted_mac [OF assms(2)] assms(3-6)
    by (intro abi2_message.binding_checked [where d = "mh_message_mac (se_header e)"])
       (simp_all add: abi2_compute_mac_def wf_sensor_event_def)
  moreover have "sensor_content e = sensor_content e' \<Longrightarrow> e = e'"
    using assms(4) by (cases e; cases e'; cases "se_header e"; cases "se_header e'")
      (auto simp: sensor_content_def)
  ultimately show ?thesis by blast
qed

definition sample_header :: message_header where
  "sample_header = \<lparr>mh_magic = 0, mh_abi_major = 0, mh_abi_minor = 0, mh_message_type = 0, mh_header_size = 0,
     mh_structure_size = 0, mh_sequence = 7, mh_monotonic_ns = 1000, mh_payload_length = 0, mh_flags = 0,
     mh_flow_id = 9, mh_object_id = 3, mh_policy_version = 1, mh_model_version = 1, mh_message_mac = zero_digest\<rparr>"

definition sample_event :: sensor_event where
  "sample_event = \<lparr>se_header = sample_header, se_sensor = 1, se_kind = 2, se_process_id = 40, se_parent_process_id = 4,
     se_provenance_id = 0, se_volume_id = 5, se_file_id = 6, se_subject_id = 0, se_local_port = 443,
     se_remote_port = 50000, se_address_family = 2, se_protocol = 6, se_decision = 0, se_event_flags = 1,
     se_source_address = replicate 16 1, se_target_address = replicate 16 2, se_evidence_hash = zero_digest\<rparr>"

definition sample_channel :: abi2_context where
  "sample_channel = \<lparr>a2_expected_sequence = 7, a2_now_monotonic_ns = 1200, a2_maximum_clock_skew_ns = 500,
     a2_channel_key = replicate 32 0xab\<rparr>"

lemma sample_sealed_accepted:
  "abi2_validate (abi2_seal sample_event (a2_channel_key sample_channel)) sample_channel = ok_unit"
  unfolding abi2_sealed_accepted_iff
  by (simp add: sample_event_def sample_header_def sample_channel_def
      kKnownHeaderFlags_def kKnownEventFlags_def within_window_def skew_lower_def)

text \<open>Witnesses: the sealed sample event, in the sample context.\<close>

lemma wf_sealed_sample: "wf_sensor_event (abi2_seal sample_event k)"
  by (simp add: wf_sensor_event_def sealed_mac sample_event_def)

theorem abi2_mac_binds_event_witness:
  "let e = abi2_seal sample_event (a2_channel_key sample_channel) in
   abi2_validate e sample_channel = ok_unit \<and> wf_sensor_event e \<and>
   (e = e \<or> (\<exists>p \<in> set (hmac_pairs (a2_channel_key sample_channel) (authenticated_bytes e) (authenticated_bytes e)).
      is_collision p))"
  using abi2_mac_binds_event [OF sample_sealed_accepted sample_sealed_accepted refl refl
      wf_sealed_sample wf_sealed_sample] sample_sealed_accepted wf_sealed_sample
  by (simp add: Let_def)

text \<open>
  C6: as long as the receiver's clock plus the allowed skew does not wrap, an accepted event is
  the expected one in sequence and its time stamp is at most the skew away from the clock.
\<close>

theorem abi2_accepted_is_fresh:
  assumes "abi2_validate event context = ok_unit"
    and "unat (a2_now_monotonic_ns context) + unat (a2_maximum_clock_skew_ns context) < 2 ^ 64"
  shows "mh_sequence (se_header event) = a2_expected_sequence context \<and>
    \<bar>int (unat (mh_monotonic_ns (se_header event))) - int (unat (a2_now_monotonic_ns context))\<bar>
      \<le> int (unat (a2_maximum_clock_skew_ns context))"
  using abi2_accepted_window [OF assms(1)] assms(2) within_window_distance by blast


theorem abi2_accepted_is_fresh_witness:
  "let e = abi2_seal sample_event (a2_channel_key sample_channel) in
   abi2_validate e sample_channel = ok_unit \<and> mh_sequence (se_header e) = 7 \<and>
   \<bar>int (unat (mh_monotonic_ns (se_header e))) - 1200\<bar> \<le> 500"
  using abi2_accepted_is_fresh [OF sample_sealed_accepted] sample_sealed_accepted
  by (simp add: Let_def sample_channel_def)

end
