(* ===== verification/AIS_Codec.thy ===== *)
theory AIS_Codec
  imports AIS_Abi
begin

text \<open>
  Readers and writers of binary formats. A reader of the source takes a span and an offset,
  returns a \<open>Result\<close> and advances the offset when it succeeds. The interface \<open>codec\<close> says
  what a reader promises its callers: it returns a value exactly when the encoding of that
  value stands at the offset, and then moves past it. Both directions of a format follow
  from it: what was written is read back, and what was read is exactly what was written.
  The loops that read a counted sequence are one combinator, and keep the promise.
\<close>

section \<open>Encodings at an offset\<close>

definition stands_at :: "bytes \<Rightarrow> bytes \<Rightarrow> nat \<Rightarrow> bool" where
  "stands_at e bs off \<longleftrightarrow> prefix e (drop off bs)"

named_theorems at_simps \<comment> \<open>what stands at an offset, piece by piece\<close>

lemma stands_at_Nil [at_simps]: "stands_at [] bs off"
  by (simp add: stands_at_def)

lemma stands_at_append [at_simps]:
  "stands_at (a @ b) bs off \<longleftrightarrow> stands_at a bs off \<and> stands_at b bs (off + length a)"
proof -
  have "prefix (a @ b) l \<longleftrightarrow> prefix a l \<and> prefix b (drop (length a) l)" for l :: bytes
    by (auto simp: prefix_def)
  then show ?thesis by (simp add: stands_at_def add.commute)
qed

lemma stands_at_length: "stands_at e bs off \<Longrightarrow> e \<noteq> [] \<Longrightarrow> off + length e \<le> length bs"
  by (cases e) (auto simp: stands_at_def dest!: prefix_length_le)

lemma stands_at_whole: "stands_at e bs off \<Longrightarrow> off + length e = length bs \<Longrightarrow> drop off bs = e"
  using length_drop [of off bs] by (auto simp: stands_at_def prefix_def simp del: length_drop simp flip: length_0_conv)

lemma stands_at_take: "stands_at e bs off \<longleftrightarrow> take (length e) (drop off bs) = e"
  by (auto simp: stands_at_def prefix_def) (metis append_take_drop_id)

text \<open>The loop that compares a span with a magic number byte by byte.\<close>

definition starts_with :: "bytes \<Rightarrow> bytes \<Rightarrow> bool" where
  "starts_with magic bs \<longleftrightarrow> list_all (\<lambda>i. bs ! i = magic ! i) [0..<length magic]"

lemma starts_with_stands: "length magic \<le> length bs \<Longrightarrow> starts_with magic bs \<longleftrightarrow> stands_at magic bs 0"
  by (auto simp: starts_with_def stands_at_take list_all_iff list_eq_iff_nth_eq [of "take (length magic) bs"])

section \<open>The interface\<close>

locale codec =
  fixes enc :: "'v \<Rightarrow> bytes" and dec :: "bytes \<Rightarrow> nat \<Rightarrow> 'v result \<times> nat" and wf :: "'v \<Rightarrow> bool"
  assumes dec_iff: "fst (dec bs off) = Inr v \<longleftrightarrow> wf v \<and> stands_at (enc v) bs off"
    and dec_moves: "fst (dec bs off) = Inr v \<Longrightarrow> snd (dec bs off) = off + length (enc v)"
begin

lemma dec_fails: "(\<exists>s. fst (dec bs off) = Inl s) \<longleftrightarrow> \<not> (\<exists>v. wf v \<and> stands_at (enc v) bs off)"
  by (metis dec_iff sum.exhaust_sel sum.simps(4))

lemma enc_deterministic:
  assumes "wf v" "wf v'" "stands_at (enc v) bs off" "stands_at (enc v') bs off"
  shows "v = v'"
  using assms dec_iff [of bs off v] dec_iff [of bs off v'] by simp

text \<open>No encoding of a well-formed value is a proper prefix of another one.\<close>

lemma enc_prefix_free: "wf v \<Longrightarrow> wf v' \<Longrightarrow> enc v @ x = enc v' @ y \<Longrightarrow> v = v' \<and> x = y"
  using enc_deterministic [of v v' "enc v @ x" 0] by (metis append_same_eq drop0 prefixI same_append_eq stands_at_def)

end

lemma constant_time_equal_self [simp]: "constant_time_equal d d"
  unfolding constant_time_equal_def foldl_or_zero_iff by simp

lemma of_nat_u64_inject: "m < 2 ^ 64 \<Longrightarrow> n < 2 ^ 64 \<Longrightarrow> (of_nat m :: u64) = of_nat n \<longleftrightarrow> m = n"
  by (simp add: word_unat_eq_iff unat_of_nat)

lemma of_char_u8_inject: "(of_char x :: u8) = of_char y \<longleftrightarrow> x = y"
proof
  assume "(of_char x :: u8) = of_char y"
  then have "(of_nat (of_char x) :: u8) = of_nat (of_char y)" by (simp only: of_nat_of_char)
  then have "(of_char x :: nat) = of_char y" by (simp add: word_unat_eq_iff unat_of_nat)
  then show "x = y" by (rule of_char_eqI)
qed simp

lemma bytes_of_inject [simp]: "bytes_of a = bytes_of b \<longleftrightarrow> a = b"
  unfolding bytes_of_def by (rule inj_map_eq_map) (simp add: inj_def of_char_u8_inject)

text \<open>Sequences of elements whose encodings are prefix-free.\<close>

lemma concat_prefix_free:
  assumes "\<And>x y u v. P x \<Longrightarrow> P y \<Longrightarrow> enc x @ u = enc y @ v \<Longrightarrow> x = y \<and> u = v"
    and "\<forall>x \<in> set xs. P x" "\<forall>y \<in> set ys. P y" "length xs = length ys"
    and "concat (map enc xs) @ u = concat (map enc ys) @ v"
  shows "xs = ys \<and> u = v"
  using assms(2-)
proof (induction xs arbitrary: ys)
  case Nil
  then show ?case by simp
next
  case (Cons x xs)
  from Cons.prems(3) obtain y zs where ys: "ys = y # zs" "length xs = length zs" by (cases ys) auto
  have "x = y \<and> concat (map enc xs) @ u = concat (map enc zs) @ v"
    using Cons.prems ys by (intro assms(1)) auto
  then show ?case using Cons.IH [of zs] Cons.prems ys by simp
qed

section \<open>Fixed-width integers and digests\<close>

lemma le_bytes_le_word:
  assumes "length bs = n" "LENGTH('a::len) = n * 8"
  shows "le_bytes n (le_word bs :: 'a word) = bs"
proof (rule nth_equalityI)
  fix i assume i: "i < length (le_bytes n (le_word bs :: 'a word))"
  then have i': "i < n" by simp
  show "le_bytes n (le_word bs :: 'a word) ! i = bs ! i"
  proof (rule bit_word_eqI)
    fix k assume k: "k < LENGTH(8)"
    then have "(i * 8 + k) div 8 = i" "(i * 8 + k) mod 8 = k" "i * 8 + k < n * 8" using i' by auto
    then show "bit (le_bytes n (le_word bs :: 'a word) ! i) k \<longleftrightarrow> bit (bs ! i) k"
      using i' k assms by (simp add: le_bytes_def bit_ucast_iff bit_drop_bit_eq bit_le_word)
  qed
qed (simp add: assms)

lemma read_le_iff:
  assumes "LENGTH('a::len) = n * 8" "0 < n"
  shows "fst (read_le n bs off) = Inr (v :: 'a word) \<longleftrightarrow> stands_at (le_bytes n v) bs off"
proof
  assume "fst (read_le n bs off) = Inr v"
  then have "off + n \<le> length bs" "v = le_word (take n (drop off bs))"
    by (auto simp: read_le_def split: if_splits)
  then show "stands_at (le_bytes n v) bs off"
    using le_bytes_le_word [of "take n (drop off bs)" n, where 'a = 'a] assms by (simp add: stands_at_take)
next
  assume at: "stands_at (le_bytes n v) bs off"
  then have "off + n \<le> length bs" using assms stands_at_length [OF at] by (auto simp: le_bytes_def)
  with at assms show "fst (read_le n bs off) = Inr v"
    by (simp add: read_le_def stands_at_take le_word_le_bytes)
qed

lemma read_le_moves: "fst (read_le n bs off) = Inr v \<Longrightarrow> snd (read_le n bs off) = off + n"
  by (auto simp: read_le_def split: if_splits)

interpretation u64_codec: codec le64 "read_le 8" "\<lambda>_. True"
  by unfold_locales (simp add: read_le_iff, simp, rule read_le_moves)

interpretation u32_codec: codec le32 "read_le 4" "\<lambda>_. True"
  by unfold_locales (simp add: read_le_iff, simp, rule read_le_moves)

definition read_digest :: "bytes \<Rightarrow> nat \<Rightarrow> digest result \<times> nat" where
  "read_digest bs off =
     (if off + 32 > length bs then (Inl St_malformed_input, off)
      else (Inr (map (\<lambda>i. bs ! (off + i)) [0..<32]), off + 32))"

lemma map_nth_window: "off + n \<le> length bs \<Longrightarrow> map (\<lambda>i. bs ! (off + i)) [0..<n] = take n (drop off bs)"
  by (rule nth_equalityI) auto

interpretation digest_codec: codec "\<lambda>d. d" read_digest wf_digest
proof
  show "fst (read_digest bs off) = Inr d \<longleftrightarrow> wf_digest d \<and> stands_at d bs off" for bs off d
  proof
    assume "fst (read_digest bs off) = Inr d"
    then show "wf_digest d \<and> stands_at d bs off"
      by (auto simp: read_digest_def map_nth_window stands_at_take wf_digest_def simp del: upt_rec_numeral split: if_splits)
  next
    assume "wf_digest d \<and> stands_at d bs off"
    then have d: "length d = 32" "stands_at d bs off" by (simp_all add: wf_digest_def)
    moreover from d have "off + 32 \<le> length bs"
      using stands_at_length [of d bs off] by (cases d) (auto simp: wf_digest_def)
    ultimately show "fst (read_digest bs off) = Inr d"
      by (simp add: read_digest_def map_nth_window stands_at_take del: upt_rec_numeral)
  qed
  show "fst (read_digest bs off) = Inr d \<Longrightarrow> snd (read_digest bs off) = off + length d" for bs off d
    by (auto simp: read_digest_def split: if_splits)
qed

section \<open>Counted sequences\<close>

text \<open>
  The loop \<open>for (i = 0; i < count; ++i)\<close> that reads one element, returns at the first
  failure, and pushes what it read.
\<close>

fun read_seq :: "nat \<Rightarrow> (bytes \<Rightarrow> nat \<Rightarrow> 'a result \<times> nat) \<Rightarrow> bytes \<Rightarrow> nat \<Rightarrow> 'a list result \<times> nat" where
  "read_seq 0 rd bs off = (Inr [], off)"
| "read_seq (Suc n) rd bs off =
     (case rd bs off of
        (Inl s, off') \<Rightarrow> (Inl s, off')
      | (Inr v, off') \<Rightarrow>
          (case read_seq n rd bs off' of
             (Inl s, off'') \<Rightarrow> (Inl s, off'')
           | (Inr vs, off'') \<Rightarrow> (Inr (v # vs), off'')))"

lemma read_seq_Suc_iff:
  "fst (read_seq (Suc n) rd bs off) = Inr vs \<longleftrightarrow>
     (\<exists>w ws. vs = w # ws \<and> fst (rd bs off) = Inr w \<and> fst (read_seq n rd bs (snd (rd bs off))) = Inr ws)"
  by (cases "rd bs off"; cases "fst (rd bs off)"; cases "fst (read_seq n rd bs (snd (rd bs off)))")
    (auto split: prod.splits sum.splits)

lemma read_seq_Suc_moves:
  "fst (read_seq (Suc n) rd bs off) = Inr vs \<Longrightarrow>
     snd (read_seq (Suc n) rd bs off) = snd (read_seq n rd bs (snd (rd bs off)))"
  by (cases "rd bs off"; cases "fst (rd bs off)"; cases "fst (read_seq n rd bs (snd (rd bs off)))")
    (auto split: prod.splits sum.splits)

context codec
begin

lemma read_seq_iff:
  "fst (read_seq n dec bs off) = Inr vs \<longleftrightarrow>
     length vs = n \<and> (\<forall>v \<in> set vs. wf v) \<and> stands_at (concat (map enc vs)) bs off"
proof (induction n arbitrary: off vs)
  case 0
  then show ?case by (auto simp: at_simps)
next
  case (Suc n)
  show ?case
  proof (cases vs)
    case Nil
    then show ?thesis by (simp add: read_seq_Suc_iff del: read_seq.simps)
  next
    case (Cons w ws)
    have "fst (read_seq (Suc n) dec bs off) = Inr vs \<longleftrightarrow>
        fst (dec bs off) = Inr w \<and> fst (read_seq n dec bs (snd (dec bs off))) = Inr ws"
      by (simp add: read_seq_Suc_iff Cons del: read_seq.simps)
    also have "\<dots> \<longleftrightarrow> wf w \<and> stands_at (enc w) bs off \<and> fst (read_seq n dec bs (off + length (enc w))) = Inr ws"
      using dec_iff [of bs off w] dec_moves [of bs off w] by auto
    finally show ?thesis by (auto simp: Cons Suc.IH at_simps)
  qed
qed

lemma read_seq_moves:
  "fst (read_seq n dec bs off) = Inr vs \<Longrightarrow>
     snd (read_seq n dec bs off) = off + length (concat (map enc vs))"
proof (induction n arbitrary: off vs)
  case 0
  then show ?case by auto
next
  case (Suc n)
  from Suc.prems obtain w ws where vs: "vs = w # ws" "fst (dec bs off) = Inr w"
      "fst (read_seq n dec bs (snd (dec bs off))) = Inr ws"
    by (auto simp: read_seq_Suc_iff simp del: read_seq.simps)
  have "snd (read_seq (Suc n) dec bs off) = snd (read_seq n dec bs (snd (dec bs off)))"
    by (rule read_seq_Suc_moves [OF Suc.prems])
  also have "\<dots> = snd (dec bs off) + length (concat (map enc ws))" by (rule Suc.IH [OF vs(3)])
  finally show ?case using dec_moves [OF vs(2)] vs(1) by simp
qed

end

end
