(* ===== verification/AIS_Evidence.thy ===== *)
theory AIS_Evidence
  imports AIS_Abi
begin

text \<open>
  Evidence and how it is scored: \<open>src/detection.cpp\<close> (the text rules), \<open>src/risk.cpp\<close>
  (the sum of the nine scores), \<open>src/signature_detector.cpp\<close>,
  \<open>src/consequence_detector.cpp\<close>, \<open>src/process_consequence.cpp\<close>, the evidence of
  \<open>src/sandbox.cpp\<close>, and the sensor degradation of \<open>src/health.cpp\<close> and
  \<open>src/diagnostics.cpp\<close>. The interface \<open>evidence_source\<close> is the contract of every detector
  with the risk engine: no score exceeds 100. From it follows, for all of them, that the
  sum is exact and never reaches the saturation of \<open>risk::score\<close>.
\<close>

section \<open>Evidence and risk\<close>

record evidence =
  ev_hard_rule :: u16
  ev_signature :: u16
  ev_protocol :: u16
  ev_novelty :: u16
  ev_adaptivity :: u16
  ev_campaign :: u16
  ev_consequence :: u16
  ev_target_criticality :: u16
  ev_sensor_integrity :: u16
  ev_reason_mask :: u32

definition no_evidence :: evidence where
  "no_evidence = \<lparr>ev_hard_rule = 0, ev_signature = 0, ev_protocol = 0, ev_novelty = 0, ev_adaptivity = 0,
     ev_campaign = 0, ev_consequence = 0, ev_target_criticality = 0, ev_sensor_integrity = 0, ev_reason_mask = 0\<rparr>"

lemma no_evidence_simps [simp]:
  "ev_hard_rule no_evidence = 0" "ev_signature no_evidence = 0" "ev_protocol no_evidence = 0"
  "ev_novelty no_evidence = 0" "ev_adaptivity no_evidence = 0" "ev_campaign no_evidence = 0"
  "ev_consequence no_evidence = 0" "ev_target_criticality no_evidence = 0"
  "ev_sensor_integrity no_evidence = 0" "ev_reason_mask no_evidence = 0"
  by (simp_all add: no_evidence_def)

text \<open>\<open>evidence.reason_mask |= bits\<close>\<close>

abbreviation add_reason :: "u32 \<Rightarrow> evidence \<Rightarrow> evidence" where
  "add_reason bits e \<equiv> e\<lparr>ev_reason_mask := ev_reason_mask e OR bits\<rparr>"

definition clipped_score :: "u32 \<Rightarrow> u16" where
  "clipped_score value' = ucast (min value' 100)"

record risk_score =
  rs_total :: u16
  rs_hard_block :: bool

definition risk_sum :: "evidence \<Rightarrow> u32" where
  "risk_sum e =
     ucast (ev_hard_rule e) + ucast (ev_signature e) + ucast (ev_protocol e) + ucast (ev_novelty e) +
     ucast (ev_adaptivity e) + ucast (ev_campaign e) + ucast (ev_consequence e) +
     ucast (ev_target_criticality e) + ucast (ev_sensor_integrity e)"

definition risk_score_of :: "evidence \<Rightarrow> risk_score" where
  "risk_score_of e =
     (let total = risk_sum e in
      \<lparr>rs_total = ucast (if total > 65535 then 65535 else total),
       rs_hard_block = (ev_hard_rule e \<ge> 100 \<or> ev_signature e \<ge> 100 \<or> ev_consequence e \<ge> 100)\<rparr>)"

text \<open>The nine scores as numbers, and their bound.\<close>

definition scores :: "evidence \<Rightarrow> nat list" where
  "scores e = map unat [ev_hard_rule e, ev_signature e, ev_protocol e, ev_novelty e, ev_adaptivity e,
     ev_campaign e, ev_consequence e, ev_target_criticality e, ev_sensor_integrity e]"

definition bounded_evidence :: "evidence \<Rightarrow> bool" where
  "bounded_evidence e \<longleftrightarrow> (\<forall>s \<in> set (scores e). s \<le> 100)"

lemma unat_min_100: "unat (min (v::u32) 100) = min (unat v) 100"
  by (simp add: min_def word_le_nat_alt)

lemma clipped_score_value: "unat (clipped_score v) = min (unat v) 100"
  by (simp add: clipped_score_def unsigned_ucast_eq unat_min_100 take_bit_nat_eq_self)

lemma clipped_score_le [simp]: "unat (clipped_score v) \<le> 100"
  by (simp add: clipped_score_value)

text \<open>A narrow score that is widened before it is added keeps its value.\<close>

lemma unat_ucast_score [simp]: "unat (ucast (x::u16) :: u32) = unat x"
  by (simp add: unsigned_ucast_eq take_bit_nat_eq_self unsigned_less [THEN less_le_trans])

lemma risk_sum_exact:
  assumes "bounded_evidence e"
  shows "unat (risk_sum e) = sum_list (scores e)"
proof -
  have b: "\<forall>s \<in> set (scores e). s \<le> 100" using assms by (simp add: bounded_evidence_def)
  have add: "unat (x + y) = unat x + unat y" if "unat x \<le> 800" "unat y \<le> 100" for x y :: u32
    using that by (simp add: unat_plus_if')
  show ?thesis
    using b by (simp add: risk_sum_def scores_def add)
qed

lemma sum_list_scores_le: "bounded_evidence e \<Longrightarrow> sum_list (scores e) \<le> 900"
  by (simp add: bounded_evidence_def scores_def)

lemma risk_total_exact:
  assumes "bounded_evidence e"
  shows "unat (rs_total (risk_score_of e)) = sum_list (scores e)"
proof -
  have "unat (risk_sum e) \<le> 900" using risk_sum_exact [OF assms] sum_list_scores_le [OF assms] by simp
  then have "\<not> risk_sum e > 65535" and "unat (ucast (risk_sum e) :: u16) = unat (risk_sum e)"
    by (simp_all add: word_less_nat_alt unsigned_ucast_eq take_bit_nat_eq_self)
  with risk_sum_exact [OF assms] show ?thesis by (simp add: risk_score_of_def Let_def)
qed

section \<open>The contract of a detector\<close>

locale evidence_source =
  fixes evidence_of :: "'s \<Rightarrow> evidence"
  assumes bounded: "bounded_evidence (evidence_of s)"
begin

lemma total_exact: "unat (rs_total (risk_score_of (evidence_of s))) = sum_list (scores (evidence_of s))"
  by (rule risk_total_exact [OF bounded])

lemma total_le: "unat (rs_total (risk_score_of (evidence_of s))) \<le> 900"
  using total_exact sum_list_scores_le [OF bounded] by simp

lemma hard_block_iff:
  "rs_hard_block (risk_score_of (evidence_of s)) \<longleftrightarrow>
     unat (ev_hard_rule (evidence_of s)) = 100 \<or> unat (ev_signature (evidence_of s)) = 100 \<or>
     unat (ev_consequence (evidence_of s)) = 100"
  using bounded [of s]
  by (auto simp: risk_score_of_def Let_def bounded_evidence_def scores_def word_le_nat_alt)

end

lemma bounded_no_evidence [simp]: "bounded_evidence no_evidence"
  by (simp add: bounded_evidence_def scores_def)

lemmas evidence_bounds = bounded_evidence_def scores_def

section \<open>detection.cpp\<close>

definition inspect_text :: "string \<Rightarrow> evidence" where
  "inspect_text payload =
     (let lower = lower_copy payload;
          e = no_evidence;
          e = (if contains lower ''../'' \<or> contains lower ''..%2f'' \<or> contains lower ''%2e%2e''
               then add_reason path_traversal
                      (e\<lparr>ev_hard_rule := 100, ev_protocol := clipped_score (ucast (ev_protocol e) + 45)\<rparr>) else e);
          e = (if contains lower ''cmd.exe'' \<or> contains lower ''powershell'' \<or> contains lower ''/bin/sh'' \<or>
                  contains lower ''mshta''
               then add_reason command_execution
                      (e\<lparr>ev_hard_rule := 100, ev_consequence := clipped_score (ucast (ev_consequence e) + 80)\<rparr>) else e);
          e = (if contains lower ''content-length:'' \<and> contains lower ''transfer-encoding: chunked''
               then add_reason proto_ambiguous
                      (e\<lparr>ev_protocol := clipped_score (ucast (ev_protocol e) + 70)\<rparr>) else e);
          e = (if contains lower ''jndi:ldap'' \<or> contains lower ''meterpreter'' \<or> contains lower ''mimikatz''
               then add_reason signature_match (e\<lparr>ev_signature := 100\<rparr>) else e)
      in if length payload > 64 * 1024
         then e\<lparr>ev_novelty := clipped_score (ucast (ev_novelty e) + 20)\<rparr> else e)"

definition inspect_payload :: "bytes \<Rightarrow> evidence" where
  "inspect_payload payload = inspect_text (text_of payload)"

text \<open>The classes of markers the rules look for, ignoring the case of letters.\<close>

definition has_traversal :: "string \<Rightarrow> bool" where
  "has_traversal s \<longleftrightarrow> (\<exists>m \<in> {''../'', ''..%2f'', ''%2e%2e''}. sublist m (lower_copy s))"

definition has_command :: "string \<Rightarrow> bool" where
  "has_command s \<longleftrightarrow> (\<exists>m \<in> {''cmd.exe'', ''powershell'', ''/bin/sh'', ''mshta''}. sublist m (lower_copy s))"

definition has_smuggling :: "string \<Rightarrow> bool" where
  "has_smuggling s \<longleftrightarrow> sublist ''content-length:'' (lower_copy s) \<and>
     sublist ''transfer-encoding: chunked'' (lower_copy s)"

definition has_signature :: "string \<Rightarrow> bool" where
  "has_signature s \<longleftrightarrow> (\<exists>m \<in> {''jndi:ldap'', ''meterpreter'', ''mimikatz''}. sublist m (lower_copy s))"

lemma inspect_text_cases:
  "inspect_text s = no_evidence\<lparr>
     ev_hard_rule := (if has_traversal s \<or> has_command s then 100 else 0),
     ev_signature := (if has_signature s then 100 else 0),
     ev_protocol := (if has_traversal s then (if has_smuggling s then 100 else 45)
                     else (if has_smuggling s then 70 else 0)),
     ev_novelty := (if length s > 64 * 1024 then 20 else 0),
     ev_consequence := (if has_command s then 80 else 0),
     ev_reason_mask :=
       (if has_traversal s then path_traversal else 0) OR (if has_command s then command_execution else 0) OR
       (if has_smuggling s then proto_ambiguous else 0) OR (if has_signature s then signature_match else 0)\<rparr>"
proof -
  let ?l = "lower_copy s"
  have t: "(contains ?l ''../'' \<or> contains ?l ''..%2f'' \<or> contains ?l ''%2e%2e'') = has_traversal s"
    by (simp add: has_traversal_def)
  have c: "(contains ?l ''cmd.exe'' \<or> contains ?l ''powershell'' \<or> contains ?l ''/bin/sh'' \<or> contains ?l ''mshta'') =
      has_command s" by (simp add: has_command_def)
  have m: "(contains ?l ''content-length:'' \<and> contains ?l ''transfer-encoding: chunked'') = has_smuggling s"
    by (simp add: has_smuggling_def)
  have g: "(contains ?l ''jndi:ldap'' \<or> contains ?l ''meterpreter'' \<or> contains ?l ''mimikatz'') = has_signature s"
    by (simp add: has_signature_def)
  show ?thesis
    unfolding inspect_text_def Let_def t c m g
    by (cases "has_traversal s"; cases "has_command s"; cases "has_smuggling s"; cases "has_signature s")
      (simp_all add: no_evidence_def clipped_score_def)
qed

text \<open>
  The text detector computes its evidence from four marker classes and the length alone,
  whatever the case of the letters: which scores it sets to which value and which reason
  bits it raises, on every combination of the classes.
\<close>

theorem inspect_text_evidence:
  "inspect_text s =
    \<lparr>ev_hard_rule = (if has_traversal s \<or> has_command s then 100 else 0),
     ev_signature = (if has_signature s then 100 else 0),
     ev_protocol = (if has_traversal s then (if has_smuggling s then 100 else 45)
                    else (if has_smuggling s then 70 else 0)),
     ev_novelty = (if length s > 65536 then 20 else 0),
     ev_adaptivity = 0, ev_campaign = 0,
     ev_consequence = (if has_command s then 80 else 0),
     ev_target_criticality = 0, ev_sensor_integrity = 0,
     ev_reason_mask =
       (if has_traversal s then path_traversal else 0) OR (if has_command s then command_execution else 0) OR
       (if has_smuggling s then proto_ambiguous else 0) OR (if has_signature s then signature_match else 0)\<rparr>"
  by (simp add: inspect_text_cases no_evidence_def)

lemma bounded_inspect_text: "bounded_evidence (inspect_text s)"
  by (simp add: inspect_text_cases evidence_bounds)

interpretation text_detector: evidence_source inspect_text
  by unfold_locales (rule bounded_inspect_text)

interpretation payload_detector: evidence_source inspect_payload
  by unfold_locales (simp add: inspect_payload_def bounded_inspect_text)

section \<open>signature_detector.cpp\<close>

datatype rule_kind = RK_payload_hash | RK_substring

record sig_rule =
  sr_rule_id :: u32
  sr_kind :: rule_kind
  sr_severity :: u16
  sr_hash :: digest
  sr_pattern :: string

text \<open>The detector's state is its list of rules.\<close>

definition sig_add_rule :: "sig_rule \<Rightarrow> sig_rule list \<Rightarrow> bool \<times> sig_rule list" where
  "sig_add_rule rule rules =
     (if sr_rule_id rule = 0 \<or> sr_severity rule = 0 then (False, rules)
      else if sr_kind rule = RK_substring \<and> sr_pattern rule = [] then (False, rules)
      else (True, rules @ [rule]))"

definition sig_matched :: "bytes \<Rightarrow> sig_rule \<Rightarrow> bool" where
  "sig_matched payload rule =
     (case sr_kind rule of
        RK_payload_hash \<Rightarrow> constant_time_equal (sha256 payload) (sr_hash rule)
      | RK_substring \<Rightarrow> contains (text_of payload) (sr_pattern rule))"

definition sig_hit :: "sig_rule \<Rightarrow> evidence \<Rightarrow> evidence" where
  "sig_hit rule e =
     (let e = add_reason signature_match
                (e\<lparr>ev_signature := clipped_score (ucast (ev_signature e) + ucast (sr_severity rule))\<rparr>)
      in if sr_severity rule \<ge> 100 then e\<lparr>ev_hard_rule := 100\<rparr> else e)"

definition sig_inspect :: "sig_rule list \<Rightarrow> bytes \<Rightarrow> evidence" where
  "sig_inspect rules payload =
     fold (\<lambda>rule e. if sig_matched payload rule then sig_hit rule e else e) rules no_evidence"

text \<open>The rules a detector holds were all admitted by \<open>add_rule\<close>.\<close>

definition sig_rules_ok :: "sig_rule list \<Rightarrow> bool" where
  "sig_rules_ok rules \<longleftrightarrow>
     (\<forall>r \<in> set rules. sr_rule_id r \<noteq> 0 \<and> sr_severity r \<noteq> 0 \<and> (sr_kind r = RK_substring \<longrightarrow> sr_pattern r \<noteq> []))"

interpretation signature_rules: invariant_machine "\<lambda>r rules. snd (sig_add_rule r rules)" sig_rules_ok
  by unfold_locales (auto simp: sig_rules_ok_def sig_add_rule_def)

lemma sig_hit_score:
  assumes "unat (ev_signature e) \<le> 100"
  shows "unat (ev_signature (sig_hit r e)) = min 100 (unat (ev_signature e) + unat (sr_severity r))"
proof -
  have "unat (sr_severity r) < 65536" using unsigned_less [of "sr_severity r", where 'a = nat] by simp
  then have "unat (ucast (ev_signature e) + ucast (sr_severity r) :: u32) =
      unat (ev_signature e) + unat (sr_severity r)"
    using assms by (simp add: unat_plus_if')
  then show ?thesis by (simp add: sig_hit_def Let_def clipped_score_value min.commute)
qed

lemma sig_hit_rest:
  "ev_hard_rule (sig_hit r e) = (if sr_severity r \<ge> 100 then 100 else ev_hard_rule e)"
  "ev_reason_mask (sig_hit r e) = ev_reason_mask e OR signature_match"
  "ev_protocol (sig_hit r e) = ev_protocol e" "ev_novelty (sig_hit r e) = ev_novelty e"
  "ev_adaptivity (sig_hit r e) = ev_adaptivity e" "ev_campaign (sig_hit r e) = ev_campaign e"
  "ev_consequence (sig_hit r e) = ev_consequence e"
  "ev_target_criticality (sig_hit r e) = ev_target_criticality e"
  "ev_sensor_integrity (sig_hit r e) = ev_sensor_integrity e"
  by (simp_all add: sig_hit_def Let_def)

lemma sig_inspect_append:
  "sig_inspect (rules @ [r]) p =
     (if sig_matched p r then sig_hit r (sig_inspect rules p) else sig_inspect rules p)"
  by (simp add: sig_inspect_def)

lemma sig_inspect_Nil [simp]: "sig_inspect [] p = no_evidence"
  by (simp add: sig_inspect_def)

lemma sig_inspect_score:
  "unat (ev_signature (sig_inspect rules p)) =
     min 100 (\<Sum>r \<leftarrow> filter (sig_matched p) rules. unat (sr_severity r))"
  by (induction rules rule: rev_induct) (auto simp: sig_inspect_append sig_hit_score)

lemma sig_inspect_hard:
  "ev_hard_rule (sig_inspect rules p) =
     (if \<exists>r \<in> set rules. sig_matched p r \<and> sr_severity r \<ge> 100 then 100 else 0)"
  by (induction rules rule: rev_induct) (auto simp: sig_inspect_append sig_hit_rest)

lemma sig_inspect_mask:
  "ev_reason_mask (sig_inspect rules p) = (if \<exists>r \<in> set rules. sig_matched p r then signature_match else 0)"
  by (induction rules rule: rev_induct) (auto simp: sig_inspect_append sig_hit_rest)

lemma sig_inspect_other:
  "ev_protocol (sig_inspect rules p) = 0 \<and> ev_novelty (sig_inspect rules p) = 0 \<and>
   ev_adaptivity (sig_inspect rules p) = 0 \<and> ev_campaign (sig_inspect rules p) = 0 \<and>
   ev_consequence (sig_inspect rules p) = 0 \<and> ev_target_criticality (sig_inspect rules p) = 0 \<and>
   ev_sensor_integrity (sig_inspect rules p) = 0"
  by (induction rules rule: rev_induct) (auto simp: sig_inspect_append sig_hit_rest)

lemma bounded_sig_inspect: "bounded_evidence (sig_inspect rules p)"
  by (simp add: evidence_bounds sig_inspect_score sig_inspect_hard sig_inspect_other)

interpretation signature_source: evidence_source "sig_inspect rules" for rules
  by unfold_locales (rule bounded_sig_inspect)

section \<open>consequence_detector.cpp and process_consequence.cpp\<close>

record runtime_event =
  re_child_process :: bool
  re_executable_file_created :: bool
  re_executable_memory :: bool
  re_sensitive_token_access :: bool
  re_registry_persistence :: bool
  re_unexpected_egress :: bool

definition consequence_evaluate :: "runtime_event \<Rightarrow> evidence" where
  "consequence_evaluate event =
     (let any = re_child_process event \<or> re_executable_file_created event \<or> re_executable_memory event \<or>
            re_sensitive_token_access event \<or> re_registry_persistence event \<or> re_unexpected_egress event
      in if \<not> any then no_evidence
         else let e = no_evidence\<lparr>ev_consequence := 100, ev_hard_rule := 100, ev_reason_mask := consequence_detected\<rparr>;
                  e = (if re_child_process event \<or> re_executable_file_created event \<or> re_executable_memory event
                       then add_reason command_execution e else e)
              in if re_unexpected_egress event then add_reason degraded_mode e else e)"

datatype signature_state = SS_unknown | SS_unsigned_image | SS_trusted_signed | SS_invalid_signature

record process_evidence =
  pe_parent_process_id :: u64
  pe_child_process_id :: u64
  pe_inherited_flow_id :: u64
  pe_parent_external_influenced :: bool
  pe_child_signature :: signature_state
  pe_image_path :: string
  pe_command_line :: string

definition contains_forbidden_interpreter :: "string \<Rightarrow> string \<Rightarrow> bool" where
  "contains_forbidden_interpreter image_path command_line =
     (let haystack = lower_copy (image_path @ '' '' @ command_line)
      in contains haystack ''powershell'' \<or> contains haystack ''cmd.exe'' \<or> contains haystack ''mshta'' \<or>
         contains haystack ''wscript'' \<or> contains haystack ''cscript'' \<or> contains haystack ''rundll32'')"

definition evaluate_create_process :: "process_evidence \<Rightarrow> evidence" where
  "evaluate_create_process event =
     (if \<not> pe_parent_external_influenced event then no_evidence
      else
        let e = (if contains_forbidden_interpreter (pe_image_path event) (pe_command_line event)
                 then add_reason (command_execution OR consequence_detected)
                        (no_evidence\<lparr>ev_hard_rule := 100, ev_consequence := 100\<rparr>)
                 else no_evidence)
        in if pe_child_signature event = SS_unsigned_image \<or> pe_child_signature event = SS_invalid_signature
           then add_reason external_exec_pending
                  (e\<lparr>ev_consequence := clipped_score (ucast (ev_consequence e) + 70)\<rparr>)
           else e)"

section \<open>sandbox.cpp\<close>

datatype sandbox_tier = Tier_appcontainer_fast | Tier_hyperv_isolated

datatype sandbox_outcome =
    Out_clean | Out_suspicious | Out_exploit_signal | Out_timeout | Out_crash | Out_instrumentation_gap

record result_summary =
  sb_tier :: sandbox_tier
  sb_outcome :: sandbox_outcome
  sb_attempted_network :: bool
  sb_attempted_host_profile :: bool
  sb_created_executable :: bool
  sb_event_count :: u32

definition evidence_from :: "result_summary \<Rightarrow> evidence" where
  "evidence_from summary =
     (let e = (case sb_outcome summary of
                 Out_clean \<Rightarrow> no_evidence
               | Out_suspicious \<Rightarrow> add_reason consequence_detected (no_evidence\<lparr>ev_consequence := 60\<rparr>)
               | Out_exploit_signal \<Rightarrow>
                   add_reason (sandbox_escape_signal OR consequence_detected)
                     (no_evidence\<lparr>ev_hard_rule := 100, ev_consequence := 100\<rparr>)
               | _ \<Rightarrow> (add_reason sandbox_inconclusive no_evidence)\<lparr>ev_sensor_integrity := 60\<rparr>);
          e = (if sb_attempted_network summary \<or> sb_attempted_host_profile summary \<or> sb_created_executable summary
               then add_reason consequence_detected
                      (e\<lparr>ev_consequence := clipped_score (ucast (ev_consequence e) + 50)\<rparr>)
               else e)
      in if sb_event_count summary > 10000 then e\<lparr>ev_novelty := 30\<rparr> else e)"

lemma bounded_consequence: "bounded_evidence (consequence_evaluate event)"
  by (simp add: consequence_evaluate_def Let_def evidence_bounds)

lemma bounded_create_process: "bounded_evidence (evaluate_create_process event)"
  by (simp add: evaluate_create_process_def Let_def evidence_bounds)

lemma bounded_sandbox: "bounded_evidence (evidence_from summary)"
  by (cases "sb_outcome summary") (simp_all add: evidence_from_def Let_def evidence_bounds)

interpretation runtime_detector: evidence_source consequence_evaluate
  by unfold_locales (rule bounded_consequence)

interpretation process_detector: evidence_source evaluate_create_process
  by unfold_locales (rule bounded_create_process)

interpretation sandbox_detector: evidence_source evidence_from
  by unfold_locales (rule bounded_sandbox)

text \<open>
  A detector that admitted its rules through \<open>add_rule\<close> scores a payload by the sum of the
  severities of the rules that match it, saturated at 100; it raises the hard rule exactly
  when one matching rule alone has severity 100, and reports a signature match exactly when
  the signature score is positive.
\<close>

theorem sig_inspect_scores:
  "let rules = fold (\<lambda>r rs. snd (sig_add_rule r rs)) candidates [];
       e = sig_inspect rules payload
   in unat (ev_signature e) = min 100 (\<Sum>r \<leftarrow> filter (sig_matched payload) rules. unat (sr_severity r)) \<and>
      ev_hard_rule e = (if \<exists>r \<in> set rules. sig_matched payload r \<and> sr_severity r \<ge> 100 then 100 else 0) \<and>
      ev_reason_mask e = (if ev_signature e = 0 then 0 else signature_match)"
proof -
  define rules where "rules = fold (\<lambda>r rs. snd (sig_add_rule r rs)) candidates []"
  define e where "e = sig_inspect rules payload"
  have ok: "\<forall>r \<in> set rules. sr_severity r \<noteq> 0"
    using signature_rules.run_inv [of "[]" candidates] by (auto simp: sig_rules_ok_def rules_def)
  have score: "unat (ev_signature e) = min 100 (\<Sum>r \<leftarrow> filter (sig_matched payload) rules. unat (sr_severity r))"
    by (simp add: e_def sig_inspect_score)
  have "ev_signature e = 0 \<longleftrightarrow> (\<Sum>r \<leftarrow> filter (sig_matched payload) rules. unat (sr_severity r)) = 0"
    unfolding unat_eq_0 [symmetric] score by linarith
  also have "\<dots> \<longleftrightarrow> \<not> (\<exists>r \<in> set rules. sig_matched payload r)"
    using ok by (auto simp: unat_eq_0)
  finally have "ev_reason_mask e = (if ev_signature e = 0 then 0 else signature_match)"
    by (simp add: e_def sig_inspect_mask)
  with score show ?thesis
    by (simp only: Let_def rules_def [symmetric] e_def [symmetric]) (simp add: e_def sig_inspect_hard)
qed

section \<open>health.cpp and diagnostics.cpp\<close>

datatype sensor_kind = SK_wfp | SK_filesystem | SK_process_guard | SK_etw | SK_sandbox | SK_audit

datatype sensor_state = SSt_healthy | SSt_delayed | SSt_degraded | SSt_failed

record sensor_report =
  rp_kind :: sensor_kind
  rp_state :: sensor_state
  rp_last_sequence :: u64
  rp_missing_sequences :: u64
  rp_last_monotonic_ns :: u64

record degradation =
  dg_score :: u16
  dg_reason_mask :: u32

definition no_degradation :: degradation where
  "no_degradation = \<lparr>dg_score = 0, dg_reason_mask = 0\<rparr>"

abbreviation add_dg_reason :: "u32 \<Rightarrow> degradation \<Rightarrow> degradation" where
  "add_dg_reason bits d \<equiv> d\<lparr>dg_reason_mask := dg_reason_mask d OR bits\<rparr>"

definition assess :: "sensor_report \<Rightarrow> degradation" where
  "assess report =
     (let d = no_degradation;
          d = (if rp_missing_sequences report > 0
               then add_dg_reason sensor_integrity_gap (d\<lparr>dg_score := 60\<rparr>) else d)
      in case rp_state report of
           SSt_healthy \<Rightarrow> d
         | SSt_delayed \<Rightarrow> add_dg_reason degraded_mode (d\<lparr>dg_score := if dg_score d < 35 then 35 else dg_score d\<rparr>)
         | SSt_degraded \<Rightarrow> add_dg_reason degraded_mode (d\<lparr>dg_score := if dg_score d < 70 then 70 else dg_score d\<rparr>)
         | SSt_failed \<Rightarrow> add_dg_reason (degraded_mode OR sensor_integrity_gap) (d\<lparr>dg_score := 100\<rparr>))"

definition aggregate :: "sensor_report list \<Rightarrow> degradation" where
  "aggregate reports =
     fold (\<lambda>report acc.
             let one = assess report;
                 acc = (if dg_score one > dg_score acc then acc\<lparr>dg_score := dg_score one\<rparr> else acc)
             in add_dg_reason (dg_reason_mask one) acc) reports no_degradation"

record diag_snapshot =
  dn_active_flows :: u32
  dn_pending_decisions :: u32
  dn_sandbox_capacity :: u32
  dn_worker_circuits_open :: u32
  dn_health :: degradation

definition protection_degraded :: "diag_snapshot \<Rightarrow> bool" where
  "protection_degraded s \<longleftrightarrow>
     dg_score (dn_health s) \<ge> 70 \<or> dn_sandbox_capacity s = 0 \<or> dn_worker_circuits_open s > 0"

lemma aggregate_append:
  "aggregate (rs @ [r]) =
     \<lparr>dg_score = max (dg_score (aggregate rs)) (dg_score (assess r)),
      dg_reason_mask = dg_reason_mask (aggregate rs) OR dg_reason_mask (assess r)\<rparr>"
  by (simp add: aggregate_def Let_def max_def)

lemma aggregate_Nil [simp]: "aggregate [] = no_degradation"
  by (simp add: aggregate_def)

lemma aggregate_score_ge:
  "dg_score (aggregate rs) \<ge> t \<longleftrightarrow> t = 0 \<or> (\<exists>r \<in> set rs. dg_score (assess r) \<ge> t)"
  by (induction rs rule: rev_induct) (auto simp: aggregate_append no_degradation_def le_max_iff_disj)

lemma aggregate_mask_bit:
  "bit (dg_reason_mask (aggregate rs)) n \<longleftrightarrow> (\<exists>r \<in> set rs. bit (dg_reason_mask (assess r)) n)"
  by (induction rs rule: rev_induct) (auto simp: aggregate_append no_degradation_def bit_or_iff)

lemma assess_score:
  "dg_score (assess r) =
     (case rp_state r of
        SSt_healthy \<Rightarrow> (if rp_missing_sequences r > 0 then 60 else 0)
      | SSt_delayed \<Rightarrow> (if rp_missing_sequences r > 0 then 60 else 35)
      | SSt_degraded \<Rightarrow> 70
      | SSt_failed \<Rightarrow> 100)"
  by (cases "rp_state r") (simp_all add: assess_def Let_def no_degradation_def)

text \<open>
  The aggregated health never hides a sensor: a snapshot that carries it reports degraded
  protection exactly when some sensor is degraded or failed, no sandbox slot is left or a
  worker circuit is open, and a reason bit is set exactly when some sensor raised it. Lost
  sequences alone do not count as degraded.
\<close>

theorem protection_degraded_by_sensors:
  "(protection_degraded (s\<lparr>dn_health := aggregate reports\<rparr>) \<longleftrightarrow>
      (\<exists>r \<in> set reports. rp_state r \<in> {SSt_degraded, SSt_failed}) \<or>
      dn_sandbox_capacity s = 0 \<or> dn_worker_circuits_open s \<noteq> 0) \<and>
   (bit (dg_reason_mask (aggregate reports)) n \<longleftrightarrow> (\<exists>r \<in> set reports. bit (dg_reason_mask (assess r)) n))"
proof -
  have "dg_score (assess r) \<ge> 70 \<longleftrightarrow> rp_state r \<in> {SSt_degraded, SSt_failed}" for r
    by (cases "rp_state r") (simp_all add: assess_score)
  then show ?thesis
    by (simp add: protection_degraded_def aggregate_score_ge aggregate_mask_bit word_gt_0)
qed

end
