(* ===== verification/AIS_Policy.thy ===== *)
theory AIS_Policy
  imports AIS_Evidence
begin

text \<open>
  From evidence to action. \<open>src/policy.cpp\<close> turns the risk score into a \<open>ShieldDecision\<close>;
  around it stand the small decision tables that other components consult:
  \<open>fail_policy.cpp\<close>, \<open>egress_gate.cpp\<close>, \<open>backpressure.cpp\<close>, \<open>learning_mode.cpp\<close>,
  \<open>recovery_plan.cpp\<close>, \<open>response_normalizer.cpp\<close>, \<open>retention.cpp\<close>, \<open>sandbox_budget.cpp\<close>
  and \<open>broker_runtime.cpp\<close>. Every decision function is an instance of the interface
  \<open>action_source\<close>: the action it writes is one of the eight of \<open>abi.hpp\<close>.
\<close>

section \<open>policy.cpp\<close>

datatype protection_mode = PM_learning | PM_balanced | PM_strict

datatype decision_band =
    DB_allow | DB_allow_monitored | DB_deep_inspection | DB_redirect_sandbox
  | DB_quarantine_or_drop | DB_block_origin

text \<open>The enumerators compare by their underlying value.\<close>

fun band_code :: "decision_band \<Rightarrow> nat" where
  "band_code DB_allow = 0"
| "band_code DB_allow_monitored = 1"
| "band_code DB_deep_inspection = 2"
| "band_code DB_redirect_sandbox = 3"
| "band_code DB_quarantine_or_drop = 4"
| "band_code DB_block_origin = 5"

instantiation decision_band :: linorder
begin

definition less_eq_decision_band :: "decision_band \<Rightarrow> decision_band \<Rightarrow> bool" where
  "less_eq_decision_band a b \<longleftrightarrow> band_code a \<le> band_code b"

definition less_decision_band :: "decision_band \<Rightarrow> decision_band \<Rightarrow> bool" where
  "less_decision_band a b \<longleftrightarrow> band_code a < band_code b"

instance
proof
  fix a b c :: decision_band
  show "a < b \<longleftrightarrow> a \<le> b \<and> \<not> b \<le> a" "a \<le> a" "a \<le> b \<or> b \<le> a"
    by (auto simp: less_eq_decision_band_def less_decision_band_def)
  show "a \<le> b \<Longrightarrow> b \<le> c \<Longrightarrow> a \<le> c" by (simp add: less_eq_decision_band_def)
  show "a \<le> b \<Longrightarrow> b \<le> a \<Longrightarrow> a = b"
    by (cases a; cases b) (simp_all add: less_eq_decision_band_def)
qed

end

record policy_context =
  pc_decision_id :: u64
  pc_flow_id :: u64
  pc_now_monotonic_ns :: u64
  pc_critical_service :: bool
  pc_runtime_gate_active :: bool
  pc_mode :: protection_mode

definition band_for_score :: "u16 \<Rightarrow> decision_band" where
  "band_for_score risk_score' =
     (if risk_score' \<ge> 150 then DB_block_origin
      else if risk_score' \<ge> 100 then DB_quarantine_or_drop
      else if risk_score' \<ge> 75 then DB_redirect_sandbox
      else if risk_score' \<ge> 50 then DB_deep_inspection
      else if risk_score' \<ge> 25 then DB_allow_monitored
      else DB_allow)"

definition band_action :: "policy_context \<Rightarrow> decision_band \<Rightarrow> shield_action" where
  "band_action context band =
     (case band of
        DB_allow \<Rightarrow> SA_allow
      | DB_allow_monitored \<Rightarrow> SA_allow_monitored
      | DB_deep_inspection \<Rightarrow> (if pc_mode context = PM_strict then SA_redirect_sandbox else SA_rate_limit)
      | DB_redirect_sandbox \<Rightarrow> SA_redirect_sandbox
      | DB_quarantine_or_drop \<Rightarrow> (if pc_critical_service context then SA_quarantine else SA_drop_flow)
      | DB_block_origin \<Rightarrow> SA_block_origin)"

definition policy_action :: "policy_context \<Rightarrow> evidence \<Rightarrow> shield_action" where
  "policy_action context e =
     (let score = risk_score_of e;
          inconclusive = ev_reason_mask e AND sandbox_inconclusive \<noteq> 0
      in if ev_reason_mask e AND (policy_signature_invalid OR model_signature_invalid OR abi_violation) \<noteq> 0
           then SA_block_origin
         else if rs_hard_block score then SA_quarantine
         else if inconclusive \<and> pc_critical_service context then SA_quarantine
         else if inconclusive \<and> pc_runtime_gate_active context then SA_allow_monitored
         else band_action context (band_for_score (rs_total score)))"

definition policy_decide :: "policy_context \<Rightarrow> evidence \<Rightarrow> digest \<Rightarrow> shield_decision" where
  "policy_decide context e evidence_hash =
     \<lparr>sd_abi_version = kAbiVersion, sd_structure_size = sizeof_ShieldDecision,
      sd_decision_id = pc_decision_id context, sd_flow_id = pc_flow_id context,
      sd_action = action_code (policy_action context e),
      sd_risk_score = rs_total (risk_score_of e),
      sd_confidence = (if ev_reason_mask e = 0 then 70 else 95),
      sd_reason_mask = ev_reason_mask e,
      sd_valid_until_monotonic_ns = pc_now_monotonic_ns context + 5000000000,
      sd_evidence_hash = evidence_hash, sd_message_mac = zero_digest\<rparr>"

text \<open>Bands grow with the score; how strict an action is for the flow it is applied to.\<close>

fun severity :: "shield_action \<Rightarrow> nat" where
  "severity SA_allow = 0"
| "severity SA_allow_monitored = 1"
| "severity SA_rate_limit = 2"
| "severity SA_redirect_sandbox = 3"
| "severity SA_quarantine = 4"
| "severity SA_drop_flow = 4"
| "severity SA_block_origin = 5"
| "severity SA_suspend_target = 6"

definition lets_through :: "shield_action \<Rightarrow> bool" where
  "lets_through a \<longleftrightarrow> a = SA_allow \<or> a = SA_allow_monitored"

lemma band_for_score_cases:
  "band_for_score r =
     (if unat r \<ge> 150 then DB_block_origin else if unat r \<ge> 100 then DB_quarantine_or_drop
      else if unat r \<ge> 75 then DB_redirect_sandbox else if unat r \<ge> 50 then DB_deep_inspection
      else if unat r \<ge> 25 then DB_allow_monitored else DB_allow)"
  by (simp add: band_for_score_def word_le_nat_alt)

lemma band_for_score_mono: "r \<le> r' \<Longrightarrow> band_for_score r \<le> band_for_score r'"
  by (auto simp: band_for_score_cases word_le_nat_alt less_eq_decision_band_def)

lemma band_action_mono: "b \<le> b' \<Longrightarrow> severity (band_action c b) \<le> severity (band_action c b')"
  by (cases b; cases b') (simp_all add: band_action_def less_eq_decision_band_def)

text \<open>The context under which a receiver checks a decision, taken from the context of the decision.\<close>

definition receiver :: "policy_context \<Rightarrow> u64 \<Rightarrow> u64 \<Rightarrow> av_context" where
  "receiver context now skew =
     \<lparr>av_expected_next_sequence = 0, av_now_monotonic_ns = now, av_max_clock_skew_ns = skew,
      av_known_flow_id = pc_flow_id context\<rparr>"

text \<open>
  C36: a decision for a real flow passes the receiver's structural validation for the five
  seconds it is valid, whatever the evidence, as long as the deadline does not wrap.
\<close>

theorem policy_decision_validates:
  assumes "pc_flow_id context \<noteq> 0"
    and "unat (pc_now_monotonic_ns context) + 5000000000 + unat skew < 2 ^ 64"
    and "unat now \<le> unat (pc_now_monotonic_ns context) + 5000000000"
  shows "av_validate_shield_decision (policy_decide context e h) (receiver context now skew) = ok_unit"
proof -
  have "unat (pc_now_monotonic_ns context + 5000000000 + skew) =
      unat (pc_now_monotonic_ns context) + 5000000000 + unat skew"
    using assms(2) by (simp add: unat_plus_if')
  then have "\<not> pc_now_monotonic_ns context + 5000000000 + skew < now"
    using assms(3) by (simp add: word_less_nat_alt)
  then show ?thesis
    using assms(1) by (simp add: av_validate_shield_decision_def policy_decide_def receiver_def)
qed

definition sample_policy :: policy_context where
  "sample_policy = \<lparr>pc_decision_id = 1, pc_flow_id = 42, pc_now_monotonic_ns = 1000, pc_critical_service = True,
     pc_runtime_gate_active = True, pc_mode = PM_balanced\<rparr>"

theorem policy_decision_validates_witness:
  "av_validate_shield_decision (policy_decide sample_policy (no_evidence\<lparr>ev_hard_rule := 100\<rparr>) zero_digest)
     (receiver sample_policy 4000000000 10) = ok_unit"
  by (rule policy_decision_validates) (simp_all add: sample_policy_def)

lemma policy_hard_block:
  "rs_hard_block (risk_score_of e) \<Longrightarrow> policy_action c e \<in> {SA_quarantine, SA_block_origin}"
  by (simp add: policy_action_def Let_def)

lemma hard_text_blocked:
  "has_traversal s \<or> has_command s \<or> has_signature s \<Longrightarrow> rs_hard_block (risk_score_of (inspect_text s))"
  by (auto simp: risk_score_of_def Let_def inspect_text_cases)

lemma text_mask_not_fatal:
  "ev_reason_mask (inspect_text s) AND (policy_signature_invalid OR model_signature_invalid OR abi_violation) = 0"
  by (simp add: inspect_text_cases)

text \<open>
  The verdict on the text detector's evidence alone. Its framing marker is two fixed strings,
  \<open>content-length:\<close> and \<open>transfer-encoding: chunked\<close> with exactly one blank, and it sets no hard
  rule: the request is delayed or sandboxed, and the spelling without the blank is not seen.
  The hard rule on ambiguous framing comes from the HTTP parser.
\<close>

lemma text_verdict:
  "policy_action context (inspect_text s) =
     (if has_traversal s \<or> has_command s \<or> has_signature s then SA_quarantine
      else if has_smuggling s
        then (if length s > 65536 \<or> pc_mode context = PM_strict then SA_redirect_sandbox else SA_rate_limit)
      else SA_allow)"
proof (cases "has_traversal s \<or> has_command s \<or> has_signature s")
  case True
  then show ?thesis
    using hard_text_blocked [OF True] text_mask_not_fatal [of s] by (simp add: policy_action_def Let_def)
next
  case False
  then show ?thesis
    by (cases "has_smuggling s"; cases "length s > 65536")
      (simp_all add: policy_action_def Let_def inspect_text_cases risk_score_of_def risk_sum_def
        band_for_score_def band_action_def)
qed

definition fatal_reasons :: u32 where
  "fatal_reasons = policy_signature_invalid OR model_signature_invalid OR abi_violation"

lemma band_action_lets_through:
  "lets_through (band_action context (band_for_score r)) \<longleftrightarrow> unat r < 50"
  by (simp add: lets_through_def band_action_def band_for_score_cases)

lemma total_le_any: "unat (rs_total (risk_score_of e)) < 50 \<longleftrightarrow> unat (risk_sum e) < 50"
proof (cases "risk_sum e > 65535")
  case True
  then have "65535 < unat (risk_sum e)" by (simp add: word_less_nat_alt)
  then show ?thesis using True by (simp add: risk_score_of_def Let_def)
next
  case False
  then have "unat (risk_sum e) \<le> 65535" by (simp add: word_less_nat_alt)
  then show ?thesis using False
    by (simp add: risk_score_of_def Let_def unsigned_ucast_eq take_bit_nat_eq_self)
qed

lemma risk_sum_any: "unat (risk_sum e) = sum_list (scores e)"
proof -
  have bound: "unat (x :: u16) < 65536" for x using unsigned_less [of x, where 'a = nat] by simp
  have add: "unat (x + ucast y) = unat x + unat y" if "unat x < 8 * 65536" for x :: u32 and y :: u16
    using that bound [of y] by (simp add: unat_plus_if')
  note b = bound [of "ev_hard_rule e"] bound [of "ev_signature e"] bound [of "ev_protocol e"]
    bound [of "ev_novelty e"] bound [of "ev_adaptivity e"] bound [of "ev_campaign e"]
    bound [of "ev_consequence e"] bound [of "ev_target_criticality e"]
  show ?thesis using b by (simp add: risk_sum_def scores_def add)
qed

lemma lets_through_exact:
  "lets_through (policy_action context e) \<longleftrightarrow>
     ev_reason_mask e AND fatal_reasons = 0 \<and>
     unat (ev_hard_rule e) < 100 \<and> unat (ev_signature e) < 100 \<and> unat (ev_consequence e) < 100 \<and>
     (if ev_reason_mask e AND sandbox_inconclusive = 0 then sum_list (scores e) < 50
      else \<not> pc_critical_service context \<and> (pc_runtime_gate_active context \<or> sum_list (scores e) < 50))"
proof -
  have hard: "rs_hard_block (risk_score_of e) \<longleftrightarrow>
      \<not> (unat (ev_hard_rule e) < 100 \<and> unat (ev_signature e) < 100 \<and> unat (ev_consequence e) < 100)"
    by (auto simp: risk_score_of_def Let_def word_le_nat_alt)
  have band: "lets_through (band_action context (band_for_score (rs_total (risk_score_of e)))) \<longleftrightarrow>
      sum_list (scores e) < 50"
    unfolding band_action_lets_through total_le_any risk_sum_any ..
  have const: "\<not> lets_through SA_block_origin" "\<not> lets_through SA_quarantine" "lets_through SA_allow_monitored"
    by (simp_all add: lets_through_def)
  show ?thesis
    unfolding policy_action_def Let_def fatal_reasons_def [symmetric] hard
    using band const by (simp only: if_split) auto
qed

text \<open>
  What the sandbox reports for a run that ended in a timeout, a crash or without
  instrumentation: the reason, and 60 points of sensor integrity, which alone lift the sum
  over every band that lets traffic through.
\<close>

definition inconclusive_outcome :: "result_summary \<Rightarrow> bool" where
  "inconclusive_outcome r \<longleftrightarrow> sb_outcome r = Out_timeout \<or> sb_outcome r = Out_crash \<or> sb_outcome r = Out_instrumentation_gap"

lemma inconclusive_evidence:
  assumes "inconclusive_outcome r"
  shows "ev_reason_mask (evidence_from r) AND fatal_reasons = 0"
    and "ev_reason_mask (evidence_from r) AND sandbox_inconclusive \<noteq> 0"
    and "ev_hard_rule (evidence_from r) = 0" "ev_signature (evidence_from r) = 0"
    and "unat (ev_consequence (evidence_from r)) < 100" "50 \<le> sum_list (scores (evidence_from r))"
  using assms
  by (auto simp: inconclusive_outcome_def evidence_from_def Let_def no_evidence_def fatal_reasons_def
      scores_def clipped_score_def)

text \<open>
  C1: for any evidence whatever, traffic gets through (allowed or allowed under monitoring)
  exactly when no signature or ABI check failed, none of the three blocking scores reached
  100, and one of three cases holds. A sandbox result is there: the sum of the nine scores is
  below 50. The result is inconclusive, the service is not critical and the runtime gate is
  up: always, and then only under monitoring. The result is inconclusive, the service is not
  critical and the gate is down: the sum is below 50. For a critical service an inconclusive
  result never gets through. The third case is not what plan 13.4 asks of the policy, which
  lets an inconclusive result through only under monitoring and only with the gate up; the
  plan's rule nevertheless holds for every result the sandbox itself reports, since a run
  that ended in a timeout, a crash or without instrumentation adds 60 points: traffic with
  such a result gets through exactly when the service is not critical and the gate is up,
  and then only under monitoring.
\<close>

theorem policy_lets_through_iff:
  "(lets_through (policy_action context e) \<longleftrightarrow>
     ev_reason_mask e AND fatal_reasons = 0 \<and>
     unat (ev_hard_rule e) < 100 \<and> unat (ev_signature e) < 100 \<and> unat (ev_consequence e) < 100 \<and>
     (if ev_reason_mask e AND sandbox_inconclusive = 0 then sum_list (scores e) < 50
      else if pc_critical_service context then False
      else if pc_runtime_gate_active context then policy_action context e = SA_allow_monitored
      else sum_list (scores e) < 50)) \<and>
   (if inconclusive_outcome r
    then lets_through (policy_action context (evidence_from r)) =
           (pc_critical_service context = False \<and> pc_runtime_gate_active context) \<and>
         policy_action context (evidence_from r) \<noteq> SA_allow
    else True)"
proof -
  have monitored: "policy_action context x = SA_allow_monitored"
    if "ev_reason_mask x AND fatal_reasons = 0" "unat (ev_hard_rule x) < 100" "unat (ev_signature x) < 100"
      "unat (ev_consequence x) < 100" "ev_reason_mask x AND sandbox_inconclusive \<noteq> 0"
      "\<not> pc_critical_service context" "pc_runtime_gate_active context" for x
    using that by (simp add: policy_action_def Let_def fatal_reasons_def risk_score_of_def word_le_nat_alt)
  show ?thesis
  proof (cases "inconclusive_outcome r")
    case True
    have "lets_through (policy_action context (evidence_from r)) \<longleftrightarrow>
        \<not> pc_critical_service context \<and> pc_runtime_gate_active context"
      using lets_through_exact [of "context" "evidence_from r"] inconclusive_evidence [OF True] by simp
    then show ?thesis
      using lets_through_exact [of "context" e] monitored [of e] monitored [of "evidence_from r"]
        inconclusive_evidence [OF True]
      by (auto simp: lets_through_def)
  qed (use lets_through_exact [of "context" e] monitored [of e] in auto)
qed

text \<open>
  The third case: the reason alone, without the sensor score the sandbox adds, is allowed
  outright when the gate is down, without monitoring and in the strict mode too.
\<close>

lemma inconclusive_counts_as_clean:
  assumes "\<not> pc_critical_service context" "\<not> pc_runtime_gate_active context"
  shows "policy_action context (add_reason sandbox_inconclusive no_evidence) = SA_allow"
  using assms
  by (simp add: policy_action_def Let_def no_evidence_def risk_score_of_def risk_sum_def
      band_for_score_def band_action_def)

text \<open>
  Among pieces of evidence with the same reasons and no blocking score, more risk never
  gives a laxer action.
\<close>

theorem policy_monotone:
  assumes "ev_reason_mask e' = ev_reason_mask e"
    and "\<not> rs_hard_block (risk_score_of e')"
    and "rs_total (risk_score_of e) \<le> rs_total (risk_score_of e')"
    and "\<not> rs_hard_block (risk_score_of e)"
  shows "severity (policy_action context e) \<le> severity (policy_action context e')"
  using assms band_action_mono [OF band_for_score_mono [OF assms(3)], of "context"]
  by (simp add: policy_action_def Let_def)

theorem policy_monotone_witness:
  "severity (policy_action sample_policy (no_evidence\<lparr>ev_protocol := 45\<rparr>)) \<le>
   severity (policy_action sample_policy (no_evidence\<lparr>ev_protocol := 70, ev_novelty := 20\<rparr>))"
  by (rule policy_monotone) (simp_all add: risk_score_of_def risk_sum_def Let_def)

section \<open>fail_policy.cpp\<close>

datatype service_class = SC_admin_management | SC_file_download | SC_web_api | SC_media_game | SC_unregistered

datatype failure_kind = FK_ai | FK_sandbox | FK_core

record action_decision =
  ad_action :: shield_action
  ad_reason_mask :: u32

definition fail_policy_decide :: "service_class \<Rightarrow> failure_kind \<Rightarrow> u16 \<Rightarrow> action_decision" where
  "fail_policy_decide service_class failure current_risk =
     (let mask = degraded_mode in
      if service_class = SC_unregistered
        then \<lparr>ad_action = SA_block_origin, ad_reason_mask = mask OR unregistered_service\<rparr>
      else if failure = FK_core
        then \<lparr>ad_action = (if service_class = SC_media_game then SA_allow_monitored else SA_block_origin),
              ad_reason_mask = mask\<rparr>
      else if service_class = SC_admin_management \<or> service_class = SC_file_download
        then \<lparr>ad_action = SA_quarantine, ad_reason_mask = mask\<rparr>
      else if service_class = SC_web_api
        then \<lparr>ad_action = (if current_risk \<ge> 50 then SA_drop_flow else SA_allow_monitored), ad_reason_mask = mask\<rparr>
      else \<lparr>ad_action = (if current_risk \<ge> 75 then SA_rate_limit else SA_allow_monitored), ad_reason_mask = mask\<rparr>)"

lemma fail_policy_lets_through:
  "lets_through (ad_action (fail_policy_decide c f r)) \<longleftrightarrow>
     (c = SC_media_game \<and> (f = FK_core \<or> unat r < 75)) \<or> (c = SC_web_api \<and> f \<noteq> FK_core \<and> unat r < 50)"
  by (cases c; cases f) (auto simp: fail_policy_decide_def lets_through_def word_le_nat_alt)

section \<open>egress_gate.cpp\<close>

record egress_rule =
  er_service_id :: u64
  er_destination_ipv4_be :: u32
  er_destination_port_be :: u16

record egress_request =
  eq_service_id :: u64
  eq_destination_ipv4_be :: u32
  eq_destination_port_be :: u16
  eq_externally_influenced :: bool

fun egress_decide :: "egress_request \<Rightarrow> egress_rule list \<Rightarrow> action_decision" where
  "egress_decide request [] =
     (if eq_externally_influenced request
      then \<lparr>ad_action = SA_drop_flow, ad_reason_mask = consequence_detected\<rparr>
      else \<lparr>ad_action = SA_allow_monitored, ad_reason_mask = degraded_mode\<rparr>)"
| "egress_decide request (rule # rules) =
     (if er_service_id rule = eq_service_id request \<and>
         er_destination_ipv4_be rule = eq_destination_ipv4_be request \<and>
         er_destination_port_be rule = eq_destination_port_be request
      then \<lparr>ad_action = SA_allow, ad_reason_mask = 0\<rparr>
      else egress_decide request rules)"

lemma egress_decide_eq:
  "egress_decide q rules =
     (if \<lparr>er_service_id = eq_service_id q, er_destination_ipv4_be = eq_destination_ipv4_be q,
          er_destination_port_be = eq_destination_port_be q\<rparr> \<in> set rules
      then \<lparr>ad_action = SA_allow, ad_reason_mask = 0\<rparr>
      else if eq_externally_influenced q then \<lparr>ad_action = SA_drop_flow, ad_reason_mask = consequence_detected\<rparr>
      else \<lparr>ad_action = SA_allow_monitored, ad_reason_mask = degraded_mode\<rparr>)"
  by (induction q rules rule: egress_decide.induct) auto

section \<open>backpressure.cpp\<close>

record bp_limits =
  bl_per_flow_bytes :: u32
  bl_per_source_flows :: u32
  bl_per_service_flows :: u32
  bl_global_flows :: u32

record bp_usage =
  bu_flow_bytes :: u32
  bu_source_flows :: u32
  bu_service_flows :: u32
  bu_total_flows :: u32

definition backpressure_decide :: "bp_limits \<Rightarrow> bp_usage \<Rightarrow> action_decision" where
  "backpressure_decide limits usage =
     (let over_flow = bl_per_flow_bytes limits \<noteq> 0 \<and> bu_flow_bytes usage > bl_per_flow_bytes limits;
          over_source = bl_per_source_flows limits \<noteq> 0 \<and> bu_source_flows usage > bl_per_source_flows limits;
          over_service = bl_per_service_flows limits \<noteq> 0 \<and> bu_service_flows usage > bl_per_service_flows limits;
          over_global = bl_global_flows limits \<noteq> 0 \<and> bu_total_flows usage > bl_global_flows limits
      in if over_flow \<or> over_source \<or> over_service \<or> over_global
         then \<lparr>ad_action = SA_rate_limit, ad_reason_mask = queue_overflow OR rate_limited\<rparr>
         else \<lparr>ad_action = SA_allow, ad_reason_mask = 0\<rparr>)"

lemma backpressure_mono:
  assumes "bu_flow_bytes u \<le> bu_flow_bytes u'" "bu_source_flows u \<le> bu_source_flows u'"
    and "bu_service_flows u \<le> bu_service_flows u'" "bu_total_flows u \<le> bu_total_flows u'"
    and "ad_action (backpressure_decide l u) = SA_rate_limit"
  shows "ad_action (backpressure_decide l u') = SA_rate_limit"
  using assms by (auto simp: backpressure_decide_def Let_def split: if_splits)

section \<open>learning_mode.cpp\<close>

definition kMaxLearningDurationNs :: u64 where
  "kMaxLearningDurationNs = 14 * 24 * 60 * 60 * 1000000000"

datatype learning_mode =
  LM_disabled | LM_observation_only | LM_shadow_candidate_generation | LM_offline_validation

record learning_window =
  lw_enabled :: bool
  lw_mode :: learning_mode
  lw_started_monotonic_ns :: u64
  lw_now_monotonic_ns :: u64

record decision_override =
  do_action :: shield_action
  do_hard_rules_remain_active :: bool
  do_expired :: bool

definition learning_apply :: "learning_window \<Rightarrow> u32 \<Rightarrow> u16 \<Rightarrow> decision_override" where
  "learning_apply window reason_mask risk =
     (let expired = lw_now_monotonic_ns window < lw_started_monotonic_ns window \<or>
            lw_now_monotonic_ns window - lw_started_monotonic_ns window > kMaxLearningDurationNs
      in if \<not> lw_enabled window \<or> lw_mode window = LM_disabled \<or> lw_mode window = LM_offline_validation \<or> expired
         then \<lparr>do_action = SA_allow_monitored, do_hard_rules_remain_active = True, do_expired = expired\<rparr>
         else
           let hard_reasons = signature_match OR command_execution OR sandbox_escape_signal OR
                 policy_signature_invalid OR model_signature_invalid OR executable_format_anomaly OR
                 document_active_content
           in if reason_mask AND hard_reasons \<noteq> 0 \<or> risk \<ge> 100
              then \<lparr>do_action = SA_quarantine, do_hard_rules_remain_active = True, do_expired = False\<rparr>
              else \<lparr>do_action = SA_allow_monitored, do_hard_rules_remain_active = True, do_expired = False\<rparr>)"

lemma learning_expired_iff:
  "do_expired (learning_apply w m r) \<longleftrightarrow>
     \<not> (unat (lw_started_monotonic_ns w) \<le> unat (lw_now_monotonic_ns w) \<and>
        unat (lw_now_monotonic_ns w) - unat (lw_started_monotonic_ns w) \<le> 14 * 86400 * 1000000000)"
proof -
  let ?x = "lw_now_monotonic_ns w < lw_started_monotonic_ns w \<or>
    lw_now_monotonic_ns w - lw_started_monotonic_ns w > kMaxLearningDurationNs"
  have "do_expired (learning_apply w m r) = ?x" by (auto simp: learning_apply_def Let_def)
  also have "?x \<longleftrightarrow> \<not> (unat (lw_started_monotonic_ns w) \<le> unat (lw_now_monotonic_ns w) \<and>
        unat (lw_now_monotonic_ns w) - unat (lw_started_monotonic_ns w) \<le> 14 * 86400 * 1000000000)"
    by (auto simp: kMaxLearningDurationNs_def word_less_nat_alt unat_sub_if' word_le_nat_alt not_le not_less)
  finally show ?thesis .
qed

section \<open>retention.cpp\<close>

datatype data_class =
  DC_flow_metadata | DC_security_incident | DC_sandbox_report | DC_full_payload | DC_health_performance

record retention_decision =
  rd_keep :: bool
  rd_requires_explicit_admin_payload_opt_in :: bool

definition kDayNs :: u64 where "kDayNs = 24 * 60 * 60 * 1000000000"

fun default_retention_ns :: "data_class \<Rightarrow> u64" where
  "default_retention_ns DC_flow_metadata = 30 * kDayNs"
| "default_retention_ns DC_security_incident = 90 * kDayNs"
| "default_retention_ns DC_sandbox_report = 30 * kDayNs"
| "default_retention_ns DC_full_payload = 0"
| "default_retention_ns DC_health_performance = 14 * kDayNs"

definition retention_decide :: "data_class \<Rightarrow> u64 \<Rightarrow> bool \<Rightarrow> bool \<Rightarrow> retention_decision" where
  "retention_decide data_class age_ns incident_context explicit_payload_opt_in =
     (if data_class = DC_full_payload
      then \<lparr>rd_keep = explicit_payload_opt_in,
            rd_requires_explicit_admin_payload_opt_in = \<not> explicit_payload_opt_in\<rparr>
      else
        let retention = default_retention_ns data_class;
            retention = (if data_class = DC_sandbox_report \<and> incident_context then 90 * kDayNs else retention)
        in \<lparr>rd_keep = (age_ns \<le> retention), rd_requires_explicit_admin_payload_opt_in = False\<rparr>)"

text \<open>The number of days each class is kept, and that no product of days wraps.\<close>

fun retention_days :: "data_class \<Rightarrow> bool \<Rightarrow> nat" where
  "retention_days DC_flow_metadata _ = 30"
| "retention_days DC_security_incident _ = 90"
| "retention_days DC_sandbox_report incident = (if incident then 90 else 30)"
| "retention_days DC_full_payload _ = 0"
| "retention_days DC_health_performance _ = 14"

lemma retention_keep_iff:
  "rd_keep (retention_decide c age incident opt_in) \<longleftrightarrow>
     (if c = DC_full_payload then opt_in else unat age \<le> retention_days c incident * 86400000000000)"
  by (cases c) (simp_all add: retention_decide_def Let_def kDayNs_def word_le_nat_alt)

section \<open>response_normalizer.cpp, recovery_plan.cpp, maintenance_mode.cpp\<close>

fun external_response_for :: "shield_action \<Rightarrow> string" where
  "external_response_for SA_allow = ''ok''"
| "external_response_for SA_allow_monitored = ''ok''"
| "external_response_for SA_rate_limit = ''temporary_unavailable''"
| "external_response_for SA_redirect_sandbox = ''request_not_processed''"
| "external_response_for SA_quarantine = ''request_not_processed''"
| "external_response_for SA_drop_flow = ''request_not_processed''"
| "external_response_for SA_block_origin = ''request_not_processed''"
| "external_response_for SA_suspend_target = ''request_not_processed''"

text \<open>What the answer reveals to an attacker: nothing beyond whether he was let through or slowed down.\<close>

lemma response_reveals_only:
  "external_response_for a = external_response_for b \<longleftrightarrow>
     lets_through a = lets_through b \<and> (a = SA_rate_limit) = (b = SA_rate_limit)"
  by (cases a; cases b) (simp_all add: lets_through_def)

datatype incident_severity = IS_informational | IS_suspicious | IS_high | IS_critical

record action_plan =
  ap_flow_action :: shield_action
  ap_create_incident :: bool
  ap_reduce_network_access :: bool
  ap_suspend_target :: bool
  ap_lock_updates :: bool
  ap_local_alarm :: bool

definition plain_plan :: "shield_action \<Rightarrow> action_plan" where
  "plain_plan a = \<lparr>ap_flow_action = a, ap_create_incident = False, ap_reduce_network_access = False,
     ap_suspend_target = False, ap_lock_updates = False, ap_local_alarm = False\<rparr>"

fun plan_for :: "incident_severity \<Rightarrow> action_plan" where
  "plan_for IS_informational = plain_plan SA_allow_monitored"
| "plan_for IS_suspicious = plain_plan SA_rate_limit"
| "plan_for IS_high = (plain_plan SA_drop_flow)\<lparr>ap_create_incident := True, ap_suspend_target := True\<rparr>"
| "plan_for IS_critical =
     \<lparr>ap_flow_action = SA_block_origin, ap_create_incident = True, ap_reduce_network_access = True,
      ap_suspend_target = True, ap_lock_updates = True, ap_local_alarm = True\<rparr>"

lemma plan_blocks_iff_incident:
  "ap_create_incident (plan_for s) \<longleftrightarrow> severity (ap_flow_action (plan_for s)) \<ge> 4"
  by (cases s) (simp_all add: plain_plan_def)

record maintenance_guard =
  mg_maintenance_mode :: bool
  mg_local_admin :: bool
  mg_audit_delete_confirmed :: bool

definition can_uninstall :: "maintenance_guard \<Rightarrow> bool" where
  "can_uninstall guard \<longleftrightarrow> mg_local_admin guard \<and> mg_maintenance_mode guard"

definition can_delete_audit :: "maintenance_guard \<Rightarrow> bool" where
  "can_delete_audit guard \<longleftrightarrow> can_uninstall guard \<and> mg_audit_delete_confirmed guard"

section \<open>sandbox_budget.cpp and broker_runtime.cpp\<close>

record budget =
  bg_wall_time_ns :: u64
  bg_memory_bytes :: u64
  bg_max_processes :: u32
  bg_network_allowed :: bool

definition budget_for :: "sandbox_tier \<Rightarrow> u16 \<Rightarrow> budget" where
  "budget_for tier risk =
     (if tier = Tier_hyperv_isolated
      then \<lparr>bg_wall_time_ns = (if risk \<ge> 90 then 2000000000 else 750000000),
            bg_memory_bytes = 1536 * 1024 * 1024, bg_max_processes = 8, bg_network_allowed = False\<rparr>
      else \<lparr>bg_wall_time_ns = (if risk \<ge> 75 then 250000000 else 80000000),
            bg_memory_bytes = 512 * 1024 * 1024, bg_max_processes = 4, bg_network_allowed = False\<rparr>)"

definition budget_exceeded :: "budget \<Rightarrow> u64 \<Rightarrow> u64 \<Rightarrow> u32 \<Rightarrow> bool" where
  "budget_exceeded b elapsed_ns memory_bytes process_count \<longleftrightarrow>
     elapsed_ns > bg_wall_time_ns b \<or> memory_bytes > bg_memory_bytes b \<or> process_count > bg_max_processes b"

lemma budget_never_networked [simp]: "\<not> bg_network_allowed (budget_for t r)"
  by (simp add: budget_for_def)

lemma budget_monotone:
  "r \<le> r' \<Longrightarrow> budget_exceeded (budget_for t r') e m p \<Longrightarrow> budget_exceeded (budget_for t r) e m p"
  by (auto simp: budget_exceeded_def budget_for_def word_less_nat_alt word_le_nat_alt split: if_splits)

record host_capacity =
  hc_logical_cores :: u32
  hc_reserved_cores :: u32

record runtime_plan =
  rt_worker_count :: u32
  rt_iocp_model :: bool

definition plan_workers :: "host_capacity \<Rightarrow> runtime_plan" where
  "plan_workers capacity =
     (let usable = (if hc_logical_cores capacity > hc_reserved_cores capacity
                    then hc_logical_cores capacity - hc_reserved_cores capacity else 0);
          usable = (if usable < 2 then 2 else usable);
          usable = (if usable > 16 then 16 else usable)
      in \<lparr>rt_worker_count = usable, rt_iocp_model = True\<rparr>)"

lemma plan_workers_count:
  "unat (rt_worker_count (plan_workers c)) =
     max 2 (min 16 (unat (hc_logical_cores c) - unat (hc_reserved_cores c)))"
  by (simp add: plan_workers_def Let_def word_less_nat_alt unat_sub word_le_nat_alt)

end
