(* ===== verification/AIS_Audit.thy ===== *)
theory AIS_Audit
  imports AIS_Codec
begin

text \<open>
  The audit chain of \<open>src/audit.cpp\<close>: records, segments that chain to their predecessor by
  hash, checkpoints, and the binary file format. The chain is the list of its segments.
  The format is one \<open>codec\<close> built from the codecs of its fields, from which follows that
  the bytes of a file and the chain read from it determine each other.
\<close>

section \<open>Data\<close>

record audit_record =
  ar_sequence :: u64
  ar_monotonic_ns :: u64
  ar_reason_mask :: u32
  ar_evidence_hash :: digest
  ar_correlation :: corr_context

record audit_segment =
  as_sequence :: u64
  as_previous_hash :: digest
  as_segment_hash :: digest
  as_records :: "audit_record list"

record checkpoint =
  cp_sequence :: u64
  cp_segment_root :: digest
  cp_signer_fingerprint :: digest
  cp_checkpoint_hash :: digest

type_synonym chain = "audit_segment list"

section \<open>Hashes\<close>

definition context_bytes :: "corr_context \<Rightarrow> bytes" where
  "context_bytes c =
     le64 (cx_flow_id c) @ le64 (cx_object_id c) @ le64 (cx_file_id c) @ le64 (cx_volume_id c) @
     le64 (cx_provenance_id c) @ le64 (cx_process_id c) @ le64 (cx_parent_process_id c) @
     le64 (cx_policy_version c) @ le64 (cx_model_version c)"

definition context_present :: "corr_context \<Rightarrow> bool" where
  "context_present c \<longleftrightarrow>
     cx_flow_id c \<noteq> 0 \<or> cx_object_id c \<noteq> 0 \<or> cx_file_id c \<noteq> 0 \<or> cx_volume_id c \<noteq> 0 \<or> cx_provenance_id c \<noteq> 0 \<or>
     cx_process_id c \<noteq> 0 \<or> cx_parent_process_id c \<noteq> 0 \<or> cx_policy_version c \<noteq> 0 \<or> cx_model_version c \<noteq> 0"

definition record_bytes :: "audit_record \<Rightarrow> bytes" where
  "record_bytes r =
     le64 (ar_sequence r) @ le64 (ar_monotonic_ns r) @ le32 (ar_reason_mask r) @ ar_evidence_hash r @
     (if context_present (ar_correlation r) then context_bytes (ar_correlation r) else [])"

definition hash_record :: "audit_record \<Rightarrow> digest" where
  "hash_record r = sha256 (record_bytes r)"

definition segment_bytes :: "digest \<Rightarrow> audit_record list \<Rightarrow> bytes" where
  "segment_bytes previous records = previous @ concat (map hash_record records)"

definition hash_segment :: "digest \<Rightarrow> audit_record list \<Rightarrow> digest" where
  "hash_segment previous records = sha256 (segment_bytes previous records)"

definition hash_checkpoint :: "u64 \<Rightarrow> digest \<Rightarrow> digest \<Rightarrow> digest" where
  "hash_checkpoint seq segment_root signer_fingerprint =
     sha256 (le64 seq @ segment_root @ signer_fingerprint)"

section \<open>The chain\<close>

definition chain_append :: "audit_record \<Rightarrow> chain \<Rightarrow> unit result \<times> chain" where
  "chain_append r c =
     (let next_sequence = (if c = [] then 1 else as_sequence (last c) + 1)
      in if ar_sequence r \<noteq> next_sequence then (Inl St_integrity_failure, c)
         else
           let previous = (if c \<noteq> [] then as_segment_hash (last c) else zero_digest);
               segment = \<lparr>as_sequence = ar_sequence r, as_previous_hash = previous,
                 as_segment_hash = hash_segment previous [r], as_records = [r]\<rparr>
           in (ok_unit, c @ [segment]))"

definition chain_checkpoint :: "chain \<Rightarrow> digest \<Rightarrow> checkpoint result" where
  "chain_checkpoint c signer_fingerprint =
     (if c = [] then Inl St_not_found
      else let l = last c in
        Inr \<lparr>cp_sequence = as_sequence l, cp_segment_root = as_segment_hash l,
             cp_signer_fingerprint = signer_fingerprint,
             cp_checkpoint_hash = hash_checkpoint (as_sequence l) (as_segment_hash l) signer_fingerprint\<rparr>)"

definition verify_checkpoint :: "chain \<Rightarrow> checkpoint \<Rightarrow> unit result" where
  "verify_checkpoint c cp =
     (if c = [] then Inl St_not_found
      else
        let l = last c in
        if cp_sequence cp \<noteq> as_sequence l \<or> \<not> constant_time_equal (cp_segment_root cp) (as_segment_hash l)
          then Inl St_integrity_failure
        else
          let actual = hash_checkpoint (cp_sequence cp) (cp_segment_root cp) (cp_signer_fingerprint cp)
          in if \<not> constant_time_equal actual (cp_checkpoint_hash cp) then Inl St_integrity_failure else ok_unit)"

fun verify_from :: "digest \<Rightarrow> u64 \<Rightarrow> chain \<Rightarrow> unit result" where
  "verify_from previous expected [] = ok_unit"
| "verify_from previous expected (segment # rest) =
     (if as_sequence segment \<noteq> expected \<or> \<not> constant_time_equal (as_previous_hash segment) previous
        then Inl St_integrity_failure
      else if \<not> constant_time_equal (hash_segment (as_previous_hash segment) (as_records segment)) (as_segment_hash segment)
        then Inl St_integrity_failure
      else verify_from (as_segment_hash segment) (expected + 1) rest)"

definition verify :: "chain \<Rightarrow> unit result" where
  "verify c = verify_from zero_digest 1 c"

text \<open>Array members have 32 bytes.\<close>

definition wf_record :: "audit_record \<Rightarrow> bool" where
  "wf_record r \<longleftrightarrow> wf_digest (ar_evidence_hash r)"

definition wf_segment :: "audit_segment \<Rightarrow> bool" where
  "wf_segment s \<longleftrightarrow> wf_digest (as_previous_hash s) \<and> wf_digest (as_segment_hash s) \<and>
     (\<forall>r \<in> set (as_records s). wf_record r)"

definition wf_chain :: "chain \<Rightarrow> bool" where
  "wf_chain c \<longleftrightarrow> (\<forall>s \<in> set c. wf_segment s)"

lemma wf_hash_segment [simp]: "wf_digest (hash_segment p rs)"
  by (simp add: hash_segment_def)

lemma wf_hash_checkpoint [simp]: "wf_digest (hash_checkpoint s r f)"
  by (simp add: hash_checkpoint_def)

lemma wf_zero_digest [simp]: "wf_digest zero_digest"
  by (simp add: wf_digest_def zero_digest_def)

text \<open>The links that \<open>verify\<close> checks, as a predicate on well-formed chains.\<close>

fun linked :: "digest \<Rightarrow> u64 \<Rightarrow> chain \<Rightarrow> bool" where
  "linked previous expected [] \<longleftrightarrow> True"
| "linked previous expected (s # c) \<longleftrightarrow>
     as_sequence s = expected \<and> as_previous_hash s = previous \<and>
     as_segment_hash s = hash_segment previous (as_records s) \<and>
     linked (as_segment_hash s) (expected + 1) c"

lemma verify_from_linked:
  "wf_digest p \<Longrightarrow> wf_chain c \<Longrightarrow> verify_from p e c = ok_unit \<longleftrightarrow> linked p e c"
  by (induction p e c rule: linked.induct) (auto simp: wf_chain_def wf_segment_def)

lemma verify_linked: "wf_chain c \<Longrightarrow> verify c = ok_unit \<longleftrightarrow> linked zero_digest 1 c"
  by (simp add: verify_def verify_from_linked)

definition end_hash :: "digest \<Rightarrow> chain \<Rightarrow> digest" where
  "end_hash p c = (if c = [] then p else as_segment_hash (last c))"

lemma end_hash_simps [simp]:
  "end_hash p [] = p" "end_hash p (s # c) = end_hash (as_segment_hash s) c"
  "end_hash p (c @ [s]) = as_segment_hash s"
  by (simp_all add: end_hash_def)

lemma linked_snoc:
  "linked p e (c @ [s]) \<longleftrightarrow> linked p e c \<and> linked (end_hash p c) (e + of_nat (length c)) [s]"
  by (induction p e c rule: linked.induct) (auto simp: ac_simps)

lemma linked_last_sequence:
  "linked p e c \<Longrightarrow> c \<noteq> [] \<Longrightarrow> as_sequence (last c) = e + of_nat (length c) - 1"
  by (cases c rule: rev_cases) (auto simp: linked_snoc)

text \<open>A chain that was only ever appended to.\<close>

definition chain_inv :: "chain \<Rightarrow> bool" where
  "chain_inv c \<longleftrightarrow> wf_chain c \<and> linked zero_digest 1 c"

lemma chain_append_inv:
  assumes "chain_inv c" "wf_record r"
  shows "chain_inv (snd (chain_append r c))"
proof -
  have "ar_sequence r = (if c = [] then 1 else as_sequence (last c) + 1) \<Longrightarrow> ar_sequence r = 1 + of_nat (length c)"
    using linked_last_sequence [of zero_digest 1 c] assms(1) by (auto simp: chain_inv_def)
  then show ?thesis
    using assms
    by (auto simp: chain_append_def Let_def chain_inv_def linked_snoc wf_chain_def wf_segment_def end_hash_def
        wf_record_def)
qed

text \<open>Arrays of 32 bytes are 32 bytes long; the machine's operations are the records.\<close>

definition append_step :: "audit_record \<Rightarrow> chain \<Rightarrow> chain" where
  "append_step r c = (if wf_record r then snd (chain_append r c) else c)"

interpretation audit_machine: invariant_machine append_step chain_inv
  by unfold_locales (simp add: append_step_def chain_append_inv)

section \<open>The file format\<close>

definition audit_magic :: bytes where
  "audit_magic = bytes_of ''AISHAD02''"

definition enc_record :: "audit_record \<Rightarrow> bytes" where
  "enc_record r =
     le64 (ar_sequence r) @ le64 (ar_monotonic_ns r) @ le32 (ar_reason_mask r) @ ar_evidence_hash r @
     context_bytes (ar_correlation r)"

definition enc_segment :: "audit_segment \<Rightarrow> bytes" where
  "enc_segment s =
     le64 (as_sequence s) @ as_previous_hash s @ as_segment_hash s @ le64 (of_nat (length (as_records s))) @
     concat (map enc_record (as_records s))"

definition serialize :: "chain \<Rightarrow> bytes" where
  "serialize c = audit_magic @ le64 (of_nat (length c)) @ concat (map enc_segment c)"

text \<open>
  Nine reads in a row; the results are checked together afterwards. A read that fails leaves
  the offset where it was and the next one is still attempted.
\<close>

definition read_context :: "bytes \<Rightarrow> nat \<Rightarrow> corr_context result \<times> nat" where
  "read_context bs off =
     (let (flow, off) = read_le 8 bs off; (object, off) = read_le 8 bs off;
          (file, off) = read_le 8 bs off; (volume, off) = read_le 8 bs off;
          (provenance, off) = read_le 8 bs off; (process, off) = read_le 8 bs off;
          (parent, off) = read_le 8 bs off; (policy, off) = read_le 8 bs off;
          (model, off) = read_le 8 bs off
      in case (flow, object, file, volume, provenance, process, parent, policy, model) of
           (Inr fl, Inr ob, Inr fi, Inr vo, Inr pv, Inr pr, Inr pa, Inr po, Inr mo) \<Rightarrow>
             (Inr \<lparr>cx_flow_id = fl, cx_object_id = ob, cx_file_id = fi, cx_volume_id = vo, cx_provenance_id = pv,
                   cx_process_id = pr, cx_parent_process_id = pa, cx_policy_version = po, cx_model_version = mo\<rparr>, off)
         | _ \<Rightarrow> (Inl St_malformed_input, off))"

definition read_record :: "bytes \<Rightarrow> nat \<Rightarrow> audit_record result \<times> nat" where
  "read_record bs off =
     (let (record_sequence, off) = read_le 8 bs off; (monotonic, off) = read_le 8 bs off;
          (reason, off) = read_le 4 bs off; (evidence', off) = read_digest bs off
      in case (record_sequence, monotonic, reason, evidence') of
           (Inr sq, Inr mo, Inr re, Inr ev) \<Rightarrow>
             (case read_context bs off of
                (Inr cx, off) \<Rightarrow>
                  (Inr \<lparr>ar_sequence = sq, ar_monotonic_ns = mo, ar_reason_mask = re, ar_evidence_hash = ev,
                        ar_correlation = cx\<rparr>, off)
              | (Inl s, off) \<Rightarrow> (Inl s, off))
         | _ \<Rightarrow> (Inl St_malformed_input, off))"

definition read_segment :: "bytes \<Rightarrow> nat \<Rightarrow> audit_segment result \<times> nat" where
  "read_segment bs off =
     (let (seq, off) = read_le 8 bs off; (previous, off) = read_digest bs off;
          (segment_hash, off) = read_digest bs off; (record_count, off) = read_le 8 bs off
      in case (seq, previous, segment_hash, record_count) of
           (Inr sq, Inr pr, Inr sh, Inr n) \<Rightarrow>
             if (n :: u64) > 4096 then (Inl St_malformed_input, off)
             else (case read_seq (unat n) read_record bs off of
                     (Inr rs, off) \<Rightarrow>
                       (Inr \<lparr>as_sequence = sq, as_previous_hash = pr, as_segment_hash = sh, as_records = rs\<rparr>, off)
                   | (Inl s, off) \<Rightarrow> (Inl s, off))
         | _ \<Rightarrow> (Inl St_malformed_input, off))"

definition deserialize :: "bytes \<Rightarrow> chain result" where
  "deserialize bs =
     (if length bs < length audit_magic + 8 then Inl St_malformed_input
      else if \<not> starts_with audit_magic bs then Inl St_malformed_input
      else
        (case read_le 8 bs (length audit_magic) of
           (Inl _, _) \<Rightarrow> Inl St_malformed_input
         | (Inr segment_count, off) \<Rightarrow>
             if (segment_count :: u64) > 1000000 then Inl St_malformed_input
             else
               (case read_seq (unat segment_count) read_segment bs off of
                  (Inl s, _) \<Rightarrow> Inl s
                | (Inr c, off) \<Rightarrow>
                    if off \<noteq> length bs then Inl St_malformed_input
                    else (case verify c of Inl s \<Rightarrow> Inl s | Inr _ \<Rightarrow> Inr c))))"

section \<open>The codecs of the format\<close>

lemma read_u64_cases:
  obtains (fail) "fst (read_le 8 bs off) = Inl St_malformed_input" "snd (read_le 8 bs off) = off"
  | (good) v :: u64 where "read_le 8 bs off = (Inr v, off + 8)"
  by (cases "off + 8 > length bs") (auto simp: read_le_def)

lemma read_context_value:
  "fst (read_context bs off) = Inr c \<longleftrightarrow>
     fst (read_le 8 bs off) = Inr (cx_flow_id c) \<and> fst (read_le 8 bs (off + 8)) = Inr (cx_object_id c) \<and>
     fst (read_le 8 bs (off + 16)) = Inr (cx_file_id c) \<and> fst (read_le 8 bs (off + 24)) = Inr (cx_volume_id c) \<and>
     fst (read_le 8 bs (off + 32)) = Inr (cx_provenance_id c) \<and> fst (read_le 8 bs (off + 40)) = Inr (cx_process_id c) \<and>
     fst (read_le 8 bs (off + 48)) = Inr (cx_parent_process_id c) \<and>
     fst (read_le 8 bs (off + 56)) = Inr (cx_policy_version c) \<and> fst (read_le 8 bs (off + 64)) = Inr (cx_model_version c)"
proof (cases "off + 72 \<le> length bs")
  case True
  then show ?thesis by (cases c) (auto simp: read_context_def read_le_def Let_def ac_simps)
next
  case False
  then have "fst (read_le 8 bs (off + 64) :: u64 result \<times> nat) \<noteq> Inr v" for v by (simp add: read_le_def)
  moreover have "fst (read_context bs off) \<noteq> Inr c"
    using False by (auto simp: read_context_def Let_def read_le_def split: sum.splits prod.splits if_splits)
  ultimately show ?thesis by blast
qed

lemma read_context_moves: "fst (read_context bs off) = Inr c \<Longrightarrow> snd (read_context bs off) = off + 72"
  by (auto simp: read_context_def Let_def read_le_def split: if_splits)

lemma length_context_bytes [simp, size_simps]: "length (context_bytes c) = 72"
  by (simp add: context_bytes_def)

interpretation context_codec: codec context_bytes read_context "\<lambda>_. True"
  by unfold_locales
    (simp add: read_context_value read_le_iff context_bytes_def at_simps ac_simps, simp add: read_context_moves)

lemma read_record_value:
  "fst (read_record bs off) = Inr r \<longleftrightarrow>
     fst (read_le 8 bs off) = Inr (ar_sequence r) \<and> fst (read_le 8 bs (off + 8)) = Inr (ar_monotonic_ns r) \<and>
     fst (read_le 4 bs (off + 16)) = Inr (ar_reason_mask r) \<and> fst (read_digest bs (off + 20)) = Inr (ar_evidence_hash r) \<and>
     fst (read_context bs (off + 52)) = Inr (ar_correlation r)"
proof (cases "off + 52 \<le> length bs")
  case True
  obtain cr co where "read_context bs (off + 52) = (cr, co)" by (cases "read_context bs (off + 52)")
  with True show ?thesis
    by (cases r; cases cr)
      (auto simp: read_record_def read_le_def read_digest_def Let_def ac_simps simp del: upt_rec_numeral)
next
  case False
  then have "fst (read_digest bs (off + 20)) \<noteq> Inr v" for v by (simp add: read_digest_def)
  moreover have "fst (read_record bs off) \<noteq> Inr r"
    using False by (auto simp: read_record_def Let_def read_le_def read_digest_def simp del: upt_rec_numeral
        split: sum.splits prod.splits if_splits)
  ultimately show ?thesis by blast
qed

lemma read_record_moves:
  assumes "fst (read_record bs off) = Inr r"
  shows "snd (read_record bs off) = off + 124"
proof -
  have "off + 52 \<le> length bs" and c: "fst (read_context bs (off + 52)) = Inr (ar_correlation r)"
    using assms by (auto simp: read_record_value read_digest_def split: if_splits)
  moreover obtain cr co where "read_context bs (off + 52) = (cr, co)" by (cases "read_context bs (off + 52)")
  ultimately show ?thesis
    using read_context_moves [OF c]
    by (auto simp: read_record_def Let_def read_le_def read_digest_def ac_simps simp del: upt_rec_numeral)
qed

interpretation record_codec: codec enc_record read_record wf_record
proof
  show "fst (read_record bs off) = Inr r \<longleftrightarrow> wf_record r \<and> stands_at (enc_record r) bs off" for bs off r
    by (auto simp: read_record_value read_le_iff digest_codec.dec_iff context_codec.dec_iff enc_record_def wf_record_def
        at_simps ac_simps wf_digest_def)
  show "fst (read_record bs off) = Inr r \<Longrightarrow> snd (read_record bs off) = off + length (enc_record r)" for bs off r
    using read_record_moves [of bs off r]
    by (auto simp: read_record_value digest_codec.dec_iff enc_record_def wf_digest_def)
qed

text \<open>A segment that the format can hold: at most 4096 records.\<close>

definition storable_segment :: "audit_segment \<Rightarrow> bool" where
  "storable_segment s \<longleftrightarrow> wf_segment s \<and> length (as_records s) \<le> 4096"

lemma read_segment_value:
  "fst (read_segment bs off) = Inr s \<longleftrightarrow>
     fst (read_le 8 bs off) = Inr (as_sequence s) \<and> fst (read_digest bs (off + 8)) = Inr (as_previous_hash s) \<and>
     fst (read_digest bs (off + 40)) = Inr (as_segment_hash s) \<and>
     (\<exists>n :: u64. fst (read_le 8 bs (off + 72)) = Inr n \<and> n \<le> 4096 \<and>
        fst (read_seq (unat n) read_record bs (off + 80)) = Inr (as_records s))"
proof (cases "off + 80 \<le> length bs")
  case True
  define sq n :: u64 and pr sh :: digest where
    "sq = le_word (take 8 (drop off bs))" and "n = le_word (take 8 (drop (off + 72) bs))" and
    "pr = map (\<lambda>i. bs ! (off + 8 + i)) [0..<32]" and "sh = map (\<lambda>i. bs ! (off + 40 + i)) [0..<32]"
  have reads: "read_le 8 bs off = (Inr sq, off + 8)" "read_digest bs (off + 8) = (Inr pr, off + 40)"
      "read_digest bs (off + 40) = (Inr sh, off + 72)" "read_le 8 bs (off + 72) = (Inr n, off + 80)"
    using True by (simp_all add: read_le_def read_digest_def sq_def n_def pr_def sh_def del: upt_rec_numeral)
  obtain rr ro where rs: "read_seq (unat n) read_record bs (off + 80) = (rr, ro)"
    by (cases "read_seq (unat n) read_record bs (off + 80)")
  have "read_segment bs off =
      (if n > 4096 then (Inl St_malformed_input, off + 80)
       else (case rr of Inr rs \<Rightarrow> (Inr \<lparr>as_sequence = sq, as_previous_hash = pr, as_segment_hash = sh, as_records = rs\<rparr>, ro)
             | Inl s \<Rightarrow> (Inl s, ro)))"
    by (simp only: read_segment_def reads Let_def prod.case sum.case rs)
  with reads rs show ?thesis by (cases s; cases rr) auto
next
  case False
  then have "fst (read_le 8 bs (off + 72) :: u64 result \<times> nat) \<noteq> Inr v" for v by (simp add: read_le_def)
  moreover have "fst (read_segment bs off) \<noteq> Inr s"
    using False by (auto simp: read_segment_def Let_def read_le_def read_digest_def simp del: upt_rec_numeral
        split: sum.splits prod.splits if_splits)
  ultimately show ?thesis by blast
qed

lemma unat_le_word: "unat (n :: u64) \<le> m \<longleftrightarrow> n \<le> of_nat m" if "m < 2 ^ 64"
  using that by (simp add: word_le_nat_alt unat_of_nat)

lemma count_stands:
  assumes "m < 2 ^ 64"
  shows "(\<exists>n :: u64. stands_at (le64 n) bs off \<and> n \<le> of_nat m \<and> length xs = unat n) \<longleftrightarrow>
     stands_at (le64 (of_nat (length xs))) bs off \<and> length xs \<le> m"
proof
  assume "\<exists>n :: u64. stands_at (le64 n) bs off \<and> n \<le> of_nat m \<and> length xs = unat n"
  then obtain n :: u64 where n: "stands_at (le64 n) bs off" "n \<le> of_nat m" "length xs = unat n" by blast
  then show "stands_at (le64 (of_nat (length xs))) bs off \<and> length xs \<le> m"
    using unat_le_word [OF assms, of n] by simp
next
  assume "stands_at (le64 (of_nat (length xs))) bs off \<and> length xs \<le> m"
  moreover from this assms have "unat (of_nat (length xs) :: u64) = length xs" by (simp add: unat_of_nat)
  ultimately show "\<exists>n :: u64. stands_at (le64 n) bs off \<and> n \<le> of_nat m \<and> length xs = unat n"
    using assms unat_le_word [OF assms, of "of_nat (length xs)"] by (intro exI [of _ "of_nat (length xs)"]) simp
qed

interpretation segment_codec: codec enc_segment read_segment storable_segment
proof
  show "fst (read_segment bs off) = Inr s \<longleftrightarrow> storable_segment s \<and> stands_at (enc_segment s) bs off" for bs off s
  proof -
    have "fst (read_segment bs off) = Inr s \<longleftrightarrow>
        stands_at (le64 (as_sequence s)) bs off \<and>
        wf_digest (as_previous_hash s) \<and> stands_at (as_previous_hash s) bs (off + 8) \<and>
        wf_digest (as_segment_hash s) \<and> stands_at (as_segment_hash s) bs (off + 40) \<and>
        (\<exists>n :: u64. stands_at (le64 n) bs (off + 72) \<and> n \<le> of_nat 4096 \<and> length (as_records s) = unat n) \<and>
        (\<forall>r \<in> set (as_records s). wf_record r) \<and> stands_at (concat (map enc_record (as_records s))) bs (off + 80)"
      by (auto simp: read_segment_value read_le_iff digest_codec.dec_iff record_codec.read_seq_iff)
    also have "\<dots> \<longleftrightarrow> storable_segment s \<and> stands_at (enc_segment s) bs off"
      by (subst count_stands)
        (auto simp: storable_segment_def wf_segment_def enc_segment_def at_simps wf_digest_def ac_simps)
    finally show ?thesis .
  qed
  show "snd (read_segment bs off) = off + length (enc_segment s)" if s: "fst (read_segment bs off) = Inr s" for bs off s
  proof -
    from s obtain n :: u64 where n: "fst (read_le 8 bs (off + 72)) = Inr n" "n \<le> 4096"
      "fst (read_seq (unat n) read_record bs (off + 80)) = Inr (as_records s)" by (auto simp: read_segment_value)
    have wf: "wf_digest (as_previous_hash s)" "wf_digest (as_segment_hash s)"
      using s by (auto simp: read_segment_value digest_codec.dec_iff)
    obtain ro where rs: "read_seq (unat n) read_record bs (off + 80) = (Inr (as_records s), ro)"
      using n(3) by (metis prod.collapse)
    have reads: "read_le 8 bs off = (Inr (as_sequence s), off + 8)"
        "read_digest bs (off + 8) = (Inr (as_previous_hash s), off + 40)"
        "read_digest bs (off + 40) = (Inr (as_segment_hash s), off + 72)" "read_le 8 bs (off + 72) = (Inr n, off + 80)"
      using s n(1) by (auto simp: read_segment_value read_le_def read_digest_def simp del: upt_rec_numeral split: if_splits)
    have "\<not> n > 4096" using n(2) by simp
    then have "snd (read_segment bs off) = ro" by (simp add: read_segment_def reads Let_def rs)
    also have "ro = off + 80 + length (concat (map enc_record (as_records s)))"
      using record_codec.read_seq_moves [OF n(3)] rs by simp
    finally show ?thesis using wf by (simp add: enc_segment_def wf_digest_def)
  qed
qed

text \<open>A chain that the format can hold.\<close>

definition storable :: "chain \<Rightarrow> bool" where
  "storable c \<longleftrightarrow> length c \<le> 1000000 \<and> (\<forall>s \<in> set c. storable_segment s)"

lemma length_audit_magic [simp]: "length audit_magic = 8"
  by (simp add: audit_magic_def)

lemma magic_stands: "16 \<le> length bs \<Longrightarrow> starts_with audit_magic bs \<longleftrightarrow> stands_at audit_magic bs 0"
  by (simp add: starts_with_stands)

lemma deserialize_value:
  "deserialize bs = Inr c \<longleftrightarrow>
     16 \<le> length bs \<and> stands_at audit_magic bs 0 \<and>
     (\<exists>n :: u64. stands_at (le64 n) bs 8 \<and> n \<le> of_nat 1000000 \<and> length c = unat n) \<and>
     (\<forall>s \<in> set c. storable_segment s) \<and> stands_at (concat (map enc_segment c)) bs 16 \<and>
     16 + length (concat (map enc_segment c)) = length bs \<and> verify c = ok_unit"
proof (cases "16 \<le> length bs \<and> stands_at audit_magic bs 0")
  case False
  then show ?thesis
    by (cases "16 \<le> length bs") (auto simp: deserialize_def magic_stands)
next
  case True
  define n :: u64 where "n = le_word (take 8 (drop 8 bs))"
  have n: "read_le 8 bs 8 = (Inr n, 16)" using True by (simp add: read_le_def n_def)
  obtain rr ro where rs: "read_seq (unat n) read_segment bs 16 = (rr, ro)"
    by (cases "read_seq (unat n) read_segment bs 16")
  have "deserialize bs =
      (if n > 1000000 then Inl St_malformed_input
       else case rr of Inl s \<Rightarrow> Inl s
         | Inr c \<Rightarrow> if ro \<noteq> length bs then Inl St_malformed_input
                   else (case verify c of Inl s \<Rightarrow> Inl s | Inr _ \<Rightarrow> Inr c))"
    using True n rs by (simp add: deserialize_def magic_stands)
  then have "deserialize bs = Inr c \<longleftrightarrow> n \<le> 1000000 \<and> rr = Inr c \<and> ro = length bs \<and> verify c = ok_unit"
    by (auto split: sum.splits)
  moreover have "rr = Inr c \<longleftrightarrow> length c = unat n \<and> (\<forall>s \<in> set c. storable_segment s) \<and>
      stands_at (concat (map enc_segment c)) bs 16"
    using segment_codec.read_seq_iff [of "unat n" bs 16 c] rs by simp
  moreover have "rr = Inr c \<Longrightarrow> ro = 16 + length (concat (map enc_segment c))"
    using segment_codec.read_seq_moves [of "unat n" bs 16 c] rs by simp
  moreover have "stands_at (le64 n') bs 8 \<longleftrightarrow> n' = n" for n'
    using n read_le_iff [of 8 bs 8 n'] by auto
  ultimately show ?thesis using True by auto
qed

text \<open>
  C8: reading an audit file succeeds with a chain exactly when the bytes are the serialization
  of that chain, the chain verifies and the format can hold it (at most a million segments of
  at most 4096 records). So what is written is read back, no other bytes are accepted for it,
  and no chain that fails verification is ever read.
\<close>

theorem audit_deserialize_iff:
  "deserialize bs = Inr c \<longleftrightarrow> bs = serialize c \<and> storable c \<and> verify c = ok_unit"
proof -
  have "deserialize bs = Inr c \<longleftrightarrow>
      16 \<le> length bs \<and> stands_at audit_magic bs 0 \<and>
      (stands_at (le64 (of_nat (length c))) bs 8 \<and> length c \<le> 1000000) \<and>
      (\<forall>s \<in> set c. storable_segment s) \<and> stands_at (concat (map enc_segment c)) bs 16 \<and>
      16 + length (concat (map enc_segment c)) = length bs \<and> verify c = ok_unit"
    unfolding deserialize_value by (subst count_stands) simp_all
  also have "\<dots> \<longleftrightarrow> stands_at (serialize c) bs 0 \<and> length (serialize c) = length bs \<and> storable c \<and> verify c = ok_unit"
    by (auto simp: serialize_def at_simps storable_def)
  also have "\<dots> \<longleftrightarrow> bs = serialize c \<and> storable c \<and> verify c = ok_unit"
    by (auto simp: stands_at_take)
  finally show ?thesis .
qed

section \<open>What a chain's last hash binds\<close>

definition segment_pairs :: "audit_segment \<Rightarrow> audit_segment \<Rightarrow> (bytes \<times> bytes) list" where
  "segment_pairs s s' =
     (segment_bytes (as_previous_hash s) (as_records s), segment_bytes (as_previous_hash s') (as_records s')) #
     map2 (\<lambda>r r'. (record_bytes r, record_bytes r')) (as_records s) (as_records s')"

definition chain_pairs :: "chain \<Rightarrow> chain \<Rightarrow> (bytes \<times> bytes) list" where
  "chain_pairs c c' = concat (map2 segment_pairs c c')"

lemma chain_pairs_snoc:
  "length c = length c' \<Longrightarrow> chain_pairs (c @ [s]) (c' @ [s']) = chain_pairs c c' @ segment_pairs s s'"
  by (simp add: chain_pairs_def)

lemma context_absent: "\<not> context_present c \<Longrightarrow> c = empty_context"
  by (cases c) (simp add: context_present_def empty_context_def)

lemma context_bytes_inject: "context_bytes c = context_bytes c' \<longleftrightarrow> c = c'"
  by (cases c; cases c') (simp add: context_bytes_def inj_simps)

lemma context_bytes_nonempty [simp]: "context_bytes c \<noteq> []" "[] \<noteq> context_bytes c"
  using length_context_bytes [of c] by (metis list.size(3) zero_neq_numeral)+

lemma record_bytes_inject:
  assumes "wf_record r" "wf_record r'" "record_bytes r = record_bytes r'"
  shows "r = r'"
proof -
  have l: "length (ar_evidence_hash r) = length (ar_evidence_hash r')"
    using assms(1,2) by (simp add: wf_record_def wf_digest_def)
  have "ar_correlation r = ar_correlation r'"
    using assms(3) l context_absent [of "ar_correlation r"] context_absent [of "ar_correlation r'"]
    by (auto simp: record_bytes_def inj_simps context_bytes_inject split: if_splits)
  then show ?thesis
    using assms(3) l by (cases r; cases r') (auto simp: record_bytes_def inj_simps)
qed

lemma concat_digests_inject:
  assumes "\<And>r. length (f r) = n" "0 < n"
  shows "concat (map f xs) = concat (map f ys) \<longleftrightarrow> map f xs = map f ys"
proof -
  have ne: "f r \<noteq> []" for r using assms(1) [of r] assms(2) by auto
  show ?thesis
  proof (induction xs arbitrary: ys)
    case Nil
    then show ?case using ne by (cases ys) auto
  next
    case (Cons x xs)
    then show ?case using assms ne by (cases ys) auto
  qed
qed

lemma hash_records_equal:
  assumes "map hash_record rs = map hash_record rs'" "\<forall>r \<in> set rs. wf_record r" "\<forall>r \<in> set rs'. wf_record r"
  shows "rs = rs' \<or> (\<exists>p \<in> set (map2 (\<lambda>r r'. (record_bytes r, record_bytes r')) rs rs'). is_collision p)"
  using assms
proof (induction rs arbitrary: rs')
  case Nil
  then show ?case by simp
next
  case (Cons r rs)
  then obtain r' rs2 where rs': "rs' = r' # rs2" by (cases rs') auto
  have "record_bytes r = record_bytes r' \<or> is_collision (record_bytes r, record_bytes r')"
    using Cons.prems(1) rs' sha256_equal_or_collision by (simp add: hash_record_def)
  then show ?case
    using Cons rs' record_bytes_inject [of r r'] by auto
qed

lemma segment_equal_or_collision:
  assumes "wf_segment s" "wf_segment s'" "as_segment_hash s = as_segment_hash s'" "as_sequence s = as_sequence s'"
    and "as_segment_hash s = hash_segment (as_previous_hash s) (as_records s)"
    and "as_segment_hash s' = hash_segment (as_previous_hash s') (as_records s')"
  shows "s = s' \<or> (\<exists>p \<in> set (segment_pairs s s'). is_collision p)"
proof (cases "segment_bytes (as_previous_hash s) (as_records s) = segment_bytes (as_previous_hash s') (as_records s')")
  case False
  then have "is_collision (hd (segment_pairs s s'))"
    using assms(3,5,6) by (simp add: segment_pairs_def is_collision_def hash_segment_def)
  then show ?thesis by (auto simp: segment_pairs_def)
next
  case True
  have "length (hash_record r) = 32" for r using wf_digest_sha256 by (simp add: hash_record_def)
  with True have "as_previous_hash s = as_previous_hash s'" "map hash_record (as_records s) = map hash_record (as_records s')"
    using assms(1,2) concat_digests_inject [of hash_record 32 "as_records s" "as_records s'"]
    by (auto simp: segment_bytes_def wf_segment_def wf_digest_def)
  then show ?thesis
    using assms(1-4) hash_records_equal [of "as_records s" "as_records s'"]
    by (cases s; cases s') (auto simp: wf_segment_def segment_pairs_def)
qed

lemma linked_binding:
  assumes "length c = length c'" "linked p e c" "linked p e c'" "wf_chain c" "wf_chain c'"
    and "end_hash p c = end_hash p c'"
  shows "c = c' \<or> (\<exists>q \<in> set (chain_pairs c c'). is_collision q)"
  using assms
proof (induction c arbitrary: c' rule: rev_induct)
  case Nil
  then show ?case by simp
next
  case (snoc s c)
  from snoc.prems(1) obtain d s' where c': "c' = d @ [s']" by (cases c' rule: rev_cases) auto
  note prems = snoc.prems [unfolded c']
  have len: "length c = length d" using prems(1) by simp
  have "s = s' \<or> (\<exists>q \<in> set (segment_pairs s s'). is_collision q)"
    using prems len by (intro segment_equal_or_collision) (auto simp: linked_snoc wf_chain_def)
  moreover have "s = s' \<Longrightarrow> c = d \<or> (\<exists>q \<in> set (chain_pairs c d). is_collision q)"
    using prems len by (intro snoc.IH) (auto simp: linked_snoc wf_chain_def)
  ultimately show ?case using chain_pairs_snoc [OF len, of s s'] c' by auto
qed

text \<open>
  C7: tamper evidence. Two chains of the same length that both verify and end in the same
  segment hash are equal, record by record, unless they exhibit a collision of SHA-256 among
  the strings hashed at the same position of the two chains.
\<close>

theorem audit_chain_tamper_evident:
  assumes "verify c = ok_unit" "verify c' = ok_unit" "wf_chain c" "wf_chain c'"
    and "length c = length c'"
    and "as_segment_hash (last c) = as_segment_hash (last c')"
  shows "c = c' \<or> (\<exists>p \<in> set (chain_pairs c c'). is_collision p)"
  using assms by (intro linked_binding) (auto simp: verify_linked end_hash_def)

section \<open>Chains that are appended to\<close>

lemma chain_built:
  "chain_inv (fold append_step rs [])"
  by (rule audit_machine.run_inv) (simp add: chain_inv_def wf_chain_def)

text \<open>
  C32: whatever records are appended, in whatever order and however many are refused, the chain
  verifies, and its segments are numbered 1, 2, 3 and so on.
\<close>

theorem audit_append_verifies:
  "let c = fold append_step rs [] in
   verify c = ok_unit \<and> map as_sequence c = map (\<lambda>i. of_nat (Suc i)) [0..<length c]"
proof -
  define c where "c = fold append_step rs []"
  have inv: "chain_inv c" unfolding c_def by (rule chain_built)
  have "linked p e d \<Longrightarrow> map as_sequence d = map (\<lambda>i. e + of_nat i) [0..<length d]" for p e d
    by (induction d rule: rev_induct) (auto simp: linked_snoc)
  from this [of zero_digest 1 c] inv have "map as_sequence c = map (\<lambda>i. 1 + of_nat i) [0..<length c]" by (simp add: chain_inv_def)
  then show ?thesis
    using inv by (simp add: chain_inv_def verify_linked c_def [symmetric] Let_def)
qed

lemma checkpoint_verifies_iff:
  assumes "chain_inv c" "c \<noteq> []" "wf_digest (cp_segment_root cp)" "wf_digest (cp_checkpoint_hash cp)"
  shows "verify_checkpoint c cp = ok_unit \<longleftrightarrow>
     cp_sequence cp = of_nat (length c) \<and> cp_segment_root cp = as_segment_hash (last c) \<and>
     cp_checkpoint_hash cp = hash_checkpoint (cp_sequence cp) (cp_segment_root cp) (cp_signer_fingerprint cp)"
  using assms linked_last_sequence [of zero_digest 1 c]
  by (auto simp: verify_checkpoint_def Let_def chain_inv_def wf_chain_def wf_segment_def)

lemma append_step_cases: "append_step r c = c \<or> length (append_step r c) = Suc (length c)"
  by (simp add: append_step_def chain_append_def Let_def)

lemma append_steps_grow:
  "fold append_step rs c = c \<or> length c < length (fold append_step rs c)"
proof (induction rs arbitrary: c)
  case (Cons r rs)
  from Cons.IH [of "append_step r c"] append_step_cases [of r c] show ?case by auto
qed simp

lemma append_steps_length: "length (fold append_step rs c) \<le> length c + length rs"
proof (induction rs arbitrary: c)
  case (Cons r rs)
  from Cons.IH [of "append_step r c"] append_step_cases [of r c] show ?case by auto
qed simp

text \<open>
  A checkpoint verifies on the chain it was taken from, and is refused on every chain that
  has grown since.
\<close>

theorem audit_checkpoint_current:
  assumes "chain_checkpoint (fold append_step rs []) fp = Inr cp"
    and "length (rs @ later) < 2 ^ 64"
  shows "verify_checkpoint (fold append_step (rs @ later) []) cp = ok_unit \<longleftrightarrow>
    fold append_step (rs @ later) [] = fold append_step rs []"
proof -
  define c where "c = fold append_step rs []"
  define d where "d = fold append_step later c"
  have inv: "chain_inv c" "chain_inv d"
    using chain_built [of rs] chain_built [of "rs @ later"] by (simp_all add: c_def d_def)
  have cp: "c \<noteq> []" "cp_sequence cp = as_sequence (last c)" "cp_segment_root cp = as_segment_hash (last c)"
     "cp_checkpoint_hash cp = hash_checkpoint (as_sequence (last c)) (as_segment_hash (last c)) (cp_signer_fingerprint cp)"
    using assms(1) by (auto simp: chain_checkpoint_def Let_def c_def [symmetric] split: if_splits)
  have wf: "wf_digest (cp_segment_root cp)" "wf_digest (cp_checkpoint_hash cp)"
    using cp inv(1) by (auto simp: chain_inv_def wf_chain_def wf_segment_def)
  have seq: "as_sequence (last c) = of_nat (length c)"
    using linked_last_sequence [of zero_digest 1 c] inv(1) cp(1) by (auto simp: chain_inv_def)
  have grown: "d = c \<or> length c < length d" unfolding d_def by (rule append_steps_grow)
  have len: "length c \<le> length d" "length d < 2 ^ 64"
    using grown append_steps_length [of "rs @ later" "[]"] assms(2) by (auto simp: c_def d_def)
  then have d: "d \<noteq> []" using cp(1) by auto
  have "of_nat (length c) = (of_nat (length d) :: u64) \<longleftrightarrow> length c = length d"
    using len by (simp add: word_unat_eq_iff unat_of_nat)
  then have "verify_checkpoint d cp = ok_unit \<longleftrightarrow> d = c"
    using checkpoint_verifies_iff [OF inv(2) d wf] cp seq grown by auto
  then show ?thesis by (simp add: c_def d_def)
qed

definition sample_record :: "u64 \<Rightarrow> audit_record" where
  "sample_record n = \<lparr>ar_sequence = n, ar_monotonic_ns = 1000 * n, ar_reason_mask = path_traversal,
     ar_evidence_hash = replicate 32 (ucast n), ar_correlation = empty_context\<rparr>"

lemma wf_sample_record [simp]: "wf_record (sample_record n)"
  by (simp add: sample_record_def wf_record_def wf_digest_def)

definition sample_chain :: chain where
  "sample_chain = fold append_step [sample_record 1] []"

lemma sample_chain_ok: "verify sample_chain = ok_unit" "wf_chain sample_chain"
  using chain_built [of "[sample_record 1]"] by (simp_all only: sample_chain_def chain_inv_def verify_linked)

theorem audit_chain_tamper_evident_witness:
  "verify sample_chain = ok_unit \<and> wf_chain sample_chain \<and>
   (sample_chain = sample_chain \<or> (\<exists>p \<in> set (chain_pairs sample_chain sample_chain). is_collision p))"
  using audit_chain_tamper_evident [OF sample_chain_ok(1) sample_chain_ok(1) sample_chain_ok(2) sample_chain_ok(2)
      refl refl] sample_chain_ok by blast

lemma sample_chain_length:
  "length (fold append_step [sample_record 1] []) = 1"
  "length (fold append_step ([sample_record 1] @ [sample_record 2]) []) = 2"
  by (simp_all add: append_step_def chain_append_def Let_def) (simp add: sample_record_def)+

theorem audit_checkpoint_current_witness:
  "let cp = projr (chain_checkpoint (fold append_step [sample_record 1] []) zero_digest) in
   verify_checkpoint (fold append_step [sample_record 1] []) cp = ok_unit \<and>
   verify_checkpoint (fold append_step ([sample_record 1] @ [sample_record 2]) []) cp \<noteq> ok_unit"
proof -
  have "fold append_step [sample_record 1] [] \<noteq> []" using sample_chain_length(1) by fastforce
  then obtain cp where cp: "chain_checkpoint (fold append_step [sample_record 1] []) zero_digest = Inr cp"
    by (auto simp: chain_checkpoint_def Let_def)
  have "fold append_step ([sample_record 1] @ [sample_record 2]) [] \<noteq> fold append_step [sample_record 1] []"
    using sample_chain_length by (metis one_eq_numeral_iff semiring_norm(85))
  then show ?thesis
    using audit_checkpoint_current [OF cp, of "[sample_record 2]"] audit_checkpoint_current [OF cp, of "[]"] cp
    by (simp add: Let_def del: fold_simps)
qed

end
