(* ===== verification/AIS_Package.thy ===== *)
theory AIS_Package
  imports AIS_Codec
begin

text \<open>
  Signed packages and what installs them: \<open>src/package_manifest.cpp\<close>, the policy slots of
  \<open>src/policy_store.cpp\<close>, the model registry of \<open>src/model_registry.cpp\<close>, the A/B update
  manager of \<open>src/update_manager.cpp\<close> and the build attestation of
  \<open>src/build_attestation.cpp\<close>. The installers are state machines over the one function
  \<open>verify_manifest\<close>.
\<close>

section \<open>package_manifest.cpp\<close>

datatype package_kind = PK_policy | PK_model | PK_update

fun package_kind_code :: "package_kind \<Rightarrow> u32" where
  "package_kind_code PK_policy = 0"
| "package_kind_code PK_model = 1"
| "package_kind_code PK_update = 2"

record file_entry =
  fl_path :: string
  fl_sha256 :: digest

record manifest =
  mf_kind :: package_kind
  mf_manifest_version :: u32
  mf_min_abi_version :: u32
  mf_security_version :: u64
  mf_policy_version :: u64
  mf_model_version :: u64
  mf_files :: "file_entry list"
  mf_manifest_digest :: digest
  mf_signature_fingerprint :: digest

record trust_anchor =
  ta_kind :: package_kind
  ta_current_security_version :: u64
  ta_expected_signature_fingerprint :: digest

record verification_report =
  vr_accepted :: bool
  vr_reason_mask :: u32

definition file_bytes :: "file_entry \<Rightarrow> bytes" where
  "file_bytes f = le64 (of_nat (length (fl_path f))) @ bytes_of (fl_path f) @ fl_sha256 f"

definition manifest_bytes :: "manifest \<Rightarrow> bytes" where
  "manifest_bytes m =
     le_bytes 8 (package_kind_code (mf_kind m)) @ le_bytes 8 (mf_manifest_version m) @
     le_bytes 8 (mf_min_abi_version m) @ le64 (mf_security_version m) @ le64 (mf_policy_version m) @
     le64 (mf_model_version m) @ le64 (of_nat (length (mf_files m))) @ concat (map file_bytes (mf_files m))"

definition compute_manifest_digest :: "manifest \<Rightarrow> digest" where
  "compute_manifest_digest m = sha256 (manifest_bytes m)"

text \<open>
  Every failure returns a status alone; the reason bits that the code sets on its local
  report before it returns are lost with it.
\<close>

definition verify_manifest :: "manifest \<Rightarrow> trust_anchor \<Rightarrow> verification_report result" where
  "verify_manifest m trust =
     (if mf_kind m \<noteq> ta_kind trust \<or> mf_manifest_version m = 0 \<or> mf_files m = [] then Inl St_invalid_argument
      else if mf_min_abi_version m > kAbiVersion then Inl St_incompatible_version
      else if mf_security_version m \<le> ta_current_security_version trust then Inl St_downgrade_attempt
      else if \<not> constant_time_equal (compute_manifest_digest m) (mf_manifest_digest m) then Inl St_integrity_failure
      else if \<not> constant_time_equal (mf_signature_fingerprint m) (ta_expected_signature_fingerprint trust)
        then Inl St_integrity_failure
      else Inr \<lparr>vr_accepted = True, vr_reason_mask = 0\<rparr>)"

definition wf_file :: "file_entry \<Rightarrow> bool" where
  "wf_file f \<longleftrightarrow> wf_digest (fl_sha256 f) \<and> length (fl_path f) < 2 ^ 64"

definition wf_manifest :: "manifest \<Rightarrow> bool" where
  "wf_manifest m \<longleftrightarrow> length (mf_files m) < 2 ^ 64 \<and> (\<forall>f \<in> set (mf_files m). wf_file f) \<and>
     wf_digest (mf_manifest_digest m) \<and> wf_digest (mf_signature_fingerprint m)"

text \<open>What the digest covers: everything but itself and the fingerprint.\<close>

definition manifest_content :: "manifest \<Rightarrow> manifest" where
  "manifest_content m = m\<lparr>mf_manifest_digest := zero_digest, mf_signature_fingerprint := zero_digest\<rparr>"

lemma package_kind_code_inject [simp]: "package_kind_code a = package_kind_code b \<longleftrightarrow> a = b"
  by (cases a; cases b) simp_all

lemma file_bytes_prefix_free:
  assumes "wf_file f" "wf_file f'" "file_bytes f @ u = file_bytes f' @ v"
  shows "f = f' \<and> u = v"
proof -
  have l: "length (fl_path f) = length (fl_path f')"
    using assms by (simp add: file_bytes_def wf_file_def inj_simps of_nat_u64_inject del: append_eq_append_conv)
  have "length (bytes_of (fl_path f)) = length (bytes_of (fl_path f'))"
      "length (fl_sha256 f) = length (fl_sha256 f')"
    using l assms(1,2) by (simp_all add: wf_file_def wf_digest_def)
  then show ?thesis
    using assms(3) l by (cases f; cases f') (simp add: file_bytes_def)
qed

lemma manifest_bytes_eqD:
  assumes "manifest_bytes m = manifest_bytes m'"
  shows "mf_kind m = mf_kind m' \<and> mf_manifest_version m = mf_manifest_version m' \<and>
    mf_min_abi_version m = mf_min_abi_version m' \<and> mf_security_version m = mf_security_version m' \<and>
    mf_policy_version m = mf_policy_version m' \<and> mf_model_version m = mf_model_version m' \<and>
    (of_nat (length (mf_files m)) :: u64) = of_nat (length (mf_files m')) \<and>
    concat (map file_bytes (mf_files m)) = concat (map file_bytes (mf_files m'))"
  using assms by (simp add: manifest_bytes_def)

lemma manifest_bytes_inj:
  assumes "wf_manifest m" "wf_manifest m'" "manifest_bytes m = manifest_bytes m'"
  shows "manifest_content m = manifest_content m'"
proof -
  note eqs = manifest_bytes_eqD [OF assms(3)]
  have "length (mf_files m) = length (mf_files m')"
    using eqs assms(1,2) by (simp add: wf_manifest_def of_nat_u64_inject)
  then have "mf_files m = mf_files m' \<and> [] = ([] :: bytes)"
    using eqs assms(1,2)
    by (intro concat_prefix_free [where P = wf_file and enc = file_bytes, OF file_bytes_prefix_free])
      (simp_all add: wf_manifest_def)
  with eqs show ?thesis by (simp add: manifest_content_def)
qed

interpretation manifest_message: hashed_message manifest_bytes "[]" wf_manifest manifest_content
  by unfold_locales (rule manifest_bytes_inj)

lemma manifest_accepted_iff:
  assumes "wf_manifest m" "wf_digest (ta_expected_signature_fingerprint trust)"
  shows "res_ok (verify_manifest m trust) \<longleftrightarrow>
     mf_kind m = ta_kind trust \<and> mf_manifest_version m \<noteq> 0 \<and> mf_files m \<noteq> [] \<and>
     mf_min_abi_version m \<le> kAbiVersion \<and> ta_current_security_version trust < mf_security_version m \<and>
     mf_manifest_digest m = compute_manifest_digest m \<and>
     mf_signature_fingerprint m = ta_expected_signature_fingerprint trust"
  using assms by (auto simp: verify_manifest_def wf_manifest_def compute_manifest_digest_def)

lemma verify_manifest_value: "res_ok (verify_manifest m trust) \<longleftrightarrow> verify_manifest m trust = Inr \<lparr>vr_accepted = True, vr_reason_mask = 0\<rparr>"
  by (simp add: verify_manifest_def)

lemma accepted_newer: "res_ok (verify_manifest m trust) \<Longrightarrow> ta_current_security_version trust < mf_security_version m"
  by (auto simp: verify_manifest_def split: if_splits)

lemma accepted_kind: "res_ok (verify_manifest m trust) \<Longrightarrow> mf_kind m = ta_kind trust"
  by (auto simp: verify_manifest_def split: if_splits)

text \<open>
  Two packages that were accepted (each against its own anchor) and carry the same digest
  have the same kind, versions and files, name by name and hash by hash, or exhibit a SHA-256
  collision between their two encodings.
\<close>

theorem manifest_digest_binds:
  assumes "res_ok (verify_manifest m trust)" "res_ok (verify_manifest m' trust')"
    and "wf_manifest m" "wf_manifest m'" "mf_manifest_digest m = mf_manifest_digest m'"
  shows "manifest_content m = manifest_content m' \<or> is_collision (manifest_bytes m, manifest_bytes m')"
proof -
  have "constant_time_equal (prefixed_hash [] (manifest_bytes m)) (mf_manifest_digest m)"
      "constant_time_equal (prefixed_hash [] (manifest_bytes m')) (mf_manifest_digest m)"
    using assms(1,2,5) by (auto simp: verify_manifest_def compute_manifest_digest_def prefixed_hash_def split: if_splits)
  then show ?thesis
    using manifest_message.binding_checked [OF assms(3,4), of "mf_manifest_digest m"] assms(3)
    by (auto simp: wf_manifest_def prefixed_pairs_def)
qed

text \<open>A sender who knows the fingerprint can seal any content; nothing else is signed.\<close>

definition seal_manifest :: "manifest \<Rightarrow> trust_anchor \<Rightarrow> manifest" where
  "seal_manifest m trust =
     m\<lparr>mf_manifest_digest := compute_manifest_digest m,
       mf_signature_fingerprint := ta_expected_signature_fingerprint trust\<rparr>"

lemma manifest_bytes_seal [simp]: "manifest_bytes (seal_manifest m trust) = manifest_bytes m"
  by (simp add: manifest_bytes_def seal_manifest_def)

text \<open>
  The acceptance of a package depends on nothing secret. Whoever knows the expected
  fingerprint, which is a constant of the anchor, can put it beside the plain hash of contents
  of his own choice; the package is then accepted exactly when kind, versions and a file are
  in place.
\<close>

theorem manifest_forgeable:
  "res_ok (verify_manifest (seal_manifest m trust) trust) \<longleftrightarrow>
     mf_kind m = ta_kind trust \<and> mf_manifest_version m \<noteq> 0 \<and> mf_files m \<noteq> [] \<and>
     mf_min_abi_version m \<le> kAbiVersion \<and> ta_current_security_version trust < mf_security_version m"
  by (auto simp: verify_manifest_def compute_manifest_digest_def) (simp_all add: seal_manifest_def compute_manifest_digest_def)

definition sample_manifest :: "package_kind \<Rightarrow> u64 \<Rightarrow> manifest" where
  "sample_manifest k v = \<lparr>mf_kind = k, mf_manifest_version = 1, mf_min_abi_version = 0x10000, mf_security_version = v,
     mf_policy_version = v, mf_model_version = v, mf_files = [\<lparr>fl_path = ''core.dll'', fl_sha256 = replicate 32 7\<rparr>],
     mf_manifest_digest = zero_digest, mf_signature_fingerprint = zero_digest\<rparr>"

definition sample_trust :: "package_kind \<Rightarrow> u64 \<Rightarrow> trust_anchor" where
  "sample_trust k v = \<lparr>ta_kind = k, ta_current_security_version = v,
     ta_expected_signature_fingerprint = replicate 32 0x5a\<rparr>"

definition sample_package :: "package_kind \<Rightarrow> u64 \<Rightarrow> manifest" where
  "sample_package k v = seal_manifest (sample_manifest k v) (sample_trust k 0)"

lemma sample_accepted: "current < v \<Longrightarrow> res_ok (verify_manifest (sample_package k v) (sample_trust k current))"
  by (simp add: verify_manifest_def compute_manifest_digest_def sample_package_def)
    (simp add: seal_manifest_def sample_manifest_def sample_trust_def kAbiVersion_def compute_manifest_digest_def
      wf_digest_def manifest_bytes_def)

lemma wf_sample_package: "wf_manifest (sample_package k v)"
  by (simp add: sample_package_def seal_manifest_def sample_manifest_def sample_trust_def wf_manifest_def wf_file_def
      compute_manifest_digest_def) (simp add: wf_digest_def)

theorem manifest_digest_binds_witness:
  "let m = sample_package PK_update 5 in
   res_ok (verify_manifest m (sample_trust PK_update 4)) \<and> res_ok (verify_manifest m (sample_trust PK_update 1)) \<and>
   (manifest_content m = manifest_content m \<or> is_collision (manifest_bytes m, manifest_bytes m))"
  using manifest_digest_binds [OF sample_accepted [of 4 5] sample_accepted [of 1 5] wf_sample_package wf_sample_package refl,
      of PK_update] sample_accepted [of 4 5 PK_update] sample_accepted [of 1 5 PK_update]
  by (simp add: Let_def)

section \<open>policy_store.cpp\<close>

datatype policy_slot_state = PS_empty | PS_staged | PS_active | PS_rolled_back

record active_policy =
  po_policy_version :: u64
  po_security_version :: u64

record policy_store =
  st_active :: active_policy
  st_previous :: active_policy
  st_staged :: active_policy
  st_staged_state :: policy_slot_state

definition factory_policy :: active_policy where
  "factory_policy = \<lparr>po_policy_version = 1, po_security_version = 1\<rparr>"

definition no_policy :: active_policy where
  "no_policy = \<lparr>po_policy_version = 0, po_security_version = 0\<rparr>"

definition new_store :: policy_store where
  "new_store = \<lparr>st_active = factory_policy, st_previous = factory_policy, st_staged = no_policy,
     st_staged_state = PS_empty\<rparr>"

definition store_stage :: "manifest \<Rightarrow> trust_anchor \<Rightarrow> policy_store \<Rightarrow> unit result \<times> policy_store" where
  "store_stage m trust s =
     (if mf_kind m \<noteq> PK_policy then (Inl St_invalid_argument, s)
      else let verified = verify_manifest m trust in
        if \<not> res_ok verified then (Inl (res_status verified), s)
        else (ok_unit, s\<lparr>st_staged := \<lparr>po_policy_version = mf_policy_version m, po_security_version = mf_security_version m\<rparr>,
                         st_staged_state := PS_staged\<rparr>))"

definition store_activate :: "u64 \<Rightarrow> policy_store \<Rightarrow> unit result \<times> policy_store" where
  "store_activate expected s =
     (if st_staged_state s \<noteq> PS_staged \<or> po_policy_version (st_staged s) = 0
        then (Inl St_invalid_state_transition, s)
      else if po_policy_version (st_active s) \<noteq> expected
        then (Inl St_integrity_failure, s\<lparr>st_staged_state := PS_rolled_back\<rparr>)
      else (ok_unit, s\<lparr>st_previous := st_active s, st_active := st_staged s, st_staged := no_policy,
                       st_staged_state := PS_active\<rparr>))"

definition store_rollback :: "policy_store \<Rightarrow> unit result \<times> policy_store" where
  "store_rollback s =
     (if po_policy_version (st_active s) = po_policy_version (st_previous s) then (Inl St_invalid_state_transition, s)
      else (ok_unit, s\<lparr>st_active := st_previous s, st_staged_state := PS_rolled_back\<rparr>))"

text \<open>
  A caller that keeps its trust anchor at the security version of the active policy, as the
  anti-downgrade check needs it.
\<close>

datatype store_op = SO_stage manifest digest | SO_activate u64 | SO_rollback

definition store_anchor :: "digest \<Rightarrow> policy_store \<Rightarrow> trust_anchor" where
  "store_anchor fp s = \<lparr>ta_kind = PK_policy, ta_current_security_version = po_security_version (st_active s),
     ta_expected_signature_fingerprint = fp\<rparr>"

fun store_step :: "store_op \<Rightarrow> policy_store \<Rightarrow> policy_store" where
  "store_step (SO_stage m fp) s = snd (store_stage m (store_anchor fp s) s)"
| "store_step (SO_activate v) s = snd (store_activate v s)"
| "store_step SO_rollback s = snd (store_rollback s)"

text \<open>A staged policy is newer than the active one, and the active one is not older than its predecessor.\<close>

definition store_inv :: "policy_store \<Rightarrow> bool" where
  "store_inv s \<longleftrightarrow>
     (st_staged_state s = PS_staged \<longrightarrow> po_security_version (st_active s) < po_security_version (st_staged s)) \<and>
     po_security_version (st_previous s) \<le> po_security_version (st_active s) \<and>
     po_policy_version (st_active s) \<noteq> 0 \<and> po_policy_version (st_previous s) \<noteq> 0"

lemma store_step_inv: "store_inv s \<Longrightarrow> store_inv (store_step op s)"
proof (cases op)
  case (SO_stage m fp)
  then show "store_inv s \<Longrightarrow> store_inv (store_step op s)"
    using accepted_newer [of m "store_anchor fp s"]
    by (auto simp: store_stage_def store_inv_def Let_def store_anchor_def)
next
  case (SO_activate v)
  then show "store_inv s \<Longrightarrow> store_inv (store_step op s)" by (auto simp: store_activate_def store_inv_def)
next
  case SO_rollback
  then show "store_inv s \<Longrightarrow> store_inv (store_step op s)"
    by (auto simp: store_rollback_def store_inv_def split: if_splits)
qed

interpretation store_machine: invariant_machine store_step store_inv
  by unfold_locales (rule store_step_inv)

lemma store_reachable: "store_inv (fold store_step ops new_store)"
  by (rule store_machine.run_inv) (simp add: store_inv_def new_store_def factory_policy_def)

text \<open>
  As long as the caller keeps its anchor at the active security version, no sequence of
  staging, activation and rollback ever activates a downgrade: every activation strictly
  raises the security version, a rollback never raises it, staging leaves the active policy
  alone, and there is always an active policy.
\<close>

theorem policy_store_no_downgrade:
  "let s = fold store_step ops new_store; s' = store_step op s;
       v = po_security_version (st_active s); v' = po_security_version (st_active s') in
   po_policy_version (st_active s) \<noteq> 0 \<and>
   (case op of
      SO_stage _ _ \<Rightarrow> st_active s' = st_active s
    | SO_activate e \<Rightarrow> (if res_ok (fst (store_activate e s)) then v < v' else st_active s' = st_active s)
    | SO_rollback \<Rightarrow> v' \<le> v)"
  using store_reachable [of ops]
  by (cases op)
    (auto simp: Let_def store_inv_def store_stage_def store_activate_def store_rollback_def)

section \<open>model_registry.cpp\<close>

record model_metadata =
  mm_model_version :: u64
  mm_feature_schema_hash :: digest
  mm_training_data_fingerprint :: digest

definition load_production_model ::
    "manifest \<Rightarrow> trust_anchor \<Rightarrow> model_metadata \<Rightarrow> model_metadata \<Rightarrow> unit result \<times> model_metadata" where
  "load_production_model m trust metadata active =
     (if mf_kind m \<noteq> PK_model \<or> mm_model_version metadata = 0 then (Inl St_invalid_argument, active)
      else let verified = verify_manifest m trust in
        if \<not> res_ok verified then (Inl (res_status verified), active)
        else if mm_model_version metadata \<noteq> mf_model_version m then (Inl St_integrity_failure, active)
        else (ok_unit, metadata))"

text \<open>There is no online learning: a live sample is refused and changes nothing.\<close>

definition observe_live_sample :: "model_metadata \<Rightarrow> unit result" where
  "observe_live_sample active = Inl St_invalid_state_transition"

definition has_active_model :: "model_metadata \<Rightarrow> bool" where
  "has_active_model active \<longleftrightarrow> mm_model_version active \<noteq> 0"

lemma load_production_model_changes:
  "snd (load_production_model m trust md active) \<noteq> active \<Longrightarrow>
     res_ok (verify_manifest m trust) \<and> mf_kind m = PK_model \<and> mf_model_version m = mm_model_version md \<and>
     snd (load_production_model m trust md active) = md \<and> mm_model_version md \<noteq> 0"
  by (auto simp: load_production_model_def Let_def split: if_splits)

section \<open>update_manager.cpp\<close>

datatype slot = Slot_a | Slot_b | Slot_recovery

datatype slot_state = SLS_empty | SLS_staged | SLS_active | SLS_failed | SLS_recovery

record slot_info =
  si_slot :: slot
  si_state :: slot_state
  si_security_version :: u64

record boot_health =
  bh_drivers_loaded :: bool
  bh_core_started :: bool
  bh_audit_writable :: bool
  bh_policy_loaded :: bool

record update_manager =
  um_active :: slot
  um_staged :: slot
  um_previous_active :: slot
  um_slots :: "slot_info list"

definition new_manager :: update_manager where
  "new_manager = \<lparr>um_active = Slot_a, um_staged = Slot_b, um_previous_active = Slot_a,
     um_slots = [\<lparr>si_slot = Slot_a, si_state = SLS_active, si_security_version = 1\<rparr>,
                 \<lparr>si_slot = Slot_b, si_state = SLS_empty, si_security_version = 0\<rparr>,
                 \<lparr>si_slot = Slot_recovery, si_state = SLS_recovery, si_security_version = 1\<rparr>]\<rparr>"

definition slot_index :: "slot \<Rightarrow> nat" where
  "slot_index s = (if s = Slot_a then 0 else if s = Slot_b then 1 else 2)"

definition boot_healthy :: "boot_health \<Rightarrow> bool" where
  "boot_healthy h \<longleftrightarrow> bh_drivers_loaded h \<and> bh_core_started h \<and> bh_audit_writable h \<and> bh_policy_loaded h"

definition slot_info_of :: "slot \<Rightarrow> update_manager \<Rightarrow> slot_info" where
  "slot_info_of s u = um_slots u ! slot_index s"

text \<open>\<open>slots_[index_of(s)].state = state\<close>\<close>

definition set_slot_state :: "slot \<Rightarrow> slot_state \<Rightarrow> update_manager \<Rightarrow> update_manager" where
  "set_slot_state s state u = u\<lparr>um_slots := (um_slots u)[slot_index s := (slot_info_of s u)\<lparr>si_state := state\<rparr>]\<rparr>"

definition update_stage :: "manifest \<Rightarrow> trust_anchor \<Rightarrow> update_manager \<Rightarrow> unit result \<times> update_manager" where
  "update_stage m trust u =
     (let verified = verify_manifest m trust in
      if \<not> res_ok verified then (Inl (res_status verified), u)
      else
        let target = (if um_active u = Slot_a then Slot_b else Slot_a);
            u = set_slot_state target SLS_staged (u\<lparr>um_staged := target\<rparr>)
        in (ok_unit, u\<lparr>um_slots := (um_slots u)[slot_index target :=
                          (slot_info_of target u)\<lparr>si_security_version := mf_security_version m\<rparr>]\<rparr>))"

definition activate_staged :: "update_manager \<Rightarrow> unit result \<times> update_manager" where
  "activate_staged u =
     (if si_state (slot_info_of (um_staged u) u) \<noteq> SLS_staged then (Inl St_invalid_state_transition, u)
      else
        let u = set_slot_state (um_active u) SLS_empty (u\<lparr>um_previous_active := um_active u\<rparr>);
            u = set_slot_state (um_staged u) SLS_active (u\<lparr>um_active := um_staged u\<rparr>)
        in (ok_unit, u))"

definition commit_boot :: "boot_health \<Rightarrow> update_manager \<Rightarrow> unit result \<times> update_manager" where
  "commit_boot h u =
     (if boot_healthy h then (ok_unit, u\<lparr>um_previous_active := um_active u\<rparr>)
      else
        let u = set_slot_state (um_active u) SLS_failed u;
            u = u\<lparr>um_active := um_previous_active u\<rparr>
        in (Inl St_integrity_failure, set_slot_state (um_active u) SLS_active u))"

datatype update_op = UO_stage manifest trust_anchor | UO_activate | UO_commit boot_health

fun update_step :: "update_op \<Rightarrow> update_manager \<Rightarrow> update_manager" where
  "update_step (UO_stage m trust) u = snd (update_stage m trust u)"
| "update_step UO_activate u = snd (activate_staged u)"
| "update_step (UO_commit h) u = snd (commit_boot h u)"

lemma slot_index_simps [simp]: "slot_index Slot_a = 0" "slot_index Slot_b = 1" "slot_index Slot_recovery = 2"
  by (simp_all add: slot_index_def)

lemma slot_index_inject [simp]: "slot_index s = slot_index t \<longleftrightarrow> s = t"
  by (cases s; cases t) simp_all

lemma slot_index_less: "slot_index s < 3"
  by (cases s) simp_all

lemma set_slot_state_simps [simp]:
  "um_active (set_slot_state s x u) = um_active u" "um_staged (set_slot_state s x u) = um_staged u"
  "um_previous_active (set_slot_state s x u) = um_previous_active u"
  "length (um_slots (set_slot_state s x u)) = length (um_slots u)"
  by (simp_all add: set_slot_state_def)

lemma slot_info_other [simp]:
  "slot_info_of t (u\<lparr>um_staged := x\<rparr>) = slot_info_of t u" "slot_info_of t (u\<lparr>um_active := x\<rparr>) = slot_info_of t u"
  "slot_info_of t (u\<lparr>um_previous_active := x\<rparr>) = slot_info_of t u"
  by (simp_all add: slot_info_of_def)

lemma slot_info_set:
  "length (um_slots u) = 3 \<Longrightarrow>
     slot_info_of t (set_slot_state s x u) = (if s = t then (slot_info_of t u)\<lparr>si_state := x\<rparr> else slot_info_of t u)"
  using slot_index_less [of s] by (auto simp: set_slot_state_def slot_info_of_def nth_list_update)

lemma slot_info_update:
  "length (um_slots u) = 3 \<Longrightarrow>
     slot_info_of t (u\<lparr>um_slots := (um_slots u)[slot_index s := i]\<rparr>) = (if s = t then i else slot_info_of t u)"
  using slot_index_less [of s] by (auto simp: slot_info_of_def nth_list_update)

text \<open>Exactly one of the two slots is active, it is the one the manager boots, and recovery is never touched.\<close>

definition update_inv :: "update_manager \<Rightarrow> bool" where
  "update_inv u \<longleftrightarrow>
     length (um_slots u) = 3 \<and> um_active u \<noteq> Slot_recovery \<and> um_previous_active u \<noteq> Slot_recovery \<and>
     um_staged u \<noteq> Slot_recovery \<and>
     (\<forall>s. s \<noteq> Slot_recovery \<longrightarrow> (si_state (slot_info_of s u) = SLS_active \<longleftrightarrow> s = um_active u)) \<and>
     slot_info_of Slot_recovery u = \<lparr>si_slot = Slot_recovery, si_state = SLS_recovery, si_security_version = 1\<rparr>"

lemma update_step_inv: "update_inv u \<Longrightarrow> update_inv (update_step op u)"
proof -
  assume inv: "update_inv u"
  show ?thesis
  proof (cases op)
    case (UO_stage m trust)
    then show ?thesis
      using inv by (auto simp: update_stage_def Let_def update_inv_def slot_info_set slot_info_update)
  next
    case UO_activate
    then show ?thesis
      using inv by (auto simp: activate_staged_def Let_def update_inv_def slot_info_set)
  next
    case (UO_commit h)
    then show ?thesis
      using inv by (auto simp: commit_boot_def Let_def update_inv_def slot_info_set)
  qed
qed

interpretation update_machine: invariant_machine update_step update_inv
  by unfold_locales (rule update_step_inv)

lemma update_inv_new: "update_inv new_manager"
proof -
  have "si_state (slot_info_of s new_manager) = SLS_active \<longleftrightarrow> s = Slot_a" for s
    by (cases s) (simp_all add: new_manager_def slot_info_of_def)
  then show ?thesis by (simp add: update_inv_def new_manager_def) (simp add: slot_info_of_def)
qed

lemma update_reachable: "update_inv (fold update_step ops new_manager)"
  by (rule update_machine.run_inv [OF update_inv_new])

text \<open>
  After any sequence of staging, activation and boot reports, exactly one of the slots a
  and b is in the state \<open>active\<close> and it is the slot the manager boots; the recovery slot is
  never changed; and an activation followed at once by a failed boot brings back the slot
  that was active before, with its security version, and marks the new one as failed.
\<close>

theorem update_slots_consistent:
  "let u = fold update_step ops new_manager in
   {s. si_state (slot_info_of s u) = SLS_active} = {um_active u} \<and> um_active u \<noteq> Slot_recovery \<and>
   slot_info_of Slot_recovery u = slot_info_of Slot_recovery new_manager \<and>
   (case activate_staged u of
      (Inl s, u') \<Rightarrow> u' = u
    | (Inr _, u') \<Rightarrow>
        boot_healthy h \<or>
        (let u2 = snd (commit_boot h u') in
         um_active u2 = um_active u \<and> slot_info_of (um_active u) u2 = slot_info_of (um_active u) u \<and>
         si_state (slot_info_of (um_staged u) u2) = SLS_failed))"
proof -
  define u where "u = fold update_step ops new_manager"
  have inv: "update_inv u" unfolding u_def by (rule update_reachable)
  have "s \<in> {s. si_state (slot_info_of s u) = SLS_active} \<longleftrightarrow> s = um_active u" for s
    using inv by (cases "s = Slot_recovery") (auto simp: update_inv_def)
  then have one: "{s. si_state (slot_info_of s u) = SLS_active} = {um_active u}" by blast
  have rec: "slot_info_of Slot_recovery u = slot_info_of Slot_recovery new_manager"
    using inv update_inv_new by (simp add: update_inv_def)
  have returns: "boot_healthy h \<or>
        (let u2 = snd (commit_boot h u') in
         um_active u2 = um_active u \<and> slot_info_of (um_active u) u2 = slot_info_of (um_active u) u \<and>
         si_state (slot_info_of (um_staged u) u2) = SLS_failed)" if "activate_staged u = (Inr x, u')" for x u'
    using that inv
    by (auto simp: activate_staged_def commit_boot_def Let_def update_inv_def slot_info_set split: if_splits)
  have fail: "u' = u" if "activate_staged u = (Inl s, u')" for s u'
    using that by (auto simp: activate_staged_def Let_def split: if_splits)
  show ?thesis
    unfolding Let_def u_def [symmetric]
    using one rec inv returns fail by (auto simp: update_inv_def Let_def split: prod.splits sum.splits)
qed

definition bad_boot :: boot_health where
  "bad_boot = \<lparr>bh_drivers_loaded = False, bh_core_started = True, bh_audit_writable = True, bh_policy_loaded = True\<rparr>"

text \<open>
  A package that is staged while the last update has not yet been confirmed takes the slot
  kept for going back: if the boot then fails, the manager boots the package that was only
  staged, although no activation of it was ever requested and it never booted before.
\<close>

theorem update_failed_boot_runs_staged:
  "let u = fold update_step
         [UO_stage (sample_package PK_update 2) (sample_trust PK_update 1), UO_activate,
          UO_stage (sample_package PK_update 3) (sample_trust PK_update 2), UO_commit bad_boot] new_manager
   in um_active u = Slot_a \<and>
      slot_info_of Slot_a u = \<lparr>si_slot = Slot_a, si_state = SLS_active, si_security_version = 3\<rparr> \<and>
      slot_info_of Slot_b u = \<lparr>si_slot = Slot_b, si_state = SLS_failed, si_security_version = 2\<rparr>"
proof -
  have v: "mf_security_version (sample_package PK_update n) = n" for n
    by (simp add: sample_package_def seal_manifest_def sample_manifest_def)
  have a: "res_ok (verify_manifest (sample_package PK_update 2) (sample_trust PK_update 1))"
      "res_ok (verify_manifest (sample_package PK_update 3) (sample_trust PK_update 2))"
    by (rule sample_accepted, simp)+
  show ?thesis
    by (simp add: update_stage_def a v Let_def new_manager_def set_slot_state_def slot_info_of_def
        activate_staged_def commit_boot_def boot_healthy_def bad_boot_def)
qed

section \<open>build_attestation.cpp\<close>

record artifact_hash =
  af_artifact_id :: u64
  af_sha256 :: digest

record build_manifest =
  bm_build_id :: u64
  bm_compiler_manifest_hash :: digest
  bm_sdk_manifest_hash :: digest
  bm_sbom_hash :: digest
  bm_pdbs_archived :: bool
  bm_reproducible_flags_enabled :: bool

definition build_header_bytes :: "build_manifest \<Rightarrow> bytes" where
  "build_header_bytes m =
     le64 (bm_build_id m) @ bm_compiler_manifest_hash m @ bm_sdk_manifest_hash m @ bm_sbom_hash m"

definition artifact_bytes :: "artifact_hash \<Rightarrow> bytes" where
  "artifact_bytes a = le64 (af_artifact_id a) @ af_sha256 a"

fun attest_loop :: "bytes \<Rightarrow> artifact_hash list \<Rightarrow> bytes result" where
  "attest_loop bs [] = Inr bs"
| "attest_loop bs (a # as) =
     (if af_artifact_id a = 0 then Inl St_invalid_argument else attest_loop (bs @ artifact_bytes a) as)"

definition attest :: "build_manifest \<Rightarrow> artifact_hash list \<Rightarrow> digest result" where
  "attest m artifacts =
     (if bm_build_id m = 0 \<or> artifacts = [] \<or> \<not> bm_pdbs_archived m \<or> \<not> bm_reproducible_flags_enabled m
        then Inl St_invalid_argument
      else (case attest_loop (build_header_bytes m) artifacts of
              Inl s \<Rightarrow> Inl s
            | Inr bs \<Rightarrow> Inr (sha256 bs)))"

lemma attest_loop_value:
  "attest_loop bs as =
     (if \<exists>a \<in> set as. af_artifact_id a = 0 then Inl St_invalid_argument
      else Inr (bs @ concat (map artifact_bytes as)))"
  by (induction bs as rule: attest_loop.induct) auto

lemma attest_value:
  "attest m artifacts = Inr d \<longleftrightarrow>
     bm_build_id m \<noteq> 0 \<and> artifacts \<noteq> [] \<and> bm_pdbs_archived m \<and> bm_reproducible_flags_enabled m \<and>
     (\<forall>a \<in> set artifacts. af_artifact_id a \<noteq> 0) \<and>
     d = sha256 (build_header_bytes m @ concat (map artifact_bytes artifacts))"
  by (auto simp: attest_def attest_loop_value)

end
