(* ===== verification/AIS_Enterprise.thy ===== *)
theory AIS_Enterprise
  imports AIS_Codec
begin

text \<open>
  The enterprise control plane's checks on the agent: roles and dual control
  (\<open>src/enterprise_rbac.cpp\<close>), signed response commands and their replay guard
  (\<open>src/enterprise_command.cpp\<close>), signed policy envelopes and staged rollout
  (\<open>src/enterprise_policy.cpp\<close>). Whether a CMS signature is valid is decided outside and
  arrives as the flag \<open>signature_valid\<close> of the context.
\<close>

section \<open>enterprise_rbac.cpp\<close>

datatype role =
    R_viewer | R_analyst | R_responder | R_policy_author | R_policy_approver | R_recovery_operator
  | R_auditor | R_platform_admin

datatype capability =
    Cap_read_telemetry | Cap_export_audit | Cap_execute_response | Cap_author_policy | Cap_approve_policy
  | Cap_approve_high_impact_response | Cap_start_restore | Cap_approve_restore | Cap_manage_devices

record principal =
  pr_actor_id :: u64
  pr_role :: role
  pr_enabled :: bool

record approval =
  ap_actor_id :: u64
  ap_role :: role
  ap_approved_at_ns :: u64

fun permits :: "role \<Rightarrow> capability \<Rightarrow> bool" where
  "permits r Cap_read_telemetry = (r \<noteq> R_policy_author)"
| "permits r Cap_export_audit = (r = R_auditor \<or> r = R_analyst \<or> r = R_platform_admin)"
| "permits r Cap_execute_response = (r = R_responder \<or> r = R_platform_admin)"
| "permits r Cap_author_policy = (r = R_policy_author)"
| "permits r Cap_approve_policy = (r = R_policy_approver)"
| "permits r Cap_approve_high_impact_response = (r = R_policy_approver \<or> r = R_recovery_operator)"
| "permits r Cap_start_restore = (r = R_recovery_operator)"
| "permits r Cap_approve_restore = (r = R_policy_approver)"
| "permits r Cap_manage_devices = (r = R_platform_admin)"

definition rbac_authorize :: "principal \<Rightarrow> capability \<Rightarrow> unit result" where
  "rbac_authorize p c =
     (if pr_actor_id p = 0 \<or> \<not> pr_enabled p \<or> \<not> permits (pr_role p) c then Inl St_integrity_failure else ok_unit)"

definition approval_counts :: "approval \<Rightarrow> capability \<Rightarrow> u64 \<Rightarrow> u64 \<Rightarrow> bool" where
  "approval_counts a c issued_at_ns expires_at_ns \<longleftrightarrow>
     \<not> (ap_actor_id a = 0 \<or> ap_approved_at_ns a < issued_at_ns \<or> ap_approved_at_ns a \<ge> expires_at_ns \<or>
        \<not> permits (ap_role a) c)"

text \<open>The loop over the approvals, with the first actor found so far; it stops at a second one.\<close>

fun dual_loop :: "approval list \<Rightarrow> capability \<Rightarrow> u64 \<Rightarrow> u64 \<Rightarrow> u64 \<Rightarrow> u64 \<times> u64" where
  "dual_loop [] c issued expires first_actor = (first_actor, 0)"
| "dual_loop (a # as) c issued expires first_actor =
     (if \<not> approval_counts a c issued expires then dual_loop as c issued expires first_actor
      else if first_actor = 0 then dual_loop as c issued expires (ap_actor_id a)
      else if ap_actor_id a \<noteq> first_actor then (first_actor, ap_actor_id a)
      else dual_loop as c issued expires first_actor)"

definition require_dual_control :: "approval list \<Rightarrow> capability \<Rightarrow> u64 \<Rightarrow> u64 \<Rightarrow> unit result" where
  "require_dual_control approvals c issued_at_ns expires_at_ns =
     (if issued_at_ns = 0 \<or> expires_at_ns \<le> issued_at_ns then Inl St_invalid_argument
      else if length approvals < 2 then Inl St_integrity_failure
      else let (first_actor, second_actor) = dual_loop approvals c issued_at_ns expires_at_ns 0
           in if first_actor \<noteq> 0 \<and> second_actor \<noteq> 0 then ok_unit else Inl St_integrity_failure)"

lemma approval_counts_actor: "approval_counts a c i e \<Longrightarrow> ap_actor_id a \<noteq> 0"
  by (simp add: approval_counts_def)

lemma dual_loop_started:
  "f \<noteq> 0 \<Longrightarrow>
     fst (dual_loop as c i e f) = f \<and>
     (snd (dual_loop as c i e f) \<noteq> 0 \<longleftrightarrow> (\<exists>a \<in> set as. approval_counts a c i e \<and> ap_actor_id a \<noteq> f))"
  by (induction as) (auto dest: approval_counts_actor)

lemma dual_loop_found:
  "fst (dual_loop as c i e 0) \<noteq> 0 \<and> snd (dual_loop as c i e 0) \<noteq> 0 \<longleftrightarrow>
     (\<exists>a \<in> set as. \<exists>b \<in> set as. approval_counts a c i e \<and> approval_counts b c i e \<and> ap_actor_id a \<noteq> ap_actor_id b)"
proof (induction as)
  case (Cons a as)
  show ?case
  proof (cases "approval_counts a c i e")
    case False
    then show ?thesis using Cons by auto
  next
    case True
    then show ?thesis
      using dual_loop_started [OF approval_counts_actor [OF True], of as c i e] approval_counts_actor [OF True]
      by auto
  qed
qed simp

lemma dual_control_ok_iff:
  "require_dual_control approvals c i e = ok_unit \<longleftrightarrow>
     i \<noteq> 0 \<and> i < e \<and>
     (\<exists>a \<in> set approvals. \<exists>b \<in> set approvals.
        approval_counts a c i e \<and> approval_counts b c i e \<and> ap_actor_id a \<noteq> ap_actor_id b)"
proof -
  have two: "\<not> length approvals < 2" if "a \<in> set approvals" "b \<in> set approvals" "ap_actor_id a \<noteq> ap_actor_id b" for a b
  proof (cases approvals)
    case (Cons x xs)
    with that show ?thesis by (cases xs) auto
  qed (use that in simp)
  show ?thesis
    using dual_loop_found [of approvals c i e] two
    by (auto simp: require_dual_control_def split: prod.splits)
qed

text \<open>
  Dual control is granted exactly when two approvals by different actors were both given
  inside the validity window, by roles that may approve, in whatever order and however many
  other or repeated approvals stand between them.
\<close>

theorem dual_control_needs_two_actors:
  "require_dual_control approvals c issued_at_ns expires_at_ns = ok_unit \<longleftrightarrow>
     issued_at_ns \<noteq> 0 \<and> issued_at_ns < expires_at_ns \<and>
     (\<exists>a \<in> set approvals. \<exists>b \<in> set approvals.
        ap_actor_id a \<noteq> ap_actor_id b \<and> ap_actor_id a \<noteq> 0 \<and> ap_actor_id b \<noteq> 0 \<and>
        permits (ap_role a) c \<and> permits (ap_role b) c \<and>
        issued_at_ns \<le> ap_approved_at_ns a \<and> ap_approved_at_ns a < expires_at_ns \<and>
        issued_at_ns \<le> ap_approved_at_ns b \<and> ap_approved_at_ns b < expires_at_ns)"
  unfolding dual_control_ok_iff by (auto simp: approval_counts_def not_less not_le)

text \<open>Separation of duties: no role both starts and approves.\<close>

lemma separated_duties:
  "\<not> (permits r Cap_author_policy \<and> permits r Cap_approve_policy)"
  "\<not> (permits r Cap_start_restore \<and> permits r Cap_approve_restore)"
  "\<not> (permits r Cap_execute_response \<and> permits r Cap_approve_high_impact_response)"
  by auto

section \<open>enterprise_command.cpp\<close>

datatype command_action =
    CA_isolate_network | CA_release_network_isolation | CA_quarantine_file | CA_block_file_hash
  | CA_block_publisher | CA_block_destination | CA_suspend_process | CA_terminate_process
  | CA_collect_incident | CA_capture_user_data_snapshot | CA_verify_recovery_vault
  | CA_start_approved_restore | CA_rotate_device_certificate | CA_enter_safe_mode

fun command_action_code :: "command_action \<Rightarrow> u64" where
  "command_action_code CA_isolate_network = 0"
| "command_action_code CA_release_network_isolation = 1"
| "command_action_code CA_quarantine_file = 2"
| "command_action_code CA_block_file_hash = 3"
| "command_action_code CA_block_publisher = 4"
| "command_action_code CA_block_destination = 5"
| "command_action_code CA_suspend_process = 6"
| "command_action_code CA_terminate_process = 7"
| "command_action_code CA_collect_incident = 8"
| "command_action_code CA_capture_user_data_snapshot = 9"
| "command_action_code CA_verify_recovery_vault = 10"
| "command_action_code CA_start_approved_restore = 11"
| "command_action_code CA_rotate_device_certificate = 12"
| "command_action_code CA_enter_safe_mode = 13"

datatype target_kind = TK_device | TK_process | TK_file | TK_publisher | TK_destination | TK_recovery_snapshot

fun target_kind_code :: "target_kind \<Rightarrow> u64" where
  "target_kind_code TK_device = 0"
| "target_kind_code TK_process = 1"
| "target_kind_code TK_file = 2"
| "target_kind_code TK_publisher = 3"
| "target_kind_code TK_destination = 4"
| "target_kind_code TK_recovery_snapshot = 5"

lemma command_codes_inject [simp]:
  "command_action_code a = command_action_code b \<longleftrightarrow> a = b" "target_kind_code k = target_kind_code l \<longleftrightarrow> k = l"
  by (cases a; cases b; simp) (cases k; cases l; simp)

record command =
  ce_command_id :: u64
  ce_organization_id :: u64
  ce_device_id :: u64
  ce_actor_id :: u64
  ce_issued_at_ns :: u64
  ce_expires_at_ns :: u64
  ce_nonce :: u64
  ce_target_id :: u64
  ce_action :: command_action
  ce_target_kind :: target_kind
  ce_target_hash :: digest
  ce_content_hash :: digest
  ce_signer_fingerprint :: digest

record command_context =
  cc_now_ns :: u64
  cc_trusted_signer :: digest
  cc_signature_valid :: bool

definition target_valid :: "command \<Rightarrow> bool" where
  "target_valid e =
     (let has_hash = \<not> constant_time_equal (ce_target_hash e) zero_digest in
      case ce_target_kind e of
        TK_device \<Rightarrow> ce_target_id e \<noteq> 0
      | TK_process \<Rightarrow> ce_target_id e \<noteq> 0
      | TK_recovery_snapshot \<Rightarrow> ce_target_id e \<noteq> 0
      | TK_file \<Rightarrow> has_hash
      | TK_publisher \<Rightarrow> has_hash
      | TK_destination \<Rightarrow> has_hash)"

definition command_bytes :: "command \<Rightarrow> bytes" where
  "command_bytes e =
     le64 (ce_command_id e) @ le64 (ce_organization_id e) @ le64 (ce_device_id e) @ le64 (ce_actor_id e) @
     le64 (ce_issued_at_ns e) @ le64 (ce_expires_at_ns e) @ le64 (ce_nonce e) @ le64 (ce_target_id e) @
     le64 (command_action_code (ce_action e)) @ le64 (target_kind_code (ce_target_kind e)) @ ce_target_hash e"

definition command_hash :: "command \<Rightarrow> digest" where
  "command_hash e = sha256 (command_bytes e)"

definition high_impact :: "command_action \<Rightarrow> bool" where
  "high_impact a \<longleftrightarrow> a = CA_release_network_isolation \<or> a = CA_terminate_process \<or> a = CA_start_approved_restore \<or>
     a = CA_rotate_device_certificate \<or> a = CA_enter_safe_mode"

definition maximum_lease_ns :: u64 where "maximum_lease_ns = 900000000000"

definition command_malformed :: "command \<Rightarrow> command_context \<Rightarrow> bool" where
  "command_malformed e ctx \<longleftrightarrow>
     ce_command_id e = 0 \<or> ce_organization_id e = 0 \<or> ce_device_id e = 0 \<or> ce_actor_id e = 0 \<or> ce_nonce e = 0 \<or>
     ce_issued_at_ns e = 0 \<or> ce_expires_at_ns e \<le> ce_issued_at_ns e \<or>
     ce_expires_at_ns e - ce_issued_at_ns e > maximum_lease_ns \<or>
     cc_now_ns ctx < ce_issued_at_ns e \<or> cc_now_ns ctx \<ge> ce_expires_at_ns e \<or> \<not> target_valid e"

definition command_unauthentic :: "command \<Rightarrow> command_context \<Rightarrow> principal \<Rightarrow> bool" where
  "command_unauthentic e ctx actor \<longleftrightarrow>
     \<not> cc_signature_valid ctx \<or> \<not> constant_time_equal (ce_signer_fingerprint e) (cc_trusted_signer ctx) \<or>
     \<not> constant_time_equal (ce_content_hash e) (command_hash e) \<or> pr_actor_id actor \<noteq> ce_actor_id e"

definition command_validate ::
    "command \<Rightarrow> command_context \<Rightarrow> principal \<Rightarrow> approval list \<Rightarrow> unit result" where
  "command_validate e ctx actor approvals =
     (if command_malformed e ctx then Inl St_invalid_argument
      else if command_unauthentic e ctx actor then Inl St_integrity_failure
      else let actor_authorized = rbac_authorize actor Cap_execute_response in
        if \<not> res_ok actor_authorized then Inl (res_status actor_authorized)
        else if high_impact (ce_action e)
          then require_dual_control approvals Cap_approve_high_impact_response (ce_issued_at_ns e) (ce_expires_at_ns e)
        else ok_unit)"

definition wf_command :: "command \<Rightarrow> bool" where
  "wf_command e \<longleftrightarrow> wf_digest (ce_target_hash e) \<and> wf_digest (ce_content_hash e) \<and> wf_digest (ce_signer_fingerprint e)"

definition command_content :: "command \<Rightarrow> command" where
  "command_content e = e\<lparr>ce_content_hash := zero_digest, ce_signer_fingerprint := zero_digest\<rparr>"

lemma command_bytes_inj:
  assumes "wf_command e" "wf_command e'" "command_bytes e = command_bytes e'"
  shows "command_content e = command_content e'"
  using assms by (simp add: command_bytes_def wf_command_def wf_digest_def command_content_def)

interpretation command_message: hashed_message command_bytes "[]" wf_command command_content
  by unfold_locales (rule command_bytes_inj)

lemma command_accepted:
  assumes "command_validate e ctx actor approvals = ok_unit"
  shows "\<not> command_malformed e ctx" "\<not> command_unauthentic e ctx actor"
    "rbac_authorize actor Cap_execute_response = ok_unit"
    "high_impact (ce_action e) \<Longrightarrow>
       require_dual_control approvals Cap_approve_high_impact_response (ce_issued_at_ns e) (ce_expires_at_ns e) = ok_unit"
  using assms by (auto simp: command_validate_def Let_def rbac_authorize_def split: if_splits)

text \<open>
  A command that an agent executes is signed by the trusted signer, was issued for at most
  fifteen minutes and is inside that lease, comes from an enabled responder or platform
  administrator, and, when its action is one of the five of high impact, carries approvals of
  two different actors whose roles may not execute responses themselves.
\<close>

theorem command_accepted_is_authorized:
  assumes "command_validate e ctx actor approvals = ok_unit"
  shows "cc_signature_valid ctx \<and> constant_time_equal (ce_signer_fingerprint e) (cc_trusted_signer ctx) \<and>
    unat (ce_issued_at_ns e) \<le> unat (cc_now_ns ctx) \<and> unat (cc_now_ns ctx) < unat (ce_expires_at_ns e) \<and>
    unat (ce_expires_at_ns e) \<le> unat (ce_issued_at_ns e) + 15 * 60 * 10 ^ 9 \<and>
    pr_enabled actor \<and> pr_actor_id actor = ce_actor_id e \<and> pr_role actor \<in> {R_responder, R_platform_admin} \<and>
    (\<not> high_impact (ce_action e) \<or>
     (\<exists>a \<in> set approvals. \<exists>b \<in> set approvals. ap_actor_id a \<noteq> ap_actor_id b \<and>
        {ap_role a, ap_role b} \<subseteq> {R_policy_approver, R_recovery_operator}))"
proof -
  note acc = command_accepted [OF assms]
  have times: "ce_issued_at_ns e \<le> cc_now_ns ctx" "cc_now_ns ctx < ce_expires_at_ns e"
      "ce_issued_at_ns e < ce_expires_at_ns e" "ce_expires_at_ns e - ce_issued_at_ns e \<le> maximum_lease_ns"
    using acc(1) by (auto simp: command_malformed_def not_less not_le)
  have lease: "unat (ce_expires_at_ns e) \<le> unat (ce_issued_at_ns e) + 15 * 60 * 10 ^ 9"
    using times(3,4) by (simp add: word_le_nat_alt word_less_nat_alt unat_sub_if' maximum_lease_ns_def)
  have actor: "pr_enabled actor \<and> pr_role actor \<in> {R_responder, R_platform_admin}"
    using acc(3) by (auto simp: rbac_authorize_def split: if_splits)
  have dual: "\<exists>a \<in> set approvals. \<exists>b \<in> set approvals. ap_actor_id a \<noteq> ap_actor_id b \<and>
        {ap_role a, ap_role b} \<subseteq> {R_policy_approver, R_recovery_operator}" if "high_impact (ce_action e)"
    using acc(4) [OF that] unfolding dual_control_ok_iff by (fastforce simp: approval_counts_def)
  show ?thesis
    using acc(2) times lease actor dual by (auto simp: command_unauthentic_def word_le_nat_alt word_less_nat_alt)
qed

text \<open>
  Two accepted commands with the same content hash ask for the same action on the same
  target of the same device, by the same actor with the same nonce and lease, or exhibit a
  SHA-256 collision between their two encodings.
\<close>

theorem command_hash_binds:
  assumes "command_validate e ctx actor approvals = ok_unit" "command_validate e' ctx' actor' approvals' = ok_unit"
    and "wf_command e" "wf_command e'" "ce_content_hash e' = ce_content_hash e"
  shows "command_content e = command_content e' \<or> is_collision (command_bytes e, command_bytes e')"
proof -
  have "ce_content_hash e = command_hash e" "ce_content_hash e' = command_hash e'"
    using command_accepted(2) [OF assms(1)] command_accepted(2) [OF assms(2)] assms(3,4)
    by (auto simp: command_unauthentic_def wf_command_def command_hash_def)
  then have "prefixed_hash [] (command_bytes e) = prefixed_hash [] (command_bytes e')"
    using assms(5) by (simp add: command_hash_def prefixed_hash_def)
  then show ?thesis
    using command_message.binding [OF assms(3,4)] by (simp add: prefixed_pairs_def)
qed

definition unsealed_command :: command where
  "unsealed_command =
      \<lparr>ce_command_id = 1, ce_organization_id = 2, ce_device_id = 3, ce_actor_id = 4,
         ce_issued_at_ns = 1000, ce_expires_at_ns = 2000, ce_nonce = 77, ce_target_id = 5,
         ce_action = CA_terminate_process, ce_target_kind = TK_process, ce_target_hash = zero_digest,
         ce_content_hash = zero_digest, ce_signer_fingerprint = zero_digest\<rparr>"

definition sample_command :: command where
  "sample_command = unsealed_command\<lparr>ce_content_hash := command_hash unsealed_command\<rparr>"

definition sample_command_context :: command_context where
  "sample_command_context = \<lparr>cc_now_ns = 1500, cc_trusted_signer = zero_digest, cc_signature_valid = True\<rparr>"

definition sample_actor :: principal where
  "sample_actor = \<lparr>pr_actor_id = 4, pr_role = R_responder, pr_enabled = True\<rparr>"

definition sample_approvals :: "approval list" where
  "sample_approvals =
     [\<lparr>ap_actor_id = 8, ap_role = R_policy_approver, ap_approved_at_ns = 1100\<rparr>,
      \<lparr>ap_actor_id = 9, ap_role = R_recovery_operator, ap_approved_at_ns = 1200\<rparr>]"

lemma command_hash_content [simp]: "command_hash (e\<lparr>ce_content_hash := h\<rparr>) = command_hash e"
  by (simp add: command_hash_def command_bytes_def)

lemma sample_command_hash: "ce_content_hash sample_command = command_hash sample_command"
  unfolding sample_command_def command_hash_content by simp

lemma sample_command_ok:
  "command_validate sample_command sample_command_context sample_actor sample_approvals = ok_unit"
proof -
  have "\<not> command_malformed sample_command sample_command_context"
    by (simp add: command_malformed_def sample_command_def unsealed_command_def sample_command_context_def
        target_valid_def maximum_lease_ns_def)
  moreover have "\<not> command_unauthentic sample_command sample_command_context sample_actor"
    unfolding command_unauthentic_def sample_command_hash
    by (simp add: sample_command_def unsealed_command_def sample_command_context_def sample_actor_def)
  ultimately show ?thesis
    by (simp add: command_validate_def rbac_authorize_def sample_actor_def high_impact_def
        require_dual_control_def approval_counts_def sample_approvals_def sample_command_def unsealed_command_def)
qed

lemma wf_sample_command: "wf_command sample_command"
  by (simp add: sample_command_def unsealed_command_def wf_command_def command_hash_def wf_digest_sha256)

theorem command_accepted_is_authorized_witness:
  "command_validate sample_command sample_command_context sample_actor sample_approvals = ok_unit \<and>
   high_impact (ce_action sample_command) \<and>
   (\<exists>a \<in> set sample_approvals. \<exists>b \<in> set sample_approvals. ap_actor_id a \<noteq> ap_actor_id b)"
  using command_accepted_is_authorized [OF sample_command_ok] sample_command_ok
  by (auto simp: sample_command_def unsealed_command_def high_impact_def)

theorem command_hash_binds_witness:
  "command_validate sample_command sample_command_context sample_actor sample_approvals = ok_unit \<and>
   (command_content sample_command = command_content sample_command \<or>
    is_collision (command_bytes sample_command, command_bytes sample_command))"
  using command_hash_binds [OF sample_command_ok sample_command_ok wf_sample_command wf_sample_command refl]
    sample_command_ok by blast

section \<open>ReplayGuard\<close>

record replay_guard =
  rg_capacity :: nat
  rg_command_ids :: "u64 list"
  rg_nonces :: "u64 list"

definition new_guard :: "nat \<Rightarrow> replay_guard" where
  "new_guard capacity = \<lparr>rg_capacity = capacity, rg_command_ids = [], rg_nonces = []\<rparr>"

definition guard_accept :: "u64 \<Rightarrow> u64 \<Rightarrow> replay_guard \<Rightarrow> unit result \<times> replay_guard" where
  "guard_accept command_id nonce g =
     (if rg_capacity g = 0 \<or> command_id = 0 \<or> nonce = 0 then (Inl St_invalid_argument, g)
      else if command_id \<in> set (rg_command_ids g) \<or> nonce \<in> set (rg_nonces g)
        then (Inl St_integrity_failure, g)
      else
        let g = (if length (rg_command_ids g) = rg_capacity g
                 then g\<lparr>rg_command_ids := tl (rg_command_ids g), rg_nonces := tl (rg_nonces g)\<rparr> else g)
        in (ok_unit, g\<lparr>rg_command_ids := rg_command_ids g @ [command_id], rg_nonces := rg_nonces g @ [nonce]\<rparr>))"

text \<open>
  The promise: a log of everything that was accepted, of which the guard remembers the last
  \<open>capacity\<close> entries.
\<close>

definition last_n :: "nat \<Rightarrow> 'a list \<Rightarrow> 'a list" where
  "last_n n xs = drop (length xs - n) xs"

definition log_accepts :: "nat \<Rightarrow> u64 \<times> u64 \<Rightarrow> (u64 \<times> u64) list \<Rightarrow> bool" where
  "log_accepts n c l \<longleftrightarrow> n \<noteq> 0 \<and> fst c \<noteq> 0 \<and> snd c \<noteq> 0 \<and>
     fst c \<notin> set (map fst (last_n n l)) \<and> snd c \<notin> set (map snd (last_n n l))"

definition log_step :: "nat \<Rightarrow> u64 \<times> u64 \<Rightarrow> (u64 \<times> u64) list \<Rightarrow> (u64 \<times> u64) list" where
  "log_step n c l = (if log_accepts n c l then l @ [c] else l)"

definition guard_step :: "u64 \<times> u64 \<Rightarrow> replay_guard \<Rightarrow> replay_guard" where
  "guard_step c g = snd (guard_accept (fst c) (snd c) g)"

definition guard_refines :: "nat \<Rightarrow> replay_guard \<Rightarrow> (u64 \<times> u64) list \<Rightarrow> bool" where
  "guard_refines n g l \<longleftrightarrow> rg_capacity g = n \<and> rg_command_ids g = map fst (last_n n l) \<and> rg_nonces g = map snd (last_n n l)"

lemma last_n_snoc:
  "0 < n \<Longrightarrow> last_n n (l @ [c]) = (if length (last_n n l) = n then tl (last_n n l) else last_n n l) @ [c]"
proof (cases "n \<le> length l")
  case True
  then have "last_n n (l @ [c]) = drop (Suc (length l - n)) l @ [c]" if "0 < n"
    using that by (simp add: last_n_def Suc_diff_le)
  then show "0 < n \<Longrightarrow> ?thesis" using True by (simp add: last_n_def drop_Suc tl_drop)
next
  case False
  then show ?thesis by (simp add: last_n_def)
qed

lemma guard_refines_accept:
  "guard_refines n g l \<Longrightarrow> fst (guard_accept (fst c) (snd c) g) = ok_unit \<longleftrightarrow> log_accepts n c l"
  by (auto simp: guard_refines_def guard_accept_def log_accepts_def Let_def)

lemma guard_refines_step: "guard_refines n g l \<Longrightarrow> guard_refines n (guard_step c g) (log_step n c l)"
  using last_n_snoc [of n l c]
  by (cases "n = 0")
    (auto simp: guard_refines_def guard_step_def guard_accept_def log_step_def log_accepts_def Let_def map_tl)

lemma guard_refines_run:
  "guard_refines n g l \<Longrightarrow> guard_refines n (fold guard_step cs g) (fold (log_step n) cs l)"
  by (induction cs arbitrary: g l) (auto intro: guard_refines_step)

lemma guard_refines_new: "guard_refines n (new_guard n) []"
  by (simp add: guard_refines_def new_guard_def last_n_def)

text \<open>Any window of the log of one entry more than the capacity has distinct identifiers.\<close>

definition log_inv :: "nat \<Rightarrow> (u64 \<times> u64) list \<Rightarrow> bool" where
  "log_inv n l \<longleftrightarrow> (\<forall>i j. i < j \<longrightarrow> j < length l \<longrightarrow> j - i \<le> n \<longrightarrow> fst (l ! i) \<noteq> fst (l ! j) \<and> snd (l ! i) \<noteq> snd (l ! j))"

lemma nth_in_last_n: "i < length l \<Longrightarrow> length l - i \<le> n \<Longrightarrow> l ! i \<in> set (last_n n l)"
proof -
  assume i: "i < length l" "length l - i \<le> n"
  then have "last_n n l ! (i - (length l - n)) = l ! i" "i - (length l - n) < length (last_n n l)"
    by (auto simp: last_n_def)
  then show ?thesis by (metis nth_mem)
qed

lemma log_step_inv: "log_inv n l \<Longrightarrow> log_inv n (log_step n c l)"
proof -
  assume inv: "log_inv n l"
  show ?thesis
  proof (cases "log_accepts n c l")
    case True
    have new: "fst (l ! i) \<noteq> fst c \<and> snd (l ! i) \<noteq> snd c" if "i < length l" "length l - i \<le> n" for i
      using nth_in_last_n [OF that] True unfolding log_accepts_def set_map by (metis imageI)
    show ?thesis
      unfolding log_inv_def
    proof (intro allI impI)
      fix i j
      assume ij: "i < j" "j < length (log_step n c l)" "j - i \<le> n"
      then show "fst (log_step n c l ! i) \<noteq> fst (log_step n c l ! j) \<and> snd (log_step n c l ! i) \<noteq> snd (log_step n c l ! j)"
        using True inv new [of i] by (cases "j = length l") (auto simp: log_step_def log_inv_def nth_append)
    qed
  qed (use inv in \<open>simp add: log_step_def\<close>)
qed

interpretation replay_log: invariant_machine "log_step n" "log_inv n" for n
  by unfold_locales (rule log_step_inv)

text \<open>
  The replay guard is exact. After any sequence of attempts it accepts a command exactly
  when neither its identifier nor its nonce is among the last \<open>capacity\<close> commands it accepted
  (and none of the numbers is zero); so among any \<open>capacity + 1\<close> consecutively accepted
  commands no identifier and no nonce occurs twice.
\<close>

theorem replay_guard_exact:
  "let g = fold guard_step cs (new_guard n); l = fold (log_step n) cs [] in
   (fst (guard_accept (fst c) (snd c) g) = ok_unit \<longleftrightarrow> log_accepts n c l) \<and>
   rg_command_ids g = map fst (last_n n l) \<and> rg_nonces g = map snd (last_n n l) \<and>
   distinct (map fst (last_n (Suc n) l)) \<and> distinct (map snd (last_n (Suc n) l))"
proof -
  define g where "g = fold guard_step cs (new_guard n)"
  define l where "l = fold (log_step n) cs []"
  have ref: "guard_refines n g l" unfolding g_def l_def by (rule guard_refines_run [OF guard_refines_new])
  have inv: "log_inv n l" unfolding l_def by (rule replay_log.run_inv) (simp add: log_inv_def)
  have d: "fst (last_n (Suc n) l ! i) \<noteq> fst (last_n (Suc n) l ! j) \<and> snd (last_n (Suc n) l ! i) \<noteq> snd (last_n (Suc n) l ! j)"
    if "i < j" "j < length (last_n (Suc n) l)" for i j
    using inv that by (auto simp: log_inv_def last_n_def)
  then have "fst (last_n (Suc n) l ! i) \<noteq> fst (last_n (Suc n) l ! j) \<and> snd (last_n (Suc n) l ! i) \<noteq> snd (last_n (Suc n) l ! j)"
    if "i \<noteq> j" "i < length (last_n (Suc n) l)" "j < length (last_n (Suc n) l)" for i j
    using that by (metis nat_neq_iff)
  then have "distinct (map fst (last_n (Suc n) l))" "distinct (map snd (last_n (Suc n) l))"
    by (auto simp: distinct_conv_nth)
  then show ?thesis
    using ref guard_refines_accept [OF ref, of c]
    by (simp add: g_def [symmetric] l_def [symmetric] Let_def guard_refines_def)
qed

section \<open>enterprise_policy.cpp\<close>

datatype policy_scope = PSc_global | PSc_organization | PSc_site | PSc_group | PSc_device

datatype rollout_ring = RR_canary | RR_pilot | RR_broad | RR_stable

fun scope_code :: "policy_scope \<Rightarrow> u64" where
  "scope_code PSc_global = 0"
| "scope_code PSc_organization = 1"
| "scope_code PSc_site = 2"
| "scope_code PSc_group = 3"
| "scope_code PSc_device = 4"

fun ring_code :: "rollout_ring \<Rightarrow> u64" where
  "ring_code RR_canary = 0"
| "ring_code RR_pilot = 1"
| "ring_code RR_broad = 2"
| "ring_code RR_stable = 3"

lemma policy_codes_inject [simp]: "scope_code a = scope_code b \<longleftrightarrow> a = b" "ring_code r = ring_code s \<longleftrightarrow> r = s"
  by (cases a; cases b; simp) (cases r; cases s; simp)

record policy_envelope =
  pv_organization_id :: u64
  pv_site_id :: u64
  pv_group_id :: u64
  pv_device_id :: u64
  pv_policy_version :: u64
  pv_security_version :: u64
  pv_parent_policy_version :: u64
  pv_issued_at_ns :: u64
  pv_expires_at_ns :: u64
  pv_minimum_agent_version :: u64
  pv_scope :: policy_scope
  pv_ring :: rollout_ring
  pv_rollout_percent :: u32
  pv_rules_hash :: digest
  pv_parent_hash :: digest
  pv_envelope_hash :: digest
  pv_signer_fingerprint :: digest
  pv_break_glass :: bool

record policy_verification =
  pk_now_ns :: u64
  pk_agent_version :: u64
  pk_active_policy_version :: u64
  pk_active_security_version :: u64
  pk_trusted_signer :: digest
  pk_signature_valid :: bool

definition envelope_bytes :: "policy_envelope \<Rightarrow> bytes" where
  "envelope_bytes e =
     le64 (pv_organization_id e) @ le64 (pv_site_id e) @ le64 (pv_group_id e) @ le64 (pv_device_id e) @
     le64 (pv_policy_version e) @ le64 (pv_security_version e) @ le64 (pv_parent_policy_version e) @
     le64 (pv_issued_at_ns e) @ le64 (pv_expires_at_ns e) @ le64 (pv_minimum_agent_version e) @
     le64 (scope_code (pv_scope e)) @ le64 (ring_code (pv_ring e)) @ le64 (ucast (pv_rollout_percent e)) @
     pv_rules_hash e @ pv_parent_hash e @ le64 (if pv_break_glass e then 1 else 0)"

definition content_hash :: "policy_envelope \<Rightarrow> digest" where
  "content_hash e = sha256 (envelope_bytes e)"

definition digest_zero :: "digest \<Rightarrow> bool" where
  "digest_zero d \<longleftrightarrow> constant_time_equal d zero_digest"

definition envelope_malformed :: "policy_envelope \<Rightarrow> policy_verification \<Rightarrow> bool" where
  "envelope_malformed e ctx \<longleftrightarrow>
     pv_organization_id e = 0 \<or> pv_policy_version e = 0 \<or> pv_security_version e = 0 \<or> pv_issued_at_ns e = 0 \<or>
     pv_expires_at_ns e \<le> pv_issued_at_ns e \<or> pk_now_ns ctx < pv_issued_at_ns e \<or>
     pk_now_ns ctx \<ge> pv_expires_at_ns e \<or> pv_rollout_percent e = 0 \<or> pv_rollout_percent e > 100 \<or>
     digest_zero (pv_rules_hash e) \<or> digest_zero (pv_signer_fingerprint e)"

definition maximum_break_glass_lease_ns :: u64 where "maximum_break_glass_lease_ns = 3600000000000"

definition envelope_validate :: "policy_envelope \<Rightarrow> policy_verification \<Rightarrow> approval list \<Rightarrow> unit result" where
  "envelope_validate e ctx approvals =
     (if envelope_malformed e ctx then Inl St_invalid_argument
      else if \<not> pk_signature_valid ctx \<or> \<not> constant_time_equal (pv_signer_fingerprint e) (pk_trusted_signer ctx) \<or>
              \<not> constant_time_equal (pv_envelope_hash e) (content_hash e)
        then Inl St_integrity_failure
      else if pk_agent_version ctx < pv_minimum_agent_version e then Inl St_incompatible_version
      else if pv_policy_version e \<le> pk_active_policy_version ctx \<or>
              pv_security_version e < pk_active_security_version ctx
        then Inl St_downgrade_attempt
      else if pv_scope e \<noteq> PSc_global \<and> pv_parent_policy_version e = 0 then Inl St_invalid_argument
      else if pv_break_glass e then
        if pv_expires_at_ns e - pv_issued_at_ns e > maximum_break_glass_lease_ns then Inl St_invalid_argument
        else require_dual_control approvals Cap_approve_policy (pv_issued_at_ns e) (pv_expires_at_ns e)
      else ok_unit)"

definition rollout_bucket :: "u8 \<Rightarrow> u32" where
  "rollout_bucket b = ucast b mod 100"

definition selected_for_rollout :: "policy_envelope \<Rightarrow> u64 \<Rightarrow> bool" where
  "selected_for_rollout e device_id =
     (if device_id = 0 \<or> pv_rollout_percent e = 0 then False
      else if pv_rollout_percent e \<ge> 100 then True
      else let selection = le64 device_id @ le64 (pv_policy_version e) @ pv_rules_hash e
           in rollout_bucket (sha256 selection ! 0) < pv_rollout_percent e)"

text \<open>
  A policy an agent activates raises the policy version, never lowers the security version,
  is inside its validity window and was signed by the trusted signer over its own contents;
  an emergency override lasts at most an hour and carries the approvals of two different
  policy approvers.
\<close>

theorem envelope_accepted_is_upgrade:
  assumes "envelope_validate e ctx approvals = ok_unit"
  shows "pk_active_policy_version ctx < pv_policy_version e \<and> pk_active_security_version ctx \<le> pv_security_version e \<and>
    pv_issued_at_ns e \<le> pk_now_ns ctx \<and> pk_now_ns ctx < pv_expires_at_ns e \<and>
    pk_signature_valid ctx \<and> constant_time_equal (pv_envelope_hash e) (content_hash e) \<and>
    pv_minimum_agent_version e \<le> pk_agent_version ctx \<and> 1 \<le> pv_rollout_percent e \<and> pv_rollout_percent e \<le> 100 \<and>
    (\<not> pv_break_glass e \<or>
     unat (pv_expires_at_ns e) \<le> unat (pv_issued_at_ns e) + 3600 * 10 ^ 9 \<and>
     (\<exists>a \<in> set approvals. \<exists>b \<in> set approvals. ap_actor_id a \<noteq> ap_actor_id b \<and>
        ap_role a = R_policy_approver \<and> ap_role b = R_policy_approver))"
proof -
  have ok: "\<not> envelope_malformed e ctx" "pk_signature_valid ctx" "constant_time_equal (pv_envelope_hash e) (content_hash e)"
      "pv_minimum_agent_version e \<le> pk_agent_version ctx" "pk_active_policy_version ctx < pv_policy_version e"
      "pk_active_security_version ctx \<le> pv_security_version e"
    using assms by (auto simp: envelope_validate_def not_less not_le split: if_splits)
  have times: "pv_issued_at_ns e \<le> pk_now_ns ctx" "pk_now_ns ctx < pv_expires_at_ns e" "pv_issued_at_ns e < pv_expires_at_ns e"
      "1 \<le> pv_rollout_percent e" "pv_rollout_percent e \<le> 100"
    using ok(1) word_le_nat_alt [of 1 "pv_rollout_percent e"] unat_eq_0 [of "pv_rollout_percent e"]
    by (auto simp: envelope_malformed_def not_less not_le)
  have glass: "unat (pv_expires_at_ns e) \<le> unat (pv_issued_at_ns e) + 3600 * 10 ^ 9 \<and>
     (\<exists>a \<in> set approvals. \<exists>b \<in> set approvals. ap_actor_id a \<noteq> ap_actor_id b \<and>
        ap_role a = R_policy_approver \<and> ap_role b = R_policy_approver)" if "pv_break_glass e"
  proof -
    have l: "\<not> pv_expires_at_ns e - pv_issued_at_ns e > maximum_break_glass_lease_ns"
      and d: "require_dual_control approvals Cap_approve_policy (pv_issued_at_ns e) (pv_expires_at_ns e) = ok_unit"
      using assms that by (auto simp: envelope_validate_def split: if_splits)
    have "unat (pv_expires_at_ns e) \<le> unat (pv_issued_at_ns e) + 3600 * 10 ^ 9"
      using l times(3) by (simp add: word_le_nat_alt word_less_nat_alt unat_sub_if' maximum_break_glass_lease_ns_def)
    with d show ?thesis unfolding dual_control_ok_iff by (fastforce simp: approval_counts_def)
  qed
  show ?thesis using ok times glass by blast
qed

lemma selected_mono:
  "p \<le> q \<Longrightarrow> selected_for_rollout (e\<lparr>pv_rollout_percent := p\<rparr>) d \<Longrightarrow> selected_for_rollout (e\<lparr>pv_rollout_percent := q\<rparr>) d"
  by (auto simp: selected_for_rollout_def Let_def word_le_nat_alt word_less_nat_alt unat_eq_0 split: if_splits)

text \<open>
  Raising the percentage of a rollout never deselects a device, every device is in at 100
  percent, and the choice depends only on the device, the version and the rules; but the
  share is not the percentage: of the 256 values of the byte that decides, 3 are in at 1
  percent, 150 at 50 percent and 236 at 90 percent.
\<close>

theorem rollout_grows_but_is_biased:
  "{d. selected_for_rollout (e\<lparr>pv_rollout_percent := min p q\<rparr>) d} \<subseteq> {d. selected_for_rollout (e\<lparr>pv_rollout_percent := max p q\<rparr>) d} \<and>
   {d. selected_for_rollout (e\<lparr>pv_rollout_percent := 100\<rparr>) d} = - {0} \<and>
   map (\<lambda>p. length (filter (\<lambda>b. rollout_bucket (of_nat b) < p) [0..<256])) [1, 50, 90] = [3, 150, 236]"
proof -
  have "map (\<lambda>p. length (filter (\<lambda>b. rollout_bucket (of_nat b) < p) [0..<256])) [1, 50, 90] = [3, 150, 236]"
    by code_simp
  moreover have "min p q \<le> max p q" by (rule order_trans [OF min.cobounded1 max.cobounded1])
  then have "{d. selected_for_rollout (e\<lparr>pv_rollout_percent := min p q\<rparr>) d} \<subseteq>
      {d. selected_for_rollout (e\<lparr>pv_rollout_percent := max p q\<rparr>) d}"
    using selected_mono by blast
  moreover have "{d. selected_for_rollout (e\<lparr>pv_rollout_percent := 100\<rparr>) d} = - {0}"
    by (auto simp: selected_for_rollout_def)
  ultimately show ?thesis by blast
qed

definition unsealed_envelope :: policy_envelope where
  "unsealed_envelope = \<lparr>pv_organization_id = 1, pv_site_id = 0, pv_group_id = 0, pv_device_id = 0, pv_policy_version = 8,
     pv_security_version = 3, pv_parent_policy_version = 0, pv_issued_at_ns = 1000, pv_expires_at_ns = 2000,
     pv_minimum_agent_version = 2, pv_scope = PSc_global, pv_ring = RR_canary, pv_rollout_percent = 10,
     pv_rules_hash = replicate 32 1, pv_parent_hash = zero_digest, pv_envelope_hash = zero_digest,
     pv_signer_fingerprint = replicate 32 2, pv_break_glass = True\<rparr>"

definition sample_envelope :: policy_envelope where
  "sample_envelope = unsealed_envelope\<lparr>pv_envelope_hash := content_hash unsealed_envelope\<rparr>"

definition sample_verification :: policy_verification where
  "sample_verification = \<lparr>pk_now_ns = 1500, pk_agent_version = 2, pk_active_policy_version = 7,
     pk_active_security_version = 3, pk_trusted_signer = replicate 32 2, pk_signature_valid = True\<rparr>"

definition sample_policy_approvals :: "approval list" where
  "sample_policy_approvals =
     [\<lparr>ap_actor_id = 8, ap_role = R_policy_approver, ap_approved_at_ns = 1100\<rparr>,
      \<lparr>ap_actor_id = 8, ap_role = R_policy_approver, ap_approved_at_ns = 1150\<rparr>,
      \<lparr>ap_actor_id = 9, ap_role = R_policy_approver, ap_approved_at_ns = 1200\<rparr>]"

lemma content_hash_envelope [simp]: "content_hash (e\<lparr>pv_envelope_hash := h\<rparr>) = content_hash e"
  by (simp add: content_hash_def envelope_bytes_def)

lemma sample_envelope_hash: "pv_envelope_hash sample_envelope = content_hash sample_envelope"
  unfolding sample_envelope_def content_hash_envelope by simp

lemma not_digest_zero: "wf_digest d \<Longrightarrow> digest_zero d \<longleftrightarrow> d = zero_digest"
  by (simp add: digest_zero_def wf_digest_def zero_digest_def)

lemma sample_envelope_ok: "envelope_validate sample_envelope sample_verification sample_policy_approvals = ok_unit"
proof -
  have "\<not> digest_zero (replicate 32 1)" "\<not> digest_zero (replicate 32 2)"
    by (simp_all add: not_digest_zero wf_digest_def) (simp_all add: zero_digest_def)
  then have "\<not> envelope_malformed sample_envelope sample_verification"
    by (simp add: envelope_malformed_def sample_envelope_def unsealed_envelope_def sample_verification_def)
  moreover have "require_dual_control sample_policy_approvals Cap_approve_policy 1000 2000 = ok_unit"
    by (simp add: require_dual_control_def sample_policy_approvals_def approval_counts_def)
  ultimately show ?thesis
    unfolding envelope_validate_def sample_envelope_hash
    by (simp add: sample_envelope_def unsealed_envelope_def sample_verification_def maximum_break_glass_lease_ns_def)
qed

theorem envelope_accepted_is_upgrade_witness:
  "envelope_validate sample_envelope sample_verification sample_policy_approvals = ok_unit \<and> pv_break_glass sample_envelope \<and>
   (\<exists>a \<in> set sample_policy_approvals. \<exists>b \<in> set sample_policy_approvals. ap_actor_id a \<noteq> ap_actor_id b)"
  using envelope_accepted_is_upgrade [OF sample_envelope_ok] sample_envelope_ok
  by (auto simp: sample_envelope_def unsealed_envelope_def)

end
