(* ===== verification/AIS_Fleet.thy ===== *)
theory AIS_Fleet
  imports AIS_Codec
begin

text \<open>
  The fleet side of the agent: the registry of enrolled devices (\<open>src/enterprise_trust.cpp\<close>)
  and the telemetry batches with their store-and-forward queue (\<open>src/fleet_telemetry.cpp\<close>).
  Both are state machines whose invariants hold for every sequence of operations; the queue
  keeps what \<open>docs/ENTERPRISE_CONTROL_PLANE_DE.md\<close> promises about loss under pressure.
\<close>

section \<open>enterprise_trust.cpp\<close>

datatype identity_state = Id_pending | Id_active | Id_revoked | Id_recovery

record device_identity =
  di_organization_id :: u64
  di_site_id :: u64
  di_device_id :: u64
  di_certificate_serial :: u64
  di_certificate_not_before_ns :: u64
  di_certificate_not_after_ns :: u64
  di_enrollment_epoch :: u64
  di_hardware_binding :: digest
  di_public_key_spki :: digest
  di_state :: identity_state
  di_tpm_bound :: bool

record attestation =
  at_hardware_binding :: digest
  at_public_key_spki :: digest
  at_secure_boot :: bool
  at_measured_boot :: bool
  at_key_attested :: bool

definition zero_hash :: "digest \<Rightarrow> bool" where
  "zero_hash d \<longleftrightarrow> constant_time_equal d zero_digest"

definition identity_malformed :: "device_identity \<Rightarrow> u64 \<Rightarrow> bool" where
  "identity_malformed i now_ns \<longleftrightarrow>
     di_organization_id i = 0 \<or> di_site_id i = 0 \<or> di_device_id i = 0 \<or> di_certificate_serial i = 0 \<or>
     di_enrollment_epoch i = 0 \<or> di_certificate_not_before_ns i > now_ns \<or> di_certificate_not_after_ns i \<le> now_ns \<or>
     di_certificate_not_before_ns i \<ge> di_certificate_not_after_ns i \<or> di_state i = Id_revoked \<or>
     zero_hash (di_hardware_binding i) \<or> zero_hash (di_public_key_spki i)"

definition trust_validate :: "device_identity \<Rightarrow> attestation \<Rightarrow> u64 \<Rightarrow> bool \<Rightarrow> unit result" where
  "trust_validate i a now_ns require_tpm =
     (if identity_malformed i now_ns then Inl St_invalid_argument
      else if \<not> constant_time_equal (di_hardware_binding i) (at_hardware_binding a) \<or>
              \<not> constant_time_equal (di_public_key_spki i) (at_public_key_spki a)
        then Inl St_integrity_failure
      else if require_tpm \<and> (\<not> di_tpm_bound i \<or> \<not> at_key_attested a \<or> \<not> at_secure_boot a \<or> \<not> at_measured_boot a)
        then Inl St_integrity_failure
      else ok_unit)"

type_synonym registry = "device_identity list"

fun enroll_check :: "device_identity \<Rightarrow> registry \<Rightarrow> unit result" where
  "enroll_check i [] = ok_unit"
| "enroll_check i (known # rest) =
     (if di_device_id known = di_device_id i then
        (if \<not> constant_time_equal (di_hardware_binding known) (di_hardware_binding i)
         then Inl St_integrity_failure else Inl St_invalid_state_transition)
      else if di_certificate_serial known = di_certificate_serial i \<or>
              constant_time_equal (di_public_key_spki known) (di_public_key_spki i)
        then Inl St_integrity_failure
      else enroll_check i rest)"

definition enroll :: "device_identity \<Rightarrow> attestation \<Rightarrow> u64 \<Rightarrow> bool \<Rightarrow> registry \<Rightarrow> unit result \<times> registry" where
  "enroll i a now_ns require_tpm devices =
     (let verified = trust_validate i a now_ns require_tpm in
      if \<not> res_ok verified then (Inl (res_status verified), devices)
      else case enroll_check i devices of
             Inl s \<Rightarrow> (Inl s, devices)
           | Inr _ \<Rightarrow> (ok_unit, devices @ [i\<lparr>di_state := Id_active\<rparr>]))"

text \<open>\<open>std::find_if\<close> on the device id, and the update of the element it returns.\<close>

fun find_device :: "u64 \<Rightarrow> registry \<Rightarrow> device_identity option" where
  "find_device d [] = None"
| "find_device d (x # xs) = (if di_device_id x = d then Some x else find_device d xs)"

fun update_device :: "u64 \<Rightarrow> (device_identity \<Rightarrow> device_identity) \<Rightarrow> registry \<Rightarrow> registry" where
  "update_device d f [] = []"
| "update_device d f (x # xs) = (if di_device_id x = d then f x # xs else x # update_device d f xs)"

definition rotate_conflict :: "u64 \<Rightarrow> u64 \<Rightarrow> digest \<Rightarrow> registry \<Rightarrow> bool" where
  "rotate_conflict d serial spki devices \<longleftrightarrow>
     (\<exists>k \<in> set devices. di_device_id k \<noteq> d \<and>
        (di_certificate_serial k = serial \<or> constant_time_equal (di_public_key_spki k) spki))"

definition rotate_device :: "u64 \<Rightarrow> u64 \<Rightarrow> u64 \<Rightarrow> digest \<Rightarrow> u64 \<Rightarrow> u64 \<Rightarrow> registry \<Rightarrow> unit result \<times> registry" where
  "rotate_device device_id expected_serial new_serial new_spki not_before_ns not_after_ns devices =
     (if device_id = 0 \<or> new_serial = 0 \<or> expected_serial = new_serial \<or> zero_hash new_spki \<or>
         not_before_ns \<ge> not_after_ns
        then (Inl St_invalid_argument, devices)
      else case find_device device_id devices of
          None \<Rightarrow> (Inl St_not_found, devices)
        | Some found \<Rightarrow>
            if di_state found \<noteq> Id_active \<or> di_certificate_serial found \<noteq> expected_serial
              then (Inl St_integrity_failure, devices)
            else if rotate_conflict device_id new_serial new_spki devices then (Inl St_integrity_failure, devices)
            else (ok_unit, update_device device_id
                    (\<lambda>x. x\<lparr>di_certificate_serial := new_serial, di_public_key_spki := new_spki,
                           di_certificate_not_before_ns := not_before_ns,
                           di_certificate_not_after_ns := not_after_ns,
                           di_enrollment_epoch := di_enrollment_epoch x + 1\<rparr>) devices))"

definition revoke :: "u64 \<Rightarrow> registry \<Rightarrow> unit result \<times> registry" where
  "revoke device_id devices =
     (case find_device device_id devices of
        None \<Rightarrow> (Inl St_not_found, devices)
      | Some _ \<Rightarrow> (ok_unit, update_device device_id (\<lambda>x. x\<lparr>di_state := Id_revoked\<rparr>) devices))"

definition device_authorize :: "u64 \<Rightarrow> u64 \<Rightarrow> digest \<Rightarrow> u64 \<Rightarrow> registry \<Rightarrow> unit result" where
  "device_authorize device_id certificate_serial hardware_binding now_ns devices =
     (case find_device device_id devices of
        None \<Rightarrow> Inl St_not_found
      | Some found \<Rightarrow>
          if di_state found \<noteq> Id_active \<or> di_certificate_serial found \<noteq> certificate_serial \<or>
             now_ns < di_certificate_not_before_ns found \<or> now_ns \<ge> di_certificate_not_after_ns found \<or>
             \<not> constant_time_equal (di_hardware_binding found) hardware_binding
            then Inl St_integrity_failure
          else ok_unit)"

datatype registry_op =
    RO_enroll device_identity attestation u64 bool
  | RO_rotate u64 u64 u64 digest u64 u64
  | RO_revoke u64

text \<open>The arguments of a call are arrays of 32 bytes.\<close>

fun registry_op_ok :: "registry_op \<Rightarrow> bool" where
  "registry_op_ok (RO_enroll i a now tpm) = (wf_digest (di_hardware_binding i) \<and> wf_digest (di_public_key_spki i))"
| "registry_op_ok (RO_rotate d s n k b a) = wf_digest k"
| "registry_op_ok (RO_revoke d) = True"

fun registry_call :: "registry_op \<Rightarrow> registry \<Rightarrow> unit result \<times> registry" where
  "registry_call (RO_enroll i a now tpm) r = enroll i a now tpm r"
| "registry_call (RO_rotate d s n k b a) r = rotate_device d s n k b a r"
| "registry_call (RO_revoke d) r = revoke d r"

definition registry_step :: "registry_op \<Rightarrow> registry \<Rightarrow> registry" where
  "registry_step op r = (if registry_op_ok op then snd (registry_call op r) else r)"

definition registry_inv :: "registry \<Rightarrow> bool" where
  "registry_inv r \<longleftrightarrow> distinct (map di_device_id r) \<and> distinct (map di_certificate_serial r) \<and>
     distinct (map di_public_key_spki r) \<and>
     (\<forall>x \<in> set r. wf_digest (di_public_key_spki x) \<and> wf_digest (di_hardware_binding x) \<and>
        di_state x \<in> {Id_active, Id_revoked} \<and> di_device_id x \<noteq> 0)"

lemma enroll_check_ok:
  assumes "\<forall>x \<in> set r. wf_digest (di_public_key_spki x)" "wf_digest (di_public_key_spki i)"
  shows "enroll_check i r = ok_unit \<longleftrightarrow>
     di_device_id i \<notin> set (map di_device_id r) \<and> di_certificate_serial i \<notin> set (map di_certificate_serial r) \<and>
     di_public_key_spki i \<notin> set (map di_public_key_spki r)"
  using assms by (induction r) auto

lemma find_device_Some: "find_device d r = Some x \<Longrightarrow> x \<in> set r \<and> di_device_id x = d"
  by (induction r) (auto split: if_splits)

lemma find_device_None: "find_device d r = None \<longleftrightarrow> d \<notin> set (map di_device_id r)"
  by (induction r) auto

lemma update_device_split:
  assumes "find_device d r = Some x"
  obtains us vs where "r = us @ x # vs" "d \<notin> set (map di_device_id us)" "\<And>f. update_device d f r = us @ f x # vs"
proof -
  have "\<exists>us vs. r = us @ x # vs \<and> d \<notin> set (map di_device_id us) \<and> (\<forall>f. update_device d f r = us @ f x # vs)"
    using assms
  proof (induction r)
    case (Cons y r)
    show ?case
    proof (cases "di_device_id y = d")
      case True
      then show ?thesis using Cons.prems by (intro exI [of _ "[]"] exI [of _ r]) auto
    next
      case False
      with Cons obtain us vs where "r = us @ x # vs" "d \<notin> set (map di_device_id us)"
          "\<forall>f. update_device d f r = us @ f x # vs" by auto
      with False show ?thesis by (intro exI [of _ "y # us"] exI [of _ vs]) auto
    qed
  qed simp
  with that show ?thesis by blast
qed

lemma find_device_update:
  "find_device d r = Some x \<Longrightarrow> di_device_id (f x) = d \<Longrightarrow>
     find_device e (update_device d f r) = (if e = d then Some (f x) else find_device e r)"
  by (induction r) (auto split: if_splits)

lemma registry_inv_enroll:
  assumes "registry_inv r" "wf_digest (di_hardware_binding i)" "wf_digest (di_public_key_spki i)"
  shows "registry_inv (snd (enroll i a now tpm r))"
proof (cases "res_ok (trust_validate i a now tpm) \<and> enroll_check i r = ok_unit")
  case True
  then have "di_device_id i \<noteq> 0" by (auto simp: trust_validate_def identity_malformed_def split: if_splits)
  moreover have "di_device_id i \<notin> set (map di_device_id r) \<and> di_certificate_serial i \<notin> set (map di_certificate_serial r) \<and>
     di_public_key_spki i \<notin> set (map di_public_key_spki r)"
    using True assms enroll_check_ok [of r i] by (simp add: registry_inv_def)
  ultimately show ?thesis
    using True assms by (simp add: enroll_def Let_def registry_inv_def)
next
  case False
  then show ?thesis using assms(1) by (auto simp: enroll_def Let_def split: sum.splits)
qed

lemma registry_inv_rotate:
  assumes "registry_inv r" "wf_digest k"
  shows "registry_inv (snd (rotate_device d s n k b a r))"
proof (cases "fst (rotate_device d s n k b a r) = ok_unit")
  case True
  then obtain x where x: "find_device d r = Some x" "\<not> rotate_conflict d n k r" "di_state x = Id_active"
    by (auto simp: rotate_device_def split: if_splits option.splits)
  from x(1) obtain us vs where r: "r = us @ x # vs" and u: "\<And>f. update_device d f r = us @ f x # vs"
    by (rule update_device_split) blast
  have d: "di_device_id x = d" using find_device_Some [OF x(1)] by simp
  have "di_device_id x \<notin> di_device_id ` (set us \<union> set vs)"
    using assms(1) by (auto simp: registry_inv_def r)
  then have others: "\<forall>y \<in> set us \<union> set vs. di_device_id y \<noteq> d" using d by (metis imageI)
  then have "n \<notin> di_certificate_serial ` (set us \<union> set vs)" "k \<notin> di_public_key_spki ` (set us \<union> set vs)"
    using x(2) assms by (auto simp: rotate_conflict_def r registry_inv_def)
  moreover have "snd (rotate_device d s n k b a r) = us @ x\<lparr>di_certificate_serial := n, di_public_key_spki := k,
      di_certificate_not_before_ns := b, di_certificate_not_after_ns := a,
      di_enrollment_epoch := di_enrollment_epoch x + 1\<rparr> # vs"
    using True x(1) u by (auto simp: rotate_device_def split: if_splits)
  ultimately show ?thesis
    using assms by (auto simp: registry_inv_def r)
next
  case False
  then have "snd (rotate_device d s n k b a r) = r" by (auto simp: rotate_device_def split: if_splits option.splits)
  then show ?thesis using assms(1) by simp
qed

lemma registry_inv_revoke: "registry_inv r \<Longrightarrow> registry_inv (snd (revoke d r))"
proof (cases "find_device d r")
  case (Some x)
  then obtain us vs where "r = us @ x # vs" "\<And>f. update_device d f r = us @ f x # vs"
    by (rule update_device_split) blast
  then show "registry_inv r \<Longrightarrow> ?thesis" using Some by (auto simp: revoke_def registry_inv_def)
qed (simp add: revoke_def)

lemma registry_step_inv: "registry_inv r \<Longrightarrow> registry_inv (registry_step op r)"
  by (cases op) (simp_all add: registry_step_def registry_inv_enroll registry_inv_rotate registry_inv_revoke)

interpretation registry_machine: invariant_machine registry_step registry_inv
  by unfold_locales (rule registry_step_inv)

text \<open>
  After any sequence of enrollments, rotations and revocations, accepted or refused, no two
  entries of the registry share a device, a certificate serial or a public key, so a cloned
  device or key is never registered beside the original.
\<close>

theorem registry_no_clones:
  "let r = fold registry_step ops [] in
   distinct (map di_device_id r) \<and> distinct (map di_certificate_serial r) \<and> distinct (map di_public_key_spki r)"
  using registry_machine.run_inv [of "[]" ops] by (simp add: registry_inv_def Let_def)

lemma revoked_stays_step:
  assumes "find_device d r = Some x" "di_state x = Id_revoked"
  shows "\<exists>y. find_device d (registry_step op r) = Some y \<and> di_state y = Id_revoked"
proof (cases op)
  case (RO_enroll i a now tpm)
  have "find_device d (r @ [z]) = Some x" for z using assms(1) by (induction r) auto
  then show ?thesis
    using assms RO_enroll by (auto simp: registry_step_def enroll_def Let_def split: sum.splits)
next
  case (RO_rotate e s n k b a)
  show ?thesis
  proof (cases "find_device e r")
    case (Some z)
    then show ?thesis
      using assms RO_rotate find_device_Some [OF Some]
      by (auto simp: registry_step_def rotate_device_def find_device_update)
  qed (use assms RO_rotate in \<open>simp add: registry_step_def rotate_device_def\<close>)
next
  case (RO_revoke e)
  show ?thesis
  proof (cases "find_device e r")
    case (Some z)
    then show ?thesis
      using assms RO_revoke find_device_Some [OF Some] by (auto simp: registry_step_def revoke_def find_device_update)
  qed (use assms RO_revoke in \<open>simp add: registry_step_def revoke_def\<close>)
qed

lemma revoked_stays:
  "find_device d r = Some x \<Longrightarrow> di_state x = Id_revoked \<Longrightarrow>
     \<exists>y. find_device d (fold registry_step ops r) = Some y \<and> di_state y = Id_revoked"
proof (induction ops arbitrary: r x)
  case (Cons op ops)
  from revoked_stays_step [OF Cons.prems, of op] Cons.IH show ?case by auto
qed auto

text \<open>
  C33: revocation is final. Once a device was revoked, no sequence of operations, not even a
  new enrollment or a rotation, makes the registry authorize it again, under any serial, at
  any time.
\<close>

theorem revocation_is_final:
  assumes "fst (revoke d r) = ok_unit"
  shows "device_authorize d serial hw now (fold registry_step ops (snd (revoke d r))) = Inl St_integrity_failure"
proof -
  from assms obtain x where x: "find_device d r = Some x" by (auto simp: revoke_def split: option.splits)
  then have "find_device d (snd (revoke d r)) = Some (x\<lparr>di_state := Id_revoked\<rparr>)"
    using find_device_Some [OF x] by (simp add: revoke_def find_device_update)
  from revoked_stays [OF this, of ops] obtain y where
      "find_device d (fold registry_step ops (snd (revoke d r))) = Some y" "di_state y = Id_revoked" by auto
  then show ?thesis by (simp add: device_authorize_def)
qed

definition sample_identity :: device_identity where
  "sample_identity = \<lparr>di_organization_id = 1, di_site_id = 1, di_device_id = 5, di_certificate_serial = 11,
     di_certificate_not_before_ns = 10, di_certificate_not_after_ns = 1000, di_enrollment_epoch = 1,
     di_hardware_binding = replicate 32 1, di_public_key_spki = replicate 32 2, di_state = Id_active, di_tpm_bound = True\<rparr>"

theorem revocation_is_final_witness:
  "device_authorize 5 11 (replicate 32 1) 500 [sample_identity] = ok_unit \<and>
   device_authorize 5 11 (replicate 32 1) 500
     (fold registry_step [RO_rotate 5 11 12 (replicate 32 3) 10 2000] (snd (revoke 5 [sample_identity]))) =
     Inl St_integrity_failure"
proof
  show "device_authorize 5 11 (replicate 32 1) 500 [sample_identity] = ok_unit"
    by (simp add: device_authorize_def sample_identity_def wf_digest_def)
  show "device_authorize 5 11 (replicate 32 1) 500
     (fold registry_step [RO_rotate 5 11 12 (replicate 32 3) 10 2000] (snd (revoke 5 [sample_identity]))) =
     Inl St_integrity_failure"
    by (rule revocation_is_final) (simp add: revoke_def sample_identity_def)
qed

section \<open>fleet_telemetry.cpp\<close>

datatype priority = Pr_critical | Pr_response | Pr_security | Pr_operational | Pr_diagnostic

fun priority_code :: "priority \<Rightarrow> u32" where
  "priority_code Pr_critical = 0"
| "priority_code Pr_response = 1"
| "priority_code Pr_security = 2"
| "priority_code Pr_operational = 3"
| "priority_code Pr_diagnostic = 4"

text \<open>Enumerators compare by their value: the larger, the less important.\<close>

instantiation priority :: linorder
begin

definition less_eq_priority :: "priority \<Rightarrow> priority \<Rightarrow> bool" where
  "less_eq_priority a b \<longleftrightarrow> priority_code a \<le> priority_code b"

definition less_priority :: "priority \<Rightarrow> priority \<Rightarrow> bool" where
  "less_priority a b \<longleftrightarrow> priority_code a < priority_code b"

instance
proof
  fix a b c :: priority
  show "a < b \<longleftrightarrow> a \<le> b \<and> \<not> b \<le> a" "a \<le> a" "a \<le> b \<or> b \<le> a"
    by (auto simp: less_eq_priority_def less_priority_def)
  show "a \<le> b \<Longrightarrow> b \<le> c \<Longrightarrow> a \<le> c" by (simp add: less_eq_priority_def)
  show "a \<le> b \<Longrightarrow> b \<le> a \<Longrightarrow> a = b" by (cases a; cases b) (simp_all add: less_eq_priority_def word_le_nat_alt)
qed

end

record batch =
  ba_organization_id :: u64
  ba_device_id :: u64
  ba_boot_id :: u64
  ba_batch_sequence :: u64
  ba_first_event_sequence :: u64
  ba_last_event_sequence :: u64
  ba_policy_version :: u64
  ba_model_version :: u64
  ba_agent_version :: u64
  ba_created_at_ns :: u64
  ba_priority :: priority
  ba_previous_batch_hash :: digest
  ba_payload_hash :: digest
  ba_batch_hash :: digest
  ba_signer_fingerprint :: digest

record fleet_context =
  fc_expected_device_id :: u64
  fc_expected_boot_id :: u64
  fc_expected_batch_sequence :: u64
  fc_expected_event_sequence :: u64
  fc_expected_previous_hash :: digest
  fc_trusted_signer :: digest
  fc_signature_valid :: bool

definition batch_bytes :: "batch \<Rightarrow> bytes" where
  "batch_bytes b =
     le64 (ba_organization_id b) @ le64 (ba_device_id b) @ le64 (ba_boot_id b) @ le64 (ba_batch_sequence b) @
     le64 (ba_first_event_sequence b) @ le64 (ba_last_event_sequence b) @ le64 (ba_policy_version b) @
     le64 (ba_model_version b) @ le64 (ba_agent_version b) @ le64 (ba_created_at_ns b) @
     le64 (ucast (priority_code (ba_priority b))) @ ba_previous_batch_hash b @ ba_payload_hash b"

definition batch_hash_of :: "batch \<Rightarrow> digest" where
  "batch_hash_of b = sha256 (batch_bytes b)"

definition batch_malformed :: "batch \<Rightarrow> bool" where
  "batch_malformed b \<longleftrightarrow>
     ba_organization_id b = 0 \<or> ba_device_id b = 0 \<or> ba_boot_id b = 0 \<or> ba_batch_sequence b = 0 \<or>
     ba_first_event_sequence b = 0 \<or> ba_last_event_sequence b < ba_first_event_sequence b \<or>
     ba_policy_version b = 0 \<or> ba_agent_version b = 0 \<or> ba_created_at_ns b = 0 \<or>
     constant_time_equal (ba_payload_hash b) zero_digest"

definition batch_validate :: "batch \<Rightarrow> fleet_context \<Rightarrow> unit result" where
  "batch_validate b ctx =
     (if batch_malformed b then Inl St_invalid_argument
      else if ba_device_id b \<noteq> fc_expected_device_id ctx \<or> ba_boot_id b \<noteq> fc_expected_boot_id ctx \<or>
              ba_batch_sequence b \<noteq> fc_expected_batch_sequence ctx \<or>
              ba_first_event_sequence b \<noteq> fc_expected_event_sequence ctx \<or>
              \<not> constant_time_equal (ba_previous_batch_hash b) (fc_expected_previous_hash ctx) \<or>
              \<not> fc_signature_valid ctx \<or>
              \<not> constant_time_equal (ba_signer_fingerprint b) (fc_trusted_signer ctx) \<or>
              \<not> constant_time_equal (ba_batch_hash b) (batch_hash_of b)
        then Inl St_integrity_failure
      else ok_unit)"

definition wf_batch :: "batch \<Rightarrow> bool" where
  "wf_batch b \<longleftrightarrow> wf_digest (ba_previous_batch_hash b) \<and> wf_digest (ba_payload_hash b) \<and>
     wf_digest (ba_batch_hash b) \<and> wf_digest (ba_signer_fingerprint b)"

definition batch_content :: "batch \<Rightarrow> batch" where
  "batch_content b = b\<lparr>ba_batch_hash := zero_digest, ba_signer_fingerprint := zero_digest\<rparr>"

lemma priority_code_inject [simp]: "(ucast (priority_code a) :: u64) = ucast (priority_code b) \<longleftrightarrow> a = b"
  by (cases a; cases b) simp_all

lemma batch_bytes_inj:
  assumes "wf_batch b" "wf_batch b'" "batch_bytes b = batch_bytes b'"
  shows "batch_content b = batch_content b'"
  using assms by (simp add: batch_bytes_def wf_batch_def wf_digest_def batch_content_def)

interpretation fleet_batch: hashed_message batch_bytes "[]" wf_batch batch_content
  by unfold_locales (rule batch_bytes_inj)

section \<open>StoreForwardQueue\<close>

record forward_queue =
  fq_capacity :: nat
  fq_dropped :: u64
  fq_pending :: "batch list"

definition new_queue :: "nat \<Rightarrow> forward_queue" where
  "new_queue capacity = \<lparr>fq_capacity = capacity, fq_dropped = 0, fq_pending = []\<rparr>"

text \<open>The loop that picks the batch to drop: the first of the least important ones below \<open>response\<close>.\<close>

definition drop_candidate :: "batch list \<Rightarrow> nat option" where
  "drop_candidate pending =
     fold (\<lambda>i candidate.
             if ba_priority (pending ! i) > Pr_response \<and>
                (case candidate of None \<Rightarrow> True | Some c \<Rightarrow> ba_priority (pending ! i) > ba_priority (pending ! c))
             then Some i else candidate) [0..<length pending] None"

definition queue_push :: "batch \<Rightarrow> forward_queue \<Rightarrow> unit result \<times> forward_queue" where
  "queue_push b q =
     (if fq_capacity q = 0 \<or> ba_batch_sequence b = 0 then (Inl St_invalid_argument, q)
      else if fq_pending q \<noteq> [] \<and> ba_batch_sequence b \<le> ba_batch_sequence (last (fq_pending q))
        then (Inl St_integrity_failure, q)
      else if length (fq_pending q) = fq_capacity q then
        (case drop_candidate (fq_pending q) of
           None \<Rightarrow> (Inl St_out_of_budget, q)
         | Some c \<Rightarrow>
             if ba_priority b > ba_priority (fq_pending q ! c)
             then (Inl St_out_of_budget, q\<lparr>fq_dropped := fq_dropped q + 1\<rparr>)
             else (ok_unit, q\<lparr>fq_pending := (take c (fq_pending q) @ drop (Suc c) (fq_pending q)) @ [b],
                              fq_dropped := fq_dropped q + 1\<rparr>))
      else (ok_unit, q\<lparr>fq_pending := fq_pending q @ [b]\<rparr>))"

definition queue_acknowledge :: "u64 \<Rightarrow> forward_queue \<Rightarrow> unit result \<times> forward_queue" where
  "queue_acknowledge through q =
     (if through = 0 then (Inl St_invalid_argument, q)
      else
        let kept = filter (\<lambda>b. \<not> ba_batch_sequence b \<le> through) (fq_pending q)
        in (if length (fq_pending q) = length kept then Inl St_not_found else ok_unit, q\<lparr>fq_pending := kept\<rparr>))"

datatype queue_op = QO_push batch | QO_acknowledge u64

fun queue_step :: "queue_op \<Rightarrow> forward_queue \<Rightarrow> forward_queue" where
  "queue_step (QO_push b) q = snd (queue_push b q)"
| "queue_step (QO_acknowledge n) q = snd (queue_acknowledge n q)"

lemma drop_candidate_prefix:
  assumes "k \<le> length p"
  defines "r \<equiv> fold (\<lambda>i candidate.
             if ba_priority (p ! i) > Pr_response \<and>
                (case candidate of None \<Rightarrow> True | Some c \<Rightarrow> ba_priority (p ! i) > ba_priority (p ! c))
             then Some i else candidate) [0..<k] None"
  shows "(r = None \<longrightarrow> (\<forall>i<k. ba_priority (p ! i) \<le> Pr_response)) \<and>
    (\<forall>c. r = Some c \<longrightarrow> c < k \<and> Pr_response < ba_priority (p ! c) \<and>
       (\<forall>i<k. ba_priority (p ! i) \<le> ba_priority (p ! c)) \<and> (\<forall>i<c. ba_priority (p ! i) < ba_priority (p ! c)))"
  unfolding r_def using assms(1)
proof (induction k)
  case (Suc k)
  then show ?case
    by (auto simp: less_Suc_eq not_less split: option.splits) (force dest: less_le_trans le_less_trans)+
qed simp

lemma drop_candidate_None: "drop_candidate p = None \<longleftrightarrow> (\<forall>b \<in> set p. ba_priority b \<le> Pr_response)"
proof
  show "drop_candidate p = None \<Longrightarrow> \<forall>b \<in> set p. ba_priority b \<le> Pr_response"
    using drop_candidate_prefix [of "length p" p] by (auto simp: drop_candidate_def in_set_conv_nth)
  show "\<forall>b \<in> set p. ba_priority b \<le> Pr_response \<Longrightarrow> drop_candidate p = None"
    using drop_candidate_prefix [of "length p" p]
    by (cases "drop_candidate p") (auto simp: drop_candidate_def dest!: nth_mem)
qed

lemma drop_candidate_Some:
  assumes "drop_candidate p = Some c"
  shows "c < length p" "Pr_response < ba_priority (p ! c)" "\<forall>b \<in> set p. ba_priority b \<le> ba_priority (p ! c)"
    "\<forall>i<c. ba_priority (p ! i) < ba_priority (p ! c)"
  using drop_candidate_prefix [of "length p" p] assms by (auto simp: drop_candidate_def in_set_conv_nth)

definition queue_inv :: "forward_queue \<Rightarrow> bool" where
  "queue_inv q \<longleftrightarrow> length (fq_pending q) \<le> fq_capacity q \<and>
     sorted_wrt (\<lambda>a b. ba_batch_sequence a < ba_batch_sequence b) (fq_pending q)"

lemma sorted_snoc:
  assumes "sorted_wrt (\<lambda>a b. ba_batch_sequence a < ba_batch_sequence b) p"
    and "p = [] \<or> ba_batch_sequence (last p) < ba_batch_sequence b"
  shows "sorted_wrt (\<lambda>a b. ba_batch_sequence a < ba_batch_sequence b) (p @ [b])"
  using assms by (cases p rule: rev_cases) (auto simp: sorted_wrt_append)

lemma split_at: "c < length p \<Longrightarrow> p = take c p @ p ! c # drop (Suc c) p"
  by (rule id_take_nth_drop)

lemma sorted_without:
  assumes "sorted_wrt P p" "c < length p"
  shows "sorted_wrt P (take c p @ drop (Suc c) p)"
proof -
  have "sorted_wrt P (take c p @ p ! c # drop (Suc c) p)" using assms split_at [OF assms(2)] by simp
  then show ?thesis by (simp add: sorted_wrt_append)
qed

lemma last_without:
  assumes "sorted_wrt (\<lambda>a b. ba_batch_sequence a < ba_batch_sequence b) p" "c < length p"
    and "ba_batch_sequence (last p) < ba_batch_sequence b"
  shows "take c p @ drop (Suc c) p = [] \<or> ba_batch_sequence (last (take c p @ drop (Suc c) p)) < ba_batch_sequence b"
proof (cases "take c p @ drop (Suc c) p = []")
  case False
  then have "last (take c p @ drop (Suc c) p) \<in> set p"
    by (metis Un_iff last_in_set set_append in_set_takeD in_set_dropD)
  moreover have "ba_batch_sequence x \<le> ba_batch_sequence (last p)" if "x \<in> set p" for x
    using assms(1) that by (cases p rule: rev_cases) (auto simp: sorted_wrt_append)
  ultimately show ?thesis using assms(3) by (meson le_less_trans)
qed simp

lemma queue_push_cases:
  obtains (refused) s q' where "queue_push b q = (Inl s, q')" "fq_pending q' = fq_pending q" "fq_capacity q' = fq_capacity q"
  | (replaced) c where "queue_push b q = (ok_unit, q\<lparr>fq_pending := (take c (fq_pending q) @ drop (Suc c) (fq_pending q)) @ [b],
        fq_dropped := fq_dropped q + 1\<rparr>)"
      "drop_candidate (fq_pending q) = Some c" "length (fq_pending q) = fq_capacity q" "fq_pending q \<noteq> []"
      "ba_batch_sequence (last (fq_pending q)) < ba_batch_sequence b" "ba_priority b \<le> ba_priority (fq_pending q ! c)"
  | (added) "queue_push b q = (ok_unit, q\<lparr>fq_pending := fq_pending q @ [b]\<rparr>)"
      "length (fq_pending q) \<noteq> fq_capacity q"
      "fq_pending q = [] \<or> ba_batch_sequence (last (fq_pending q)) < ba_batch_sequence b"
proof (cases "queue_push b q")
  case (Pair r q')
  show ?thesis
  proof (cases r)
    case (Inl s)
    then have "fq_pending q' = fq_pending q" "fq_capacity q' = fq_capacity q"
      using Pair by (auto simp: queue_push_def split: if_splits option.splits)
    then show ?thesis using refused Pair Inl by blast
  next
    case (Inr u)
    show ?thesis
    proof (cases "length (fq_pending q) = fq_capacity q")
      case True
      then obtain c where "drop_candidate (fq_pending q) = Some c"
        using Pair Inr by (auto simp: queue_push_def split: if_splits option.splits)
      with True Pair Inr show ?thesis
        by (intro replaced [of c]) (auto simp: queue_push_def split: if_splits)
    next
      case False
      with Pair Inr show ?thesis by (intro added) (auto simp: queue_push_def split: if_splits)
    qed
  qed
qed

lemma queue_step_inv: "queue_inv q \<Longrightarrow> queue_inv (queue_step op q)"
proof (cases op)
  case (QO_push b)
  assume inv: "queue_inv q"
  show ?thesis
  proof (cases b q rule: queue_push_cases)
    case (refused s q')
    then show ?thesis using inv QO_push by (simp add: queue_inv_def)
  next
    case (replaced c)
    then show ?thesis
      using inv QO_push drop_candidate_Some(1) [OF replaced(2)]
        sorted_snoc [OF sorted_without last_without, of "fq_pending q" c b]
      by (simp add: queue_inv_def)
  next
    case added
    then show ?thesis using inv QO_push sorted_snoc [of "fq_pending q" b] by (simp add: queue_inv_def)
  qed
next
  case (QO_acknowledge n)
  assume "queue_inv q"
  then show ?thesis
    using QO_acknowledge
    by (auto simp: queue_acknowledge_def Let_def queue_inv_def sorted_wrt_filter intro: le_trans [OF length_filter_le])
qed

interpretation queue_machine: invariant_machine queue_step queue_inv
  by unfold_locales (rule queue_step_inv)

definition evidence_batch :: "batch \<Rightarrow> bool" where
  "evidence_batch b \<longleftrightarrow> ba_priority b \<le> Pr_response"

fun acknowledges :: "queue_op \<Rightarrow> batch \<Rightarrow> bool" where
  "acknowledges (QO_push b') b = False"
| "acknowledges (QO_acknowledge n) b = (ba_batch_sequence b \<le> n)"

lemma evidence_kept_step:
  assumes "b \<in> set (fq_pending q)" "evidence_batch b" "\<not> acknowledges op b"
  shows "b \<in> set (fq_pending (queue_step op q))"
proof (cases op)
  case (QO_push b')
  show ?thesis
  proof (cases b' q rule: queue_push_cases)
    case (replaced c)
    have "fq_pending q ! c \<noteq> b"
      using drop_candidate_Some(2) [OF replaced(2)] assms(2) by (auto simp: evidence_batch_def)
    moreover have "set (fq_pending q) = insert (fq_pending q ! c) (set (take c (fq_pending q)) \<union> set (drop (Suc c) (fq_pending q)))"
      using split_at [OF drop_candidate_Some(1) [OF replaced(2)]]
      by (metis Un_insert_right list.simps(15) set_append)
    ultimately show ?thesis using assms(1) replaced(1) QO_push by auto
  qed (use assms QO_push in auto)
next
  case (QO_acknowledge n)
  then show ?thesis using assms by (auto simp: queue_acknowledge_def Let_def)
qed

lemma evidence_kept_run:
  "b \<in> set (fq_pending q) \<Longrightarrow> evidence_batch b \<Longrightarrow> \<forall>op \<in> set ops. \<not> acknowledges op b \<Longrightarrow>
     b \<in> set (fq_pending (fold queue_step ops q))"
  by (induction ops arbitrary: q) (auto intro: evidence_kept_step)

text \<open>
  No evidence is lost silently. A critical or response batch that the queue once accepted is
  still pending after any further pushes and acknowledgements that do not confirm its
  sequence number; the queue never exceeds its capacity and stays in sequence order.
\<close>

theorem fleet_evidence_kept:
  assumes "b \<in> set (fq_pending (fold queue_step ops (new_queue n)))" "ba_priority b \<le> Pr_response"
    and "\<forall>op \<in> set later. \<not> acknowledges op b"
  defines "q \<equiv> fold queue_step (ops @ later) (new_queue n)"
  shows "b \<in> set (fq_pending q) \<and> length (fq_pending q) \<le> fq_capacity q \<and>
    sorted_wrt (\<lambda>a b. ba_batch_sequence a < ba_batch_sequence b) (fq_pending q)"
proof -
  have "queue_inv q"
    unfolding q_def by (rule queue_machine.run_inv) (simp add: queue_inv_def new_queue_def)
  moreover have "b \<in> set (fq_pending q)"
    using evidence_kept_run [OF assms(1) _ assms(3)] assms(2) by (simp add: q_def evidence_batch_def)
  ultimately show ?thesis by (simp add: queue_inv_def)
qed

text \<open>
  What a full queue does with a new batch of a valid, higher sequence number. If only
  critical and response batches are pending it refuses the batch and drops nothing; otherwise
  exactly one batch is dropped and counted, the new one or the first of the least important
  pending ones, and it is one of the least important of all.
\<close>

theorem fleet_pressure:
  assumes "length (fq_pending q) = fq_capacity q" "fq_pending q \<noteq> []" "ba_batch_sequence b \<noteq> 0"
    and "ba_batch_sequence (last (fq_pending q)) < ba_batch_sequence b"
  shows "(if \<forall>p \<in> set (fq_pending q). ba_priority p \<le> Pr_response
     then queue_push b q = (Inl St_out_of_budget, q)
     else \<exists>c < length (fq_pending q).
       (\<forall>p \<in> set (fq_pending q). ba_priority p \<le> ba_priority (fq_pending q ! c)) \<and>
       (\<forall>i < c. ba_priority (fq_pending q ! i) < ba_priority (fq_pending q ! c)) \<and>
       queue_push b q =
         (if ba_priority b > ba_priority (fq_pending q ! c)
          then (Inl St_out_of_budget, q\<lparr>fq_dropped := fq_dropped q + 1\<rparr>)
          else (ok_unit, q\<lparr>fq_pending := (take c (fq_pending q) @ drop (Suc c) (fq_pending q)) @ [b],
                           fq_dropped := fq_dropped q + 1\<rparr>)))"
proof (cases "drop_candidate (fq_pending q)")
  case None
  moreover have "fq_capacity q \<noteq> 0" using assms(1,2) by (metis length_0_conv)
  ultimately have "queue_push b q = (Inl St_out_of_budget, q)" using assms by (auto simp: queue_push_def)
  with None show ?thesis by (simp add: drop_candidate_None)
next
  case (Some c)
  then have "\<not> (\<forall>p \<in> set (fq_pending q). ba_priority p \<le> Pr_response)"
    using drop_candidate_None [of "fq_pending q"] by simp
  moreover have "queue_push b q =
         (if ba_priority b > ba_priority (fq_pending q ! c)
          then (Inl St_out_of_budget, q\<lparr>fq_dropped := fq_dropped q + 1\<rparr>)
          else (ok_unit, q\<lparr>fq_pending := (take c (fq_pending q) @ drop (Suc c) (fq_pending q)) @ [b],
                           fq_dropped := fq_dropped q + 1\<rparr>))"
    using Some assms length_0_conv [of "fq_pending q"] by (auto simp: queue_push_def)
  ultimately show ?thesis using drop_candidate_Some [OF Some] by auto
qed

definition sample_batch :: "u64 \<Rightarrow> priority \<Rightarrow> batch" where
  "sample_batch n pr = \<lparr>ba_organization_id = 1, ba_device_id = 2, ba_boot_id = 3, ba_batch_sequence = n,
     ba_first_event_sequence = 1, ba_last_event_sequence = 2, ba_policy_version = 1, ba_model_version = 1,
     ba_agent_version = 1, ba_created_at_ns = 9, ba_priority = pr, ba_previous_batch_hash = zero_digest,
     ba_payload_hash = replicate 32 1, ba_batch_hash = zero_digest, ba_signer_fingerprint = zero_digest\<rparr>"

theorem fleet_evidence_kept_witness:
  "sample_batch 1 Pr_response \<in> set (fq_pending (fold queue_step
     ([QO_push (sample_batch 1 Pr_response)] @
      [QO_push (sample_batch 2 Pr_diagnostic), QO_push (sample_batch 3 Pr_critical)]) (new_queue 2)))"
  by (rule fleet_evidence_kept [THEN conjunct1])
    (simp_all add: queue_push_def new_queue_def sample_batch_def less_eq_priority_def)

theorem fleet_pressure_witness:
  "let q = \<lparr>fq_capacity = 2, fq_dropped = 0,
        fq_pending = [sample_batch 1 Pr_critical, sample_batch 2 Pr_diagnostic]\<rparr> in
   (if \<forall>p \<in> set (fq_pending q). ba_priority p \<le> Pr_response
     then queue_push (sample_batch 3 Pr_security) q = (Inl St_out_of_budget, q)
     else \<exists>c < length (fq_pending q).
       (\<forall>p \<in> set (fq_pending q). ba_priority p \<le> ba_priority (fq_pending q ! c)) \<and>
       (\<forall>i < c. ba_priority (fq_pending q ! i) < ba_priority (fq_pending q ! c)) \<and>
       queue_push (sample_batch 3 Pr_security) q =
         (if ba_priority (sample_batch 3 Pr_security) > ba_priority (fq_pending q ! c)
          then (Inl St_out_of_budget, q\<lparr>fq_dropped := fq_dropped q + 1\<rparr>)
          else (ok_unit, q\<lparr>fq_pending := (take c (fq_pending q) @ drop (Suc c) (fq_pending q)) @ [sample_batch 3 Pr_security],
                           fq_dropped := fq_dropped q + 1\<rparr>)))"
  unfolding Let_def by (rule fleet_pressure) (simp_all add: sample_batch_def)

end
