(* ===== verification/AIS_Flow.thy ===== *)
theory AIS_Flow
  imports AIS_Policy
begin

text \<open>
  The life of a flow and what bounds it: the state machine of \<open>include/ai_shield/flow_state.hpp\<close>
  as a step relation, the bounded queue of \<open>ring_buffer.hpp\<close> against its abstract queue,
  token bucket, UDP session limit and redirect limit of \<open>src/flow_control.cpp\<close>, and the
  pending decisions of \<open>src/pending_decision.cpp\<close>.
\<close>

section \<open>flow_state.hpp\<close>

datatype flow_state =
    FS_fresh | FS_authorized | FS_proxied | FS_classifying | FS_inspecting | FS_sandbox_pending
  | FS_allowed | FS_active | FS_blocked | FS_quarantined | FS_closed

fun can_transition :: "flow_state \<Rightarrow> flow_state \<Rightarrow> bool" where
  "can_transition FS_fresh to = (to = FS_authorized \<or> to = FS_blocked)"
| "can_transition FS_authorized to = (to = FS_proxied \<or> to = FS_classifying \<or> to = FS_blocked)"
| "can_transition FS_proxied to = (to = FS_classifying \<or> to = FS_inspecting \<or> to = FS_closed)"
| "can_transition FS_classifying to =
     (to = FS_inspecting \<or> to = FS_sandbox_pending \<or> to = FS_allowed \<or> to = FS_blocked \<or> to = FS_quarantined)"
| "can_transition FS_inspecting to =
     (to = FS_sandbox_pending \<or> to = FS_allowed \<or> to = FS_blocked \<or> to = FS_quarantined)"
| "can_transition FS_sandbox_pending to = (to = FS_allowed \<or> to = FS_blocked \<or> to = FS_quarantined)"
| "can_transition FS_allowed to = (to = FS_active \<or> to = FS_closed)"
| "can_transition FS_active to = (to = FS_closed \<or> to = FS_blocked \<or> to = FS_quarantined)"
| "can_transition FS_blocked to = (to = FS_closed)"
| "can_transition FS_quarantined to = (to = FS_closed)"
| "can_transition FS_closed to = False"

definition transition :: "flow_state \<Rightarrow> flow_state \<Rightarrow> unit result \<times> flow_state" where
  "transition s to = (if \<not> can_transition s to then (Inl St_invalid_state_transition, s) else (ok_unit, to))"

text \<open>The machine as a step relation: a step is a call that is accepted.\<close>

inductive flow_step :: "flow_state \<Rightarrow> flow_state \<Rightarrow> bool" where
  accepted: "transition s to = (ok_unit, s') \<Longrightarrow> flow_step s s'"

code_pred flow_step .

inductive flow_run :: "flow_state \<Rightarrow> flow_state list \<Rightarrow> flow_state \<Rightarrow> bool" where
  stop: "flow_run s [] s"
| step: "flow_step s s' \<Longrightarrow> flow_run s' path t \<Longrightarrow> flow_run s (s' # path) t"

lemma flow_step_iff: "flow_step s s' \<longleftrightarrow> can_transition s s'"
  by (auto simp: flow_step.simps transition_def)

inductive_cases flow_run_ConsE: "flow_run s (x # path) t"
inductive_cases flow_run_NilE: "flow_run s [] t"
inductive_simps flow_run_simps: "flow_run s [] t" "flow_run s (x # path) t"

text \<open>Every accepted call moves the flow forward.\<close>

fun flow_rank :: "flow_state \<Rightarrow> nat" where
  "flow_rank FS_fresh = 0"
| "flow_rank FS_authorized = 1"
| "flow_rank FS_proxied = 2"
| "flow_rank FS_classifying = 3"
| "flow_rank FS_inspecting = 4"
| "flow_rank FS_sandbox_pending = 5"
| "flow_rank FS_allowed = 6"
| "flow_rank FS_active = 7"
| "flow_rank FS_blocked = 8"
| "flow_rank FS_quarantined = 8"
| "flow_rank FS_closed = 9"

lemma flow_step_rank: "flow_step s s' \<Longrightarrow> flow_rank s < flow_rank s'"
  by (cases s; cases s') (simp_all add: flow_step_iff)

lemma flow_run_rank: "flow_run s path t \<Longrightarrow> flow_rank s + length path \<le> flow_rank t"
  by (induction rule: flow_run.induct) (auto dest: flow_step_rank)

lemma flow_rank_le: "flow_rank s \<le> 9"
  by (cases s) simp_all

definition decided_against :: "flow_state \<Rightarrow> bool" where
  "decided_against s \<longleftrightarrow> s = FS_blocked \<or> s = FS_quarantined \<or> s = FS_closed"

lemma decided_step: "flow_step s s' \<Longrightarrow> decided_against s \<Longrightarrow> s' = FS_closed"
  by (cases s) (auto simp: flow_step_iff decided_against_def)

lemma decided_run: "flow_run s path t \<Longrightarrow> decided_against s \<Longrightarrow> \<forall>x \<in> set path. x = FS_closed"
  by (induction rule: flow_run.induct) (auto dest: decided_step simp: decided_against_def)

text \<open>Data of a flow is only ever passed after a check.\<close>

lemma flow_run_append: "flow_run s (p @ q) t \<longleftrightarrow> (\<exists>u. flow_run s p u \<and> flow_run u q t)"
  by (induction p arbitrary: s) (auto simp: flow_run_simps)

lemma active_needs_allowed: "flow_run s path FS_active \<Longrightarrow> s \<noteq> FS_active \<Longrightarrow> s = FS_allowed \<or> FS_allowed \<in> set path"
proof (induction s path "FS_active" rule: flow_run.induct)
  case (step s s' path)
  show ?case
  proof (cases "s' = FS_active")
    case True
    then show ?thesis using step(1) by (cases s) (auto simp: flow_step_iff)
  qed (use step in auto)
qed simp

lemma allowed_needs_check:
  "flow_run s path FS_allowed \<Longrightarrow> s \<noteq> FS_allowed \<Longrightarrow>
     (\<exists>x \<in> insert s (set path). x \<in> {FS_classifying, FS_inspecting, FS_sandbox_pending})"
proof (induction s path "FS_allowed" rule: flow_run.induct)
  case (step s s' path)
  show ?case
  proof (cases "s' = FS_allowed")
    case True
    then show ?thesis using step(1) by (cases s) (auto simp: flow_step_iff)
  qed (use step in auto)
qed simp

text \<open>
  Whatever transitions are requested of a fresh flow, it passes at most nine states; after
  it was blocked or quarantined it can only be closed and never becomes allowed or active;
  and every flow that became active was allowed before, after it had been classified,
  inspected or sandboxed.
\<close>

theorem flow_never_unblocked:
  assumes "flow_run FS_fresh path t"
  shows "length path \<le> 9 \<and>
    (\<forall>i j. i < j \<longrightarrow> j < length path \<longrightarrow> path ! i \<in> {FS_blocked, FS_quarantined} \<longrightarrow> path ! j = FS_closed) \<and>
    (\<forall>j < length path. path ! j = FS_active \<longrightarrow>
       (\<exists>i < j. path ! i = FS_allowed \<and>
          (\<exists>k < i. path ! k \<in> {FS_classifying, FS_inspecting, FS_sandbox_pending})))"
proof -
  have len: "length path \<le> 9"
    using flow_run_rank [OF assms] flow_rank_le [of t] by simp
  have prefix_run: "flow_run FS_fresh (take (Suc j) path) (path ! j) \<and> flow_run (path ! j) (drop (Suc j) path) t"
    if "j < length path" for j
  proof -
    have split: "path = take (Suc j) path @ drop (Suc j) path" by simp
    then obtain u where u: "flow_run FS_fresh (take (Suc j) path) u" "flow_run u (drop (Suc j) path) t"
      using assms flow_run_append by metis
    have last: "flow_run s p v \<Longrightarrow> p \<noteq> [] \<Longrightarrow> last p = v" for s p v
      by (induction rule: flow_run.induct) (auto simp: flow_run_simps split: if_splits)
    have "take (Suc j) path = take j path @ [path ! j]" using that by (rule take_Suc_conv_app_nth)
    then have "u = path ! j" using last [OF u(1)] by simp
    with u show ?thesis by simp
  qed
  have blocked: "path ! j = FS_closed" if "i < j" "j < length path" "path ! i \<in> {FS_blocked, FS_quarantined}" for i j
  proof -
    have "flow_run (path ! i) (drop (Suc i) path) t" using prefix_run [of i] that by simp
    moreover have "path ! j \<in> set (drop (Suc i) path)"
      using that by (auto simp: in_set_conv_nth intro!: exI [of _ "j - Suc i"])
    ultimately show ?thesis using decided_run that(3) by (auto simp: decided_against_def)
  qed
  have find: "\<exists>i < j. path ! i = x" if "x \<in> set (take (Suc j) path)" "j < length path" "path ! j \<noteq> x" for j x
    using that by (auto simp: in_set_conv_nth less_Suc_eq)
  have active: "\<exists>i < j. path ! i = FS_allowed \<and>
          (\<exists>k < i. path ! k \<in> {FS_classifying, FS_inspecting, FS_sandbox_pending})"
    if "j < length path" "path ! j = FS_active" for j
  proof -
    have "FS_allowed \<in> set (take (Suc j) path)"
      using active_needs_allowed [of FS_fresh "take (Suc j) path"] prefix_run [of j] that by auto
    moreover have "path ! j \<noteq> FS_allowed" using that(2) by simp
    ultimately have "\<exists>i < j. path ! i = FS_allowed" using find [of FS_allowed j] that(1) by blast
    then obtain i where i: "i < j" "path ! i = FS_allowed" by blast
    have "\<exists>x \<in> set (take (Suc i) path). x \<in> {FS_classifying, FS_inspecting, FS_sandbox_pending}"
      using allowed_needs_check [of FS_fresh "take (Suc i) path"] prefix_run [of i] i that by auto
    then obtain x where "x \<in> set (take (Suc i) path)" "x \<in> {FS_classifying, FS_inspecting, FS_sandbox_pending}" by blast
    then have "\<exists>k < i. path ! k \<in> {FS_classifying, FS_inspecting, FS_sandbox_pending}"
      using find [of x i] i that by auto
    with i show ?thesis by blast
  qed
  show ?thesis using len blocked active by blast
qed

theorem flow_never_unblocked_witness:
  "flow_run FS_fresh [FS_authorized, FS_classifying, FS_allowed, FS_active, FS_quarantined, FS_closed] FS_closed \<and>
   length [FS_authorized, FS_classifying, FS_allowed, FS_active, FS_quarantined, FS_closed] \<le> 9"
proof -
  have run: "flow_run FS_fresh [FS_authorized, FS_classifying, FS_allowed, FS_active, FS_quarantined, FS_closed] FS_closed"
    by (simp add: flow_run_simps flow_step_iff)
  show ?thesis using flow_never_unblocked [OF run] run by blast
qed

section \<open>ring_buffer.hpp\<close>

record 'a bounded_ring =
  br_values :: "'a list"
  br_head :: nat
  br_tail :: nat
  br_size :: nat

text \<open>The capacity is the length of the array, a positive template parameter.\<close>

definition new_ring :: "nat \<Rightarrow> 'a \<Rightarrow> 'a bounded_ring" where
  "new_ring capacity init = \<lparr>br_values = replicate capacity init, br_head = 0, br_tail = 0, br_size = 0\<rparr>"

definition ring_push :: "'a \<Rightarrow> 'a bounded_ring \<Rightarrow> unit result \<times> 'a bounded_ring" where
  "ring_push v r =
     (if br_size r = length (br_values r) then (Inl St_out_of_budget, r)
      else (ok_unit, r\<lparr>br_values := (br_values r)[br_tail r := v],
                       br_tail := (br_tail r + 1) mod length (br_values r), br_size := br_size r + 1\<rparr>))"

definition ring_pop :: "'a bounded_ring \<Rightarrow> 'a result \<times> 'a bounded_ring" where
  "ring_pop r =
     (if br_size r = 0 then (Inl St_not_found, r)
      else (Inr (br_values r ! br_head r),
            r\<lparr>br_head := (br_head r + 1) mod length (br_values r), br_size := br_size r - 1\<rparr>))"

text \<open>The abstract queue a ring stands for, and the contract of a bounded queue.\<close>

definition ring_abs :: "'a bounded_ring \<Rightarrow> 'a list" where
  "ring_abs r = map (\<lambda>i. br_values r ! ((br_head r + i) mod length (br_values r))) [0..<br_size r]"

definition ring_inv :: "nat \<Rightarrow> 'a bounded_ring \<Rightarrow> bool" where
  "ring_inv n r \<longleftrightarrow> 0 < n \<and> length (br_values r) = n \<and> br_head r < n \<and> br_size r \<le> n \<and>
     br_tail r = (br_head r + br_size r) mod n"

text \<open>
  A run of calls, \<open>Some v\<close> for a push and \<open>None\<close> for a pop, with what every call answered.
\<close>

fun queue_run :: "('a \<Rightarrow> 'q \<Rightarrow> unit result \<times> 'q) \<Rightarrow> ('q \<Rightarrow> 'a result \<times> 'q) \<Rightarrow> 'a option list \<Rightarrow> 'q \<Rightarrow>
    (unit result + 'a result) list \<times> 'q" where
  "queue_run push pop [] q = ([], q)"
| "queue_run push pop (Some v # ops) q =
     (let (r, q') = push v q; (out, q'') = queue_run push pop ops q' in (Inl r # out, q''))"
| "queue_run push pop (None # ops) q =
     (let (r, q') = pop q; (out, q'') = queue_run push pop ops q' in (Inr r # out, q''))"

text \<open>The abstract queue: a list with a bound.\<close>

definition list_push :: "nat \<Rightarrow> 'a \<Rightarrow> 'a list \<Rightarrow> unit result \<times> 'a list" where
  "list_push n v xs = (if length xs < n then (ok_unit, xs @ [v]) else (Inl St_out_of_budget, xs))"

fun list_pop :: "'a list \<Rightarrow> 'a result \<times> 'a list" where
  "list_pop [] = (Inl St_not_found, [])"
| "list_pop (x # xs) = (Inr x, xs)"

locale bounded_queue =
  fixes push :: "'a \<Rightarrow> 'q \<Rightarrow> unit result \<times> 'q" and pop :: "'q \<Rightarrow> 'a result \<times> 'q"
    and content :: "'q \<Rightarrow> 'a list" and inv :: "'q \<Rightarrow> bool" and bound :: nat
  assumes push_inv: "inv q \<Longrightarrow> inv (snd (push v q))"
    and pop_inv: "inv q \<Longrightarrow> inv (snd (pop q))"
    and push_refines: "inv q \<Longrightarrow> map_prod id content (push v q) = list_push bound v (content q)"
    and pop_refines: "inv q \<Longrightarrow> map_prod id content (pop q) = list_pop (content q)"
begin

lemma run_refines:
  "inv q \<Longrightarrow> map_prod id content (queue_run push pop ops q) = queue_run (list_push bound) list_pop ops (content q)"
proof (induction ops arbitrary: q)
  case (Cons op ops)
  show ?case
  proof (cases op)
    case None
    then show ?thesis
      using Cons.IH [OF pop_inv [OF Cons.prems]] pop_refines [OF Cons.prems]
      by (auto simp: Let_def map_prod_def split: prod.splits)
  next
    case (Some v)
    then show ?thesis
      using Cons.IH [OF push_inv [OF Cons.prems, of v]] push_refines [OF Cons.prems, of v]
      by (auto simp: Let_def map_prod_def split: prod.splits)
  qed
qed simp

end

lemma ring_push_inv: "ring_inv n r \<Longrightarrow> ring_inv n (snd (ring_push v r))"
  by (auto simp: ring_push_def ring_inv_def mod_Suc_eq)

lemma ring_pop_inv: "ring_inv n r \<Longrightarrow> ring_inv n (snd (ring_pop r))"
proof -
  assume inv: "ring_inv n r"
  show ?thesis
  proof (cases "br_size r")
    case (Suc k)
    then have "(Suc (br_head r) mod n + k) mod n = (br_head r + br_size r) mod n"
      by (simp add: mod_add_left_eq)
    then show ?thesis using inv Suc by (auto simp: ring_pop_def ring_inv_def)
  qed (use inv in \<open>simp add: ring_pop_def\<close>)
qed

lemma mod_add_cancel_less:
  assumes "i < n" "j < n" "(h + i) mod n = (h + j) mod (n :: nat)"
  shows "i = j"
proof -
  have "i \<le> j \<Longrightarrow> i < n \<Longrightarrow> j < n \<Longrightarrow> (h + j) mod n = (h + i) mod n \<Longrightarrow> i = j" for i j
    using mod_eq_dvd_iff_nat [of "h + i" "h + j" n] by (cases "j - i = 0") (auto dest: dvd_imp_le)
  from this [of i j] this [of j i] assms show ?thesis by (metis nat_le_linear)
qed

lemma ring_abs_nth: "i < br_size r \<Longrightarrow> ring_abs r ! i = br_values r ! ((br_head r + i) mod length (br_values r))"
  by (simp add: ring_abs_def)

lemma length_ring_abs [simp]: "length (ring_abs r) = br_size r"
  by (simp add: ring_abs_def)

lemma ring_push_refines:
  assumes "ring_inv n r"
  shows "map_prod id ring_abs (ring_push v r) = list_push n v (ring_abs r)"
proof (cases "br_size r = n")
  case True
  then show ?thesis using assms by (simp add: ring_push_def list_push_def ring_inv_def)
next
  case False
  then have lt: "br_size r < n" and n: "length (br_values r) = n" "0 < n" "br_tail r = (br_head r + br_size r) mod n"
    using assms by (auto simp: ring_inv_def)
  have other: "(br_head r + i) mod n \<noteq> br_tail r" if "i < br_size r" for i
    using mod_add_cancel_less [of i n "br_size r" "br_head r"] that lt n by auto
  have "ring_abs (snd (ring_push v r)) = ring_abs r @ [v]"
  proof (rule nth_equalityI)
    show "length (ring_abs (snd (ring_push v r))) = length (ring_abs r @ [v])"
      using lt n by (simp add: ring_push_def)
    fix i assume "i < length (ring_abs (snd (ring_push v r)))"
    then have "i < Suc (br_size r)" using lt n by (simp add: ring_push_def)
    then show "ring_abs (snd (ring_push v r)) ! i = (ring_abs r @ [v]) ! i"
      using lt n other [of i] by (cases "i = br_size r")
        (auto simp: ring_push_def ring_abs_def nth_append nth_list_update simp del: upt_Suc)
  qed
  then show ?thesis using lt n by (auto simp: ring_push_def list_push_def)
qed

lemma ring_pop_refines:
  assumes "ring_inv n r"
  shows "map_prod id ring_abs (ring_pop r) = list_pop (ring_abs r)"
proof (cases "br_size r")
  case 0
  then show ?thesis by (simp add: ring_pop_def ring_abs_def)
next
  case (Suc k)
  have n: "length (br_values r) = n" "0 < n" "br_head r < n" using assms by (auto simp: ring_inv_def)
  have "ring_abs r = br_values r ! br_head r # ring_abs (snd (ring_pop r))"
  proof (rule nth_equalityI)
    show "length (ring_abs r) = length (br_values r ! br_head r # ring_abs (snd (ring_pop r)))"
      using Suc by (simp add: ring_pop_def)
    fix i assume "i < length (ring_abs r)"
    then show "ring_abs r ! i = (br_values r ! br_head r # ring_abs (snd (ring_pop r))) ! i"
      using Suc n by (cases i) (auto simp: ring_pop_def ring_abs_def mod_add_left_eq simp del: upt_Suc)
  qed
  then show ?thesis using Suc by (simp add: ring_pop_def)
qed

interpretation bounded_ring: bounded_queue ring_push ring_pop ring_abs "ring_inv n" n for n
  by unfold_locales (simp_all add: ring_push_inv ring_pop_inv ring_push_refines ring_pop_refines)

text \<open>
  C35: the ring buffer is a bounded first-in first-out queue. Every sequence of pushes and pops
  on a new ring answers exactly what the same calls answer on a list with that bound, and
  leaves the same content: nothing is overwritten, reordered or lost, wherever the indices
  wrap.
\<close>

theorem ring_is_bounded_fifo:
  "map_prod id ring_abs (queue_run ring_push ring_pop ops (new_ring (Suc n) init)) =
   queue_run (list_push (Suc n)) list_pop ops []"
proof -
  have "ring_inv (Suc n) (new_ring (Suc n) init)" by (simp add: ring_inv_def new_ring_def)
  moreover have "ring_abs (new_ring (Suc n) init) = []" by (simp add: ring_abs_def new_ring_def)
  ultimately show ?thesis using bounded_ring.run_refines by metis
qed

section \<open>TokenBucket\<close>

record token_bucket =
  tb_capacity :: u32
  tb_refill_per_second :: u32
  tb_tokens :: u32
  tb_last_refill_ns :: u64

definition new_bucket :: "u32 \<Rightarrow> u32 \<Rightarrow> token_bucket" where
  "new_bucket capacity rate =
     \<lparr>tb_capacity = capacity, tb_refill_per_second = rate, tb_tokens = capacity, tb_last_refill_ns = 0\<rparr>"

text \<open>The 64-bit product and the 32-bit sum wrap as they do in the code.\<close>

definition refill_amount :: "token_bucket \<Rightarrow> u64 \<Rightarrow> u32" where
  "refill_amount b elapsed =
     ucast (min (ucast (tb_capacity b) :: u64) ((elapsed * ucast (tb_refill_per_second b)) div 1000000000))"

definition bucket_refill :: "u64 \<Rightarrow> token_bucket \<Rightarrow> token_bucket" where
  "bucket_refill now_ns b =
     (let b = (if tb_last_refill_ns b = 0 then b\<lparr>tb_last_refill_ns := now_ns\<rparr> else b)
      in if now_ns > tb_last_refill_ns b then
           (let refill = refill_amount b (now_ns - tb_last_refill_ns b);
                b' = b\<lparr>tb_tokens := min (tb_capacity b) (tb_tokens b + refill)\<rparr>
            in if refill > 0 then b'\<lparr>tb_last_refill_ns := now_ns\<rparr> else b')
         else b)"

definition bucket_consume :: "u64 \<Rightarrow> u32 \<Rightarrow> token_bucket \<Rightarrow> unit result \<times> token_bucket" where
  "bucket_consume now_ns cost b =
     (if tb_capacity b = 0 \<or> tb_refill_per_second b = 0 \<or> cost > tb_capacity b then (Inl St_invalid_argument, b)
      else
        let b = bucket_refill now_ns b
        in if tb_tokens b < cost then (Inl St_out_of_budget, b)
           else (ok_unit, b\<lparr>tb_tokens := tb_tokens b - cost\<rparr>))"

text \<open>A run of calls and the tokens they were granted, as a number.\<close>

fun bucket_run :: "(u64 \<times> u32) list \<Rightarrow> token_bucket \<Rightarrow> nat \<times> token_bucket" where
  "bucket_run [] b = (0, b)"
| "bucket_run ((now_ns, cost) # calls) b =
     (let (r, b') = bucket_consume now_ns cost b; (granted, b'') = bucket_run calls b'
      in ((if r = ok_unit then unat cost else 0) + granted, b''))"

text \<open>Credit: tokens in units of \<open>10^-9\<close>, with what the elapsed time allows.\<close>

definition credit :: "nat \<Rightarrow> nat \<Rightarrow> token_bucket \<Rightarrow> nat" where
  "credit s e b = unat (tb_tokens b) * 10 ^ 9 +
     unat (tb_refill_per_second b) * (e - (if tb_last_refill_ns b = 0 then s else unat (tb_last_refill_ns b)))"

definition bucket_ok :: "nat \<Rightarrow> nat \<Rightarrow> token_bucket \<Rightarrow> bool" where
  "bucket_ok s e b \<longleftrightarrow> tb_tokens b \<le> tb_capacity b \<and>
     (tb_last_refill_ns b = 0 \<or> s \<le> unat (tb_last_refill_ns b) \<and> unat (tb_last_refill_ns b) \<le> e)"

lemma refill_amount_le:
  "unat (refill_amount b elapsed) * 10 ^ 9 \<le> unat elapsed * unat (tb_refill_per_second b)"
proof -
  let ?p = "elapsed * ucast (tb_refill_per_second b)"
  have u: "unat (ucast (x :: u32) :: u64) = unat x" for x
    using unsigned_less [of x, where 'a = nat] by (simp add: unsigned_ucast_eq take_bit_nat_eq_self)
  have "unat (refill_amount b elapsed) \<le> unat (?p div 1000000000)"
  proof -
    have "unat (refill_amount b elapsed) \<le> unat (min (ucast (tb_capacity b) :: u64) (?p div 1000000000))"
      by (simp add: refill_amount_def unsigned_ucast_eq)
    also have "\<dots> \<le> unat (?p div 1000000000)" by (simp add: min_def word_le_nat_alt)
    finally show ?thesis .
  qed
  also have "\<dots> = unat ?p div 10 ^ 9" by (simp add: unat_div)
  finally have "unat (refill_amount b elapsed) * 10 ^ 9 \<le> unat ?p"
    by (metis (no_types) div_times_less_eq_dividend dual_order.trans mult_le_mono1)
  also have "\<dots> \<le> unat elapsed * unat (tb_refill_per_second b)"
    by (simp add: unat_word_ariths u)
  finally show ?thesis .
qed

lemma bucket_refill_credit:
  assumes "bucket_ok s e b" "s \<le> unat now" "unat now \<le> e"
  shows "bucket_ok s e (bucket_refill now b) \<and> credit s e (bucket_refill now b) \<le> credit s e b \<and>
    tb_capacity (bucket_refill now b) = tb_capacity b \<and> tb_refill_per_second (bucket_refill now b) = tb_refill_per_second b"
proof -
  define c where "c = (if tb_last_refill_ns b = 0 then b\<lparr>tb_last_refill_ns := now\<rparr> else b)"
  have c: "bucket_ok s e c" "credit s e c \<le> credit s e b" "tb_capacity c = tb_capacity b"
      "tb_refill_per_second c = tb_refill_per_second b"
    using assms by (auto simp: c_def bucket_ok_def credit_def intro!: mult_le_mono2 diff_le_mono2)
  show ?thesis
  proof (cases "now > tb_last_refill_ns c")
    case False
    then show ?thesis using c by (simp add: bucket_refill_def c_def [symmetric] Let_def)
  next
    case True
    then have last: "tb_last_refill_ns c \<noteq> 0" using True by (auto simp: c_def split: if_splits)
    define r where "r = refill_amount c (now - tb_last_refill_ns c)"
    have sum: "unat (tb_tokens c + r) \<le> unat (tb_tokens c) + unat r" by (simp add: unat_word_ariths)
    have lt: "unat (tb_last_refill_ns c) < unat now" using True by (simp add: word_less_nat_alt)
    have r_le: "unat r * 10 ^ 9 \<le> (unat now - unat (tb_last_refill_ns c)) * unat (tb_refill_per_second c)"
      using refill_amount_le [of c "now - tb_last_refill_ns c"] lt by (simp add: r_def unat_sub_if')
    have tokens: "unat (min (tb_capacity c) (tb_tokens c + r)) \<le> unat (tb_tokens c) + unat r"
      using sum by (auto simp: min_def word_le_nat_alt)
    have eq: "bucket_refill now b = (if r > 0 then c\<lparr>tb_tokens := min (tb_capacity c) (tb_tokens c + r), tb_last_refill_ns := now\<rparr>
        else c\<lparr>tb_tokens := min (tb_capacity c) (tb_tokens c + r)\<rparr>)"
      using True by (simp add: bucket_refill_def c_def [symmetric] r_def Let_def)
    have now0: "now \<noteq> 0" using lt by auto
    have gain: "unat (tb_tokens c) * 10 ^ 9 + unat r * 10 ^ 9 + unat (tb_refill_per_second c) * (e - unat now)
        \<le> unat (tb_tokens c) * 10 ^ 9 + unat (tb_refill_per_second c) * (e - unat (tb_last_refill_ns c))"
    proof -
      have "e - unat (tb_last_refill_ns c) = (unat now - unat (tb_last_refill_ns c)) + (e - unat now)"
        using lt assms(3) by simp
      then show ?thesis using r_le by (simp add: distrib_left mult.commute)
    qed
    have "credit s e (bucket_refill now b) \<le> credit s e c"
    proof (cases "r > 0")
      case True
      have "unat (min (tb_capacity c) (tb_tokens c + r)) * 10 ^ 9 \<le> unat (tb_tokens c) * 10 ^ 9 + unat r * 10 ^ 9"
        using tokens by (metis add_mult_distrib mult_le_mono1)
      then show ?thesis using True gain eq last now0 by (simp add: credit_def)
    next
      case False
      then have "r = 0" by (simp add: word_gt_0)
      then have "unat (min (tb_capacity c) (tb_tokens c + r)) \<le> unat (tb_tokens c)" using tokens by simp
      then show ?thesis using False eq by (simp add: credit_def mult_le_mono1)
    qed
    then show ?thesis using c eq last assms now0 by (auto simp: bucket_ok_def)
  qed
qed

lemma bucket_run_credit:
  assumes "bucket_ok s e b" "\<forall>(now_ns, cost) \<in> set calls. s \<le> unat now_ns \<and> unat now_ns \<le> e"
  shows "fst (bucket_run calls b) * 10 ^ 9 + credit s e (snd (bucket_run calls b)) \<le> credit s e b \<and>
    bucket_ok s e (snd (bucket_run calls b))"
  using assms
proof (induction calls arbitrary: b)
  case (Cons call calls)
  obtain now_ns cost where call: "call = (now_ns, cost)" by (cases call)
  obtain r b' where cons: "bucket_consume now_ns cost b = (r, b')" by (cases "bucket_consume now_ns cost b")
  have t: "s \<le> unat now_ns" "unat now_ns \<le> e" using Cons.prems(2) call by auto
  note refill = bucket_refill_credit [OF Cons.prems(1) t]
  have step: "(if r = ok_unit then unat cost else 0) * 10 ^ 9 + credit s e b' \<le> credit s e b \<and> bucket_ok s e b'"
  proof (cases "r = ok_unit")
    case True
    define c where "c = bucket_refill now_ns b"
    have b': "b' = c\<lparr>tb_tokens := tb_tokens c - cost\<rparr>" "cost \<le> tb_tokens c"
      using cons True by (auto simp: bucket_consume_def Let_def c_def not_less split: if_splits)
    then have sub: "unat (tb_tokens c - cost) = unat (tb_tokens c) - unat cost" "unat cost \<le> unat (tb_tokens c)"
      by (simp_all add: unat_sub word_le_nat_alt)
    then have "unat cost * 10 ^ 9 + credit s e b' = credit s e c"
      using b' by (simp add: credit_def diff_mult_distrib)
    moreover have "bucket_ok s e b'"
      using refill b' sub by (auto simp: bucket_ok_def c_def [symmetric] word_le_nat_alt)
    ultimately show ?thesis using refill True by (simp add: c_def)
  next
    case False
    then have "b' = b \<or> b' = bucket_refill now_ns b"
      using cons by (auto simp: bucket_consume_def Let_def split: if_splits)
    then show ?thesis using False refill Cons.prems(1) by auto
  qed
  then show ?case
    using Cons.IH [of b'] Cons.prems(2) call cons by (auto simp: Let_def add_mult_distrib split: prod.splits)
qed simp

text \<open>
  The token bucket is a rate limit. However often and with whatever costs it is asked, in
  whatever order the clock values arrive, between the times \<open>s\<close> and \<open>e\<close> it grants at most its
  capacity plus the refill rate times the elapsed time; and its tokens never exceed the capacity.
\<close>

theorem token_bucket_rate_limit:
  assumes "\<forall>(now_ns, cost) \<in> set calls. s \<le> unat now_ns \<and> unat now_ns \<le> e"
  shows "fst (bucket_run calls (new_bucket capacity rate)) * 10 ^ 9 \<le> unat capacity * 10 ^ 9 + unat rate * (e - s) \<and>
    tb_tokens (snd (bucket_run calls (new_bucket capacity rate))) \<le> tb_capacity (snd (bucket_run calls (new_bucket capacity rate)))"
proof -
  have "bucket_ok s e (new_bucket capacity rate)" by (simp add: bucket_ok_def new_bucket_def)
  note run = bucket_run_credit [OF this assms]
  have "credit s e (new_bucket capacity rate) = unat capacity * 10 ^ 9 + unat rate * (e - s)"
    by (simp add: credit_def new_bucket_def)
  with run show ?thesis unfolding bucket_ok_def by linarith
qed

theorem token_bucket_rate_limit_witness:
  "fst (bucket_run [(1000, 5), (2000, 6), (2000001000, 3)] (new_bucket 10 2)) * 10 ^ 9 \<le> 10 * 10 ^ 9 + 2 * (2000001000 - 1000)"
  using token_bucket_rate_limit [of "[(1000, 5), (2000, 6), (2000001000, 3)]" 1000 2000001000 10 2] by simp

text \<open>
  The refill is lost when the elapsed time times the rate exceeds 64 bits. A bucket of 1000
  tokens that refills a million tokens per second and is empty grants nothing after five
  hours and seven minutes of idle time, although one second would have filled it.
\<close>

theorem token_bucket_refill_wraps:
  "let b = \<lparr>tb_capacity = 1000, tb_refill_per_second = 1000000, tb_tokens = 0, tb_last_refill_ns = 1\<rparr> in
   fst (bucket_consume 18446744073711 1 b) = Inl St_out_of_budget \<and>
   fst (bucket_consume 1000000001 1000 b) = ok_unit"
  by (simp add: bucket_consume_def bucket_refill_def refill_amount_def Let_def)

section \<open>UdpSessionLimiter\<close>

record udp_flow_key =
  uk_source_id :: u64
  uk_target_service_id :: u64
  uk_source_port_be :: u16
  uk_target_port_be :: u16

record udp_session =
  us_key :: udp_flow_key
  us_last_seen_ns :: u64

record udp_limiter =
  ul_max_sessions :: u32
  ul_idle_timeout_ns :: u64
  ul_sessions :: "udp_session list"

definition same_key :: "udp_flow_key \<Rightarrow> udp_flow_key \<Rightarrow> bool" where
  "same_key a b \<longleftrightarrow> uk_source_id a = uk_source_id b \<and> uk_target_service_id a = uk_target_service_id b \<and>
     uk_source_port_be a = uk_source_port_be b \<and> uk_target_port_be a = uk_target_port_be b"

definition session_idle :: "u64 \<Rightarrow> u64 \<Rightarrow> udp_session \<Rightarrow> bool" where
  "session_idle timeout now_ns s \<longleftrightarrow> now_ns > us_last_seen_ns s \<and> now_ns - us_last_seen_ns s > timeout"

fun touch_session :: "udp_flow_key \<Rightarrow> u64 \<Rightarrow> udp_session list \<Rightarrow> udp_session list option" where
  "touch_session key now_ns [] = None"
| "touch_session key now_ns (s # rest) =
     (if same_key (us_key s) key then Some (s\<lparr>us_last_seen_ns := now_ns\<rparr> # rest)
      else map_option ((#) s) (touch_session key now_ns rest))"

definition flow_allowed :: action_decision where
  "flow_allowed = \<lparr>ad_action = SA_allow, ad_reason_mask = 0\<rparr>"

definition udp_admit :: "udp_flow_key \<Rightarrow> u64 \<Rightarrow> udp_limiter \<Rightarrow> action_decision \<times> udp_limiter" where
  "udp_admit key now_ns l =
     (let kept = filter (\<lambda>s. \<not> session_idle (ul_idle_timeout_ns l) now_ns s) (ul_sessions l) in
      case touch_session key now_ns kept of
        Some touched \<Rightarrow> (flow_allowed, l\<lparr>ul_sessions := touched\<rparr>)
      | None \<Rightarrow>
          if of_nat (length kept) \<ge> (ucast (ul_max_sessions l) :: u64)
          then (\<lparr>ad_action = SA_rate_limit, ad_reason_mask = rate_limited\<rparr>, l\<lparr>ul_sessions := kept\<rparr>)
          else (flow_allowed, l\<lparr>ul_sessions := kept @ [\<lparr>us_key = key, us_last_seen_ns = now_ns\<rparr>]\<rparr>))"

definition udp_inv :: "udp_limiter \<Rightarrow> bool" where
  "udp_inv l \<longleftrightarrow> length (ul_sessions l) \<le> unat (ul_max_sessions l) \<and> distinct (map us_key (ul_sessions l))"

lemma same_key_iff [simp]: "same_key a b \<longleftrightarrow> a = b"
  by (cases a; cases b) (auto simp: same_key_def)

lemma touch_session_keys:
  "touch_session key now ss = Some ts \<Longrightarrow> map us_key ts = map us_key ss"
  by (induction ss arbitrary: ts) (auto split: if_splits)

lemma touch_session_None: "touch_session key now ss = None \<longleftrightarrow> key \<notin> set (map us_key ss)"
  by (induction ss) auto

lemma udp_admit_inv: "udp_inv l \<Longrightarrow> udp_inv (snd (udp_admit key now l))"
proof -
  assume inv: "udp_inv l"
  define kept where "kept = filter (\<lambda>s. \<not> session_idle (ul_idle_timeout_ns l) now s) (ul_sessions l)"
  have k: "length kept \<le> unat (ul_max_sessions l)" "distinct (map us_key kept)"
    using inv by (auto simp: udp_inv_def kept_def distinct_map_filter intro: le_trans [OF length_filter_le])
  have max: "unat (ucast (ul_max_sessions l) :: u64) = unat (ul_max_sessions l)" "unat (ul_max_sessions l) < 2 ^ 32"
    using unsigned_less [of "ul_max_sessions l", where 'a = nat] by (simp_all add: unsigned_ucast_eq take_bit_nat_eq_self)
  have full: "\<not> of_nat (length kept) \<ge> (ucast (ul_max_sessions l) :: u64) \<Longrightarrow> length kept < unat (ul_max_sessions l)"
    using k(1) max by (simp add: word_le_nat_alt unat_of_nat)
  show ?thesis
  proof (cases "touch_session key now kept")
    case None
    then show ?thesis
      using k full touch_session_None [of key now kept]
      by (auto simp: udp_admit_def kept_def [symmetric] Let_def udp_inv_def)
  next
    case (Some ts)
    then show ?thesis
      using k touch_session_keys [OF Some] map_eq_imp_length_eq [OF touch_session_keys [OF Some]]
      by (simp add: udp_admit_def kept_def [symmetric] Let_def udp_inv_def)
  qed
qed

interpretation udp_machine: invariant_machine "\<lambda>(key, now) l. snd (udp_admit key now l)" udp_inv
  by unfold_locales (auto simp: udp_admit_inv)

section \<open>RedirectTracker\<close>

record flow_redirect =
  fr_flow_id :: u64
  fr_count :: u32

record redirect_tracker =
  rt_max_redirects :: u32
  rt_redirects :: "flow_redirect list"

fun bump_redirect :: "u64 \<Rightarrow> flow_redirect list \<Rightarrow> (u32 \<times> flow_redirect list) option" where
  "bump_redirect flow_id [] = None"
| "bump_redirect flow_id (r # rest) =
     (if fr_flow_id r = flow_id then Some (fr_count r + 1, r\<lparr>fr_count := fr_count r + 1\<rparr> # rest)
      else map_option (\<lambda>(n, rs). (n, r # rs)) (bump_redirect flow_id rest))"

definition record_redirect :: "u64 \<Rightarrow> redirect_tracker \<Rightarrow> action_decision \<times> redirect_tracker" where
  "record_redirect flow_id t =
     (case bump_redirect flow_id (rt_redirects t) of
        Some (n, rs) \<Rightarrow>
          (if n > rt_max_redirects t then \<lparr>ad_action = SA_drop_flow, ad_reason_mask = proxy_loop\<rparr> else flow_allowed,
           t\<lparr>rt_redirects := rs\<rparr>)
      | None \<Rightarrow> (flow_allowed, t\<lparr>rt_redirects := rt_redirects t @ [\<lparr>fr_flow_id = flow_id, fr_count = 1\<rparr>]\<rparr>))"

definition redirect_step :: "u64 \<Rightarrow> redirect_tracker \<Rightarrow> redirect_tracker" where
  "redirect_step flow_id t = snd (record_redirect flow_id t)"

text \<open>The count kept for a flow, and its meaning: how often the flow was redirected.\<close>

fun redirect_count :: "u64 \<Rightarrow> flow_redirect list \<Rightarrow> u32 option" where
  "redirect_count flow_id [] = None"
| "redirect_count flow_id (r # rest) =
     (if fr_flow_id r = flow_id then Some (fr_count r) else redirect_count flow_id rest)"

lemma bump_redirect_None: "bump_redirect f rs = None \<longleftrightarrow> redirect_count f rs = None"
  by (induction rs) auto

lemma bump_redirect_Some: "bump_redirect f rs = Some (n, rs') \<Longrightarrow> redirect_count f rs = Some (n - 1)"
  by (induction rs arbitrary: rs') (auto split: if_splits)

lemma bump_redirect_ex: "redirect_count f rs = Some n \<Longrightarrow> \<exists>rs'. bump_redirect f rs = Some (n + 1, rs')"
  by (induction rs) (auto split: if_splits)

lemma bump_redirect_count:
  "bump_redirect f rs = Some (n, rs') \<Longrightarrow> redirect_count g rs' = (if g = f then Some n else redirect_count g rs)"
  by (induction rs arbitrary: rs') (auto split: if_splits)

lemma redirect_count_snoc:
  "redirect_count f rs = None \<Longrightarrow>
     redirect_count g (rs @ [\<lparr>fr_flow_id = f, fr_count = n\<rparr>]) = (if g = f then Some n else redirect_count g rs)"
  by (induction rs) (auto split: if_splits)

definition counts_history :: "redirect_tracker \<Rightarrow> u64 list \<Rightarrow> bool" where
  "counts_history t h \<longleftrightarrow> (\<forall>f. redirect_count f (rt_redirects t) =
     (if f \<in> set h then Some (of_nat (count_list h f)) else None))"

lemma redirect_step_counts:
  assumes "counts_history t h"
  shows "counts_history (redirect_step f t) (h @ [f])"
proof (cases "bump_redirect f (rt_redirects t)")
  case None
  then have "redirect_count f (rt_redirects t) = None"
    by (simp add: bump_redirect_None)
  moreover from this have "f \<notin> set h" using assms by (auto simp: counts_history_def split: if_splits)
  ultimately show ?thesis
    using assms None by (auto simp: counts_history_def redirect_step_def record_redirect_def redirect_count_snoc)
next
  case (Some p)
  obtain n rs where p: "p = (n, rs)" by (cases p)
  have "redirect_count f (rt_redirects t) = Some (n - 1)"
    using bump_redirect_Some Some p by blast
  then have "f \<in> set h" "n - 1 = of_nat (count_list h f)"
    using assms by (auto simp: counts_history_def split: if_splits)
  then show ?thesis
    using assms Some p bump_redirect_count [of f "rt_redirects t" n rs]
    by (auto simp: counts_history_def redirect_step_def record_redirect_def diff_eq_eq add.commute)
qed

lemma redirect_run_counts:
  "counts_history t h \<Longrightarrow> counts_history (fold redirect_step fs t) (h @ fs)"
  by (induction fs arbitrary: t h) (use redirect_step_counts in fastforce)+

lemma redirect_max [simp]: "rt_max_redirects (redirect_step f t) = rt_max_redirects t"
  by (simp add: redirect_step_def record_redirect_def split: option.splits prod.splits)

lemma redirect_run_max [simp]: "rt_max_redirects (fold redirect_step fs t) = rt_max_redirects t"
  by (induction fs arbitrary: t) simp_all

text \<open>
  Redirect loops are cut off by count. After any history of redirects of any flows (below
  the wrap of the counter) the next redirect of a flow is dropped exactly when it is at least
  its second and their number exceeds the limit; so with a limit of zero the first redirect
  still passes.
\<close>

theorem redirect_limit_exact:
  assumes "count_list history f < 2 ^ 32 - 1"
  shows "ad_action (fst (record_redirect f (fold redirect_step history \<lparr>rt_max_redirects = limit, rt_redirects = []\<rparr>))) =
    (if 1 \<le> count_list history f \<and> unat limit < count_list history f + 1 then SA_drop_flow else SA_allow)"
proof -
  define t where "t = fold redirect_step history \<lparr>rt_max_redirects = limit, rt_redirects = []\<rparr>"
  have "counts_history \<lparr>rt_max_redirects = limit, rt_redirects = []\<rparr> []" by (simp add: counts_history_def)
  from redirect_run_counts [OF this, of history]
  have h: "counts_history t history" by (simp add: t_def)
  have m: "rt_max_redirects t = limit" by (simp add: t_def)
  show ?thesis
  proof (cases "f \<in> set history")
    case True
    then have "redirect_count f (rt_redirects t) = Some (of_nat (count_list history f))"
      using h by (simp add: counts_history_def)
    then obtain rs where b: "bump_redirect f (rt_redirects t) = Some (of_nat (count_list history f) + 1, rs)"
      using bump_redirect_ex by blast
    have "unat (of_nat (count_list history f) + 1 :: u32) = count_list history f + 1"
      using assms by (simp add: unat_word_ariths unat_of_nat)
    moreover have "1 \<le> count_list history f" using True by (metis One_nat_def Suc_leI count_notin gr0I count_list_0_iff)
    ultimately show ?thesis
      using b m by (simp add: record_redirect_def t_def [symmetric] word_less_nat_alt flow_allowed_def)
  next
    case False
    then have "redirect_count f (rt_redirects t) = None" using h by (simp add: counts_history_def)
    then have "bump_redirect f (rt_redirects t) = None" by (simp add: bump_redirect_None)
    then show ?thesis using False by (simp add: record_redirect_def t_def [symmetric] flow_allowed_def)
  qed
qed

theorem redirect_limit_exact_witness:
  "ad_action (fst (record_redirect 7 (fold redirect_step [7, 8, 7] \<lparr>rt_max_redirects = 2, rt_redirects = []\<rparr>))) = SA_drop_flow \<and>
   ad_action (fst (record_redirect 7 (fold redirect_step [] \<lparr>rt_max_redirects = 0, rt_redirects = []\<rparr>))) = SA_allow"
  using redirect_limit_exact [of "[7, 8, 7]" 7 2] redirect_limit_exact [of "[]" 7 0] by simp

section \<open>pending_decision.cpp\<close>

record pending_flow =
  pf_flow_id :: u64
  pf_service_id :: u64
  pf_deadline_ns :: u64
  pf_bytes_reserved :: u64
  pf_completed :: bool

record pending_limits =
  pl_max_pending :: nat
  pl_max_budget_ns :: u64
  pl_max_service_budget_ns :: u64
  pl_max_reserved_bytes :: u64

definition default_limits :: pending_limits where
  "default_limits = \<lparr>pl_max_pending = 4096, pl_max_budget_ns = 1000000000, pl_max_service_budget_ns = 1000000000,
     pl_max_reserved_bytes = 4 * 1024 * 1024\<rparr>"

record pending_manager =
  pm_limits :: pending_limits
  pm_pending :: "pending_flow list"

definition pend_for_service ::
    "u64 \<Rightarrow> u64 \<Rightarrow> u64 \<Rightarrow> u64 \<Rightarrow> u64 \<Rightarrow> pending_manager \<Rightarrow> unit result \<times> pending_manager" where
  "pend_for_service flow_id service_id now_ns budget_ns reserved_bytes m =
     (if flow_id = 0 \<or> budget_ns = 0 \<or> budget_ns > pl_max_budget_ns (pm_limits m) \<or>
         budget_ns > pl_max_service_budget_ns (pm_limits m) \<or> reserved_bytes > pl_max_reserved_bytes (pm_limits m)
        then (Inl St_invalid_argument, m)
      else if length (pm_pending m) \<ge> pl_max_pending (pm_limits m) then (Inl St_out_of_budget, m)
      else if flow_id \<in> set (map pf_flow_id (pm_pending m)) then (Inl St_invalid_state_transition, m)
      else (ok_unit, m\<lparr>pm_pending := pm_pending m @
              [\<lparr>pf_flow_id = flow_id, pf_service_id = service_id, pf_deadline_ns = now_ns + budget_ns,
                pf_bytes_reserved = reserved_bytes, pf_completed = False\<rparr>]\<rparr>))"

definition pend :: "u64 \<Rightarrow> u64 \<Rightarrow> u64 \<Rightarrow> pending_manager \<Rightarrow> unit result \<times> pending_manager" where
  "pend flow_id now_ns budget_ns m = pend_for_service flow_id 0 now_ns budget_ns 0 m"

text \<open>The element with the flow id, and the vector without it.\<close>

fun take_pending :: "u64 \<Rightarrow> pending_flow list \<Rightarrow> (pending_flow \<times> pending_flow list) option" where
  "take_pending flow_id [] = None"
| "take_pending flow_id (p # ps) =
     (if pf_flow_id p = flow_id then Some (p, ps)
      else map_option (\<lambda>(q, qs). (q, p # qs)) (take_pending flow_id ps))"

definition complete_at :: "u64 \<Rightarrow> shield_action \<Rightarrow> u64 \<Rightarrow> pending_manager \<Rightarrow> action_decision result \<times> pending_manager" where
  "complete_at flow_id action now_ns m =
     (case take_pending flow_id (pm_pending m) of
        None \<Rightarrow> (Inl St_not_found, m)
      | Some (p, rest) \<Rightarrow>
          if now_ns \<noteq> 0 \<and> now_ns \<ge> pf_deadline_ns p then (Inl St_invalid_state_transition, m\<lparr>pm_pending := rest\<rparr>)
          else (Inr \<lparr>ad_action = action, ad_reason_mask = 0\<rparr>, m\<lparr>pm_pending := rest\<rparr>))"

definition complete :: "u64 \<Rightarrow> shield_action \<Rightarrow> pending_manager \<Rightarrow> action_decision result \<times> pending_manager" where
  "complete flow_id action m = complete_at flow_id action 0 m"

definition expire :: "u64 \<Rightarrow> pending_manager \<Rightarrow> action_decision list \<times> pending_manager" where
  "expire now_ns m =
     (map (\<lambda>_. \<lparr>ad_action = SA_drop_flow, ad_reason_mask = decision_timeout\<rparr>)
        (filter (\<lambda>p. now_ns \<ge> pf_deadline_ns p) (pm_pending m)),
      m\<lparr>pm_pending := filter (\<lambda>p. \<not> now_ns \<ge> pf_deadline_ns p) (pm_pending m)\<rparr>)"

definition pending_inv :: "pending_manager \<Rightarrow> bool" where
  "pending_inv m \<longleftrightarrow> length (pm_pending m) \<le> pl_max_pending (pm_limits m) \<and>
     distinct (map pf_flow_id (pm_pending m)) \<and> 0 \<notin> set (map pf_flow_id (pm_pending m))"

lemma take_pending_None: "take_pending f ps = None \<longleftrightarrow> f \<notin> set (map pf_flow_id ps)"
  by (induction ps) auto

lemma take_pending_Some:
  "take_pending f ps = Some (p, rest) \<Longrightarrow> p \<in> set ps \<and> pf_flow_id p = f \<and> length ps = Suc (length rest) \<and> set rest \<subseteq> set ps"
  by (induction ps arbitrary: rest) (auto split: if_splits)

lemma take_pending_distinct:
  "take_pending f ps = Some (p, rest) \<Longrightarrow> distinct (map pf_flow_id ps) \<Longrightarrow>
     distinct (map pf_flow_id rest) \<and> f \<notin> set (map pf_flow_id rest)"
proof (induction ps arbitrary: rest)
  case (Cons q qs)
  show ?case
  proof (cases "pf_flow_id q = f")
    case False
    then obtain rs where rs: "take_pending f qs = Some (p, rs)" "rest = q # rs" using Cons.prems(1) by auto
    have "set rs \<subseteq> set qs" using take_pending_Some [OF rs(1)] by blast
    then have "pf_flow_id q \<notin> pf_flow_id ` set rs" using Cons.prems(2) by auto
    then show ?thesis using Cons.IH [OF rs(1)] Cons.prems(2) rs(2) False by simp
  qed (use Cons.prems in auto)
qed simp

datatype pending_op =
    PO_pend u64 u64 u64 u64 u64
  | PO_complete u64 shield_action u64
  | PO_expire u64

fun pending_step :: "pending_op \<Rightarrow> pending_manager \<Rightarrow> pending_manager" where
  "pending_step (PO_pend f s now budget bytes) m = snd (pend_for_service f s now budget bytes m)"
| "pending_step (PO_complete f a now) m = snd (complete_at f a now m)"
| "pending_step (PO_expire now) m = snd (expire now m)"

lemma pending_step_inv: "pending_inv m \<Longrightarrow> pending_inv (pending_step op m)"
proof (cases op)
  case (PO_complete f a now)
  assume inv: "pending_inv m"
  show ?thesis
  proof (cases "take_pending f (pm_pending m)")
    case (Some p)
    then obtain q rest where "take_pending f (pm_pending m) = Some (q, rest)" by (cases p) auto
    then show ?thesis
      using inv take_pending_Some [of f "pm_pending m" q rest] take_pending_distinct [of f "pm_pending m" q rest] PO_complete
      by (auto simp: complete_at_def pending_inv_def)
  qed (use inv PO_complete in \<open>simp add: complete_at_def\<close>)
next
  case (PO_expire now)
  assume "pending_inv m"
  then show ?thesis
    using PO_expire by (auto simp: expire_def pending_inv_def distinct_map_filter intro: le_trans [OF length_filter_le])
qed (auto simp: pend_for_service_def pending_inv_def)

interpretation pending_machine: invariant_machine pending_step pending_inv
  by unfold_locales (rule pending_step_inv)

lemma pending_reachable: "pending_inv (fold pending_step ops \<lparr>pm_limits = limits, pm_pending = []\<rparr>)"
  by (rule pending_machine.run_inv) (simp add: pending_inv_def)

text \<open>
  Undecided flows fail closed. After any sequence of calls the pending flows are distinct
  and within the limit; a decision that arrives at or after the flow's deadline never becomes
  an action, and the flow is gone; and expiry drops exactly the flows whose deadline passed,
  one drop each, and leaves no such flow behind.
\<close>

theorem pending_fails_closed:
  "let m = fold pending_step ops \<lparr>pm_limits = limits, pm_pending = []\<rparr> in
   length (pm_pending m) \<le> pl_max_pending limits \<and> distinct (map pf_flow_id (pm_pending m)) \<and>
   (case complete_at f action now m of
      (Inr d, m') \<Rightarrow> (\<exists>p \<in> set (pm_pending m). pf_flow_id p = f \<and> (now = 0 \<or> now < pf_deadline_ns p)) \<and>
        f \<notin> set (map pf_flow_id (pm_pending m'))
    | (Inl s, m') \<Rightarrow> f \<notin> set (map pf_flow_id (pm_pending m'))) \<and>
   length (fst (expire now m)) + length (pm_pending (snd (expire now m))) = length (pm_pending m) \<and>
   set (fst (expire now m)) \<subseteq> {\<lparr>ad_action = SA_drop_flow, ad_reason_mask = decision_timeout\<rparr>} \<and>
   {p \<in> set (pm_pending (snd (expire now m))). pf_deadline_ns p \<le> now} = {}"
proof -
  define m where "m = fold pending_step ops \<lparr>pm_limits = limits, pm_pending = []\<rparr>"
  have inv: "pending_inv m" unfolding m_def by (rule pending_reachable)
  have limits: "pm_limits m = limits"
  proof -
    have "pm_limits (pending_step op m) = pm_limits m" for op m
      by (cases op) (auto simp: pend_for_service_def complete_at_def expire_def split: option.splits prod.splits)
    then have "pm_limits (fold pending_step ops m) = pm_limits m" for m by (induction ops arbitrary: m) simp_all
    then show ?thesis by (simp add: m_def)
  qed
  have comp: "case complete_at f action now m of
      (Inr d, m') \<Rightarrow> (\<exists>p \<in> set (pm_pending m). pf_flow_id p = f \<and> (now = 0 \<or> now < pf_deadline_ns p)) \<and>
        f \<notin> set (map pf_flow_id (pm_pending m'))
    | (Inl s, m') \<Rightarrow> f \<notin> set (map pf_flow_id (pm_pending m'))"
  proof (cases "take_pending f (pm_pending m)")
    case None
    then have "f \<notin> set (map pf_flow_id (pm_pending m))" by (simp only: take_pending_None) simp
    then show ?thesis using None by (simp add: complete_at_def)
  next
    case (Some pr)
    then obtain p rest where p: "take_pending f (pm_pending m) = Some (p, rest)" by (cases pr) auto
    then show ?thesis
      using take_pending_Some [OF p] take_pending_distinct [OF p] inv
      by (auto simp: complete_at_def pending_inv_def not_le)
  qed
  have "length (filter (\<lambda>p. pf_deadline_ns p \<le> now) xs) + length (filter (\<lambda>p. \<not> pf_deadline_ns p \<le> now) xs) = length xs" for xs
    by (rule sum_length_filter_compl)
  then show ?thesis
    using inv limits comp unfolding m_def [symmetric] Let_def
    by (auto simp: pending_inv_def expire_def)
qed

subsection \<open>Every wait ends\<close>

text \<open>\<open>due_by T op\<close>: the flow this call may hold back has its deadline, taken without wrap-around, no later than \<open>T\<close>.\<close>

fun due_by :: "u64 \<Rightarrow> pending_op \<Rightarrow> bool" where
  "due_by T (PO_pend f s now budget bytes) = (unat now + unat budget \<le> unat T)"
| "due_by T _ = True"

lemma pending_step_limits [simp]: "pm_limits (pending_step op m) = pm_limits m"
  by (cases op) (auto simp: pend_for_service_def complete_at_def expire_def split: option.splits prod.splits)

lemma pending_run_limits [simp]: "pm_limits (fold pending_step ops m) = pm_limits m"
  by (induction ops arbitrary: m) simp_all

lemma deadline_due:
  assumes "unat now + unat budget \<le> unat T"
  shows "now + budget \<le> (T :: u64)"
proof -
  have "unat now + unat budget < 2 ^ 64" using assms unsigned_less [of T, where 'a = nat] by simp
  then show ?thesis using assms by (simp add: word_le_nat_alt unat_plus_if')
qed

lemma pending_step_due:
  assumes "due_by T op" "\<forall>p \<in> set (pm_pending m). pf_deadline_ns p \<le> T"
  shows "\<forall>p \<in> set (pm_pending (pending_step op m)). pf_deadline_ns p \<le> T"
proof (cases op)
  case (PO_complete f a now)
  then show ?thesis
    using assms(2) take_pending_Some [of f "pm_pending m"]
    by (auto simp: complete_at_def split: option.splits)
qed (use assms deadline_due in \<open>auto simp: pend_for_service_def expire_def\<close>)

lemma pending_run_due:
  "list_all (due_by T) ops \<Longrightarrow> \<forall>p \<in> set (pm_pending m). pf_deadline_ns p \<le> T \<Longrightarrow>
     \<forall>p \<in> set (pm_pending (fold pending_step ops m)). pf_deadline_ns p \<le> T"
proof (induction ops arbitrary: m)
  case (Cons op ops)
  have "\<forall>p \<in> set (pm_pending (pending_step op m)). pf_deadline_ns p \<le> T"
    using Cons.prems by (intro pending_step_due) simp_all
  then show ?case using Cons by simp
qed simp

text \<open>
  C40: no flow waits for ever and no run exhausts the manager for good. After any sequence of
  calls whose deadlines lie at or before \<open>T\<close>, expiry at \<open>T\<close> answers every flow still
  undecided with a drop, one answer each; nothing stays pending, whoever was waiting is no
  longer known, and the next request is accepted whenever its own arguments are within the
  limits.
\<close>

theorem pending_always_resolves:
  assumes "list_all (due_by T) ops"
  shows "let m = fold pending_step ops \<lparr>pm_limits = limits, pm_pending = []\<rparr>; m' = snd (expire T m) in
     fst (expire T m) = replicate (length (pm_pending m)) \<lparr>ad_action = SA_drop_flow, ad_reason_mask = decision_timeout\<rparr> \<and>
     pm_pending m' = [] \<and> fst (complete_at f action now m') = Inl St_not_found \<and>
     (fst (pend_for_service f s now budget bytes m') = ok_unit) =
       (f \<noteq> 0 \<and> budget \<noteq> 0 \<and> budget \<le> pl_max_budget_ns limits \<and> budget \<le> pl_max_service_budget_ns limits \<and>
        bytes \<le> pl_max_reserved_bytes limits \<and> 0 < pl_max_pending limits)"
proof -
  define m where "m = fold pending_step ops \<lparr>pm_limits = limits, pm_pending = []\<rparr>"
  have due: "\<forall>p \<in> set (pm_pending m). pf_deadline_ns p \<le> T"
    unfolding m_def by (rule pending_run_due [OF assms]) simp
  then have "filter (\<lambda>p. pf_deadline_ns p \<le> T) (pm_pending m) = pm_pending m" by (simp add: filter_id_conv)
  moreover have "filter (\<lambda>p. \<not> pf_deadline_ns p \<le> T) (pm_pending m) = []" using due by (simp add: filter_empty_conv)
  moreover have "pm_limits m = limits" by (simp add: m_def)
  ultimately show ?thesis
    unfolding m_def [symmetric] Let_def
    by (auto simp: expire_def complete_at_def pend_for_service_def map_replicate_const not_le)
qed

theorem pending_always_resolves_witness:
  "pm_pending (snd (expire 900 (fold pending_step [PO_pend 7 1 100 800 0, PO_pend 8 1 200 300 0]
     \<lparr>pm_limits = default_limits, pm_pending = []\<rparr>))) = []"
  using pending_always_resolves [where T = 900 and ops = "[PO_pend 7 1 100 800 0, PO_pend 8 1 200 300 0]" and limits = default_limits]
  by (simp add: Let_def)

end
