(* ===== verification/AIS_Behaviour.thy ===== *)
theory AIS_Behaviour
  imports AIS_Evidence
begin

text \<open>
  The detectors that remember: the ransomware detector (\<open>src/ransomware.cpp\<close>) with one
  sliding window per process, the worker supervisor (\<open>src/worker_supervisor.cpp\<close>) with one
  circuit breaker per worker kind, the campaign tracker (\<open>src/campaign.cpp\<close>) with its ring
  of sixteen observations, and the n-gram model (\<open>src/sequence_model.cpp\<close>). For each of
  them the state is related to the whole history of calls: the answers of the incremental
  code are a function of the history, and the lemmas say which.
\<close>

section \<open>ransomware.cpp\<close>

datatype mutation_kind = MU_write | MU_rename | MU_remove | MU_truncate | MU_canary | MU_recovery_tamper

datatype rw_severity = SV_normal | SV_suspicious | SV_confirmed

abbreviation (input) write_burst :: u32 where "write_burst \<equiv> 1"
abbreviation (input) destructive_burst :: u32 where "destructive_burst \<equiv> 2"
abbreviation (input) entropy_increase :: u32 where "entropy_increase \<equiv> 4"
abbreviation (input) broad_target_set :: u32 where "broad_target_set \<equiv> 8"
abbreviation (input) canary_modified :: u32 where "canary_modified \<equiv> 16"
abbreviation (input) recovery_tampered :: u32 where "recovery_tampered \<equiv> 32"

record rw_observation =
  ro_process_id :: u64
  ro_parent_process_id :: u64
  ro_object_id :: u64
  ro_monotonic_ns :: u64
  ro_kind :: mutation_kind
  ro_entropy_before_milli :: u32
  ro_entropy_after_milli :: u32
  ro_trusted_process :: bool

record rw_policy =
  rp_window_ns :: u64
  rp_write_threshold :: u32
  rp_destructive_threshold :: u32
  rp_distinct_object_threshold :: u32
  rp_entropy_delta_milli :: u32
  rp_suspicious_score :: u32
  rp_containment_score :: u32

definition default_rw_policy :: rw_policy where
  "default_rw_policy = \<lparr>rp_window_ns = 10000000000, rp_write_threshold = 96, rp_destructive_threshold = 24,
     rp_distinct_object_threshold = 64, rp_entropy_delta_milli = 1200, rp_suspicious_score = 50,
     rp_containment_score = 80\<rparr>"

record rw_verdict =
  rv_severity :: rw_severity
  rv_score :: u32
  rv_reason_mask :: u32
  rv_writes :: u32
  rv_destructive_operations :: u32
  rv_distinct_objects :: u32
  rv_create_incident :: bool
  rv_contain_process_tree :: bool

definition no_verdict :: rw_verdict where
  "no_verdict = \<lparr>rv_severity = SV_normal, rv_score = 0, rv_reason_mask = 0, rv_writes = 0,
     rv_destructive_operations = 0, rv_distinct_objects = 0, rv_create_incident = False,
     rv_contain_process_tree = False\<rparr>"

record rw_detector =
  rd_policy :: rw_policy
  rd_windows :: "u64 \<rightharpoonup> rw_observation list"

text \<open>The constructor repairs a policy that is out of range.\<close>

definition rw_repair :: "rw_policy \<Rightarrow> rw_policy" where
  "rw_repair p =
     (let p = (if rp_window_ns p = 0 then p\<lparr>rp_window_ns := 1\<rparr> else p);
          p = (if rp_write_threshold p = 0 then p\<lparr>rp_write_threshold := 1\<rparr> else p);
          p = (if rp_destructive_threshold p = 0 then p\<lparr>rp_destructive_threshold := 1\<rparr> else p);
          p = (if rp_distinct_object_threshold p = 0 then p\<lparr>rp_distinct_object_threshold := 1\<rparr> else p);
          p = (if rp_suspicious_score p > 100 then p\<lparr>rp_suspicious_score := 100\<rparr> else p);
          p = (if rp_containment_score p < rp_suspicious_score p
               then p\<lparr>rp_containment_score := rp_suspicious_score p\<rparr> else p);
          p = (if rp_containment_score p > 100 then p\<lparr>rp_containment_score := 100\<rparr> else p)
      in p)"

definition rw_new :: "rw_policy \<Rightarrow> rw_detector" where
  "rw_new p = \<lparr>rd_policy = rw_repair p, rd_windows = Map.empty\<rparr>"

text \<open>What one pass over the window collects.\<close>

record rw_scan =
  sc_trusted :: bool
  sc_objects :: "u64 set"
  sc_writes :: u32
  sc_destructive :: u32
  sc_canary :: bool
  sc_tamper :: bool
  sc_entropy :: bool

definition scan_start :: rw_scan where
  "scan_start = \<lparr>sc_trusted = True, sc_objects = {}, sc_writes = 0, sc_destructive = 0,
     sc_canary = False, sc_tamper = False, sc_entropy = False\<rparr>"

definition rw_is_write :: "rw_observation \<Rightarrow> bool" where
  "rw_is_write item \<longleftrightarrow> ro_kind item = MU_write \<or> ro_kind item = MU_truncate"

definition rw_is_destructive :: "rw_observation \<Rightarrow> bool" where
  "rw_is_destructive item \<longleftrightarrow> ro_kind item = MU_rename \<or> ro_kind item = MU_remove \<or> ro_kind item = MU_truncate"

definition rw_entropy_jump :: "rw_policy \<Rightarrow> rw_observation \<Rightarrow> bool" where
  "rw_entropy_jump p item \<longleftrightarrow> ro_entropy_after_milli item > ro_entropy_before_milli item \<and>
     ro_entropy_after_milli item - ro_entropy_before_milli item \<ge> rp_entropy_delta_milli p"

definition scan_item :: "rw_policy \<Rightarrow> rw_observation \<Rightarrow> rw_scan \<Rightarrow> rw_scan" where
  "scan_item p item s =
     \<lparr>sc_trusted = (sc_trusted s \<and> ro_trusted_process item),
      sc_objects = (if ro_object_id item \<noteq> 0 then insert (ro_object_id item) (sc_objects s) else sc_objects s),
      sc_writes = (if rw_is_write item then sc_writes s + 1 else sc_writes s),
      sc_destructive = (if rw_is_destructive item then sc_destructive s + 1 else sc_destructive s),
      sc_canary = (sc_canary s \<or> ro_kind item = MU_canary),
      sc_tamper = (sc_tamper s \<or> ro_kind item = MU_recovery_tamper),
      sc_entropy = (sc_entropy s \<or> rw_entropy_jump p item)\<rparr>"

text \<open>
  The score and the reasons of a window. The four conditional additions of the code start
  from zero, so they are one sum; then come the overrides, the cap and the discount.
\<close>

definition rw_score :: "rw_policy \<Rightarrow> rw_scan \<Rightarrow> u32" where
  "rw_score p s =
     (let score = (if sc_writes s \<ge> rp_write_threshold p then 30 else 0) +
                  (if sc_destructive s \<ge> rp_destructive_threshold p then 35 else 0) +
                  (if of_nat (card (sc_objects s)) \<ge> rp_distinct_object_threshold p then 20 else 0) +
                  (if sc_entropy s then 25 else 0);
          score = (if sc_canary s then max score 90 else score);
          score = (if sc_tamper s then 100 else score);
          score = min score 100
      in if sc_trusted s \<and> \<not> sc_canary s \<and> \<not> sc_tamper s
         then (if score > 25 then score - 25 else 0) else score)"

definition rw_mask :: "rw_policy \<Rightarrow> rw_scan \<Rightarrow> u32" where
  "rw_mask p s =
     (if sc_writes s \<ge> rp_write_threshold p then write_burst else 0) OR
     (if sc_destructive s \<ge> rp_destructive_threshold p then destructive_burst else 0) OR
     (if of_nat (card (sc_objects s)) \<ge> rp_distinct_object_threshold p then broad_target_set else 0) OR
     (if sc_entropy s then entropy_increase else 0) OR
     (if sc_canary s then canary_modified else 0) OR
     (if sc_tamper s then recovery_tampered else 0)"

definition rw_judge :: "rw_policy \<Rightarrow> rw_observation list \<Rightarrow> rw_verdict" where
  "rw_judge p values =
     (let s = fold (scan_item p) values scan_start;
          score = rw_score p s;
          severity = (if score \<ge> rp_containment_score p then SV_confirmed
                      else if score \<ge> rp_suspicious_score p then SV_suspicious else SV_normal)
      in \<lparr>rv_severity = severity, rv_score = score, rv_reason_mask = rw_mask p s, rv_writes = sc_writes s,
          rv_destructive_operations = sc_destructive s, rv_distinct_objects = of_nat (card (sc_objects s)),
          rv_create_incident = (severity \<noteq> SV_normal),
          rv_contain_process_tree =
            (severity = SV_confirmed \<and> (\<not> sc_trusted s \<or> sc_canary s \<or> sc_tamper s))\<rparr>)"

definition rw_oldest :: "rw_policy \<Rightarrow> u64 \<Rightarrow> u64" where
  "rw_oldest p now_ns = (if now_ns > rp_window_ns p then now_ns - rp_window_ns p else 0)"

definition rw_expired :: "rw_policy \<Rightarrow> u64 \<Rightarrow> rw_observation \<Rightarrow> bool" where
  "rw_expired p now_ns item \<longleftrightarrow> ro_monotonic_ns item < rw_oldest p now_ns \<or> ro_monotonic_ns item > now_ns"

text \<open>\<open>windows_[process_id]\<close> inserts an empty window when there is none.\<close>

definition rw_window :: "u64 \<Rightarrow> rw_detector \<Rightarrow> rw_observation list" where
  "rw_window pid d = (case rd_windows d pid of None \<Rightarrow> [] | Some w \<Rightarrow> w)"

definition rw_observe :: "rw_observation \<Rightarrow> rw_detector \<Rightarrow> rw_verdict \<times> rw_detector" where
  "rw_observe ob d =
     (if ro_process_id ob = 0 \<or> ro_monotonic_ns ob = 0 then (no_verdict, d)
      else
        let values = filter (\<lambda>i. \<not> rw_expired (rd_policy d) (ro_monotonic_ns ob) i) (rw_window (ro_process_id ob) d) @ [ob]
        in (rw_judge (rd_policy d) values, d\<lparr>rd_windows := (rd_windows d)(ro_process_id ob \<mapsto> values)\<rparr>))"

definition rw_reset :: "u64 \<Rightarrow> rw_detector \<Rightarrow> rw_detector" where
  "rw_reset pid d = d\<lparr>rd_windows := (rd_windows d)(pid := None)\<rparr>"

definition rw_step :: "rw_observation \<Rightarrow> rw_detector \<Rightarrow> rw_detector" where
  "rw_step ob d = snd (rw_observe ob d)"

subsection \<open>The pass over a window\<close>

lemma scan_fold:
  "fold (scan_item p) w s =
     \<lparr>sc_trusted = (sc_trusted s \<and> (\<forall>i \<in> set w. ro_trusted_process i)),
      sc_objects = sc_objects s \<union> (ro_object_id ` set w - {0}),
      sc_writes = sc_writes s + of_nat (length (filter rw_is_write w)),
      sc_destructive = sc_destructive s + of_nat (length (filter rw_is_destructive w)),
      sc_canary = (sc_canary s \<or> MU_canary \<in> ro_kind ` set w),
      sc_tamper = (sc_tamper s \<or> MU_recovery_tamper \<in> ro_kind ` set w),
      sc_entropy = (sc_entropy s \<or> (\<exists>i \<in> set w. rw_entropy_jump p i))\<rparr>"
  by (induction w arbitrary: s) (auto simp: scan_item_def)

lemma scan_window:
  "sc_trusted (fold (scan_item p) w scan_start) \<longleftrightarrow> (\<forall>i \<in> set w. ro_trusted_process i)"
  "sc_objects (fold (scan_item p) w scan_start) = ro_object_id ` set w - {0}"
  "sc_writes (fold (scan_item p) w scan_start) = of_nat (length (filter rw_is_write w))"
  "sc_destructive (fold (scan_item p) w scan_start) = of_nat (length (filter rw_is_destructive w))"
  "sc_canary (fold (scan_item p) w scan_start) \<longleftrightarrow> MU_canary \<in> ro_kind ` set w"
  "sc_tamper (fold (scan_item p) w scan_start) \<longleftrightarrow> MU_recovery_tamper \<in> ro_kind ` set w"
  "sc_entropy (fold (scan_item p) w scan_start) \<longleftrightarrow> (\<exists>i \<in> set w. rw_entropy_jump p i)"
  by (simp_all add: scan_fold) (simp_all add: scan_start_def)

lemma rw_repair_bounds:
  "rp_suspicious_score (rw_repair p) \<le> rp_containment_score (rw_repair p)"
  "rp_containment_score (rw_repair p) \<le> 100" "rp_window_ns (rw_repair p) \<noteq> 0"
  by (auto simp: rw_repair_def Let_def not_less)

text \<open>
  The points of a window as a number: what the sum, the two overrides and the cap of the
  code amount to.
\<close>

definition rw_points :: "rw_policy \<Rightarrow> rw_observation list \<Rightarrow> nat" where
  "rw_points p w =
     (if MU_recovery_tamper \<in> ro_kind ` set w then 100
      else min 100 (max (if MU_canary \<in> ro_kind ` set w then 90 else 0)
        ((if unat (rp_write_threshold p) \<le> length (filter rw_is_write w) then 30 else 0) +
         (if unat (rp_destructive_threshold p) \<le> length (filter rw_is_destructive w) then 35 else 0) +
         (if unat (rp_distinct_object_threshold p) \<le> card (ro_object_id ` set w - {0}) then 20 else 0) +
         (if \<exists>i \<in> set w. rw_entropy_jump p i then 25 else 0))))"

lemma of_nat_ge_iff: "n < 2 ^ 32 \<Longrightarrow> (of_nat n \<ge> (t :: u32)) \<longleftrightarrow> unat t \<le> n"
  by (simp add: word_le_nat_alt unat_of_nat)

lemma u32_min: "unat (min (a::u32) b) = min (unat a) (unat b)"
  by (simp add: min_def word_le_nat_alt)

lemma u32_max: "unat (max (a::u32) b) = max (unat a) (unat b)"
  by (simp add: max_def word_le_nat_alt)

lemma rw_points_tamper: "MU_recovery_tamper \<in> ro_kind ` set w \<Longrightarrow> rw_points p w = 100"
  by (simp add: rw_points_def)

text \<open>The arithmetic of the score, over the outcome of its seven tests.\<close>

definition score_of_flags :: "bool \<Rightarrow> bool \<Rightarrow> bool \<Rightarrow> bool \<Rightarrow> bool \<Rightarrow> bool \<Rightarrow> bool \<Rightarrow> u32" where
  "score_of_flags a b c e t cn tm =
     (let score = (if a then 30 else 0) + (if b then 35 else 0) + (if c then 20 else 0) + (if e then 25 else 0);
          score = (if cn then max score 90 else score);
          score = (if tm then 100 else score);
          score = min score 100
      in if t \<and> \<not> cn \<and> \<not> tm then (if score > 25 then score - 25 else 0) else score)"

lemma score_of_flags_value:
  "unat (score_of_flags a b c e t cn tm) =
    (let points = (if tm then 100 else min 100 (max (if cn then 90 else 0)
       ((if a then 30 else 0) + (if b then 35 else 0) + (if c then 20 else 0) + (if e then 25 else 0))))
     in if t \<and> \<not> cn \<and> \<not> tm then points - 25 else (points :: nat))"
  by (cases a; cases b; cases c; cases e; cases t; cases cn; cases tm) (simp_all add: score_of_flags_def max_def min_def)

lemma rw_judge_score:
  assumes "length w < 2 ^ 32"
  defines "plain \<equiv> (\<forall>i \<in> set w. ro_trusted_process i) \<and> MU_canary \<notin> ro_kind ` set w \<and>
    MU_recovery_tamper \<notin> ro_kind ` set w"
  shows "unat (rv_score (rw_judge p w)) = (if plain then rw_points p w - 25 else rw_points p w)"
proof -
  have c: "card (ro_object_id ` set w - {0}) \<le> length w"
    by (rule order_trans [OF card_Diff1_le]) (simp add: order_trans [OF card_image_le card_length])
  have "length (filter rw_is_write w) < 2 ^ 32" "length (filter rw_is_destructive w) < 2 ^ 32"
    "card (ro_object_id ` set w - {0}) < 2 ^ 32"
    using assms(1) c length_filter_le [of rw_is_write w] length_filter_le [of rw_is_destructive w] by linarith+
  note counts = this [THEN of_nat_ge_iff]
  define a b c e where "a = (unat (rp_write_threshold p) \<le> length (filter rw_is_write w))"
    and "b = (unat (rp_destructive_threshold p) \<le> length (filter rw_is_destructive w))"
    and "c = (unat (rp_distinct_object_threshold p) \<le> card (ro_object_id ` set w - {0}))"
    and "e = (\<exists>i \<in> set w. rw_entropy_jump p i)"
  define t cn tm where "t = (\<forall>i \<in> set w. ro_trusted_process i)" and "cn = (MU_canary \<in> ro_kind ` set w)"
    and "tm = (MU_recovery_tamper \<in> ro_kind ` set w)"
  have "rv_score (rw_judge p w) = score_of_flags a b c e t cn tm"
    by (simp only: rw_judge_def Let_def rw_verdict.simps rw_score_def scan_window rw_scan.simps counts
        score_of_flags_def a_def b_def c_def e_def t_def cn_def tm_def)
  moreover have "unat (score_of_flags a b c e t cn tm) =
    (let points = (if tm then 100 else min 100 (max (if cn then 90 else 0)
       ((if a then 30 else 0) + (if b then 35 else 0) + (if c then 20 else 0) + (if e then 25 else 0))))
     in if t \<and> \<not> cn \<and> \<not> tm then points - 25 else points)"
    by (rule score_of_flags_value)
  ultimately show ?thesis
    by (simp only: rw_points_def Let_def plain_def a_def b_def c_def e_def t_def cn_def tm_def)
qed

lemma rw_judge_contains:
  assumes "length w < 2 ^ 32"
  shows "rv_contain_process_tree (rw_judge p w) \<longleftrightarrow>
    unat (rp_containment_score p) \<le> rw_points p w \<and>
    ((\<exists>i \<in> set w. \<not> ro_trusted_process i) \<or> MU_canary \<in> ro_kind ` set w \<or> MU_recovery_tamper \<in> ro_kind ` set w)"
proof -
  have "rv_contain_process_tree (rw_judge p w) \<longleftrightarrow>
    unat (rp_containment_score p) \<le> unat (rv_score (rw_judge p w)) \<and>
    ((\<exists>i \<in> set w. \<not> ro_trusted_process i) \<or> MU_canary \<in> ro_kind ` set w \<or> MU_recovery_tamper \<in> ro_kind ` set w)"
    by (auto simp: rw_judge_def Let_def scan_window word_le_nat_alt)
  then show ?thesis by (auto simp: rw_judge_score [OF assms])
qed

subsection \<open>The window and the history\<close>

lemma rw_oldest_mono: "a \<le> b \<Longrightarrow> rw_oldest p a \<le> rw_oldest p b"
  by (auto simp: rw_oldest_def word_le_nat_alt word_less_nat_alt unat_sub_if')

lemma rw_oldest_le: "rw_oldest p a \<le> a"
  by (auto simp: rw_oldest_def word_le_nat_alt word_less_nat_alt unat_sub_if')

lemma rw_step_policy [simp]: "rd_policy (rw_step ob d) = rd_policy d"
  by (simp add: rw_step_def rw_observe_def Let_def)

lemma rw_run_policy [simp]: "rd_policy (fold rw_step h d) = rd_policy d"
  by (induction h arbitrary: d) simp_all

text \<open>
  The detector after a history \<open>h\<close> that ended at time \<open>t\<close>: beyond the oldest time that
  still counts, the window of a process holds the observations of the history.
\<close>

definition recent :: "u64 \<Rightarrow> u64 \<Rightarrow> rw_observation \<Rightarrow> bool" where
  "recent pid c i \<longleftrightarrow> ro_process_id i = pid \<and> ro_monotonic_ns i \<noteq> 0 \<and> c \<le> ro_monotonic_ns i"

definition window_inv :: "rw_observation list \<Rightarrow> u64 \<Rightarrow> rw_detector \<Rightarrow> bool" where
  "window_inv h t d \<longleftrightarrow>
     (\<forall>pid. pid \<noteq> 0 \<longrightarrow> set (rw_window pid d) \<subseteq> set h \<and>
        (\<forall>c \<ge> rw_oldest (rd_policy d) t. filter (\<lambda>i. c \<le> ro_monotonic_ns i) (rw_window pid d) = filter (recent pid c) h))"

lemma window_kept:
  assumes "window_inv h t d" "t \<le> now_ns" "pid \<noteq> 0" "\<forall>i \<in> set h. ro_monotonic_ns i \<le> now_ns"
  shows "filter (\<lambda>i. \<not> rw_expired (rd_policy d) now_ns i) (rw_window pid d) =
    filter (recent pid (rw_oldest (rd_policy d) now_ns)) h"
proof -
  have "filter (\<lambda>i. \<not> rw_expired (rd_policy d) now_ns i) (rw_window pid d) =
    filter (\<lambda>i. rw_oldest (rd_policy d) now_ns \<le> ro_monotonic_ns i) (rw_window pid d)"
    by (rule filter_cong) (use assms in \<open>auto simp: window_inv_def rw_expired_def not_less\<close>)
  then show ?thesis
    using assms(1,3) rw_oldest_mono [OF assms(2), of "rd_policy d"] by (auto simp: window_inv_def)
qed

lemma window_step:
  assumes inv: "window_inv h t d" and t: "t \<le> ro_monotonic_ns ob" and h: "\<forall>i \<in> set h. ro_monotonic_ns i \<le> ro_monotonic_ns ob"
  shows "window_inv (h @ [ob]) (ro_monotonic_ns ob) (rw_step ob d)"
proof -
  define T where "T = ro_monotonic_ns ob"
  have mono: "rw_oldest (rd_policy d) t \<le> rw_oldest (rd_policy d) T"
    using t unfolding T_def by (rule rw_oldest_mono)
  show ?thesis
  proof (cases "ro_process_id ob = 0 \<or> ro_monotonic_ns ob = 0")
    case True
    then have "rw_step ob d = d" by (auto simp: rw_step_def rw_observe_def)
    moreover have "\<not> recent pid c ob" if "pid \<noteq> 0" for pid c using True that by (auto simp: recent_def)
    ultimately show ?thesis
      using inv mono unfolding T_def by (auto simp: window_inv_def)
  next
    case False
    have vals: "filter (\<lambda>i. \<not> rw_expired (rd_policy d) T i) (rw_window (ro_process_id ob) d) =
        filter (recent (ro_process_id ob) (rw_oldest (rd_policy d) T)) h"
      by (rule window_kept [OF inv]) (use t h False in \<open>auto simp: T_def\<close>)
    have win: "rw_window pid (rw_step ob d) =
        (if pid = ro_process_id ob then filter (recent pid (rw_oldest (rd_policy d) T)) h @ [ob] else rw_window pid d)" for pid
      using False vals by (auto simp: rw_step_def rw_observe_def Let_def rw_window_def T_def)
    have "filter (\<lambda>i. c \<le> ro_monotonic_ns i) (rw_window pid (rw_step ob d)) = filter (recent pid c) (h @ [ob])"
      if "pid \<noteq> 0" "c \<ge> rw_oldest (rd_policy d) T" for pid c
    proof (cases "pid = ro_process_id ob")
      case True
      have "filter (\<lambda>i. c \<le> ro_monotonic_ns i) (filter (recent pid (rw_oldest (rd_policy d) T)) h) = filter (recent pid c) h"
        unfolding filter_filter by (rule filter_cong) (use that in \<open>auto simp: recent_def\<close>)
      then show ?thesis using True False by (simp add: win recent_def)
    next
      case neq: False
      have "c \<ge> rw_oldest (rd_policy d) t" using that(2) mono by simp
      then show ?thesis using inv that(1) neq by (auto simp: window_inv_def win recent_def)
    qed
    moreover have "set (rw_window pid (rw_step ob d)) \<subseteq> set (h @ [ob])" if "pid \<noteq> 0" for pid
      using inv that by (auto simp: window_inv_def win)
    ultimately show ?thesis by (auto simp: window_inv_def T_def)
  qed
qed

lemma window_run:
  "sorted (map ro_monotonic_ns h) \<Longrightarrow> window_inv h (if h = [] then 0 else ro_monotonic_ns (last h)) (fold rw_step h (rw_new p))"
proof (induction h rule: rev_induct)
  case Nil
  then show ?case by (simp add: window_inv_def rw_new_def rw_window_def)
next
  case (snoc ob h)
  have le: "\<forall>i \<in> set h. ro_monotonic_ns i \<le> ro_monotonic_ns ob"
    using snoc.prems by (auto simp: sorted_append)
  have "window_inv h (if h = [] then 0 else ro_monotonic_ns (last h)) (fold rw_step h (rw_new p))"
    using snoc by (simp add: sorted_append)
  from window_step [OF this _ le] show ?case using le by (auto split: if_splits)
qed

text \<open>
  The ransomware detector judges exactly the observations of the process that lie in the
  window before the current one, as long as time does not run backwards. The score is the
  capped sum of the four burst signs, at least 90 with a touched canary and 100 with a touched
  recovery store, less 25 for a window of trusted observations only. The process tree is
  contained exactly when the points reach the threshold and an observation is untrusted or
  a canary or the recovery store was touched; a touched recovery store always suffices,
  whatever the configured policy.
\<close>

theorem ransomware_verdict_exact:
  assumes "sorted (map ro_monotonic_ns (h @ [ob]))" "ro_process_id ob \<noteq> 0" "ro_monotonic_ns ob \<noteq> 0" "length h < 2 ^ 32 - 1"
  shows "let q = rw_repair p;
      w = filter (recent (ro_process_id ob) (rw_oldest q (ro_monotonic_ns ob))) (h @ [ob]);
      v = fst (rw_observe ob (fold rw_step h (rw_new p)));
      touched = (MU_canary \<in> ro_kind ` set w \<or> MU_recovery_tamper \<in> ro_kind ` set w);
      untrusted = (\<exists>i \<in> set w. \<not> ro_trusted_process i)
    in unat (rv_score v) = (if untrusted \<or> touched then rw_points q w else rw_points q w - 25) \<and>
       rv_contain_process_tree v =
         (if MU_recovery_tamper \<in> ro_kind ` set w then True
          else unat (rp_containment_score q) \<le> rw_points q w \<and> (untrusted \<or> touched))"
proof -
  define q where "q = rw_repair p"
  define w where "w = filter (recent (ro_process_id ob) (rw_oldest q (ro_monotonic_ns ob))) (h @ [ob])"
  have pol: "rd_policy (fold rw_step h (rw_new p)) = q" by (simp add: rw_new_def q_def)
  have s: "sorted (map ro_monotonic_ns h)" and le: "\<forall>i \<in> set h. ro_monotonic_ns i \<le> ro_monotonic_ns ob"
    using assms(1) by (auto simp: sorted_append)
  have "recent (ro_process_id ob) (rw_oldest q (ro_monotonic_ns ob)) ob"
    using assms(3) by (simp add: recent_def rw_oldest_le)
  moreover have "(if h = [] then 0 else ro_monotonic_ns (last h)) \<le> ro_monotonic_ns ob" using le by simp
  ultimately have "fst (rw_observe ob (fold rw_step h (rw_new p))) = rw_judge q w"
    using window_kept [OF window_run [OF s, of p] _ assms(2) le] assms(2,3) pol
    by (simp add: rw_observe_def Let_def w_def)
  moreover have len: "length w < 2 ^ 32"
    using assms(4) length_filter_le [of "recent (ro_process_id ob) (rw_oldest q (ro_monotonic_ns ob))" "h @ [ob]"]
    by (simp add: w_def)
  moreover have "unat (rp_containment_score q) \<le> 100"
    using rw_repair_bounds(2) [of p] by (simp add: q_def word_le_nat_alt)
  ultimately show ?thesis
    unfolding q_def [symmetric] w_def [symmetric] Let_def
    by (cases "MU_recovery_tamper \<in> ro_kind ` set w")
      (auto simp: rw_judge_score [OF len] rw_judge_contains [OF len] rw_points_tamper simp del: set_filter)
qed

definition sample_mutation :: "u64 \<Rightarrow> mutation_kind \<Rightarrow> rw_observation" where
  "sample_mutation now_ns k = \<lparr>ro_process_id = 7, ro_parent_process_id = 1, ro_object_id = 5, ro_monotonic_ns = now_ns,
     ro_kind = k, ro_entropy_before_milli = 0, ro_entropy_after_milli = 0, ro_trusted_process = True\<rparr>"

theorem ransomware_verdict_exact_witness:
  "rv_contain_process_tree (fst (rw_observe (sample_mutation 2000 MU_recovery_tamper)
     (fold rw_step [sample_mutation 1000 MU_write] (rw_new default_rw_policy))))"
  using ransomware_verdict_exact [of "[sample_mutation 1000 MU_write]" "sample_mutation 2000 MU_recovery_tamper" default_rw_policy]
  by (simp add: Let_def sample_mutation_def recent_def rw_repair_def default_rw_policy_def rw_oldest_def)

section \<open>worker_supervisor.cpp\<close>

datatype worker_kind = WK_http | WK_dns | WK_json | WK_xml | WK_zip | WK_pe | WK_pdf

datatype worker_event = WE_started | WE_completed | WE_crashed | WE_timed_out

record worker_report =
  wr_kind :: worker_kind
  wr_event :: worker_event
  wr_worker_id :: u64
  wr_monotonic_ns :: u64

record worker_state =
  ws_kind :: worker_kind
  ws_crashes :: u32
  ws_window_start_ns :: u64
  ws_open :: bool

record supervisor =
  su_crash_limit :: u32
  su_window_ns :: u64
  su_states :: "worker_state list"

definition new_supervisor :: "u32 \<Rightarrow> u64 \<Rightarrow> supervisor" where
  "new_supervisor limit window = \<lparr>su_crash_limit = limit, su_window_ns = window, su_states = []\<rparr>"

definition fresh_state :: "worker_kind \<Rightarrow> worker_state" where
  "fresh_state k = \<lparr>ws_kind = k, ws_crashes = 0, ws_window_start_ns = 0, ws_open = False\<rparr>"

text \<open>
  \<open>state_for\<close> hands out a reference that \<open>observe\<close> then updates: the first state of the kind
  is replaced, and a fresh one is appended when there is none.
\<close>

fun state_for :: "worker_kind \<Rightarrow> worker_state list \<Rightarrow> worker_state" where
  "state_for k [] = fresh_state k"
| "state_for k (s # ss) = (if ws_kind s = k then s else state_for k ss)"

fun put_state :: "worker_state \<Rightarrow> worker_state list \<Rightarrow> worker_state list" where
  "put_state s' [] = [s']"
| "put_state s' (s # ss) = (if ws_kind s = ws_kind s' then s' # ss else s # put_state s' ss)"

definition worker_observe_state :: "u32 \<Rightarrow> u64 \<Rightarrow> worker_report \<Rightarrow> worker_state \<Rightarrow> evidence \<times> worker_state" where
  "worker_observe_state limit window r s =
     (if wr_event r = WE_completed
        then (no_evidence, s\<lparr>ws_crashes := 0, ws_open := False, ws_window_start_ns := wr_monotonic_ns r\<rparr>)
      else if wr_event r \<noteq> WE_crashed \<and> wr_event r \<noteq> WE_timed_out then (no_evidence, s)
      else
        let s = (if ws_window_start_ns s = 0 \<or> wr_monotonic_ns r - ws_window_start_ns s > window
                 then s\<lparr>ws_window_start_ns := wr_monotonic_ns r, ws_crashes := 0, ws_open := False\<rparr> else s);
            s = s\<lparr>ws_crashes := ws_crashes s + 1\<rparr>;
            e = add_reason worker_crash (no_evidence\<lparr>ev_sensor_integrity := 60\<rparr>)
        in if ws_crashes s \<ge> limit
           then (add_reason degraded_mode (e\<lparr>ev_hard_rule := 100\<rparr>), s\<lparr>ws_open := True\<rparr>) else (e, s))"

definition worker_observe :: "worker_report \<Rightarrow> supervisor \<Rightarrow> evidence \<times> supervisor" where
  "worker_observe r u =
     (let (e, s) = worker_observe_state (su_crash_limit u) (su_window_ns u) r (state_for (wr_kind r) (su_states u))
      in (e, u\<lparr>su_states := put_state s (su_states u)\<rparr>))"

fun circuit_open :: "worker_kind \<Rightarrow> worker_state list \<Rightarrow> bool" where
  "circuit_open k [] = False"
| "circuit_open k (s # ss) = (if ws_kind s = k then ws_open s else circuit_open k ss)"

definition worker_step :: "worker_report \<Rightarrow> supervisor \<Rightarrow> supervisor" where
  "worker_step r u = snd (worker_observe r u)"

lemma state_for_put [simp]:
  "state_for k (put_state s ss) = (if k = ws_kind s then s else state_for k ss)"
  by (induction ss) auto

lemma ws_kind_state_for [simp]: "ws_kind (state_for k ss) = k"
  by (induction ss) (simp_all add: fresh_state_def)

lemma circuit_open_state: "circuit_open k ss \<longleftrightarrow> ws_open (state_for k ss)"
  by (induction ss) (simp_all add: fresh_state_def)

lemma ws_kind_observe [simp]: "ws_kind (snd (worker_observe_state limit window r s)) = ws_kind s"
  by (simp add: worker_observe_state_def Let_def)

lemma su_limits_step [simp]:
  "su_crash_limit (worker_step r u) = su_crash_limit u" "su_window_ns (worker_step r u) = su_window_ns u"
  by (simp_all add: worker_step_def worker_observe_def Let_def split: prod.splits)

lemma su_limits_run [simp]:
  "su_crash_limit (fold worker_step rs u) = su_crash_limit u" "su_window_ns (fold worker_step rs u) = su_window_ns u"
  by (induction rs arbitrary: u) simp_all

lemma worker_step_state:
  "state_for k (su_states (worker_step r u)) =
     (if wr_kind r = k then snd (worker_observe_state (su_crash_limit u) (su_window_ns u) r (state_for k (su_states u)))
      else state_for k (su_states u))"
proof -
  obtain e s where p: "worker_observe_state (su_crash_limit u) (su_window_ns u) r (state_for (wr_kind r) (su_states u)) = (e, s)"
    by (cases "worker_observe_state (su_crash_limit u) (su_window_ns u) r (state_for (wr_kind r) (su_states u))")
  then have "ws_kind s = wr_kind r"
    using ws_kind_observe [of "su_crash_limit u" "su_window_ns u" r "state_for (wr_kind r) (su_states u)"] by simp
  then show ?thesis using p by (auto simp: worker_step_def worker_observe_def Let_def)
qed

lemma worker_run_filter:
  "state_for k (su_states u) = state_for k (su_states v) \<Longrightarrow> su_crash_limit u = su_crash_limit v \<Longrightarrow>
   su_window_ns u = su_window_ns v \<Longrightarrow>
   state_for k (su_states (fold worker_step rs u)) = state_for k (su_states (fold worker_step (filter (\<lambda>r. wr_kind r = k) rs) v))"
proof (induction rs arbitrary: u v)
  case (Cons r rs)
  show ?case
  proof (cases "wr_kind r = k")
    case True
    then show ?thesis
      using Cons.IH [of "worker_step r u" "worker_step r v"] Cons.prems by (simp add: worker_step_state)
  next
    case False
    then show ?thesis using Cons.IH [of "worker_step r u" v] Cons.prems by (simp add: worker_step_state)
  qed
qed simp

definition worker_failed :: "worker_report \<Rightarrow> bool" where
  "worker_failed r \<longleftrightarrow> wr_event r = WE_crashed \<or> wr_event r = WE_timed_out"

text \<open>The reports since the last completion or window start, as the breaker counts them.\<close>

definition counted_since :: "u64 \<Rightarrow> u64 \<Rightarrow> worker_report list \<Rightarrow> worker_report list \<Rightarrow> bool" where
  "counted_since window start mine seg \<longleftrightarrow> suffix seg mine \<and> WE_completed \<notin> wr_event ` set seg \<and>
     wr_monotonic_ns ` set (filter worker_failed seg) \<subseteq> {t. t - start \<le> window}"

definition breaker_inv :: "u32 \<Rightarrow> u64 \<Rightarrow> worker_report list \<Rightarrow> worker_state \<Rightarrow> bool" where
  "breaker_inv limit window mine s \<longleftrightarrow>
     (\<exists>seg. counted_since window (ws_window_start_ns s) mine seg \<and> unat (ws_crashes s) \<le> length (filter worker_failed seg) \<and>
        (ws_open s \<longrightarrow> unat limit \<le> length (filter worker_failed seg)))"

lemma counted_empty: "counted_since window start mine []"
  by (simp add: counted_since_def)

lemma counted_snoc:
  "counted_since window start mine seg \<Longrightarrow> wr_event r \<noteq> WE_completed \<Longrightarrow>
     (worker_failed r \<Longrightarrow> wr_monotonic_ns r - start \<le> window) \<Longrightarrow> counted_since window start (mine @ [r]) (seg @ [r])"
  by (auto simp: counted_since_def)

lemma unat_Suc_le: "unat (x::u32) \<le> n \<Longrightarrow> unat (x + 1) \<le> Suc n"
  by (simp add: unat_word_ariths)

lemma breaker_step:
  assumes "breaker_inv limit window mine s"
  shows "breaker_inv limit window (mine @ [r]) (snd (worker_observe_state limit window r s))"
proof (cases "worker_failed r")
  case False
  obtain seg where "counted_since window (ws_window_start_ns s) mine seg" "unat (ws_crashes s) \<le> length (filter worker_failed seg)"
    "ws_open s \<longrightarrow> unat limit \<le> length (filter worker_failed seg)"
    using assms by (auto simp: breaker_inv_def)
  note seg = this
  show ?thesis
  proof (cases "wr_event r = WE_completed")
    case True
    then show ?thesis
      using counted_empty by (auto simp: breaker_inv_def worker_observe_state_def intro!: exI [of _ "[]"])
  next
    case completed: False
    then have "snd (worker_observe_state limit window r s) = s"
      using False by (simp add: worker_observe_state_def worker_failed_def)
    moreover have "counted_since window (ws_window_start_ns s) (mine @ [r]) (seg @ [r])"
      using counted_snoc [OF seg(1) completed] False by blast
    ultimately show ?thesis using seg False by (auto simp: breaker_inv_def intro!: exI [of _ "seg @ [r]"])
  qed
next
  case True
  define s' where "s' = (if ws_window_start_ns s = 0 \<or> wr_monotonic_ns r - ws_window_start_ns s > window
    then s\<lparr>ws_window_start_ns := wr_monotonic_ns r, ws_crashes := 0, ws_open := False\<rparr> else s)"
  have "\<exists>seg. counted_since window (ws_window_start_ns s') mine seg \<and> unat (ws_crashes s') \<le> length (filter worker_failed seg) \<and>
      (ws_open s' \<longrightarrow> unat limit \<le> length (filter worker_failed seg))"
    using assms counted_empty by (auto simp: s'_def breaker_inv_def)
  then obtain seg where seg: "counted_since window (ws_window_start_ns s') mine seg"
    "unat (ws_crashes s') \<le> length (filter worker_failed seg)" "ws_open s' \<longrightarrow> unat limit \<le> length (filter worker_failed seg)"
    by blast
  have st: "snd (worker_observe_state limit window r s) =
      (if ws_crashes s' + 1 \<ge> limit then s'\<lparr>ws_crashes := ws_crashes s' + 1, ws_open := True\<rparr> else s'\<lparr>ws_crashes := ws_crashes s' + 1\<rparr>)"
    using True by (auto simp: worker_observe_state_def worker_failed_def Let_def s'_def)
  have "wr_monotonic_ns r - ws_window_start_ns s' \<le> window" by (auto simp: s'_def not_less)
  moreover have "wr_event r \<noteq> WE_completed" using True by (auto simp: worker_failed_def)
  ultimately have "counted_since window (ws_window_start_ns s') (mine @ [r]) (seg @ [r])"
    using counted_snoc [OF seg(1)] by blast
  moreover have "length (filter worker_failed (seg @ [r])) = Suc (length (filter worker_failed seg))" using True by simp
  moreover have "unat (ws_crashes s' + 1) \<le> Suc (length (filter worker_failed seg))" by (rule unat_Suc_le [OF seg(2)])
  moreover have "ws_crashes s' + 1 \<ge> limit \<Longrightarrow> unat limit \<le> unat (ws_crashes s' + 1)" by (simp add: word_le_nat_alt)
  ultimately show ?thesis
    unfolding breaker_inv_def st using seg(3) by (intro exI [of _ "seg @ [r]"]) auto
qed

lemma breaker_run:
  "breaker_inv limit window mine (state_for k (su_states (fold worker_step mine (new_supervisor limit window))))"
  if "set mine \<subseteq> {r. wr_kind r = k}"
  using that
proof (induction mine rule: rev_induct)
  case Nil
  show ?case by (auto simp: breaker_inv_def new_supervisor_def fresh_state_def intro: counted_empty)
next
  case (snoc r mine)
  then show ?case using breaker_step by (simp add: worker_step_state new_supervisor_def)
qed

text \<open>
  The circuit breakers of the worker kinds are independent, and none opens without cause.
  After any reports in any order, the circuit of a kind is what the reports of this kind
  alone make it; and if it is open, then since the last completed job of this kind at least
  the configured number of crashes or timeouts happened, all within one window.
\<close>

theorem supervisor_circuit:
  "let u = fold worker_step rs (new_supervisor limit window); mine = filter (\<lambda>r. wr_kind r = k) rs in
   circuit_open k (su_states u) = circuit_open k (su_states (fold worker_step mine (new_supervisor limit window))) \<and>
   (if circuit_open k (su_states u)
    then \<exists>seg start. suffix seg mine \<and> WE_completed \<notin> wr_event ` set seg \<and>
      unat limit \<le> length (filter worker_failed seg) \<and>
      wr_monotonic_ns ` set (filter worker_failed seg) \<subseteq> {t. t - start \<le> window}
    else True)"
proof -
  define mine where "mine = filter (\<lambda>r. wr_kind r = k) rs"
  have same: "state_for k (su_states (fold worker_step rs (new_supervisor limit window))) =
      state_for k (su_states (fold worker_step mine (new_supervisor limit window)))"
    unfolding mine_def by (rule worker_run_filter) simp_all
  have "breaker_inv limit window mine (state_for k (su_states (fold worker_step mine (new_supervisor limit window))))"
    by (rule breaker_run) (auto simp: mine_def)
  then show ?thesis
    unfolding Let_def circuit_open_state mine_def [symmetric] same
    by (auto simp: breaker_inv_def counted_since_def)
qed

text \<open>A failure reports a hard rule exactly when it leaves the circuit open by its own count.\<close>

lemma worker_evidence:
  "ev_hard_rule (fst (worker_observe_state limit window r s)) =
     (if worker_failed r \<and> ws_crashes (snd (worker_observe_state limit window r s)) \<ge> limit then 100 else 0)"
  by (auto simp: worker_observe_state_def worker_failed_def Let_def)

interpretation worker_detector: evidence_source "\<lambda>(r, u). fst (worker_observe r u)"
  by unfold_locales (auto simp: worker_observe_def worker_observe_state_def Let_def evidence_bounds split: prod.splits if_splits)

section \<open>campaign.cpp\<close>

record campaign_observation =
  co_source_id :: u64
  co_target_service_id :: u64
  co_normalized_payload_hash :: digest
  co_response_class :: u16
  co_mutation_distance :: u16
  co_follows_previous_response :: bool

definition no_observation :: campaign_observation where
  "no_observation = \<lparr>co_source_id = 0, co_target_service_id = 0, co_normalized_payload_hash = zero_digest,
     co_response_class = 0, co_mutation_distance = 0, co_follows_previous_response = False\<rparr>"

record campaign_tracker =
  ct_ring :: "campaign_observation list"
  ct_count :: u32
  ct_cursor :: u32

definition new_tracker :: campaign_tracker where
  "new_tracker = \<lparr>ct_ring = replicate 16 no_observation, ct_count = 0, ct_cursor = 0\<rparr>"

definition same_target :: "campaign_observation \<Rightarrow> campaign_observation \<Rightarrow> bool" where
  "same_target ob previous \<longleftrightarrow> co_target_service_id previous = co_target_service_id ob"

definition other_source :: "campaign_observation \<Rightarrow> campaign_observation \<Rightarrow> bool" where
  "other_source ob previous \<longleftrightarrow> same_target ob previous \<and> co_source_id previous \<noteq> co_source_id ob"

definition adapted_from :: "campaign_observation \<Rightarrow> campaign_observation \<Rightarrow> bool" where
  "adapted_from ob previous \<longleftrightarrow> same_target ob previous \<and> co_follows_previous_response ob \<and>
     co_response_class previous = co_response_class ob \<and> co_mutation_distance ob > co_mutation_distance previous"

definition campaign_evidence :: "campaign_observation \<Rightarrow> campaign_observation list \<Rightarrow> evidence" where
  "campaign_evidence ob seen =
     (let same_target_count = (of_nat (length (filter (same_target ob) seen)) :: u32);
          source_spread = (of_nat (length (filter (other_source ob) seen)) :: u32);
          response_adaptive = list_ex (adapted_from ob) seen;
          e = no_evidence;
          e = (if same_target_count \<ge> 3 \<and> source_spread \<ge> 2
               then add_reason campaign_correlation (e\<lparr>ev_campaign := 80\<rparr>) else e)
      in if response_adaptive \<or> co_mutation_distance ob > 50
         then add_reason adaptive_mutation (e\<lparr>ev_adaptivity := 80\<rparr>) else e)"

definition campaign_observe :: "campaign_observation \<Rightarrow> campaign_tracker \<Rightarrow> evidence \<times> campaign_tracker" where
  "campaign_observe ob t =
     (campaign_evidence ob (take (min (unat (ct_count t)) (length (ct_ring t))) (ct_ring t)),
      t\<lparr>ct_ring := (ct_ring t)[unat (ct_cursor t) := ob],
        ct_cursor := (ct_cursor t + 1) mod of_nat (length (ct_ring t)),
        ct_count := (if ct_count t < of_nat (length (ct_ring t)) then ct_count t + 1 else ct_count t)\<rparr>)"

definition campaign_step :: "campaign_observation \<Rightarrow> campaign_tracker \<Rightarrow> campaign_tracker" where
  "campaign_step ob t = snd (campaign_observe ob t)"

text \<open>The ring against the history: the entry of the \<open>j\<close>th call is at \<open>j mod 16\<close>.\<close>

definition ring_holds :: "campaign_observation list \<Rightarrow> campaign_tracker \<Rightarrow> bool" where
  "ring_holds h t \<longleftrightarrow> length (ct_ring t) = 16 \<and> unat (ct_cursor t) = length h mod 16 \<and>
     unat (ct_count t) = min (length h) 16 \<and>
     (\<forall>j. length h - 16 \<le> j \<and> j < length h \<longrightarrow> ct_ring t ! (j mod 16) = h ! j)"

lemma mod_16_near:
  assumes "n - 15 \<le> j" "j < (n::nat)"
  shows "j mod 16 \<noteq> n mod 16"
proof
  assume "j mod 16 = n mod 16"
  then have "16 dvd n - j" using assms(2) mod_eq_dvd_iff_nat [of j n 16] by simp
  moreover have "0 < n - j" "n - j < 16" using assms by simp_all
  ultimately show False using dvd_imp_le [of 16 "n - j"] by simp
qed

lemma ring_holds_step:
  assumes "ring_holds h t"
  shows "ring_holds (h @ [ob]) (campaign_step ob t)"
proof -
  have t: "length (ct_ring t) = 16" "unat (ct_cursor t) = length h mod 16" "unat (ct_count t) = min (length h) 16"
    and r: "\<And>j. length h - 16 \<le> j \<Longrightarrow> j < length h \<Longrightarrow> ct_ring t ! (j mod 16) = h ! j"
    using assms by (auto simp: ring_holds_def)
  have "unat (ct_cursor t) < 16" using t(2) by simp
  then have "unat (ct_cursor t + 1) = unat (ct_cursor t) + 1" by (simp add: unat_word_ariths)
  then have cur: "unat ((ct_cursor t + 1) mod 16) = Suc (length h) mod 16"
    using t(2) by (simp add: unat_mod_distrib mod_Suc_eq)
  have cnt: "unat (if ct_count t < 16 then ct_count t + 1 else ct_count t) = min (Suc (length h)) 16"
    using t(3) by (auto simp: word_less_nat_alt unat_word_ariths)
  have "((ct_ring t)[length h mod 16 := ob]) ! (j mod 16) = (h @ [ob]) ! j"
    if "length h - 15 \<le> j" "j < Suc (length h)" for j
  proof (cases "j = length h")
    case False
    then have "j mod 16 \<noteq> length h mod 16"
      using that mod_16_near [of "length h" j] by simp
    then show ?thesis using r [of j] that False by (simp add: nth_append)
  qed (simp add: t(1))
  then show ?thesis
    using t cur cnt by (simp add: ring_holds_def campaign_step_def campaign_observe_def)
qed

lemma ring_holds_run: "ring_holds h (fold campaign_step h new_tracker)"
proof (induction h rule: rev_induct)
  case Nil
  show ?case by (simp add: ring_holds_def new_tracker_def)
next
  case (snoc ob h)
  then show ?case by (simp add: ring_holds_step)
qed

lemma length_filter_rotate: "length (filter P (rotate n xs)) = length (filter P xs)"
proof -
  let ?k = "n mod length xs"
  have "length (filter P xs) = length (filter P (take ?k xs @ drop ?k xs))" by simp
  then show ?thesis by (simp only: rotate_drop_take filter_append length_append)
qed

text \<open>Only counts and occurrences matter to the evidence, so a rotated ring serves as well.\<close>

lemma campaign_evidence_rotate: "campaign_evidence ob (rotate n xs) = campaign_evidence ob xs"
  by (simp add: campaign_evidence_def length_filter_rotate list_ex_iff)

lemma ring_content:
  assumes "ring_holds h t"
  shows "\<exists>n. drop (length h - 16) h = rotate n (take (min (unat (ct_count t)) (length (ct_ring t))) (ct_ring t))"
proof (cases "length h < 16")
  case True
  have "take (length h) (ct_ring t) = h"
  proof (rule nth_equalityI)
    fix i assume "i < length (take (length h) (ct_ring t))"
    then have "i < length h" by simp
    then show "take (length h) (ct_ring t) ! i = h ! i"
      using assms True by (auto simp: ring_holds_def dest!: spec [of _ i])
  qed (use assms True in \<open>simp add: ring_holds_def\<close>)
  then show ?thesis using assms True by (auto simp: ring_holds_def intro!: exI [of _ 0])
next
  case False
  have "drop (length h - 16) h = rotate (length h - 16) (ct_ring t)"
  proof (rule nth_equalityI)
    fix i assume "i < length (drop (length h - 16) h)"
    then have i: "i < 16" using False by simp
    moreover have "ct_ring t ! ((length h - 16 + i) mod 16) = h ! (length h - 16 + i)"
    proof -
      have "\<forall>j. length h - 16 \<le> j \<and> j < length h \<longrightarrow> ct_ring t ! (j mod 16) = h ! j"
        using assms by (simp add: ring_holds_def)
      from spec [OF this, of "length h - 16 + i"] show ?thesis using i False by auto
    qed
    ultimately show "drop (length h - 16) h ! i = rotate (length h - 16) (ct_ring t) ! i"
      using assms False i by (simp add: ring_holds_def nth_rotate)
  qed (use assms False in \<open>simp add: ring_holds_def\<close>)
  then show ?thesis using assms False by (auto simp: ring_holds_def)
qed

text \<open>
  The campaign tracker sees exactly the last sixteen observations. After any history, a
  campaign is reported exactly when at least three of them hit the same service, two of them
  from other sources; and adaptivity exactly when the payload mutated by more than 50, or
  follows a response of a class that one of them met with a smaller mutation.
\<close>

theorem campaign_last_sixteen:
  "let seen = drop (length h - 16) h; e = fst (campaign_observe ob (fold campaign_step h new_tracker)) in
   (ev_campaign e = 80 \<longleftrightarrow> 3 \<le> length (filter (same_target ob) seen) \<and> 2 \<le> length (filter (other_source ob) seen)) \<and>
   (ev_adaptivity e = 80 \<longleftrightarrow> 50 < unat (co_mutation_distance ob) \<or> (\<exists>previous \<in> set seen. adapted_from ob previous)) \<and>
   ev_campaign e \<in> {0, 80} \<and> ev_adaptivity e \<in> {0, 80} \<and>
   ev_reason_mask e = (if ev_campaign e = 80 then campaign_correlation else 0) OR
                      (if ev_adaptivity e = 80 then adaptive_mutation else 0)"
proof -
  define seen where "seen = drop (length h - 16) h"
  define t where "t = fold campaign_step h new_tracker"
  obtain n where n: "seen = rotate n (take (min (unat (ct_count t)) (length (ct_ring t))) (ct_ring t))"
    using ring_content [OF ring_holds_run [of h]] unfolding seen_def t_def by blast
  have e: "fst (campaign_observe ob t) = campaign_evidence ob seen"
    by (simp add: campaign_observe_def n campaign_evidence_rotate)
  have le: "length (filter P seen) \<le> 16" for P
    by (rule order_trans [OF length_filter_le]) (simp add: seen_def)
  have cnt: "(of_nat (length (filter P seen)) :: u32) \<ge> m \<longleftrightarrow> unat m \<le> length (filter P seen)" for P m
    by (rule of_nat_ge_iff) (use le [of P] in simp)
  have dist: "co_mutation_distance ob > 50 \<longleftrightarrow> 50 < unat (co_mutation_distance ob)" by (simp add: word_less_nat_alt)
  show ?thesis
    unfolding seen_def [symmetric] t_def [symmetric] Let_def e
    by (cases "3 \<le> length (filter (same_target ob) seen) \<and> 2 \<le> length (filter (other_source ob) seen)";
        cases "50 < unat (co_mutation_distance ob) \<or> (\<exists>previous \<in> set seen. adapted_from ob previous)")
      (auto simp: campaign_evidence_def cnt dist list_ex_iff Let_def)
qed

interpretation campaign_detector: evidence_source "\<lambda>(ob, t). fst (campaign_observe ob t)"
  by unfold_locales (auto simp: campaign_observe_def campaign_evidence_def evidence_bounds)

section \<open>sequence_model.cpp\<close>

record ngram =
  ng_tokens :: "u32 list"
  ng_count :: u32

record ngram_model =
  nm_order :: u32
  nm_grams :: "ngram list"

definition new_model :: "u32 \<Rightarrow> ngram_model" where
  "new_model order' = \<lparr>nm_order = order', nm_grams = []\<rparr>"

definition find_gram :: "u32 list \<Rightarrow> ngram list \<Rightarrow> ngram option" where
  "find_gram gram gs = find (\<lambda>g. ng_tokens g = gram) gs"

text \<open>The windows \<open>tokens.subspan(i, order_)\<close> of the loops, and one turn of \<open>learn\<close>.\<close>

definition windows_of :: "nat \<Rightarrow> u32 list \<Rightarrow> u32 list list" where
  "windows_of n tokens = map (\<lambda>i. take n (drop i tokens)) [0..<Suc (length tokens - n)]"

fun learn_gram :: "u32 list \<Rightarrow> ngram list \<Rightarrow> ngram list" where
  "learn_gram gram [] = [\<lparr>ng_tokens = gram, ng_count = 1\<rparr>]"
| "learn_gram gram (g # gs) =
     (if ng_tokens g = gram then g\<lparr>ng_count := ng_count g + 1\<rparr> # gs else g # learn_gram gram gs)"

definition learn :: "u32 list \<Rightarrow> ngram_model \<Rightarrow> unit result \<times> ngram_model" where
  "learn tokens m =
     (if nm_order m = 0 \<or> length tokens < unat (nm_order m) then (Inl St_invalid_argument, m)
      else (ok_unit, m\<lparr>nm_grams := fold learn_gram (windows_of (unat (nm_order m)) tokens) (nm_grams m)\<rparr>))"

definition sequence_score :: "u32 list \<Rightarrow> ngram_model \<Rightarrow> evidence" where
  "sequence_score tokens m =
     (if nm_order m = 0 \<or> length tokens < unat (nm_order m) then no_evidence\<lparr>ev_novelty := 50\<rparr>
      else
        let ws = windows_of (unat (nm_order m)) tokens;
            unknown = (of_nat (length (filter (\<lambda>g. find_gram g (nm_grams m) = None) ws)) :: u32);
            total = (of_nat (length ws) :: u32)
        in no_evidence\<lparr>ev_novelty := (if total = 0 then 50 else clipped_score (unknown * 100 div total))\<rparr>)"

lemma set_windows:
  assumes "n \<le> length tokens"
  shows "set (windows_of n tokens) = {g. length g = n \<and> sublist g tokens}"
proof (intro equalityI subsetI)
  fix g assume "g \<in> set (windows_of n tokens)"
  then obtain i where "i \<le> length tokens - n" "g = take n (drop i tokens)"
    by (auto simp: windows_of_def less_Suc_eq_le simp del: upt_Suc)
  then show "g \<in> {g. length g = n \<and> sublist g tokens}"
    using assms by (auto intro: sublist_order.order.trans [OF sublist_take sublist_drop])
next
  fix g assume "g \<in> {g. length g = n \<and> sublist g tokens}"
  then obtain ps ss where g: "length g = n" "tokens = ps @ g @ ss" by (auto simp: sublist_def)
  then have "g = take n (drop (length ps) tokens)" "length ps \<le> length tokens - n" by auto
  then show "g \<in> set (windows_of n tokens)" by (auto simp: windows_of_def less_Suc_eq_le simp del: upt_Suc)
qed

lemma learn_gram_tokens: "set (map ng_tokens (learn_gram gram gs)) = insert gram (set (map ng_tokens gs))"
  by (induction gs) auto

lemma learn_grams_tokens: "set (map ng_tokens (fold learn_gram ws gs)) = set ws \<union> set (map ng_tokens gs)"
  by (induction ws arbitrary: gs) (use learn_gram_tokens in \<open>auto simp del: set_map\<close>)

lemma find_gram_None: "find_gram gram gs = None \<longleftrightarrow> gram \<notin> set (map ng_tokens gs)"
  by (auto simp: find_gram_def find_None_iff)

lemma learned_tokens:
  "nm_order (fold (\<lambda>t m. snd (learn t m)) corpus m) = nm_order m \<and>
   set (map ng_tokens (nm_grams (fold (\<lambda>t m. snd (learn t m)) corpus m))) =
     set (map ng_tokens (nm_grams m)) \<union>
     {g. nm_order m \<noteq> 0 \<and> length g = unat (nm_order m) \<and> (\<exists>t \<in> set corpus. sublist g t)}"
proof (induction corpus arbitrary: m)
  case (Cons t corpus)
  have one: "nm_order (snd (learn t m)) = nm_order m"
    "set (map ng_tokens (nm_grams (snd (learn t m)))) =
       set (map ng_tokens (nm_grams m)) \<union> {g. nm_order m \<noteq> 0 \<and> length g = unat (nm_order m) \<and> sublist g t}"
    using set_windows [of "unat (nm_order m)" t] learn_grams_tokens [of "windows_of (unat (nm_order m)) t" "nm_grams m"]
    by (auto simp: learn_def dest: sublist_length_le simp del: set_map)
  show ?case using Cons.IH [of "snd (learn t m)"] one by auto
qed simp

text \<open>
  The novelty of a token sequence is the percentage of its n-grams that occur in none of
  the sequences learned before, rounded down (for sequences below 42949673 tokens, where the
  product in the percentage does not wrap), and 50 for a sequence that is shorter than an
  n-gram or a model of order zero; so a sequence that was learned, and every part of it that
  is long enough, scores zero.
\<close>

theorem sequence_novelty_exact:
  assumes "length tokens < 42949673"
  shows "let n = unat order'; m = fold (\<lambda>t m. snd (learn t m)) corpus (new_model order');
      ws = map (\<lambda>i. take n (drop i tokens)) [0..<Suc (length tokens - n)];
      new = filter (\<lambda>g. \<not> (\<exists>t \<in> set corpus. sublist g t)) ws
    in unat (ev_novelty (sequence_score tokens m)) =
       (if n = 0 \<or> length tokens < n then 50 else 100 * length new div length ws)"
proof -
  define n where "n = unat order'"
  define m where "m = fold (\<lambda>t m. snd (learn t m)) corpus (new_model order')"
  define ws where "ws = windows_of n tokens"
  have m: "nm_order m = order'"
    "set (map ng_tokens (nm_grams m)) = {g. order' \<noteq> 0 \<and> length g = n \<and> (\<exists>t \<in> set corpus. sublist g t)}"
    using learned_tokens [of corpus "new_model order'"] by (auto simp: m_def n_def new_model_def)
  show ?thesis
  proof (cases "n = 0 \<or> length tokens < n")
    case True
    then show ?thesis
      unfolding Let_def n_def [symmetric] m_def [symmetric] using m(1)
      by (auto simp: sequence_score_def n_def unat_eq_0)
  next
    case False
    then have o0: "order' \<noteq> 0" by (auto simp: n_def)
    define new where "new = filter (\<lambda>g. \<not> (\<exists>t \<in> set corpus. sublist g t)) ws"
    have "length g = n" if "g \<in> set ws" for g using set_windows [of n tokens] False that by (simp add: ws_def)
    then have new': "filter (\<lambda>g. find_gram g (nm_grams m) = None) ws = new"
      unfolding new_def find_gram_None m(2) by (intro filter_cong) (auto simp: o0)
    have len: "length ws = Suc (length tokens - n)" by (simp add: ws_def windows_of_def)
    have le: "length new \<le> length ws" by (simp add: new_def)
    have lt: "length ws < 42949673" using len False assms by linarith
    then have "unat ((of_nat (length new) * 100 :: u32) div of_nat (length ws)) = length new * 100 div length ws"
      using le by (simp add: unat_div unat_word_ariths unat_of_nat)
    moreover have "length new * 100 div length ws \<le> 100"
    proof -
      have "length new * 100 div length ws \<le> length ws * 100 div length ws" using le by (intro div_le_mono) simp
      also have "\<dots> = 100" by (rule nonzero_mult_div_cancel_left) (simp add: len)
      finally show ?thesis .
    qed
    moreover have "(of_nat (length ws) :: u32) \<noteq> 0"
    proof -
      have "unat (of_nat (length ws) :: u32) = length ws" using lt by (simp add: unat_of_nat)
      then show ?thesis using len by (metis Zero_not_Suc unat_0)
    qed
    ultimately have "unat (ev_novelty (sequence_score tokens m)) = 100 * length new div length ws"
      using False o0 m(1) new' by (simp add: sequence_score_def n_def ws_def Let_def clipped_score_value mult.commute)
    then show ?thesis
      unfolding Let_def n_def [symmetric] m_def [symmetric] using False
      by (simp add: new_def ws_def windows_of_def del: upt_Suc)
  qed
qed

theorem sequence_novelty_exact_witness:
  "unat (ev_novelty (sequence_score [1, 2, 9] (fold (\<lambda>t m. snd (learn t m)) [[1, 2, 3]] (new_model 2)))) = 50"
proof -
  have w: "[0..<Suc (Suc 0)] = [0, 1]" by (simp add: upt_rec)
  have s: "sublist [1, 2] [1, 2, 3 :: u32]" "\<not> sublist [2, 9] [1, 2, 3 :: u32]" by (simp_all add: sublist_Cons_right)
  show ?thesis
    using sequence_novelty_exact [of "[1, 2, 9]" 2 "[[1, 2, 3]]"] w s by (simp add: Let_def numeral_2_eq_2 [symmetric] del: upt_Suc)
qed

end
