(* ===== verification/AIS_Trace.thy ===== *)
theory AIS_Trace
  imports AIS_Evidence
begin

text \<open>
  What AI Shield records about files, payloads and causes: the similarity hash and the bit
  distance of \<open>src/mutation_detector.cpp\<close>, the payload export of \<open>src/privacy.cpp\<close>, the byte
  statistics of \<open>src/features.cpp\<close>, the causal graph of \<open>src/causal_graph.cpp\<close>, the
  provenance store of \<open>src/provenance.cpp\<close> and the version catalog of
  \<open>src/recovery_vault.cpp\<close>. Loops of the code that could run forever on their face (the bit
  count, the walk to the root of a graph that may have cycles) are functions with a
  termination proof, so that returning is part of what is proved.
\<close>

section \<open>mutation_detector.cpp\<close>

definition simhash_byte :: "u8 \<Rightarrow> u64 \<times> int list \<Rightarrow> u64 \<times> int list" where
  "simhash_byte b s =
     (let (rolling, weights) = s;
          rolling = (rolling XOR ucast b) * 1099511628211
      in (rolling, map (\<lambda>i. weights ! i + (if drop_bit i rolling AND 1 \<noteq> 0 then 1 else -1)) [0..<64]))"

definition simhash64 :: "bytes \<Rightarrow> u64" where
  "simhash64 payload =
     (let (_, weights) = fold simhash_byte payload (1469598103934665603, replicate 64 0)
      in fold (\<lambda>i result. if weights ! i > 0 then result OR push_bit i 1 else result) [0..<64] 0)"

lemma and_minus_one_less: "v \<noteq> 0 \<Longrightarrow> unat (v AND (v - 1)) < unat (v :: u64)"
proof -
  assume "v \<noteq> 0"
  then have "unat (v - 1) < unat v" by (simp add: unat_minus_one unat_gt_0)
  moreover have "unat (v AND (v - 1)) \<le> unat (v - 1)"
    by (metis word_and_le1 word_le_nat_alt)
  ultimately show ?thesis by simp
qed

function clear_lowest :: "u64 \<Rightarrow> u32 \<Rightarrow> u32" where
  "clear_lowest v count = (if v = 0 then count else clear_lowest (v AND (v - 1)) (count + 1))"
  by auto
termination by (relation "measure (\<lambda>(v, _). unat v)") (simp_all add: and_minus_one_less)

declare clear_lowest.simps [simp del]

definition hamming_distance :: "u64 \<Rightarrow> u64 \<Rightarrow> u32" where
  "hamming_distance a b = clear_lowest (a XOR b) 0"

definition compare_payloads :: "bytes \<Rightarrow> bytes \<Rightarrow> evidence" where
  "compare_payloads previous current =
     (let distance = hamming_distance (simhash64 previous) (simhash64 current) in
      if distance \<ge> 8 \<and> distance \<le> 32
        then add_reason adaptive_mutation (no_evidence\<lparr>ev_adaptivity := clipped_score (distance * 3)\<rparr>)
      else if distance > 32 then no_evidence\<lparr>ev_novelty := clipped_score (distance * 2)\<rparr>
      else no_evidence)"

text \<open>The number of one bits of a natural number, and how clearing the lowest one lowers it.\<close>

fun ones :: "nat \<Rightarrow> nat" where
  "ones n = (if n = 0 then 0 else n mod 2 + ones (n div 2))"

declare ones.simps [simp del]

lemma ones_double [simp]: "ones (2 * n) = ones n"
  by (cases "n = 0") (simp_all add: ones.simps [of "2 * n"] ones.simps [of 0])

lemma ones_Suc_double [simp]: "ones (Suc (2 * n)) = Suc (ones n)"
  by (simp add: ones.simps [of "Suc (2 * n)"])

lemma ones_clear_lowest: "n \<noteq> 0 \<Longrightarrow> Suc (ones (n AND (n - 1))) = ones n"
proof (induction n rule: less_induct)
  case (less n)
  show ?case
  proof (cases "even n")
    case True
    then obtain m where m: "n = 2 * m" "m \<noteq> 0" using less.prems by auto
    have "n - 1 = Suc (2 * (m - 1))" using m by simp
    then have "n AND (n - 1) = 2 * (m AND (m - 1))" using m by (simp add: and_nat_rec [of "2 * m"])
    then show ?thesis using less.IH [of m] m by simp
  next
    case False
    then obtain m where m: "n = Suc (2 * m)" by (auto elim: oddE)
    then have "n AND (n - 1) = 2 * m" by (simp add: and_nat_rec [of "Suc (2 * m)"])
    then show ?thesis using m by simp
  qed
qed

lemma finite_ones: "finite {i. bit (n::nat) i}"
proof (rule finite_subset)
  show "{i. bit n i} \<subseteq> {..<n}"
  proof
    fix i assume "i \<in> {i. bit n i}"
    then have "n div 2 ^ i \<noteq> 0" by (auto simp: bit_iff_odd intro: Nat.gr0I)
    then have "\<not> n < 2 ^ i" by auto
    then show "i \<in> {..<n}" using less_exp [of i] by (simp del: less_exp)
  qed
qed simp

lemma ones_card: "ones n = card {i. bit n i}"
proof (induction n rule: ones.induct)
  case (1 n)
  show ?case
  proof (cases "n = 0")
    case False
    have "{i. bit n i} = (if odd n then {0} else {}) \<union> Suc ` {i. bit (n div 2) i}"
      by (auto simp: bit_0 image_iff) (metis bit_0 bit_Suc not0_implies_Suc)+
    moreover have "finite {i. bit (n div 2) i}" by (rule finite_ones)
    ultimately have "card {i. bit n i} = n mod 2 + card {i. bit (n div 2) i}"
      by (auto simp: card_image odd_iff_mod_2_eq_one)
    then show ?thesis using 1 False ones.simps [of n] by simp
  qed (simp add: ones.simps)
qed

lemma ones_unat: "ones (unat v) = card {i. i < 64 \<and> bit (v::u64) i}"
proof -
  have "{i. bit (unat v) i} = {i. i < 64 \<and> bit v i}" by (auto simp: bit_unsigned_iff dest: bit_imp_le_length)
  then show ?thesis by (simp add: ones_card)
qed

lemma ones_unat_le: "ones (unat (v::u64)) \<le> 64"
proof -
  have "card {i. i < 64 \<and> bit v i} \<le> card {..<64 :: nat}" by (rule card_mono) auto
  then show ?thesis by (simp add: ones_unat)
qed

lemma clear_lowest_ones:
  "unat count + ones (unat v) < 2 ^ 32 \<Longrightarrow> unat (clear_lowest v count) = unat count + ones (unat v)"
proof (induction v count rule: clear_lowest.induct)
  case (1 v count)
  show ?case
  proof (cases "v = 0")
    case True
    then show ?thesis by (simp add: clear_lowest.simps [of 0] ones.simps)
  next
    case False
    have "unat (v AND (v - 1)) = unat v AND (unat v - 1)" using False by (simp add: unsigned_and_eq unat_minus_one)
    then have o: "Suc (ones (unat (v AND (v - 1)))) = ones (unat v)"
      using ones_clear_lowest [of "unat v"] False by (simp add: unat_eq_0)
    have c: "unat (count + 1) = Suc (unat count)" using "1.prems" o by (simp add: unat_word_ariths)
    show ?thesis using "1.IH" [OF False] "1.prems" o c False by (simp add: clear_lowest.simps [of v])
  qed
qed

text \<open>
  The bit-clearing loop of the similarity distance ends for every pair of hashes and
  returns the number of bit positions in which they differ, so at most 64, zero exactly for
  equal hashes, and the same in both directions.
\<close>

theorem hamming_counts_bits:
  "unat (hamming_distance a b) = card {i. i < 64 \<and> bit a i \<noteq> bit b i} \<and> unat (hamming_distance a b) \<le> 64 \<and>
   (hamming_distance a b = 0 \<longleftrightarrow> a = b) \<and> hamming_distance a b = hamming_distance b a"
proof -
  have v: "unat (hamming_distance a b) = ones (unat (a XOR b))" for a b
    using clear_lowest_ones [of 0 "a XOR b"] ones_unat_le [of "a XOR b"] by (simp add: hamming_distance_def)
  have set: "{i. i < 64 \<and> bit (a XOR b) i} = {i. i < 64 \<and> bit a i \<noteq> bit b i}" by (auto simp: bit_xor_iff)
  have "hamming_distance a b = 0 \<longleftrightarrow> card {i. i < 64 \<and> bit a i \<noteq> bit b i} = 0"
    using v [of a b] by (simp add: ones_unat set unat_eq_0 [symmetric])
  also have "\<dots> \<longleftrightarrow> a = b" by (auto simp: card_eq_0_iff intro!: bit_word_eqI)
  finally show ?thesis
    using v [of a b] ones_unat_le [of "a XOR b"] by (simp add: ones_unat set hamming_distance_def xor.commute)
qed

lemma compare_same: "compare_payloads p p = no_evidence"
  by (simp add: compare_payloads_def hamming_distance_def clear_lowest.simps Let_def)

interpretation mutation_source: evidence_source "\<lambda>(p, c). compare_payloads p c"
  by unfold_locales (auto simp: compare_payloads_def Let_def evidence_bounds)

section \<open>features.cpp\<close>

record network_features =
  nf_payload_bytes :: u32
  nf_printable_ratio_percent :: u32
  nf_zero_byte_count :: u32
  nf_high_byte_count :: u32

definition printable_byte :: "u8 \<Rightarrow> bool" where
  "printable_byte v \<longleftrightarrow> v \<ge> 0x20 \<and> v \<le> 0x7e"

definition extract_network :: "bytes \<Rightarrow> network_features" where
  "extract_network payload =
     \<lparr>nf_payload_bytes = (if length payload > 0xffffffff then 0xffffffff else of_nat (length payload)),
      nf_printable_ratio_percent =
        (if payload = [] then 0 else of_nat (length (filter printable_byte payload)) * 100 div of_nat (length payload)),
      nf_zero_byte_count = of_nat (length (filter (\<lambda>v. v = 0) payload)),
      nf_high_byte_count = of_nat (length (filter (\<lambda>v. v \<ge> 0x80) payload))\<rparr>"

text \<open>
  The percentage is right up to 42949672 bytes; one byte more of printable text wraps the
  product, and the ratio of an all-printable payload reads as zero.
\<close>

lemma percent_u32:
  assumes "k \<le> n" "0 < n" "n \<le> 42949672"
  shows "unat ((of_nat k * 100 :: u32) div of_nat n) = 100 * k div n"
proof -
  have "k * 100 < 2 ^ 32" using assms by simp
  then have "unat (of_nat k * 100 :: u32) = k * 100"
    by (simp add: unat_word_ariths unat_of_nat mod_mult_left_eq)
  moreover have "unat (of_nat n :: u32) = n" using assms by (simp add: unat_of_nat)
  ultimately show ?thesis by (simp add: unat_div mult.commute)
qed

lemma printable_ratio_exact:
  assumes "payload \<noteq> []" "length payload \<le> 42949672"
  shows "unat (nf_printable_ratio_percent (extract_network payload)) =
     100 * length (filter printable_byte payload) div length payload"
  using percent_u32 [of "length (filter printable_byte payload)" "length payload"] assms
  by (simp add: extract_network_def)

lemma printable_ratio_wraps:
  assumes "length payload = 42949673" "set payload \<subseteq> Collect printable_byte"
  shows "nf_printable_ratio_percent (extract_network payload) = 0"
proof -
  have f: "filter printable_byte payload = payload" using assms(2) by (auto intro: filter_True)
  have "payload \<noteq> []" using assms(1) by auto
  then show ?thesis by (simp add: extract_network_def f assms(1) word_arith_nat_div)
qed

section \<open>privacy.cpp\<close>

record export_policy =
  xp_include_payload_excerpt :: bool
  xp_max_excerpt_bytes :: nat
  xp_pseudonym_key :: digest

record sanitized_payload =
  sp_full_payload_hash :: digest
  sp_excerpt :: bytes
  sp_reason_mask :: u32

definition stable_pseudonym :: "digest \<Rightarrow> string \<Rightarrow> digest" where
  "stable_pseudonym key v = sha256 (key @ bytes_of v)"

definition sanitize_payload :: "bytes \<Rightarrow> export_policy \<Rightarrow> sanitized_payload" where
  "sanitize_payload payload p =
     (let s = \<lparr>sp_full_payload_hash = sha256 payload, sp_excerpt = [], sp_reason_mask = 0\<rparr> in
      if xp_include_payload_excerpt p \<and> xp_max_excerpt_bytes p > 0 then
        let count = min (length payload) (xp_max_excerpt_bytes p);
            s = s\<lparr>sp_excerpt := sp_excerpt s @ take count payload\<rparr>
        in if count < length payload then s\<lparr>sp_reason_mask := sp_reason_mask s OR privacy_redacted\<rparr> else s
      else if payload \<noteq> [] then s\<lparr>sp_reason_mask := sp_reason_mask s OR privacy_redacted\<rparr> else s)"

text \<open>What leaves the machine is a prefix within the limit, and every cut is flagged.\<close>

lemma sanitize_exact:
  "prefix (sp_excerpt (sanitize_payload payload p)) payload"
  "length (sp_excerpt (sanitize_payload payload p)) \<le> (if xp_include_payload_excerpt p then xp_max_excerpt_bytes p else 0)"
  "sp_reason_mask (sanitize_payload payload p) = (if sp_excerpt (sanitize_payload payload p) = payload then 0 else privacy_redacted)"
  by (auto simp: sanitize_payload_def Let_def take_is_prefix)

section \<open>causal_graph.cpp\<close>

datatype node_kind = NK_flow | NK_file | NK_process | NK_egress

record causal_node =
  nd_id :: u64
  nd_kind :: node_kind
  nd_identity_hash :: digest
  nd_correlation :: corr_context

record causal_edge =
  eg_from :: u64
  eg_to :: u64

record causal_graph =
  gr_nodes :: "causal_node list"
  gr_edges :: "causal_edge list"

definition empty_graph :: causal_graph where
  "empty_graph = \<lparr>gr_nodes = [], gr_edges = []\<rparr>"

definition find_node :: "u64 \<Rightarrow> causal_graph \<Rightarrow> causal_node option" where
  "find_node i g = find (\<lambda>n. nd_id n = i) (gr_nodes g)"

definition add_node :: "causal_node \<Rightarrow> causal_graph \<Rightarrow> unit result \<times> causal_graph" where
  "add_node n g =
     (if nd_id n = 0 \<or> find_node (nd_id n) g \<noteq> None then (Inl St_invalid_argument, g)
      else (ok_unit, g\<lparr>gr_nodes := gr_nodes g @ [n]\<rparr>))"

definition add_edge :: "u64 \<Rightarrow> u64 \<Rightarrow> causal_graph \<Rightarrow> unit result \<times> causal_graph" where
  "add_edge from' to' g =
     (if find_node from' g = None \<or> find_node to' g = None \<or> from' = to' then (Inl St_invalid_argument, g)
      else (ok_unit, g\<lparr>gr_edges := gr_edges g @ [\<lparr>eg_from = from', eg_to = to'\<rparr>]\<rparr>))"

text \<open>The loop of \<open>chain_to\<close>; the bound on the length of the chain is what makes it end.\<close>

function chain_walk :: "causal_graph \<Rightarrow> causal_node \<Rightarrow> causal_node list \<Rightarrow> causal_node list result" where
  "chain_walk g current chain =
     (case find (\<lambda>e. eg_to e = nd_id current) (gr_edges g) of
        None \<Rightarrow> Inr (rev chain)
      | Some parent_edge \<Rightarrow>
          (case find_node (eg_from parent_edge) g of
             None \<Rightarrow> Inl St_integrity_failure
           | Some current \<Rightarrow>
               if length (chain @ [current]) > length (gr_nodes g) then Inl St_integrity_failure
               else chain_walk g current (chain @ [current])))"
  by auto
termination
  by (relation "measure (\<lambda>(g, current, chain). Suc (length (gr_nodes g)) - length chain)") auto

declare chain_walk.simps [simp del]

definition chain_to :: "u64 \<Rightarrow> causal_graph \<Rightarrow> causal_node list result" where
  "chain_to i g = (case find_node i g of None \<Rightarrow> Inl St_not_found | Some n \<Rightarrow> chain_walk g n [n])"

datatype graph_op = GO_node causal_node | GO_edge u64 u64

fun graph_step :: "graph_op \<Rightarrow> causal_graph \<Rightarrow> causal_graph" where
  "graph_step (GO_node n) g = snd (add_node n g)"
| "graph_step (GO_edge a b) g = snd (add_edge a b g)"

definition node_ids :: "causal_graph \<Rightarrow> u64 set" where
  "node_ids g = nd_id ` set (gr_nodes g)"

definition graph_inv :: "causal_graph \<Rightarrow> bool" where
  "graph_inv g \<longleftrightarrow> distinct (map nd_id (gr_nodes g)) \<and> 0 \<notin> node_ids g \<and>
     eg_from ` set (gr_edges g) \<subseteq> node_ids g \<and> eg_to ` set (gr_edges g) \<subseteq> node_ids g \<and>
     {e \<in> set (gr_edges g). eg_from e = eg_to e} = {}"

lemma find_node_None: "find_node i g = None \<longleftrightarrow> i \<notin> node_ids g"
  by (auto simp: find_node_def find_None_iff node_ids_def)

lemma find_node_Some: "find_node i g = Some n \<Longrightarrow> n \<in> set (gr_nodes g) \<and> nd_id n = i"
  by (auto simp: find_node_def find_Some_iff)

lemma graph_step_inv: "graph_inv g \<Longrightarrow> graph_inv (graph_step op g)"
  by (cases op) (auto simp: add_node_def add_edge_def graph_inv_def find_node_None node_ids_def)

interpretation graph_machine: invariant_machine graph_step graph_inv
  by unfold_locales (rule graph_step_inv)

text \<open>The parent of a node is where its first recorded edge comes from; ancestors iterate it.\<close>

definition parent_of :: "causal_graph \<Rightarrow> u64 \<Rightarrow> u64 option" where
  "parent_of g i = map_option eg_from (find (\<lambda>e. eg_to e = i) (gr_edges g))"

fun ancestor :: "causal_graph \<Rightarrow> u64 \<Rightarrow> nat \<Rightarrow> u64 option" where
  "ancestor g i 0 = Some i"
| "ancestor g i (Suc k) = (case ancestor g i k of None \<Rightarrow> None | Some j \<Rightarrow> parent_of g j)"

lemma ancestor_shift: "ancestor g i a = ancestor g i b \<Longrightarrow> ancestor g i (a + m) = ancestor g i (b + m)"
  by (induction m) auto

lemma ancestor_None_mono: "ancestor g i k = None \<Longrightarrow> ancestor g i (k + m) = None"
  by (induction m) auto

lemma ancestor_cycle:
  assumes "a < b" "ancestor g i a = ancestor g i b" "ancestor g i a \<noteq> None"
  shows "ancestor g i k \<noteq> None"
proof
  assume "ancestor g i k = None"
  then have ex: "\<exists>k. ancestor g i k = None" by blast
  define l where "l = (LEAST k. ancestor g i k = None)"
  have l: "ancestor g i l = None" unfolding l_def by (rule LeastI_ex [OF ex])
  have "b < l"
  proof (rule ccontr)
    assume "\<not> b < l"
    then have "ancestor g i b = None" using ancestor_None_mono [OF l, of "b - l"] by simp
    then show False using assms by simp
  qed
  then have "ancestor g i (a + (l - b)) = None" using ancestor_shift [OF assms(2), of "l - b"] l by simp
  then have "l \<le> a + (l - b)" unfolding l_def by (rule Least_le)
  then show False using assms(1) \<open>b < l\<close> by simp
qed

lemma ancestor_in: "graph_inv g \<Longrightarrow> i \<in> node_ids g \<Longrightarrow> ancestor g i k = Some j \<Longrightarrow> j \<in> node_ids g"
proof (induction k arbitrary: j)
  case (Suc k)
  then obtain j' e where "ancestor g i k = Some j'" "find (\<lambda>e. eg_to e = j') (gr_edges g) = Some e" "j = eg_from e"
    by (auto simp: parent_of_def split: option.splits)
  then show ?case using Suc.prems(1) by (auto simp: graph_inv_def find_Some_iff)
qed simp

lemma ancestor_repeats:
  assumes "graph_inv g" "i \<in> node_ids g" "None \<notin> ancestor g i ` {..length (gr_nodes g)}"
  shows "\<exists>a b. a < b \<and> b \<le> length (gr_nodes g) \<and> ancestor g i a = ancestor g i b"
proof -
  have sub: "ancestor g i ` {..length (gr_nodes g)} \<subseteq> Some ` node_ids g"
  proof
    fix x assume "x \<in> ancestor g i ` {..length (gr_nodes g)}"
    then obtain k j where "x = ancestor g i k" "x = Some j" using assms(3) by (cases x) auto
    then have "j \<in> node_ids g" using ancestor_in [OF assms(1,2), of k j] by simp
    then show "x \<in> Some ` node_ids g" using \<open>x = Some j\<close> by simp
  qed
  have "card (Some ` node_ids g) \<le> length (gr_nodes g)"
    by (simp add: card_image node_ids_def) (metis card_length length_map list.set_map)
  then have "card (ancestor g i ` {..length (gr_nodes g)}) < card {..length (gr_nodes g)}"
    using card_mono [OF _ sub] by (simp add: node_ids_def)
  then have "\<not> inj_on (ancestor g i) {..length (gr_nodes g)}" by (metis pigeonhole)
  then obtain a b where "a \<le> length (gr_nodes g)" "b \<le> length (gr_nodes g)" "a \<noteq> b" "ancestor g i a = ancestor g i b"
    by (auto simp: inj_on_def)
  then show ?thesis by (metis linorder_neqE_nat)
qed

definition on_trail :: "causal_graph \<Rightarrow> u64 \<Rightarrow> causal_node list \<Rightarrow> bool" where
  "on_trail g i chain \<longleftrightarrow> map (Some \<circ> nd_id) chain = map (ancestor g i) [0..<length chain] \<and> set chain \<subseteq> set (gr_nodes g)"

lemma on_trail_snoc:
  "on_trail g i chain \<Longrightarrow> ancestor g i (length chain) = Some (nd_id n) \<Longrightarrow> n \<in> set (gr_nodes g) \<Longrightarrow> on_trail g i (chain @ [n])"
  by (simp add: on_trail_def)

lemma on_trail_last:
  "on_trail g i chain \<Longrightarrow> chain \<noteq> [] \<Longrightarrow> ancestor g i (length chain) = parent_of g (nd_id (last chain))"
proof -
  assume t: "on_trail g i chain" "chain \<noteq> []"
  then have "map (Some \<circ> nd_id) chain ! (length chain - 1) = map (ancestor g i) [0..<length chain] ! (length chain - 1)"
    by (simp only: on_trail_def)
  then have "ancestor g i (length chain - 1) = Some (nd_id (last chain))" using t(2) by (simp add: last_conv_nth)
  then show ?thesis using t(2) by (cases "length chain") simp_all
qed

lemma chain_walk_trail:
  assumes "graph_inv g" "on_trail g i chain" "chain \<noteq> []" "current = last chain" "length chain \<le> length (gr_nodes g)"
  shows "case chain_walk g current chain of
      Inr c \<Rightarrow> on_trail g i (rev c) \<and> c \<noteq> [] \<and> ancestor g i (length c) = None
    | Inl s \<Rightarrow> s = St_integrity_failure \<and> None \<notin> ancestor g i ` {..length (gr_nodes g)}"
  using assms
proof (induction g current chain rule: chain_walk.induct)
  case (1 g current chain)
  note last = on_trail_last [OF 1(3,4)]
  show ?case
  proof (cases "find (\<lambda>e. eg_to e = nd_id current) (gr_edges g)")
    case None
    then have "ancestor g i (length chain) = None" using last 1(5) by (simp add: parent_of_def)
    then show ?thesis using None 1(3,4) by (simp add: chain_walk.simps [of g current])
  next
    case (Some e)
    then have "eg_from e \<in> node_ids g" using 1(2) by (auto simp: graph_inv_def find_Some_iff)
    then obtain n where n: "find_node (eg_from e) g = Some n" using find_node_None by fastforce
    have anc: "ancestor g i (length chain) = Some (nd_id n)"
      using last Some find_node_Some [OF n] 1(5) by (simp add: parent_of_def)
    have trail: "on_trail g i (chain @ [n])"
      using on_trail_snoc [OF 1(3) anc] find_node_Some [OF n] by simp
    show ?thesis
    proof (cases "length (chain @ [n]) > length (gr_nodes g)")
      case True
      then have len: "length chain = length (gr_nodes g)" using 1(6) by simp
      have "ancestor g i k \<noteq> None" if "k \<le> length chain" for k
        using anc ancestor_None_mono [of g i k "length chain - k"] that by auto
      then have "None \<notin> ancestor g i ` {..length (gr_nodes g)}" unfolding len [symmetric] by (metis atMost_iff imageE)
      then show ?thesis using True Some n by (simp add: chain_walk.simps [of g current])
    next
      case False
      then show ?thesis
        using 1(1) [OF Some n False 1(2) trail] Some n by (simp add: chain_walk.simps [of g current])
    qed
  qed
qed

lemma on_trail_distinct:
  assumes "on_trail g i chain" "ancestor g i (length chain) = None"
  shows "distinct (map nd_id chain)"
proof (rule ccontr)
  assume "\<not> distinct (map nd_id chain)"
  then obtain a b where ab: "a < length chain" "b < length chain" "a \<noteq> b" "nd_id (chain ! a) = nd_id (chain ! b)"
    by (auto simp: distinct_conv_nth)
  have anc: "ancestor g i k = Some (nd_id (chain ! k))" if "k < length chain" for k
  proof -
    have "map (Some \<circ> nd_id) chain ! k = map (ancestor g i) [0..<length chain] ! k"
      using assms(1) by (simp only: on_trail_def)
    then show ?thesis using that by simp
  qed
  have "ancestor g i (length chain) \<noteq> None"
    using ab anc ancestor_cycle [of a b g i "length chain"] ancestor_cycle [of b a g i "length chain"]
    by (cases "a < b") auto
  then show False using assms(2) by simp
qed

text \<open>
  The causal chain of an incident. On every graph built through the interface the walk
  ends, and for a known node there are two cases: the result is the list of its ancestors by
  first recorded edge, from a root without a parent down to the node, each of them once; or
  the ancestors run in a cycle and never reach a root, which is reported as an integrity
  failure. An unknown node is not found.
\<close>

theorem causal_chain_exact:
  "let g = fold graph_step ops empty_graph in
   case chain_to i g of
     Inr c \<Rightarrow> map (Some \<circ> nd_id) (rev c) = map (ancestor g i) [0..<length c] \<and> ancestor g i (length c) = None \<and>
       distinct (map nd_id c) \<and> set c \<subseteq> set (gr_nodes g)
   | Inl s \<Rightarrow> (if i \<in> node_ids g then s = St_integrity_failure \<and> None \<notin> range (ancestor g i) else s = St_not_found)"
proof -
  define g where "g = fold graph_step ops empty_graph"
  have inv: "graph_inv g"
    unfolding g_def by (rule graph_machine.run_inv) (simp add: graph_inv_def empty_graph_def node_ids_def)
  show ?thesis
  proof (cases "find_node i g")
    case None
    then show ?thesis using find_node_None [of i g] by (simp add: chain_to_def Let_def g_def [symmetric])
  next
    case (Some n)
    have n: "n \<in> set (gr_nodes g)" "nd_id n = i" using find_node_Some [OF Some] by auto
    have i: "i \<in> node_ids g" using n by (auto simp: node_ids_def)
    have t: "on_trail g i [n]" using n by (simp add: on_trail_def)
    have len: "length [n] \<le> length (gr_nodes g)" using n by (cases "gr_nodes g") auto
    have to: "chain_to i g = chain_walk g n [n]" by (simp add: chain_to_def Some)
    note walk = chain_walk_trail [OF inv t _ _ len, of n, simplified, folded to]
    show ?thesis
    proof (cases "chain_to i g")
      case (Inl s)
      then have s: "s = St_integrity_failure" "None \<notin> ancestor g i ` {..length (gr_nodes g)}" using walk by auto
      obtain a b where "a < b" "b \<le> length (gr_nodes g)" "ancestor g i a = ancestor g i b"
        using ancestor_repeats [OF inv i s(2)] by blast
      moreover from this have "ancestor g i a \<noteq> None" using s(2) by (metis atMost_iff imageI less_imp_le order_trans)
      ultimately have "None \<notin> range (ancestor g i)" using ancestor_cycle by (metis imageE)
      then show ?thesis using Inl s(1) i by (simp add: g_def [symmetric])
    next
      case (Inr c)
      then have c: "on_trail g i (rev c)" "ancestor g i (length c) = None" using walk by auto
      then have "distinct (map nd_id (rev c))" using on_trail_distinct [of g i "rev c"] by simp
      then show ?thesis using Inr c by (simp add: g_def [symmetric] on_trail_def rev_map [symmetric])
    qed
  qed
qed

section \<open>provenance.cpp\<close>

datatype file_disposition = FD_unknown | FD_trusted | FD_execution_pending | FD_allowed | FD_quarantined

record file_identity =
  fi_volume_id :: u64
  fi_file_id :: u64
  fi_stream_id :: u64
  fi_content_hash :: digest
  fi_provenance_id :: u64
  fi_creation_sequence :: u64
  fi_parent_provenance_id :: u64

record file_verdict =
  fv_identity :: file_identity
  fv_disposition :: file_disposition
  fv_reason_mask :: u32

type_synonym provenance_store = "file_verdict list"

definition same_place :: "file_identity \<Rightarrow> file_identity \<Rightarrow> bool" where
  "same_place a b \<longleftrightarrow> fi_volume_id a = fi_volume_id b \<and> fi_file_id a = fi_file_id b \<and>
     fi_stream_id a = fi_stream_id b \<and> fi_provenance_id a = fi_provenance_id b"

definition same_file_version :: "file_identity \<Rightarrow> file_identity \<Rightarrow> bool" where
  "same_file_version a b \<longleftrightarrow> same_place a b \<and> constant_time_equal (fi_content_hash a) (fi_content_hash b)"

fun pv_lookup :: "file_identity \<Rightarrow> provenance_store \<Rightarrow> file_verdict result" where
  "pv_lookup identity [] = Inl St_not_found"
| "pv_lookup identity (entry # rest) =
     (if same_file_version (fv_identity entry) identity then Inr entry
      else if same_place (fv_identity entry) identity
        then Inr \<lparr>fv_identity = identity, fv_disposition = FD_execution_pending, fv_reason_mask = external_exec_pending\<rparr>
      else pv_lookup identity rest)"

text \<open>The first entry of the exact file version, updated in place.\<close>

fun update_entry :: "file_identity \<Rightarrow> (file_verdict \<Rightarrow> file_verdict) \<Rightarrow> provenance_store \<Rightarrow> provenance_store option" where
  "update_entry identity f [] = None"
| "update_entry identity f (entry # rest) =
     (if same_file_version (fv_identity entry) identity then Some (f entry # rest)
      else map_option (\<lambda>es. entry # es) (update_entry identity f rest))"

definition record_external :: "file_identity \<Rightarrow> provenance_store \<Rightarrow> unit result \<times> provenance_store" where
  "record_external identity es =
     (ok_unit, es @ [\<lparr>fv_identity = identity, fv_disposition = FD_execution_pending, fv_reason_mask = external_exec_pending\<rparr>])"

definition propagate_archive :: "file_identity \<Rightarrow> file_identity \<Rightarrow> provenance_store \<Rightarrow> unit result \<times> provenance_store" where
  "propagate_archive archive child es =
     (case pv_lookup archive es of
        Inl s \<Rightarrow> (Inl s, es)
      | Inr parent \<Rightarrow>
          if fv_disposition parent = FD_trusted then (ok_unit, es)
          else (ok_unit, es @ [\<lparr>fv_identity = child, fv_disposition = FD_execution_pending,
                                fv_reason_mask = fv_reason_mask parent OR external_exec_pending\<rparr>]))"

definition propagate_copy :: "file_identity \<Rightarrow> file_identity \<Rightarrow> provenance_store \<Rightarrow> unit result \<times> provenance_store" where
  "propagate_copy source destination es =
     (case pv_lookup source es of
        Inl s \<Rightarrow> (Inl s, es)
      | Inr parent \<Rightarrow>
          (ok_unit, es @ [\<lparr>fv_identity = destination\<lparr>fi_parent_provenance_id := fi_provenance_id source\<rparr>,
                           fv_disposition = fv_disposition parent, fv_reason_mask = fv_reason_mask parent\<rparr>]))"

definition propagate_rename :: "file_identity \<Rightarrow> file_identity \<Rightarrow> provenance_store \<Rightarrow> unit result \<times> provenance_store" where
  "propagate_rename source destination es =
     (case update_entry source (\<lambda>entry. entry\<lparr>fv_identity :=
               destination\<lparr>fi_parent_provenance_id := fi_parent_provenance_id source\<rparr>\<rparr>) es of
        None \<Rightarrow> (Inl St_not_found, es)
      | Some es' \<Rightarrow> (ok_unit, es'))"

definition pv_approve :: "file_identity \<Rightarrow> provenance_store \<Rightarrow> unit result \<times> provenance_store" where
  "pv_approve identity es =
     (case update_entry identity (\<lambda>entry. entry\<lparr>fv_disposition := FD_allowed, fv_reason_mask := 0\<rparr>) es of
        None \<Rightarrow> (Inl St_not_found, es)
      | Some es' \<Rightarrow> (ok_unit, es'))"

definition pv_quarantine :: "file_identity \<Rightarrow> u32 \<Rightarrow> provenance_store \<Rightarrow> unit result \<times> provenance_store" where
  "pv_quarantine identity reasons es =
     (case update_entry identity (\<lambda>entry. entry\<lparr>fv_disposition := FD_quarantined, fv_reason_mask := reasons\<rparr>) es of
        None \<Rightarrow> (ok_unit, es @ [\<lparr>fv_identity = identity, fv_disposition = FD_quarantined, fv_reason_mask = reasons\<rparr>])
      | Some es' \<Rightarrow> (ok_unit, es'))"

definition execution_allowed :: "file_identity \<Rightarrow> provenance_store \<Rightarrow> bool result" where
  "execution_allowed identity es =
     (case pv_lookup identity es of
        Inl s \<Rightarrow> Inl s
      | Inr v \<Rightarrow> Inr (fv_disposition v = FD_allowed \<or> fv_disposition v = FD_trusted))"

datatype provenance_op =
    PV_record file_identity
  | PV_archive file_identity file_identity
  | PV_copy file_identity file_identity
  | PV_rename file_identity file_identity
  | PV_approve file_identity
  | PV_quarantine file_identity u32

fun provenance_step :: "provenance_op \<Rightarrow> provenance_store \<Rightarrow> provenance_store" where
  "provenance_step (PV_record i) es = snd (record_external i es)"
| "provenance_step (PV_archive a c) es = snd (propagate_archive a c es)"
| "provenance_step (PV_copy s d) es = snd (propagate_copy s d es)"
| "provenance_step (PV_rename s d) es = snd (propagate_rename s d es)"
| "provenance_step (PV_approve i) es = snd (pv_approve i es)"
| "provenance_step (PV_quarantine i r) es = snd (pv_quarantine i r es)"

abbreviation same_content :: "file_identity \<Rightarrow> file_identity \<Rightarrow> bool" where
  "same_content a b \<equiv> constant_time_equal (fi_content_hash a) (fi_content_hash b)"

lemma cte_bytes: "constant_time_equal a b \<longleftrightarrow> (\<forall>i<32. a ! i = b ! i)"
  by (auto simp: constant_time_equal_def foldl_or_zero_iff)

lemma cte_trans: "constant_time_equal a b \<Longrightarrow> constant_time_equal b c \<Longrightarrow> constant_time_equal a c"
  by (simp add: cte_bytes)

lemma cte_sym: "constant_time_equal a b \<longleftrightarrow> constant_time_equal b a"
  by (auto simp: cte_bytes)

text \<open>
  A caller that copies and renames files without changing them gives the destination the
  content hash of the source; the store itself does not compare the two.
\<close>

fun keeps_content :: "provenance_op \<Rightarrow> bool" where
  "keeps_content (PV_copy s d) = same_content s d"
| "keeps_content (PV_rename s d) = same_content s d"
| "keeps_content _ = True"

text \<open>Every entry that may execute has the content of some approval.\<close>

definition cleared :: "provenance_op list \<Rightarrow> file_verdict \<Rightarrow> bool" where
  "cleared ops v \<longleftrightarrow> fv_disposition v \<noteq> FD_trusted \<and>
     (fv_disposition v = FD_allowed \<longrightarrow> (\<exists>a. PV_approve a \<in> set ops \<and> same_content a (fv_identity v)))"

lemma cleared_mono: "cleared ops v \<Longrightarrow> cleared (ops @ more_ops) v"
  by (auto simp: cleared_def)

lemma pv_lookup_cases:
  "pv_lookup i es = Inr v \<Longrightarrow>
     (v \<in> set es \<and> same_file_version (fv_identity v) i) \<or> (fv_disposition v = FD_execution_pending)"
  by (induction es) (auto split: if_splits)

lemma update_entry_set:
  "update_entry i f es = Some es' \<Longrightarrow>
     \<exists>v \<in> set es. same_file_version (fv_identity v) i \<and> set es' \<subseteq> insert (f v) (set es)"
  by (induction es arbitrary: es') (auto split: if_splits, blast)

lemma cleared_pending [simp]: "fv_disposition v = FD_execution_pending \<Longrightarrow> cleared ops v"
  by (simp add: cleared_def)

lemma provenance_step_cleared:
  assumes inv: "\<forall>v \<in> set es. cleared ops v" and keep: "keeps_content op"
  shows "\<forall>v \<in> set (provenance_step op es). cleared (ops @ [op]) v"
proof -
  have inv': "\<forall>v \<in> set es. cleared (ops @ [op]) v" using inv cleared_mono by blast
  have upd: "\<forall>v \<in> set es'. cleared (ops @ [op]) v"
    if u: "update_entry i f es = Some es'"
      and f: "\<And>v. cleared (ops @ [op]) v \<Longrightarrow> same_file_version (fv_identity v) i \<Longrightarrow> cleared (ops @ [op]) (f v)" for i f es'
    using update_entry_set [OF u] inv' f by blast
  show ?thesis
  proof (cases op)
    case (PV_archive a c)
    then show ?thesis using inv' by (auto simp: propagate_archive_def split: sum.splits)
  next
    case (PV_copy s d)
    show ?thesis
    proof (cases "pv_lookup s es")
      case (Inr v)
      have "cleared (ops @ [op]) \<lparr>fv_identity = d\<lparr>fi_parent_provenance_id := p\<rparr>, fv_disposition = fv_disposition v, fv_reason_mask = m\<rparr>" for p m
        using pv_lookup_cases [OF Inr] inv' keep PV_copy
        by (auto simp: cleared_def same_file_version_def) (meson cte_trans)
      then show ?thesis using PV_copy Inr inv' by (auto simp: propagate_copy_def)
    qed (use PV_copy inv' in \<open>simp add: propagate_copy_def\<close>)
  next
    case (PV_rename s d)
    have "cleared (ops @ [op]) (v\<lparr>fv_identity := d\<lparr>fi_parent_provenance_id := p\<rparr>\<rparr>)"
      if "cleared (ops @ [op]) v" "same_file_version (fv_identity v) s" for v p
      using that keep PV_rename by (auto simp: cleared_def same_file_version_def intro: cte_trans)
    then show ?thesis
      using PV_rename inv' upd [of s] by (auto simp: propagate_rename_def split: option.splits)
  next
    case (PV_approve i)
    have "cleared (ops @ [op]) (v\<lparr>fv_disposition := FD_allowed, fv_reason_mask := 0\<rparr>)"
      if "same_file_version (fv_identity v) i" for v
      using that PV_approve cte_sym by (auto simp: cleared_def same_file_version_def)
    then show ?thesis
      using PV_approve inv' upd [of i] by (auto simp: pv_approve_def split: option.splits)
  next
    case (PV_quarantine i r)
    have "cleared (ops @ [op]) (v\<lparr>fv_disposition := FD_quarantined, fv_reason_mask := r\<rparr>)" for v
      by (simp add: cleared_def)
    then show ?thesis
      using PV_quarantine inv' upd [of i] by (auto simp: pv_quarantine_def cleared_def split: option.splits)
  qed (use inv' in \<open>auto simp: record_external_def\<close>)
qed

lemma provenance_run_cleared:
  "list_all keeps_content ops \<Longrightarrow> \<forall>v \<in> set (fold provenance_step ops []). cleared ops v"
  by (induction ops rule: rev_induct) (simp_all add: provenance_step_cleared)

text \<open>
  C34: nothing executes unapproved. After any recording, extraction, copying, renaming,
  approval and quarantine of files in which copies and renames keep the content, execution is
  only allowed for a content that was approved; and right after a file was quarantined its
  execution is refused, whatever the store held before.
\<close>

theorem provenance_allowed_is_approved:
  assumes "list_all keeps_content ops"
    and "execution_allowed i (fold provenance_step ops []) = Inr True"
  shows "(\<exists>a. PV_approve a \<in> set ops \<and> same_content a i) \<and>
    execution_allowed i (provenance_step (PV_quarantine i r) es) = Inr False"
proof
  obtain v where v: "pv_lookup i (fold provenance_step ops []) = Inr v" "fv_disposition v = FD_allowed \<or> fv_disposition v = FD_trusted"
    using assms(2) by (auto simp: execution_allowed_def split: sum.splits)
  then have "v \<in> set (fold provenance_step ops [])" "same_file_version (fv_identity v) i"
    using pv_lookup_cases [OF v(1)] by auto
  then show "\<exists>a. PV_approve a \<in> set ops \<and> same_content a i"
    using provenance_run_cleared [OF assms(1)] v(2) by (auto simp: cleared_def same_file_version_def intro: cte_trans)
next
  have upd: "update_entry i (\<lambda>e. e\<lparr>fv_disposition := FD_quarantined, fv_reason_mask := r\<rparr>) es = Some es' \<Longrightarrow>
      execution_allowed i es' = Inr False" for es'
    by (induction es arbitrary: es') (auto simp: execution_allowed_def split: if_splits)
  have new: "update_entry i f es = None \<Longrightarrow>
      execution_allowed i (es @ [\<lparr>fv_identity = i, fv_disposition = FD_quarantined, fv_reason_mask = r\<rparr>]) = Inr False" for f
    by (induction es) (auto simp: execution_allowed_def same_file_version_def same_place_def split: if_splits)
  show "execution_allowed i (provenance_step (PV_quarantine i r) es) = Inr False"
    by (auto simp: pv_quarantine_def new upd split: option.splits)
qed

definition sample_file :: "u64 \<Rightarrow> u8 \<Rightarrow> file_identity" where
  "sample_file n h = \<lparr>fi_volume_id = 1, fi_file_id = n, fi_stream_id = 0, fi_content_hash = replicate 32 h,
     fi_provenance_id = n, fi_creation_sequence = n, fi_parent_provenance_id = 0\<rparr>"

lemma sample_content: "same_content (sample_file m a) (sample_file n b) \<longleftrightarrow> a = b"
  by (auto simp: sample_file_def cte_bytes) (metis zero_less_numeral)

lemma sample_place: "same_place (sample_file m a) (sample_file n b) \<longleftrightarrow> m = n"
  by (auto simp: sample_file_def same_place_def)

theorem provenance_allowed_is_approved_witness:
  "(\<exists>a. PV_approve a \<in> set [PV_record (sample_file 1 7), PV_approve (sample_file 1 7)] \<and> same_content a (sample_file 1 7)) \<and>
   execution_allowed (sample_file 1 7) (provenance_step (PV_quarantine (sample_file 1 7) 1) []) = Inr False"
  by (rule provenance_allowed_is_approved)
    (simp_all add: record_external_def pv_approve_def execution_allowed_def same_file_version_def sample_content sample_place)

text \<open>
  Without the hypothesis it fails: the copy of an approved file is allowed under whatever
  content hash the caller gives for the destination.
\<close>

lemma provenance_copy_launders:
  "execution_allowed (sample_file 2 9)
     (fold provenance_step [PV_record (sample_file 1 7), PV_approve (sample_file 1 7), PV_copy (sample_file 1 7) (sample_file 2 9)] []) =
   Inr True"
proof -
  have p: "same_place (sample_file 2 9\<lparr>fi_parent_provenance_id := p\<rparr>) (sample_file 2 9)"
    "same_content (sample_file 2 9\<lparr>fi_parent_provenance_id := p\<rparr>) (sample_file 2 9)" for p
    by (simp_all add: sample_file_def same_place_def cte_bytes)
  show ?thesis
    by (simp add: record_external_def pv_approve_def propagate_copy_def execution_allowed_def same_file_version_def
        sample_content sample_place p)
qed

section \<open>recovery_vault.cpp\<close>

record vault_version =
  vv_snapshot_id :: u64
  vv_captured_ns :: u64
  vv_bytes :: u64
  vv_path :: string
  vv_content_hash :: digest

record restore_plan =
  pl_versions :: "vault_version list"
  pl_missing_paths :: "string list"
  pl_total_bytes :: u64

record vault_catalog =
  vc_maximum_bytes :: u64
  vc_stored_bytes :: u64
  vc_versions :: "vault_version list"

definition new_catalog :: "u64 \<Rightarrow> vault_catalog" where
  "new_catalog maximum = \<lparr>vc_maximum_bytes = maximum, vc_stored_bytes = 0, vc_versions = []\<rparr>"

definition vault_add :: "vault_version \<Rightarrow> vault_catalog \<Rightarrow> unit result \<times> vault_catalog" where
  "vault_add v c =
     (if vv_snapshot_id v = 0 \<or> vv_captured_ns v = 0 \<or> vv_path v = [] then (Inl St_invalid_argument, c)
      else if vv_bytes v > vc_maximum_bytes c \<or> vc_stored_bytes c > vc_maximum_bytes c - vv_bytes v then (Inl St_out_of_budget, c)
      else if \<exists>e \<in> set (vc_versions c). vv_snapshot_id e = vv_snapshot_id v \<and> vv_path e = vv_path v
        then (Inl St_invalid_state_transition, c)
      else (ok_unit, c\<lparr>vc_stored_bytes := vc_stored_bytes c + vv_bytes v, vc_versions := vc_versions c @ [v]\<rparr>))"

definition vault_candidate :: "string \<Rightarrow> u64 \<Rightarrow> vault_version \<Rightarrow> bool" where
  "vault_candidate path cutoff v \<longleftrightarrow> vv_path v = path \<and> vv_captured_ns v \<le> cutoff"

text \<open>One turn of the loop of \<open>latest_before\<close>, and the loop.\<close>

definition pick_later :: "string \<Rightarrow> u64 \<Rightarrow> vault_version \<Rightarrow> vault_version option \<Rightarrow> vault_version option" where
  "pick_later path cutoff v selected =
     (if vault_candidate path cutoff v \<and> (case selected of None \<Rightarrow> True | Some s \<Rightarrow> vv_captured_ns v > vv_captured_ns s)
      then Some v else selected)"

definition latest_before :: "string \<Rightarrow> u64 \<Rightarrow> vault_catalog \<Rightarrow> vault_version result" where
  "latest_before path cutoff c =
     (case fold (pick_later path cutoff) (vc_versions c) None of None \<Rightarrow> Inl St_not_found | Some v \<Rightarrow> Inr v)"

definition plan_step :: "vault_catalog \<Rightarrow> u64 \<Rightarrow> string \<Rightarrow> restore_plan \<Rightarrow> restore_plan" where
  "plan_step c cutoff path r =
     (case latest_before path cutoff c of
        Inl _ \<Rightarrow> r\<lparr>pl_missing_paths := pl_missing_paths r @ [path]\<rparr>
      | Inr v \<Rightarrow>
          (if pl_total_bytes r \<le> - 1 - vv_bytes v then r\<lparr>pl_total_bytes := pl_total_bytes r + vv_bytes v\<rparr> else r)
            \<lparr>pl_versions := pl_versions r @ [v]\<rparr>)"

definition vault_plan :: "string list \<Rightarrow> u64 \<Rightarrow> vault_catalog \<Rightarrow> restore_plan" where
  "vault_plan paths cutoff c =
     fold (plan_step c cutoff) paths \<lparr>pl_versions = [], pl_missing_paths = [], pl_total_bytes = 0\<rparr>"

definition vault_step :: "vault_version \<Rightarrow> vault_catalog \<Rightarrow> vault_catalog" where
  "vault_step v c = snd (vault_add v c)"

definition vault_inv :: "u64 \<Rightarrow> vault_catalog \<Rightarrow> bool" where
  "vault_inv m c \<longleftrightarrow> vc_maximum_bytes c = m \<and> unat (vc_stored_bytes c) = (\<Sum>v \<leftarrow> vc_versions c. unat (vv_bytes v)) \<and>
     vc_stored_bytes c \<le> m \<and> distinct (map (\<lambda>v. (vv_snapshot_id v, vv_path v)) (vc_versions c))"

lemma vault_step_inv: "vault_inv m c \<Longrightarrow> vault_inv m (vault_step v c)"
proof -
  assume inv: "vault_inv m c"
  have add: "unat (vc_stored_bytes c + vv_bytes v) = unat (vc_stored_bytes c) + unat (vv_bytes v) \<and>
      vc_stored_bytes c + vv_bytes v \<le> m"
    if "\<not> vv_bytes v > m" "\<not> vc_stored_bytes c > m - vv_bytes v"
  proof -
    have "unat (vc_stored_bytes c) + unat (vv_bytes v) \<le> unat m"
      using that by (simp add: word_less_nat_alt not_less unat_sub_if')
    moreover have "unat m < 2 ^ 64" using unsigned_less [of m, where 'a = nat] by simp
    ultimately show ?thesis by (simp add: word_le_nat_alt unat_plus_if')
  qed
  show ?thesis
    using inv add by (auto simp: vault_step_def vault_add_def vault_inv_def)
qed

interpretation vault_machine: invariant_machine vault_step "vault_inv m" for m
  by unfold_locales (rule vault_step_inv)

lemma pick_later_fold:
  "case fold (pick_later path cutoff) vs selected of
     None \<Rightarrow> selected = None \<and> filter (vault_candidate path cutoff) vs = []
   | Some v \<Rightarrow> (v \<in> set (filter (vault_candidate path cutoff) vs) \<or> selected = Some v) \<and>
       vv_captured_ns ` (set (filter (vault_candidate path cutoff) vs) \<union> set_option selected) \<subseteq> {..vv_captured_ns v}"
proof (induction vs arbitrary: selected)
  case Nil
  then show ?case by (auto split: option.splits)
next
  case (Cons w vs)
  show ?case
    using Cons.IH [of "pick_later path cutoff w selected"]
    by (auto simp: pick_later_def split: option.splits if_splits)
qed

text \<open>
  The recovery vault never exceeds its budget, its byte count is exact and no snapshot
  holds a path twice; and the version it restores for a path is the newest one that was
  captured no later than the cutoff, with none found exactly when there is no such version.
\<close>

theorem vault_restores_latest:
  "let c = fold vault_step vs (new_catalog m);
       candidates = set (filter (\<lambda>v. vv_path v = path \<and> vv_captured_ns v \<le> cutoff) (vc_versions c))
   in unat (vc_stored_bytes c) = (\<Sum>v \<leftarrow> vc_versions c. unat (vv_bytes v)) \<and> vc_stored_bytes c \<le> m \<and>
      distinct (map (\<lambda>v. (vv_snapshot_id v, vv_path v)) (vc_versions c)) \<and>
      (case latest_before path cutoff c of
         Inl s \<Rightarrow> s = St_not_found \<and> candidates = {}
       | Inr v \<Rightarrow> v \<in> candidates \<and> vv_captured_ns ` candidates \<subseteq> {..vv_captured_ns v})"
proof -
  define c where "c = fold vault_step vs (new_catalog m)"
  have inv: "vault_inv m c"
    unfolding c_def by (rule vault_machine.run_inv) (simp add: vault_inv_def new_catalog_def)
  have cand: "set (filter (\<lambda>v. vv_path v = path \<and> vv_captured_ns v \<le> cutoff) (vc_versions c)) =
      set (filter (vault_candidate path cutoff) (vc_versions c))"
    by (simp add: vault_candidate_def)
  show ?thesis
    unfolding Let_def c_def [symmetric] cand
    using inv pick_later_fold [of None path cutoff "vc_versions c"]
    by (cases "fold (pick_later path cutoff) (vc_versions c) None") (auto simp: vault_inv_def latest_before_def)
qed

text \<open>A restore plan lists every path once, as found or as missing, in the order of the request.\<close>

lemma plan_fold:
  "pl_versions (fold (plan_step c cutoff) paths r) = pl_versions r @
     map projr (filter res_ok (map (\<lambda>p. latest_before p cutoff c) paths))"
  "pl_missing_paths (fold (plan_step c cutoff) paths r) = pl_missing_paths r @
     filter (\<lambda>p. \<not> res_ok (latest_before p cutoff c)) paths"
proof (induction paths arbitrary: r)
  case (Cons p paths)
  {
    case 1
    show ?case using Cons.IH(1) [of "plan_step c cutoff p r"]
      by (auto simp: plan_step_def latest_before_def split: option.splits)
  next
    case 2
    show ?case using Cons.IH(2) [of "plan_step c cutoff p r"]
      by (auto simp: plan_step_def latest_before_def split: option.splits)
  }
qed simp_all

end
