(* ===== verification/AIS_Reader.thy ===== *)
theory AIS_Reader
  imports AIS_Evidence "HOL-Library.Monad_Syntax"
begin

text \<open>
  Checked access to a span, for the parsers of untrusted bytes. In C++ an index beyond the
  end of a span is undefined behaviour; here such a read is \<open>None\<close>, so that a parser is a
  function into \<open>option\<close> and its memory safety is the theorem that it never returns \<open>None\<close>.
  Below are the fixed-width reads of the formats and the counted loops that skip one
  element after the other, with the promise every such reader makes.
\<close>

definition byte_at :: "bytes \<Rightarrow> nat \<Rightarrow> u8 option" where
  "byte_at p i = (if i < length p then Some (p ! i) else None)"

lemma byte_at_Some [simp]: "i < length p \<Longrightarrow> byte_at p i = Some (p ! i)"
  by (simp add: byte_at_def)

lemma byte_at_None [simp]: "byte_at p i = None \<longleftrightarrow> length p \<le> i"
  by (auto simp: byte_at_def)

text \<open>Big-endian and little-endian reads, byte by byte as the code does them.\<close>

definition read_be16 :: "bytes \<Rightarrow> nat \<Rightarrow> u16 option" where
  "read_be16 p off = do {
     hi \<leftarrow> byte_at p off;
     lo \<leftarrow> byte_at p (off + 1);
     Some (push_bit 8 (ucast hi) OR ucast lo)
   }"

definition read_le16 :: "bytes \<Rightarrow> nat \<Rightarrow> u16 option" where
  "read_le16 p off = do {
     lo \<leftarrow> byte_at p off;
     hi \<leftarrow> byte_at p (off + 1);
     Some (ucast lo OR push_bit 8 (ucast hi))
   }"

definition read_le32 :: "bytes \<Rightarrow> nat \<Rightarrow> u32 option" where
  "read_le32 p off = do {
     b0 \<leftarrow> byte_at p off;
     b1 \<leftarrow> byte_at p (off + 1);
     b2 \<leftarrow> byte_at p (off + 2);
     b3 \<leftarrow> byte_at p (off + 3);
     Some (ucast b0 OR push_bit 8 (ucast b1) OR push_bit 16 (ucast b2) OR push_bit 24 (ucast b3))
   }"

lemma read_be16_Some [simp]: "off + 1 < length p \<Longrightarrow> read_be16 p off = Some (be16_at p off)"
  by (simp add: read_be16_def be16_at_def)

lemma read_be16_None [simp]: "read_be16 p off = None \<longleftrightarrow> length p \<le> off + 1"
  by (auto simp: read_be16_def byte_at_def)

lemma read_le16_Some [simp]: "off + 1 < length p \<Longrightarrow> read_le16 p off = Some (le16_at p off)"
  by (simp add: read_le16_def le16_at_def)

lemma read_le16_None [simp]: "read_le16 p off = None \<longleftrightarrow> length p \<le> off + 1"
  by (auto simp: read_le16_def byte_at_def)

lemma read_le32_None [simp]: "read_le32 p off = None \<longleftrightarrow> length p \<le> off + 3"
  by (auto simp: read_le32_def byte_at_def)

lemma read_le32_ex: "off + 3 < length p \<Longrightarrow> \<exists>v. read_le32 p off = Some v"
  using read_le32_None [of p off] by (cases "read_le32 p off") auto

section \<open>Skipping readers\<close>

text \<open>
  A reader moves an offset and marks what it finds wrong in a summary. A loop that applies a
  reader \<open>count\<close> times and stops at the first failure:
\<close>

type_synonym 's skip = "nat \<Rightarrow> 's \<Rightarrow> (nat result \<times> 's) option"

fun skip_times :: "nat \<Rightarrow> 's skip \<Rightarrow> 's skip" where
  "skip_times 0 rd off s = Some (Inr off, s)"
| "skip_times (Suc n) rd off s =
     (case rd off s of
        None \<Rightarrow> None
      | Some (Inl e, s') \<Rightarrow> Some (Inl e, s')
      | Some (Inr off', s') \<Rightarrow> skip_times n rd off' s')"

text \<open>
  What such a reader promises: it never reads outside the span; when it succeeds, it has
  moved over one element of the grammar \<open>R\<close> and left the summary equivalent; when it fails,
  there is no element at the offset and the summary is marked.
\<close>

locale skipper =
  fixes rd :: "'s skip" and R :: "nat \<Rightarrow> nat \<Rightarrow> bool" and same :: "'s \<Rightarrow> 's \<Rightarrow> bool" and marked :: "'s \<Rightarrow> bool"
    and frame :: "'s \<Rightarrow> 's \<Rightarrow> bool"
  assumes safe: "rd off s \<noteq> None"
    and moves: "rd off s = Some (Inr off', s') \<Longrightarrow> R off off' \<and> same s s'"
    and fails: "rd off s = Some (Inl e, s') \<Longrightarrow> marked s' \<and> frame s s' \<and> \<not> R off off'"
    and det: "R off a \<Longrightarrow> R off b \<Longrightarrow> a = b"
    and same_refl: "same s s" and same_trans: "same s s' \<Longrightarrow> same s' s'' \<Longrightarrow> same s s''"
    and frame_trans: "same s s' \<Longrightarrow> frame s' s'' \<Longrightarrow> frame s s''"
begin

lemma times_safe: "skip_times n rd off s \<noteq> None"
  by (induction n arbitrary: off s) (use safe in \<open>auto split: option.splits prod.splits sum.splits\<close>)

lemma times_moves: "skip_times n rd off s = Some (Inr off', s') \<Longrightarrow> (R ^^ n) off off' \<and> same s s'"
proof (induction n arbitrary: off s)
  case 0
  then show ?case using same_refl by simp
next
  case (Suc n)
  then obtain m t where "rd off s = Some (Inr m, t)" "skip_times n rd m t = Some (Inr off', s')"
    by (auto split: option.splits prod.splits sum.splits)
  then show ?case using Suc.IH moves same_trans by (metis relpowp_Suc_I2)
qed

lemma times_fails: "skip_times n rd off s = Some (Inl e, s') \<Longrightarrow> marked s' \<and> frame s s' \<and> \<not> (R ^^ n) off off'"
proof (induction n arbitrary: off s)
  case (Suc n)
  show ?case
  proof (cases "rd off s")
    case (Some p)
    obtain r t where p: "p = (r, t)" by (cases p)
    show ?thesis
    proof (cases r)
      case (Inl e')
      then have "rd off s = Some (Inl e, s')" using Suc.prems Some p by auto
      then show ?thesis using fails by (metis relpowp_Suc_E2)
    next
      case (Inr m)
      then have m: "rd off s = Some (Inr m, t)" "skip_times n rd m t = Some (Inl e, s')" using Suc.prems Some p by auto
      have "\<not> (R ^^ Suc n) off off'"
      proof
        assume "(R ^^ Suc n) off off'"
        then obtain m' where "R off m'" "(R ^^ n) m' off'" by (rule relpowp_Suc_E2)
        then show False using det moves [OF m(1)] Suc.IH [OF m(2)] by blast
      qed
      then show ?thesis using Suc.IH [OF m(2)] moves [OF m(1)] frame_trans by blast
    qed
  qed (use Suc.prems in simp)
qed simp

lemma times_det: "(R ^^ n) off a \<Longrightarrow> (R ^^ n) off b \<Longrightarrow> a = b"
proof (induction n arbitrary: off)
  case (Suc n)
  obtain m where "R off m" "(R ^^ n) m a" using Suc.prems(1) by (rule relpowp_Suc_E2)
  moreover obtain m' where "R off m'" "(R ^^ n) m' b" using Suc.prems(2) by (rule relpowp_Suc_E2)
  ultimately show ?case using Suc.IH det by blast
qed simp

lemma times_cases:
  "case skip_times n rd off s of
     None \<Rightarrow> False
   | Some (Inr off', t) \<Rightarrow> same s t \<and> (R ^^ n) off off'
   | Some (Inl e, t) \<Rightarrow> marked t \<and> frame s t \<and> (\<forall>off'. \<not> (R ^^ n) off off')"
  using times_safe [of n off s] times_moves [of n off s] times_fails [of n off s]
  by (auto split: option.splits sum.splits)

end

section \<open>Staying in bounds\<close>

text \<open>
  A computation is \<open>in_bounds\<close> when it makes no read outside its span. The rules below follow
  the constructs of the code, so that the bounds of an operation reduce to the inequalities
  of its reads.
\<close>

definition in_bounds :: "'a option \<Rightarrow> bool" where
  "in_bounds x \<longleftrightarrow> x \<noteq> None"

named_theorems safe_intros \<comment> \<open>introduction rules for \<open>in_bounds\<close>\<close>

lemma in_bounds_Some [simp, safe_intros]: "in_bounds (Some x)"
  by (simp add: in_bounds_def)

lemma in_bounds_bind [safe_intros]:
  "in_bounds a \<Longrightarrow> (\<And>x. a = Some x \<Longrightarrow> in_bounds (f x)) \<Longrightarrow> in_bounds (Option.bind a f)"
  by (cases a) (simp_all add: in_bounds_def)

lemma in_bounds_map [safe_intros]: "in_bounds a \<Longrightarrow> in_bounds (map_option f a)"
  by (simp add: in_bounds_def)

lemma in_bounds_if [safe_intros]: "(c \<Longrightarrow> in_bounds a) \<Longrightarrow> (\<not> c \<Longrightarrow> in_bounds b) \<Longrightarrow> in_bounds (if c then a else b)"
  by simp

lemma in_bounds_case [safe_intros]:
  "(v = None \<Longrightarrow> in_bounds a) \<Longrightarrow> (\<And>x. v = Some x \<Longrightarrow> in_bounds (f x)) \<Longrightarrow>
     in_bounds (case v of None \<Rightarrow> a | Some x \<Rightarrow> f x)"
  by (simp split: option.split)

lemma in_bounds_prod [safe_intros]: "(\<And>a b. p = (a, b) \<Longrightarrow> in_bounds (f a b)) \<Longrightarrow> in_bounds (case p of (a, b) \<Rightarrow> f a b)"
  by (cases p) simp

lemma in_bounds_read [safe_intros]:
  "off + 2 \<le> length p \<Longrightarrow> in_bounds (read_le16 p off)"
  "off + 4 \<le> length p \<Longrightarrow> in_bounds (read_le32 p off)"
  by (simp_all add: in_bounds_def del: not_None_eq)

lemma in_bounds_byte [safe_intros]: "off < length p \<Longrightarrow> in_bounds (byte_at p off)"
  by (simp add: in_bounds_def)

lemma in_bounds_be16 [safe_intros]: "off + 2 \<le> length p \<Longrightarrow> in_bounds (read_be16 p off)"
  by (simp add: in_bounds_def del: not_None_eq)

lemma in_bounds_cases: "in_bounds x \<Longrightarrow> (\<And>y. x = Some y \<Longrightarrow> P) \<Longrightarrow> P"
  by (cases x) (auto simp: in_bounds_def)

end
