(* ===== verification/AIS_Dns.thy ===== *)
theory AIS_Dns
  imports AIS_Reader
begin

text \<open>
  The DNS preflight of \<open>src/dns.cpp\<close>. The parser walks the names, questions and records of a
  message without copying them; its reads are checked (\<open>AIS_Reader\<close>), its loop over the
  labels of a name carries a termination proof, and the grammar of a message is stated
  beside it as relations between offsets. The two are proved to agree.
\<close>

record dns_summary =
  ds_question_count :: u16
  ds_answer_count :: u16
  ds_authority_count :: u16
  ds_additional_count :: u16
  ds_max_name_depth :: u16
  ds_malformed :: bool
  ds_compression_pointer_seen :: bool
  ds_compression_loop_risk :: bool
  ds_trailing_bytes :: bool

definition empty_dns_summary :: dns_summary where
  "empty_dns_summary = \<lparr>ds_question_count = 0, ds_answer_count = 0, ds_authority_count = 0, ds_additional_count = 0,
     ds_max_name_depth = 0, ds_malformed = False, ds_compression_pointer_seen = False,
     ds_compression_loop_risk = False, ds_trailing_bytes = False\<rparr>"

text \<open>The loop of \<open>skip_name\<close>; the depth is counted up to 65 and never wraps.\<close>

function skip_labels :: "bytes \<Rightarrow> nat \<Rightarrow> nat \<Rightarrow> dns_summary \<Rightarrow> (nat result \<times> dns_summary) option" where
  "skip_labels p depth off s =
     (if off < length p then
        if depth + 1 > 64 then Some (Inl St_out_of_budget, s\<lparr>ds_compression_loop_risk := True\<rparr>)
        else
          let s = s\<lparr>ds_max_name_depth := max (ds_max_name_depth s) (of_nat (depth + 1))\<rparr> in
          (case byte_at p off of
             None \<Rightarrow> None
           | Some len \<Rightarrow>
               if len AND 0xC0 = 0xC0 then
                 if off + 1 \<ge> length p then Some (Inl St_malformed_input, s\<lparr>ds_malformed := True\<rparr>)
                 else
                   (case byte_at p (off + 1) of
                      None \<Rightarrow> None
                    | Some lo \<Rightarrow>
                        let pointer = push_bit 8 (ucast (len AND 0x3F)) OR ucast lo :: u16;
                            s = s\<lparr>ds_compression_pointer_seen := True\<rparr>
                        in if unat pointer \<ge> off \<or> unat pointer \<ge> length p
                           then Some (Inl St_ambiguous_input, s\<lparr>ds_compression_loop_risk := True\<rparr>)
                           else Some (Inr (off + 2), s))
               else if len AND 0xC0 \<noteq> 0 then Some (Inl St_malformed_input, s\<lparr>ds_malformed := True\<rparr>)
               else if len = 0 then Some (Inr (off + 1), s)
               else if len > 63 \<or> off + 1 + unat len > length p
                 then Some (Inl St_malformed_input, s\<lparr>ds_malformed := True\<rparr>)
               else skip_labels p (depth + 1) (off + 1 + unat len) s)
      else Some (Inl St_malformed_input, s\<lparr>ds_malformed := True\<rparr>))"
  by auto
termination by (relation "measure (\<lambda>(p, _, off, _). length p - off)") auto

declare skip_labels.simps [simp del]

definition skip_name :: "bytes \<Rightarrow> dns_summary skip" where
  "skip_name p off s = skip_labels p 0 off s"

text \<open>One question: a name and four bytes. One record: a name, ten bytes and the data.\<close>

definition skip_question :: "bytes \<Rightarrow> dns_summary skip" where
  "skip_question p off s =
     (case skip_name p off s of
        None \<Rightarrow> None
      | Some (Inl e, s) \<Rightarrow> Some (Inl e, s)
      | Some (Inr off, s) \<Rightarrow>
          if off + 4 > length p then Some (Inl St_malformed_input, s\<lparr>ds_malformed := True\<rparr>)
          else Some (Inr (off + 4), s))"

definition skip_record :: "bytes \<Rightarrow> dns_summary skip" where
  "skip_record p off s =
     (case skip_name p off s of
        None \<Rightarrow> None
      | Some (Inl e, s) \<Rightarrow> Some (Inl e, s)
      | Some (Inr off, s) \<Rightarrow>
          if off + 10 > length p then Some (Inl St_malformed_input, s\<lparr>ds_malformed := True\<rparr>)
          else
            (case read_be16 p (off + 8) of
               None \<Rightarrow> None
             | Some rdlength \<Rightarrow>
                 if off + 10 + unat rdlength > length p then Some (Inl St_malformed_input, s\<lparr>ds_malformed := True\<rparr>)
                 else Some (Inr (off + 10 + unat rdlength), s)))"

definition dns_counts :: "bytes \<Rightarrow> dns_summary option" where
  "dns_counts p = do {
     qd \<leftarrow> read_be16 p 4;
     an \<leftarrow> read_be16 p 6;
     ns \<leftarrow> read_be16 p 8;
     ar \<leftarrow> read_be16 p 10;
     Some (empty_dns_summary\<lparr>ds_question_count := qd, ds_answer_count := an, ds_authority_count := ns,
       ds_additional_count := ar\<rparr>)
   }"

text \<open>
  \<open>parse_message\<close>: the sections in order, each left at its first failure with the summary
  collected so far.
\<close>

definition dns_section :: "nat \<Rightarrow> dns_summary skip \<Rightarrow> (nat result \<times> dns_summary) option \<Rightarrow> (nat result \<times> dns_summary) option" where
  "dns_section n rd r =
     (case r of Some (Inr off, s) \<Rightarrow> skip_times n rd off s | _ \<Rightarrow> r)"

definition dns_sections :: "bytes \<Rightarrow> dns_summary \<Rightarrow> (nat result \<times> dns_summary) option" where
  "dns_sections p s =
     dns_section (unat (ds_additional_count s)) (skip_record p)
       (dns_section (unat (ds_authority_count s)) (skip_record p)
         (dns_section (unat (ds_answer_count s)) (skip_record p)
           (dns_section (unat (ds_question_count s)) (skip_question p) (Some (Inr 12, s)))))"

definition parse_message :: "bytes \<Rightarrow> dns_summary result option" where
  "parse_message p =
     (if length p < 12 \<or> length p > 4096 then Some (Inl St_malformed_input)
      else
        (case dns_counts p of
           None \<Rightarrow> None
         | Some s \<Rightarrow>
             if ds_question_count s > 16 \<or> ds_answer_count s > 64 \<or> ds_authority_count s > 64 \<or>
                ds_additional_count s > 64 then Some (Inr (s\<lparr>ds_malformed := True\<rparr>))
             else
               (case dns_sections p s of
                  None \<Rightarrow> None
                | Some (Inl e, s) \<Rightarrow> Some (Inr s)
                | Some (Inr off, s) \<Rightarrow> Some (Inr (s\<lparr>ds_trailing_bytes := off \<noteq> length p\<rparr>)))))"

definition dns_evidence :: "dns_summary \<Rightarrow> evidence" where
  "dns_evidence s =
     (let e = no_evidence;
          e = (if ds_malformed s then add_reason proto_malformed (e\<lparr>ev_protocol := 80\<rparr>) else e);
          e = (if ds_compression_loop_risk s \<or> ds_trailing_bytes s
               then add_reason proto_ambiguous (e\<lparr>ev_hard_rule := 100, ev_protocol := 100\<rparr>) else e)
      in if ds_max_name_depth s > 32 then e\<lparr>ev_novelty := 40\<rparr> else e)"

interpretation dns_detector: evidence_source dns_evidence
  by unfold_locales (simp add: dns_evidence_def Let_def evidence_bounds)

section \<open>The grammar\<close>

text \<open>
  \<open>name_ends p n off off'\<close>: at \<open>off\<close> stands a name of \<open>n\<close> elements that ends before \<open>off'\<close>;
  its labels have 1 to 63 bytes, and it ends with a zero byte or a pointer to an earlier
  position.
\<close>

definition pointer_at :: "bytes \<Rightarrow> nat \<Rightarrow> nat" where
  "pointer_at p off = unat (push_bit 8 (ucast (p ! off AND 0x3F)) OR ucast (p ! (off + 1)) :: u16)"

inductive name_ends :: "bytes \<Rightarrow> nat \<Rightarrow> nat \<Rightarrow> nat \<Rightarrow> bool" for p where
  root: "off < length p \<Longrightarrow> p ! off = 0 \<Longrightarrow> name_ends p 1 off (off + 1)"
| pointer: "off + 1 < length p \<Longrightarrow> p ! off AND 0xC0 = 0xC0 \<Longrightarrow> pointer_at p off < off \<Longrightarrow> name_ends p 1 off (off + 2)"
| label: "off < length p \<Longrightarrow> p ! off AND 0xC0 = 0 \<Longrightarrow> p ! off \<noteq> 0 \<Longrightarrow> off + 1 + unat (p ! off) \<le> length p \<Longrightarrow>
    name_ends p n (off + 1 + unat (p ! off)) off' \<Longrightarrow> name_ends p (Suc n) off off'"

inductive_cases name_endsE: "name_ends p n off off'"

definition name_at :: "bytes \<Rightarrow> nat \<Rightarrow> nat \<Rightarrow> bool" where
  "name_at p off off' \<longleftrightarrow> (\<exists>n \<le> 64. name_ends p n off off')"

definition question_at :: "bytes \<Rightarrow> nat \<Rightarrow> nat \<Rightarrow> bool" where
  "question_at p off off' \<longleftrightarrow> (\<exists>m. name_at p off m \<and> off' = m + 4 \<and> off' \<le> length p)"

definition record_at :: "bytes \<Rightarrow> nat \<Rightarrow> nat \<Rightarrow> bool" where
  "record_at p off off' \<longleftrightarrow> (\<exists>m. name_at p off m \<and> off' = m + 10 + unat (be16_at p (m + 8)) \<and> m + 10 \<le> length p \<and> off' \<le> length p)"

lemma top_bits: "(b :: u8) AND 0xC0 = 0 \<Longrightarrow> b \<le> 63"
proof -
  assume "b AND 0xC0 = 0"
  moreover have "(0xC0 :: u8) = NOT (mask 6)" by (simp add: mask_eq_exp_minus_1 not_eq_complement)
  moreover have "b = (b AND mask 6) OR (b AND NOT (mask 6))" by (simp add: bit.conj_disj_distrib [symmetric])
  ultimately have "b = take_bit 6 b" by (simp add: take_bit_eq_mask)
  then have "unat b = take_bit 6 (unat b)" by (metis unsigned_take_bit_eq)
  then have "unat b < 2 ^ 6" by (metis take_bit_nat_less_exp)
  then show ?thesis by (simp add: word_le_nat_alt)
qed

text \<open>What a reader may change: the depth, the pointer flag and, when it fails, the other flags.\<close>

definition dns_frame :: "dns_summary \<Rightarrow> dns_summary \<Rightarrow> bool" where
  "dns_frame s t \<longleftrightarrow> ds_question_count t = ds_question_count s \<and> ds_answer_count t = ds_answer_count s \<and>
     ds_authority_count t = ds_authority_count s \<and> ds_additional_count t = ds_additional_count s \<and>
     ds_trailing_bytes t = ds_trailing_bytes s"

definition dns_same :: "dns_summary \<Rightarrow> dns_summary \<Rightarrow> bool" where
  "dns_same s t \<longleftrightarrow> dns_frame s t \<and> ds_malformed t = ds_malformed s \<and> ds_compression_loop_risk t = ds_compression_loop_risk s"

definition dns_marked :: "dns_summary \<Rightarrow> bool" where
  "dns_marked s \<longleftrightarrow> ds_malformed s \<or> ds_compression_loop_risk s"

lemmas dns_defs = dns_same_def dns_frame_def dns_marked_def

text \<open>The rules, read backwards by what the first byte is.\<close>

lemma name_ends_pointer:
  assumes "p ! off AND 0xC0 = 0xC0"
  shows "name_ends p n off off' \<longleftrightarrow> n = 1 \<and> off' = off + 2 \<and> off + 1 < length p \<and> pointer_at p off < off"
proof
  assume "name_ends p n off off'"
  then show "n = 1 \<and> off' = off + 2 \<and> off + 1 < length p \<and> pointer_at p off < off"
    by cases (use assms in simp_all)
next
  assume "n = 1 \<and> off' = off + 2 \<and> off + 1 < length p \<and> pointer_at p off < off"
  then show "name_ends p n off off'" using name_ends.pointer [OF _ assms] by simp
qed

lemma name_ends_root:
  assumes "p ! off = 0"
  shows "name_ends p n off off' \<longleftrightarrow> n = 1 \<and> off' = off + 1 \<and> off < length p"
proof
  assume "name_ends p n off off'"
  then show "n = 1 \<and> off' = off + 1 \<and> off < length p" by cases (use assms in simp_all)
next
  assume "n = 1 \<and> off' = off + 1 \<and> off < length p"
  then show "name_ends p n off off'" using name_ends.root [OF _ assms] by simp
qed

lemma name_ends_label:
  assumes "p ! off AND 0xC0 = 0" "p ! off \<noteq> 0"
  shows "name_ends p n off off' \<longleftrightarrow> off < length p \<and> off + 1 + unat (p ! off) \<le> length p \<and>
    (\<exists>m. n = Suc m \<and> name_ends p m (off + 1 + unat (p ! off)) off')"
proof
  assume "name_ends p n off off'"
  then show "off < length p \<and> off + 1 + unat (p ! off) \<le> length p \<and>
      (\<exists>m. n = Suc m \<and> name_ends p m (off + 1 + unat (p ! off)) off')"
    by cases (use assms in simp_all)
next
  assume "off < length p \<and> off + 1 + unat (p ! off) \<le> length p \<and>
      (\<exists>m. n = Suc m \<and> name_ends p m (off + 1 + unat (p ! off)) off')"
  then show "name_ends p n off off'" using name_ends.label [OF _ assms] by auto
qed

lemma name_ends_bad:
  assumes "p ! off AND 0xC0 \<noteq> 0xC0" "p ! off AND 0xC0 \<noteq> 0"
  shows "\<not> name_ends p n off off'"
proof
  assume "name_ends p n off off'"
  then show False by cases (use assms in simp_all)
qed

lemma name_ends_det: "name_ends p n off a \<Longrightarrow> name_ends p m off b \<Longrightarrow> a = b \<and> n = m"
proof (induction arbitrary: m b rule: name_ends.induct)
  case (root off)
  from root(3) show ?case unfolding name_ends_root [OF root(2)] by simp
next
  case (pointer off)
  from pointer(4) show ?case unfolding name_ends_pointer [OF pointer(2)] by simp
next
  case (label off n off')
  from label(7) obtain m' where "m = Suc m'" "name_ends p m' (off + 1 + unat (p ! off)) b"
    using name_ends_label [OF label(2,3), of m b] by blast
  then show ?case using label.IH by blast
qed

lemma name_ends_pos: "name_ends p n off a \<Longrightarrow> 0 < n"
  by (induction rule: name_ends.induct) auto

lemma name_ends_bound: "name_ends p n off a \<Longrightarrow> off < a \<and> a \<le> length p"
  by (induction rule: name_ends.induct) auto

text \<open>The step of the loop and the rules of the grammar look at the same bytes.\<close>

lemma skip_labels_spec:
  "case skip_labels p depth off s of
     None \<Rightarrow> False
   | Some (Inr off', t) \<Rightarrow> dns_same s t \<and> (\<exists>n. name_ends p n off off' \<and> depth + n \<le> 64)
   | Some (Inl e, t) \<Rightarrow> dns_marked t \<and> dns_frame s t \<and> (\<forall>n off'. name_ends p n off off' \<longrightarrow> 64 < depth + n)"
proof (induction p depth off s rule: skip_labels.induct)
  case (1 p depth off s)
  show ?case
  proof (cases "off < length p")
    case False
    then have "\<not> name_ends p n off off'" for n off' using name_ends_bound by fastforce
    then show ?thesis using False by (simp add: skip_labels.simps [of p depth off] dns_defs)
  next
    case in_span: True
    show ?thesis
    proof (cases "depth + 1 > 64")
      case True
      then have "64 < depth + n" if "name_ends p n off off'" for n off'
        using name_ends_pos [OF that] by simp
      then show ?thesis using True in_span by (simp add: skip_labels.simps [of p depth off] dns_defs)
    next
      case depth: False
      define s1 where "s1 = s\<lparr>ds_max_name_depth := max (ds_max_name_depth s) (of_nat (depth + 1))\<rparr>"
      have same1: "dns_same s s1" by (simp add: s1_def dns_defs)
      consider (ptr) "p ! off AND 0xC0 = 0xC0" | (bad) "p ! off AND 0xC0 \<noteq> 0xC0" "p ! off AND 0xC0 \<noteq> 0"
        | (zero) "p ! off = 0" | (lab) "p ! off AND 0xC0 = 0" "p ! off \<noteq> 0"
        by fastforce
      then show ?thesis
      proof cases
        case ptr
        then have nz: "p ! off \<noteq> 0" by auto
        note only = name_ends_pointer [OF ptr]
        show ?thesis
        proof (cases "off + 1 < length p")
          case True
          then show ?thesis
            using ptr in_span depth same1 only
            by (auto simp: skip_labels.simps [of p depth off] s1_def [symmetric] Let_def pointer_at_def dns_defs)
        next
          case False
          then show ?thesis
            using ptr in_span depth same1 only
            by (auto simp: skip_labels.simps [of p depth off] s1_def [symmetric] Let_def dns_defs)
        qed
      next
        case bad
        then have "\<not> name_ends p n off off'" for n off' by (rule name_ends_bad)
        then show ?thesis
          using bad in_span depth same1
          by (auto simp: skip_labels.simps [of p depth off] s1_def [symmetric] Let_def dns_defs)
      next
        case zero
        have "\<exists>n. name_ends p n off (off + 1) \<and> depth + n \<le> 64" using in_span zero depth by (simp add: name_ends_root)
        then show ?thesis
          using zero in_span depth same1
          by (auto simp: skip_labels.simps [of p depth off] s1_def [symmetric] Let_def dns_defs)
      next
        case lab
        then have le: "\<not> p ! off > 63" using top_bits [of "p ! off"] by (simp add: not_less)
        have nptr: "p ! off AND 0xC0 \<noteq> 0xC0" using lab(1) by simp
        note only = name_ends_label [OF lab]
        show ?thesis
        proof (cases "off + 1 + unat (p ! off) > length p")
          case True
          then show ?thesis
            using lab nptr in_span depth same1 only
            by (auto simp: skip_labels.simps [of p depth off] s1_def [symmetric] Let_def dns_defs)
        next
          case False
          have rec: "skip_labels p depth off s = skip_labels p (depth + 1) (off + 1 + unat (p ! off)) s1"
            using lab nptr le in_span depth False
            by (simp add: skip_labels.simps [of p depth off] s1_def Let_def)
          have "byte_at p off = Some (p ! off)" using in_span by simp
          from 1 [OF in_span depth s1_def this nptr _ lab(2)] lab(1) le False
          have IH: "case skip_labels p (depth + 1) (off + 1 + unat (p ! off)) s1 of
              None \<Rightarrow> False
            | Some (Inr off', t) \<Rightarrow> dns_same s1 t \<and> (\<exists>n. name_ends p n (off + 1 + unat (p ! off)) off' \<and> depth + 1 + n \<le> 64)
            | Some (Inl e, t) \<Rightarrow> dns_marked t \<and> dns_frame s1 t \<and>
                (\<forall>n off'. name_ends p n (off + 1 + unat (p ! off)) off' \<longrightarrow> 64 < depth + 1 + n)"
            by simp
          show ?thesis
          proof (cases "skip_labels p (depth + 1) (off + 1 + unat (p ! off)) s1")
            case None
            then show ?thesis using IH by simp
          next
            case (Some r)
            obtain q t where r: "r = (q, t)" by (cases r)
            show ?thesis
            proof (cases q)
              case (Inl e)
              then show ?thesis
                using IH Some r rec only same1 by (auto simp: dns_defs)
            next
              case (Inr off')
              then obtain n where "name_ends p n (off + 1 + unat (p ! off)) off'" "depth + 1 + n \<le> 64" "dns_same s1 t"
                using IH Some r by auto
              then have "name_ends p (Suc n) off off' \<and> depth + Suc n \<le> 64" using only False in_span by auto
              then show ?thesis
                using Inr Some r rec same1 \<open>dns_same s1 t\<close> by (auto simp: dns_defs)
            qed
          qed
        qed
      qed
    qed
  qed
qed

section \<open>The readers keep their promise\<close>

lemma skip_name_spec:
  "case skip_name p off s of
     None \<Rightarrow> False
   | Some (Inr off', t) \<Rightarrow> dns_same s t \<and> name_at p off off'
   | Some (Inl e, t) \<Rightarrow> dns_marked t \<and> dns_frame s t \<and> (\<forall>off'. \<not> name_at p off off')"
  using skip_labels_spec [of s p off 0]
  by (auto simp: skip_name_def name_at_def split: option.splits sum.splits)

lemma name_at_det: "name_at p off a \<Longrightarrow> name_at p off b \<Longrightarrow> a = b"
  using name_ends_det by (auto simp: name_at_def)

lemma skip_question_spec:
  "case skip_question p off s of
     None \<Rightarrow> False
   | Some (Inr off', t) \<Rightarrow> dns_same s t \<and> question_at p off off'
   | Some (Inl e, t) \<Rightarrow> dns_marked t \<and> dns_frame s t \<and> (\<forall>off'. \<not> question_at p off off')"
proof -
  obtain r t where r: "skip_name p off s = Some (r, t)" using skip_name_spec [of s p off] by (cases "skip_name p off s") auto
  show ?thesis
  proof (cases r)
    case (Inl e)
    then show ?thesis using skip_name_spec [of s p off] r by (simp add: skip_question_def question_at_def)
  next
    case (Inr m)
    then have m: "dns_same s t" "name_at p off m" using skip_name_spec [of s p off] r by auto
    have "question_at p off off' \<longleftrightarrow> off' = m + 4 \<and> m + 4 \<le> length p" for off'
      using m(2) name_at_det [of p off] by (auto simp: question_at_def)
    then show ?thesis using m r Inr by (auto simp: skip_question_def dns_defs)
  qed
qed

lemma skip_record_spec:
  "case skip_record p off s of
     None \<Rightarrow> False
   | Some (Inr off', t) \<Rightarrow> dns_same s t \<and> record_at p off off'
   | Some (Inl e, t) \<Rightarrow> dns_marked t \<and> dns_frame s t \<and> (\<forall>off'. \<not> record_at p off off')"
proof -
  obtain r t where r: "skip_name p off s = Some (r, t)" using skip_name_spec [of s p off] by (cases "skip_name p off s") auto
  show ?thesis
  proof (cases r)
    case (Inl e)
    then show ?thesis using skip_name_spec [of s p off] r by (simp add: skip_record_def record_at_def)
  next
    case (Inr m)
    then have m: "dns_same s t" "name_at p off m" using skip_name_spec [of s p off] r by auto
    have at: "record_at p off off' \<longleftrightarrow> m + 10 \<le> length p \<and> off' = m + 10 + unat (be16_at p (m + 8)) \<and> off' \<le> length p" for off'
      using m(2) name_at_det [of p off] by (auto simp: record_at_def)
    show ?thesis
    proof (cases "m + 10 \<le> length p")
      case True
      then have "read_be16 p (m + 8) = Some (be16_at p (m + 8))" by simp
      then show ?thesis using True m r Inr at by (auto simp: skip_record_def dns_defs simp del: read_be16_Some)
    next
      case False
      then show ?thesis using m r Inr at by (auto simp: skip_record_def dns_defs)
    qed
  qed
qed

interpretation question_reader: skipper "skip_question p" "question_at p" dns_same dns_marked dns_frame for p
proof
  show "question_at p off a \<Longrightarrow> question_at p off b \<Longrightarrow> a = b" for off a b
    using name_at_det [of p off] by (auto simp: question_at_def)
  show "skip_question p off s \<noteq> None" for off s using skip_question_spec [of s p off] by (cases "skip_question p off s") auto
  show "skip_question p off s = Some (Inr off', s') \<Longrightarrow> question_at p off off' \<and> dns_same s s'" for off s off' s'
    using skip_question_spec [of s p off] by auto
  show "skip_question p off s = Some (Inl e, s') \<Longrightarrow> dns_marked s' \<and> dns_frame s s' \<and> \<not> question_at p off off'" for off s e s' off'
    using skip_question_spec [of s p off] by auto
qed (auto simp: dns_defs)

interpretation record_reader: skipper "skip_record p" "record_at p" dns_same dns_marked dns_frame for p
proof
  show "record_at p off a \<Longrightarrow> record_at p off b \<Longrightarrow> a = b" for off a b
    using name_at_det [of p off] by (auto simp: record_at_def)
  show "skip_record p off s \<noteq> None" for off s using skip_record_spec [of s p off] by (cases "skip_record p off s") auto
  show "skip_record p off s = Some (Inr off', s') \<Longrightarrow> record_at p off off' \<and> dns_same s s'" for off s off' s'
    using skip_record_spec [of s p off] by auto
  show "skip_record p off s = Some (Inl e, s') \<Longrightarrow> dns_marked s' \<and> dns_frame s s' \<and> \<not> record_at p off off'" for off s e s' off'
    using skip_record_spec [of s p off] by auto
qed (auto simp: dns_defs)

text \<open>A stage of the parser reads as a set \<open>G\<close> of end positions: the one it reached, or none.\<close>

definition reads_as :: "dns_summary \<Rightarrow> (nat \<Rightarrow> bool) \<Rightarrow> (nat result \<times> dns_summary) option \<Rightarrow> bool" where
  "reads_as s G r \<longleftrightarrow>
     (case r of
        None \<Rightarrow> False
      | Some (Inr off, t) \<Rightarrow> dns_same s t \<and> G off \<and> (\<forall>x. G x \<longrightarrow> x = off)
      | Some (Inl e, t) \<Rightarrow> dns_marked t \<and> dns_frame s t \<and> (\<forall>x. \<not> G x))"

lemma reads_as_cases:
  assumes "reads_as s G r"
  obtains (moved) off t where "r = Some (Inr off, t)" "dns_same s t" "G = (\<lambda>x. x = off)"
  | (failed) e t where "r = Some (Inl e, t)" "dns_marked t" "dns_frame s t" "G = (\<lambda>x. False)"
proof (cases r)
  case (Some q)
  then show thesis
    using assms moved failed by (cases q; cases "fst q") (auto simp: reads_as_def fun_eq_iff)
qed (use assms in \<open>simp add: reads_as_def\<close>)

lemma reads_section:
  assumes r: "reads_as s G r"
    and step: "\<And>off t. case skip_times n rd off t of
         None \<Rightarrow> False
       | Some (Inr off', t') \<Rightarrow> dns_same t t' \<and> (R ^^ n) off off'
       | Some (Inl e, t') \<Rightarrow> dns_marked t' \<and> dns_frame t t' \<and> (\<forall>off'. \<not> (R ^^ n) off off')"
    and det: "\<And>off a b. (R ^^ n) off a \<Longrightarrow> (R ^^ n) off b \<Longrightarrow> a = b"
  shows "reads_as s (\<lambda>y. \<exists>x. G x \<and> (R ^^ n) x y) (dns_section n rd r)"
  using r
proof (cases rule: reads_as_cases)
  case (failed e t)
  then show ?thesis by (simp add: reads_as_def dns_section_def)
next
  case (moved off t)
  obtain q t' where q: "skip_times n rd off t = Some (q, t')"
    using step [where off = off and t = t] by (cases "skip_times n rd off t") auto
  show ?thesis
  proof (cases q)
    case (Inl e)
    then show ?thesis using step [where off = off and t = t] q moved by (auto simp: reads_as_def dns_section_def dns_defs)
  next
    case (Inr off')
    then have "dns_same t t'" "(R ^^ n) off off'" using step [where off = off and t = t] q by auto
    then show ?thesis using q Inr moved det [of off] by (auto simp: reads_as_def dns_section_def dns_defs)
  qed
qed

lemmas reads_question = reads_section [OF _ question_reader.times_cases question_reader.times_det]
lemmas reads_record = reads_section [OF _ record_reader.times_cases record_reader.times_det]

text \<open>The end positions of a message with the given counts.\<close>

definition message_at :: "bytes \<Rightarrow> nat \<Rightarrow> nat \<Rightarrow> nat \<Rightarrow> bool" where
  "message_at p qd rr off \<longleftrightarrow> (question_at p ^^ qd OO record_at p ^^ rr) 12 off"

lemma dns_sections_reads:
  "reads_as s (message_at p (unat (ds_question_count s))
     (unat (ds_answer_count s) + unat (ds_authority_count s) + unat (ds_additional_count s))) (dns_sections p s)"
proof -
  have "reads_as s (\<lambda>x. x = 12) (Some (Inr 12, s))" by (simp add: reads_as_def dns_defs)
  then have "reads_as s (\<lambda>y. \<exists>x. (\<exists>x'. (\<exists>x''. (\<exists>x0. x0 = 12 \<and> (question_at p ^^ unat (ds_question_count s)) x0 x'') \<and>
      (record_at p ^^ unat (ds_answer_count s)) x'' x') \<and> (record_at p ^^ unat (ds_authority_count s)) x' x) \<and>
      (record_at p ^^ unat (ds_additional_count s)) x y) (dns_sections p s)"
    unfolding dns_sections_def by (intro reads_record reads_question)
  moreover have "(\<lambda>y. \<exists>x. (\<exists>x'. (\<exists>x''. (\<exists>x0. x0 = 12 \<and> (question_at p ^^ unat (ds_question_count s)) x0 x'') \<and>
      (record_at p ^^ unat (ds_answer_count s)) x'' x') \<and> (record_at p ^^ unat (ds_authority_count s)) x' x) \<and>
      (record_at p ^^ unat (ds_additional_count s)) x y) =
    message_at p (unat (ds_question_count s))
     (unat (ds_answer_count s) + unat (ds_authority_count s) + unat (ds_additional_count s))"
    unfolding message_at_def relpowp_add by (auto simp: fun_eq_iff relcompp_apply)
  ultimately show ?thesis by simp
qed

text \<open>
  C30: the DNS preflight never reads outside the packet, always returns, and a summary without
  a warning is a proof of form. A packet of 12 to 4096 bytes is reported as neither malformed
  nor ambiguous nor followed by trailing bytes exactly when its counts are within the limits
  and it is a header, the announced questions and the announced records back to back up to
  its last byte, where every name has at most 64 elements and every compression pointer
  leads strictly backwards.
\<close>

theorem dns_clean_iff_grammar:
  "case parse_message p of
     None \<Rightarrow> False
   | Some (Inl s) \<Rightarrow> s = St_malformed_input \<and> length p \<notin> {12..4096}
   | Some (Inr s) \<Rightarrow> length p \<in> {12..4096} \<and>
       (ds_malformed s = False \<and> ds_compression_loop_risk s = False \<and> ds_trailing_bytes s = False \<longleftrightarrow>
        be16_at p 4 \<le> 16 \<and> be16_at p 6 \<le> 64 \<and> be16_at p 8 \<le> 64 \<and> be16_at p 10 \<le> 64 \<and>
        message_at p (unat (be16_at p 4)) (unat (be16_at p 6) + unat (be16_at p 8) + unat (be16_at p 10)) (length p))"
proof (cases "length p < 12 \<or> length p > 4096")
  case True
  then show ?thesis by (auto simp: parse_message_def)
next
  case False
  define s where "s = empty_dns_summary\<lparr>ds_question_count := be16_at p 4, ds_answer_count := be16_at p 6,
    ds_authority_count := be16_at p 8, ds_additional_count := be16_at p 10\<rparr>"
  have c: "dns_counts p = Some s" using False by (simp add: dns_counts_def s_def)
  have fields: "ds_question_count s = be16_at p 4" "ds_answer_count s = be16_at p 6" "ds_authority_count s = be16_at p 8"
    "ds_additional_count s = be16_at p 10" "\<not> ds_malformed s" "\<not> ds_compression_loop_risk s" "\<not> ds_trailing_bytes s"
    by (simp_all add: s_def empty_dns_summary_def)
  show ?thesis
  proof (cases "be16_at p 4 > 16 \<or> be16_at p 6 > 64 \<or> be16_at p 8 > 64 \<or> be16_at p 10 > 64")
    case True
    then have "parse_message p = Some (Inr (s\<lparr>ds_malformed := True\<rparr>))"
      using False c fields by (simp add: parse_message_def)
    then show ?thesis using True False by (auto simp: not_le)
  next
    case in_limits: False
    then have m: "parse_message p = (case dns_sections p s of None \<Rightarrow> None | Some (Inl e, s) \<Rightarrow> Some (Inr s)
        | Some (Inr off, s) \<Rightarrow> Some (Inr (s\<lparr>ds_trailing_bytes := off \<noteq> length p\<rparr>)))"
      using False c fields by (simp add: parse_message_def)
    note reads = dns_sections_reads [of s p, unfolded fields reads_as_def]
    show ?thesis
    proof (cases "dns_sections p s")
      case None
      then show ?thesis using reads by simp
    next
      case (Some q)
      obtain r t where q: "q = (r, t)" by (cases q)
      show ?thesis
      proof (cases r)
        case (Inl e)
        then have "dns_marked t" "\<not> message_at p (unat (be16_at p 4))
            (unat (be16_at p 6) + unat (be16_at p 8) + unat (be16_at p 10)) (length p)"
          using reads Some q by auto
        then show ?thesis using m Some q Inl False by (auto simp: dns_marked_def)
      next
        case (Inr off)
        then have "dns_same s t" and off: "message_at p (unat (be16_at p 4))
            (unat (be16_at p 6) + unat (be16_at p 8) + unat (be16_at p 10)) x \<longleftrightarrow> x = off" for x
          using reads Some q by auto
        then show ?thesis
          using m Some q Inr False in_limits fields(5,6) by (auto simp: dns_defs not_less off)
      qed
    qed
  qed
qed

end
