(* ===== verification/AIS_Http.thy ===== *)
theory AIS_Http
  imports AIS_Evidence "HOL-Library.Multiset" "HOL-Library.List_Lexorder" "HOL-Library.Product_Lexorder"
begin

text \<open>
  HTTP/1 requests: the preflight of \<open>src/http1.cpp\<close>, the canonical form of
  \<open>src/http_canonicalizer.cpp\<close>, and the features of \<open>src/features.cpp\<close> that are taken from
  the preflight. Both parsers run over the header lines with the same cursor loop; it is
  modelled once, with its termination proof, and related to the list of lines. What the
  parsers report is then a statement about that list.
\<close>

section \<open>The line loop\<close>

definition crlf :: string where "crlf = [CHR 0x0D, CHR 0x0A]"

lemma length_crlf [simp]: "length crlf = 2" "crlf \<noteq> []"
  by (simp_all add: crlf_def)

text \<open>
  \<open>while (cursor < head.size())\<close>: the next line, a step on it, and the cursor after its end.
  The step says whether the loop goes on.
\<close>

function walk_lines :: "(string \<Rightarrow> 's \<Rightarrow> 's \<times> bool) \<Rightarrow> string \<Rightarrow> nat \<Rightarrow> 's \<Rightarrow> 's" where
  "walk_lines step head cursor s =
     (if cursor < length head then
        let next' = find_from crlf head cursor;
            line = (case next' of None \<Rightarrow> drop cursor head | Some n \<Rightarrow> take (n - cursor) (drop cursor head))
        in if line = [] then s
           else
             (let (s', go) = step line s in
              if \<not> go then s'
              else (case next' of None \<Rightarrow> s' | Some n \<Rightarrow> walk_lines step head (n + 2) s'))
      else s)"
  by auto
termination
  by (relation "measure (\<lambda>(_, head, cursor, _). length head - cursor)") (auto dest!: sym [of "Some _"] find_from_SomeD)

declare walk_lines.simps [simp del]

text \<open>The lines themselves, and a run over them that may stop early.\<close>

function crlf_lines :: "string \<Rightarrow> string list" where
  "crlf_lines t = (case find_sub crlf t of None \<Rightarrow> [t] | Some n \<Rightarrow> take n t # crlf_lines (drop (n + 2) t))"
  by auto
termination by (relation "measure length") (auto dest!: find_sub_SomeD)

declare crlf_lines.simps [simp del]

fun run_lines :: "(string \<Rightarrow> 's \<Rightarrow> 's \<times> bool) \<Rightarrow> string list \<Rightarrow> 's \<Rightarrow> 's" where
  "run_lines step [] s = s"
| "run_lines step (l # ls) s = (let (s', go) = step l s in if go then run_lines step ls s' else s')"

abbreviation block_of :: "string \<Rightarrow> string list" where
  "block_of t \<equiv> takeWhile (\<lambda>l. l \<noteq> []) (crlf_lines t)"

lemma walk_lines_run: "walk_lines step head cursor s = run_lines step (block_of (drop cursor head)) s"
proof (induction step head cursor s rule: walk_lines.induct)
  case (1 step head cursor s)
  show ?case
  proof (cases "cursor < length head")
    case False
    then have "drop cursor head = []" by simp
    moreover have "crlf_lines [] = [[]]" by (simp add: crlf_lines.simps)
    ultimately show ?thesis using False by (simp add: walk_lines.simps [of step head])
  next
    case in_head: True
    show ?thesis
    proof (cases "find_sub crlf (drop cursor head)")
      case None
      then have "find_from crlf head cursor = None" using in_head by (simp add: find_from_def)
      moreover have "crlf_lines (drop cursor head) = [drop cursor head]" using None by (simp add: crlf_lines.simps)
      ultimately show ?thesis
        using in_head by (simp add: walk_lines.simps [of step head cursor] Let_def split: prod.splits)
    next
      case (Some n)
      then have next': "find_from crlf head cursor = Some (cursor + n)" using in_head by (simp add: find_from_def)
      have lines: "crlf_lines (drop cursor head) = take n (drop cursor head) # crlf_lines (drop (cursor + n + 2) head)"
        using Some by (simp add: crlf_lines.simps [of "drop cursor head"] ac_simps)
      show ?thesis
      proof (cases "take n (drop cursor head) = []")
        case True
        then show ?thesis
          using in_head next' lines by (simp add: walk_lines.simps [of step head cursor] Let_def)
      next
        case False
        obtain s' go where st: "step (take n (drop cursor head)) s = (s', go)" by fastforce
        have walk: "walk_lines step head cursor s = (if go then walk_lines step head (cursor + n + 2) s' else s')"
          using in_head next' False st by (simp add: walk_lines.simps [of step head cursor] Let_def)
        have "go \<Longrightarrow> walk_lines step head (cursor + n + 2) s' = run_lines step (block_of (drop (cursor + n + 2) head)) s'"
          using 1 [OF in_head refl refl _ refl _ _ next'] next' False st by simp
        then show ?thesis using walk lines False st by simp
      qed
    qed
  qed
qed

text \<open>A request is cut at its first empty line, and the request line cut off.\<close>

definition head_of :: "string \<Rightarrow> string option" where
  "head_of data = map_option (\<lambda>n. take n data) (find_sub (crlf @ crlf) data)"

section \<open>http1.cpp\<close>

record http_summary =
  hs_header_count :: u16
  hs_content_length_count :: u32
  hs_content_length :: u64
  hs_chunked :: bool
  hs_ambiguous_framing :: bool
  hs_malformed :: bool
  hs_path_traversal :: bool
  hs_command_marker :: bool

definition empty_http_summary :: http_summary where
  "empty_http_summary = \<lparr>hs_header_count = 0, hs_content_length_count = 0, hs_content_length = 0, hs_chunked = False,
     hs_ambiguous_framing = False, hs_malformed = False, hs_path_traversal = False, hs_command_marker = False\<rparr>"

definition has_ctl :: "string \<Rightarrow> bool" where
  "has_ctl v \<longleftrightarrow> list_ex (\<lambda>ch. (of_char ch :: nat) < 0x20 \<and> ch \<noteq> CHR 0x09 \<and> ch \<noteq> CHR 0x0D \<and> ch \<noteq> CHR 0x0A) v"

text \<open>
  \<open>std::from_chars\<close> at \<open>uint64_t\<close>: the longest run of decimal digits, an error when it is empty
  or its value does not fit, and the position after it.
\<close>

definition is_digit :: "char \<Rightarrow> bool" where
  "is_digit ch \<longleftrightarrow> 48 \<le> (of_char ch :: nat) \<and> (of_char ch :: nat) \<le> 57"

definition digits_value :: "string \<Rightarrow> nat" where
  "digits_value ds = foldl (\<lambda>n ch. n * 10 + (of_char ch - 48)) 0 ds"

definition from_chars_u64 :: "string \<Rightarrow> (u64 \<times> nat) option" where
  "from_chars_u64 v =
     (let ds = takeWhile is_digit v in
      if ds = [] \<or> digits_value ds \<ge> 2 ^ 64 then None else Some (of_nat (digits_value ds), length ds))"

definition is_blank :: "char \<Rightarrow> bool" where
  "is_blank ch \<longleftrightarrow> ch = CHR '' '' \<or> ch = CHR 0x09"

text \<open>The body of the loop on one header line.\<close>

definition content_length_step :: "string \<Rightarrow> http_summary \<Rightarrow> http_summary" where
  "content_length_step v s =
     (let s = s\<lparr>hs_content_length_count := hs_content_length_count s + 1\<rparr> in
      case from_chars_u64 v of
        None \<Rightarrow> s\<lparr>hs_malformed := True\<rparr>
      | Some (parsed, used) \<Rightarrow>
          if used \<noteq> length v then s\<lparr>hs_malformed := True\<rparr>
          else if hs_content_length_count s = 1 then s\<lparr>hs_content_length := parsed\<rparr>
          else if hs_content_length s \<noteq> parsed then s\<lparr>hs_ambiguous_framing := True\<rparr>
          else s)"

definition header_step :: "string \<Rightarrow> http_summary \<Rightarrow> http_summary \<times> bool" where
  "header_step line s =
     (let s = s\<lparr>hs_header_count := hs_header_count s + 1\<rparr> in
      case find_sub '':'' line of
        None \<Rightarrow> (s\<lparr>hs_malformed := True\<rparr>, False)
      | Some colon \<Rightarrow>
          if colon = 0 then (s\<lparr>hs_malformed := True\<rparr>, False)
          else
            let name = lower_copy (take colon line);
                v = dropWhile is_blank (drop (colon + 1) line)
            in if name = ''content-length'' then (content_length_step v s, True)
               else if name = ''transfer-encoding'' then
                 (if contains (lower_copy v) ''chunked'' then s\<lparr>hs_chunked := True\<rparr> else s, True)
               else (s, True))"

definition request_line_marks :: "string \<Rightarrow> http_summary" where
  "request_line_marks request_line =
     (let s = empty_http_summary;
          s = (if contains request_line ''..'' \<or> contains request_line ''%2e'' \<or> contains request_line ''%2E''
               then s\<lparr>hs_path_traversal := True\<rparr> else s)
      in if contains request_line ''cmd'' \<or> contains request_line ''powershell''
         then s\<lparr>hs_command_marker := True\<rparr> else s)"

definition parse_request :: "string \<Rightarrow> http_summary result" where
  "parse_request data =
     (if length data > 128 * 1024 then Inl St_out_of_budget
      else
        (case head_of data of
           None \<Rightarrow> Inl St_malformed_input
         | Some head \<Rightarrow>
             if has_ctl head then Inr (empty_http_summary\<lparr>hs_malformed := True\<rparr>)
             else
               (case find_sub crlf head of
                  None \<Rightarrow> Inl St_malformed_input
                | Some first_line_end \<Rightarrow>
                    let s = request_line_marks (take first_line_end head);
                        s = walk_lines header_step head (first_line_end + 2) s
                    in Inr (if hs_chunked s \<and> hs_content_length_count s > 0
                            then s\<lparr>hs_ambiguous_framing := True\<rparr> else s))))"

definition http_evidence :: "http_summary \<Rightarrow> evidence" where
  "http_evidence s =
     (let e = no_evidence;
          e = (if hs_malformed s
               then add_reason proto_malformed (e\<lparr>ev_protocol := clipped_score (ucast (ev_protocol e) + 60)\<rparr>) else e);
          e = (if hs_ambiguous_framing s
               then add_reason proto_ambiguous (e\<lparr>ev_hard_rule := 100, ev_protocol := 100\<rparr>) else e);
          e = (if hs_path_traversal s then add_reason path_traversal (e\<lparr>ev_hard_rule := 100\<rparr>) else e)
      in if hs_command_marker s
         then add_reason command_execution (e\<lparr>ev_hard_rule := 100, ev_consequence := 80\<rparr>) else e)"

lemma clipped_60: "clipped_score 60 = 60"
  by (simp add: clipped_score_def min_def)

interpretation http_detector: evidence_source http_evidence
  by unfold_locales (simp add: http_evidence_def Let_def evidence_bounds clipped_60)

record protocol_features =
  pf_header_count :: u16
  pf_content_length :: u64
  pf_ambiguous_framing :: bool
  pf_path_traversal :: bool

definition extract_http :: "http_summary \<Rightarrow> protocol_features" where
  "extract_http s = \<lparr>pf_header_count = hs_header_count s, pf_content_length = hs_content_length s,
     pf_ambiguous_framing = hs_ambiguous_framing s, pf_path_traversal = hs_path_traversal s\<rparr>"

section \<open>What the preflight says about the header lines\<close>

definition header_ok :: "string \<Rightarrow> bool" where
  "header_ok l \<longleftrightarrow> find_sub '':'' l \<noteq> None \<and> find_sub '':'' l \<noteq> Some 0"

definition header_name :: "string \<Rightarrow> string" where
  "header_name l = lower_copy (take (the (find_sub '':'' l)) l)"

definition header_value :: "string \<Rightarrow> string" where
  "header_value l = dropWhile is_blank (drop (the (find_sub '':'' l) + 1) l)"

definition decimal_u64 :: "string \<Rightarrow> bool" where
  "decimal_u64 v \<longleftrightarrow> v \<noteq> [] \<and> list_all is_digit v \<and> digits_value v < 2 ^ 64"

definition is_length :: "string \<Rightarrow> bool" where
  "is_length l \<longleftrightarrow> header_name l = ''content-length''"

definition is_chunked :: "string \<Rightarrow> bool" where
  "is_chunked l \<longleftrightarrow> header_name l = ''transfer-encoding'' \<and> sublist ''chunked'' (lower_copy (header_value l))"

definition line_ok :: "string \<Rightarrow> bool" where
  "line_ok l \<longleftrightarrow> header_ok l \<and> (is_length l \<longrightarrow> decimal_u64 (header_value l))"

definition lengths_of :: "string list \<Rightarrow> nat list" where
  "lengths_of L = map (\<lambda>l. digits_value (header_value l)) (filter is_length L)"

lemma all_digits: "list_all is_digit v \<Longrightarrow> takeWhile is_digit v = v"
  by (simp add: list_all_iff)

lemma from_chars_decimal:
  "(case from_chars_u64 v of None \<Rightarrow> False | Some (n, used) \<Rightarrow> used = length v) \<longleftrightarrow> decimal_u64 v"
proof (cases "list_all is_digit v")
  case True
  then show ?thesis by (simp add: from_chars_u64_def decimal_u64_def Let_def not_le all_digits)
next
  case False
  then have "takeWhile is_digit v \<noteq> v" by (simp add: takeWhile_eq_all_conv list_all_iff)
  then have "length (takeWhile is_digit v) \<noteq> length v" by (metis takeWhile_eq_take take_all order_refl)
  then show ?thesis using False by (simp add: from_chars_u64_def decimal_u64_def Let_def)
qed

lemma from_chars_value:
  "from_chars_u64 v = Some (n, length v) \<Longrightarrow> decimal_u64 v \<and> unat n = digits_value v"
proof -
  assume a: "from_chars_u64 v = Some (n, length v)"
  then have d: "decimal_u64 v" using from_chars_decimal [of v] by simp
  then have "list_all is_digit v" "digits_value v < 2 ^ 64" by (simp_all add: decimal_u64_def)
  then show ?thesis using a d by (auto simp: from_chars_u64_def Let_def unat_of_nat all_digits split: if_splits)
qed

text \<open>A summary that represents the lines seen so far.\<close>

definition represents :: "string list \<Rightarrow> http_summary \<Rightarrow> bool" where
  "represents seen s \<longleftrightarrow> \<not> hs_malformed s \<and> unat (hs_content_length_count s) = length (lengths_of seen) \<and>
     hs_chunked s = list_ex is_chunked seen \<and>
     (lengths_of seen \<noteq> [] \<longrightarrow> unat (hs_content_length s) = hd (lengths_of seen)) \<and>
     hs_ambiguous_framing s = (1 < card (set (lengths_of seen)))"

lemma represents_start: "represents [] (request_line_marks rl)"
  by (simp add: represents_def request_line_marks_def empty_http_summary_def lengths_of_def Let_def)

lemma card_insert_same:
  "xs \<noteq> [] \<Longrightarrow> 1 < card (set (xs @ [x])) \<longleftrightarrow> 1 < card (set xs) \<or> x \<noteq> hd xs"
proof (cases "set xs \<subseteq> {hd xs}")
  case True
  assume "xs \<noteq> []"
  then have "set xs = {hd xs}" using True by (metis hd_in_set subset_singletonD empty_iff)
  then show ?thesis by (auto simp: card_insert_if)
next
  case False
  assume ne: "xs \<noteq> []"
  have "1 < card (set xs)"
  proof (rule ccontr)
    assume "\<not> 1 < card (set xs)"
    then have "card (set xs) = 1" using ne by (simp add: card_gt_0_iff Suc_leI le_antisym)
    then have "set xs = {hd xs}" using ne by (metis card_1_singletonE hd_in_set singletonD)
    then show False using False by simp
  qed
  then show ?thesis by (auto simp: card_insert_if)
qed

lemma content_length_step_represents:
  assumes r: "represents seen s" "length seen < 2 ^ 32 - 1" and l: "is_length l" "v = header_value l" "\<not> is_chunked l"
  shows "if decimal_u64 v then represents (seen @ [l]) (content_length_step v s) else hs_malformed (content_length_step v s)"
proof -
  have len: "length (lengths_of seen) < 2 ^ 32 - 1"
    using le_less_trans [OF length_filter_le r(2)] by (simp add: lengths_of_def)
  then have cnt: "unat (hs_content_length_count s + 1) = Suc (length (lengths_of seen))"
    using r(1) by (simp add: represents_def unat_word_ariths)
  then have first: "hs_content_length_count s + 1 = 1 \<longleftrightarrow> lengths_of seen = []"
    by (simp add: word_unat_eq_iff)
  have snoc: "lengths_of (seen @ [l]) = lengths_of seen @ [digits_value v]" using l by (simp add: lengths_of_def)
  show ?thesis
  proof (cases "decimal_u64 v")
    case True
    then obtain n where n: "from_chars_u64 v = Some (n, length v)" using from_chars_decimal [of v] by (auto split: option.splits)
    have val: "unat n = digits_value v" using from_chars_value [OF n] by simp
    have eq: "hs_content_length s = n \<longleftrightarrow> hd (lengths_of seen) = digits_value v" if "lengths_of seen \<noteq> []"
      using r(1) val that by (simp add: represents_def word_unat_eq_iff)
    show ?thesis
    proof (cases "lengths_of seen = []")
      case nil: True
      then show ?thesis
        using True n val cnt first r(1) l(3) by (simp add: represents_def content_length_step_def snoc)
    next
      case False
      then show ?thesis
        using True n cnt first r(1) l(3) eq [OF False] card_insert_same [OF False, of "digits_value v"]
        by (cases "hs_content_length s = n")
          (simp_all add: represents_def content_length_step_def snoc del: set_append)
    qed
  next
    case False
    then show ?thesis using from_chars_decimal [of v]
      by (auto simp: content_length_step_def Let_def split: option.splits)
  qed
qed

lemma header_step_represents:
  assumes r: "represents seen s" "length seen < 2 ^ 32 - 1"
  shows "if line_ok l then snd (header_step l s) \<and> represents (seen @ [l]) (fst (header_step l s))
         else hs_malformed (fst (header_step l s))"
proof -
  define s1 where "s1 = s\<lparr>hs_header_count := hs_header_count s + 1\<rparr>"
  have r1: "represents seen s1" using r(1) by (simp add: represents_def s1_def)
  show ?thesis
  proof (cases "header_ok l")
    case False
    then show ?thesis by (auto simp: header_ok_def header_step_def Let_def line_ok_def split: option.splits)
  next
    case True
    then obtain k where k: "find_sub '':'' l = Some k" "k \<noteq> 0" by (auto simp: header_ok_def)
    then have nv: "header_name l = lower_copy (take k l)" "header_value l = dropWhile is_blank (drop (Suc k) l)"
      by (simp_all add: header_name_def header_value_def)
    have step: "header_step l s =
        (if is_length l then (content_length_step (header_value l) s1, True)
         else if header_name l = ''transfer-encoding''
           then (if contains (lower_copy (header_value l)) ''chunked'' then s1\<lparr>hs_chunked := True\<rparr> else s1, True)
         else (s1, True))"
      using k by (simp add: header_step_def Let_def nv [symmetric] s1_def [symmetric] is_length_def)
    show ?thesis
    proof (cases "is_length l")
      case cl: True
      then have "\<not> is_chunked l" by (simp add: is_length_def is_chunked_def)
      from content_length_step_represents [OF r1 r(2) cl refl this]
      show ?thesis using cl step True by (simp add: line_ok_def)
    next
      case False
      then have same: "lengths_of (seen @ [l]) = lengths_of seen" by (simp add: lengths_of_def)
      then show ?thesis
        using False step True r1 by (auto simp: line_ok_def represents_def same is_chunked_def)
    qed
  qed
qed

lemma malformed_stays: "hs_malformed s \<Longrightarrow> hs_malformed (run_lines header_step L s)"
proof (induction L arbitrary: s)
  case (Cons l L)
  have "hs_malformed (fst (header_step l s))"
    using Cons.prems by (auto simp: header_step_def content_length_step_def Let_def split: option.splits)
  then show ?case using Cons.IH by (auto split: prod.splits)
qed simp

lemma run_represents:
  "represents seen s \<Longrightarrow> length (seen @ L) < 2 ^ 32 - 1 \<Longrightarrow>
     if list_all line_ok L then represents (seen @ L) (run_lines header_step L s) else hs_malformed (run_lines header_step L s)"
proof (induction L arbitrary: seen s)
  case (Cons l L)
  have step: "if line_ok l then snd (header_step l s) \<and> represents (seen @ [l]) (fst (header_step l s))
         else hs_malformed (fst (header_step l s))"
    by (rule header_step_represents [OF Cons.prems(1)]) (use Cons.prems(2) in simp)
  show ?case
  proof (cases "line_ok l")
    case True
    then show ?thesis using step Cons.IH [of "seen @ [l]" "fst (header_step l s)"] Cons.prems(2)
      by (auto split: prod.splits)
  next
    case False
    then show ?thesis using step malformed_stays by (auto split: prod.splits)
  qed
qed simp

lemma length_crlf_lines: "length (crlf_lines t) \<le> Suc (length t)"
proof (induction t rule: crlf_lines.induct)
  case (1 t)
  show ?case
  proof (cases "find_sub crlf t")
    case (Some n)
    then have "n + 2 \<le> length t" by (auto dest: find_sub_SomeD)
    then show ?thesis using 1 [OF Some] Some by (simp add: crlf_lines.simps [of t])
  qed (simp add: crlf_lines.simps [of t])
qed

lemma length_block_of: "length (block_of t) \<le> Suc (length t)"
  using length_takeWhile_le [of "\<lambda>l. l \<noteq> []" "crlf_lines t"] length_crlf_lines [of t] by linarith

text \<open>The header lines of a request, as the preflight and the canonicalizer read them.\<close>

definition request_parts :: "string \<Rightarrow> (string \<times> string list) option" where
  "request_parts data =
     (case head_of data of
        None \<Rightarrow> None
      | Some head \<Rightarrow> map_option (\<lambda>n. (take n head, block_of (drop (n + 2) head))) (find_sub crlf head))"

text \<open>
  A request the loop reads: its marks as a statement about the header lines, and the three
  ways a request can be answered before the loop starts.
\<close>

lemma framing_marks:
  assumes size: "length data \<le> 131072" and head: "head_of data = Some head" "\<not> has_ctl head"
    and parts: "request_parts data = Some (rl, L)"
  shows "\<exists>t. parse_request data = Inr t \<and>
    (if list_all line_ok L
     then \<not> hs_malformed t \<and>
       (hs_ambiguous_framing t \<longleftrightarrow> 1 < card (set (lengths_of L)) \<or> (lengths_of L \<noteq> [] \<and> filter is_chunked L \<noteq> []))
     else hs_malformed t)"
proof -
  obtain n where n: "find_sub crlf head = Some n" "rl = take n head" "L = block_of (drop (n + 2) head)"
    using parts head(1) by (auto simp: request_parts_def)
  define s0 where "s0 = request_line_marks (take n head)"
  define t where "t = run_lines header_step L s0"
  have p: "parse_request data =
      Inr (if hs_chunked t \<and> hs_content_length_count t > 0 then t\<lparr>hs_ambiguous_framing := True\<rparr> else t)"
    using size head n by (simp add: parse_request_def Let_def walk_lines_run t_def s0_def)
  have "length head \<le> length data"
    using head(1) by (auto simp: head_of_def)
  then have "length L < 2 ^ 32 - 1"
    using size length_block_of [of "drop (n + 2) head"] by (simp add: n(3))
  then have rep: "if list_all line_ok L then represents L t else hs_malformed t"
    using run_represents [OF represents_start [of "take n head"], of L]
    by (cases "list_all line_ok L") (simp_all add: s0_def t_def)
  show ?thesis
  proof (cases "list_all line_ok L")
    case False
    then show ?thesis using rep p by simp
  next
    case True
    then have r: "represents L t" using rep by simp
    then have "hs_content_length_count t > 0 \<longleftrightarrow> lengths_of L \<noteq> []"
      by (simp add: represents_def word_less_nat_alt)
    moreover have "hs_chunked t \<longleftrightarrow> filter is_chunked L \<noteq> []"
      using r by (auto simp: represents_def list_ex_iff filter_empty_conv)
    ultimately show ?thesis using r True p by (auto simp: represents_def)
  qed
qed

lemma parse_request_early:
  "131072 < length data \<Longrightarrow> parse_request data = Inl St_out_of_budget"
  "length data \<le> 131072 \<Longrightarrow> head_of data = None \<Longrightarrow> parse_request data = Inl St_malformed_input"
  "length data \<le> 131072 \<Longrightarrow> head_of data = Some head \<Longrightarrow> has_ctl head \<Longrightarrow>
     parse_request data = Inr (empty_http_summary\<lparr>hs_malformed := True\<rparr>)"
  "length data \<le> 131072 \<Longrightarrow> head_of data = Some head \<Longrightarrow> \<not> has_ctl head \<Longrightarrow> find_sub crlf head = None \<Longrightarrow>
     parse_request data = Inl St_malformed_input"
  by (simp_all add: parse_request_def)

text \<open>
  C31: the answer of the HTTP preflight. A request of more than 128 KiB is out of budget. A
  smaller one is refused as malformed exactly when it has no empty line after its head, or
  when its head is free of control characters but has no header line at all (no line break
  after the request line); every other request gets a summary. That summary reports the
  request as neither malformed nor ambiguous exactly when its head has no control characters,
  every header line has a name before its colon, every content length is a decimal number
  below 2^64, all of them are equal, and none stands beside a chunked transfer encoding. The
  loop over the lines returns for every input.
\<close>

theorem http1_framing_exact:
  "case parse_request data of
     Inl s \<Rightarrow> (if 131072 < length data then s = St_out_of_budget
       else s = St_malformed_input \<and>
         (case head_of data of None \<Rightarrow> True | Some head \<Rightarrow> has_ctl head = False \<and> contains head crlf = False))
   | Inr s \<Rightarrow> length data \<le> 131072 \<and>
       (case head_of data of None \<Rightarrow> False | Some head \<Rightarrow> has_ctl head \<or> contains head crlf) \<and>
       (hs_malformed s = False \<and> hs_ambiguous_framing s = False \<longleftrightarrow>
        (case head_of data of None \<Rightarrow> False | Some head \<Rightarrow> has_ctl head = False) \<and>
        (case request_parts data of
           None \<Rightarrow> False
         | Some (_, L) \<Rightarrow> list_all line_ok L \<and> card (set (lengths_of L)) \<le> 1 \<and>
             (lengths_of L = [] \<or> filter is_chunked L = [])))"
proof (cases "131072 < length data")
  case size: False
  show ?thesis
  proof (cases "head_of data")
    case head: (Some head)
    consider (ctl) "has_ctl head" | (bare) "\<not> has_ctl head" "find_sub crlf head = None"
      | (lines) n where "\<not> has_ctl head" "find_sub crlf head = Some n"
      by (cases "find_sub crlf head") auto
    then show ?thesis
    proof cases
      case lines
      then obtain L where parts: "request_parts data = Some (take n head, L)"
        using head by (simp add: request_parts_def)
      have "contains head crlf" using lines(2) by (simp add: contains_def del: contains_iff)
      moreover from size have "length data \<le> 131072" by simp
      ultimately show ?thesis
        using framing_marks [OF _ head lines(1) parts] lines parts head
        by (cases "list_all line_ok L") (auto simp: not_less)
    qed (use size head in \<open>simp_all add: parse_request_early find_sub_None_iff not_less\<close>)
  qed (use size in \<open>simp add: parse_request_early\<close>)
qed (simp add: parse_request_early)

text \<open>
  A name with a blank before its colon is not the name the preflight looks for, so a request
  with such a content length and a chunked body passes as unambiguous.
\<close>

definition blank_head :: string where
  "blank_head = ''POST / HTTP/1.1'' @ crlf @ ''Content-Length : 5'' @ crlf @ ''Transfer-Encoding: chunked''"

lemma http1_blank_before_colon:
  "parse_request (blank_head @ crlf @ crlf) =
     Inr (empty_http_summary\<lparr>hs_header_count := 2, hs_chunked := True\<rparr>)"
proof -
  have h: "head_of (blank_head @ crlf @ crlf) = Some blank_head" by (simp add: head_of_def blank_head_def crlf_def)
  have r: "find_sub crlf blank_head = Some 15" by (simp add: crlf_def blank_head_def)
  have t: "take 15 blank_head = ''POST / HTTP/1.1''" by (simp add: blank_head_def)
  have b: "block_of (drop 17 blank_head) = [''Content-Length : 5'', ''Transfer-Encoding: chunked'']"
    by (simp add: crlf_def crlf_lines.simps blank_head_def)
  have c: "\<not> has_ctl blank_head" by (simp add: has_ctl_def crlf_def blank_head_def)
  have m: "request_line_marks ''POST / HTTP/1.1'' = empty_http_summary"
    by (simp add: request_line_marks_def sublist_Cons_right)
  have l: "run_lines header_step [''Content-Length : 5'', ''Transfer-Encoding: chunked''] empty_http_summary =
      empty_http_summary\<lparr>hs_header_count := 2, hs_chunked := True\<rparr>"
    by (simp add: header_step_def lower_copy_def tolower_def empty_http_summary_def is_blank_def sublist_Cons_right char_of_def bit_0)
  have len: "length (blank_head @ crlf @ crlf) \<le> 128 * 1024" by (simp add: blank_head_def crlf_def)
  show ?thesis
    using len by (simp add: parse_request_def h r t b c m l walk_lines_run Let_def del: run_lines.simps)
      (simp add: empty_http_summary_def)
qed

section \<open>http_canonicalizer.cpp\<close>

definition trim_lower :: "string \<Rightarrow> string" where
  "trim_lower text' = lower_copy (rev (dropWhile is_blank (rev (dropWhile is_blank text'))))"

record http_header =
  hh_name :: string
  hh_value :: string

definition header_of :: "nat \<Rightarrow> string \<Rightarrow> http_header" where
  "header_of colon line = \<lparr>hh_name = trim_lower (take colon line), hh_value = trim_lower (drop (colon + 1) line)\<rparr>"

definition collect_header :: "string \<Rightarrow> http_header list result \<Rightarrow> http_header list result \<times> bool" where
  "collect_header line acc =
     (case acc of
        Inl e \<Rightarrow> (Inl e, False)
      | Inr headers \<Rightarrow>
          (case find_sub '':'' line of
             None \<Rightarrow> (Inl St_malformed_input, False)
           | Some colon \<Rightarrow>
               if colon = 0 then (Inl St_malformed_input, False)
               else (Inr (headers @ [header_of colon line]), True)))"

definition render_header :: "http_header \<Rightarrow> string" where
  "render_header h = hh_name h @ '':'' @ hh_value h @ [CHR 0x0A]"

text \<open>
  The order of \<open>std::sort\<close>: by name, and by value among equal names; strings compare byte by
  byte. Headers that compare equal are equal, so the result of the sort is determined.
\<close>

definition header_key :: "http_header \<Rightarrow> string \<times> string" where
  "header_key h = (hh_name h, hh_value h)"

definition canonicalize_request :: "string \<Rightarrow> string result" where
  "canonicalize_request request =
     (if length request > 1024 * 1024 then Inl St_out_of_budget
      else
        (case head_of request of
           None \<Rightarrow> Inl St_malformed_input
         | Some head \<Rightarrow>
             (case find_sub crlf head of
                None \<Rightarrow> Inl St_malformed_input
              | Some first_end \<Rightarrow>
                  (case walk_lines collect_header head (first_end + 2) (Inr []) of
                     Inl e \<Rightarrow> Inl e
                   | Inr headers \<Rightarrow>
                       Inr (trim_lower (take first_end head) @ [CHR 0x0A] @
                            concat (map render_header (sort_key header_key headers)))))))"

lemma collect_headers:
  "run_lines collect_header L (Inr hs) =
     (if list_all header_ok L then Inr (hs @ map (\<lambda>l. header_of (the (find_sub '':'' l)) l) L) else Inl St_malformed_input)"
proof (induction L arbitrary: hs)
  case (Cons l L)
  show ?case
    by (cases "find_sub '':'' l") (simp_all add: collect_header_def [of l] header_ok_def [of l] Cons.IH)
qed simp

lemma header_key_inj: "header_key a = header_key b \<Longrightarrow> a = b"
  by (cases a; cases b) (simp add: header_key_def)

lemma sort_headers_mset: "mset hs = mset hs' \<Longrightarrow> sort_key header_key hs = sort_key header_key hs'"
  by (rule sort_key_inj_key_eq) (auto intro: inj_onI header_key_inj)

text \<open>The canonical form as a function of the parts of the request.\<close>

lemma canonicalize_parts:
  "canonicalize_request request =
     (if length request > 1024 * 1024 then Inl St_out_of_budget
      else
        (case request_parts request of
           None \<Rightarrow> Inl St_malformed_input
         | Some (first, L) \<Rightarrow>
             if list_all header_ok L
             then Inr (trim_lower first @ [CHR 0x0A] @
               concat (map render_header (sort_key header_key (map (\<lambda>l. header_of (the (find_sub '':'' l)) l) L))))
             else Inl St_malformed_input))"
  by (simp add: canonicalize_request_def request_parts_def walk_lines_run collect_headers split: option.splits)

text \<open>
  The canonical form of a request forgets exactly what it is meant to forget. Two requests
  within the size limit whose request lines agree up to letter case and outer blanks, and
  whose header lines agree as a bag after trimming and folding names and values, have the
  same canonical form, or are both refused; the order of the headers does not matter.
\<close>

theorem canonical_form_invariant:
  assumes "request_parts r = Some (first, L)" "request_parts r' = Some (first', L')"
    and "length r \<le> 1048576" "length r' \<le> 1048576"
    and "trim_lower first = trim_lower first'"
    and "list_all header_ok L = list_all header_ok L'"
    and "mset (map (\<lambda>l. header_of (the (find_sub '':'' l)) l) L) = mset (map (\<lambda>l. header_of (the (find_sub '':'' l)) l) L')"
  shows "canonicalize_request r = canonicalize_request r'"
  using assms sort_headers_mset [OF assms(7)] by (simp add: canonicalize_parts)

definition sample_request :: "string \<Rightarrow> string \<Rightarrow> string" where
  "sample_request a b = ''G'' @ crlf @ a @ crlf @ b @ crlf @ crlf"

lemma sample_parts:
  "request_parts (sample_request ''A: 1'' ''b:2'') = Some (''G'', [''A: 1'', ''b:2''])"
  "request_parts (sample_request ''B:2 '' ''a:1'') = Some (''G'', [''B:2 '', ''a:1''])"
  by (simp_all add: sample_request_def request_parts_def head_of_def crlf_def crlf_lines.simps)

theorem canonical_form_invariant_witness:
  "canonicalize_request (sample_request ''A: 1'' ''b:2'') = canonicalize_request (sample_request ''B:2 '' ''a:1'')"
  by (rule canonical_form_invariant [OF sample_parts])
    (simp_all add: sample_request_def header_ok_def header_of_def trim_lower_def lower_copy_def tolower_def is_blank_def char_of_def bit_0 add_mset_commute)

end
