(* ===== verification/AIS_Crc.thy ===== *)
theory AIS_Crc
  imports AIS_Reader
begin

text \<open>
  The checksum of an archive entry (\<open>crc32\<close> of \<open>src/zip_preflight.cpp\<close>), computed bit by bit
  as the code does it. One step is linear and injective, so that four successive bytes enter
  the state as one 32-bit word; hence the checksum notices every change confined to four
  neighbouring bytes.
\<close>

section \<open>CRC-32\<close>

definition crc_polynomial :: u32 where "crc_polynomial = 0xedb88320"

definition crc_bit :: "u32 \<Rightarrow> u32" where
  "crc_bit crc = drop_bit 1 crc XOR (crc_polynomial AND (0 - (crc AND 1)))"

definition crc_byte :: "u32 \<Rightarrow> u8 \<Rightarrow> u32" where
  "crc_byte crc byte = (crc_bit ^^ 8) (crc XOR ucast byte)"

definition crc32 :: "bytes \<Rightarrow> u32" where
  "crc32 data = NOT (foldl crc_byte 0xffffffff data)"

lemma crc_bit_if: "crc_bit c = (if bit c 0 then drop_bit 1 c XOR crc_polynomial else drop_bit 1 c)"
proof -
  have "c AND 1 = of_bool (bit c 0)"
    by (rule bit_word_eqI) (auto simp: bit_simps)
  then show ?thesis by (simp add: crc_bit_def)
qed

lemma crc_bit_xor: "crc_bit (a XOR b) = crc_bit a XOR crc_bit b"
proof -
  have "drop_bit 1 (a XOR b) = drop_bit 1 a XOR drop_bit 1 b" by (simp add: drop_bit_xor)
  moreover have "(x XOR p) XOR (y XOR p) = x XOR y" for x y p :: u32
    by (rule bit_word_eqI) (auto simp: bit_xor_iff)
  ultimately show ?thesis by (simp add: crc_bit_if bit_xor_iff) (simp add: xor.assoc xor.left_commute)
qed

lemma crc_bit_zero: "crc_bit a = 0 \<longleftrightarrow> a = 0"
proof
  assume z: "crc_bit a = 0"
  have "bit crc_polynomial 31" by (simp add: crc_polynomial_def bit_simps)
  then have "bit a 0 \<Longrightarrow> bit (crc_bit a) 31"
    by (simp add: crc_bit_if bit_xor_iff bit_drop_bit_eq) (use bit_imp_le_length [of a 32] in force)
  with z have even: "\<not> bit a 0" by auto
  then have "drop_bit 1 a = 0" using z by (simp add: crc_bit_if)
  then have d: "\<not> bit (drop_bit 1 a) m" for m by (simp only: bit_0_eq) simp
  show "a = 0"
  proof (rule bit_word_eqI)
    fix n assume "n < LENGTH(32)"
    show "bit a n \<longleftrightarrow> bit 0 n" using even d [of "n - 1"] by (cases n) (simp_all add: bit_drop_bit_eq)
  qed
qed (simp add: crc_bit_if)

lemma crc_bits_xor: "(crc_bit ^^ n) (a XOR b) = (crc_bit ^^ n) a XOR (crc_bit ^^ n) b"
  by (induction n) (simp_all add: crc_bit_xor)

lemma crc_bits_zero: "(crc_bit ^^ n) a = 0 \<longleftrightarrow> a = 0"
  by (induction n) (simp_all add: crc_bit_zero)

lemma crc_bits_inject: "(crc_bit ^^ n) a = (crc_bit ^^ n) b \<longleftrightarrow> a = b"
  using crc_bits_zero [of n "a XOR b"] by (simp add: crc_bits_xor xor_eq_zero_iff)

lemma crc_steps_inject: "((crc_bit ^^ 8) ^^ n) a = ((crc_bit ^^ 8) ^^ n) b \<longleftrightarrow> a = b"
  by (simp only: funpow_mult crc_bits_inject)

lemma xor_left_cancel: "s XOR a = s XOR b \<longleftrightarrow> a = (b :: u32)"
proof
  assume "s XOR a = s XOR b"
  then have "s XOR (s XOR a) = s XOR (s XOR b)" by (rule arg_cong)
  then show "a = b" by (simp only: bit.xor_left_self)
qed simp

text \<open>Clear low bits are only shifted out.\<close>

lemma crc_bits_shift: "(\<And>i. i < n \<Longrightarrow> \<not> bit a i) \<Longrightarrow> (crc_bit ^^ n) a = drop_bit n a"
proof (induction n arbitrary: a)
  case (Suc n)
  have "crc_bit a = drop_bit 1 a" using Suc.prems [of 0] by (simp add: crc_bit_if)
  moreover have "(crc_bit ^^ n) (drop_bit 1 a) = drop_bit n (drop_bit 1 a)"
    using Suc.prems by (intro Suc.IH) (simp add: bit_drop_bit_eq)
  ultimately show ?case by (simp add: funpow_Suc_right del: funpow.simps)
qed simp

lemma crc_steps_shift:
  "8 * Suc k \<le> 32 \<Longrightarrow> ((crc_bit ^^ 8) ^^ k) (push_bit (8 * k) (ucast (b::u8))) = ucast b"
proof (induction k)
  case (Suc k)
  let ?y = "push_bit (8 * k) (ucast b) :: u32"
  have "(crc_bit ^^ 8) (push_bit 8 ?y) = drop_bit 8 (push_bit 8 ?y)"
    by (rule crc_bits_shift) (simp add: bit_push_bit_iff)
  also have "\<dots> = ?y"
  proof (rule bit_word_eqI)
    fix n assume "n < LENGTH(32)"
    show "bit (drop_bit 8 (push_bit 8 ?y)) n \<longleftrightarrow> bit ?y n"
      using Suc.prems bit_imp_le_length [of b "n - 8 * k"] bit_imp_le_length [of ?y n]
      by (auto simp: bit_simps)
  qed
  finally have "(crc_bit ^^ 8) (push_bit (8 * Suc k) (ucast b)) = ?y" by (simp add: ac_simps)
  then show ?case using Suc by (simp add: funpow_Suc_right del: funpow.simps)
qed simp

lemma le_word_snoc:
  "8 * length bs < 32 \<Longrightarrow> (le_word (bs @ [b]) :: u32) = le_word bs XOR push_bit (8 * length bs) (ucast b)"
proof (rule bit_word_eqI)
  fix n assume "n < LENGTH(32)" "8 * length bs < 32"
  moreover have "n div 8 = length bs \<longleftrightarrow> 8 * length bs \<le> n \<and> n - 8 * length bs < 8" by arith
  moreover have "n div 8 = length bs \<Longrightarrow> n mod 8 = n - 8 * length bs"
    by (auto simp: minus_mult_div_eq_mod [symmetric] ac_simps)
  moreover have "bit b (n - 8 * length bs) \<Longrightarrow> n - 8 * length bs < 8"
    using bit_imp_le_length [of b "n - 8 * length bs"] by simp
  ultimately show "bit (le_word (bs @ [b]) :: u32) n \<longleftrightarrow> bit (le_word bs XOR push_bit (8 * length bs) (ucast b) :: u32) n"
    by (auto simp: bit_le_word bit_xor_iff bit_push_bit_iff bit_ucast_iff nth_append)
qed

lemma crc_block: "length bs \<le> 4 \<Longrightarrow> foldl crc_byte s bs = ((crc_bit ^^ 8) ^^ length bs) (s XOR le_word bs)"
proof (induction bs rule: rev_induct)
  case Nil
  then show ?case by (simp add: le_word_def)
next
  case (snoc b bs)
  let ?L = "(crc_bit ^^ 8) ^^ length bs"
  have lin: "?L (x XOR y) = ?L x XOR ?L y" for x y
    by (simp add: funpow_mult crc_bits_xor)
  have "foldl crc_byte s bs = ?L (s XOR le_word bs)" using snoc by simp
  then have "foldl crc_byte s (bs @ [b]) = (crc_bit ^^ 8) (?L (s XOR le_word bs) XOR ucast b)"
    by (simp add: crc_byte_def [of _ b] del: funpow.simps)
  also have "ucast b = ?L (push_bit (8 * length bs) (ucast b))"
    using snoc.prems by (intro crc_steps_shift [symmetric]) simp
  finally show ?case using snoc.prems
    by (simp add: lin [symmetric] le_word_snoc xor.assoc)
qed

lemma crc_byte_inject: "crc_byte s b = crc_byte t b \<longleftrightarrow> s = t"
  by (simp only: crc_byte_def crc_bits_inject xor.commute [of _ "ucast b"] xor_left_cancel)

lemma crc_run_inject: "foldl crc_byte s bs = foldl crc_byte t bs \<longleftrightarrow> s = t"
  by (induction bs arbitrary: s t) (simp_all add: crc_byte_inject)

lemma le_word_inject4:
  assumes "length v = length w" "length v \<le> 4" "(le_word v :: u32) = le_word w"
  shows "v = w"
proof (rule nth_equalityI)
  fix i assume i: "i < length v"
  show "v ! i = w ! i"
  proof (rule bit_word_eqI)
    fix n assume "n < LENGTH(8)"
    then have n: "n < 8" by simp
    with i assms have "8 * i + n < 32" by simp
    then show "bit (v ! i) n \<longleftrightarrow> bit (w ! i) n"
      using arg_cong [OF assms(3), of "\<lambda>x. bit x (8 * i + n)"] i n assms(1)
      by (simp add: bit_le_word)
  qed
qed (use assms in simp)

text \<open>
  C27: the checksum notices every change that is confined to four neighbouring bytes of the
  contents, whatever stands before and after them; so in particular every changed byte and
  every burst of up to 25 bits.
\<close>

theorem crc32_detects_bursts:
  assumes "length v = length w" "length v \<le> 4" "v \<noteq> w"
  shows "crc32 (before @ v @ after) \<noteq> crc32 (before @ w @ after)"
proof
  define s where "s = foldl crc_byte 0xffffffff before"
  assume "crc32 (before @ v @ after) = crc32 (before @ w @ after)"
  then have "foldl crc_byte (foldl crc_byte s v) after = foldl crc_byte (foldl crc_byte s w) after"
    by (simp only: crc32_def foldl_append s_def bit.compl_eq_compl_iff)
  then have "((crc_bit ^^ 8) ^^ length v) (s XOR le_word v) = ((crc_bit ^^ 8) ^^ length v) (s XOR le_word w)"
    using assms by (simp only: crc_run_inject crc_block)
  then have "s XOR le_word v = s XOR le_word w" by (simp only: crc_steps_inject)
  then have "(le_word v :: u32) = le_word w" by (simp only: xor_left_cancel)
  then show False using le_word_inject4 assms by blast
qed

theorem crc32_detects_bursts_witness:
  "crc32 (bytes_of ''pay 1'' @ [0x30, 0x30] @ bytes_of '' to A'') \<noteq> crc32 (bytes_of ''pay 1'' @ [0x39, 0x39] @ bytes_of '' to A'')"
  by (rule crc32_detects_bursts) simp_all

end
