(* ===== verification/AIS_ZipText.thy ===== *)
theory AIS_ZipText
  imports AIS_Reader
begin

text \<open>
  The names of archive entries in \<open>src/zip_preflight.cpp\<close>: the check of a name that claims to
  be UTF-8 (\<open>valid_utf8\<close>), the canonical form of a name (\<open>canonical_name\<close>) and its extension
  (\<open>extension_is\<close>). Names are the bytes of the archive; a literal of the source is
  \<open>bytes_of\<close> of its text. The UTF-8 check is shown to accept exactly the encodings of sequences of Unicode scalar values other
  than zero; and the canonical form to be the lower-case join of the components of the name,
  absent exactly when the name could leave the directory it is unpacked into.
\<close>

section \<open>UTF-8\<close>

text \<open>
  The scan of one name: the leading byte gives the number of continuation bytes and the first
  bits of the scalar value; overlong forms, surrogates, values beyond the last plane and the
  NUL character are refused.
\<close>

fun utf8_tail :: "nat \<Rightarrow> u32 \<Rightarrow> bytes \<Rightarrow> (u32 \<times> bytes) option" where
  "utf8_tail 0 scalar bs = Some (scalar, bs)"
| "utf8_tail (Suc n) scalar [] = None"
| "utf8_tail (Suc n) scalar (continuation # bs) =
     (if continuation AND 0xc0 \<noteq> 0x80 then None
      else utf8_tail n (push_bit 6 scalar OR ucast (continuation AND 0x3f)) bs)"

definition utf8_lead :: "u8 \<Rightarrow> (nat \<times> u32) option" where
  "utf8_lead first =
     (if first AND 0xe0 = 0xc0 then Some (1, ucast (first AND 0x1f))
      else if first AND 0xf0 = 0xe0 then Some (2, ucast (first AND 0x0f))
      else if first AND 0xf8 = 0xf0 then Some (3, ucast (first AND 0x07))
      else None)"

definition utf8_refused :: "nat \<Rightarrow> u32 \<Rightarrow> bool" where
  "utf8_refused remaining scalar \<longleftrightarrow>
     remaining = 1 \<and> scalar < 0x80 \<or> remaining = 2 \<and> scalar < 0x800 \<or>
     remaining = 3 \<and> scalar < 0x10000 \<or> scalar > 0x10ffff \<or> 0xd800 \<le> scalar \<and> scalar \<le> 0xdfff"

definition utf8_step :: "bytes \<Rightarrow> bytes option" where
  "utf8_step bs =
     (case bs of
        [] \<Rightarrow> None
      | first # rest \<Rightarrow>
          if first < 0x80 then (if first = 0 then None else Some rest)
          else (case utf8_lead first of
                  None \<Rightarrow> None
                | Some (remaining, scalar) \<Rightarrow>
                    if length rest < remaining then None
                    else (case utf8_tail remaining scalar rest of
                            None \<Rightarrow> None
                          | Some (scalar, rest) \<Rightarrow> if utf8_refused remaining scalar then None else Some rest)))"

lemma utf8_tail_length: "utf8_tail n s bs = Some (s', bs') \<Longrightarrow> length bs' + n = length bs"
  by (induction n s bs rule: utf8_tail.induct) (auto split: if_splits)

lemma utf8_step_shorter: "utf8_step bs = Some rest \<Longrightarrow> length rest < length bs"
  by (auto simp: utf8_step_def split: list.splits if_splits option.splits dest!: utf8_tail_length)

function valid_utf8 :: "bytes \<Rightarrow> bool" where
  "valid_utf8 bs =
     (if bs = [] then True
      else (case utf8_step bs of None \<Rightarrow> False | Some rest \<Rightarrow> valid_utf8 rest))"
  by pat_completeness auto
termination by (relation "measure length") (auto dest: utf8_step_shorter)

declare valid_utf8.simps [simp del]

text \<open>The standard's encoding of a scalar value, over the natural numbers.\<close>

definition unicode_scalar :: "nat \<Rightarrow> bool" where
  "unicode_scalar n \<longleftrightarrow> n \<le> 0x10ffff \<and> n \<notin> {0xd800..0xdfff}"

definition encode_utf8 :: "nat \<Rightarrow> bytes" where
  "encode_utf8 n = map of_nat
     (if n < 0x80 then [n]
      else if n < 0x800 then [0xc0 + n div 64, 0x80 + n mod 64]
      else if n < 0x10000 then [0xe0 + n div 4096, 0x80 + n div 64 mod 64, 0x80 + n mod 64]
      else [0xf0 + n div 262144, 0x80 + n div 4096 mod 64, 0x80 + n div 64 mod 64, 0x80 + n mod 64])"

text \<open>A mask of high bits compares a quotient, a mask of low bits leaves a remainder.\<close>

lemma unat_drop_bit: "unat (drop_bit n (b :: 'a::len word)) = unat b div 2 ^ n"
  by (simp only: unsigned_drop_bit_eq) (simp add: drop_bit_eq_div take_bit_nat_eq_self)

lemma high_bits:
  assumes "m = NOT (mask n)" "v = push_bit n c" "drop_bit n v = c"
  shows "b AND m = v \<longleftrightarrow> unat (b :: 'a::len word) div 2 ^ n = unat c"
proof -
  have "b AND m = push_bit n (drop_bit n b)"
    unfolding assms by (rule bit_word_eqI) (auto simp: bit_simps)
  moreover have "drop_bit n (push_bit n (drop_bit n b)) = drop_bit n b"
    by (rule bit_word_eqI) (auto simp: bit_simps dest: bit_imp_le_length)
  ultimately have "b AND m = v \<longleftrightarrow> drop_bit n b = c" using assms by metis
  then show ?thesis by (simp only: word_unat_eq_iff unat_drop_bit)
qed

lemma low_bits: "m = mask n \<Longrightarrow> unat (b AND m) = unat (b :: 'a::len word) mod 2 ^ n"
  by (simp only: take_bit_eq_mask [symmetric] unsigned_take_bit_eq) (simp only: take_bit_eq_mod)

lemma continuation_byte:
  "b AND 0xc0 = 0x80 \<longleftrightarrow> unat (b::u8) div 64 = 2" "unat (b AND 0x3f) = unat b mod 64"
  using high_bits [of "0xc0" 6 "0x80" 2 b] low_bits [of "0x3f" 6 b] by (simp_all add: mask_eq_exp_minus_1)

lemma lead_byte:
  "b AND 0xe0 = 0xc0 \<longleftrightarrow> unat (b::u8) div 32 = 6" "unat (b AND 0x1f) = unat b mod 32"
  "b AND 0xf0 = 0xe0 \<longleftrightarrow> unat (b::u8) div 16 = 14" "unat (b AND 0x0f) = unat b mod 16"
  "b AND 0xf8 = 0xf0 \<longleftrightarrow> unat (b::u8) div 8 = 30" "unat (b AND 0x07) = unat b mod 8"
  using high_bits [of "0xe0" 5 "0xc0" 6 b] low_bits [of "0x1f" 5 b]
    high_bits [of "0xf0" 4 "0xe0" 14 b] low_bits [of "0x0f" 4 b]
    high_bits [of "0xf8" 3 "0xf0" 30 b] low_bits [of "0x07" 3 b]
  by (simp_all add: mask_eq_exp_minus_1)

lemma utf8_lead_value:
  "(case utf8_lead b of
      None \<Rightarrow> unat b < 0xc0 \<or> 0xf8 \<le> unat b
    | Some (n, s) \<Rightarrow> (n = 1 \<and> unat b \<in> {0xc0..<0xe0} \<and> unat s = unat b - 0xc0 \<or>
        n = 2 \<and> unat b \<in> {0xe0..<0xf0} \<and> unat s = unat b - 0xe0 \<or>
        n = 3 \<and> unat b \<in> {0xf0..<0xf8} \<and> unat s = unat b - 0xf0))"
proof -
  have "unat (ucast (b AND m) :: u32) = unat (b AND m)" for m
    using unsigned_less [of "b AND m", where 'a = nat] by (simp add: unsigned_ucast_eq take_bit_nat_eq_self)
  note u = this lead_byte(2,4,6)
  consider "unat b div 32 = 6" | "unat b div 32 \<noteq> 6" "unat b div 16 = 14"
    | "unat b div 32 \<noteq> 6" "unat b div 16 \<noteq> 14" "unat b div 8 = 30"
    | "unat b div 32 \<noteq> 6" "unat b div 16 \<noteq> 14" "unat b div 8 \<noteq> 30" by blast
  then show ?thesis
  proof cases
    case 1
    then have "unat b = 192 + unat b mod 32" using mult_div_mod_eq [of 32 "unat b"] by simp
    then obtain r where "unat b = 192 + r" "r < 32" "unat b mod 32 = r" by (metis mod_less_divisor zero_less_numeral)
    then show ?thesis using 1 u(1) [of "0x1f"] by (simp add: utf8_lead_def lead_byte)
  next
    case 2
    then have "unat b = 224 + unat b mod 16" using mult_div_mod_eq [of 16 "unat b"] by simp
    then obtain r where "unat b = 224 + r" "r < 16" "unat b mod 16 = r" by (metis mod_less_divisor zero_less_numeral)
    then show ?thesis using 2 u(1) [of "0x0f"] by (simp add: utf8_lead_def lead_byte)
  next
    case 3
    then have "unat b = 240 + unat b mod 8" using mult_div_mod_eq [of 8 "unat b"] by simp
    then obtain r where "unat b = 240 + r" "r < 8" "unat b mod 8 = r" by (metis mod_less_divisor zero_less_numeral)
    then show ?thesis using 3 u(1) [of "0x07"] by (simp add: utf8_lead_def lead_byte)
  next
    case 4
    then show ?thesis by (simp add: utf8_lead_def lead_byte) linarith
  qed
qed

lemma utf8_bits:
  "unat s < 2 ^ 26 \<Longrightarrow> unat (push_bit 6 s OR ucast (c AND 0x3f) :: u32) = 64 * unat s + unat (c::u8) mod 64"
proof -
  assume s: "unat s < 2 ^ 26"
  have "unat (ucast (c AND 0x3f) :: u32) = unat (c AND 0x3f)"
    using unsigned_less [of "c AND 0x3f", where 'a = nat]
    by (simp add: unsigned_ucast_eq take_bit_nat_eq_self)
  then have c: "unat (ucast (c AND 0x3f) :: u32) = unat c mod 64" by (simp only: continuation_byte)
  have "push_bit 6 s AND ucast (c AND 0x3f) = (0 :: u32)"
  proof (rule bit_word_eqI)
    fix n assume "n < LENGTH(32)"
    have "\<not> bit (0x3f :: u8) n" if "6 \<le> n"
    proof -
      have "(0x3f :: u8) = take_bit 6 (- 1)" by (simp add: mask_eq_take_bit_minus_one [symmetric] mask_eq_exp_minus_1)
      then show ?thesis using that by (simp only: bit_take_bit_iff) simp
    qed
    then show "bit (push_bit 6 s AND ucast (c AND 0x3f) :: u32) n \<longleftrightarrow> bit (0 :: u32) n"
      by (auto simp: bit_and_iff bit_push_bit_iff bit_ucast_iff)
  qed
  then have "push_bit 6 s OR ucast (c AND 0x3f) = push_bit 6 s + (ucast (c AND 0x3f) :: u32)"
    by (simp only: disjunctive_add_eq_or)
  moreover have "push_bit 6 s = 64 * s" by (simp add: push_bit_eq_mult)
  ultimately show ?thesis using s c by (simp add: unat_word_ariths)
qed

definition utf8_more :: "u32 \<Rightarrow> bytes \<Rightarrow> u32" where
  "utf8_more s cs = foldl (\<lambda>v c. push_bit 6 v OR ucast (c AND 0x3f)) s cs"

lemma utf8_tail_iff:
  "utf8_tail n s bs = Some (s', rest) \<longleftrightarrow>
     (\<exists>cs. bs = cs @ rest \<and> length cs = n \<and> (\<forall>c \<in> set cs. unat c div 64 = 2) \<and> s' = utf8_more s cs)"
proof (induction n s bs rule: utf8_tail.induct)
  case (1 s bs)
  show ?case by (auto simp: utf8_more_def)
next
  case (2 n s)
  show ?case by auto
next
  case (3 n s c bs)
  show ?case
  proof (cases "unat c div 64 = 2")
    case True
    then have "utf8_tail (Suc n) s (c # bs) = utf8_tail n (utf8_more s [c]) bs"
      by (simp add: continuation_byte utf8_more_def)
    also have "\<dots> = Some (s', rest) \<longleftrightarrow>
        (\<exists>cs. bs = cs @ rest \<and> length cs = n \<and> (\<forall>c \<in> set cs. unat c div 64 = 2) \<and> s' = utf8_more (utf8_more s [c]) cs)"
      using 3 True by (simp add: continuation_byte utf8_more_def)
    also have "\<dots> \<longleftrightarrow> (\<exists>cs. c # bs = cs @ rest \<and> length cs = Suc n \<and> (\<forall>c \<in> set cs. unat c div 64 = 2) \<and> s' = utf8_more s cs)"
      using True by (auto simp: utf8_more_def Cons_eq_append_conv length_Suc_conv)
    finally show ?thesis .
  next
    case False
    then show ?thesis by (auto simp: continuation_byte Cons_eq_append_conv length_Suc_conv)
  qed
qed

lemma utf8_more_value:
  "(unat s + 1) * 64 ^ length cs \<le> 2 ^ 32 \<Longrightarrow>
   unat (utf8_more s cs) = foldl (\<lambda>v c. 64 * v + unat c mod 64) (unat s) cs"
proof (induction cs arbitrary: s)
  case (Cons c cs)
  have p: "64 * (64 ^ length cs :: nat) \<ge> 64" by simp
  have "(unat s + 1) * 64 \<le> (unat s + 1) * (64 * 64 ^ length cs)" by (rule mult_le_mono2) (rule p)
  also have "\<dots> \<le> 2 ^ 32" using Cons.prems by (simp add: algebra_simps)
  finally have "unat s < 2 ^ 26" by simp
  then have v: "unat (push_bit 6 s OR ucast (c AND 0x3f)) = 64 * unat s + unat c mod 64" by (rule utf8_bits)
  have "(64 * unat s + unat c mod 64 + 1) * 64 ^ length cs \<le> (unat s + 1) * 64 * 64 ^ length cs"
    by (rule mult_le_mono1) simp
  also have "\<dots> \<le> 2 ^ 32" using Cons.prems by (simp add: algebra_simps)
  finally show ?case using Cons.IH v by (simp add: utf8_more_def)
qed (simp add: utf8_more_def)

lemma utf8_step_encode:
  assumes "unicode_scalar n" "n \<noteq> 0"
  shows "utf8_step (encode_utf8 n @ rest) = Some rest"
proof -
  have multi: "utf8_step (encode_utf8 n @ rest) = Some rest"
    if enc: "encode_utf8 n = b # cs" and lead: "utf8_lead b = Some (k, s)" and "length cs = k" and big: "128 \<le> unat b"
      and cs: "\<forall>c \<in> set cs. unat c div 64 = 2" and "(unat s + 1) * 64 ^ k \<le> 2 ^ 32"
      and total: "foldl (\<lambda>v c. 64 * v + unat c mod 64) (unat s) cs = n"
      and ok: "\<not> utf8_refused k (of_nat n)" for b s cs k
  proof -
    have "unat (utf8_more s cs) = n" using utf8_more_value that by metis
    then have "utf8_more s cs = of_nat n" by (metis of_nat_unat ucast_id)
    moreover have "utf8_tail k s (cs @ rest) = Some (utf8_more s cs, rest)"
      using cs \<open>length cs = k\<close> by (auto simp: utf8_tail_iff)
    ultimately show ?thesis using lead big ok \<open>length cs = k\<close> by (simp add: enc utf8_step_def word_less_nat_alt)
  qed
  have n: "unat (of_nat n :: u32) = n" using assms by (simp add: unat_of_nat unicode_scalar_def)
  have small: "unat (of_nat k :: u8) = k" if "k < 256" for k using that by (simp add: unat_of_nat)
  have refused: "\<not> utf8_refused k (of_nat n)" if "(if n < 0x800 then k = 1 else if n < 0x10000 then k = 2 else k = 3)" "0x80 \<le> n" for k
    using assms that n by (auto simp: utf8_refused_def unicode_scalar_def word_less_nat_alt word_le_nat_alt split: if_splits)
  have quot: "n div 4096 = n div 64 div 64" "n div 262144 = n div 64 div 64 div 64"
    by (simp_all flip: div_mult2_eq)
  have c: "unat (of_nat (0x80 + k mod 64) :: u8) = 0x80 + k mod 64" for k by (intro small) simp
  have d: "(128 + k mod 64) div 64 = 2" "(128 + k mod 64) mod 64 = k mod 64" for k :: nat
    using div_mult_self1 [of 64 "k mod 64" 2] mod_mult_self1 [of "k mod 64" 2 64] by (simp_all add: add.commute)
  consider "n < 0x80" | "0x80 \<le> n" "n < 0x800" | "0x800 \<le> n" "n < 0x10000" | "0x10000 \<le> n" by linarith
  then show ?thesis
  proof cases
    case 1
    then show ?thesis using assms small [of n]
      by (simp add: encode_utf8_def utf8_step_def word_less_nat_alt unat_eq_0 [symmetric])
  next
    case 2
    have b: "unat (of_nat (0xc0 + n div 64) :: u8) = 0xc0 + n div 64" using 2 by (intro small) simp
    obtain s where s: "utf8_lead (of_nat (0xc0 + n div 64)) = Some (1, s)" "unat s = n div 64"
      using utf8_lead_value [of "of_nat (0xc0 + n div 64)"] 2 unfolding b by (auto split: option.splits)
    let ?cs = "[of_nat (0x80 + n mod 64)] :: bytes"
    have total: "foldl (\<lambda>v c. 64 * v + unat c mod 64) (unat s) ?cs = n"
      by (simp only: s foldl.simps c d quot mult_div_mod_eq)
    have enc: "encode_utf8 n = of_nat (0xc0 + n div 64) # ?cs" using 2 by (simp add: encode_utf8_def)
    have tail: "\<forall>c \<in> set ?cs. unat c div 64 = 2" by (simp only: list.set ball_simps c d simp_thms)
    show ?thesis by (rule multi [OF enc s(1) _ _ tail _ total refused]) (use b s(2) 2 in simp_all)
  next
    case 3
    have b: "unat (of_nat (0xe0 + n div 4096) :: u8) = 0xe0 + n div 4096" using 3 by (intro small) simp
    obtain s where s: "utf8_lead (of_nat (0xe0 + n div 4096)) = Some (2, s)" "unat s = n div 4096"
      using utf8_lead_value [of "of_nat (0xe0 + n div 4096)"] 3 unfolding b by (auto split: option.splits)
    let ?cs = "[of_nat (0x80 + n div 64 mod 64), of_nat (0x80 + n mod 64)] :: bytes"
    have total: "foldl (\<lambda>v c. 64 * v + unat c mod 64) (unat s) ?cs = n"
      by (simp only: s foldl.simps c d quot mult_div_mod_eq)
    have enc: "encode_utf8 n = of_nat (0xe0 + n div 4096) # ?cs" using 3 by (simp add: encode_utf8_def)
    have tail: "\<forall>c \<in> set ?cs. unat c div 64 = 2" by (simp only: list.set ball_simps c d simp_thms)
    show ?thesis by (rule multi [OF enc s(1) _ _ tail _ total refused]) (use b s(2) 3 in simp_all)
  next
    case 4
    have small4: "n div 262144 < 8" using assms less_mult_imp_div_less [of n 8 262144] by (simp add: unicode_scalar_def)
    have b: "unat (of_nat (0xf0 + n div 262144) :: u8) = 0xf0 + n div 262144" using small4 by (intro small) simp
    obtain s where s: "utf8_lead (of_nat (0xf0 + n div 262144)) = Some (3, s)" "unat s = n div 262144"
      using utf8_lead_value [of "of_nat (0xf0 + n div 262144)"] small4 unfolding b by (auto split: option.splits)
    let ?cs = "[of_nat (0x80 + n div 4096 mod 64), of_nat (0x80 + n div 64 mod 64), of_nat (0x80 + n mod 64)] :: bytes"
    have total: "foldl (\<lambda>v c. 64 * v + unat c mod 64) (unat s) ?cs = n"
      by (simp only: s foldl.simps c d quot mult_div_mod_eq)
    have enc: "encode_utf8 n = of_nat (0xf0 + n div 262144) # ?cs" using 4 by (simp add: encode_utf8_def)
    have tail: "\<forall>c \<in> set ?cs. unat c div 64 = 2" by (simp only: list.set ball_simps c d simp_thms)
    show ?thesis by (rule multi [OF enc s(1) _ _ tail _ total refused]) (use b s(2) 4 small4 in simp_all)
  qed
qed

text \<open>Conversely, what a step takes off is the encoding of the value it has computed.\<close>

lemma digit: "(64 * a + b mod 64) div 64 = a" "(64 * a + b mod 64) mod 64 = b mod 64" for a b :: nat
  by simp_all

lemma three_digits: "a < 16 \<Longrightarrow> b < 64 \<Longrightarrow> c < 64 \<Longrightarrow> 64 * (64 * a + b) + c < (0x10000 :: nat)"
  by simp

lemma utf8_step_decode:
  assumes "utf8_step bs = Some rest"
  shows "\<exists>n. unicode_scalar n \<and> n \<noteq> 0 \<and> bs = encode_utf8 n @ rest"
proof -
  obtain b tl where bs: "bs = b # tl" using assms by (auto simp: utf8_step_def split: list.splits)
  have whole: "of_nat k = b" if "k = unat b" for k and b :: u8 using that by simp
  have last: "of_nat (0x80 + unat c mod 64) = c" if "unat c div 64 = 2" for c :: u8
    using that mult_div_mod_eq [of 64 "unat c"] by (intro whole) simp
  show ?thesis
  proof (cases "b < 0x80")
    case True
    then have "unat b < 128" "b \<noteq> 0" "rest = tl" using assms bs by (auto simp: utf8_step_def word_less_nat_alt split: if_splits)
    then have "unicode_scalar (unat b) \<and> unat b \<noteq> 0 \<and> bs = encode_utf8 (unat b) @ rest"
      using bs by (simp add: unicode_scalar_def encode_utf8_def unat_eq_0)
    then show ?thesis by blast
  next
    case False
    then obtain k s cs where lead: "utf8_lead b = Some (k, s)" and cs: "tl = cs @ rest" "length cs = k"
        "\<forall>c \<in> set cs. unat c div 64 = 2" and ok: "\<not> utf8_refused k (utf8_more s cs)"
      using assms bs by (auto simp: utf8_step_def utf8_tail_iff split: option.splits if_splits)
    have lt: "x mod 64 < 64" for x :: nat by simp
    define n where "n = foldl (\<lambda>v c. 64 * v + unat c mod 64) (unat s) cs"
    consider (one) "k = 1" "unat b = unat s + 0xc0" "unat s < 32" | (two) "k = 2" "unat b = unat s + 0xe0" "unat s < 16"
      | (three) "k = 3" "unat b = unat s + 0xf0" "unat s < 8"
      using utf8_lead_value [of b] lead by auto
    then have "unat (utf8_more s cs) = n \<and> (n \<ge> 0x80 \<longrightarrow> n < 0x800 \<longrightarrow> k = 1 \<longrightarrow> encode_utf8 n = b # cs) \<and>
      (n \<ge> 0x800 \<longrightarrow> n < 0x10000 \<longrightarrow> k = 2 \<longrightarrow> encode_utf8 n = b # cs) \<and>
      (n \<ge> 0x10000 \<longrightarrow> k = 3 \<longrightarrow> encode_utf8 n = b # cs) \<and> (k = 1 \<longrightarrow> n < 0x800) \<and> (k = 2 \<longrightarrow> n < 0x10000) \<and> k \<in> {1, 2, 3}"
    proof cases
      case one
      then obtain c where c: "cs = [c]" using cs by (auto simp: length_Suc_conv)
      have n: "n = 64 * unat s + unat c mod 64" by (simp add: n_def c)
      have below: "n < 0x800" using n one(3) lt [of "unat c"] by linarith
      from n have "n div 64 = unat s" "n mod 64 = unat c mod 64" by simp_all
      then have "encode_utf8 n = b # cs" if "0x80 \<le> n"
        using that below cs(3) last whole [OF one(2) [symmetric]] by (simp add: encode_utf8_def c add.commute)
      moreover have "unat (utf8_more s cs) = n" using utf8_more_value [of s cs] one(3) c by (simp add: n_def)
      ultimately show ?thesis using one(1) below by simp
    next
      case two
      then obtain c d where c: "cs = [c, d]" using cs by (auto simp: length_Suc_conv numeral_2_eq_2)
      have n: "n = 64 * (64 * unat s + unat c mod 64) + unat d mod 64" by (simp add: n_def c)
      have below: "n < 0x10000" unfolding n by (rule three_digits) (use two(3) in simp_all)
      have quot: "n div 4096 = n div 64 div 64" by (simp flip: div_mult2_eq)
      have "n div 4096 = unat s" "n div 64 mod 64 = unat c mod 64" "n mod 64 = unat d mod 64"
        unfolding quot by (simp_all only: n digit)
      then have "encode_utf8 n = b # cs" if "0x800 \<le> n"
        using that below cs(3) last whole [OF two(2) [symmetric]] by (simp add: encode_utf8_def c add.commute)
      moreover have "unat (utf8_more s cs) = n" using utf8_more_value [of s cs] two(3) c by (simp add: n_def)
      ultimately show ?thesis using two(1) below by simp
    next
      case three
      then obtain c d e where c: "cs = [c, d, e]" using cs by (auto simp: length_Suc_conv numeral_3_eq_3)
      have n: "n = 64 * (64 * (64 * unat s + unat c mod 64) + unat d mod 64) + unat e mod 64" by (simp add: n_def c)
      have quot: "n div 4096 = n div 64 div 64" "n div 262144 = n div 64 div 64 div 64" by (simp_all flip: div_mult2_eq)
      have q: "n div 262144 = unat s" "n div 4096 mod 64 = unat c mod 64" "n div 64 mod 64 = unat d mod 64"
        "n mod 64 = unat e mod 64" unfolding quot by (simp_all only: n digit)
      have "encode_utf8 n = b # cs" if "0x10000 \<le> n"
        using that cs(3) last whole [OF three(2) [symmetric]] by (simp add: encode_utf8_def c q add.commute)
      moreover have "unat (utf8_more s cs) = n" using utf8_more_value [of s cs] three(3) c by (simp add: n_def)
      ultimately show ?thesis using three(1) by simp
    qed
    note parts = this
    have ok: "\<not> (k = 1 \<and> n < 0x80)" "\<not> (k = 2 \<and> n < 0x800)" "\<not> (k = 3 \<and> n < 0x10000)" "n \<le> 0x10ffff"
        "n \<notin> {0xd800..0xdfff}"
      using ok parts by (simp_all add: utf8_refused_def word_less_nat_alt word_le_nat_alt)
    then have "unicode_scalar n" by (simp add: unicode_scalar_def)
    moreover have k: "k = 1 \<or> k = 2 \<or> k = 3" using parts by simp
    then have "n \<noteq> 0" using ok(1,2,3) by auto
    moreover have "encode_utf8 n = b # cs" using k ok(1,2,3) parts by (elim disjE) simp_all
    ultimately have "unicode_scalar n" "n \<noteq> 0" "encode_utf8 n = b # cs" by simp_all
    then show ?thesis using bs cs by auto
  qed
qed

text \<open>
  C28: a name passes the check exactly when it is the concatenation of the encodings of Unicode
  scalar values other than zero; nothing overlong, no surrogate and nothing truncated gets
  through, and every proper name does.
\<close>

theorem valid_utf8_iff_encoded:
  "valid_utf8 bs \<longleftrightarrow> (\<exists>ns. list_all (\<lambda>n. unicode_scalar n \<and> n \<noteq> 0) ns \<and> bs = concat (map encode_utf8 ns))"
proof (induction bs rule: length_induct)
  case (1 bs)
  let ?enc = "\<lambda>bs. \<exists>ns. list_all (\<lambda>n. unicode_scalar n \<and> n \<noteq> 0) ns \<and> bs = concat (map encode_utf8 ns)"
  have first: "\<exists>rest. utf8_step bs = Some rest \<and> ?enc rest" if e: "?enc bs" "bs \<noteq> []"
  proof -
    obtain ns where ns: "list_all (\<lambda>n. unicode_scalar n \<and> n \<noteq> 0) ns" "bs = concat (map encode_utf8 ns)"
      using e(1) by blast
    then obtain m ms where m: "ns = m # ms" using e(2) by (cases ns) auto
    then have "utf8_step bs = Some (concat (map encode_utf8 ms))" using ns utf8_step_encode by simp
    moreover have "list_all (\<lambda>n. unicode_scalar n \<and> n \<noteq> 0) ms" using ns m by simp
    ultimately show ?thesis by blast
  qed
  have step: "?enc bs" if r: "utf8_step bs = Some rest" "?enc rest" for rest
  proof -
    obtain ns where "list_all (\<lambda>n. unicode_scalar n \<and> n \<noteq> 0) ns" "rest = concat (map encode_utf8 ns)" using r(2) by blast
    moreover obtain n where "unicode_scalar n" "n \<noteq> 0" "bs = encode_utf8 n @ rest" using utf8_step_decode r(1) by blast
    ultimately have "list_all (\<lambda>n. unicode_scalar n \<and> n \<noteq> 0) (n # ns) \<and> bs = concat (map encode_utf8 (n # ns))" by simp
    then show ?thesis by blast
  qed
  show ?case
  proof (cases "bs = []")
    case True
    then have "?enc bs" by (intro exI [of _ "[]"]) simp
    then show ?thesis using True by (simp add: valid_utf8.simps)
  next
    case False
    show ?thesis
    proof (cases "utf8_step bs")
      case None
      then have "\<not> ?enc bs" using first False by fastforce
      then show ?thesis using None False by (simp add: valid_utf8.simps [of bs])
    next
      case (Some rest)
      have "valid_utf8 bs = valid_utf8 rest" using Some False by (simp add: valid_utf8.simps [of bs])
      also have "\<dots> \<longleftrightarrow> ?enc rest" using 1 utf8_step_shorter [OF Some] by blast
      also have "\<dots> \<longleftrightarrow> ?enc bs" using first step [OF Some] False Some by fastforce
      finally show ?thesis .
    qed
  qed
qed

section \<open>Canonical names\<close>

definition is_separator :: "u8 \<Rightarrow> bool" where
  "is_separator c \<longleftrightarrow> c = 0x2f \<or> c = 0x5c"

definition is_forbidden :: "u8 \<Rightarrow> bool" where
  "is_forbidden c \<longleftrightarrow> c = 0 \<or> c < 0x20 \<or> c = 0x3a"

definition lower_byte :: "u8 \<Rightarrow> u8" where
  "lower_byte c = (if 0x41 \<le> c \<and> c \<le> 0x5a then c + 0x20 else c)"

definition dot_segment :: "bytes \<Rightarrow> bool" where
  "dot_segment segment \<longleftrightarrow> segment = [0x2e] \<or> segment = [0x2e, 0x2e]"

text \<open>
  What happens at a separator and at the end of the name: a segment of dots refuses the name,
  an empty one is skipped, any other is appended in lower case.
\<close>

definition close_segment :: "bytes \<Rightarrow> bytes \<Rightarrow> bytes option" where
  "close_segment res segment =
     (if dot_segment segment then None
      else if segment = [] then Some res
      else Some ((if res = [] then [] else res @ [0x2f]) @ map lower_byte segment))"

fun canonical_walk :: "bytes \<Rightarrow> bytes \<Rightarrow> bytes \<Rightarrow> bytes option" where
  "canonical_walk res segment [] = close_segment res segment"
| "canonical_walk res segment (c # cs) =
     (if is_separator c
      then (case close_segment res segment of None \<Rightarrow> None | Some r \<Rightarrow> canonical_walk r [] cs)
      else if is_forbidden c then None
      else canonical_walk res (segment @ [c]) cs)"

definition canonical_name :: "bytes \<Rightarrow> bytes option" where
  "canonical_name name =
     (if name = [] \<or> is_separator (hd name) then None
      else (case canonical_walk [] [] name of
              None \<Rightarrow> None
            | Some res \<Rightarrow> if res = [] then None else Some res))"

definition extension_of :: "bytes \<Rightarrow> bytes" where
  "extension_of name =
     (if 0x2e \<in> set name then 0x2e # rev (takeWhile (\<lambda>c. c \<noteq> 0x2e) (rev name)) else [])"

definition extension_is :: "bytes \<Rightarrow> string list \<Rightarrow> bool" where
  "extension_is name extensions \<longleftrightarrow> extension_of name \<in> set (map bytes_of extensions)"

text \<open>The components of a name and their join, as a specification.\<close>

fun components :: "bytes \<Rightarrow> bytes list" where
  "components [] = [[]]"
| "components (c # cs) =
     (if is_separator c then [] # components cs
      else (c # hd (components cs)) # tl (components cs))"

fun join_path :: "bytes list \<Rightarrow> bytes" where
  "join_path [] = []"
| "join_path [s] = s"
| "join_path (s # t # ss) = s @ [0x2f] @ join_path (t # ss)"

definition plain_component :: "bytes \<Rightarrow> bool" where
  "plain_component s \<longleftrightarrow> s \<noteq> [] \<and> \<not> dot_segment s \<and>
     list_all (\<lambda>c. \<not> is_separator c \<and> \<not> is_forbidden c \<and> lower_byte c = c) s"

definition name_refused :: "bytes \<Rightarrow> bool" where
  "name_refused name \<longleftrightarrow> name = [] \<or> is_separator (hd name) \<or> list_ex is_forbidden name \<or>
     list_ex dot_segment (components name) \<or> list_all is_separator name"

lemma components_not_Nil [simp]: "components cs \<noteq> []"
  by (cases cs) simp_all

lemma components_hd_tl [simp]: "hd (components cs) # tl (components cs) = components cs"
  by simp

lemma separator_not_forbidden: "is_separator c \<Longrightarrow> \<not> is_forbidden c"
  by (auto simp: is_separator_def is_forbidden_def word_less_nat_alt)

lemma lower_byte_plain:
  "\<not> is_separator c \<Longrightarrow> \<not> is_separator (lower_byte c)" "\<not> is_forbidden c \<Longrightarrow> \<not> is_forbidden (lower_byte c)"
  "lower_byte (lower_byte c) = lower_byte c" "lower_byte c = 0x2e \<longleftrightarrow> c = 0x2e"
proof -
  have big: "unat (c + 0x20) = unat c + 0x20" if "0x41 \<le> c" "c \<le> 0x5a"
    using that by (simp add: unat_word_ariths word_le_nat_alt)
  have "0x41 \<le> unat c \<and> unat c \<le> 0x5a \<and> unat (lower_byte c) = unat c + 0x20 \<or> lower_byte c = c"
    using big by (auto simp: lower_byte_def word_le_nat_alt)
  then show "\<not> is_separator c \<Longrightarrow> \<not> is_separator (lower_byte c)"
    "\<not> is_forbidden c \<Longrightarrow> \<not> is_forbidden (lower_byte c)" "lower_byte c = 0x2e \<longleftrightarrow> c = 0x2e"
    by (auto simp: is_separator_def is_forbidden_def word_less_nat_alt word_unat_eq_iff)
  show "lower_byte (lower_byte c) = lower_byte c"
    using big by (auto simp: lower_byte_def word_le_nat_alt)
qed

lemma dot_segment_lower: "dot_segment (map lower_byte s) \<longleftrightarrow> dot_segment s"
  by (auto simp: dot_segment_def map_eq_Cons_conv lower_byte_plain)

lemma join_path_snoc: "join_path (ss @ [s]) = (if ss = [] then s else join_path ss @ [0x2f] @ s)"
  by (induction ss rule: join_path.induct) simp_all

lemma join_path_Nil: "list_all (\<lambda>s. s \<noteq> []) ss \<Longrightarrow> join_path ss = [] \<longleftrightarrow> ss = []"
  by (cases ss rule: join_path.cases) auto

text \<open>The walk closes one component after the other.\<close>

definition closed :: "bytes list \<Rightarrow> bytes list" where
  "closed segs = map (map lower_byte) (filter (\<lambda>s. s \<noteq> []) segs)"

lemma closed_not_Nil: "list_all (\<lambda>s. s \<noteq> []) (closed segs)"
  by (auto simp: closed_def list_all_iff)

lemma close_segment_closed:
  "close_segment (join_path (closed segs)) s =
     (if dot_segment s then None else Some (join_path (closed (segs @ [s]))))"
  using closed_not_Nil [of segs]
  by (auto simp: close_segment_def closed_def join_path_snoc join_path_Nil)

lemma canonical_walk_exact:
  "canonical_walk (join_path (closed segs)) s name =
     (let rest = (s @ hd (components name)) # tl (components name) in
      if list_ex is_forbidden name \<or> list_ex dot_segment rest then None
      else Some (join_path (closed (segs @ rest))))"
proof (induction name arbitrary: segs s)
  case Nil
  then show ?case by (simp add: close_segment_closed)
next
  case (Cons c cs)
  show ?case
  proof (cases "is_separator c")
    case True
    then show ?thesis
      using Cons.IH [of "segs @ [s]" "[]"] separator_not_forbidden
      by (simp add: close_segment_closed Let_def)
  next
    case False
    then show ?thesis using Cons.IH [of segs "s @ [c]"] by (simp add: Let_def)
  qed
qed

lemma closed_Nil: "closed (components name) = [] \<longleftrightarrow> list_all is_separator name"
proof -
  have "(\<forall>s \<in> set (components name). s = []) \<longleftrightarrow> list_all is_separator name"
    by (induction name) (auto simp: list.set_sel)
  then show ?thesis by (auto simp: closed_def filter_empty_conv)
qed

lemma canonical_name_exact:
  "canonical_name name = (if name_refused name then None else Some (join_path (closed (components name))))"
proof -
  have w: "canonical_walk [] [] name =
      (if list_ex is_forbidden name \<or> list_ex dot_segment (components name) then None
       else Some (join_path (closed (components name))))"
    using canonical_walk_exact [of "[]" "[]" name] by (simp add: closed_def)
  show ?thesis
    using join_path_Nil [OF closed_not_Nil [of "components name"]]
    by (simp add: canonical_name_def w name_refused_def closed_Nil)
qed

lemma components_append:
  "list_all (\<lambda>c. \<not> is_separator c) s \<Longrightarrow>
   components (s @ cs) = (s @ hd (components cs)) # tl (components cs)"
  by (induction s) simp_all

lemma plain_no_separator: "plain_component s \<Longrightarrow> list_all (\<lambda>c. \<not> is_separator c) s"
  by (auto simp: plain_component_def list_all_iff)

lemma components_join: "ss \<noteq> [] \<Longrightarrow> list_all plain_component ss \<Longrightarrow> components (join_path ss) = ss"
proof (induction ss rule: join_path.induct)
  case (2 s)
  then show ?case using components_append [of s "[]"] plain_no_separator by simp
next
  case (3 s t ss)
  then show ?case using components_append [of s "0x2f # join_path (t # ss)"] plain_no_separator
    by (simp add: is_separator_def)
qed simp

lemma components_chars: "set (concat (components name)) = {c \<in> set name. \<not> is_separator c}"
proof (induction name)
  case (Cons c cs)
  have split: "concat (components cs) = hd (components cs) @ concat (tl (components cs))"
    by (cases "components cs") simp_all
  have "set (concat (components (c # cs))) = (if is_separator c then {} else {c}) \<union> set (concat (components cs))"
    unfolding split by (auto simp add: split simp del: set_concat)
  then show ?case using Cons by auto
qed simp

lemma closed_plain:
  assumes "\<not> name_refused name"
  shows "list_all plain_component (closed (components name))"
proof -
  have "plain_component (map lower_byte s)" if s: "s \<in> set (components name)" "s \<noteq> []" for s
  proof -
    have "c \<in> set (concat (components name))" if "c \<in> set s" for c using that s by auto
    then have "\<not> is_separator c \<and> c \<in> set name" if "c \<in> set s" for c
      using that components_chars [of name] by auto
    then show ?thesis using s assms
      by (auto simp: plain_component_def name_refused_def list_all_iff list_ex_iff dot_segment_lower lower_byte_plain)
  qed
  then show ?thesis by (auto simp: closed_def list_all_iff)
qed

lemma plain_closed: "list_all plain_component ss \<Longrightarrow> closed ss = ss"
proof (induction ss)
  case (Cons s ss)
  then have "map lower_byte s = s" by (auto simp: plain_component_def list_all_iff intro: map_idI)
  then show ?case using Cons by (simp add: closed_def plain_component_def)
qed (simp add: closed_def)

lemma plain_join_chars:
  "list_all plain_component ss \<Longrightarrow> c \<in> set (join_path ss) \<Longrightarrow> c = 0x2f \<or> \<not> is_separator c \<and> \<not> is_forbidden c"
  by (induction ss rule: join_path.induct) (auto simp: plain_component_def list_all_iff)

lemma plain_join_accepted:
  assumes "ss \<noteq> []" "list_all plain_component ss"
  shows "\<not> name_refused (join_path ss)"
proof -
  obtain s rest where ss: "ss = s # rest" using assms by (cases ss) auto
  then obtain c cs where s: "s = c # cs" using assms by (cases s) (auto simp: plain_component_def)
  then obtain r where j: "join_path ss = c # r" using ss by (cases rest) simp_all
  have c: "\<not> is_separator c" using assms ss s by (simp add: plain_component_def)
  have "\<not> is_forbidden (0x2f :: u8)" by (simp add: is_forbidden_def)
  then have "\<not> list_ex is_forbidden (join_path ss)"
    using plain_join_chars [OF assms(2)] by (auto simp: list_ex_iff)
  moreover have "\<not> list_ex dot_segment ss" using assms by (auto simp: list_ex_iff list_all_iff plain_component_def)
  ultimately show ?thesis using c j components_join [OF assms] by (simp add: name_refused_def)
qed

text \<open>
  C29: a name is refused exactly when it is empty or starts with a separator, holds a control
  character or a colon, has a component of one or two dots, or consists of separators only.
  Any other name becomes the slash-joined list of its non-empty components in lower case;
  none of these is a dot component or holds a separator, so that the path stays below the
  directory it is unpacked into, and a canonical name is its own canonical form.
\<close>

theorem canonical_name_safe:
  "case canonical_name name of
     None \<Rightarrow> name_refused name
   | Some r \<Rightarrow> name_refused name = False \<and>
       (let segs = map (map lower_byte) (filter (\<lambda>s. s \<noteq> []) (components name)) in
        segs \<noteq> [] \<and> r = join_path segs \<and> list_all plain_component segs \<and> components r = segs \<and>
        canonical_name r = Some r)"
proof (cases "name_refused name")
  case True
  then show ?thesis by (simp add: canonical_name_exact)
next
  case False
  let ?segs = "closed (components name)"
  have ne: "?segs \<noteq> []" using False by (simp add: closed_Nil name_refused_def)
  note plain = closed_plain [OF False]
  have "canonical_name (join_path ?segs) = Some (join_path ?segs)"
    using plain_join_accepted [OF ne plain] by (simp add: canonical_name_exact components_join [OF ne plain] plain_closed [OF plain])
  then show ?thesis using False ne plain components_join [OF ne plain]
    by (simp add: canonical_name_exact closed_def Let_def)
qed

end
