(* ===== verification/AIS_Huffman.thy ===== *)
theory AIS_Huffman
  imports AIS_Reader
begin

text \<open>
  The bit reader and the Huffman decoder of the inflater in \<open>src/zip_preflight.cpp\<close>
  (\<open>BitReader\<close>, \<open>Huffman\<close>). The bits of a stream are numbered from the low bit of the first
  byte. \<open>Huffman::build\<close> assigns the canonical codes of the given lengths; it is shown to
  accept only lengths within the Kraft bound, to assign the codes of the standard, and that
  the decoder then reads every code word back as its symbol.
\<close>

section \<open>The bit reader\<close>

record bit_reader =
  br_input :: bytes
  br_bit :: nat

definition stream_bit :: "bytes \<Rightarrow> nat \<Rightarrow> u8" where
  "stream_bit input j = drop_bit (j mod 8) (input ! (j div 8)) AND 1"

definition br_read :: "nat \<Rightarrow> bit_reader \<Rightarrow> (u32 \<times> bit_reader) option" where
  "br_read count r =
     (if count > 24 \<or> br_bit r + count > length (br_input r) * 8 then None
      else Some (foldl (\<lambda>v i. v OR push_bit i (ucast (stream_bit (br_input r) (br_bit r + i)))) 0 [0..<count],
                 r\<lparr>br_bit := br_bit r + count\<rparr>))"

definition br_align :: "bit_reader \<Rightarrow> bit_reader" where
  "br_align r = r\<lparr>br_bit := (br_bit r + 7) div 8 * 8\<rparr>"

definition br_byte_offset :: "bit_reader \<Rightarrow> nat" where
  "br_byte_offset r = (br_bit r + 7) div 8"

text \<open>The bytes that a read touches lie within the input.\<close>

lemma br_read_in_bounds:
  "br_read count r = Some (v, r') \<Longrightarrow> i < count \<Longrightarrow> (br_bit r + i) div 8 < length (br_input r)"
  by (auto simp: br_read_def less_mult_imp_div_less split: if_splits)

lemma br_read_moves:
  "br_read count r = Some (v, r') \<Longrightarrow> r' = r\<lparr>br_bit := br_bit r + count\<rparr> \<and> br_bit r + count \<le> length (br_input r) * 8"
  by (auto simp: br_read_def split: if_splits)

text \<open>The stream as a list of bits, and what a read returns in terms of it.\<close>

definition bits_of :: "bytes \<Rightarrow> bool list" where
  "bits_of bs = concat (map (\<lambda>b. map (bit b) [0..<8]) bs)"

definition ahead :: "bit_reader \<Rightarrow> bool list" where
  "ahead r = drop (br_bit r) (bits_of (br_input r))"

lemma length_bits_of [simp]: "length (bits_of bs) = length bs * 8"
  by (induction bs) (simp_all add: bits_of_def)

lemma nth_bits_of: "j < length bs * 8 \<Longrightarrow> bits_of bs ! j = bit (bs ! (j div 8)) (j mod 8)"
proof (induction bs arbitrary: j)
  case (Cons b bs)
  have c: "bits_of (b # bs) = map (bit b) [0..<8] @ bits_of bs" by (simp add: bits_of_def del: upt_Suc)
  show ?case
  proof (cases "j < 8")
    case True
    then show ?thesis by (simp add: c nth_append del: upt_Suc)
  next
    case False
    then have "j div 8 = Suc ((j - 8) div 8)" "j mod 8 = (j - 8) mod 8"
      by (simp_all add: le_div_geq le_mod_geq)
    then show ?thesis using False Cons by (simp add: c nth_append del: upt_Suc)
  qed
qed simp

lemma stream_bit_value: "stream_bit input j = of_bool (bit (input ! (j div 8)) (j mod 8))"
  unfolding stream_bit_def by (rule bit_word_eqI) (auto simp: bit_simps)

definition word_of_bits :: "bool list \<Rightarrow> 'a::len word" where
  "word_of_bits bs = horner_sum of_bool 2 bs"

lemma bit_word_of_bits:
  "bit (word_of_bits bs :: 'a::len word) n \<longleftrightarrow> n < min LENGTH('a) (length bs) \<and> bs ! n"
  by (auto simp: word_of_bits_def bit_horner_sum_bit_word_iff)

definition br_ok :: "bit_reader \<Rightarrow> bool" where
  "br_ok r \<longleftrightarrow> br_bit r \<le> length (br_input r) * 8"

lemma br_read_bits:
  assumes "ahead r = bs @ rest" "length bs \<le> 24" "br_ok r"
  shows "br_read (length bs) r = Some (word_of_bits bs, r\<lparr>br_bit := br_bit r + length bs\<rparr>)"
    and "ahead (r\<lparr>br_bit := br_bit r + length bs\<rparr>) = rest" and "br_ok (r\<lparr>br_bit := br_bit r + length bs\<rparr>)"
proof -
  have len: "br_ok r \<Longrightarrow> length (br_input r) * 8 - br_bit r = length bs + length rest"
    using arg_cong [OF assms(1), of length] by (simp add: ahead_def br_ok_def)
  have fits: "br_bit r + length bs \<le> length (br_input r) * 8" using len assms(3) by (simp add: br_ok_def)
  then show "br_ok (r\<lparr>br_bit := br_bit r + length bs\<rparr>)" by (simp add: br_ok_def)
  show "ahead (r\<lparr>br_bit := br_bit r + length bs\<rparr>) = rest"
    using arg_cong [OF assms(1), of "drop (length bs)"] by (simp add: ahead_def add.commute)
  show "br_read (length bs) r = Some (word_of_bits bs, r\<lparr>br_bit := br_bit r + length bs\<rparr>)"
  proof -
    have nth: "bs ! i = bits_of (br_input r) ! (br_bit r + i)" if "i < length bs" for i
      using arg_cong [OF assms(1), of "\<lambda>xs. xs ! i"] that fits by (simp add: ahead_def nth_append)
    have fold: "bit (foldl (\<lambda>v i. v OR push_bit i (ucast (stream_bit (br_input r) (br_bit r + i)))) (0 :: u32) [0..<k]) n
        \<longleftrightarrow> n < min 32 k \<and> bs ! n" if "k \<le> length bs" for k n
      using that
    proof (induction k)
      case (Suc k)
      then have "bits_of (br_input r) ! (br_bit r + k) = bit (br_input r ! ((br_bit r + k) div 8)) ((br_bit r + k) mod 8)"
        using fits by (intro nth_bits_of) simp
      then show ?case using Suc nth [of k]
        by (auto simp: bit_or_iff bit_push_bit_iff bit_ucast_iff stream_bit_value bit_simps less_Suc_eq)
    qed simp
    have "foldl (\<lambda>v i. v OR push_bit i (ucast (stream_bit (br_input r) (br_bit r + i)))) (0 :: u32) [0..<length bs]
        = word_of_bits bs"
      by (rule bit_word_eqI) (simp add: fold bit_word_of_bits)
    then show ?thesis using fits assms(2) by (simp add: br_read_def)
  qed
qed

section \<open>Building a table\<close>

record huffman_code =
  hc_reversed :: u16
  hc_symbol :: u16
  hc_length :: u8

record huffman =
  hf_codes :: "huffman_code list"
  hf_maximum_length :: u8

definition new_huffman :: huffman where
  "new_huffman = \<lparr>hf_codes = [], hf_maximum_length = 0\<rparr>"

text \<open>The occurrences of each length; a length above 15 is refused.\<close>

fun count_lengths :: "u8 list \<Rightarrow> u16 list \<Rightarrow> u16 list option" where
  "count_lengths [] counts = Some counts"
| "count_lengths (len # lengths) counts =
     (if len > 15 then None
      else count_lengths lengths (if len \<noteq> 0 then counts[unat len := counts ! unat len + 1] else counts))"

text \<open>The code space left after each length; a negative rest refuses the lengths.\<close>

fun space_left :: "int \<Rightarrow> u16 list \<Rightarrow> bool" where
  "space_left available [] \<longleftrightarrow> True"
| "space_left available (count # counts) \<longleftrightarrow>
     (let available = available * 2 - int (unat count) in available \<ge> 0 \<and> space_left available counts)"

text \<open>The first code of each length, from the counts of the shorter ones.\<close>

fun first_codes :: "u16 \<Rightarrow> u16 list \<Rightarrow> u16 list" where
  "first_codes code [] = []"
| "first_codes code (count # counts) =
     (let code = push_bit 1 (code + count) in code # first_codes code counts)"

definition reverse_code :: "nat \<Rightarrow> u16 \<Rightarrow> u16" where
  "reverse_code len canonical =
     foldl (\<lambda>reversed i. push_bit 1 reversed OR (drop_bit i canonical AND 1)) 0 [0..<len]"

text \<open>The codes in the order of the symbols; \<open>following\<close> holds the next code of each length.\<close>

fun assign_codes :: "nat \<Rightarrow> u8 list \<Rightarrow> u16 list \<Rightarrow> huffman_code list" where
  "assign_codes symbol [] following = []"
| "assign_codes symbol (len # lengths) following =
     (if len = 0 then assign_codes (Suc symbol) lengths following
      else \<lparr>hc_reversed = reverse_code (unat len) (following ! unat len), hc_symbol = of_nat symbol, hc_length = len\<rparr> #
           assign_codes (Suc symbol) lengths (following[unat len := following ! unat len + 1]))"

definition huffman_build :: "u8 list \<Rightarrow> huffman \<Rightarrow> huffman option" where
  "huffman_build lengths h =
     (case count_lengths lengths (replicate 16 0) of
        None \<Rightarrow> None
      | Some counts \<Rightarrow>
          if \<not> space_left 1 (tl counts) then None
          else let codes = assign_codes 0 lengths (0 # first_codes 0 (butlast counts)) in
            if codes = [] then None
            else Some \<lparr>hf_codes = codes,
                       hf_maximum_length = fold (\<lambda>c m. max m (hc_length c)) codes (hf_maximum_length h)\<rparr>)"

text \<open>Reading one symbol: a bit at a time, until the bits read so far are a code of that length.\<close>

fun decode_bits :: "huffman_code list \<Rightarrow> nat \<Rightarrow> nat \<Rightarrow> u16 \<Rightarrow> bit_reader \<Rightarrow> (u16 \<times> bit_reader) option" where
  "decode_bits codes 0 len code r = None"
| "decode_bits codes (Suc n) len code r =
     (case br_read 1 r of
        None \<Rightarrow> None
      | Some (b, r) \<Rightarrow>
          let code = code OR push_bit (len - 1) (ucast b) in
          (case find (\<lambda>candidate. unat (hc_length candidate) = len \<and> hc_reversed candidate = code) codes of
             Some candidate \<Rightarrow> Some (hc_symbol candidate, r)
           | None \<Rightarrow> decode_bits codes n (Suc len) code r))"

definition huffman_decode :: "huffman \<Rightarrow> bit_reader \<Rightarrow> (u16 \<times> bit_reader) option" where
  "huffman_decode h r = decode_bits (hf_codes h) (unat (hf_maximum_length h)) 1 0 r"

section \<open>The canonical code\<close>

text \<open>
  The code of the standard, over the natural numbers: \<open>count_of\<close> symbols have a length, the
  codes of one length are consecutive, and they start after those of the shorter lengths.
\<close>

definition count_of :: "u8 list \<Rightarrow> nat \<Rightarrow> nat" where
  "count_of lengths l = length (filter (\<lambda>x. unat x = l) lengths)"

definition start_of :: "u8 list \<Rightarrow> nat \<Rightarrow> nat" where
  "start_of lengths l = (\<Sum>j = 1..<l. count_of lengths j * 2 ^ (l - j))"

definition canonical_code :: "u8 list \<Rightarrow> nat \<Rightarrow> nat" where
  "canonical_code lengths s = (let l = unat (lengths ! s) in start_of lengths l + count_of (take s lengths) l)"

definition code_word :: "u8 list \<Rightarrow> nat \<Rightarrow> bool list" where
  "code_word lengths s =
     map (\<lambda>i. bit (canonical_code lengths s) (unat (lengths ! s) - 1 - i)) [0..<unat (lengths ! s)]"

definition kraft :: "u8 list \<Rightarrow> bool" where
  "kraft lengths \<longleftrightarrow> (\<forall>l \<le> 15. start_of lengths l + count_of lengths l \<le> 2 ^ l \<or> l = 0)"

lemma start_of_Suc: "1 \<le> l \<Longrightarrow> start_of lengths (Suc l) = 2 * (start_of lengths l + count_of lengths l)"
proof -
  assume "1 \<le> l"
  then have "start_of lengths (Suc l) = (\<Sum>j = 1..<l. count_of lengths j * 2 ^ (Suc l - j)) + count_of lengths l * 2"
    by (simp add: start_of_def)
  also have "(\<Sum>j = 1..<l. count_of lengths j * 2 ^ (Suc l - j)) = 2 * start_of lengths l"
    unfolding start_of_def sum_distrib_left by (rule sum.cong) (simp_all add: Suc_diff_le)
  finally show ?thesis by simp
qed

lemma start_of_1 [simp]: "start_of lengths (Suc 0) = 0"
  by (simp add: start_of_def)

text \<open>Codes of different lengths never meet: a longer one lies beyond all shorter ones.\<close>

lemma start_of_beyond:
  "1 \<le> l \<Longrightarrow> (start_of lengths l + count_of lengths l) * 2 ^ k \<le> start_of lengths (l + k) \<or> k = 0"
proof (induction k)
  case (Suc k)
  have "(start_of lengths l + count_of lengths l) * 2 ^ k \<le> start_of lengths (l + k) + count_of lengths (l + k)"
    using Suc by (cases "k = 0") auto
  then show ?case using Suc.prems by (simp add: start_of_Suc)
qed simp

section \<open>The table holds the canonical code\<close>

lemma count_of_Nil [simp]: "count_of [] l = 0"
  by (simp add: count_of_def)

lemma count_of_Cons [simp]: "count_of (x # xs) l = of_bool (unat x = l) + count_of xs l"
  by (simp add: count_of_def)

lemma count_of_le: "count_of lengths l \<le> length lengths"
  by (simp add: count_of_def)

lemma count_lengths_exact:
  "length counts = 16 \<Longrightarrow> count_lengths lengths counts =
     (if list_ex (\<lambda>x. 15 < x) lengths then None
      else Some (map (\<lambda>l. counts ! l + (if l = 0 then 0 else of_nat (count_of lengths l))) [0..<16]))"
proof (induction lengths counts rule: count_lengths.induct)
  case (1 counts)
  then have "map (\<lambda>l. counts ! l) [0..<16] = counts" using map_nth [of counts] by simp
  moreover have "counts ! l + (if l = 0 then 0 else of_nat (count_of [] l)) = counts ! l" for l by simp
  ultimately show ?case by (simp del: upt_Suc upt_rec_numeral count_of_Nil)
next
  case (2 len lengths counts)
  show ?case
  proof (cases "15 < len")
    case False
    then have len: "unat len < 16" by (simp add: word_less_nat_alt)
    have "count_lengths (len # lengths) counts =
        count_lengths lengths (if len \<noteq> 0 then counts[unat len := counts ! unat len + 1] else counts)"
      using False by simp
    also have "\<dots> = (if list_ex (\<lambda>x. 15 < x) lengths then None
        else Some (map (\<lambda>l. (if len \<noteq> 0 then counts[unat len := counts ! unat len + 1] else counts) ! l +
               (if l = 0 then 0 else of_nat (count_of lengths l))) [0..<16]))"
      using 2 False by (intro "2.IH") simp_all
    also have "map (\<lambda>l. (if len \<noteq> 0 then counts[unat len := counts ! unat len + 1] else counts) ! l +
               (if l = 0 then 0 else of_nat (count_of lengths l))) [0..<16] =
        map (\<lambda>l. counts ! l + (if l = 0 then 0 else of_nat (count_of (len # lengths) l))) [0..<16]"
      using 2(2) len by (auto simp: nth_list_update unat_eq_0 simp del: upt_Suc upt_rec_numeral intro!: map_cong)
    finally show ?thesis using False by simp
  qed simp
qed

definition cnt :: "u8 list \<Rightarrow> nat \<Rightarrow> nat" where
  "cnt lengths l = (if l = 0 then 0 else count_of lengths l)"

lemma start_of_step: "start_of lengths (Suc l) = 2 * (start_of lengths l + cnt lengths l)"
  by (cases "l = 0") (simp_all add: cnt_def start_of_Suc, simp add: start_of_def)

lemma cnt_le: "cnt lengths l \<le> length lengths"
  by (simp add: cnt_def count_of_le)

lemma count_lengths_zero:
  assumes "count_lengths lengths (replicate 16 0) = Some counts"
  shows "counts = map (\<lambda>l. of_nat (cnt lengths l)) [0..<16]" "list_all (\<lambda>x. unat x \<le> 15) lengths"
proof -
  have c: "(if list_ex (\<lambda>x. 15 < x) lengths then None
      else Some (map (\<lambda>l. replicate 16 0 ! l + (if l = 0 then 0 else of_nat (count_of lengths l))) [0..<16])) = Some counts"
    using assms by (subst (asm) count_lengths_exact) (simp_all only: length_replicate)
  then have e: "\<not> list_ex (\<lambda>x. 15 < x) lengths" by (meson option.distinct(1))
  then show "list_all (\<lambda>x. unat x \<le> 15) lengths" by (auto simp: list_all_iff list_ex_iff word_less_nat_alt not_less)
  have "counts = map (\<lambda>l. replicate 16 0 ! l + (if l = 0 then 0 else of_nat (count_of lengths l))) [0..<16]"
    using c e by (simp only: if_False option.inject)
  also have "\<dots> = map (\<lambda>l. of_nat (cnt lengths l)) [0..<16]"
    by (rule map_cong [OF refl]) (simp add: cnt_def)
  finally show "counts = map (\<lambda>l. of_nat (cnt lengths l)) [0..<16]" .
qed

lemma space_left_kraft:
  assumes "length lengths < 65536"
  shows "space_left (2 ^ m - int (start_of lengths m) - int (cnt lengths m))
      (map (\<lambda>l. of_nat (cnt lengths l)) [Suc m..<Suc m + d]) \<longleftrightarrow>
    (\<forall>l \<in> {Suc m..<Suc m + d}. start_of lengths l + cnt lengths l \<le> 2 ^ l)"
proof (induction d arbitrary: m)
  case (Suc d)
  have c: "unat (of_nat (cnt lengths (Suc m)) :: u16) = cnt lengths (Suc m)"
    using assms cnt_le [of lengths "Suc m"] by (simp add: unat_of_nat)
  have s: "(2 ^ m - int (start_of lengths m) - int (cnt lengths m)) * 2 - int (cnt lengths (Suc m)) =
      2 ^ Suc m - int (start_of lengths (Suc m)) - int (cnt lengths (Suc m))"
    by (simp add: start_of_step algebra_simps)
  have u: "[Suc m..<Suc m + Suc d] = Suc m # [Suc (Suc m)..<Suc (Suc m) + d]" by (simp add: upt_conv_Cons)
  have i: "{Suc m..<Suc m + Suc d} = insert (Suc m) {Suc (Suc m)..<Suc (Suc m) + d}" by auto
  have "0 \<le> 2 ^ Suc m - int (start_of lengths (Suc m)) - int (cnt lengths (Suc m)) \<longleftrightarrow>
      start_of lengths (Suc m) + cnt lengths (Suc m) \<le> 2 ^ Suc m"
    by (metis add_diff_cancel_left' diff_diff_eq diff_ge_0_iff_ge of_nat_add of_nat_le_iff of_nat_numeral of_nat_power)
  then show ?case
    unfolding u i using Suc.IH [of "Suc m"] c s by (simp only: list.map space_left.simps Let_def ball_simps)
qed simp

lemma first_codes_start:
  "first_codes (of_nat (start_of lengths m)) (map (\<lambda>l. of_nat (cnt lengths l)) [m..<m + d]) =
   map (\<lambda>l. of_nat (start_of lengths l)) [Suc m..<Suc m + d]"
proof (induction d arbitrary: m)
  case (Suc d)
  have u: "[m..<m + Suc d] = m # [Suc m..<Suc m + d]" "[Suc m..<Suc m + Suc d] = Suc m # [Suc (Suc m)..<Suc (Suc m) + d]"
    by (simp_all add: upt_conv_Cons)
  have "push_bit 1 (of_nat (start_of lengths m) + of_nat (cnt lengths m)) = (of_nat (start_of lengths (Suc m)) :: u16)"
    by (simp add: start_of_step push_bit_eq_mult)
  then show ?case unfolding u using Suc.IH [of "Suc m"] by (simp only: list.map first_codes.simps Let_def)
qed simp

text \<open>What \<open>build\<close> has established when it succeeds.\<close>

definition within_kraft :: "u8 list \<Rightarrow> bool" where
  "within_kraft lengths \<longleftrightarrow> list_all (\<lambda>x. unat x \<le> 15) lengths \<and>
     list_all (\<lambda>l. start_of lengths l + count_of lengths l \<le> 2 ^ l) [1..<16]"

definition code_entry :: "u8 list \<Rightarrow> nat \<Rightarrow> huffman_code" where
  "code_entry lengths s = \<lparr>hc_reversed = reverse_code (unat (lengths ! s)) (of_nat (canonical_code lengths s)),
     hc_symbol = of_nat s, hc_length = lengths ! s\<rparr>"

definition coded_symbols :: "u8 list \<Rightarrow> nat list" where
  "coded_symbols lengths = filter (\<lambda>s. lengths ! s \<noteq> 0) [0..<length lengths]"

lemma count_of_take_Suc:
  "s < length lengths \<Longrightarrow> count_of (take (Suc s) lengths) l = count_of (take s lengths) l + of_bool (unat (lengths ! s) = l)"
  by (simp add: take_Suc_conv_app_nth count_of_def)

lemma assign_codes_exact:
  assumes "list_all (\<lambda>x. unat x \<le> 15) lengths"
  shows "s + n = length lengths \<Longrightarrow> length following = 16 \<Longrightarrow>
    (\<And>l. 1 \<le> l \<Longrightarrow> l < 16 \<Longrightarrow> following ! l = of_nat (start_of lengths l + count_of (take s lengths) l)) \<Longrightarrow>
    assign_codes s (drop s lengths) following = map (code_entry lengths) (filter (\<lambda>s. lengths ! s \<noteq> 0) [s..<length lengths])"
proof (induction n arbitrary: s following)
  case (Suc n)
  have s: "s < length lengths" using Suc.prems by simp
  let ?l = "unat (lengths ! s)"
  have l: "?l < 16" using assms s by (auto simp: list_all_length)
  have d: "drop s lengths = lengths ! s # drop (Suc s) lengths" using s by (simp add: Cons_nth_drop_Suc)
  have u: "[s..<length lengths] = s # [Suc s..<length lengths]" using s by (simp add: upt_conv_Cons)
  show ?case
  proof (cases "lengths ! s = 0")
    case True
    then have "assign_codes (Suc s) (drop (Suc s) lengths) following =
        map (code_entry lengths) (filter (\<lambda>s. lengths ! s \<noteq> 0) [Suc s..<length lengths])"
      using Suc.prems s by (intro Suc.IH) (simp_all add: count_of_take_Suc)
    then show ?thesis using True d u by simp
  next
    case False
    then have pos: "1 \<le> ?l" by (simp add: unat_gt_0 [symmetric] Suc_le_eq unat_eq_0)
    have e: "code_entry lengths s = \<lparr>hc_reversed = reverse_code ?l (following ! ?l), hc_symbol = of_nat s, hc_length = lengths ! s\<rparr>"
      using Suc.prems(3) [OF pos l] by (simp add: code_entry_def canonical_code_def Let_def)
    have "assign_codes (Suc s) (drop (Suc s) lengths) (following[?l := following ! ?l + 1]) =
        map (code_entry lengths) (filter (\<lambda>s. lengths ! s \<noteq> 0) [Suc s..<length lengths])"
      using Suc.prems s pos l by (intro Suc.IH) (auto simp: count_of_take_Suc nth_list_update)
    then show ?thesis using False d u e by simp
  qed
qed simp

lemma huffman_build_Some:
  assumes "huffman_build lengths h = Some h'" "length lengths < 65536"
  shows "within_kraft lengths" "hf_codes h' = map (code_entry lengths) (coded_symbols lengths)"
    "hf_maximum_length h' = fold (\<lambda>c m. max m (hc_length c)) (hf_codes h') (hf_maximum_length h)"
proof -
  obtain counts where c: "count_lengths lengths (replicate 16 0) = Some counts" and sp: "space_left 1 (tl counts)"
      and h': "hf_codes h' = assign_codes 0 lengths (0 # first_codes 0 (butlast counts))"
    and m: "hf_maximum_length h' = fold (\<lambda>c m. max m (hc_length c)) (hf_codes h') (hf_maximum_length h)"
    using assms(1) by (auto simp: huffman_build_def Let_def split: option.splits if_splits)
  note counts = count_lengths_zero [OF c]
  have t: "tl counts = map (\<lambda>l. of_nat (cnt lengths l)) [Suc 0..<Suc 0 + 15]"
    unfolding counts by (simp add: upt_conv_Cons [of 0 16] del: upt_Suc upt_rec_numeral)
  have "space_left (2 ^ 0 - int (start_of lengths 0) - int (cnt lengths 0)) (map (\<lambda>l. of_nat (cnt lengths l)) [Suc 0..<Suc 0 + 15])"
    using sp unfolding t by (simp add: start_of_def cnt_def del: upt_Suc upt_rec_numeral)
  then have "\<forall>l \<in> {Suc 0..<Suc 0 + 15}. start_of lengths l + cnt lengths l \<le> 2 ^ l"
    unfolding space_left_kraft [OF assms(2)] .
  then show "within_kraft lengths" using counts(2) by (auto simp: within_kraft_def list_all_iff cnt_def)
  have "[0..<16] = [0..<0 + 15] @ [15 :: nat]"
    using upt_Suc_append [of 0 15] by (simp del: upt_Suc upt_rec_numeral)
  then have b: "butlast counts = map (\<lambda>l. of_nat (cnt lengths l)) [0..<0 + 15]"
    unfolding counts by (simp del: upt_Suc upt_rec_numeral)
  have f: "first_codes 0 (butlast counts) = map (\<lambda>l. of_nat (start_of lengths l)) [Suc 0..<Suc 0 + 15]"
    unfolding b using first_codes_start [of lengths 0 15] by (simp add: start_of_def [of lengths 0] del: upt_Suc upt_rec_numeral)
  have "assign_codes 0 (drop 0 lengths) (0 # first_codes 0 (butlast counts)) =
      map (code_entry lengths) (filter (\<lambda>s. lengths ! s \<noteq> 0) [0..<length lengths])"
    unfolding f by (rule assign_codes_exact [OF counts(2), where n = "length lengths"])
      (auto simp: nth_Cons' simp del: upt_Suc upt_rec_numeral)
  then show "hf_codes h' = map (code_entry lengths) (coded_symbols lengths)" using h' by (simp add: coded_symbols_def)
  show "hf_maximum_length h' = fold (\<lambda>c m. max m (hc_length c)) (hf_codes h') (hf_maximum_length h)" by (rule m)
qed

lemma fold_max_ge:
  "c \<in> set cs \<Longrightarrow> hc_length c \<le> fold (\<lambda>c m. max m (hc_length c)) cs (m :: u8)"
  "m \<le> fold (\<lambda>c m. max m (hc_length c)) cs m"
proof (induction cs arbitrary: m)
  case (Cons d cs)
  { case 1 then show ?case using Cons(1,2) by (auto intro: order_trans [OF max.cobounded2]) }
  { case 2 then show ?case using Cons(2) [of "max m (hc_length d)"] by (auto intro: order_trans [OF max.cobounded1]) }
qed simp_all

section \<open>The code is prefix-free\<close>

lemma bit_reverse_code: "l \<le> 16 \<Longrightarrow> bit (reverse_code l c) i \<longleftrightarrow> i < l \<and> bit c (l - 1 - i)"
proof (induction l arbitrary: i)
  case (Suc l)
  have r: "reverse_code (Suc l) c = push_bit 1 (reverse_code l c) OR (drop_bit l c AND 1)"
    by (simp add: reverse_code_def)
  have b: "bit (reverse_code (Suc l) c) i \<longleftrightarrow>
      (1 \<le> i \<and> i < 16 \<and> bit (reverse_code l c) (i - 1)) \<or> i = 0 \<and> bit c l"
    unfolding r bit_or_iff bit_push_bit_iff bit_and_iff bit_drop_bit_eq bit_1_iff by (cases "i = 0") simp_all
  show ?case
  proof (cases i)
    case 0
    then show ?thesis using b by simp
  next
    case (Suc j)
    then show ?thesis using b Suc.IH [of j] Suc.prems by auto
  qed
qed (simp add: reverse_code_def)

lemma length_code_word [simp]: "length (code_word lengths s) = unat (lengths ! s)"
  by (simp add: code_word_def)

lemma bit_word_nat: "bit (of_nat k :: 'a::len word) n \<longleftrightarrow> n < LENGTH('a) \<and> bit k n"
  by transfer (simp add: bit_take_bit_iff bit_of_nat_iff_bit)

lemma reverse_code_word:
  "unat (lengths ! s) \<le> 15 \<Longrightarrow>
   reverse_code (unat (lengths ! s)) (of_nat (canonical_code lengths s)) = word_of_bits (code_word lengths s)"
  by (rule bit_word_eqI)
    (auto simp: bit_reverse_code bit_word_of_bits code_word_def bit_word_nat)

lemma word_of_bits_inject:
  "length a = length b \<Longrightarrow> length a \<le> 16 \<Longrightarrow> (word_of_bits a :: u16) = word_of_bits b \<Longrightarrow> a = b"
proof (rule nth_equalityI)
  fix i assume i: "i < length a" and len: "length a = length b" "length a \<le> 16" and eq: "(word_of_bits a :: u16) = word_of_bits b"
  have "bit (word_of_bits a :: u16) i \<longleftrightarrow> bit (word_of_bits b :: u16) i" by (simp add: eq)
  then show "a ! i = b ! i" using i len by (simp add: bit_word_of_bits)
qed simp

lemma canonical_code_bounds:
  assumes "within_kraft lengths" "s < length lengths" "lengths ! s \<noteq> 0"
  shows "start_of lengths (unat (lengths ! s)) \<le> canonical_code lengths s"
    "canonical_code lengths s < start_of lengths (unat (lengths ! s)) + count_of lengths (unat (lengths ! s))"
    "canonical_code lengths s < 2 ^ unat (lengths ! s)" "1 \<le> unat (lengths ! s)" "unat (lengths ! s) \<le> 15"
proof -
  let ?l = "unat (lengths ! s)"
  show l: "1 \<le> ?l" using assms(3) by (simp add: Suc_le_eq unat_gt_0)
  show u: "?l \<le> 15" using assms by (auto simp: within_kraft_def list_all_length)
  show "start_of lengths ?l \<le> canonical_code lengths s" by (simp add: canonical_code_def Let_def)
  have "count_of (take (Suc s) lengths) ?l \<le> count_of (take (Suc s) lengths @ drop (Suc s) lengths) ?l"
    by (simp only: count_of_def filter_append length_append)
  then have "count_of (take s lengths) ?l < count_of lengths ?l"
    using assms(2) by (simp add: count_of_take_Suc)
  then show b: "canonical_code lengths s < start_of lengths ?l + count_of lengths ?l"
    by (simp add: canonical_code_def Let_def)
  have "start_of lengths ?l + count_of lengths ?l \<le> 2 ^ ?l"
    using assms(1) l u by (auto simp: within_kraft_def list_all_iff)
  then show "canonical_code lengths s < 2 ^ ?l" using b by simp
qed

lemma code_word_prefix:
  assumes k: "within_kraft lengths"
    and s: "s < length lengths" "lengths ! s \<noteq> 0" and t: "t < length lengths" "lengths ! t \<noteq> 0"
    and pre: "prefix (code_word lengths t) (code_word lengths s)"
  shows "t = s"
proof -
  define a b where "a = unat (lengths ! t)" and "b = unat (lengths ! s)"
  define c where "c = canonical_code lengths"
  note bt = canonical_code_bounds [OF k t, folded a_def c_def]
  note bs = canonical_code_bounds [OF k s, folded b_def c_def]
  have ab: "a \<le> b" using prefix_length_le [OF pre] by (simp add: a_def b_def)
  have "c t = drop_bit (b - a) (c s)"
  proof (rule bit_eqI)
    fix i
    show "bit (c t) i \<longleftrightarrow> bit (drop_bit (b - a) (c s)) i"
    proof (cases "i < a")
      case True
      have "code_word lengths t ! (a - 1 - i) = code_word lengths s ! (a - 1 - i)"
        using pre True by (auto simp: prefix_def nth_append a_def)
      then show ?thesis using True ab
        by (simp add: code_word_def flip: a_def b_def c_def) (simp add: bit_drop_bit_eq Suc_diff_Suc)
    next
      case False
      have "c t < 2 ^ i" using bt(3) False by (meson linorder_not_le order_less_le_trans one_le_numeral power_increasing)
      moreover have "c s < 2 ^ (b - a + i)"
        using bs(3) False ab by (rule_tac order_less_le_trans) (auto intro!: power_increasing)
      ultimately show ?thesis by (simp add: bit_drop_bit_eq) (simp add: bit_iff_odd)
    qed
  qed
  then have eq: "c t = c s div 2 ^ (b - a)" by (simp add: drop_bit_eq_div)
  have "a = b"
  proof (rule ccontr)
    assume "a \<noteq> b"
    then have "(start_of lengths a + count_of lengths a) * 2 ^ (b - a) \<le> start_of lengths b"
      using start_of_beyond [OF bt(4), of lengths "b - a"] ab by simp
    then have "(start_of lengths a + count_of lengths a) * 2 ^ (b - a) \<le> c s" using bs(1) by simp
    then have "start_of lengths a + count_of lengths a \<le> c t" using eq
      by (simp add: less_eq_div_iff_mult_less_eq)
    then show False using bt(2) by simp
  qed
  then have same: "c t = c s" using eq by simp
  have lt: False if "u < v" "v < length lengths" "unat (lengths ! u) = a" "unat (lengths ! v) = a" "c u = c v" for u v
  proof -
    have "take v lengths = take (Suc u) lengths @ drop (Suc u) (take v lengths)"
      using that(1) by (metis Suc_leI append_take_drop_id min.absorb1 take_take)
    then have "count_of (take (Suc u) lengths) a \<le> count_of (take v lengths) a"
      by (metis count_of_def filter_append le_add1 length_append)
    then show False using that by (simp add: c_def canonical_code_def Let_def count_of_take_Suc)
  qed
  show ?thesis using lt [of t s] lt [of s t] same s t \<open>a = b\<close> by (metis a_def b_def linorder_neqE_nat)
qed

section \<open>Decoding a code word\<close>

lemma find_unique:
  assumes "x \<in> set xs" "P x" "\<And>y. y \<in> set xs \<Longrightarrow> P y \<Longrightarrow> y = x"
  shows "find P xs = Some x"
proof -
  obtain y where "find P xs = Some y" using assms(1,2) by (meson find_None_iff not_None_eq)
  moreover from this have "y \<in> set xs" "P y" by (auto simp: find_Some_iff)
  ultimately show ?thesis using assms(3) by simp
qed

definition matches :: "nat \<Rightarrow> u16 \<Rightarrow> huffman_code \<Rightarrow> bool" where
  "matches len code candidate \<longleftrightarrow> unat (hc_length candidate) = len \<and> hc_reversed candidate = code"

lemma set_coded_symbols: "t \<in> set (coded_symbols lengths) \<longleftrightarrow> t < length lengths \<and> lengths ! t \<noteq> 0"
  by (auto simp: coded_symbols_def)

lemma entry_matches:
  assumes k: "within_kraft lengths" and t: "t \<in> set (coded_symbols lengths)" and "length bs \<le> 15"
  shows "matches (length bs) (word_of_bits bs) (code_entry lengths t) \<longleftrightarrow> code_word lengths t = bs"
proof -
  note b = canonical_code_bounds [OF k] 
  have "unat (lengths ! t) \<le> 15" using b(5) [of t] t by (simp add: set_coded_symbols)
  then have "matches (length bs) (word_of_bits bs) (code_entry lengths t) \<longleftrightarrow>
      unat (lengths ! t) = length bs \<and> (word_of_bits (code_word lengths t) :: u16) = word_of_bits bs"
    by (simp add: matches_def code_entry_def reverse_code_word)
  also have "\<dots> \<longleftrightarrow> code_word lengths t = bs"
  proof
    assume e: "unat (lengths ! t) = length bs \<and> (word_of_bits (code_word lengths t) :: u16) = word_of_bits bs"
    show "code_word lengths t = bs"
      by (rule word_of_bits_inject) (use e assms(3) in simp_all)
  next
    assume "code_word lengths t = bs"
    then show "unat (lengths ! t) = length bs \<and> (word_of_bits (code_word lengths t) :: u16) = word_of_bits bs"
      using length_code_word [of lengths t] by simp
  qed
  finally show ?thesis .
qed

lemma word_of_bits_snoc:
  assumes "length bs < 16"
  shows "(word_of_bits (bs @ [b]) :: u16) = word_of_bits bs OR push_bit (length bs) (ucast (word_of_bits [b] :: u32))"
proof (rule bit_word_eqI)
  fix n assume "n < LENGTH(16)"
  have one: "bit (ucast (word_of_bits [b] :: u32) :: u16) i \<longleftrightarrow> i = 0 \<and> b" for i
    unfolding bit_ucast_iff bit_word_of_bits by (cases i) simp_all
  show "bit (word_of_bits (bs @ [b]) :: u16) n \<longleftrightarrow>
      bit (word_of_bits bs OR push_bit (length bs) (ucast (word_of_bits [b] :: u32)) :: u16) n"
    unfolding bit_or_iff bit_push_bit_iff one bit_word_of_bits
    using \<open>n < LENGTH(16)\<close> assms
    by (cases "n < length bs"; cases "n = length bs") (simp_all add: nth_append min_def)
qed

lemma decode_bits_word:
  assumes k: "within_kraft lengths" and s: "s \<in> set (coded_symbols lengths)" and w: "w = code_word lengths s"
  shows "length w \<le> n + seen \<Longrightarrow> seen < length w \<Longrightarrow> br_ok r \<Longrightarrow> ahead r = drop seen w @ rest \<Longrightarrow>
    \<exists>r'. decode_bits (map (code_entry lengths) (coded_symbols lengths)) n (Suc seen) (word_of_bits (take seen w)) r = Some (of_nat s, r') \<and>
      r' = r\<lparr>br_bit := br_bit r + (length w - seen)\<rparr> \<and> ahead r' = rest \<and> br_ok r'"
proof (induction n arbitrary: seen r)
  case (Suc n)
  let ?codes = "map (code_entry lengths) (coded_symbols lengths)"
  have s': "s < length lengths" "lengths ! s \<noteq> 0" using s by (simp_all add: set_coded_symbols)
  have only: "t = s" if "t \<in> set (coded_symbols lengths)" "prefix (code_word lengths t) w" for t
    using that(2) that(1) [unfolded set_coded_symbols] unfolding w by (blast intro: code_word_prefix [OF k s'])
  have l15: "length w \<le> 15" using canonical_code_bounds(5) [OF k s'] by (simp add: w)
  define r1 where "r1 = r\<lparr>br_bit := br_bit r + 1\<rparr>"
  have a: "ahead r = [w ! seen] @ drop (Suc seen) w @ rest" using Suc.prems by (simp add: Cons_nth_drop_Suc)
  note rd = br_read_bits [OF a _ Suc.prems(3), simplified, folded r1_def]
  have rd1: "br_read 1 r = Some (word_of_bits [w ! seen], r1)" using rd(1) by (simp add: r1_def)
  have rd2: "ahead r1 = drop (Suc seen) w @ rest" "br_ok r1" using rd(2,3) by (simp_all add: r1_def)
  have code: "word_of_bits (take seen w) OR push_bit seen (ucast (word_of_bits [w ! seen] :: u32)) =
      (word_of_bits (take (Suc seen) w) :: u16)"
    using word_of_bits_snoc [of "take seen w" "w ! seen"] Suc.prems l15 by (simp add: take_Suc_conv_app_nth)
  have len: "length (take (Suc seen) w) = Suc seen" "length (take (Suc seen) w) \<le> 15" using Suc.prems l15 by simp_all
  note m = entry_matches [OF k _ len(2), unfolded len(1)]
  have step: "decode_bits ?codes (Suc n) (Suc seen) (word_of_bits (take seen w)) r =
      (case find (matches (Suc seen) (word_of_bits (take (Suc seen) w))) ?codes of
         Some c \<Rightarrow> Some (hc_symbol c, r1)
       | None \<Rightarrow> decode_bits ?codes n (Suc (Suc seen)) (word_of_bits (take (Suc seen) w)) r1)"
    by (simp only: decode_bits.simps rd1 option.case prod.case Let_def diff_Suc_1 code matches_def [abs_def])
  show ?case
  proof (cases "Suc seen = length w")
    case True
    have f: "find (matches (Suc seen) (word_of_bits (take (Suc seen) w))) ?codes = Some (code_entry lengths s)"
    proof (rule find_unique)
      show "code_entry lengths s \<in> set ?codes" using s by simp
      show "matches (Suc seen) (word_of_bits (take (Suc seen) w)) (code_entry lengths s)" using m [OF s] True w by simp
      fix y assume "y \<in> set ?codes" and y: "matches (Suc seen) (word_of_bits (take (Suc seen) w)) y"
      then obtain t where t: "t \<in> set (coded_symbols lengths)" "y = code_entry lengths t" by auto
      then have "code_word lengths t = w" using m [OF t(1)] y True by simp
      then have "t = s" using only [OF t(1)] by simp
      then show "y = code_entry lengths s" using t by simp
    qed
    have sym: "hc_symbol (code_entry lengths s) = of_nat s" by (simp add: code_entry_def)
    have "decode_bits ?codes (Suc n) (Suc seen) (word_of_bits (take seen w)) r = Some (of_nat s, r1)"
      by (simp only: step f option.case sym)
    moreover have "r1 = r\<lparr>br_bit := br_bit r + (length w - seen)\<rparr>" using True by (simp add: r1_def flip: True)
    moreover have "ahead r1 = rest" using rd2(1) True by simp
    ultimately show ?thesis using rd2(2) by blast
  next
    case False
    have "find (matches (Suc seen) (word_of_bits (take (Suc seen) w))) ?codes = None"
      unfolding find_None_iff
    proof
      assume "\<exists>y. y \<in> set ?codes \<and> matches (Suc seen) (word_of_bits (take (Suc seen) w)) y"
      then obtain t where t: "t \<in> set (coded_symbols lengths)" "matches (Suc seen) (word_of_bits (take (Suc seen) w)) (code_entry lengths t)"
        by auto
      then have e: "code_word lengths t = take (Suc seen) w" using m [OF t(1)] by simp
      then have "t = s" using only [OF t(1)] by (simp add: take_is_prefix)
      then show False using e w False Suc.prems by (metis le_SucE len(1) length_code_word nat_le_linear)
    qed
    then have "decode_bits ?codes (Suc n) (Suc seen) (word_of_bits (take seen w)) r =
        decode_bits ?codes n (Suc (Suc seen)) (word_of_bits (take (Suc seen) w)) r1" using step by simp
    moreover have "\<exists>r'. decode_bits ?codes n (Suc (Suc seen)) (word_of_bits (take (Suc seen) w)) r1 = Some (of_nat s, r') \<and>
        r' = r1\<lparr>br_bit := br_bit r1 + (length w - Suc seen)\<rparr> \<and> ahead r' = rest \<and> br_ok r'"
      using Suc.prems False rd2 by (intro Suc.IH) simp_all
    moreover have "r1\<lparr>br_bit := br_bit r1 + (length w - Suc seen)\<rparr> = r\<lparr>br_bit := br_bit r + (length w - seen)\<rparr>"
      using Suc.prems by (simp add: r1_def)
    ultimately show ?thesis by (simp only:)
  qed
qed simp

lemma huffman_decode_word:
  assumes "huffman_build lengths new_huffman = Some h" "length lengths < 65536"
    and "s < length lengths" "lengths ! s \<noteq> 0" "br_ok r" "ahead r = code_word lengths s @ rest"
  shows "within_kraft lengths \<and> huffman_decode h r = Some (of_nat s, r\<lparr>br_bit := br_bit r + unat (lengths ! s)\<rparr>) \<and>
    ahead (r\<lparr>br_bit := br_bit r + unat (lengths ! s)\<rparr>) = rest"
proof -
  note b = huffman_build_Some [OF assms(1,2)]
  have s: "s \<in> set (coded_symbols lengths)" using assms by (simp add: set_coded_symbols)
  have "code_entry lengths s \<in> set (hf_codes h)" using s b(2) by simp
  then have "lengths ! s \<le> hf_maximum_length h" using fold_max_ge(1) b(3) by (fastforce simp: code_entry_def)
  then have m: "unat (lengths ! s) \<le> unat (hf_maximum_length h)" by (simp add: word_le_nat_alt)
  have pos: "0 < unat (lengths ! s)" using assms(4) by (simp add: unat_gt_0)
  have "\<exists>r'. decode_bits (map (code_entry lengths) (coded_symbols lengths)) (unat (hf_maximum_length h)) (Suc 0)
        (word_of_bits (take 0 (code_word lengths s))) r = Some (of_nat s, r') \<and>
      r' = r\<lparr>br_bit := br_bit r + (length (code_word lengths s) - 0)\<rparr> \<and> ahead r' = rest \<and> br_ok r'"
    using m pos assms(5,6) by (intro decode_bits_word [OF b(1) s refl]) simp_all
  moreover have "(word_of_bits [] :: u16) = 0" by (simp add: word_of_bits_def)
  ultimately show ?thesis using b(1,2) by (simp add: huffman_decode_def)
qed

text \<open>
  C26: whenever \<open>build\<close> accepts code lengths, they keep the Kraft bound, and the decoder reads every
  symbol that has a code from exactly the bits of the canonical code the standard assigns to
  it, whatever follows them: no code word is the beginning of another, and none is lost to
  the reversed bit order or to wrap-around of the 16-bit codes.
\<close>

theorem huffman_decodes_canonical:
  assumes "huffman_build lengths new_huffman = Some h" "length lengths < 65536"
    and "s < length lengths" "lengths ! s \<noteq> 0" "br_ok r" "ahead r = code_word lengths s @ rest"
  shows "within_kraft lengths \<and> huffman_decode h r = Some (of_nat s, r\<lparr>br_bit := br_bit r + unat (lengths ! s)\<rparr>) \<and>
    ahead (r\<lparr>br_bit := br_bit r + unat (lengths ! s)\<rparr>) = rest"
  using assms by (rule huffman_decode_word)

lemma sample_table: "huffman_build [1, 2, 2] new_huffman \<noteq> None"
  by code_simp

lemma sample_word:
  "ahead \<lparr>br_input = [3], br_bit = 0\<rparr> = code_word [1, 2, 2] 2 @ replicate 6 False \<and> br_ok \<lparr>br_input = [3], br_bit = 0\<rparr>"
  by code_simp

theorem huffman_decodes_canonical_witness:
  "huffman_decode (the (huffman_build [1, 2, 2] new_huffman)) \<lparr>br_input = [3], br_bit = 0\<rparr> =
     Some (2, \<lparr>br_input = [3], br_bit = 2\<rparr>)"
  using huffman_decodes_canonical [of "[1, 2, 2]" "the (huffman_build [1, 2, 2] new_huffman)" 2
      "\<lparr>br_input = [3], br_bit = 0\<rparr>" "replicate 6 False"] sample_table sample_word
  by auto

end
