(* ===== verification/AIS_Inflate.thy ===== *)
theory AIS_Inflate
  imports AIS_Huffman
begin

text \<open>
  The inflater of \<open>src/zip_preflight.cpp\<close> (\<open>dynamic_tables\<close>, \<open>fixed_tables\<close>,
  \<open>inflate_raw\<close>). The code returns \<open>false\<close> where the model returns \<open>None\<close>; the reader, the
  tables and the output of a failed call are not used by any caller. The loops consume at
  least one bit in every turn, which is their termination measure. Shown are the bound on the
  output, that it is exact when the call succeeds, and that the streams which the standard
  assigns to lists of blocks are inflated to their contents, unless a block sends a distance
  code without a symbol, which is refused.
\<close>

section \<open>Tables\<close>

definition code_length_order :: "nat list" where
  "code_length_order = [16, 17, 18, 0, 8, 7, 9, 6, 10, 5, 11, 4, 12, 3, 13, 2, 14, 1, 15]"

fun read_code_lengths :: "nat list \<Rightarrow> u8 list \<Rightarrow> bit_reader \<Rightarrow> (u8 list \<times> bit_reader) option" where
  "read_code_lengths [] code_lengths r = Some (code_lengths, r)"
| "read_code_lengths (index # order) code_lengths r =
     (case br_read 3 r of
        None \<Rightarrow> None
      | Some (v, r) \<Rightarrow> read_code_lengths order (code_lengths[index := ucast v]) r)"

text \<open>
  What a symbol above 15 stands for: the number of extra bits, the least count and the
  length to repeat.
\<close>

definition repeat_rule :: "u16 \<Rightarrow> u8 list \<Rightarrow> (nat \<times> nat \<times> u8) option" where
  "repeat_rule symbol lengths =
     (if symbol = 16 then (if lengths = [] then None else Some (2, 3, last lengths))
      else if symbol = 17 then Some (3, 3, 0)
      else if symbol = 18 then Some (7, 11, 0)
      else None)"

lemma repeat_rule_positive: "repeat_rule symbol lengths = Some (bits, base, v) \<Longrightarrow> 3 \<le> base"
  by (auto simp: repeat_rule_def split: if_splits)

function read_lengths :: "huffman \<Rightarrow> nat \<Rightarrow> u8 list \<Rightarrow> bit_reader \<Rightarrow> (u8 list \<times> bit_reader) option" where
  "read_lengths code_table target lengths r =
     (if target \<le> length lengths then Some (lengths, r)
      else (case huffman_decode code_table r of
              None \<Rightarrow> None
            | Some (symbol, r) \<Rightarrow>
                if symbol \<le> 15 then read_lengths code_table target (lengths @ [ucast symbol]) r
                else (case repeat_rule symbol lengths of
                        None \<Rightarrow> None
                      | Some (extra_bits, base, repeated) \<Rightarrow>
                          (case br_read extra_bits r of
                             None \<Rightarrow> None
                           | Some (extra, r) \<Rightarrow>
                               if length lengths + base + unat extra > target then None
                               else read_lengths code_table target (lengths @ replicate (base + unat extra) repeated) r))))"
  by pat_completeness auto
termination
  by (relation "measure (\<lambda>(_, target, lengths, _). target - length lengths)") (auto dest: repeat_rule_positive)

declare read_lengths.simps [simp del]

definition dynamic_tables :: "bit_reader \<Rightarrow> (huffman \<times> huffman \<times> bit_reader) option" where
  "dynamic_tables r = do {
     (hlit_bits, r) \<leftarrow> br_read 5 r;
     (hdist_bits, r) \<leftarrow> br_read 5 r;
     (hclen_bits, r) \<leftarrow> br_read 4 r;
     let literal_count = unat hlit_bits + 257;
     let distance_count = unat hdist_bits + 1;
     let code_count = unat hclen_bits + 4;
     (code_lengths, r) \<leftarrow> read_code_lengths (take code_count code_length_order) (replicate 19 0) r;
     code_table \<leftarrow> huffman_build code_lengths new_huffman;
     (lengths, r) \<leftarrow> read_lengths code_table (literal_count + distance_count) [] r;
     if lengths ! 256 = 0 then None
     else do {
       literals \<leftarrow> huffman_build (take literal_count lengths) new_huffman;
       distances \<leftarrow> huffman_build (take distance_count (drop literal_count lengths)) new_huffman;
       Some (literals, distances, r)
     }
   }"

definition fixed_literal_lengths :: "u8 list" where
  "fixed_literal_lengths = replicate 144 8 @ replicate 112 9 @ replicate 24 7 @ replicate 8 8"

definition fixed_distance_lengths :: "u8 list" where
  "fixed_distance_lengths = replicate 32 5"

definition fixed_tables :: "(huffman \<times> huffman) option" where
  "fixed_tables = do {
     literals \<leftarrow> huffman_build fixed_literal_lengths new_huffman;
     distances \<leftarrow> huffman_build fixed_distance_lengths new_huffman;
     Some (literals, distances)
   }"

section \<open>Blocks\<close>

definition length_base :: "nat list" where
  "length_base = [3, 4, 5, 6, 7, 8, 9, 10, 11, 13, 15, 17, 19, 23, 27, 31, 35, 43, 51, 59, 67, 83, 99, 115, 131,
     163, 195, 227, 258]"

definition length_extra :: "nat list" where
  "length_extra = [0, 0, 0, 0, 0, 0, 0, 0, 1, 1, 1, 1, 2, 2, 2, 2, 3, 3, 3, 3, 4, 4, 4, 4, 5, 5, 5, 5, 0]"

definition distance_base :: "nat list" where
  "distance_base = [1, 2, 3, 4, 5, 7, 9, 13, 17, 25, 33, 49, 65, 97, 129, 193, 257, 385, 513, 769, 1025, 1537,
     2049, 3073, 4097, 6145, 8193, 12289, 16385, 24577]"

definition distance_extra :: "nat list" where
  "distance_extra = [0, 0, 0, 0, 1, 1, 2, 2, 3, 3, 4, 4, 5, 5, 6, 6, 7, 7, 8, 8, 9, 9, 10, 10, 11, 11,
     12, 12, 13, 13]"

text \<open>The bytes of a stored block, and the copy of earlier output one byte after the other.\<close>

fun read_stored :: "nat \<Rightarrow> bytes \<Rightarrow> bit_reader \<Rightarrow> (bytes \<times> bit_reader) option" where
  "read_stored 0 out r = Some (out, r)"
| "read_stored (Suc n) out r =
     (case br_read 8 r of
        None \<Rightarrow> None
      | Some (v, r) \<Rightarrow> read_stored n (out @ [ucast v]) r)"

fun copy_back :: "nat \<Rightarrow> nat \<Rightarrow> bytes \<Rightarrow> bytes" where
  "copy_back 0 distance out = out"
| "copy_back (Suc n) distance out = copy_back n distance (out @ [out ! (length out - distance)])"

text \<open>The length and the distance of a match, after its symbol above 256.\<close>

definition read_match :: "huffman \<Rightarrow> u16 \<Rightarrow> bit_reader \<Rightarrow> (nat \<times> nat \<times> bit_reader) option" where
  "read_match distances symbol r =
     (let length_index = unat (symbol - 257) in do {
        (length_bits, r) \<leftarrow> br_read (length_extra ! length_index) r;
        let len = length_base ! length_index + unat length_bits;
        (distance_symbol, r) \<leftarrow> huffman_decode distances r;
        if unat distance_symbol \<ge> length distance_base then None
        else do {
          (distance_bits, r) \<leftarrow> br_read (distance_extra ! unat distance_symbol) r;
          Some (len, distance_base ! unat distance_symbol + unat distance_bits, r)
        }
      })"

definition bits_left :: "bit_reader \<Rightarrow> nat" where
  "bits_left r = length (br_input r) * 8 - br_bit r"

lemma br_read_left: "br_read count r = Some (v, r') \<Longrightarrow> bits_left r' + count = bits_left r"
  by (auto simp: bits_left_def dest!: br_read_moves)

lemma decode_bits_left: "decode_bits codes n len code r = Some (symbol, r') \<Longrightarrow> bits_left r' < bits_left r"
proof (induction n arbitrary: len code r)
  case (Suc n)
  obtain b r1 where b: "br_read 1 r = Some (b, r1)" using Suc.prems by (auto split: option.splits)
  then have "bits_left r1 < bits_left r" using br_read_left by fastforce
  then show ?case using Suc b by (fastforce simp: Let_def split: option.splits)
qed simp

lemma huffman_decode_left: "huffman_decode h r = Some (symbol, r') \<Longrightarrow> bits_left r' < bits_left r"
  by (auto simp: huffman_decode_def dest: decode_bits_left)

lemma read_match_left: "read_match h symbol r = Some (l, d, r') \<Longrightarrow> bits_left r' < bits_left r"
  unfolding read_match_def Let_def
  by (auto split: Option.bind_splits prod.splits if_splits dest!: br_read_left huffman_decode_left)

function inflate_symbols :: "huffman \<Rightarrow> huffman \<Rightarrow> nat \<Rightarrow> bytes \<Rightarrow> bit_reader \<Rightarrow> (bytes \<times> bit_reader) option" where
  "inflate_symbols literals distances expected out r =
     (case huffman_decode literals r of
        None \<Rightarrow> None
      | Some (symbol, r) \<Rightarrow>
          if symbol < 256 then
            (if length out \<ge> expected then None
             else inflate_symbols literals distances expected (out @ [ucast symbol]) r)
          else if symbol = 256 then Some (out, r)
          else if symbol < 257 \<or> symbol > 285 then None
          else (case read_match distances symbol r of
                  None \<Rightarrow> None
                | Some (len, distance, r) \<Rightarrow>
                    if distance = 0 \<or> distance > length out \<or> length out + len > expected then None
                    else inflate_symbols literals distances expected (copy_back len distance out) r))"
  by pat_completeness auto
termination
  by (relation "measure (\<lambda>(_, _, _, _, r). bits_left r)")
    (auto dest!: huffman_decode_left read_match_left)

declare inflate_symbols.simps [simp del]

definition inflate_stored :: "nat \<Rightarrow> bytes \<Rightarrow> bit_reader \<Rightarrow> (bytes \<times> bit_reader) option" where
  "inflate_stored expected out r = do {
     let r = br_align r;
     (len, r) \<leftarrow> br_read 16 r;
     (complement, r) \<leftarrow> br_read 16 r;
     if ucast (ucast (len XOR 0xffff) :: u16) \<noteq> complement \<or> length out + unat len > expected then None
     else read_stored (unat len) out r
   }"

definition block_tables :: "u32 \<Rightarrow> bit_reader \<Rightarrow> (huffman \<times> huffman \<times> bit_reader) option" where
  "block_tables type r =
     (if type = 1 then do { (literals, distances) \<leftarrow> fixed_tables; Some (literals, distances, r) }
      else dynamic_tables r)"

text \<open>One block: the two header fields, then its contents.\<close>

definition inflate_block :: "nat \<Rightarrow> bytes \<Rightarrow> bit_reader \<Rightarrow> (bool \<times> bytes \<times> bit_reader) option" where
  "inflate_block expected out r = do {
     (final, r) \<leftarrow> br_read 1 r;
     (type, r) \<leftarrow> br_read 2 r;
     if type = 3 then None
     else if type = 0 then do {
       (out, r) \<leftarrow> inflate_stored expected out r;
       Some (final \<noteq> 0, out, r)
     } else do {
       (literals, distances, r) \<leftarrow> block_tables type r;
       (out, r) \<leftarrow> inflate_symbols literals distances expected out r;
       Some (final \<noteq> 0, out, r)
     }
   }"

lemma read_stored_left: "read_stored n out r = Some (out', r') \<Longrightarrow> bits_left r' \<le> bits_left r"
  by (induction n arbitrary: out r) (fastforce split: option.splits dest!: br_read_left)+

lemma inflate_stored_left: "inflate_stored expected out r = Some (out', r') \<Longrightarrow> bits_left r' \<le> bits_left r"
proof -
  have "bits_left (br_align r) \<le> bits_left r" by (simp add: bits_left_def br_align_def)
  then show "inflate_stored expected out r = Some (out', r') \<Longrightarrow> bits_left r' \<le> bits_left r"
    unfolding inflate_stored_def Let_def
    by (auto split: Option.bind_splits prod.splits if_splits dest!: br_read_left read_stored_left)
qed

lemma read_code_lengths_left: "read_code_lengths order cs r = Some (cs', r') \<Longrightarrow> bits_left r' \<le> bits_left r"
  by (induction order cs r rule: read_code_lengths.induct) (fastforce split: option.splits dest!: br_read_left)+

lemma read_lengths_cases:
  assumes "read_lengths h target lengths r = Some (lengths', r')"
  obtains (finished) "target \<le> length lengths" "lengths' = lengths" "r' = r"
    | (plain) symbol r1 where "\<not> target \<le> length lengths" "huffman_decode h r = Some (symbol, r1)" "symbol \<le> 15"
        "read_lengths h target (lengths @ [ucast symbol]) r1 = Some (lengths', r')"
    | (again) symbol r1 bits base v extra r2 where "\<not> target \<le> length lengths" "huffman_decode h r = Some (symbol, r1)"
        "\<not> symbol \<le> 15" "repeat_rule symbol lengths = Some (bits, base, v)" "br_read bits r1 = Some (extra, r2)"
        "length lengths + base + unat extra \<le> target"
        "read_lengths h target (lengths @ replicate (base + unat extra) v) r2 = Some (lengths', r')"
  using assms by (subst (asm) read_lengths.simps) (auto split: if_splits option.splits prod.splits simp: not_less)

lemma read_lengths_left: "read_lengths h target lengths r = Some (lengths', r') \<Longrightarrow> bits_left r' \<le> bits_left r"
proof (induction h target lengths r rule: read_lengths.induct)
  case (1 h target lengths r)
  from "1.prems" show ?case
  proof (cases rule: read_lengths_cases)
    case (plain symbol r1)
    then show ?thesis using "1.IH"(1) [OF plain(1,2) refl plain(3)] huffman_decode_left [OF plain(2)] by simp
  next
    case (again symbol r1 bits base v extra r2)
    then show ?thesis
      using "1.IH"(2) [OF again(1,2) refl again(3,4) refl refl again(5) refl] br_read_left [OF again(5)]
        huffman_decode_left [OF again(2)] by simp
  qed simp
qed

lemma dynamic_tables_left: "dynamic_tables r = Some (l, d, r') \<Longrightarrow> bits_left r' \<le> bits_left r"
  unfolding dynamic_tables_def Let_def
  by (auto split: Option.bind_splits prod.splits if_splits dest!: br_read_left read_code_lengths_left read_lengths_left)

lemma inflate_symbols_cases:
  assumes "inflate_symbols literals distances expected out r = Some (out', r')"
  obtains (literal) symbol r1 where "huffman_decode literals r = Some (symbol, r1)" "symbol < 256" "length out < expected"
        "inflate_symbols literals distances expected (out @ [ucast symbol]) r1 = Some (out', r')"
    | (finished) "huffman_decode literals r = Some (256, r')" "out' = out"
    | (copied) symbol r1 len distance r2 where "huffman_decode literals r = Some (symbol, r1)" "256 < symbol" "symbol \<le> 285"
        "read_match distances symbol r1 = Some (len, distance, r2)" "0 < distance" "distance \<le> length out"
        "length out + len \<le> expected"
        "inflate_symbols literals distances expected (copy_back len distance out) r2 = Some (out', r')"
proof -
  obtain symbol r1 where h: "huffman_decode literals r = Some (symbol, r1)"
    using assms by (subst (asm) inflate_symbols.simps) (auto split: option.splits)
  note e = assms [unfolded inflate_symbols.simps [of literals distances expected out r] h option.case prod.case]
  consider "symbol < 256" | "symbol = 256" | "256 < symbol" by (metis linorder_less_linear)
  then show thesis
  proof cases
    case 1
    then show ?thesis using e h literal by (auto split: if_splits simp: not_le)
  next
    case 2
    then show ?thesis using e h finished by auto
  next
    case 3
    then have n: "\<not> symbol < 256" "symbol \<noteq> 256" by (auto dest: order_less_imp_not_less)
    then obtain len distance r2 where m: "read_match distances symbol r1 = Some (len, distance, r2)" "symbol \<le> 285"
      using e by (auto split: if_splits option.splits simp: not_less)
    have "\<not> symbol < 257"
    proof
      assume "symbol < 257"
      then show False using 3 by (simp add: word_less_nat_alt)
    qed
    then have "\<not> (symbol < 257 \<or> 285 < symbol)" using m by auto
    then show ?thesis
      using e n m 3 by (intro copied [OF h 3 m(2,1)]) (auto split: if_splits)
  qed
qed

lemma inflate_symbols_left: "inflate_symbols l d expected out r = Some (out', r') \<Longrightarrow> bits_left r' \<le> bits_left r"
proof (induction "bits_left r" arbitrary: out r rule: less_induct)
  case less
  from less.prems show ?case
  proof (cases rule: inflate_symbols_cases)
    case (literal symbol r1)
    then show ?thesis using less.hyps [OF _ literal(4)] huffman_decode_left [OF literal(1)] by simp
  next
    case finished
    then show ?thesis using huffman_decode_left by fastforce
  next
    case (copied symbol r1 len distance r2)
    then show ?thesis
      using less.hyps [OF _ copied(8)] huffman_decode_left [OF copied(1)] read_match_left [OF copied(4)] by simp
  qed
qed

lemma inflate_block_left: "inflate_block expected out r = Some (final, out', r') \<Longrightarrow> bits_left r' < bits_left r"
  unfolding inflate_block_def block_tables_def
  by (auto split: Option.bind_splits prod.splits if_splits
      dest!: br_read_left inflate_stored_left dynamic_tables_left inflate_symbols_left)

function inflate_blocks :: "nat \<Rightarrow> bytes \<Rightarrow> bit_reader \<Rightarrow> (bytes \<times> bit_reader) option" where
  "inflate_blocks expected out r =
     (case inflate_block expected out r of
        None \<Rightarrow> None
      | Some (final, out, r) \<Rightarrow> if final then Some (out, r) else inflate_blocks expected out r)"
  by pat_completeness auto
termination
  by (relation "measure (\<lambda>(_, _, r). bits_left r)") (auto dest: inflate_block_left)

declare inflate_blocks.simps [simp del]

definition inflate_raw :: "bytes \<Rightarrow> nat \<Rightarrow> bytes option" where
  "inflate_raw input expected = do {
     (out, r) \<leftarrow> inflate_blocks expected [] \<lparr>br_input = input, br_bit = 0\<rparr>;
     if length out = expected \<and> br_byte_offset r = length input then Some out else None
   }"

section \<open>The output stays within its bound\<close>

lemma length_copy_back [simp]: "length (copy_back n d out) = length out + n"
  by (induction n d out rule: copy_back.induct) simp_all

lemma prefix_copy_back: "prefix out (copy_back n d out)"
  by (induction n d out rule: copy_back.induct) (simp, metis append_prefixD copy_back.simps(2))

lemma read_stored_output: "read_stored n out r = Some (out', r') \<Longrightarrow> length out' = length out + n \<and> prefix out out'"
proof (induction n arbitrary: out r)
  case (Suc n)
  then show ?case by (fastforce split: option.splits dest: append_prefixD)
qed simp

lemma inflate_symbols_output:
  "inflate_symbols l d expected out r = Some (out', r') \<Longrightarrow> length out \<le> expected \<Longrightarrow>
   length out' \<le> expected \<and> prefix out out'"
proof (induction "bits_left r" arbitrary: out r rule: less_induct)
  case less
  from less.prems(1) show ?case
  proof (cases rule: inflate_symbols_cases)
    case (literal symbol r1)
    then show ?thesis using less.hyps [OF _ literal(4)] huffman_decode_left [OF literal(1)] append_prefixD by fastforce
  next
    case finished
    then show ?thesis using less.prems by simp
  next
    case (copied symbol r1 len distance r2)
    then have "length out' \<le> expected \<and> prefix (copy_back len distance out) out'"
      using less.hyps [OF _ copied(8)] huffman_decode_left [OF copied(1)] read_match_left [OF copied(4)] by simp
    then show ?thesis using prefix_copy_back prefix_order.trans by blast
  qed
qed

lemma inflate_block_output:
  assumes "inflate_block expected out r = Some (final, out', r')" "length out \<le> expected"
  shows "length out' \<le> expected" "prefix out out'"
proof -
  have stored: "length out' \<le> expected \<and> prefix out out'" if "inflate_stored expected out r1 = Some (out', r2)" for r1 r2
    using that unfolding inflate_stored_def Let_def
    by (auto split: Option.bind_splits prod.splits if_splits dest!: read_stored_output)
  have "length out' \<le> expected \<and> prefix out out'"
    using assms(1) unfolding inflate_block_def
    by (auto split: Option.bind_splits prod.splits if_splits
        dest!: stored inflate_symbols_output [OF _ assms(2)])
  then show "length out' \<le> expected" "prefix out out'" by simp_all
qed

section \<open>The format\<close>

text \<open>
  Contents in the sense of the standard: literal bytes and matches, where a match repeats the
  last \<open>d\<close> bytes; a block stores bytes or holds tokens under a code, which is either fixed or
  sent before them as code lengths, themselves run-length encoded under a third code.
\<close>

datatype lz_token = Literal u8 | Match nat nat

datatype length_op = Len u8 | Again nat | Zeros nat

datatype deflate_block =
    Stored "bool list" bytes
  | Fixed "lz_token list"
  | Dynamic nat "u8 list" "length_op list" nat "lz_token list"

fun expand_tokens :: "bytes \<Rightarrow> lz_token list \<Rightarrow> bytes" where
  "expand_tokens out [] = out"
| "expand_tokens out (Literal b # ts) = expand_tokens (out @ [b]) ts"
| "expand_tokens out (Match n d # ts) =
     expand_tokens (out @ map (\<lambda>i. out ! (length out - d + i mod d)) [0..<n]) ts"

definition bits_for :: "nat \<Rightarrow> nat \<Rightarrow> bool list" where
  "bits_for k v = map (bit v) [0..<k]"

definition index_for :: "nat list \<Rightarrow> nat \<Rightarrow> nat" where
  "index_for bases v = length (takeWhile (\<lambda>b. b \<le> v) bases) - 1"

text \<open>The bits of a token under the code lengths \<open>L\<close> of literals and \<open>D\<close> of distances.\<close>

fun token_bits :: "u8 list \<Rightarrow> u8 list \<Rightarrow> lz_token \<Rightarrow> bool list" where
  "token_bits L D (Literal b) = code_word L (unat b)"
| "token_bits L D (Match n d) =
     (let i = index_for length_base n; j = index_for distance_base d in
      code_word L (257 + i) @ bits_for (length_extra ! i) (n - length_base ! i) @
      code_word D j @ bits_for (distance_extra ! j) (d - distance_base ! j))"

definition has_code :: "u8 list \<Rightarrow> nat \<Rightarrow> bool" where
  "has_code L s \<longleftrightarrow> s < length L \<and> L ! s \<noteq> 0"

fun valid_tokens :: "u8 list \<Rightarrow> u8 list \<Rightarrow> nat \<Rightarrow> lz_token list \<Rightarrow> bool" where
  "valid_tokens L D len [] \<longleftrightarrow> has_code L 256"
| "valid_tokens L D len (Literal b # ts) \<longleftrightarrow> has_code L (unat b) \<and> valid_tokens L D (len + 1) ts"
| "valid_tokens L D len (Match n d # ts) \<longleftrightarrow>
     3 \<le> n \<and> n \<le> 258 \<and> 1 \<le> d \<and> d \<le> 32768 \<and> d \<le> len \<and>
     has_code L (257 + index_for length_base n) \<and> has_code D (index_for distance_base d) \<and>
     valid_tokens L D (len + n) ts"

definition tokens_bits :: "u8 list \<Rightarrow> u8 list \<Rightarrow> lz_token list \<Rightarrow> bool list" where
  "tokens_bits L D ts = concat (map (token_bits L D) ts) @ code_word L 256"

lemma copy_back_match:
  "0 < d \<Longrightarrow> d \<le> length out \<Longrightarrow> copy_back n d (out @ map (\<lambda>i. out ! (length out - d + i mod d)) [0..<m]) =
     out @ map (\<lambda>i. out ! (length out - d + i mod d)) [0..<m + n]"
proof (induction n arbitrary: m)
  case (Suc n)
  let ?f = "\<lambda>i. out ! (length out - d + i mod d)"
  have "(out @ map ?f [0..<m]) ! (length out + m - d) = ?f m"
  proof (cases "m < d")
    case True
    then have "length out + m - d = length out - d + m" "length out - d + m < length out" using Suc.prems by simp_all
    then show ?thesis using True by (simp add: nth_append)
  next
    case False
    then have "length out + m - d = length out + (m - d)" "m - d < m" using Suc.prems by simp_all
    then show ?thesis using False by (simp add: nth_append le_mod_geq)
  qed
  then show ?case using Suc.IH [of "Suc m"] Suc.prems by simp
qed simp

lemma expand_match: "0 < d \<Longrightarrow> d \<le> length out \<Longrightarrow> expand_tokens out (Match n d # ts) = expand_tokens (copy_back n d out) ts"
  using copy_back_match [of d out n 0] by simp

lemma length_bits_for [simp]: "length (bits_for k v) = k"
  by (simp add: bits_for_def)

lemma word_bits_for: "v < 2 ^ k \<Longrightarrow> k \<le> 32 \<Longrightarrow> unat (word_of_bits (bits_for k v) :: u32) = v"
proof -
  assume v: "v < 2 ^ k" "k \<le> 32"
  have "(word_of_bits (bits_for k v) :: u32) = of_nat v"
  proof (rule bit_word_eqI)
    fix i assume "i < LENGTH(32)"
    moreover have "bit v i \<Longrightarrow> i < k" using v(1) by (metis bit_take_bit_iff take_bit_nat_eq_self)
    ultimately show "bit (word_of_bits (bits_for k v) :: u32) i \<longleftrightarrow> bit (of_nat v :: u32) i"
      using v(2) by (auto simp: bit_word_of_bits bits_for_def bit_word_nat)
  qed
  moreover have "v < 2 ^ 32" using v by (meson order_less_le_trans one_le_numeral power_increasing)
  ultimately show ?thesis by (simp add: unat_of_nat)
qed

text \<open>The tables of bases split the lengths and distances into intervals.\<close>

lemma index_for_interval:
  assumes "sorted bases" "bases \<noteq> []" "hd bases \<le> v"
  shows "index_for bases v < length bases" "bases ! index_for bases v \<le> v"
    "Suc (index_for bases v) < length bases \<Longrightarrow> v < bases ! Suc (index_for bases v)"
proof -
  let ?t = "takeWhile (\<lambda>b. b \<le> v) bases"
  have t: "?t \<noteq> []" using assms(2,3) by (cases bases) auto
  have le: "length ?t \<le> length bases" by (rule length_takeWhile_le)
  have "0 < length ?t" using t by simp
  then show i: "index_for bases v < length bases" using le by (simp only: index_for_def)
  have "bases ! index_for bases v = ?t ! index_for bases v"
    using t by (metis One_nat_def diff_Suc_less index_for_def length_greater_0_conv takeWhile_nth)
  then show "bases ! index_for bases v \<le> v"
    using t nth_mem [of "index_for bases v" ?t] by (metis diff_Suc_less index_for_def length_greater_0_conv One_nat_def set_takeWhileD)
  show "v < bases ! Suc (index_for bases v)" if "Suc (index_for bases v) < length bases"
    using nth_length_takeWhile [of "\<lambda>b. b \<le> v" bases] t that by (simp add: index_for_def)
qed

lemma length_tables:
  "sorted length_base" "length length_base = Suc 28" "hd length_base = 3" "length_base ! 28 = 258" "length_extra ! 28 = 0"
  by (simp_all add: length_base_def length_extra_def)

lemma length_steps:
  "list_all (\<lambda>(a, b, e). b \<le> a + 2 ^ e \<and> e \<le> 5) (zip length_base (zip (tl length_base) length_extra))" "length length_extra = Suc 28"
  by (simp_all add: length_base_def length_extra_def)

lemma distance_tables:
  "sorted distance_base" "length distance_base = Suc 29" "hd distance_base = 1" "distance_base ! 29 = 24577"
  "distance_extra ! 29 = 13"
  by (simp_all add: distance_base_def distance_extra_def)

lemma distance_steps:
  "list_all (\<lambda>(a, b, e). b \<le> a + 2 ^ e \<and> e \<le> 13) (zip distance_base (zip (tl distance_base) distance_extra))" "length distance_extra = Suc 29"
  by (simp_all add: distance_base_def distance_extra_def)

lemma symbol_fits:
  assumes "sorted bases" "length bases = Suc k" "hd bases \<le> v"
    "list_all (\<lambda>(a, b, e). b \<le> a + 2 ^ e \<and> e \<le> m) (zip bases (zip (tl bases) extra))" "length extra = Suc k"
    "extra ! k \<le> m" "v < bases ! k + 2 ^ (extra ! k)"
  shows "index_for bases v < Suc k" "bases ! index_for bases v \<le> v"
    "v - bases ! index_for bases v < 2 ^ (extra ! index_for bases v)" "extra ! index_for bases v \<le> m"
proof -
  have ne: "bases \<noteq> []" using assms(2) by auto
  note i = index_for_interval [OF assms(1) ne assms(3)]
  show b: "index_for bases v < Suc k" "bases ! index_for bases v \<le> v" using i assms(2) by simp_all
  have mem: "bases ! Suc (index_for bases v) \<le> bases ! index_for bases v + 2 ^ (extra ! index_for bases v)"
      "extra ! index_for bases v \<le> m" if "index_for bases v \<noteq> k"
  proof -
    have "index_for bases v < k" using that b(1) by simp
    then show "bases ! Suc (index_for bases v) \<le> bases ! index_for bases v + 2 ^ (extra ! index_for bases v)"
      "extra ! index_for bases v \<le> m" using assms(2,4,5) by (auto simp: list_all_length nth_tl)
  qed
  show "v - bases ! index_for bases v < 2 ^ (extra ! index_for bases v)"
  proof (cases "index_for bases v = k")
    case True
    then show ?thesis using assms(7) b(2) by simp
  next
    case False
    then have "v < bases ! Suc (index_for bases v)" using i b assms(2) by simp
    then show ?thesis using mem(1) [OF False] b(2) by simp
  qed
  show "extra ! index_for bases v \<le> m"
    using mem(2) assms(6) by (cases "index_for bases v = k") simp_all
qed

lemma length_symbol:
  assumes "3 \<le> n" "n \<le> 258"
  shows "index_for length_base n < 29" "length_base ! index_for length_base n \<le> n"
    "n - length_base ! index_for length_base n < 2 ^ (length_extra ! index_for length_base n)"
    "length_extra ! index_for length_base n \<le> 5"
  using symbol_fits [OF length_tables(1,2) _ length_steps, of n] length_tables(3-5) assms by simp_all

lemma distance_symbol:
  assumes "1 \<le> d" "d \<le> 32768"
  shows "index_for distance_base d < 30" "distance_base ! index_for distance_base d \<le> d"
    "d - distance_base ! index_for distance_base d < 2 ^ (distance_extra ! index_for distance_base d)"
    "distance_extra ! index_for distance_base d \<le> 13"
  using symbol_fits [OF distance_tables(1,2) _ distance_steps, of d] distance_tables(3-5) assms by simp_all

section \<open>Reading what the format writes\<close>

definition advance :: "nat \<Rightarrow> bit_reader \<Rightarrow> bit_reader" where
  "advance n r = r\<lparr>br_bit := br_bit r + n\<rparr>"

definition reader_at :: "bit_reader \<Rightarrow> bool list \<Rightarrow> bool" where
  "reader_at r bs \<longleftrightarrow> br_ok r \<and> ahead r = bs"

lemma advance_simps [simp]:
  "advance m (advance n r) = advance (n + m) r" "br_input (advance n r) = br_input r"
  "br_bit (advance n r) = br_bit r + n" "advance 0 r = r"
  by (simp_all add: advance_def)

lemma read_at:
  assumes "reader_at r (bs @ rest)" "length bs = k" "k \<le> 24"
  shows "br_read k r = Some (word_of_bits bs, advance k r)" "reader_at (advance k r) rest"
  using br_read_bits [of r bs rest] assms by (simp_all add: reader_at_def advance_def)

lemma read_number_at:
  assumes "reader_at r (bits_for k v @ rest)" "v < 2 ^ k" "k \<le> 24"
  obtains w where "br_read k r = Some (w, advance k r)" "unat w = v" "reader_at (advance k r) rest"
  using read_at [OF assms(1) _ assms(3)] word_bits_for [OF assms(2)] assms(3) by simp

lemma decode_at:
  assumes "huffman_build L new_huffman = Some h" "length L < 65536" "has_code L s"
    and "reader_at r (code_word L s @ rest)"
  shows "huffman_decode h r = Some (of_nat s, advance (length (code_word L s)) r)"
    "reader_at (advance (length (code_word L s)) r) rest"
proof -
  have ok: "br_ok r" and a: "ahead r = code_word L s @ rest" using assms(4) by (simp_all add: reader_at_def)
  have "s < length L" "L ! s \<noteq> 0" using assms(3) by (simp_all add: has_code_def)
  note w = huffman_decode_word [OF assms(1,2) this ok a]
  then show "huffman_decode h r = Some (of_nat s, advance (length (code_word L s)) r)" by (simp add: advance_def)
  have "br_ok (advance (length (code_word L s)) r)"
    using arg_cong [OF a, of length] ok by (simp add: ahead_def br_ok_def advance_def)
  then show "reader_at (advance (length (code_word L s)) r) rest" using w by (simp add: reader_at_def advance_def)
qed

lemma length_expand_tokens: "length out \<le> length (expand_tokens out ts)"
proof (induction out ts rule: expand_tokens.induct)
  case (2 out b ts)
  then show ?case by simp
next
  case (3 out n d ts)
  then show ?case by simp
qed simp

lemma symbol_word:
  "k \<le> 65535 \<Longrightarrow> unat (of_nat k :: u16) = k"
  by (simp add: unat_of_nat)

lemma read_match_at:
  assumes "huffman_build D new_huffman = Some distances" "length D < 65536"
    and "3 \<le> n" "n \<le> 258" "1 \<le> d" "d \<le> 32768" "has_code D (index_for distance_base d)"
    and "i = index_for length_base n" "j = index_for distance_base d"
    and "bs = bits_for (length_extra ! i) (n - length_base ! i) @ code_word D j @
            bits_for (distance_extra ! j) (d - distance_base ! j)"
    and "reader_at r (bs @ rest)"
  shows "read_match distances (of_nat (257 + i)) r = Some (n, d, advance (length bs) r)"
    "reader_at (advance (length bs) r) rest"
proof -
  note ls = length_symbol [OF assms(3,4), folded assms(8)] and ds = distance_symbol [OF assms(5,6), folded assms(9)]
  have i: "unat (of_nat (257 + i) - 257 :: u16) = i" using ls(1) by (simp add: unat_of_nat)
  have b: "reader_at r (bits_for (length_extra ! i) (n - length_base ! i) @
      code_word D j @ bits_for (distance_extra ! j) (d - distance_base ! j) @ rest)"
    using assms(10,11) by simp
  obtain v where v: "br_read (length_extra ! i) r = Some (v, advance (length_extra ! i) r)" "unat v = n - length_base ! i"
      "reader_at (advance (length_extra ! i) r) (code_word D j @ bits_for (distance_extra ! j) (d - distance_base ! j) @ rest)"
    by (rule read_number_at [OF b]) (use ls in simp_all)
  note dec = decode_at [OF assms(1,2,7) v(3) [unfolded assms(9)], folded assms(9)]
  let ?r2 = "advance (length (code_word D j)) (advance (length_extra ! i) r)"
  obtain w where w: "br_read (distance_extra ! j) ?r2 = Some (w, advance (distance_extra ! j) ?r2)"
      "unat w = d - distance_base ! j" "reader_at (advance (distance_extra ! j) ?r2) rest"
    by (rule read_number_at [OF dec(2)]) (use ds in simp_all)
  have j: "unat (of_nat j :: u16) = j" using ds(1) by (simp add: unat_of_nat)
  have "\<not> length distance_base \<le> j" using ds(1) distance_tables(2) by simp
  then show "read_match distances (of_nat (257 + i)) r = Some (n, d, advance (length bs) r)"
    using v(1,2) dec(1) w(1,2) ls(2) ds(2) assms(10)
    by (simp add: read_match_def i j Let_def del: of_nat_add)
  show "reader_at (advance (length bs) r) rest" using w(3) assms(10) by (simp add: ac_simps)
qed

lemma inflate_symbols_at:
  assumes "huffman_build L new_huffman = Some literals" "length L < 65536"
    and "huffman_build D new_huffman = Some distances" "length D < 65536"
  shows "valid_tokens L D (length out) ts \<Longrightarrow> length (expand_tokens out ts) \<le> expected \<Longrightarrow>
    reader_at r (tokens_bits L D ts @ rest) \<Longrightarrow>
    inflate_symbols literals distances expected out r = Some (expand_tokens out ts, advance (length (tokens_bits L D ts)) r) \<and>
    reader_at (advance (length (tokens_bits L D ts)) r) rest"
proof (induction ts arbitrary: out r)
  case Nil
  have a: "reader_at r (code_word L 256 @ rest)" "has_code L 256" using Nil by (simp_all add: tokens_bits_def)
  have "(of_nat 256 :: u16) = 256" by simp
  then show ?case using decode_at [OF assms(1,2) a(2,1)]
    by (subst inflate_symbols.simps) (simp add: tokens_bits_def)
next
  case (Cons t ts)
  let ?tail = "tokens_bits L D ts"
  show ?case
  proof (cases t)
    case (Literal b)
    have a: "reader_at r (code_word L (unat b) @ ?tail @ rest)" "has_code L (unat b)"
      using Cons.prems Literal by (simp_all add: tokens_bits_def)
    note dec = decode_at [OF assms(1,2) a(2,1)]
    have ub: "unat b < 256" using unsigned_less [of b, where 'a = nat] by simp
    have small: "(of_nat (unat b) :: u16) < 256" using ub by (simp only: word_less_nat_alt unat_of_nat) simp
    have "ucast (of_nat (unat b) :: u16) = b"
      by (rule bit_word_eqI) (auto simp: bit_ucast_iff dest: bit_imp_le_length)
    moreover have "length out < expected" using Cons.prems(2) Literal length_expand_tokens [of "out @ [b]" ts] by simp
    ultimately have step: "inflate_symbols literals distances expected out r =
        inflate_symbols literals distances expected (out @ [b]) (advance (length (code_word L (unat b))) r)"
      using dec(1) small by (subst inflate_symbols.simps) (simp del: length_code_word)
    have len: "length (tokens_bits L D (Literal b # ts)) = length (code_word L (unat b)) + length ?tail"
      by (simp add: tokens_bits_def del: length_code_word)
    show ?thesis
      unfolding step using Cons.IH [of "out @ [b]", OF _ _ dec(2)] Cons.prems Literal
      by (simp add: len del: length_code_word)
  next
    case (Match n d)
    define i where "i = index_for length_base n"
    define j where "j = index_for distance_base d"
    define bs where "bs = bits_for (length_extra ! i) (n - length_base ! i) @ code_word D j @
        bits_for (distance_extra ! j) (d - distance_base ! j)"
    have valid: "3 \<le> n" "n \<le> 258" "1 \<le> d" "d \<le> 32768" "d \<le> length out" "has_code L (257 + i)" "has_code D j"
        "valid_tokens L D (length out + n) ts"
      using Cons.prems(1) Match by (simp_all add: i_def j_def)
    have bits: "tokens_bits L D (t # ts) = code_word L (257 + i) @ bs @ ?tail"
      using Match by (simp add: tokens_bits_def Let_def i_def j_def bs_def)
    have a: "reader_at r (code_word L (257 + i) @ bs @ ?tail @ rest)" using Cons.prems(3) bits by simp
    note dec = decode_at [OF assms(1,2) valid(6) a]
    note m = read_match_at [OF assms(3,4) valid(1-4) valid(7) [unfolded j_def] i_def j_def bs_def dec(2)]
    have i: "i < 29" using length_symbol(1) [OF valid(1,2)] by (simp add: i_def)
    then have big: "unat (of_nat (257 + i) :: u16) = 257 + i" by (intro symbol_word) simp
    then have sym: "\<not> (of_nat (257 + i) :: u16) < 256" "(of_nat (257 + i) :: u16) \<noteq> 256"
        "\<not> (of_nat (257 + i) < (257 :: u16) \<or> (285 :: u16) < of_nat (257 + i))"
      using i by (auto simp only: word_less_nat_alt word_unat_eq_iff big unat_numeral) simp_all
    have ex: "expand_tokens out (t # ts) = expand_tokens (copy_back n d out) ts"
      using Match valid expand_match [of d out n ts] by simp
    have "length out + n \<le> expected"
      using Cons.prems(2) ex length_expand_tokens [of "copy_back n d out" ts] by simp
    then have "\<not> (d = 0 \<or> d > length out \<or> length out + n > expected)" using valid by simp
    then have step: "inflate_symbols literals distances expected out r =
        inflate_symbols literals distances expected (copy_back n d out) (advance (length bs) (advance (length (code_word L (257 + i))) r))"
      using sym by (subst inflate_symbols.simps) (simp only: dec(1) m(1) option.case prod.case if_False)
    show ?thesis
      unfolding step ex bits using Cons.IH [of "copy_back n d out", OF _ _ m(2)] Cons.prems(2) valid(8) ex
      by (simp add: ac_simps del: length_code_word)
  qed
qed

lemma read_stored_at:
  "reader_at r (bits_of bs @ rest) \<Longrightarrow>
   read_stored (length bs) out r = Some (out @ bs, advance (length bs * 8) r) \<and> reader_at (advance (length bs * 8) r) rest"
proof (induction bs arbitrary: out r)
  case (Cons b bs)
  have c: "bits_of (b # bs) = map (bit b) [0..<8] @ bits_of bs" by (simp add: bits_of_def del: upt_Suc)
  have a: "reader_at r (map (bit b) [0..<8] @ bits_of bs @ rest)" using Cons.prems c by simp
  note rd = read_at [OF a, of 8, simplified]
  have "ucast (word_of_bits (map (bit b) [0..<8]) :: u32) = b"
    by (rule bit_word_eqI) (simp add: bit_ucast_iff bit_word_of_bits)
  then show ?case using Cons.IH [OF rd(2), of "out @ [b]"] rd(1) by (simp add: ac_simps)
qed (simp add: bits_of_def)

section \<open>Codes that can be built\<close>

definition proper_code :: "u8 list \<Rightarrow> bool" where
  "proper_code L \<longleftrightarrow> within_kraft L \<and> list_ex (\<lambda>x. x \<noteq> 0) L \<and> length L < 65536"

lemma assign_codes_nonempty: "list_ex (\<lambda>x. x \<noteq> 0) L \<Longrightarrow> assign_codes s L following \<noteq> []"
  by (induction L arbitrary: s following) auto

lemma proper_code_builds: "proper_code L \<Longrightarrow> \<exists>h. huffman_build L new_huffman = Some h"
proof -
  assume p: "proper_code L"
  have "\<not> list_ex (\<lambda>x. 15 < x) L"
    using p by (auto simp: proper_code_def within_kraft_def list_ex_iff list_all_iff word_less_nat_alt)
  then obtain counts where c: "count_lengths L (replicate 16 0) = Some counts"
    using count_lengths_exact [of "replicate 16 0" L] by (simp only: length_replicate if_False)
  have t: "tl counts = map (\<lambda>l. of_nat (cnt L l)) [Suc 0..<Suc 0 + 15]"
    unfolding count_lengths_zero(1) [OF c] by (simp add: upt_conv_Cons [of 0 16] del: upt_Suc upt_rec_numeral)
  have "\<forall>l \<in> {Suc 0..<Suc 0 + 15}. start_of L l + cnt L l \<le> 2 ^ l"
    using p by (auto simp: proper_code_def within_kraft_def list_all_iff cnt_def)
  then have "space_left (2 ^ 0 - int (start_of L 0) - int (cnt L 0)) (map (\<lambda>l. of_nat (cnt L l)) [Suc 0..<Suc 0 + 15])"
    using p by (subst space_left_kraft) (simp_all only: proper_code_def)
  then have "space_left 1 (tl counts)" unfolding t by (simp add: start_of_def cnt_def del: upt_Suc upt_rec_numeral)
  moreover have "assign_codes 0 L (0 # first_codes 0 (butlast counts)) \<noteq> []"
    using p assign_codes_nonempty by (simp add: proper_code_def)
  ultimately show ?thesis using c by (simp add: huffman_build_def Let_def)
qed

lemma count_of_append: "count_of (xs @ ys) l = count_of xs l + count_of ys l"
  by (simp add: count_of_def)

lemma count_of_replicate: "count_of (replicate n x) l = (if unat x = l then n else 0)"
  by (simp add: count_of_def)

lemma fixed_counts:
  "count_of fixed_literal_lengths l = (if l = 7 then 24 else if l = 8 then 152 else if l = 9 then 112 else 0)"
  "count_of fixed_distance_lengths l = (if l = 5 then 32 else 0)"
  by (simp_all add: fixed_literal_lengths_def fixed_distance_lengths_def count_of_append count_of_replicate)

lemma start_of_numeral:
  "start_of L 0 = 0" "start_of L (Suc 0) = 0"
  "1 \<le> l \<Longrightarrow> start_of L (Suc l) = 2 * start_of L l + 2 * count_of L l"
  by (simp_all add: start_of_Suc) (simp add: start_of_def)

lemma fixed_starts:
  "start_of fixed_literal_lengths l = (if l \<le> 7 then 0 else if l = 8 then 48 else if l = 9 then 400 else 1024 * 2 ^ (l - 10))"
  "start_of fixed_distance_lengths l = (if l \<le> 5 then 0 else 64 * 2 ^ (l - 6))"
proof -
  show "start_of fixed_literal_lengths l = (if l \<le> 7 then 0 else if l = 8 then 48 else if l = 9 then 400 else 1024 * 2 ^ (l - 10))"
  proof (induction l)
    case (Suc l)
    have "9 < l \<Longrightarrow> Suc l - 10 = Suc (l - 10)" by simp
    then show ?case using Suc by (cases "l = 0") (auto simp: start_of_Suc fixed_counts)
  qed (simp add: start_of_def)
  show "start_of fixed_distance_lengths l = (if l \<le> 5 then 0 else 64 * 2 ^ (l - 6))"
  proof (induction l)
    case (Suc l)
    have "5 < l \<Longrightarrow> Suc l - 6 = Suc (l - 6)" by simp
    then show ?case using Suc by (cases "l = 0") (auto simp: start_of_Suc fixed_counts)
  qed (simp add: start_of_def)
qed

lemma fixed_proper: "proper_code fixed_literal_lengths" "proper_code fixed_distance_lengths"
proof -
  have a: "1024 * 2 ^ (l - 10) = (2 ^ l :: nat)" if "10 \<le> l" for l
    using power_add [of "2 :: nat" 10 "l - 10"] that by simp
  have b: "64 * 2 ^ (l - 6) = (2 ^ l :: nat)" if "6 \<le> l" for l
    using power_add [of "2 :: nat" 6 "l - 6"] that by simp
  have "start_of fixed_literal_lengths l + count_of fixed_literal_lengths l \<le> 2 ^ l" if "1 \<le> l" for l
    using a [of l] by (auto simp: fixed_starts fixed_counts)
  moreover have "start_of fixed_distance_lengths l + count_of fixed_distance_lengths l \<le> 2 ^ l" if "1 \<le> l" for l
    using b [of l] by (auto simp: fixed_starts fixed_counts)
  moreover have "list_all (\<lambda>x. unat x \<le> 15) fixed_literal_lengths" "list_all (\<lambda>x. unat x \<le> 15) fixed_distance_lengths"
    by (simp_all add: fixed_literal_lengths_def fixed_distance_lengths_def list_all_iff)
  ultimately show "proper_code fixed_literal_lengths" "proper_code fixed_distance_lengths"
    by (auto simp: proper_code_def within_kraft_def list_all_iff list_ex_iff fixed_literal_lengths_def
        fixed_distance_lengths_def simp del: upt_rec_numeral upt_Suc)
qed

section \<open>Sending code lengths\<close>

fun expand_ops :: "u8 list \<Rightarrow> length_op list \<Rightarrow> u8 list" where
  "expand_ops lengths [] = lengths"
| "expand_ops lengths (Len l # ops) = expand_ops (lengths @ [l]) ops"
| "expand_ops lengths (Again k # ops) = expand_ops (lengths @ replicate k (last lengths)) ops"
| "expand_ops lengths (Zeros k # ops) = expand_ops (lengths @ replicate k 0) ops"

fun op_bits :: "u8 list \<Rightarrow> length_op \<Rightarrow> bool list" where
  "op_bits C (Len l) = code_word C (unat l)"
| "op_bits C (Again k) = code_word C 16 @ bits_for 2 (k - 3)"
| "op_bits C (Zeros k) = (if k \<le> 10 then code_word C 17 @ bits_for 3 (k - 3) else code_word C 18 @ bits_for 7 (k - 11))"

fun valid_ops :: "u8 list \<Rightarrow> u8 list \<Rightarrow> length_op list \<Rightarrow> bool" where
  "valid_ops C lengths [] \<longleftrightarrow> True"
| "valid_ops C lengths (Len l # ops) \<longleftrightarrow> l \<le> 15 \<and> has_code C (unat l) \<and> valid_ops C (lengths @ [l]) ops"
| "valid_ops C lengths (Again k # ops) \<longleftrightarrow>
     3 \<le> k \<and> k \<le> 6 \<and> lengths \<noteq> [] \<and> has_code C 16 \<and> valid_ops C (lengths @ replicate k (last lengths)) ops"
| "valid_ops C lengths (Zeros k # ops) \<longleftrightarrow>
     3 \<le> k \<and> k \<le> 138 \<and> has_code C (if k \<le> 10 then 17 else 18) \<and> valid_ops C (lengths @ replicate k 0) ops"

definition header_bits :: "nat \<Rightarrow> u8 list \<Rightarrow> length_op list \<Rightarrow> nat \<Rightarrow> bool list" where
  "header_bits hclen C ops nlit =
     bits_for 5 (nlit - 257) @ bits_for 5 (length (expand_ops [] ops) - nlit - 1) @ bits_for 4 (hclen - 4) @
     concat (map (\<lambda>i. bits_for 3 (unat (C ! i))) (take hclen code_length_order)) @ concat (map (op_bits C) ops)"

text \<open>
  A header that sends a list of code lengths, and one whose two codes both have symbols. The
  standard also knows a block of literals alone, which sends a distance code without a
  symbol; the code refuses it, so it is left out of \<open>valid_header\<close>.
\<close>

definition sent_header :: "nat \<Rightarrow> u8 list \<Rightarrow> length_op list \<Rightarrow> nat \<Rightarrow> bool" where
  "sent_header hclen C ops nlit \<longleftrightarrow>
     4 \<le> hclen \<and> hclen \<le> 19 \<and> length C = 19 \<and> list_all (\<lambda>x. x < 8) C \<and>
     list_all (\<lambda>i. C ! i = 0) (drop hclen code_length_order) \<and> proper_code C \<and> valid_ops C [] ops \<and>
     257 \<le> nlit \<and> nlit \<le> 288 \<and> nlit < length (expand_ops [] ops) \<and> length (expand_ops [] ops) \<le> nlit + 32"

definition valid_header :: "nat \<Rightarrow> u8 list \<Rightarrow> length_op list \<Rightarrow> nat \<Rightarrow> bool" where
  "valid_header hclen C ops nlit \<longleftrightarrow> sent_header hclen C ops nlit \<and>
     proper_code (take nlit (expand_ops [] ops)) \<and> proper_code (drop nlit (expand_ops [] ops))"

lemma length_expand_ops: "length lengths \<le> length (expand_ops lengths ops)"
  by (induction lengths ops rule: expand_ops.induct) simp_all

lemma read_code_lengths_at:
  "distinct order \<Longrightarrow> list_all (\<lambda>i. i < length cs \<and> C ! i < 8) order \<Longrightarrow>
   reader_at r (concat (map (\<lambda>i. bits_for 3 (unat (C ! i))) order) @ rest) \<Longrightarrow>
   read_code_lengths order cs r = Some (fold (\<lambda>i cs. cs[i := C ! i]) order cs, advance (length order * 3) r) \<and>
   reader_at (advance (length order * 3) r) rest"
proof (induction order arbitrary: cs r)
  case (Cons i order)
  have a: "reader_at r (bits_for 3 (unat (C ! i)) @ concat (map (\<lambda>i. bits_for 3 (unat (C ! i))) order) @ rest)"
    using Cons.prems(3) by simp
  obtain w where w: "br_read 3 r = Some (w, advance 3 r)" "unat w = unat (C ! i)"
      "reader_at (advance 3 r) (concat (map (\<lambda>i. bits_for 3 (unat (C ! i))) order) @ rest)"
    by (rule read_number_at [OF a]) (use Cons.prems(2) in \<open>simp_all add: word_less_nat_alt\<close>)
  have "unat (ucast w :: u8) = unat w"
    using w(2) unsigned_less [of "C ! i", where 'a = nat] by (simp add: unsigned_ucast_eq take_bit_nat_eq_self)
  then have "ucast w = C ! i" using w(2) by (simp only: word_unat_eq_iff)
  then show ?case using Cons.IH [OF _ _ w(3), of "cs[i := C ! i]"] Cons.prems w(1) by (simp add: ac_simps)
qed simp

lemma fold_updates: "length (fold (\<lambda>i cs. cs[i := C ! i]) order cs) = length cs"
  "j < length cs \<Longrightarrow> fold (\<lambda>i cs. cs[i := C ! i]) order cs ! j = (if j \<in> set order then C ! j else cs ! j)"
  by (induction order arbitrary: cs) (auto simp: nth_list_update)

lemma read_lengths_at:
  assumes "huffman_build C new_huffman = Some h" "length C < 65536"
  shows "valid_ops C lengths ops \<Longrightarrow> target = length (expand_ops lengths ops) \<Longrightarrow>
    reader_at r (concat (map (op_bits C) ops) @ rest) \<Longrightarrow>
    read_lengths h target lengths r = Some (expand_ops lengths ops, advance (length (concat (map (op_bits C) ops))) r) \<and>
    reader_at (advance (length (concat (map (op_bits C) ops))) r) rest"
proof (induction ops arbitrary: lengths r)
  case Nil
  then show ?case by (subst read_lengths.simps) simp
next
  case (Cons p ops)
  let ?tail = "concat (map (op_bits C) ops)"
  show ?case
  proof (cases p)
    case (Len l)
    have more: "\<not> target \<le> length lengths"
      using Cons.prems(2) Len length_expand_ops [of "lengths @ [l]" ops] by simp
    have a: "reader_at r (code_word C (unat l) @ ?tail @ rest)" "has_code C (unat l)" "l \<le> 15"
      using Cons.prems Len by simp_all
    note dec = decode_at [OF assms a(2,1)]
    have l: "unat l \<le> 15" using a(3) by (simp add: word_le_nat_alt)
    then have "(of_nat (unat l) :: u16) \<le> 15" by (simp only: word_le_nat_alt unat_of_nat) simp
    moreover have "ucast (of_nat (unat l) :: u16) = l"
      by (rule bit_word_eqI) (auto simp: bit_ucast_iff dest: bit_imp_le_length)
    ultimately have "read_lengths h target lengths r = read_lengths h target (lengths @ [l]) (advance (length (code_word C (unat l))) r)"
      using dec(1) more by (subst read_lengths.simps) (simp del: length_code_word)
    then show ?thesis using Cons.IH [OF _ _ dec(2), of "lengths @ [l]"] Cons.prems Len
      by (simp del: length_code_word)
  next
    case (Again k)
    have more: "\<not> target \<le> length lengths" "length lengths + k \<le> target"
      using Cons.prems(1,2) Again length_expand_ops [of "lengths @ replicate k (last lengths)" ops] by simp_all
    have a: "reader_at r (code_word C 16 @ bits_for 2 (k - 3) @ ?tail @ rest)" "has_code C 16" "3 \<le> k" "k \<le> 6" "lengths \<noteq> []"
      using Cons.prems Again by simp_all
    note dec = decode_at [OF assms a(2,1)]
    let ?r1 = "advance (length (code_word C 16)) r"
    obtain w where w: "br_read 2 ?r1 = Some (w, advance 2 ?r1)" "unat w = k - 3" "reader_at (advance 2 ?r1) (?tail @ rest)"
      by (rule read_number_at [OF dec(2)]) (use a in simp_all)
    have "repeat_rule (of_nat 16) lengths = Some (2, 3, last lengths)" "\<not> (of_nat 16 :: u16) \<le> 15"
      using a(5) by (simp_all add: repeat_rule_def)
    then have "read_lengths h target lengths r = read_lengths h target (lengths @ replicate k (last lengths)) (advance 2 ?r1)"
      using dec(1) w(1,2) more a(3)
      by (subst read_lengths.simps) (simp only: option.case prod.case if_False, simp)
    then show ?thesis using Cons.IH [OF _ _ w(3), of "lengths @ replicate k (last lengths)"] Cons.prems Again
      by (simp add: ac_simps del: length_code_word)
  next
    case (Zeros k)
    define s where "s = (if k \<le> 10 then 17 else 18 :: nat)"
    define n where "n = (if k \<le> 10 then 3 else 7 :: nat)"
    define m where "m = (if k \<le> 10 then 3 else 11 :: nat)"
    have more: "\<not> target \<le> length lengths" "length lengths + k \<le> target"
      using Cons.prems(1,2) Zeros length_expand_ops [of "lengths @ replicate k 0" ops] by simp_all
    have bits: "op_bits C p = code_word C s @ bits_for n (k - m)" using Zeros by (simp add: s_def n_def m_def)
    have a: "reader_at r (code_word C s @ bits_for n (k - m) @ ?tail @ rest)" "has_code C s" "m \<le> k" "k - m < 2 ^ n" "n \<le> 24"
      using Cons.prems Zeros bits by (auto simp: s_def m_def n_def split: if_splits)
    note dec = decode_at [OF assms a(2,1)]
    let ?r1 = "advance (length (code_word C s)) r"
    obtain w where w: "br_read n ?r1 = Some (w, advance n ?r1)" "unat w = k - m" "reader_at (advance n ?r1) (?tail @ rest)"
      by (rule read_number_at [OF dec(2)]) (use a in simp_all)
    have rule: "repeat_rule (of_nat s) lengths = Some (n, m, 0)" "\<not> (of_nat s :: u16) \<le> 15"
      by (simp_all add: repeat_rule_def s_def n_def m_def)
    have "read_lengths h target lengths r = read_lengths h target (lengths @ replicate k 0) (advance n ?r1)"
      using dec(1) w(1,2) more a(3)
      by (subst read_lengths.simps) (simp only: rule option.case prod.case if_False, simp)
    moreover have "valid_ops C (lengths @ replicate k 0) ops" "target = length (expand_ops (lengths @ replicate k 0) ops)"
      using Cons.prems Zeros by simp_all
    ultimately show ?thesis using Cons.IH [OF _ _ w(3), of "lengths @ replicate k 0"] bits Zeros
      by (simp add: ac_simps del: length_code_word op_bits.simps)
  qed
qed

lemma dynamic_header_at:
  assumes "sent_header hclen C ops nlit" "reader_at r (header_bits hclen C ops nlit @ rest)"
    and "L = take nlit (expand_ops [] ops)" "D = drop nlit (expand_ops [] ops)" "L ! 256 \<noteq> 0"
  shows "dynamic_tables r = do {
      literals \<leftarrow> huffman_build L new_huffman;
      distances \<leftarrow> huffman_build D new_huffman;
      Some (literals, distances, advance (length (header_bits hclen C ops nlit)) r) }"
    "reader_at (advance (length (header_bits hclen C ops nlit)) r) rest"
proof -
  define all where "all = expand_ops [] ops"
  let ?order = "take hclen code_length_order"
  let ?cbits = "concat (map (\<lambda>i. bits_for 3 (unat (C ! i))) ?order)"
  let ?obits = "concat (map (op_bits C) ops)"
  have v: "4 \<le> hclen" "hclen \<le> 19" "length C = 19" "257 \<le> nlit" "nlit \<le> 288" "nlit < length all" "length all \<le> nlit + 32"
      "valid_ops C [] ops" "proper_code C" "list_all (\<lambda>x. x < 8) C" "list_all (\<lambda>i. C ! i = 0) (drop hclen code_length_order)"
    using assms(1) by (simp_all add: sent_header_def all_def)
  have h: "header_bits hclen C ops nlit = bits_for 5 (nlit - 257) @ bits_for 5 (length all - nlit - 1) @ bits_for 4 (hclen - 4) @ ?cbits @ ?obits"
    by (simp add: header_bits_def all_def)
  obtain w1 where w1: "br_read 5 r = Some (w1, advance 5 r)" "unat w1 = nlit - 257"
      "reader_at (advance 5 r) (bits_for 5 (length all - nlit - 1) @ bits_for 4 (hclen - 4) @ ?cbits @ ?obits @ rest)"
    by (rule read_number_at [OF assms(2) [unfolded h append_assoc]]) (use v in simp_all)
  obtain w2 where w2: "br_read 5 (advance 5 r) = Some (w2, advance 5 (advance 5 r))" "unat w2 = length all - nlit - 1"
      "reader_at (advance 5 (advance 5 r)) (bits_for 4 (hclen - 4) @ ?cbits @ ?obits @ rest)"
    by (rule read_number_at [OF w1(3)]) (use v in simp_all)
  let ?r2 = "advance 5 (advance 5 r)"
  obtain w3 where w3: "br_read 4 ?r2 = Some (w3, advance 4 ?r2)" "unat w3 = hclen - 4"
      "reader_at (advance 4 ?r2) (?cbits @ ?obits @ rest)"
    by (rule read_number_at [OF w2(3)]) (use v in simp_all)
  have order: "distinct code_length_order" "set code_length_order = {..<19}" "length code_length_order = 19"
    by (simp_all add: code_length_order_def lessThan_nat_numeral lessThan_Suc) blast
  have inrange: "list_all (\<lambda>i. i < length (replicate 19 (0 :: u8)) \<and> C ! i < 8) ?order"
    using order(2) v(3,10) set_take_subset [of hclen code_length_order] by (auto simp: list_all_iff)
  have cl: "read_code_lengths ?order (replicate 19 0) (advance 4 ?r2) =
        Some (fold (\<lambda>i cs. cs[i := C ! i]) ?order (replicate 19 0), advance (length ?order * 3) (advance 4 ?r2))"
      "reader_at (advance (length ?order * 3) (advance 4 ?r2)) (?obits @ rest)"
    using read_code_lengths_at [OF distinct_take [OF order(1)] inrange w3(3)] by simp_all
  have "fold (\<lambda>i cs. cs[i := C ! i]) ?order (replicate 19 0) = C"
  proof (rule nth_equalityI)
    fix j assume "j < length (fold (\<lambda>i cs. cs[i := C ! i]) ?order (replicate 19 (0 :: u8)))"
    then have j: "j < 19" by (simp add: fold_updates)
    have "j \<in> set ?order \<or> j \<in> set (drop hclen code_length_order)"
      using j order(2) by (metis Un_iff append_take_drop_id lessThan_iff set_append)
    then have "j \<in> set ?order \<or> C ! j = 0" using v(11) by (auto simp: list_all_iff)
    then show "fold (\<lambda>i cs. cs[i := C ! i]) ?order (replicate 19 0) ! j = C ! j"
      using j by (auto simp: fold_updates)
  qed (simp add: fold_updates v)
  note cl = cl(1) [unfolded this] cl(2)
  let ?r4 = "advance (length ?order * 3) (advance 4 ?r2)"
  obtain table where t: "huffman_build C new_huffman = Some table" using proper_code_builds [OF v(9)] by blast
  have len: "length C < 65536" using v by simp
  have ops: "read_lengths table (length all) [] ?r4 = Some (all, advance (length ?obits) ?r4)"
      "reader_at (advance (length ?obits) ?r4) rest"
    using read_lengths_at [OF t len v(8) _ cl(2)] by (simp_all add: all_def)
  have n1: "nlit - 257 + 257 = nlit" and n2: "length all - nlit - 1 + 1 = length all - nlit" and n3: "hclen - 4 + 4 = hclen"
    and n4: "nlit + (length all - nlit) = length all" using v by simp_all
  have n256: "all ! 256 \<noteq> 0" using assms(3,5) v by (simp add: all_def)
  have D: "take (length all - nlit) (drop nlit all) = D" using assms(4) by (simp add: all_def)
  have L: "take nlit all = L" using assms(3) by (simp add: all_def)
  have e: "advance (length ?obits) ?r4 = advance (length (header_bits hclen C ops nlit)) r"
  proof -
    have "length ?cbits = length ?order * 3" by (induction ?order) (simp_all add: length_concat sum_list_triv o_def)
    then show ?thesis by (simp add: h del: length_concat)
  qed
  show "dynamic_tables r = do {
      literals \<leftarrow> huffman_build L new_huffman;
      distances \<leftarrow> huffman_build D new_huffman;
      Some (literals, distances, advance (length (header_bits hclen C ops nlit)) r) }"
    unfolding dynamic_tables_def w1(1) w2(1) w3(1) Option.bind.bind_lunit prod.case Let_def w1(2) w2(2) w3(2) n1 n2 n3 n4
      cl(1) t ops(1) L D e using n256 by simp
  show "reader_at (advance (length (header_bits hclen C ops nlit)) r) rest" using ops(2) e by simp
qed

lemma dynamic_tables_at:
  assumes "valid_header hclen C ops nlit" "reader_at r (header_bits hclen C ops nlit @ rest)"
    and "L = take nlit (expand_ops [] ops)" "D = drop nlit (expand_ops [] ops)" "L ! 256 \<noteq> 0"
    and "huffman_build L new_huffman = Some literals" "huffman_build D new_huffman = Some distances"
  shows "dynamic_tables r = Some (literals, distances, advance (length (header_bits hclen C ops nlit)) r)"
    "reader_at (advance (length (header_bits hclen C ops nlit)) r) rest"
proof -
  have "sent_header hclen C ops nlit" using assms(1) by (simp add: valid_header_def)
  note h = dynamic_header_at [OF this assms(2-5)]
  show "dynamic_tables r = Some (literals, distances, advance (length (header_bits hclen C ops nlit)) r)"
    unfolding h(1) by (simp add: assms(6,7))
  show "reader_at (advance (length (header_bits hclen C ops nlit)) r) rest" by (rule h(2))
qed

text \<open>
  Section 3.2.7 of RFC 1951: "One distance code of zero bits means that there are no distance
  codes used at all (the data is all literals)." Such a header is refused, whatever follows.
\<close>

lemma no_symbol_no_table: "list_all (\<lambda>x. x = 0) D \<Longrightarrow> huffman_build D h = None"
proof -
  assume "list_all (\<lambda>x. x = 0) D"
  then have "assign_codes s D following = []" for s following
    by (induction D arbitrary: s) simp_all
  then show ?thesis by (simp add: huffman_build_def Let_def split: option.split)
qed

lemma literals_only_block_refused:
  assumes "sent_header hclen C ops nlit" "reader_at r (header_bits hclen C ops nlit @ rest)"
    and "expand_ops [] ops ! 256 \<noteq> 0" "list_all (\<lambda>x. x = 0) (drop nlit (expand_ops [] ops))"
  shows "dynamic_tables r = None"
proof -
  have "take nlit (expand_ops [] ops) ! 256 \<noteq> 0" using assms(1,3) by (simp add: sent_header_def)
  from dynamic_header_at(1) [OF assms(1,2) refl refl this] show ?thesis
    by (simp add: no_symbol_no_table [OF assms(4)] bind_eq_None_conv)
qed

section \<open>Whole streams\<close>

text \<open>
  The contents of a list of blocks, when a stream is well formed, and its bits. A stored block
  starts at a byte boundary, so that its padding depends on the position in the stream; the
  bits skipped there are part of the block.
\<close>

fun expand_blocks :: "bytes \<Rightarrow> deflate_block list \<Rightarrow> bytes" where
  "expand_blocks out [] = out"
| "expand_blocks out (Stored fill bs # blocks) = expand_blocks (out @ bs) blocks"
| "expand_blocks out (Fixed ts # blocks) = expand_blocks (expand_tokens out ts) blocks"
| "expand_blocks out (Dynamic _ _ _ _ ts # blocks) = expand_blocks (expand_tokens out ts) blocks"

fun valid_block :: "nat \<Rightarrow> deflate_block \<Rightarrow> bool" where
  "valid_block len (Stored fill bs) \<longleftrightarrow> length bs < 65536"
| "valid_block len (Fixed ts) \<longleftrightarrow> valid_tokens fixed_literal_lengths fixed_distance_lengths len ts"
| "valid_block len (Dynamic hclen C ops nlit ts) \<longleftrightarrow> valid_header hclen C ops nlit \<and>
     valid_tokens (take nlit (expand_ops [] ops)) (drop nlit (expand_ops [] ops)) len ts"

fun valid_blocks :: "bytes \<Rightarrow> deflate_block list \<Rightarrow> bool" where
  "valid_blocks out [] \<longleftrightarrow> True"
| "valid_blocks out (b # blocks) \<longleftrightarrow> valid_block (length out) b \<and> valid_blocks (expand_blocks out [b]) blocks"

definition padding :: "nat \<Rightarrow> nat" where
  "padding pos = (8 - pos mod 8) mod 8"

text \<open>The skipped bits up to a byte boundary may be any; zeros complete those that are given.\<close>

definition filled :: "nat \<Rightarrow> bool list \<Rightarrow> bool list" where
  "filled n fill = take n (fill @ replicate n False)"

lemma length_filled [simp]: "length (filled n fill) = n"
  by (simp add: filled_def)

fun block_bits :: "nat \<Rightarrow> deflate_block \<Rightarrow> bool list" where
  "block_bits pos (Stored fill bs) =
     bits_for 2 0 @ filled (padding (pos + 2)) fill @ bits_for 16 (length bs) @ map Not (bits_for 16 (length bs)) @ bits_of bs"
| "block_bits pos (Fixed ts) = bits_for 2 1 @ tokens_bits fixed_literal_lengths fixed_distance_lengths ts"
| "block_bits pos (Dynamic hclen C ops nlit ts) =
     bits_for 2 2 @ header_bits hclen C ops nlit @
     tokens_bits (take nlit (expand_ops [] ops)) (drop nlit (expand_ops [] ops)) ts"

fun stream_bits :: "nat \<Rightarrow> deflate_block list \<Rightarrow> bool list" where
  "stream_bits pos [] = []"
| "stream_bits pos (b # blocks) =
     (let w = (blocks = []) # block_bits (pos + 1) b in w @ stream_bits (pos + length w) blocks)"

lemma length_expand_blocks: "length out \<le> length (expand_blocks out blocks)"
proof (induction out blocks rule: expand_blocks.induct)
  case (3 out ts blocks)
  then show ?case using length_expand_tokens [of out ts] by simp
next
  case (4 out a b c d ts blocks)
  then show ?case using length_expand_tokens [of out ts] by simp
qed simp_all

lemma expand_blocks_Cons: "expand_blocks out (b # blocks) = expand_blocks (expand_blocks out [b]) blocks"
  by (cases b) simp_all

lemma align_at:
  assumes "reader_at r (filled (padding (br_bit r)) fill @ rest)"
  shows "br_align r = advance (padding (br_bit r)) r" "reader_at (br_align r) rest"
proof -
  have "(n + 7) div 8 * 8 = n + (8 - n mod 8) mod 8" for n :: nat
  proof -
    have "n = 8 * (n div 8) + n mod 8" by simp
    then obtain q m where "n = 8 * q + m" "m < 8" by (metis mod_less_divisor zero_less_numeral)
    moreover from this have "(n + 7) div 8 = (if m = 0 then q else q + 1)" by (intro div_nat_eqI) auto
    ultimately show ?thesis by (cases "m = 0") simp_all
  qed
  then show a: "br_align r = advance (padding (br_bit r)) r" by (simp add: br_align_def advance_def padding_def)
  have "padding (br_bit r) \<le> 24" using mod_less_divisor [of 8 "8 - br_bit r mod 8"] by (simp add: padding_def)
  then show "reader_at (br_align r) rest" unfolding a using read_at(2) [OF assms] by simp
qed

lemma inflate_stored_at:
  assumes "reader_at r (filled (padding (br_bit r)) fill @ bits_for 16 (length bs) @ map Not (bits_for 16 (length bs)) @ bits_of bs @ rest)"
    and "length bs < 65536" "length out + length bs \<le> expected"
  shows "inflate_stored expected out r = Some (out @ bs, advance (padding (br_bit r) + 32 + length bs * 8) r)"
    "reader_at (advance (padding (br_bit r) + 32 + length bs * 8) r) rest"
proof -
  note al = align_at [OF assms(1)]
  obtain v where v: "br_read 16 (br_align r) = Some (v, advance 16 (br_align r))" "unat v = length bs"
      "reader_at (advance 16 (br_align r)) (map Not (bits_for 16 (length bs)) @ bits_of bs @ rest)"
    by (rule read_number_at [OF al(2)]) (use assms(2) in simp_all)
  define w :: u32 where "w = word_of_bits (map Not (bits_for 16 (length bs)))"
  have w: "br_read 16 (advance 16 (br_align r)) = Some (w, advance 16 (advance 16 (br_align r)))"
      "reader_at (advance 16 (advance 16 (br_align r))) (bits_of bs @ rest)"
    using read_at [OF v(3)] by (simp_all add: w_def)
  have "ucast (ucast (v XOR 0xffff) :: u16) = w"
  proof (rule bit_word_eqI)
    fix i assume i: "i < LENGTH(32)"
    have m: "(0xffff :: u32) = mask 16" by (simp add: mask_eq_exp_minus_1)
    have "v = of_nat (length bs)" using v(2) by (metis of_nat_unat ucast_id)
    then have "bit v i \<longleftrightarrow> bit (length bs) i" using i by (simp add: bit_word_nat)
    then show "bit (ucast (ucast (v XOR 0xffff) :: u16) :: u32) i \<longleftrightarrow> bit w i"
      unfolding m using i by (cases "i < 16") (simp_all add: bit_ucast_iff bit_xor_iff bit_mask_iff w_def bit_word_of_bits bits_for_def)
  qed
  then have "inflate_stored expected out r = read_stored (length bs) out (advance 16 (advance 16 (br_align r)))"
    using v(1,2) w(1) assms(3) by (simp add: inflate_stored_def Let_def)
  then show "inflate_stored expected out r = Some (out @ bs, advance (padding (br_bit r) + 32 + length bs * 8) r)"
    "reader_at (advance (padding (br_bit r) + 32 + length bs * 8) r) rest"
    using read_stored_at [OF w(2), of out] by (simp_all add: al(1) ac_simps)
qed

lemma type_word: "unat w = k \<Longrightarrow> k < 2 ^ 32 \<Longrightarrow> w = (of_nat k :: u32)"
  by (metis of_nat_unat ucast_id)

lemma valid_tokens_end: "valid_tokens L D len ts \<Longrightarrow> has_code L 256"
  by (induction L D len ts rule: valid_tokens.induct) simp_all

lemma inflate_block_at:
  assumes "valid_block (length out) b" "length (expand_blocks out [b]) \<le> expected"
    and "reader_at r ((fin # block_bits (br_bit r + 1) b) @ rest)"
  shows "inflate_block expected out r =
      Some (fin, expand_blocks out [b], advance (1 + length (block_bits (br_bit r + 1) b)) r)"
    "reader_at (advance (1 + length (block_bits (br_bit r + 1) b)) r) rest"
proof -
  let ?r1 = "advance 1 r" and ?r3 = "advance 2 (advance 1 r)"
  have f: "br_read 1 r = Some (word_of_bits [fin], ?r1)" "reader_at ?r1 (block_bits (br_bit r + 1) b @ rest)"
    using read_at [of r "[fin]" "block_bits (br_bit r + 1) b @ rest" 1] assms(3) by simp_all
  have fin: "(word_of_bits [fin] :: u32) \<noteq> 0 \<longleftrightarrow> fin" by (simp add: word_of_bits_def)
  have "inflate_block expected out r =
        Some (fin, expand_blocks out [b], advance (length (block_bits (br_bit r + 1) b)) ?r1) \<and>
      reader_at (advance (length (block_bits (br_bit r + 1) b)) ?r1) rest"
  proof (cases b)
    case (Stored fill bs)
    let ?body = "filled (padding (br_bit ?r3)) fill @ bits_for 16 (length bs) @ map Not (bits_for 16 (length bs)) @ bits_of bs"
    have a: "reader_at ?r1 (bits_for 2 0 @ ?body @ rest)" using f(2) Stored by simp
    obtain w where w: "br_read 2 ?r1 = Some (w, ?r3)" "unat w = 0" "reader_at ?r3 (?body @ rest)"
      by (rule read_number_at [OF a]) simp_all
    then have w0: "w = 0" by (simp add: unat_eq_0)
    note st = inflate_stored_at [of ?r3 fill bs rest out expected]
    have "inflate_stored expected out ?r3 = Some (out @ bs, advance (padding (br_bit ?r3) + 32 + length bs * 8) ?r3)"
      "reader_at (advance (padding (br_bit ?r3) + 32 + length bs * 8) ?r3) rest"
      using st w(3) assms(1,2) Stored by simp_all
    then show ?thesis using f(1) w(1) w0 fin Stored
      by (simp add: inflate_block_def)
  next
    case (Fixed ts)
    let ?body = "tokens_bits fixed_literal_lengths fixed_distance_lengths ts"
    have a: "reader_at ?r1 (bits_for 2 1 @ ?body @ rest)" using f(2) Fixed by simp
    obtain w where w: "br_read 2 ?r1 = Some (w, ?r3)" "unat w = 1" "reader_at ?r3 (?body @ rest)"
      by (rule read_number_at [OF a]) simp_all
    then have w1: "w = 1" using type_word [of w 1] by simp
    obtain l d where t: "huffman_build fixed_literal_lengths new_huffman = Some l"
        "huffman_build fixed_distance_lengths new_huffman = Some d"
      using fixed_proper proper_code_builds by blast
    have len: "length fixed_literal_lengths < 65536" "length fixed_distance_lengths < 65536"
      using fixed_proper by (simp_all add: proper_code_def)
    have "inflate_symbols l d expected out ?r3 = Some (expand_tokens out ts, advance (length ?body) ?r3) \<and>
        reader_at (advance (length ?body) ?r3) rest"
      using inflate_symbols_at [OF t(1) len(1) t(2) len(2) _ _ w(3)] assms(1,2) Fixed by simp
    moreover have "block_tables 1 ?r3 = Some (l, d, ?r3)" by (simp add: block_tables_def fixed_tables_def t)
    ultimately show ?thesis using f(1) w(1) w1 fin Fixed
      by (simp add: inflate_block_def)
  next
    case (Dynamic hclen C ops nlit ts)
    define L where "L = take nlit (expand_ops [] ops)"
    define D where "D = drop nlit (expand_ops [] ops)"
    let ?head = "header_bits hclen C ops nlit" and ?body = "tokens_bits L D ts"
    have bits: "block_bits (br_bit r + 1) b = bits_for 2 2 @ ?head @ ?body" using Dynamic by (simp add: L_def D_def)
    have a: "reader_at ?r1 (bits_for 2 2 @ ?head @ ?body @ rest)" using f(2) bits by simp
    obtain w where w: "br_read 2 ?r1 = Some (w, ?r3)" "unat w = 2" "reader_at ?r3 (?head @ ?body @ rest)"
      by (rule read_number_at [OF a]) simp_all
    then have w2: "w = 2" using type_word [of w 2] by simp
    have v: "valid_header hclen C ops nlit" "valid_tokens L D (length out) ts"
      using assms(1) Dynamic by (simp_all add: L_def D_def)
    have proper: "proper_code L" "proper_code D" using v(1) by (simp_all add: valid_header_def L_def D_def)
    then have len: "length L < 65536" "length D < 65536" by (simp_all add: proper_code_def)
    obtain l d where t: "huffman_build L new_huffman = Some l" "huffman_build D new_huffman = Some d"
      using proper proper_code_builds by blast
    have "has_code L 256" using v(2) by (rule valid_tokens_end)
    then have "L ! 256 \<noteq> 0" by (simp add: has_code_def)
    note dt = dynamic_tables_at [OF v(1) w(3) L_def D_def this t]
    have "inflate_symbols l d expected out (advance (length ?head) ?r3) =
          Some (expand_tokens out ts, advance (length ?body) (advance (length ?head) ?r3)) \<and>
        reader_at (advance (length ?body) (advance (length ?head) ?r3)) rest"
      using inflate_symbols_at [OF t(1) len(1) t(2) len(2) v(2) _ dt(2)] assms(2) Dynamic by simp
    moreover have "block_tables 2 ?r3 = Some (l, d, advance (length ?head) ?r3)" using dt(1) by (simp add: block_tables_def)
    ultimately show ?thesis unfolding bits using f(1) w(1) w2 fin Dynamic
      by (simp add: inflate_block_def)
  qed
  then show "inflate_block expected out r =
      Some (fin, expand_blocks out [b], advance (1 + length (block_bits (br_bit r + 1) b)) r)"
    "reader_at (advance (1 + length (block_bits (br_bit r + 1) b)) r) rest" by simp_all
qed

lemma inflate_blocks_at:
  "blocks \<noteq> [] \<Longrightarrow> valid_blocks out blocks \<Longrightarrow> length (expand_blocks out blocks) \<le> expected \<Longrightarrow>
   reader_at r (stream_bits (br_bit r) blocks @ rest) \<Longrightarrow>
   inflate_blocks expected out r = Some (expand_blocks out blocks, advance (length (stream_bits (br_bit r) blocks)) r) \<and>
   reader_at (advance (length (stream_bits (br_bit r) blocks)) r) rest"
proof (induction blocks arbitrary: out r)
  case (Cons b blocks)
  let ?w = "block_bits (br_bit r + 1) b"
  let ?r1 = "advance (1 + length ?w) r"
  have bits: "stream_bits (br_bit r) (b # blocks) = ((blocks = []) # ?w) @ stream_bits (br_bit ?r1) blocks"
    by (simp add: Let_def)
  have a: "reader_at r (((blocks = []) # ?w) @ stream_bits (br_bit ?r1) blocks @ rest)" using Cons.prems(4) bits by simp
  have e: "expand_blocks out (b # blocks) = expand_blocks (expand_blocks out [b]) blocks" by (rule expand_blocks_Cons)
  have "length (expand_blocks out [b]) \<le> expected"
    using Cons.prems(3) length_expand_blocks [of "expand_blocks out [b]" blocks] by (simp only: e)
  note bl = inflate_block_at [OF _ this a]
  have v: "valid_block (length out) b" "valid_blocks (expand_blocks out [b]) blocks" using Cons.prems(2) by simp_all
  have step: "inflate_blocks expected out r =
      (if blocks = [] then Some (expand_blocks out [b], ?r1) else inflate_blocks expected (expand_blocks out [b]) ?r1)"
    using bl(1) [OF v(1)] by (subst inflate_blocks.simps) simp
  show ?case
  proof (cases "blocks = []")
    case True
    then show ?thesis using step bl(2) [OF v(1)] bits by simp
  next
    case False
    have "inflate_blocks expected (expand_blocks out [b]) ?r1 =
          Some (expand_blocks (expand_blocks out [b]) blocks, advance (length (stream_bits (br_bit ?r1) blocks)) ?r1) \<and>
        reader_at (advance (length (stream_bits (br_bit ?r1) blocks)) ?r1) rest"
      using Cons.prems(3) unfolding e by (intro Cons.IH [OF False v(2) _ bl(2) [OF v(1)]]) simp
    then show ?thesis unfolding bits e step using False by (simp add: ac_simps)
  qed
qed simp

text \<open>
  C25: the inflater decodes the format of RFC 1951, one kind of block excepted. Take any
  non-empty list of well-formed blocks - stored behind any bits up to the byte boundary, under the fixed
  codes, or under two codes sent with them, each with at least one symbol - whose bits in the order of the standard,
  with fewer than eight bits of padding at the end, make up the input: then \<open>inflate_raw\<close>
  with the right size returns exactly their contents. So none of these streams is lost to bit
  order, code assignment, run-length encoded lengths or overlapping matches. The exception is
  a block that sends codes, holds literals alone and says so by a distance code without a
  symbol, which the standard allows: the code refuses every such header.
\<close>

theorem inflate_decodes_format:
  assumes "blocks \<noteq> []" "valid_blocks [] blocks"
    and "bits_of input = stream_bits 0 blocks @ pad" "length pad < 8"
  shows "inflate_raw input (length (expand_blocks [] blocks)) = Some (expand_blocks [] blocks)"
proof -
  let ?r = "\<lparr>br_input = input, br_bit = 0\<rparr>" and ?n = "length (stream_bits 0 blocks)"
  have "reader_at ?r (stream_bits (br_bit ?r) blocks @ pad)"
    using assms(3) by (simp add: reader_at_def br_ok_def ahead_def)
  then have "inflate_blocks (length (expand_blocks [] blocks)) [] ?r = Some (expand_blocks [] blocks, advance ?n ?r)"
    using inflate_blocks_at [OF assms(1,2)] by simp
  moreover have "length input * 8 = ?n + length pad" using arg_cong [OF assms(3), of length] by simp
  then have "br_byte_offset (advance ?n ?r) = length input"
    using assms(4) by (simp add: br_byte_offset_def) 
  ultimately show ?thesis by (simp add: inflate_raw_def)
qed

definition sample_blocks :: "deflate_block list" where
  "sample_blocks = [Stored [True] [0x68, 0x69], Stored [] []]"

definition sample_stream :: bytes where
  "sample_stream = [0x08, 0x02, 0x00, 0xfd, 0xff, 0x68, 0x69, 0x01, 0x00, 0x00, 0xff, 0xff]"

lemma sample_stream_bits: "bits_of sample_stream = stream_bits 0 sample_blocks @ []"
proof -
  have u: "[0..<2] = [0, 1 :: nat]" "[0..<8] = [0, 1, 2, 3, 4, 5, 6, 7 :: nat]"
    "[0..<16] = [0, 1, 2, 3, 4, 5, 6, 7, 8, 9, 10, 11, 12, 13, 14, 15 :: nat]" by code_simp+
  have "filled 5 [True] = [True, False, False, False, False]" "filled 5 [] = [False, False, False, False, False]" by code_simp+
  then show ?thesis
    by (simp add: sample_stream_def sample_blocks_def bits_of_def bits_for_def padding_def Let_def u bit_0 flip: numeral_2_eq_2)
qed

theorem inflate_decodes_format_witness: "inflate_raw sample_stream 2 = Some [0x68, 0x69]"
  using inflate_decodes_format [OF _ _ sample_stream_bits] by (simp add: sample_blocks_def numeral_2_eq_2)

end
