(* ===== verification/AIS_FilePreflight.thy ===== *)
theory AIS_FilePreflight
  imports AIS_Evidence
begin

text \<open>
  The file preflight (\<open>src/file_preflight.cpp\<close>): what the first bytes of a file, its name and
  the text in it say about it. Names are lists of 16-bit units, as \<open>wchar_t\<close> is on the
  target. What the code calls and the model does not compute are the fields of one record of
  parameters: the decomposition of a path by \<open>std::filesystem\<close> (its file name and its
  extension), the entropy estimate, whose floating-point rounding is not modelled, and, for
  the archive inspection built on this preflight, whether the allocator runs out of memory. Shown is that a file with a known extension that
  is not flagged has the header of exactly that format.
\<close>

type_synonym wide = "u16 list"

definition wide_of :: "string \<Rightarrow> wide" where
  "wide_of s = map of_char s"

record preflight_env =
  env_extension :: "wide \<Rightarrow> wide" \<comment> \<open>\<open>std::filesystem::path(name).extension()\<close>\<close>
  env_filename :: "wide \<Rightarrow> wide" \<comment> \<open>\<open>std::filesystem::path(name).filename()\<close>\<close>
  env_entropy_milli :: "bytes \<Rightarrow> u32" \<comment> \<open>\<open>entropy_milli\<close>\<close>
  env_memory :: "bytes \<Rightarrow> bool" \<comment> \<open>the archive inspection of these bytes throws no exception\<close>

datatype file_format =
  FF_pe | FF_pdf | FF_zip | FF_wave | FF_png | FF_jpeg | FF_gif | FF_tiff | FF_webp | FF_mp4 | FF_ole | FF_rtf | FF_markup

fun format_bit :: "file_format \<Rightarrow> u32" where
  "format_bit FF_pe = 1"
| "format_bit FF_pdf = 2"
| "format_bit FF_zip = 4"
| "format_bit FF_wave = 8"
| "format_bit FF_png = 16"
| "format_bit FF_jpeg = 32"
| "format_bit FF_gif = 64"
| "format_bit FF_tiff = 128"
| "format_bit FF_webp = 256"
| "format_bit FF_mp4 = 512"
| "format_bit FF_ole = 1024"
| "format_bit FF_rtf = 2048"
| "format_bit FF_markup = 4096"

record file_summary =
  fs_formats :: u32
  fs_strong_header_count :: u32
  fs_external_reference_count :: u32
  fs_command_indicator_count :: u32
  fs_entropy_milli :: u32
  fs_extension_mismatch :: bool
  fs_polyglot :: bool
  fs_trailing_data :: bool
  fs_embedded_executable :: bool
  fs_active_content :: bool
  fs_automatic_action :: bool
  fs_unsafe_deserialization :: bool
  fs_suspicious_filename :: bool
  fs_resource_risk :: bool

definition no_file_summary :: file_summary where
  "no_file_summary = \<lparr>fs_formats = 0, fs_strong_header_count = 0, fs_external_reference_count = 0,
     fs_command_indicator_count = 0, fs_entropy_milli = 0, fs_extension_mismatch = False, fs_polyglot = False,
     fs_trailing_data = False, fs_embedded_executable = False, fs_active_content = False,
     fs_automatic_action = False, fs_unsafe_deserialization = False, fs_suspicious_filename = False,
     fs_resource_risk = False\<rparr>"

definition high_risk :: "file_summary \<Rightarrow> bool" where
  "high_risk s \<longleftrightarrow> fs_extension_mismatch s \<or> fs_polyglot s \<or> fs_trailing_data s \<or> fs_embedded_executable s \<or>
     fs_active_content s \<or> fs_automatic_action s \<or> fs_unsafe_deserialization s \<or> fs_suspicious_filename s \<or>
     fs_resource_risk s"

section \<open>Searching\<close>

definition starts_with :: "bytes \<Rightarrow> bytes \<Rightarrow> bool" where
  "starts_with data expected \<longleftrightarrow> length expected \<le> length data \<and> take (length expected) data = expected"

definition ascii_at :: "bytes \<Rightarrow> nat \<Rightarrow> string \<Rightarrow> bool" where
  "ascii_at data offset v \<longleftrightarrow> offset \<le> length data \<and> length v \<le> length data - offset \<and>
     take (length v) (drop offset data) = bytes_of v"

definition find_bytes :: "bytes \<Rightarrow> bytes \<Rightarrow> nat \<Rightarrow> nat option" where
  "find_bytes data v begin =
     (if v = [] \<or> begin > length data \<or> length v > length data - begin then None else find_from v data begin)"

definition rfind_sub :: "'a list \<Rightarrow> 'a list \<Rightarrow> nat option" where
  "rfind_sub needle hay =
     (let places = filter (\<lambda>i. prefix needle (drop i hay)) [0..<Suc (length hay)] in
      if places = [] then None else Some (last places))"

definition lower_wide :: "u16 \<Rightarrow> u16" where
  "lower_wide c = (if 0x41 \<le> c \<and> c \<le> 0x5a then c + 0x20 else c)"

definition lower_extension :: "preflight_env \<Rightarrow> wide \<Rightarrow> wide" where
  "lower_extension env filename = map lower_wide (env_extension env filename)"

definition is_one_of :: "wide \<Rightarrow> string list \<Rightarrow> bool" where
  "is_one_of v names \<longleftrightarrow> v \<in> set (map wide_of names)"

definition expected_formats :: "wide \<Rightarrow> u32" where
  "expected_formats extension =
     (if is_one_of extension [''.exe'', ''.dll'', ''.sys'', ''.scr'', ''.cpl'', ''.ocx'', ''.drv'', ''.efi''] then format_bit FF_pe
      else if is_one_of extension [''.pdf'', ''.fdf''] then format_bit FF_pdf
      else if is_one_of extension [''.zip'', ''.docx'', ''.docm'', ''.xlsx'', ''.xlsm'', ''.pptx'', ''.pptm'', ''.odt'',
          ''.ods'', ''.odp'', ''.epub'', ''.jar'', ''.apk'', ''.nupkg'', ''.vsix'', ''.crx'', ''.xpi'', ''.kmz'', ''.3mf'']
        then format_bit FF_zip
      else if is_one_of extension [''.wav''] then format_bit FF_wave
      else if is_one_of extension [''.png''] then format_bit FF_png
      else if is_one_of extension [''.jpg'', ''.jpeg'', ''.jpe''] then format_bit FF_jpeg
      else if is_one_of extension [''.gif''] then format_bit FF_gif
      else if is_one_of extension [''.tif'', ''.tiff''] then format_bit FF_tiff
      else if is_one_of extension [''.webp''] then format_bit FF_webp
      else if is_one_of extension [''.mp4'', ''.m4a'', ''.m4v'', ''.mov'', ''.heif'', ''.heic'', ''.avif''] then format_bit FF_mp4
      else if is_one_of extension [''.doc'', ''.dot'', ''.xls'', ''.xlt'', ''.ppt'', ''.pot'', ''.msi'', ''.msp'', ''.msg'']
        then format_bit FF_ole
      else if is_one_of extension [''.rtf''] then format_bit FF_rtf
      else if is_one_of extension [''.html'', ''.htm'', ''.svg'', ''.xml'', ''.xsl'', ''.xslt'', ''.xhtml''] then format_bit FF_markup
      else 0)"

definition searchable_byte :: "u8 \<Rightarrow> u8" where
  "searchable_byte b =
     (let v = (if 0x41 \<le> b \<and> b \<le> 0x5a then b + 0x20 else b) in
      if 0x20 \<le> v \<and> v \<le> 0x7e then v else 0x20)"

definition searchable_text :: "bytes \<Rightarrow> bytes" where
  "searchable_text data = map searchable_byte (take (8 * 1024 * 1024) data)"

definition count_tokens :: "bytes \<Rightarrow> string list \<Rightarrow> u32" where
  "count_tokens text tokens = foldl (\<lambda>count token. if contains text (bytes_of token) then count + 1 else count) 0 tokens"

definition popcount :: "u32 \<Rightarrow> u32" where
  "popcount x = of_nat (length (filter (bit x) [0..<32]))"

definition deceptive_name :: "preflight_env \<Rightarrow> wide \<Rightarrow> bool" where
  "deceptive_name env filename \<longleftrightarrow>
     (if length filename > 240 \<or> filename = [] \<or> last filename = 0x2e \<or> last filename = 0x20 then True
      else if list_ex (\<lambda>v. v < 0x20 \<or> v \<in> {0x202a, 0x202b, 0x202d, 0x202e, 0x202c, 0x2066, 0x2067, 0x2068, 0x2069}) filename
      then True
      else let name = env_filename env filename;
               final_extension = lower_extension env name;
               first_dot = find_sub [0x2e] name;
               last_dot = rfind_sub [0x2e] name;
               multiple_extensions = (first_dot \<noteq> None \<and> last_dot \<noteq> first_dot) in
           multiple_extensions \<and> is_one_of final_extension
             [''.exe'', ''.com'', ''.scr'', ''.cpl'', ''.bat'', ''.cmd'', ''.ps1'', ''.vbs'', ''.js'', ''.hta'', ''.lnk''])"

section \<open>The inspection\<close>

text \<open>The formats whose header the data has; each test adds the bit of its format.\<close>

definition header_tests :: "bytes \<Rightarrow> (bool \<times> file_format) list" where
  "header_tests data =
     [(starts_with data [0x4d, 0x5a], FF_pe),
      (ascii_at data 0 ''%PDF-'', FF_pdf),
      (starts_with data [0x50, 0x4b, 3, 4] \<or> starts_with data [0x50, 0x4b, 5, 6] \<or> starts_with data [0x50, 0x4b, 7, 8], FF_zip),
      (ascii_at data 0 ''RIFF'' \<and> ascii_at data 8 ''WAVE'', FF_wave),
      (starts_with data [0x89, 0x50, 0x4e, 0x47, 0x0d, 0x0a, 0x1a, 0x0a], FF_png),
      (starts_with data [0xff, 0xd8, 0xff], FF_jpeg),
      (ascii_at data 0 ''GIF87a'' \<or> ascii_at data 0 ''GIF89a'', FF_gif),
      (starts_with data [0x49, 0x49, 42, 0] \<or> starts_with data [0x4d, 0x4d, 0, 42], FF_tiff),
      (ascii_at data 0 ''RIFF'' \<and> ascii_at data 8 ''WEBP'', FF_webp),
      (length data \<ge> 12 \<and> ascii_at data 4 ''ftyp'', FF_mp4),
      (starts_with data [0xd0, 0xcf, 0x11, 0xe0, 0xa1, 0xb1, 0x1a, 0xe1], FF_ole),
      (ascii_at data 0 (''{'' @ CHR 0x5C # ''rtf''), FF_rtf)]"

definition is_markup :: "bytes \<Rightarrow> bool" where
  "is_markup text \<longleftrightarrow> list_ex (\<lambda>t. starts_with text (bytes_of t)) [''<!doctype html'', ''<html'', ''<?xml'', ''<svg'']"

definition file_formats :: "bytes \<Rightarrow> u32" where
  "file_formats data =
     foldl (\<lambda>formats (found, f). if found then formats OR format_bit f else formats) 0
       (header_tests data @ [(is_markup (searchable_text data), FF_markup)])"

definition has_format :: "u32 \<Rightarrow> file_format \<Rightarrow> bool" where
  "has_format formats f \<longleftrightarrow> formats AND format_bit f \<noteq> 0"

text \<open>Other formats after the first byte, and what follows the end of a PDF or PNG.\<close>

definition embedded_types :: "bytes \<Rightarrow> nat" where
  "embedded_types data = length (filter (\<lambda>v. find_bytes data v 1 \<noteq> None)
     [bytes_of ''MZ'', bytes_of ''%PDF-'', [0x50, 0x4b, 3, 4], bytes_of ''RIFF''])"

definition trailing_data :: "bytes \<Rightarrow> bytes \<Rightarrow> u32 \<Rightarrow> bool" where
  "trailing_data data text formats =
     (let pdf = (if has_format formats FF_pdf
                 then (case rfind_sub (bytes_of ''%%eof'') text of
                         None \<Rightarrow> False
                       | Some eof \<Rightarrow> list_ex (\<lambda>c. c \<notin> {0x20, 0x09, 0x0d, 0x0a}) (drop (eof + 5) text))
                 else False) in
      if has_format formats FF_png
      then (case find_bytes data (bytes_of ''IEND'') 8 of None \<Rightarrow> False | Some iend \<Rightarrow> iend + 8 < length data)
      else pdf)"

definition script_type :: "wide \<Rightarrow> bool" where
  "script_type extension \<longleftrightarrow> is_one_of extension
     [''.bat'', ''.cmd'', ''.ps1'', ''.psm1'', ''.vbs'', ''.vbe'', ''.js'', ''.jse'', ''.wsf'', ''.hta'', ''.sct'', ''.py'',
      ''.pyw'', ''.sh'', ''.pl'', ''.rb'', ''.php'', ''.lua'', ''.tcl'']"

definition external_references :: "bytes \<Rightarrow> u32" where
  "external_references text = count_tokens text
     [''http://'', ''https://'', ''file://'', ''ftp://'', ''webdav'', [CHR 0x5C, CHR 0x5C],
      ''targetmode='' @ [CHR 0x22] @ ''external'' @ [CHR 0x22]]"

definition command_indicators :: "bytes \<Rightarrow> u32" where
  "command_indicators text = count_tokens text
     [''cmd.exe'', ''powershell'', ''pwsh'', ''mshta'', ''rundll32'', ''regsvr32'', ''wscript'', ''cscript'', ''certutil'',
      ''bitsadmin'', ''curl.exe'', ''wget.exe'', ''invoke-expression'', ''downloadstring'']"

definition office_active :: "bytes \<Rightarrow> bool" where
  "office_active text \<longleftrightarrow>
     count_tokens text [''vbaproject.bin'', ''ddeauto'', ''oleobject'', ''attachedtemplate'', ''xl/macrosheets'', ''activex''] > 0"

definition web_active :: "bytes \<Rightarrow> bool" where
  "web_active text \<longleftrightarrow>
     count_tokens text [''<script'', ''javascript:'', ''onload='', ''onerror='', ''<foreignobject'', ''data:text/html''] > 0"

definition automatic_action :: "bytes \<Rightarrow> bool" where
  "automatic_action text \<longleftrightarrow> count_tokens text
     [''openaction'', ''ddeauto'', ''autoopen'', ''document_open'', ''workbook_open'', ''onload='', ''autorun''] > 0"

definition unsafe_deserialization :: "wide \<Rightarrow> bool" where
  "unsafe_deserialization extension \<longleftrightarrow>
     is_one_of extension [''.pkl'', ''.pickle'', ''.joblib'', ''.dill'', ''.pt'', ''.pth'', ''.ckpt'']"

definition file_inspect :: "preflight_env \<Rightarrow> bytes \<Rightarrow> wide \<Rightarrow> file_summary" where
  "file_inspect env data filename =
     (let extension = lower_extension env filename;
          suspicious = deceptive_name env filename;
          oversized = (data = [] \<or> length data > 256 * 1024 * 1024) in
      if data = [] then no_file_summary\<lparr>fs_suspicious_filename := suspicious, fs_resource_risk := oversized\<rparr>
      else
        let formats = file_formats data;
            text = searchable_text data;
            expected = expected_formats extension;
            strong = popcount formats;
            commands = command_indicators text;
            entropy = env_entropy_milli env data in
        \<lparr>fs_formats = formats,
         fs_strong_header_count = strong,
         fs_external_reference_count = external_references text,
         fs_command_indicator_count = commands,
         fs_entropy_milli = entropy,
         fs_extension_mismatch = (expected \<noteq> 0 \<and> formats AND expected = 0),
         fs_polyglot = (strong > 1 \<or>
           (formats AND (format_bit FF_zip OR format_bit FF_ole)) = 0 \<and> embedded_types data > 0),
         fs_trailing_data = trailing_data data text formats,
         fs_embedded_executable = (find_bytes data (bytes_of ''MZ'') 1 \<noteq> None),
         fs_active_content = (office_active text \<or> web_active text \<or> script_type extension \<and> commands > 0),
         fs_automatic_action = automatic_action text,
         fs_unsafe_deserialization = unsafe_deserialization extension,
         fs_suspicious_filename = suspicious,
         fs_resource_risk = (if has_format formats FF_pe \<and> length data \<ge> 4096 \<and> entropy \<ge> 7800 then True else oversized)\<rparr>)"

section \<open>What is not flagged has the header its name promises\<close>

definition format_index :: "file_format \<Rightarrow> nat" where
  "format_index f = (case f of FF_pe \<Rightarrow> 0 | FF_pdf \<Rightarrow> 1 | FF_zip \<Rightarrow> 2 | FF_wave \<Rightarrow> 3 | FF_png \<Rightarrow> 4 | FF_jpeg \<Rightarrow> 5
     | FF_gif \<Rightarrow> 6 | FF_tiff \<Rightarrow> 7 | FF_webp \<Rightarrow> 8 | FF_mp4 \<Rightarrow> 9 | FF_ole \<Rightarrow> 10 | FF_rtf \<Rightarrow> 11 | FF_markup \<Rightarrow> 12)"

lemma bit_format_bit: "bit (format_bit f) n \<longleftrightarrow> n = format_index f"
proof -
  have "format_bit f = 2 ^ format_index f" by (cases f) (simp_all add: format_index_def)
  moreover have "format_index f < 32" by (cases f) (simp_all add: format_index_def)
  ultimately show ?thesis by (auto simp: bit_exp_iff)
qed

lemma if_format: "P (format_bit f) \<Longrightarrow> P x \<Longrightarrow> P (if c then format_bit f else x)"
  by simp

lemma expected_is_format: "expected_formats extension = 0 \<or> (\<exists>f. expected_formats extension = format_bit f)"
  unfolding expected_formats_def
  by (rule if_format [where P = "\<lambda>x. x = 0 \<or> (\<exists>f. x = format_bit f)"], blast)+ simp

lemma card_ones: "unat (popcount x) = card {n. n < 32 \<and> bit x n}"
proof -
  have "length (filter (bit x) [0..<32]) \<le> 32" using length_filter_le [of "bit x" "[0..<32]"] by (simp del: upt_rec_numeral)
  then have "unat (popcount x) = length (filter (bit x) [0..<32])" by (simp add: popcount_def unat_of_nat del: upt_rec_numeral)
  also have "\<dots> = card (set (filter (bit x) [0..<32]))" by (intro distinct_card [symmetric]) (simp del: upt_rec_numeral)
  also have "set (filter (bit x) [0..<32]) = {n. n < 32 \<and> bit x n}" by (auto simp del: upt_rec_numeral)
  finally show ?thesis .
qed

lemma single_format:
  assumes "has_format x f" "\<not> popcount x > 1"
  shows "x = format_bit f"
proof (rule bit_word_eqI)
  fix n assume n: "n < LENGTH(32)"
  obtain m where m: "bit (x AND format_bit f) m"
    using assms(1) bit_eqI [of "x AND format_bit f" 0] by (auto simp: has_format_def)
  then have f: "bit x (format_index f)" by (auto simp: bit_and_iff bit_format_bit)
  then have lt: "format_index f < 32" using bit_imp_le_length [of x "format_index f"] by simp
  have "card {n. n < 32 \<and> bit x n} \<le> Suc 0" using assms(2) card_ones [of x] by (simp add: word_less_nat_alt)
  then have "\<forall>a\<in>{n. n < 32 \<and> bit x n}. \<forall>b\<in>{n. n < 32 \<and> bit x n}. a = b"
    by (subst (asm) card_le_Suc0_iff_eq) auto
  then have "n' = format_index f" if "n' < 32" "bit x n'" for n' using f lt that by blast
  then show "bit x n \<longleftrightarrow> bit (format_bit f) n" using n f by (auto simp: bit_format_bit)
qed

lemma bit_add_tests:
  "bit (foldl (\<lambda>formats (found, f). if found then formats OR format_bit f else formats) a tests) n \<longleftrightarrow>
     bit a n \<or> (\<exists>f. (True, f) \<in> set tests \<and> n = format_index f)"
proof (induction tests arbitrary: a)
  case (Cons t tests)
  obtain c f where t: "t = (c, f)" by (cases t)
  show ?case by (cases c) (auto simp: t Cons.IH bit_or_iff bit_format_bit)
qed simp

text \<open>\<open>carries data f\<close>: the data begins with the header of format \<open>f\<close>.\<close>

definition carries :: "bytes \<Rightarrow> file_format \<Rightarrow> bool" where
  "carries data f \<longleftrightarrow> (True, f) \<in> set (header_tests data @ [(is_markup (searchable_text data), FF_markup)])"

lemma format_index_inj: "format_index f = format_index g \<longleftrightarrow> f = g"
  by (cases f; cases g) (simp_all add: format_index_def)

lemma bit_file_formats: "bit (file_formats data) (format_index f) \<longleftrightarrow> carries data f"
  unfolding file_formats_def bit_add_tests carries_def format_index_inj by simp

text \<open>a file whose name has a known extension and which the preflight does not flag begins
  with the header of that extension's format and with no other format's header, contains no
  embedded executable marker, and its name is not deceptive.\<close>

theorem preflight_unflagged_is_genuine:
  assumes "data \<noteq> []" "expected_formats (lower_extension env name) \<noteq> 0" "\<not> high_risk (file_inspect env data name)"
  shows "(carries data f \<longleftrightarrow> expected_formats (lower_extension env name) = format_bit f) \<and>
     find_bytes data (bytes_of ''MZ'') 1 = None \<and> \<not> deceptive_name env name \<and> length data \<le> 256 * 1024 * 1024"
proof -
  obtain g where g: "expected_formats (lower_extension env name) = format_bit g"
    using expected_is_format assms(2) by blast
  have "has_format (file_formats data) g" "\<not> popcount (file_formats data) > 1"
    and rest: "find_bytes data (bytes_of ''MZ'') 1 = None" "\<not> deceptive_name env name" "length data \<le> 256 * 1024 * 1024"
    using assms g by (auto simp: high_risk_def file_inspect_def Let_def has_format_def split: if_splits)
  then have only: "file_formats data = format_bit g" by (simp add: single_format)
  have "carries data f \<longleftrightarrow> f = g"
    unfolding bit_file_formats [symmetric] only bit_format_bit format_index_inj by (rule refl)
  moreover have "format_bit g = format_bit f \<longleftrightarrow> f = g"
    by (metis bit_format_bit format_index_inj)
  ultimately show ?thesis using rest g by simp
qed

definition sample_env :: preflight_env where
  "sample_env = \<lparr>env_extension = (\<lambda>n. drop (length n - 4) n), env_filename = (\<lambda>n. n), env_entropy_milli = (\<lambda>_. 0),
     env_memory = (\<lambda>_. True)\<rparr>"

definition sample_gif :: bytes where "sample_gif = bytes_of ''GIF89a;''"

lemma sample_gif_text: "searchable_text sample_gif = bytes_of ''gif89a;''"
proof -
  have "map searchable_byte sample_gif = bytes_of ''gif89a;''" by code_simp
  then show ?thesis by (simp add: searchable_text_def sample_gif_def)
qed

lemma sample_gif_formats: "file_formats sample_gif = format_bit FF_gif"
proof -
  have "header_tests sample_gif = map (\<lambda>f. (f = FF_gif, f))
      [FF_pe, FF_pdf, FF_zip, FF_wave, FF_png, FF_jpeg, FF_gif, FF_tiff, FF_webp, FF_mp4, FF_ole, FF_rtf]"
    by code_simp
  moreover have "\<not> is_markup (bytes_of ''gif89a;'')" by code_simp
  ultimately show ?thesis unfolding file_formats_def sample_gif_text by simp
qed

lemma sample_gif_fine: "\<not> high_risk (file_inspect sample_env sample_gif (wide_of ''a.gif''))"
proof -
  have "sample_gif \<noteq> []" "expected_formats (lower_extension sample_env (wide_of ''a.gif'')) = format_bit FF_gif"
    "popcount (format_bit FF_gif) = 1" "embedded_types sample_gif = 0" "find_bytes sample_gif (bytes_of ''MZ'') 1 = None"
    by code_simp+
  moreover have "\<not> office_active (bytes_of ''gif89a;'')" "\<not> web_active (bytes_of ''gif89a;'')"
    "\<not> automatic_action (bytes_of ''gif89a;'')" by code_simp+
  moreover have "\<not> script_type (lower_extension sample_env (wide_of ''a.gif''))"
    "\<not> unsafe_deserialization (lower_extension sample_env (wide_of ''a.gif''))" by code_simp+
  moreover have "\<not> deceptive_name sample_env (wide_of ''a.gif'')" "length sample_gif = 7" by code_simp+
  ultimately show ?thesis
    by (simp add: high_risk_def file_inspect_def Let_def sample_gif_text sample_gif_formats trailing_data_def has_format_def)
qed

lemma preflight_unflagged_is_genuine_witness: "carries sample_gif FF_gif \<and> \<not> carries sample_gif FF_pe"
proof -
  have n: "sample_gif \<noteq> []" by code_simp
  have e: "expected_formats (lower_extension sample_env (wide_of ''a.gif'')) = format_bit FF_gif" by code_simp
  show ?thesis
    using preflight_unflagged_is_genuine [OF n _ sample_gif_fine, of FF_gif]
      preflight_unflagged_is_genuine [OF n _ sample_gif_fine, of FF_pe]
    unfolding e by simp
qed

end
