(* ===== verification/AIS_Zip.thy ===== *)
theory AIS_Zip
  imports AIS_Policy AIS_Reader AIS_Crc AIS_ZipText AIS_Inflate AIS_FilePreflight
begin

text \<open>
  The ZIP preflight (\<open>src/zip_preflight.cpp\<close>): the end-of-directory search, the ZIP64
  records, the walk over the central directory with its budgets, the cross-check of each
  local header and data descriptor, and the recursion into nested archives. Every read of
  the span is a checked one (\<open>None\<close> is a read outside it). The walk and the recursion are
  one mutually recursive pair whose termination is proved: the loop counts the entries down,
  the recursion is entered only below \<open>maximum_depth\<close>. Offsets and container sizes are
  natural numbers; the values read from the file keep their width, and the comparisons with
  the largest \<open>size_t\<close> of a 64-bit target are kept.

  Shown are: no archive makes the code read outside its bytes or run forever; the bytes
  decoded never exceed the total budget and the recursion never the depth; no warning once
  raised is lost; a refused name or an exceeded budget is quarantined by the policy.
\<close>

section \<open>Data\<close>

definition kLocalHeader :: u32 where "kLocalHeader = 0x04034b50"
definition kCentralHeader :: u32 where "kCentralHeader = 0x02014b50"
definition kEndOfCentralDirectory :: u32 where "kEndOfCentralDirectory = 0x06054b50"
definition kZip64EndOfCentralDirectory :: u32 where "kZip64EndOfCentralDirectory = 0x06064b50"
definition kZip64Locator :: u32 where "kZip64Locator = 0x07064b50"
definition kDataDescriptor :: u32 where "kDataDescriptor = 0x08074b50"

definition size_max :: u64 where "size_max = 0xffffffffffffffff"

record zip_summary =
  zs_entry_count :: u32
  zs_inspected_entry_count :: u32
  zs_maximum_depth :: u32
  zs_compressed_bytes :: u64
  zs_uncompressed_bytes :: u64
  zs_malformed :: bool
  zs_path_escape :: bool
  zs_bomb_risk :: bool
  zs_encrypted_entry :: bool
  zs_unsupported_compression :: bool
  zs_executable_entry :: bool
  zs_active_content_entry :: bool
  zs_nested_container :: bool
  zs_duplicate_name :: bool
  zs_crc_mismatch :: bool
  zs_budget_exhausted :: bool
  zs_header_mismatch :: bool

definition no_zip_summary :: zip_summary where
  "no_zip_summary = \<lparr>zs_entry_count = 0, zs_inspected_entry_count = 0, zs_maximum_depth = 0, zs_compressed_bytes = 0,
     zs_uncompressed_bytes = 0, zs_malformed = False, zs_path_escape = False, zs_bomb_risk = False,
     zs_encrypted_entry = False, zs_unsupported_compression = False, zs_executable_entry = False,
     zs_active_content_entry = False, zs_nested_container = False, zs_duplicate_name = False,
     zs_crc_mismatch = False, zs_budget_exhausted = False, zs_header_mismatch = False\<rparr>"

record inspection_budget =
  ib_maximum_entries :: u32
  ib_maximum_depth :: u32
  ib_maximum_entry_bytes :: u64
  ib_maximum_total_bytes :: u64
  ib_maximum_ratio :: u32

definition default_budget :: inspection_budget where
  "default_budget = \<lparr>ib_maximum_entries = 10000, ib_maximum_depth = 6, ib_maximum_entry_bytes = 128 * 1024 * 1024,
     ib_maximum_total_bytes = 512 * 1024 * 1024, ib_maximum_ratio = 200\<rparr>"

text \<open>\<open>SharedBudget\<close> less its \<open>limits\<close>, which never change and are an argument of their own.\<close>

record shared_budget =
  sh_entries :: u32
  sh_expanded :: u64

record directory_info =
  dl_entries :: u64
  dl_offset :: u64
  dl_size :: u64

record zip64_values =
  z64_uncompressed :: u64
  z64_compressed :: u64
  z64_local_offset :: u64
  z64_disk :: u32
  z64_valid :: bool

section \<open>Reading\<close>

definition has_bytes :: "bytes \<Rightarrow> nat \<Rightarrow> nat \<Rightarrow> bool" where
  "has_bytes data offset count \<longleftrightarrow> offset \<le> length data \<and> count \<le> length data - offset"

text \<open>A read of eight bytes, and a part of a span, both \<open>None\<close> outside its bounds.\<close>

definition read_le64 :: "bytes \<Rightarrow> nat \<Rightarrow> u64 option" where
  "read_le64 p off = map_option le_word (those (map (\<lambda>i. byte_at p (off + i)) [0..<8]))"

definition subspan :: "bytes \<Rightarrow> nat \<Rightarrow> nat \<Rightarrow> bytes option" where
  "subspan p off n = (if off \<le> length p \<and> n \<le> length p - off then Some (take n (drop off p)) else None)"

text \<open>\<open>a || b\<close> and \<open>a && b\<close>, whose right side is read only when it is needed.\<close>

definition short_or :: "bool \<Rightarrow> bool option \<Rightarrow> bool option" where
  "short_or a b = (if a then Some True else b)"

definition short_and :: "bool \<Rightarrow> bool option \<Rightarrow> bool option" where
  "short_and a b = (if a then b else Some False)"

definition differs16 :: "bytes \<Rightarrow> nat \<Rightarrow> u16 \<Rightarrow> bool option" where
  "differs16 p off v = map_option (\<lambda>x. x \<noteq> v) (read_le16 p off)"

definition differs32 :: "bytes \<Rightarrow> nat \<Rightarrow> u32 \<Rightarrow> bool option" where
  "differs32 p off v = map_option (\<lambda>x. x \<noteq> v) (read_le32 p off)"

fun any_of :: "bool option list \<Rightarrow> bool option" where
  "any_of [] = Some False"
| "any_of (t # ts) = (case t of None \<Rightarrow> None | Some b \<Rightarrow> short_or b (any_of ts))"

section \<open>The end of the central directory\<close>

definition eocd_here :: "bytes \<Rightarrow> nat \<Rightarrow> bool option" where
  "eocd_here data offset = do {
     signature \<leftarrow> read_le32 data offset;
     if signature = kEndOfCentralDirectory
     then do {
       comment \<leftarrow> read_le16 data (offset + 20);
       Some (has_bytes data offset (22 + unat comment) \<and> offset + 22 + unat comment = length data)
     }
     else Some False
   }"

fun eocd_search :: "bytes \<Rightarrow> nat \<Rightarrow> nat \<Rightarrow> nat option option" where
  "eocd_search data earliest k =
     (case eocd_here data (earliest + k) of
        None \<Rightarrow> None
      | Some True \<Rightarrow> Some (Some (earliest + k))
      | Some False \<Rightarrow> (case k of 0 \<Rightarrow> Some None | Suc k' \<Rightarrow> eocd_search data earliest k'))"

definition find_eocd :: "bytes \<Rightarrow> nat option option" where
  "find_eocd data =
     (if length data < 22 then Some None
      else let earliest = (if length data > 22 + 65535 then length data - (22 + 65535) else 0) in
           eocd_search data earliest (length data - 22 - earliest))"

text \<open>The ZIP64 record that a locator in front of the end record points to.\<close>

definition zip64_directory :: "bytes \<Rightarrow> nat \<Rightarrow> directory_info option option" where
  "zip64_directory data eocd =
     (if eocd < 20 then Some None
      else do {
        bad \<leftarrow> any_of [differs32 data (eocd - 20) kZip64Locator, differs32 data (eocd - 16) 0, differs32 data (eocd - 4) 1];
        if bad then Some None
        else do {
          zip64_offset \<leftarrow> read_le64 data (eocd - 12);
          if zip64_offset > size_max \<or> \<not> has_bytes data (unat zip64_offset) 12 then Some None
          else let record' = unat zip64_offset in do {
            record_size \<leftarrow> read_le64 data (record' + 4);
            if record_size < 44 \<or> record_size > size_max - 12 \<or>
               \<not> has_bytes data record' (12 + unat record_size) \<or> record' + 12 + unat record_size \<noteq> eocd - 20
            then Some None
            else do {
              bad \<leftarrow> any_of [differs32 data record' kZip64EndOfCentralDirectory, differs32 data (record' + 16) 0,
                differs32 data (record' + 20) 0];
              if bad then Some None
              else do {
                entries \<leftarrow> read_le64 data (record' + 32);
                entries_here \<leftarrow> read_le64 data (record' + 24);
                if entries_here \<noteq> entries then Some None
                else do {
                  dsize \<leftarrow> read_le64 data (record' + 40);
                  doffset \<leftarrow> read_le64 data (record' + 48);
                  Some (Some \<lparr>dl_entries = entries, dl_offset = doffset, dl_size = dsize\<rparr>)
                }
              }
            }
          }
        }
      })"

definition directory_location :: "bytes \<Rightarrow> nat \<Rightarrow> directory_info option option" where
  "directory_location data eocd = do {
     bad \<leftarrow> any_of [differs16 data (eocd + 4) 0, differs16 data (eocd + 6) 0];
     if bad then Some None
     else do {
       entries \<leftarrow> read_le16 data (eocd + 10);
       doffset \<leftarrow> read_le32 data (eocd + 16);
       dsize \<leftarrow> read_le32 data (eocd + 12);
       entries_here \<leftarrow> read_le16 data (eocd + 8);
       if entries_here \<noteq> entries then Some None
       else if entries = 0xffff \<or> doffset = 0xffffffff \<or> dsize = 0xffffffff then zip64_directory data eocd
       else Some (Some \<lparr>dl_entries = ucast entries, dl_offset = ucast doffset, dl_size = ucast dsize\<rparr>)
     }
   }"

section \<open>The ZIP64 extra field\<close>

text \<open>\<open>take64\<close> where the 32-bit value is the escape: a value that does not fit leaves the field position.\<close>

definition zip64_take :: "bool \<Rightarrow> bytes \<Rightarrow> nat \<Rightarrow> (u64 \<Rightarrow> zip64_values \<Rightarrow> zip64_values) \<Rightarrow> nat \<times> zip64_values \<Rightarrow>
    (nat \<times> zip64_values) option" where
  "zip64_take escaped extra field_end store s =
     (let (field, v) = s in
      if \<not> escaped then Some (field, v)
      else if \<not> has_bytes extra field 8 \<or> field + 8 > field_end then Some (field, v\<lparr>z64_valid := False\<rparr>)
      else map_option (\<lambda>x. (field + 8, store x v)) (read_le64 extra field))"

definition zip64_fields :: "bytes \<Rightarrow> nat \<Rightarrow> nat \<Rightarrow> u32 \<Rightarrow> u32 \<Rightarrow> u32 \<Rightarrow> u16 \<Rightarrow> zip64_values \<Rightarrow> zip64_values option" where
  "zip64_fields extra offset field_end uncompressed32 compressed32 local32 disk16 v = do {
     s \<leftarrow> zip64_take (uncompressed32 = 0xffffffff) extra field_end (\<lambda>x. z64_uncompressed_update (\<lambda>_. x)) (offset, v);
     s \<leftarrow> zip64_take (compressed32 = 0xffffffff) extra field_end (\<lambda>x. z64_compressed_update (\<lambda>_. x)) s;
     (field, v) \<leftarrow> zip64_take (local32 = 0xffffffff) extra field_end (\<lambda>x. z64_local_offset_update (\<lambda>_. x)) s;
     if disk16 = 0xffff
     then if \<not> has_bytes extra field 4 \<or> field + 4 > field_end then Some (v\<lparr>z64_valid := False\<rparr>)
          else map_option (\<lambda>x. v\<lparr>z64_disk := x\<rparr>) (read_le32 extra field)
     else Some v
   }"

function zip64_scan :: "bytes \<Rightarrow> nat \<Rightarrow> u32 \<Rightarrow> u32 \<Rightarrow> u32 \<Rightarrow> u16 \<Rightarrow> zip64_values \<Rightarrow> zip64_values option" where
  "zip64_scan extra offset uncompressed32 compressed32 local32 disk16 v =
     (if offset + 4 \<le> length extra
      then (case (read_le16 extra offset, read_le16 extra (offset + 2)) of
              (Some ident, Some fsize) \<Rightarrow>
                let offset = offset + 4 in
                if \<not> has_bytes extra offset (unat fsize) then Some (v\<lparr>z64_valid := False\<rparr>)
                else if ident = 1
                then zip64_fields extra offset (offset + unat fsize) uncompressed32 compressed32 local32 disk16 v
                else zip64_scan extra (offset + unat fsize) uncompressed32 compressed32 local32 disk16 v
            | _ \<Rightarrow> None)
      else if uncompressed32 = 0xffffffff \<or> compressed32 = 0xffffffff \<or> local32 = 0xffffffff \<or> disk16 = 0xffff
      then Some (v\<lparr>z64_valid := False\<rparr>)
      else Some v)"
  by pat_completeness auto
termination
  by (relation "measure (\<lambda>(extra, offset, _). length extra - offset)") auto

declare zip64_scan.simps [simp del]

definition parse_zip64 :: "bytes \<Rightarrow> u32 \<Rightarrow> u32 \<Rightarrow> u32 \<Rightarrow> u16 \<Rightarrow> zip64_values option" where
  "parse_zip64 extra uncompressed32 compressed32 local32 disk16 =
     zip64_scan extra 0 uncompressed32 compressed32 local32 disk16
       \<lparr>z64_uncompressed = ucast uncompressed32, z64_compressed = ucast compressed32,
        z64_local_offset = ucast local32, z64_disk = ucast disk16, z64_valid = True\<rparr>"

section \<open>One entry of the central directory\<close>

record central_header =
  ch_flags :: u16
  ch_method :: u16
  ch_crc :: u32
  ch_compressed32 :: u32
  ch_uncompressed32 :: u32
  ch_name_length :: u16
  ch_extra_length :: u16
  ch_comment_length :: u16
  ch_disk :: u16
  ch_local32 :: u32

definition read_central :: "bytes \<Rightarrow> nat \<Rightarrow> central_header option" where
  "read_central data central = do {
     flags \<leftarrow> read_le16 data (central + 8);
     method' \<leftarrow> read_le16 data (central + 10);
     crc \<leftarrow> read_le32 data (central + 16);
     compressed32 \<leftarrow> read_le32 data (central + 20);
     uncompressed32 \<leftarrow> read_le32 data (central + 24);
     name_length \<leftarrow> read_le16 data (central + 28);
     extra_length \<leftarrow> read_le16 data (central + 30);
     comment_length \<leftarrow> read_le16 data (central + 32);
     disk \<leftarrow> read_le16 data (central + 34);
     local32 \<leftarrow> read_le32 data (central + 42);
     Some \<lparr>ch_flags = flags, ch_method = method', ch_crc = crc, ch_compressed32 = compressed32,
       ch_uncompressed32 = uncompressed32, ch_name_length = name_length, ch_extra_length = extra_length,
       ch_comment_length = comment_length, ch_disk = disk, ch_local32 = local32\<rparr>
   }"

text \<open>The header at \<open>central\<close> with the entry's name, its extra field and the place of the next header.\<close>

record zip_entry =
  ze_header :: central_header
  ze_name_offset :: nat
  ze_name :: bytes
  ze_extra :: bytes
  ze_next :: nat

definition read_entry :: "bytes \<Rightarrow> nat \<Rightarrow> nat \<Rightarrow> zip_entry option option" where
  "read_entry data central central_end = do {
     bad \<leftarrow> short_or (\<not> has_bytes data central 46 \<or> central + 46 > central_end) (differs32 data central kCentralHeader);
     if bad then Some None
     else do {
       h \<leftarrow> read_central data central;
       let name_offset = central + 46;
       let extra_offset = name_offset + unat (ch_name_length h);
       let next' = extra_offset + unat (ch_extra_length h) + unat (ch_comment_length h);
       if ch_name_length h = 0 \<or> \<not> has_bytes data name_offset (unat (ch_name_length h)) \<or>
          \<not> has_bytes data extra_offset (unat (ch_extra_length h)) \<or> next' > central_end
       then Some None
       else do {
         name \<leftarrow> subspan data name_offset (unat (ch_name_length h));
         extra \<leftarrow> subspan data extra_offset (unat (ch_extra_length h));
         Some (Some \<lparr>ze_header = h, ze_name_offset = name_offset, ze_name = name, ze_extra = extra, ze_next = next'\<rparr>)
       }
     }
   }"

text \<open>What the walk over the directory keeps: the position, the names seen, the summary and the budget used.\<close>

record zip_walk =
  zw_central :: nat
  zw_names :: "bytes set"
  zw_summary :: zip_summary
  zw_shared :: shared_budget

definition note_name :: "central_header \<Rightarrow> bytes \<Rightarrow> zip_walk \<Rightarrow> zip_walk" where
  "note_name h name w =
     (let w = (if ch_flags h AND 0x0800 \<noteq> 0 \<and> \<not> valid_utf8 name
               then w\<lparr>zw_summary := zw_summary w\<lparr>zs_malformed := True\<rparr>\<rparr> else w) in
      case canonical_name name of
        None \<Rightarrow> w\<lparr>zw_summary := zw_summary w\<lparr>zs_path_escape := True\<rparr>\<rparr>
      | Some canonical \<Rightarrow>
          if canonical \<in> zw_names w then w\<lparr>zw_summary := zw_summary w\<lparr>zs_duplicate_name := True\<rparr>\<rparr>
          else w\<lparr>zw_names := insert canonical (zw_names w)\<rparr>)"

definition saturating_sum :: "u64 \<Rightarrow> u64 \<Rightarrow> u64" where
  "saturating_sum acc x = (if x > size_max - acc then size_max else acc + x)"

definition count_entry :: "zip64_values \<Rightarrow> zip_walk \<Rightarrow> zip_walk" where
  "count_entry v w =
     w\<lparr>zw_summary := zw_summary w\<lparr>zs_entry_count := zs_entry_count (zw_summary w) + 1,
         zs_compressed_bytes := saturating_sum (zs_compressed_bytes (zw_summary w)) (z64_compressed v),
         zs_uncompressed_bytes := saturating_sum (zs_uncompressed_bytes (zw_summary w)) (z64_uncompressed v)\<rparr>,
       zw_shared := zw_shared w\<lparr>sh_entries := sh_entries (zw_shared w) + 1\<rparr>\<rparr>"

definition ratio_exceeded :: "inspection_budget \<Rightarrow> zip64_values \<Rightarrow> bool" where
  "ratio_exceeded limits v \<longleftrightarrow>
     (if z64_compressed v = 0 then z64_uncompressed v \<noteq> 0
      else z64_uncompressed v div z64_compressed v > ucast (ib_maximum_ratio limits) \<or>
        z64_uncompressed v div z64_compressed v = ucast (ib_maximum_ratio limits) \<and>
        z64_uncompressed v mod z64_compressed v \<noteq> 0)"

definition over_budget :: "inspection_budget \<Rightarrow> shared_budget \<Rightarrow> zip64_values \<Rightarrow> bool" where
  "over_budget limits shared v \<longleftrightarrow>
     sh_entries shared > ib_maximum_entries limits \<or> z64_uncompressed v > ib_maximum_entry_bytes limits \<or>
     sh_expanded shared > ib_maximum_total_bytes limits \<or>
     z64_uncompressed v > ib_maximum_total_bytes limits - sh_expanded shared \<or> ratio_exceeded limits v"

definition encrypted :: "central_header \<Rightarrow> bool" where
  "encrypted h \<longleftrightarrow> ch_flags h AND 0x2041 \<noteq> 0"

definition executable_extensions :: "string list" where
  "executable_extensions = [''.exe'', ''.dll'', ''.sys'', ''.scr'', ''.cpl'', ''.com'', ''.msi'', ''.bat'', ''.cmd'', ''.ps1'',
     ''.vbs'', ''.js'', ''.hta'', ''.lnk'']"

definition active_extensions :: "string list" where
  "active_extensions = [''.docm'', ''.xlsm'', ''.pptm'', ''.xlam'', ''.ppam'', ''.sct'', ''.chm'', ''.jar'']"

definition archive_extensions :: "string list" where
  "archive_extensions = [''.zip'', ''.jar'', ''.docx'', ''.docm'', ''.xlsx'', ''.xlsm'', ''.pptx'', ''.pptm'', ''.apk'',
     ''.nupkg'', ''.whl'', ''.epub'', ''.odt'', ''.ods'', ''.odp'']"

definition note_flags :: "central_header \<Rightarrow> bytes \<Rightarrow> zip_summary \<Rightarrow> zip_summary" where
  "note_flags h effective s =
     (let s = (if ch_flags h AND NOT 0x284f \<noteq> 0 then s\<lparr>zs_malformed := True\<rparr> else s) in
      s\<lparr>zs_encrypted_entry := zs_encrypted_entry s \<or> encrypted h,
        zs_unsupported_compression := zs_unsupported_compression s \<or> (ch_method h \<noteq> 0 \<and> ch_method h \<noteq> 8),
        zs_executable_entry := zs_executable_entry s \<or> extension_is effective executable_extensions,
        zs_active_content_entry := zs_active_content_entry s \<or> extension_is effective active_extensions\<rparr>)"

text \<open>
  The local header must repeat the central one. \<open>Some None\<close> is a mismatch, otherwise the
  result is where the payload begins.
\<close>

definition local_differs :: "bytes \<Rightarrow> nat \<Rightarrow> central_header \<Rightarrow> bool option" where
  "local_differs data local h =
     short_or (\<not> has_bytes data local 30)
       (any_of [differs32 data local kLocalHeader, differs16 data (local + 6) (ch_flags h), differs16 data (local + 8) (ch_method h)])"

definition local_values_differ :: "bytes \<Rightarrow> nat \<Rightarrow> nat \<Rightarrow> nat \<Rightarrow> central_header \<Rightarrow> zip64_values \<Rightarrow> bool option" where
  "local_values_differ data local extra_offset extra_length h v =
     short_and (ch_flags h AND 0x0008 = 0)
       (do {
          extra \<leftarrow> subspan data extra_offset extra_length;
          uncompressed32 \<leftarrow> read_le32 data (local + 22);
          compressed32 \<leftarrow> read_le32 data (local + 18);
          lv \<leftarrow> parse_zip64 extra uncompressed32 compressed32 0 0;
          other_crc \<leftarrow> short_or (\<not> z64_valid lv) (differs32 data (local + 14) (ch_crc h));
          Some (other_crc \<or> z64_compressed lv \<noteq> z64_compressed v \<or> z64_uncompressed lv \<noteq> z64_uncompressed v)
        })"

definition local_payload :: "bytes \<Rightarrow> directory_info \<Rightarrow> zip_entry \<Rightarrow> zip64_values \<Rightarrow> nat option option" where
  "local_payload data dir e v = do {
     let h = ze_header e;
     let local = unat (z64_local_offset v);
     bad \<leftarrow> local_differs data local h;
     if bad then Some None
     else do {
       local_name_length \<leftarrow> read_le16 data (local + 26);
       local_extra_length \<leftarrow> read_le16 data (local + 28);
       let local_name = local + 30;
       let extra_offset = local_name + unat local_name_length;
       let payload_offset = extra_offset + unat local_extra_length;
       bad \<leftarrow> short_or (local_name_length \<noteq> ch_name_length h \<or> \<not> has_bytes data local_name (unat local_name_length))
         (do {
            n1 \<leftarrow> subspan data local_name (unat local_name_length);
            n2 \<leftarrow> subspan data (ze_name_offset e) (unat local_name_length);
            Some (n1 \<noteq> n2)
          });
       if bad \<or> z64_compressed v > size_max \<or> \<not> has_bytes data payload_offset (unat (z64_compressed v)) \<or>
          payload_offset + unat (z64_compressed v) > unat (dl_offset dir)
       then Some None
       else do {
         bad \<leftarrow> local_values_differ data local extra_offset (unat local_extra_length) h v;
         Some (if bad then None else Some payload_offset)
       }
     }
   }"

definition decode_entry :: "central_header \<Rightarrow> zip64_values \<Rightarrow> bytes \<Rightarrow> bytes option" where
  "decode_entry h v compressed =
     (if \<not> encrypted h \<and> ch_method h = 0 \<and> z64_compressed v = z64_uncompressed v then Some compressed
      else if \<not> encrypted h \<and> ch_method h = 8 \<and> z64_uncompressed v \<le> size_max
      then inflate_raw compressed (unat (z64_uncompressed v))
      else None)"

definition descriptor_differs :: "bytes \<Rightarrow> directory_info \<Rightarrow> central_header \<Rightarrow> zip64_values \<Rightarrow> nat \<Rightarrow> bool option" where
  "descriptor_differs data dir h v after =
     short_and (ch_flags h AND 0x0008 \<noteq> 0)
       (do {
          signed' \<leftarrow> short_and (has_bytes data after 4) (map_option (\<lambda>x. x = kDataDescriptor) (read_le32 data after));
          let descriptor = (if signed' then after + 4 else after);
          let descriptor64 = (ch_compressed32 h = 0xffffffff \<or> ch_uncompressed32 h = 0xffffffff);
          let descriptor_size = (if descriptor64 then 20 else 12);
          short_or (\<not> has_bytes data descriptor descriptor_size \<or> descriptor + descriptor_size > unat (dl_offset dir))
            (any_of (differs32 data descriptor (ch_crc h) #
               (if descriptor64
                then [map_option (\<lambda>x. x \<noteq> z64_compressed v) (read_le64 data (descriptor + 4)),
                      map_option (\<lambda>x. x \<noteq> z64_uncompressed v) (read_le64 data (descriptor + 12))]
                else [map_option (\<lambda>x. ucast x \<noteq> z64_compressed v) (read_le32 data (descriptor + 4)),
                      map_option (\<lambda>x. ucast x \<noteq> z64_uncompressed v) (read_le32 data (descriptor + 8))])))
        })"

definition note_content :: "preflight_env \<Rightarrow> central_header \<Rightarrow> bytes \<Rightarrow> bytes \<Rightarrow> bool \<Rightarrow> zip_summary \<Rightarrow> zip_summary" where
  "note_content env h effective content bad_descriptor s =
     (let s = s\<lparr>zs_inspected_entry_count := zs_inspected_entry_count s + 1\<rparr>;
          s = (if crc32 content \<noteq> ch_crc h then s\<lparr>zs_crc_mismatch := True\<rparr> else s);
          s = (if bad_descriptor then s\<lparr>zs_header_mismatch := True, zs_malformed := True\<rparr> else s);
          child = file_inspect env content (map ucast effective) in
      s\<lparr>zs_executable_entry := zs_executable_entry s \<or> fs_embedded_executable child,
        zs_active_content_entry := zs_active_content_entry s \<or> fs_active_content child \<or> fs_automatic_action child \<or>
          fs_unsafe_deserialization child\<rparr>)"

definition is_archive :: "bytes \<Rightarrow> bytes \<Rightarrow> bool option" where
  "is_archive effective content = do {
     magic \<leftarrow> short_and (length content \<ge> 4) (map_option (\<lambda>x. x = kLocalHeader) (read_le32 content 0));
     Some (magic \<or> extension_is effective archive_extensions)
   }"

text \<open>
  What becomes of the walk after one entry: the inspection ends, goes on with the next
  entry, or first looks into the archive the entry contains.
\<close>

datatype entry_outcome = Entry_stop zip_walk | Entry_next zip_walk | Entry_archive bytes zip_walk

definition mark_mismatch :: "zip_walk \<Rightarrow> zip_walk" where
  "mark_mismatch w = w\<lparr>zw_summary := zw_summary w\<lparr>zs_header_mismatch := True, zs_malformed := True\<rparr>\<rparr>"

definition entry_content :: "preflight_env \<Rightarrow> bytes \<Rightarrow> directory_info \<Rightarrow> zip_entry \<Rightarrow> zip64_values \<Rightarrow> bytes \<Rightarrow> zip_walk \<Rightarrow> nat \<Rightarrow>
    entry_outcome option" where
  "entry_content env data dir e v effective w payload_offset = do {
     let h = ze_header e;
     compressed \<leftarrow> subspan data payload_offset (unat (z64_compressed v));
     case decode_entry h v compressed of
       None \<Rightarrow> Some (Entry_next (if ch_method h = 0 \<or> ch_method h = 8
                                 then w\<lparr>zw_summary := zw_summary w\<lparr>zs_malformed := True\<rparr>\<rparr> else w))
     | Some content \<Rightarrow> do {
         bad \<leftarrow> descriptor_differs data dir h v (payload_offset + unat (z64_compressed v));
         let w = w\<lparr>zw_shared := zw_shared w\<lparr>sh_expanded := sh_expanded (zw_shared w) + of_nat (length content)\<rparr>,
                   zw_summary := note_content env h effective content bad (zw_summary w)\<rparr>;
         archive \<leftarrow> is_archive effective content;
         Some (if archive then Entry_archive content (w\<lparr>zw_summary := zw_summary w\<lparr>zs_nested_container := True\<rparr>\<rparr>)
               else Entry_next w)
       }
   }"

definition entry_step :: "preflight_env \<Rightarrow> inspection_budget \<Rightarrow> bytes \<Rightarrow> directory_info \<Rightarrow> nat \<Rightarrow> zip_walk \<Rightarrow> entry_outcome option" where
  "entry_step env limits data dir central_end w = do {
     entry \<leftarrow> read_entry data (zw_central w) central_end;
     (case entry of
       None \<Rightarrow> Some (Entry_stop (w\<lparr>zw_summary := zw_summary w\<lparr>zs_malformed := True\<rparr>\<rparr>))
     | Some e \<Rightarrow> do {
         let h = ze_header e;
         let w = note_name h (ze_name e) w;
         v \<leftarrow> parse_zip64 (ze_extra e) (ch_uncompressed32 h) (ch_compressed32 h) (ch_local32 h) (ch_disk h);
         if \<not> z64_valid v \<or> z64_disk v \<noteq> 0 \<or> z64_local_offset v > size_max
         then Some (Entry_stop (w\<lparr>zw_summary := zw_summary w\<lparr>zs_malformed := True\<rparr>\<rparr>))
         else
           let w = (count_entry v w)\<lparr>zw_central := ze_next e\<rparr> in
           if over_budget limits (zw_shared w) v
           then Some (Entry_next (w\<lparr>zw_summary := zw_summary w\<lparr>zs_bomb_risk := True, zs_budget_exhausted := True\<rparr>\<rparr>))
           else do {
             let effective = (case canonical_name (ze_name e) of Some canonical \<Rightarrow> canonical | None \<Rightarrow> ze_name e);
             let w = w\<lparr>zw_summary := note_flags h effective (zw_summary w)\<rparr>;
             payload \<leftarrow> local_payload data dir e v;
             (case payload of
               None \<Rightarrow> Some (Entry_next (mark_mismatch w))
             | Some payload_offset \<Rightarrow> entry_content env data dir e v effective w payload_offset)
           }
       })
   }"

section \<open>The walk and the recursion\<close>

definition merge_nested :: "zip_summary \<Rightarrow> zip_summary \<Rightarrow> zip_summary" where
  "merge_nested target nested =
     \<lparr>zs_entry_count = zs_entry_count target + zs_entry_count nested,
      zs_inspected_entry_count = zs_inspected_entry_count target + zs_inspected_entry_count nested,
      zs_maximum_depth = max (zs_maximum_depth target) (zs_maximum_depth nested),
      zs_compressed_bytes = zs_compressed_bytes target + zs_compressed_bytes nested,
      zs_uncompressed_bytes = zs_uncompressed_bytes target + zs_uncompressed_bytes nested,
      zs_malformed = (zs_malformed target \<or> zs_malformed nested),
      zs_path_escape = (zs_path_escape target \<or> zs_path_escape nested),
      zs_bomb_risk = (zs_bomb_risk target \<or> zs_bomb_risk nested),
      zs_encrypted_entry = (zs_encrypted_entry target \<or> zs_encrypted_entry nested),
      zs_unsupported_compression = (zs_unsupported_compression target \<or> zs_unsupported_compression nested),
      zs_executable_entry = (zs_executable_entry target \<or> zs_executable_entry nested),
      zs_active_content_entry = (zs_active_content_entry target \<or> zs_active_content_entry nested),
      zs_nested_container = True,
      zs_duplicate_name = (zs_duplicate_name target \<or> zs_duplicate_name nested),
      zs_crc_mismatch = (zs_crc_mismatch target \<or> zs_crc_mismatch nested),
      zs_budget_exhausted = (zs_budget_exhausted target \<or> zs_budget_exhausted nested),
      zs_header_mismatch = (zs_header_mismatch target \<or> zs_header_mismatch nested)\<rparr>"

text \<open>Where the directory lies, or the summary with which the inspection ends before the walk.\<close>

definition open_archive :: "inspection_budget \<Rightarrow> bytes \<Rightarrow> u32 \<Rightarrow> (zip_summary + directory_info) option" where
  "open_archive limits data depth =
     (let s = no_zip_summary\<lparr>zs_maximum_depth := depth\<rparr> in
      if depth > ib_maximum_depth limits \<or> length data < 22
      then Some (Inl (s\<lparr>zs_budget_exhausted := depth > ib_maximum_depth limits, zs_malformed := length data < 22\<rparr>))
      else
        (case find_eocd data of
           None \<Rightarrow> None
         | Some None \<Rightarrow> Some (Inl (s\<lparr>zs_malformed := True\<rparr>))
         | Some (Some eocd) \<Rightarrow>
             (case directory_location data eocd of
                None \<Rightarrow> None
              | Some None \<Rightarrow> Some (Inl (s\<lparr>zs_malformed := True, zs_budget_exhausted := False\<rparr>))
              | Some (Some dir) \<Rightarrow>
                  if dl_entries dir > ucast (ib_maximum_entries limits) \<or> dl_offset dir > size_max \<or> dl_size dir > size_max \<or>
                     unat (dl_offset dir) > eocd \<or> unat (dl_size dir) > eocd - unat (dl_offset dir)
                  then Some (Inl (s\<lparr>zs_malformed := True,
                         zs_budget_exhausted := dl_entries dir > ucast (ib_maximum_entries limits)\<rparr>))
                  else Some (Inr dir))))"

definition central_end :: "directory_info \<Rightarrow> nat" where
  "central_end dir = unat (dl_offset dir) + unat (dl_size dir)"

lemma deeper: "\<not> limit \<le> depth \<Longrightarrow> Suc (unat limit) - unat (depth + 1 :: u32) < Suc (unat limit) - unat depth"
proof -
  assume "\<not> limit \<le> depth"
  then have less: "unat depth < unat limit" by (simp add: word_le_nat_alt)
  then have "unat (depth + 1) = unat depth + 1"
    using unsigned_less [of limit, where 'a = nat] by (simp add: unat_plus_if')
  then show ?thesis using less by simp
qed

function (sequential)
  inspect_impl :: "preflight_env \<Rightarrow> inspection_budget \<Rightarrow> bytes \<Rightarrow> shared_budget \<Rightarrow> u32 \<Rightarrow> (zip_summary \<times> shared_budget) option" and
  inspect_entries :: "preflight_env \<Rightarrow> inspection_budget \<Rightarrow> bytes \<Rightarrow> directory_info \<Rightarrow> u32 \<Rightarrow> nat \<Rightarrow> zip_walk \<Rightarrow>
    (zip_summary \<times> shared_budget) option"
where
  "inspect_impl env limits data shared depth =
     (case open_archive limits data depth of
        None \<Rightarrow> None
      | Some (Inl s) \<Rightarrow> Some (s, shared)
      | Some (Inr dir) \<Rightarrow>
          inspect_entries env limits data dir depth (unat (dl_entries dir))
            \<lparr>zw_central = unat (dl_offset dir), zw_names = {}, zw_summary = no_zip_summary\<lparr>zs_maximum_depth := depth\<rparr>,
             zw_shared = shared\<rparr>)"
| "inspect_entries env limits data dir depth 0 w =
     Some (if zw_central w \<noteq> central_end dir then (zw_summary w)\<lparr>zs_malformed := True\<rparr> else zw_summary w, zw_shared w)"
| "inspect_entries env limits data dir depth (Suc n) w =
     (case entry_step env limits data dir (central_end dir) w of
        None \<Rightarrow> None
      | Some (Entry_stop w) \<Rightarrow> Some (zw_summary w, zw_shared w)
      | Some (Entry_next w) \<Rightarrow> inspect_entries env limits data dir depth n w
      | Some (Entry_archive content w) \<Rightarrow>
          if depth \<ge> ib_maximum_depth limits
          then inspect_entries env limits data dir depth n
                 (w\<lparr>zw_summary := zw_summary w\<lparr>zs_budget_exhausted := True, zs_bomb_risk := True\<rparr>\<rparr>)
          else (case inspect_impl env limits content (zw_shared w) (depth + 1) of
                  None \<Rightarrow> None
                | Some (nested, shared) \<Rightarrow>
                    inspect_entries env limits data dir depth n
                      (w\<lparr>zw_summary := merge_nested (zw_summary w) nested, zw_shared := shared\<rparr>)))"
  by pat_completeness auto

termination
  by (relation "(\<lambda>c. case c of
      Inl (env, limits, data, shared, depth) \<Rightarrow> 2 * (Suc (unat (ib_maximum_depth limits)) - unat depth) + 1
    | Inr (env, limits, data, dir, depth, n, w) \<Rightarrow> 2 * (Suc (unat (ib_maximum_depth limits)) - unat depth))
      <*mlex*> measure (\<lambda>c. case c of Inl _ \<Rightarrow> 0 | Inr (env, limits, data, dir, depth, n, w) \<Rightarrow> n)")
    (auto simp: mlex_prod_def dest!: deeper)

text \<open>
  \<open>inspect_deep\<close> and \<open>preflight\<close>, and the evidence of a summary. The inspection allocates
  (contents, tables, names); where the allocator throws, \<open>catch (...)\<close> answers
  \<open>out_of_budget\<close>. Whether it does is the parameter \<open>env_memory\<close>.
\<close>

definition inspect_deep :: "preflight_env \<Rightarrow> bytes \<Rightarrow> inspection_budget \<Rightarrow> zip_summary result option" where
  "inspect_deep env data budget =
     (if data = [] \<or> length data > 256 * 1024 * 1024 \<or> ib_maximum_entries budget = 0 \<or> ib_maximum_depth budget = 0 \<or>
         ib_maximum_entry_bytes budget = 0 \<or> ib_maximum_total_bytes budget = 0 \<or> ib_maximum_ratio budget = 0
      then Some (Inl St_invalid_argument)
      else if \<not> env_memory env data then Some (Inl St_out_of_budget)
      else map_option (\<lambda>(s, _). Inr s) (inspect_impl env budget data \<lparr>sh_entries = 0, sh_expanded = 0\<rparr> 0))"

definition zip_preflight :: "preflight_env \<Rightarrow> bytes \<Rightarrow> zip_summary result option" where
  "zip_preflight env data = inspect_deep env data default_budget"

definition zip_evidence :: "zip_summary \<Rightarrow> evidence" where
  "zip_evidence s =
     (let e = no_evidence;
          e = (if zs_malformed s \<or> zs_header_mismatch s \<or> zs_crc_mismatch s
               then add_reason proto_malformed (e\<lparr>ev_protocol := 80\<rparr>) else e);
          e = (if zs_path_escape s
               then add_reason (archive_path_escape OR path_traversal) (e\<lparr>ev_hard_rule := 100\<rparr>) else e);
          e = (if zs_bomb_risk s \<or> zs_budget_exhausted s
               then add_reason archive_bomb_risk (e\<lparr>ev_hard_rule := 100\<rparr>) else e);
          e = (if zs_encrypted_entry s then e\<lparr>ev_novelty := clipped_score (ucast (ev_novelty e) + 30)\<rparr> else e)
      in if zs_unsupported_compression s \<or> zs_executable_entry s \<or> zs_active_content_entry s \<or> zs_nested_container s \<or>
            zs_duplicate_name s
         then add_reason consequence_detected (e\<lparr>ev_consequence := clipped_score (ucast (ev_consequence e) + 70)\<rparr>)
         else e)"

interpretation zip_detector: evidence_source zip_evidence
  by unfold_locales (simp add: zip_evidence_def Let_def evidence_bounds)

section \<open>No read outside the archive\<close>

lemma in_bounds_short [safe_intros]:
  "(\<not> a \<Longrightarrow> in_bounds b) \<Longrightarrow> in_bounds (short_or a b)" "(a \<Longrightarrow> in_bounds b) \<Longrightarrow> in_bounds (short_and a b)"
  by (auto simp: short_or_def short_and_def)

lemma in_bounds_read64 [safe_intros]: "off + 8 \<le> length p \<Longrightarrow> in_bounds (read_le64 p off)"
proof -
  have eight: "[0..<8] = [0, 1, 2, 3, 4, 5, 6, 7 :: nat]" by code_simp
  assume "off + 8 \<le> length p"
  then show ?thesis unfolding read_le64_def eight in_bounds_def by (simp add: byte_at_def)
qed

lemma in_bounds_differs [safe_intros]:
  "off + 2 \<le> length p \<Longrightarrow> in_bounds (differs16 p off v)"
  "off + 4 \<le> length p \<Longrightarrow> in_bounds (differs32 p off w)"
  by (auto simp: differs16_def differs32_def intro: safe_intros)

lemma in_bounds_any_Nil [safe_intros]: "in_bounds (any_of [])"
  by simp

lemma in_bounds_any [safe_intros]: "in_bounds t \<Longrightarrow> in_bounds (any_of ts) \<Longrightarrow> in_bounds (any_of (t # ts))"
  by (auto simp: in_bounds_def short_or_def split: option.split)

lemma has_bytes_iff: "has_bytes p off n \<longleftrightarrow> off + n \<le> length p"
  by (auto simp: has_bytes_def)

lemma in_bounds_subspan [safe_intros]: "off + n \<le> length p \<Longrightarrow> in_bounds (subspan p off n)"
  by (simp add: subspan_def in_bounds_def)

lemma subspan_SomeD: "subspan p off n = Some s \<Longrightarrow> length s = n"
  by (auto simp: subspan_def split: if_splits)

declare eocd_search.simps [simp del] any_of.simps [simp del]

lemma eocd_here_safe [safe_intros]: "off + 22 \<le> length data \<Longrightarrow> in_bounds (eocd_here data off)"
  unfolding eocd_here_def by (intro safe_intros) simp_all

lemma eocd_hereD: "eocd_here data off = Some True \<Longrightarrow> off + 22 \<le> length data"
  by (auto simp: eocd_here_def bind_eq_Some_conv split: if_splits)

lemma eocd_search_safe: "earliest + k + 22 \<le> length data \<Longrightarrow> in_bounds (eocd_search data earliest k)"
proof (induction k)
  case 0
  then show ?case
    by (subst eocd_search.simps) (auto split: bool.split intro: in_bounds_cases [OF eocd_here_safe [of earliest data]])
next
  case (Suc k)
  then have "in_bounds (eocd_here data (earliest + Suc k))" by (intro safe_intros) simp
  then show ?case
    using Suc by (subst eocd_search.simps) (auto split: bool.split elim: in_bounds_cases)
qed

lemma eocd_search_bound: "eocd_search data earliest k = Some (Some e) \<Longrightarrow> e + 22 \<le> length data"
  by (induction k) (subst (asm) eocd_search.simps, auto dest!: eocd_hereD split: option.splits bool.splits)+

lemma find_eocd_safe [safe_intros]: "in_bounds (find_eocd data)"
  unfolding find_eocd_def Let_def by (intro safe_intros eocd_search_safe) (auto split: if_splits)

lemma find_eocd_bound: "find_eocd data = Some (Some e) \<Longrightarrow> e + 22 \<le> length data"
  by (auto simp: find_eocd_def Let_def dest: eocd_search_bound split: if_splits)

lemma zip64_directory_safe [safe_intros]: "eocd + 22 \<le> length data \<Longrightarrow> in_bounds (zip64_directory data eocd)"
proof -
  have "44 \<le> unat record_size" if "\<not> record_size < (44 :: u64)" for record_size
    using that by (simp add: word_less_nat_alt)
  then show "eocd + 22 \<le> length data \<Longrightarrow> in_bounds (zip64_directory data eocd)"
    unfolding zip64_directory_def Let_def by (intro safe_intros) (fastforce simp: has_bytes_iff)+
qed

lemma directory_location_safe [safe_intros]: "eocd + 22 \<le> length data \<Longrightarrow> in_bounds (directory_location data eocd)"
  unfolding directory_location_def by (intro safe_intros) simp_all

lemma zip64_take_safe [safe_intros]: "in_bounds (zip64_take c extra field_end store s)"
  unfolding zip64_take_def Let_def by (intro safe_intros) (simp add: has_bytes_iff)

lemma zip64_fields_safe: "in_bounds (zip64_fields extra offset field_end u c l d v)"
  unfolding zip64_fields_def by (intro safe_intros) (simp add: has_bytes_iff)

lemma zip64_scan_safe: "in_bounds (zip64_scan extra offset u c l d v)"
proof (induction extra offset u c l d v rule: zip64_scan.induct)
  case (1 extra offset u c l d v)
  show ?case
  proof (cases "offset + 4 \<le> length extra")
    case True
    then have "read_le16 extra offset = Some (le16_at extra offset)"
      "read_le16 extra (offset + 2) = Some (le16_at extra (offset + 2))" by (simp_all del: add_2_eq_Suc')
    then show ?thesis
      using 1 True zip64_fields_safe by (subst zip64_scan.simps) (simp add: Let_def)
  qed (subst zip64_scan.simps, simp)
qed

lemma parse_zip64_safe [safe_intros]: "in_bounds (parse_zip64 extra u c l d)"
  unfolding parse_zip64_def by (rule zip64_scan_safe)

lemma read_central_safe [safe_intros]: "central + 46 \<le> length data \<Longrightarrow> in_bounds (read_central data central)"
  unfolding read_central_def by (intro safe_intros) simp_all

lemma short_or_False: "short_or a b = Some False \<longleftrightarrow> \<not> a \<and> b = Some False"
  by (simp add: short_or_def)

lemma read_entry_safe [safe_intros]: "in_bounds (read_entry data central limit)"
  unfolding read_entry_def Let_def
  by (intro safe_intros) (auto simp: has_bytes_iff short_or_False)

text \<open>An entry that is read lies within the directory and its name within the span.\<close>

lemma read_entry_bounds:
  assumes "read_entry data central limit = Some (Some e)"
  shows "ze_name_offset e + unat (ch_name_length (ze_header e)) \<le> length data" "ze_next e \<le> limit" "central < ze_next e"
    "length (ze_name e) = unat (ch_name_length (ze_header e))" "ze_name e \<noteq> []"
  using assms
  by (auto simp: read_entry_def Let_def bind_eq_Some_conv has_bytes_iff unsigned_eq_0_iff dest!: subspan_SomeD split: if_splits)

lemma local_differs_safe [safe_intros]: "in_bounds (local_differs data local h)"
  unfolding local_differs_def by (intro safe_intros) (auto simp: has_bytes_iff)

lemma local_differs_bound: "local_differs data local h = Some False \<Longrightarrow> local + 30 \<le> length data"
  by (auto simp: local_differs_def short_or_False has_bytes_iff)

lemma local_values_differ_safe [safe_intros]:
  "local + 30 \<le> length data \<Longrightarrow> extra_offset + n \<le> length data \<Longrightarrow> in_bounds (local_values_differ data local extra_offset n h v)"
  unfolding local_values_differ_def by (intro safe_intros) simp_all

lemma local_payload_safe:
  assumes "ze_name_offset e + unat (ch_name_length (ze_header e)) \<le> length data"
  shows "in_bounds (local_payload data dir e v)"
  unfolding local_payload_def Let_def
  using assms
  by (intro safe_intros) (auto simp: has_bytes_iff short_or_False dest!: local_differs_bound)

lemma local_payload_bound:
  assumes "local_payload data dir e v = Some (Some off)"
  shows "off + unat (z64_compressed v) \<le> length data" "off + unat (z64_compressed v) \<le> unat (dl_offset dir)"
  using assms by (auto simp: local_payload_def Let_def bind_eq_Some_conv has_bytes_iff split: if_splits)

lemma descriptor_differs_safe [safe_intros]: "in_bounds (descriptor_differs data dir h v after)"
  unfolding descriptor_differs_def Let_def by (intro safe_intros) (auto simp: has_bytes_iff short_and_def intro!: safe_intros split: if_splits)

lemma is_archive_safe [safe_intros]: "in_bounds (is_archive effective content)"
  unfolding is_archive_def by (intro safe_intros) simp

lemma entry_content_safe:
  "off + unat (z64_compressed v) \<le> length data \<Longrightarrow> in_bounds (entry_content env data dir e v effective w off)"
  unfolding entry_content_def Let_def by (intro safe_intros) simp

lemma entry_step_safe: "in_bounds (entry_step env limits data dir limit w)"
  unfolding entry_step_def Let_def
  by (intro safe_intros local_payload_safe entry_content_safe)
    (auto dest: read_entry_bounds(1) local_payload_bound(1))

lemma open_archive_safe [safe_intros]: "in_bounds (open_archive limits data depth)"
  unfolding open_archive_def Let_def
  using find_eocd_safe [of data]
  by (auto simp: in_bounds_def [of "find_eocd data"] intro!: safe_intros
      dest!: find_eocd_bound directory_location_safe split: option.splits elim: in_bounds_cases)

lemma inspect_safe:
  "in_bounds (inspect_impl env limits data shared depth)"
  "in_bounds (inspect_entries env limits data dir depth n w)"
proof (induction env limits data shared depth and env limits data dir depth n w rule: inspect_impl_inspect_entries.induct)
  case (1 env limits data shared depth)
  then show ?case
    by (auto intro: in_bounds_cases [OF open_archive_safe [of limits data depth]] split: sum.splits)
next
  case (3 env limits data dir depth n w)
  show ?case
  proof (rule in_bounds_cases [OF entry_step_safe [of env limits data dir "central_end dir" w]])
    fix out assume out: "entry_step env limits data dir (central_end dir) w = Some out"
    show ?thesis
    proof (cases out)
      case (Entry_archive content w')
      show ?thesis
      proof (cases "ib_maximum_depth limits \<le> depth")
        case False
        then show ?thesis
          using "3.IH"(3,4) [OF out Entry_archive] out Entry_archive
          by (auto elim!: in_bounds_cases)
      qed (use "3.IH"(2) [OF out Entry_archive] out Entry_archive in simp)
    qed (use "3.IH"(1) [OF out] out in simp_all)
  qed
qed simp


section \<open>What one entry does to the walk\<close>

fun out_walk :: "entry_outcome \<Rightarrow> zip_walk" where
  "out_walk (Entry_stop w) = w"
| "out_walk (Entry_next w) = w"
| "out_walk (Entry_archive content w) = w"

text \<open>The warnings of a summary, and that one summary has all the warnings of another.\<close>

definition warnings :: "zip_summary \<Rightarrow> bool list" where
  "warnings s = [zs_malformed s, zs_path_escape s, zs_bomb_risk s, zs_encrypted_entry s, zs_unsupported_compression s,
     zs_executable_entry s, zs_active_content_entry s, zs_nested_container s, zs_duplicate_name s, zs_crc_mismatch s,
     zs_budget_exhausted s, zs_header_mismatch s]"

definition keeps_warnings :: "zip_summary \<Rightarrow> zip_summary \<Rightarrow> bool" where
  "keeps_warnings s t \<longleftrightarrow> list_all2 (\<longrightarrow>) (warnings s) (warnings t)"

lemmas keeps_warnings_iff = keeps_warnings_def [unfolded warnings_def list_all2_Cons list_all2_Nil simp_thms]

lemma keeps_warnings_refl [simp]: "keeps_warnings s s"
  by (simp add: keeps_warnings_iff)

lemma keeps_warnings_trans: "keeps_warnings s t \<Longrightarrow> keeps_warnings t u \<Longrightarrow> keeps_warnings s u"
  by (simp add: keeps_warnings_iff)

lemma note_name_effect:
  "keeps_warnings (zw_summary w) (zw_summary (note_name h name w))"
  "zw_shared (note_name h name w) = zw_shared w"
  "zs_maximum_depth (zw_summary (note_name h name w)) = zs_maximum_depth (zw_summary w)"
  by (simp_all add: note_name_def Let_def keeps_warnings_iff split: option.split)

lemma count_entry_effect:
  "keeps_warnings (zw_summary w) (zw_summary (count_entry v w))"
  "sh_expanded (zw_shared (count_entry v w)) = sh_expanded (zw_shared w)"
  "zs_maximum_depth (zw_summary (count_entry v w)) = zs_maximum_depth (zw_summary w)"
  by (simp_all add: count_entry_def keeps_warnings_iff)

lemma note_flags_effect:
  "keeps_warnings s (note_flags h effective s)" "zs_maximum_depth (note_flags h effective s) = zs_maximum_depth s"
  by (simp_all add: note_flags_def Let_def keeps_warnings_iff)

lemma note_content_effect:
  "keeps_warnings s (note_content env h effective content bad s)"
  "zs_maximum_depth (note_content env h effective content bad s) = zs_maximum_depth s"
  by (simp_all add: note_content_def Let_def keeps_warnings_iff)

lemma decode_entry_length:
  "decode_entry h v compressed = Some content \<Longrightarrow> length compressed = unat (z64_compressed v) \<Longrightarrow>
     length content = unat (z64_uncompressed v)"
  by (auto simp: decode_entry_def inflate_raw_def bind_eq_Some_conv split: if_splits)

lemma budget_step: "x \<le> b - a \<Longrightarrow> a \<le> b \<Longrightarrow> a \<le> a + x \<and> a + x \<le> (b :: u64)"
  by unat_arith

lemma entry_content_effect:
  assumes "entry_content env data dir e v effective w off = Some out"
  shows "keeps_warnings (zw_summary w) (zw_summary (out_walk out))"
    "zs_maximum_depth (zw_summary (out_walk out)) = zs_maximum_depth (zw_summary w)"
    "sh_expanded (zw_shared (out_walk out)) \<in> {sh_expanded (zw_shared w), sh_expanded (zw_shared w) + z64_uncompressed v}"
proof -
  obtain compressed where c: "subspan data off (unat (z64_compressed v)) = Some compressed"
    using assms by (auto simp: entry_content_def Let_def bind_eq_Some_conv)
  note len = decode_entry_length [OF _ subspan_SomeD [OF c]]
  have "keeps_warnings (zw_summary w) (zw_summary (out_walk out)) \<and>
    zs_maximum_depth (zw_summary (out_walk out)) = zs_maximum_depth (zw_summary w) \<and>
    sh_expanded (zw_shared (out_walk out)) \<in> {sh_expanded (zw_shared w), sh_expanded (zw_shared w) + z64_uncompressed v}"
  proof (cases "decode_entry (ze_header e) v compressed")
    case None
    then show ?thesis
      using assms c by (auto simp: entry_content_def Let_def keeps_warnings_iff)
  next
    case (Some content)
    then show ?thesis
      using assms c len [OF Some] note_content_effect [where s = "zw_summary w"]
      by (auto simp: entry_content_def Let_def bind_eq_Some_conv keeps_warnings_iff split: if_splits)
  qed
  then show "keeps_warnings (zw_summary w) (zw_summary (out_walk out))"
    "zs_maximum_depth (zw_summary (out_walk out)) = zs_maximum_depth (zw_summary w)"
    "sh_expanded (zw_shared (out_walk out)) \<in> {sh_expanded (zw_shared w), sh_expanded (zw_shared w) + z64_uncompressed v}"
    by blast+
qed

lemma entry_step_effect:
  assumes "entry_step env limits data dir limit w = Some out"
  shows "keeps_warnings (zw_summary w) (zw_summary (out_walk out))"
    "zs_maximum_depth (zw_summary (out_walk out)) = zs_maximum_depth (zw_summary w)"
    "sh_expanded (zw_shared w) \<le> ib_maximum_total_bytes limits \<Longrightarrow>
       sh_expanded (zw_shared (out_walk out)) \<le> ib_maximum_total_bytes limits"
proof -
  have "keeps_warnings (zw_summary w) (zw_summary (out_walk out)) \<and>
    zs_maximum_depth (zw_summary (out_walk out)) = zs_maximum_depth (zw_summary w) \<and>
    (sh_expanded (zw_shared w) \<le> ib_maximum_total_bytes limits \<longrightarrow>
       sh_expanded (zw_shared (out_walk out)) \<le> ib_maximum_total_bytes limits)"
  proof (cases "read_entry data (zw_central w) limit")
    case None
    then show ?thesis using assms by (simp add: entry_step_def)
  next
    case (Some entry)
    show ?thesis
    proof (cases entry)
      case None
      then show ?thesis using assms Some by (auto simp: entry_step_def keeps_warnings_iff)
    next
      case (Some e)
      note entry = \<open>read_entry data (zw_central w) limit = Some entry\<close> [unfolded Some]
      define w1 where "w1 = note_name (ze_header e) (ze_name e) w"
      obtain v where v: "parse_zip64 (ze_extra e) (ch_uncompressed32 (ze_header e)) (ch_compressed32 (ze_header e))
          (ch_local32 (ze_header e)) (ch_disk (ze_header e)) = Some v"
        using parse_zip64_safe by (rule in_bounds_cases)
      define w2 where "w2 = (count_entry v w1)\<lparr>zw_central := ze_next e\<rparr>"
      define effective where
        "effective = (case canonical_name (ze_name e) of Some canonical \<Rightarrow> canonical | None \<Rightarrow> ze_name e)"
      define w3 where "w3 = w2\<lparr>zw_summary := note_flags (ze_header e) effective (zw_summary w2)\<rparr>"
      have w1: "keeps_warnings (zw_summary w) (zw_summary w1)" "zw_shared w1 = zw_shared w"
        "zs_maximum_depth (zw_summary w1) = zs_maximum_depth (zw_summary w)"
        unfolding w1_def by (rule note_name_effect)+
      have "keeps_warnings (zw_summary w1) (zw_summary w2)"
        "sh_expanded (zw_shared w2) = sh_expanded (zw_shared w1)"
        "zs_maximum_depth (zw_summary w2) = zs_maximum_depth (zw_summary w1)"
        unfolding w2_def using count_entry_effect by simp_all
      then have w2: "keeps_warnings (zw_summary w) (zw_summary w2)" "sh_expanded (zw_shared w2) = sh_expanded (zw_shared w)"
        "zs_maximum_depth (zw_summary w2) = zs_maximum_depth (zw_summary w)"
        using w1 by (auto intro: keeps_warnings_trans)
      have w3: "keeps_warnings (zw_summary w) (zw_summary w3)" "zw_shared w3 = zw_shared w2"
        "zs_maximum_depth (zw_summary w3) = zs_maximum_depth (zw_summary w2)"
        using w2 note_flags_effect [where s = "zw_summary w2"] unfolding w3_def by (auto intro: keeps_warnings_trans)
      consider (stop) "out = Entry_stop (w1\<lparr>zw_summary := zw_summary w1\<lparr>zs_malformed := True\<rparr>\<rparr>)"
        | (over) "out = Entry_next (w2\<lparr>zw_summary := zw_summary w2\<lparr>zs_bomb_risk := True, zs_budget_exhausted := True\<rparr>\<rparr>)"
        | (mismatch) "out = Entry_next (mark_mismatch w3)"
        | (content) off where "\<not> over_budget limits (zw_shared w2) v" "entry_content env data dir e v effective w3 off = Some out"
        using assms entry v unfolding entry_step_def
        by (auto simp: Let_def w1_def w2_def w3_def effective_def bind_eq_Some_conv split: if_splits option.splits)
      then show ?thesis
      proof cases
        case stop
        then show ?thesis using w1 by (simp add: keeps_warnings_iff)
      next
        case over
        then show ?thesis using w2 by (simp add: keeps_warnings_iff)
      next
        case mismatch
        then show ?thesis using w2 w3 by (simp add: keeps_warnings_iff mark_mismatch_def)
      next
        case (content off)
        then have "z64_uncompressed v \<le> ib_maximum_total_bytes limits - sh_expanded (zw_shared w)"
          using w2 by (simp add: over_budget_def not_less)
        then show ?thesis
          using entry_content_effect [OF content(2)] w2 w3 budget_step by (auto intro: keeps_warnings_trans)
      qed
    qed
  qed
  then show "keeps_warnings (zw_summary w) (zw_summary (out_walk out))"
    "zs_maximum_depth (zw_summary (out_walk out)) = zs_maximum_depth (zw_summary w)"
    "sh_expanded (zw_shared w) \<le> ib_maximum_total_bytes limits \<Longrightarrow>
       sh_expanded (zw_shared (out_walk out)) \<le> ib_maximum_total_bytes limits"
    by blast+
qed

section \<open>Budgets and warnings of the whole inspection\<close>

lemma merge_nested_effect:
  "keeps_warnings t (merge_nested t n)" "keeps_warnings n (merge_nested t n)"
  "zs_maximum_depth (merge_nested t n) = max (zs_maximum_depth t) (zs_maximum_depth n)"
  by (simp_all add: merge_nested_def keeps_warnings_iff)

text \<open>What the walk keeps of a summary and of the budget, for the archive and every nested one.\<close>

definition within_budget :: "inspection_budget \<Rightarrow> zip_summary \<Rightarrow> shared_budget \<Rightarrow> bool" where
  "within_budget limits s shared \<longleftrightarrow>
     zs_maximum_depth s \<le> ib_maximum_depth limits \<and> sh_expanded shared \<le> ib_maximum_total_bytes limits"

lemma open_archive_depth:
  "open_archive limits data depth = Some (Inl s) \<Longrightarrow> zs_maximum_depth s = depth"
  by (auto simp: open_archive_def Let_def split: if_splits option.splits)

lemma depth_step: "\<not> limit \<le> depth \<Longrightarrow> depth + 1 \<le> (limit :: u32)"
  by unat_arith

lemma inspect_runs: "\<exists>nested shared'. inspect_impl env limits data shared depth = Some (nested, shared')"
  using inspect_safe(1) [of env limits data shared depth] by (auto simp: in_bounds_def)

lemma inspect_within_budget:
  "inspect_impl env limits data shared depth = Some (s, shared') \<Longrightarrow>
     depth \<le> ib_maximum_depth limits \<Longrightarrow> sh_expanded shared \<le> ib_maximum_total_bytes limits \<Longrightarrow> within_budget limits s shared'"
  "inspect_entries env limits data dir depth n w = Some (s, shared') \<Longrightarrow>
     within_budget limits (zw_summary w) (zw_shared w) \<Longrightarrow> within_budget limits s shared'"
proof (induction env limits data shared depth and env limits data dir depth n w arbitrary: s shared' and s shared'
    rule: inspect_impl_inspect_entries.induct)
  case (1 env limits data shared depth)
  obtain r where r: "open_archive limits data depth = Some r" using open_archive_safe by (rule in_bounds_cases)
  show ?case
  proof (cases r)
    case (Inl t)
    then show ?thesis using "1.prems" r open_archive_depth [of limits data depth t] by (simp add: within_budget_def)
  next
    case (Inr dir)
    then show ?thesis using "1.IH" [OF r Inr] "1.prems" r by (simp add: within_budget_def)
  qed
next
  case (2 env limits data dir depth w)
  then show ?case by (auto simp: within_budget_def split: if_splits)
next
  case (3 env limits data dir depth n w)
  obtain out where out: "entry_step env limits data dir (central_end dir) w = Some out"
    using entry_step_safe by (rule in_bounds_cases)
  have within: "within_budget limits (zw_summary (out_walk out)) (zw_shared (out_walk out))"
    using entry_step_effect [OF out] "3.prems"(2) by (simp add: within_budget_def)
  show ?case
  proof (cases out)
    case (Entry_stop w')
    then show ?thesis using "3.prems" out within by simp
  next
    case (Entry_next w')
    then show ?thesis using "3.IH"(1) [OF out Entry_next] "3.prems" out within by simp
  next
    case (Entry_archive content w')
    show ?thesis
    proof (cases "ib_maximum_depth limits \<le> depth")
      case True
      then show ?thesis
        using "3.IH"(2) [OF out Entry_archive True] "3.prems" out Entry_archive within by (simp add: within_budget_def)
    next
      case False
      obtain nested shared1 where nested: "inspect_impl env limits content (zw_shared w') (depth + 1) = Some (nested, shared1)"
        using inspect_runs by blast
      have "within_budget limits nested shared1"
        using "3.IH"(3) [OF out Entry_archive False nested] depth_step [OF False] within Entry_archive
        by (simp add: within_budget_def)
      then have "within_budget limits (merge_nested (zw_summary w') nested) shared1"
        using within Entry_archive by (simp add: within_budget_def merge_nested_effect)
      then show ?thesis
        using "3.IH"(4) [OF out Entry_archive False nested refl, of s shared'] "3.prems"(1) out Entry_archive False nested by simp
    qed
  qed
qed

lemma inspect_keeps_warnings:
  "inspect_impl env limits data shared depth = Some (s, shared') \<Longrightarrow> True"
  "inspect_entries env limits data dir depth n w = Some (s, shared') \<Longrightarrow> keeps_warnings (zw_summary w) s"
proof (induction env limits data shared depth and env limits data dir depth n w arbitrary: s shared' and s shared'
    rule: inspect_impl_inspect_entries.induct)
  case (2 env limits data dir depth w)
  then show ?case by (auto simp: keeps_warnings_iff split: if_splits)
next
  case (3 env limits data dir depth n w)
  obtain out where out: "entry_step env limits data dir (central_end dir) w = Some out"
    using entry_step_safe by (rule in_bounds_cases)
  note kept = entry_step_effect(1) [OF out]
  show ?case
  proof (cases out)
    case (Entry_stop w')
    then show ?thesis using "3.prems" out kept by simp
  next
    case (Entry_next w')
    then show ?thesis using "3.IH"(1) [OF out Entry_next] "3.prems" out kept by (auto intro: keeps_warnings_trans)
  next
    case (Entry_archive content w')
    show ?thesis
    proof (cases "ib_maximum_depth limits \<le> depth")
      case True
      then have "keeps_warnings (zw_summary w'\<lparr>zs_budget_exhausted := True, zs_bomb_risk := True\<rparr>) s"
        using "3.IH"(2) [OF out Entry_archive True] "3.prems" out Entry_archive by simp
      then show ?thesis using kept Entry_archive by (simp add: keeps_warnings_iff)
    next
      case False
      obtain nested shared1 where nested: "inspect_impl env limits content (zw_shared w') (depth + 1) = Some (nested, shared1)"
        using inspect_runs by blast
      have "keeps_warnings (merge_nested (zw_summary w') nested) s"
        using "3.IH"(4) [OF out Entry_archive False nested refl, of s shared'] "3.prems" out Entry_archive False nested by simp
      then show ?thesis
        using kept Entry_archive merge_nested_effect(1) [of "zw_summary w'" nested] keeps_warnings_trans by (metis out_walk.simps(3))
    qed
  qed
qed simp

section \<open>The bytes that are decoded\<close>

text \<open>
  The contents the inspection decodes and goes on to examine, in their order, nested archives
  included. \<open>step_content\<close> says which content one entry gives; the two functions follow the
  walk and the recursion.
\<close>

definition step_content :: "inspection_budget \<Rightarrow> bytes \<Rightarrow> directory_info \<Rightarrow> nat \<Rightarrow> zip_walk \<Rightarrow> bytes list" where
  "step_content limits data dir limit w =
     (case read_entry data (zw_central w) limit of
        Some (Some e) \<Rightarrow>
          (case parse_zip64 (ze_extra e) (ch_uncompressed32 (ze_header e)) (ch_compressed32 (ze_header e))
                  (ch_local32 (ze_header e)) (ch_disk (ze_header e)) of
             Some v \<Rightarrow>
               if \<not> z64_valid v \<or> z64_disk v \<noteq> 0 \<or> z64_local_offset v > size_max \<or>
                  over_budget limits (zw_shared (count_entry v w)) v then []
               else (case local_payload data dir e v of
                       Some (Some off) \<Rightarrow>
                         (case decode_entry (ze_header e) v (take (unat (z64_compressed v)) (drop off data)) of
                            Some content \<Rightarrow> [content]
                          | None \<Rightarrow> [])
                     | _ \<Rightarrow> [])
           | None \<Rightarrow> [])
      | _ \<Rightarrow> [])"

function (sequential)
  examined_impl :: "preflight_env \<Rightarrow> inspection_budget \<Rightarrow> bytes \<Rightarrow> shared_budget \<Rightarrow> u32 \<Rightarrow> bytes list" and
  examined_entries :: "preflight_env \<Rightarrow> inspection_budget \<Rightarrow> bytes \<Rightarrow> directory_info \<Rightarrow> u32 \<Rightarrow> nat \<Rightarrow> zip_walk \<Rightarrow> bytes list"
where
  "examined_impl env limits data shared depth =
     (case open_archive limits data depth of
        Some (Inr dir) \<Rightarrow>
          examined_entries env limits data dir depth (unat (dl_entries dir))
            \<lparr>zw_central = unat (dl_offset dir), zw_names = {}, zw_summary = no_zip_summary\<lparr>zs_maximum_depth := depth\<rparr>,
             zw_shared = shared\<rparr>
      | _ \<Rightarrow> [])"
| "examined_entries env limits data dir depth 0 w = []"
| "examined_entries env limits data dir depth (Suc n) w =
     step_content limits data dir (central_end dir) w @
     (case entry_step env limits data dir (central_end dir) w of
        None \<Rightarrow> []
      | Some (Entry_stop w) \<Rightarrow> []
      | Some (Entry_next w) \<Rightarrow> examined_entries env limits data dir depth n w
      | Some (Entry_archive content w) \<Rightarrow>
          if depth \<ge> ib_maximum_depth limits
          then examined_entries env limits data dir depth n
                 (w\<lparr>zw_summary := zw_summary w\<lparr>zs_budget_exhausted := True, zs_bomb_risk := True\<rparr>\<rparr>)
          else examined_impl env limits content (zw_shared w) (depth + 1) @
            (case inspect_impl env limits content (zw_shared w) (depth + 1) of
               None \<Rightarrow> []
             | Some (nested, shared) \<Rightarrow>
                 examined_entries env limits data dir depth n
                   (w\<lparr>zw_summary := merge_nested (zw_summary w) nested, zw_shared := shared\<rparr>)))"
  by pat_completeness auto

termination
  by (relation "(\<lambda>c. case c of
      Inl (env, limits, data, shared, depth) \<Rightarrow> 2 * (Suc (unat (ib_maximum_depth limits)) - unat depth) + 1
    | Inr (env, limits, data, dir, depth, n, w) \<Rightarrow> 2 * (Suc (unat (ib_maximum_depth limits)) - unat depth))
      <*mlex*> measure (\<lambda>c. case c of Inl _ \<Rightarrow> 0 | Inr (env, limits, data, dir, depth, n, w) \<Rightarrow> n)")
    (auto simp: mlex_prod_def dest!: deeper)

definition total_length :: "bytes list \<Rightarrow> nat" where
  "total_length cs = (\<Sum>c \<leftarrow> cs. length c)"

lemma total_length_simps [simp]:
  "total_length [] = 0" "total_length (c # cs) = length c + total_length cs"
  "total_length (cs @ ds) = total_length cs + total_length ds"
  by (simp_all add: total_length_def)

lemma entry_content_charges:
  assumes "entry_content env data dir e v effective w off = Some out"
  shows "sh_expanded (zw_shared (out_walk out)) = sh_expanded (zw_shared w) +
      (case decode_entry (ze_header e) v (take (unat (z64_compressed v)) (drop off data)) of
         Some content \<Rightarrow> of_nat (length content) | None \<Rightarrow> 0)"
    and "decode_entry (ze_header e) v (take (unat (z64_compressed v)) (drop off data)) = Some content \<Longrightarrow>
      length content = unat (z64_uncompressed v)"
proof -
  obtain compressed where c: "subspan data off (unat (z64_compressed v)) = Some compressed"
    using assms by (auto simp: entry_content_def Let_def bind_eq_Some_conv)
  then have eq: "take (unat (z64_compressed v)) (drop off data) = compressed"
    by (simp add: subspan_def split: if_splits)
  show "sh_expanded (zw_shared (out_walk out)) = sh_expanded (zw_shared w) +
      (case decode_entry (ze_header e) v (take (unat (z64_compressed v)) (drop off data)) of
         Some content \<Rightarrow> of_nat (length content) | None \<Rightarrow> 0)"
    using assms c unfolding eq
    by (auto simp: entry_content_def Let_def bind_eq_Some_conv split: if_splits option.splits)
  show "decode_entry (ze_header e) v (take (unat (z64_compressed v)) (drop off data)) = Some content \<Longrightarrow>
      length content = unat (z64_uncompressed v)"
    using decode_entry_length [OF _ subspan_SomeD [OF c]] unfolding eq by blast
qed

text \<open>One entry is charged with exactly what it decodes, and decodes no more than one entry may.\<close>

lemma entry_step_charges:
  assumes "entry_step env limits data dir limit w = Some out"
    and "sh_expanded (zw_shared w) \<le> ib_maximum_total_bytes limits"
  shows "unat (sh_expanded (zw_shared (out_walk out))) =
      unat (sh_expanded (zw_shared w)) + total_length (step_content limits data dir limit w) \<and>
    list_all (\<lambda>c. length c \<le> unat (ib_maximum_entry_bytes limits)) (step_content limits data dir limit w)"
proof (cases "read_entry data (zw_central w) limit")
  case None
  then show ?thesis using assms by (simp add: entry_step_def)
next
  case (Some entry)
  show ?thesis
  proof (cases entry)
    case None
    then show ?thesis using assms Some by (auto simp: entry_step_def step_content_def)
  next
    case (Some e)
    note entry = \<open>read_entry data (zw_central w) limit = Some entry\<close> [unfolded Some]
    let ?h = "ze_header e"
    obtain v where v: "parse_zip64 (ze_extra e) (ch_uncompressed32 ?h) (ch_compressed32 ?h) (ch_local32 ?h) (ch_disk ?h) = Some v"
      using parse_zip64_safe by (rule in_bounds_cases)
    define w1 where "w1 = note_name ?h (ze_name e) w"
    define w2 where "w2 = (count_entry v w1)\<lparr>zw_central := ze_next e\<rparr>"
    define effective where
      "effective = (case canonical_name (ze_name e) of Some canonical \<Rightarrow> canonical | None \<Rightarrow> ze_name e)"
    define w3 where "w3 = w2\<lparr>zw_summary := note_flags ?h effective (zw_summary w2)\<rparr>"
    let ?bad = "\<not> z64_valid v \<or> z64_disk v \<noteq> 0 \<or> z64_local_offset v > size_max"
    have shared: "zw_shared w1 = zw_shared w" "zw_shared w2 = zw_shared (count_entry v w)" "zw_shared w3 = zw_shared w2"
      "sh_expanded (zw_shared w2) = sh_expanded (zw_shared w)"
      using note_name_effect(2) [of ?h "ze_name e" w] by (simp_all add: w1_def w2_def w3_def count_entry_def)
    obtain payload where payload: "?bad \<or> over_budget limits (zw_shared w2) v \<or> local_payload data dir e v = Some payload"
      using assms(1) entry v unfolding entry_step_def
      by (cases "?bad \<or> over_budget limits (zw_shared w2) v")
        (auto simp: Let_def bind_eq_Some_conv w1_def w2_def split: if_splits)
    have parts: "step_content limits data dir limit w =
        (if ?bad \<or> over_budget limits (zw_shared w2) v then []
         else case payload of None \<Rightarrow> [] | Some off \<Rightarrow>
           (case decode_entry ?h v (take (unat (z64_compressed v)) (drop off data)) of Some c \<Rightarrow> [c] | None \<Rightarrow> []))"
      using entry v payload by (auto simp: step_content_def shared(2) split: option.splits)
    consider (skip) "step_content limits data dir limit w = []" "sh_expanded (zw_shared (out_walk out)) = sh_expanded (zw_shared w)"
      | (content) off where "\<not> over_budget limits (zw_shared w2) v" "entry_content env data dir e v effective w3 off = Some out"
        "step_content limits data dir limit w =
          (case decode_entry ?h v (take (unat (z64_compressed v)) (drop off data)) of Some c \<Rightarrow> [c] | None \<Rightarrow> [])"
    proof (cases "?bad")
      case True
      then have "out = Entry_stop (w1\<lparr>zw_summary := zw_summary w1\<lparr>zs_malformed := True\<rparr>\<rparr>)"
        using assms(1) entry v unfolding entry_step_def by (auto simp: Let_def w1_def)
      moreover have "step_content limits data dir limit w = []"
        by (rule trans [OF parts if_P]) (use True in blast)
      ultimately show thesis using shared by (intro that(1)) simp_all
    next
      case good: False
      show thesis
      proof (cases "over_budget limits (zw_shared w2) v")
        case True
        then have "out = Entry_next (w2\<lparr>zw_summary := zw_summary w2\<lparr>zs_bomb_risk := True, zs_budget_exhausted := True\<rparr>\<rparr>)"
          using good assms(1) entry v unfolding entry_step_def by (auto simp: Let_def w1_def w2_def)
        moreover have "step_content limits data dir limit w = []"
          by (rule trans [OF parts if_P]) (use True in blast)
        ultimately show thesis using shared by (intro that(1)) simp_all
      next
        case False
        have rest: "(case payload of None \<Rightarrow> Some (Entry_next (mark_mismatch w3))
            | Some off \<Rightarrow> entry_content env data dir e v effective w3 off) = Some out"
          using good False payload assms(1) entry v unfolding entry_step_def
          by (cases payload)
            (simp_all add: Let_def w1_def [symmetric] w2_def [symmetric] effective_def [symmetric] w3_def [symmetric])
        show thesis
        proof (cases payload)
          case None
          then show thesis using rest parts good False shared by (intro that(1)) (auto simp: mark_mismatch_def)
        next
          case (Some off)
          then show thesis using rest parts good False by (intro that(2)) simp_all
        qed
      qed
    qed
    then show ?thesis
    proof cases
      case (content off)
      have size: "z64_uncompressed v \<le> ib_maximum_entry_bytes limits"
        "z64_uncompressed v \<le> ib_maximum_total_bytes limits - sh_expanded (zw_shared w)"
        using content(1) shared(4) by (simp_all add: over_budget_def not_less)
      show ?thesis
      proof (cases "decode_entry ?h v (take (unat (z64_compressed v)) (drop off data))")
        case None
        then show ?thesis using content entry_content_charges(1) [OF content(2)] shared by simp
      next
        case (Some c)
        then have len: "length c = unat (z64_uncompressed v)" using entry_content_charges(2) [OF content(2)] by blast
        have "unat (sh_expanded (zw_shared w) + z64_uncompressed v) = unat (sh_expanded (zw_shared w)) + unat (z64_uncompressed v)"
          using budget_step [OF size(2) assms(2)] by unat_arith
        then show ?thesis
          using content entry_content_charges(1) [OF content(2)] shared len size(1) Some by (simp add: word_le_nat_alt)
      qed
    qed simp
  qed
qed

lemma inspect_charges:
  "inspect_impl env limits data shared depth = Some (s, shared') \<Longrightarrow>
     depth \<le> ib_maximum_depth limits \<Longrightarrow> sh_expanded shared \<le> ib_maximum_total_bytes limits \<Longrightarrow>
     unat (sh_expanded shared') = unat (sh_expanded shared) + total_length (examined_impl env limits data shared depth) \<and>
     list_all (\<lambda>c. length c \<le> unat (ib_maximum_entry_bytes limits)) (examined_impl env limits data shared depth)"
  "inspect_entries env limits data dir depth n w = Some (s, shared') \<Longrightarrow>
     sh_expanded (zw_shared w) \<le> ib_maximum_total_bytes limits \<Longrightarrow>
     unat (sh_expanded shared') = unat (sh_expanded (zw_shared w)) + total_length (examined_entries env limits data dir depth n w) \<and>
     list_all (\<lambda>c. length c \<le> unat (ib_maximum_entry_bytes limits)) (examined_entries env limits data dir depth n w)"
proof (induction env limits data shared depth and env limits data dir depth n w arbitrary: s shared' and s shared'
    rule: inspect_impl_inspect_entries.induct)
  case (1 env limits data shared depth)
  obtain r where r: "open_archive limits data depth = Some r" using open_archive_safe by (rule in_bounds_cases)
  show ?case
  proof (cases r)
    case (Inl t)
    then show ?thesis using "1.prems" r by simp
  next
    case (Inr dir)
    then show ?thesis using "1.IH" [OF r Inr] "1.prems" r by simp
  qed
next
  case (2 env limits data dir depth w)
  then show ?case by auto
next
  case (3 env limits data dir depth n w)
  obtain out where out: "entry_step env limits data dir (central_end dir) w = Some out"
    using entry_step_safe by (rule in_bounds_cases)
  note charged = entry_step_charges [OF out "3.prems"(2)] and within = entry_step_effect(3) [OF out "3.prems"(2)]
  show ?case
  proof (cases out)
    case (Entry_stop w')
    then show ?thesis using "3.prems" out charged by simp
  next
    case (Entry_next w')
    then show ?thesis using "3.IH"(1) [OF out Entry_next, of s shared'] "3.prems" out charged within by simp
  next
    case (Entry_archive content w')
    show ?thesis
    proof (cases "ib_maximum_depth limits \<le> depth")
      case True
      then show ?thesis
        using "3.IH"(2) [OF out Entry_archive True, of s shared'] "3.prems" out Entry_archive charged within by simp
    next
      case False
      obtain nested shared1 where nested: "inspect_impl env limits content (zw_shared w') (depth + 1) = Some (nested, shared1)"
        using inspect_runs by blast
      have w': "sh_expanded (zw_shared w') \<le> ib_maximum_total_bytes limits" using within Entry_archive by simp
      have "sh_expanded shared1 \<le> ib_maximum_total_bytes limits"
        using inspect_within_budget(1) [OF nested depth_step [OF False] w'] by (simp add: within_budget_def)
      then show ?thesis
        using "3.IH"(3) [OF out Entry_archive False nested depth_step [OF False] w']
          "3.IH"(4) [OF out Entry_archive False nested refl, of s shared'] "3.prems"(1) out Entry_archive False nested charged
        by simp
    qed
  qed
qed

text \<open>
  C24: the inspection of any archive, however its sizes are declared and however archives are
  nested in it, decodes and examines contents of at most \<open>maximum_total_bytes\<close> together and at
  most \<open>maximum_entry_bytes\<close> each, nested archives included; the shared counter ends up at
  exactly the number of bytes they have, and the recursion never descends below
  \<open>maximum_depth\<close>. Inflations that fail part way are not among these contents; what they
  produced is not counted.
\<close>

theorem zip_budget_respected:
  assumes "inspect_impl env limits data \<lparr>sh_entries = 0, sh_expanded = 0\<rparr> 0 = Some (s, shared)"
  shows "let contents = examined_impl env limits data \<lparr>sh_entries = 0, sh_expanded = 0\<rparr> 0 in
     total_length contents \<le> unat (ib_maximum_total_bytes limits) \<and>
     list_all (\<lambda>c. length c \<le> unat (ib_maximum_entry_bytes limits)) contents \<and>
     unat (sh_expanded shared) = total_length contents \<and> zs_maximum_depth s \<le> ib_maximum_depth limits"
  using inspect_within_budget(1) [OF assms] inspect_charges(1) [OF assms]
  by (simp add: within_budget_def word_le_nat_alt Let_def)

section \<open>What a clean verdict guarantees\<close>

text \<open>
  The entries of a directory as a list, read one after the other, and what it means that an
  entry is verified: its local header agrees, its payload lies before the directory and
  decodes to content of the declared size and checksum.
\<close>

fun directory_entries :: "bytes \<Rightarrow> nat \<Rightarrow> nat \<Rightarrow> nat \<Rightarrow> (zip_entry list \<times> nat) option" where
  "directory_entries data limit 0 central = Some ([], central)"
| "directory_entries data limit (Suc n) central =
     (case read_entry data central limit of
        Some (Some e) \<Rightarrow> map_option (\<lambda>(es, c). (e # es, c)) (directory_entries data limit n (ze_next e))
      | _ \<Rightarrow> None)"

definition verified_entry :: "bytes \<Rightarrow> directory_info \<Rightarrow> zip_entry \<Rightarrow> bool" where
  "verified_entry data dir e \<longleftrightarrow>
     (\<exists>v off content.
        parse_zip64 (ze_extra e) (ch_uncompressed32 (ze_header e)) (ch_compressed32 (ze_header e))
          (ch_local32 (ze_header e)) (ch_disk (ze_header e)) = Some v \<and>
        local_payload data dir e v = Some (Some off) \<and>
        off + unat (z64_compressed v) \<le> unat (dl_offset dir) \<and>
        decode_entry (ze_header e) v (take (unat (z64_compressed v)) (drop off data)) = Some content \<and>
        length content = unat (z64_uncompressed v) \<and> crc32 content = ch_crc (ze_header e))"

definition zip_clean :: "zip_summary \<Rightarrow> bool" where
  "zip_clean s \<longleftrightarrow> \<not> zs_malformed s \<and> \<not> zs_path_escape s \<and> \<not> zs_duplicate_name s \<and> \<not> zs_crc_mismatch s \<and>
     \<not> zs_budget_exhausted s \<and> \<not> zs_unsupported_compression s"

lemma keeps_clean: "keeps_warnings s t \<Longrightarrow> zip_clean t \<Longrightarrow> zip_clean s"
  by (simp add: keeps_warnings_iff zip_clean_def)

lemma entry_content_clean:
  assumes "entry_content env data dir e v effective w off = Some out" "zip_clean (zw_summary (out_walk out))"
    "ch_method (ze_header e) = 0 \<or> ch_method (ze_header e) = 8"
  shows "(\<exists>content. decode_entry (ze_header e) v (take (unat (z64_compressed v)) (drop off data)) = Some content \<and>
      length content = unat (z64_uncompressed v) \<and> crc32 content = ch_crc (ze_header e)) \<and>
    zw_central (out_walk out) = zw_central w \<and> zw_names (out_walk out) = zw_names w \<and> \<not> (\<exists>w'. out = Entry_stop w')"
proof -
  obtain compressed where c: "subspan data off (unat (z64_compressed v)) = Some compressed"
    using assms(1) by (auto simp: entry_content_def Let_def bind_eq_Some_conv)
  then have compressed: "compressed = take (unat (z64_compressed v)) (drop off data)"
    by (simp add: subspan_def split: if_splits)
  show ?thesis
  proof (cases "decode_entry (ze_header e) v compressed")
    case None
    then show ?thesis
      using assms c by (auto simp: entry_content_def Let_def zip_clean_def)
  next
    case (Some content)
    obtain bad where bad: "out_walk out = out_walk out \<and> zs_crc_mismatch (note_content env (ze_header e) effective content bad (zw_summary w)) =
        zs_crc_mismatch (zw_summary (out_walk out))"
      "zw_central (out_walk out) = zw_central w" "zw_names (out_walk out) = zw_names w" "\<not> (\<exists>w'. out = Entry_stop w')"
      using assms(1) c Some by (auto simp: entry_content_def Let_def bind_eq_Some_conv split: if_splits)
    then have "crc32 content = ch_crc (ze_header e)"
      using assms(2) by (simp add: note_content_def Let_def zip_clean_def split: if_splits)
    then show ?thesis
      using Some decode_entry_length [OF Some subspan_SomeD [OF c]] bad compressed by blast
  qed
qed

text \<open>One entry of a walk that ends clean.\<close>

lemma entry_step_clean:
  assumes "entry_step env limits data dir limit w = Some out" "zip_clean (zw_summary (out_walk out))"
  shows "\<exists>e c. read_entry data (zw_central w) limit = Some (Some e) \<and> zw_central (out_walk out) = ze_next e \<and>
    canonical_name (ze_name e) = Some c \<and> c \<notin> zw_names w \<and> zw_names (out_walk out) = insert c (zw_names w) \<and>
    verified_entry data dir e \<and> \<not> (\<exists>w'. out = Entry_stop w')"
proof -
  obtain e where e: "read_entry data (zw_central w) limit = Some (Some e)"
    using assms by (auto simp: entry_step_def zip_clean_def bind_eq_Some_conv split: option.splits)
  define w1 where "w1 = note_name (ze_header e) (ze_name e) w"
  obtain v where v: "parse_zip64 (ze_extra e) (ch_uncompressed32 (ze_header e)) (ch_compressed32 (ze_header e))
      (ch_local32 (ze_header e)) (ch_disk (ze_header e)) = Some v"
    using parse_zip64_safe by (rule in_bounds_cases)
  define w2 where "w2 = (count_entry v w1)\<lparr>zw_central := ze_next e\<rparr>"
  define effective where
    "effective = (case canonical_name (ze_name e) of Some canonical \<Rightarrow> canonical | None \<Rightarrow> ze_name e)"
  define w3 where "w3 = w2\<lparr>zw_summary := note_flags (ze_header e) effective (zw_summary w2)\<rparr>"
  obtain off where off: "local_payload data dir e v = Some (Some off)"
    "entry_content env data dir e v effective w3 off = Some out"
    using assms e v unfolding entry_step_def
    by (auto simp: Let_def w1_def w2_def w3_def effective_def bind_eq_Some_conv zip_clean_def mark_mismatch_def
        split: if_splits option.splits)
  have clean3: "zip_clean (zw_summary w3)"
    using keeps_clean [OF entry_content_effect(1) [OF off(2)] assms(2)] .
  have clean2: "zip_clean (zw_summary w2)"
    using keeps_clean [OF note_flags_effect(1)] clean3 by (simp add: w3_def)
  have clean: "zip_clean (zw_summary w3)" "zip_clean (zw_summary w1)"
    using clean3 keeps_clean [OF count_entry_effect(1)] clean2 by (simp_all add: w2_def)
  have method': "ch_method (ze_header e) = 0 \<or> ch_method (ze_header e) = 8"
    using clean(1) by (auto simp: w3_def zip_clean_def note_flags_def Let_def)
  note content = entry_content_clean [OF off(2) assms(2) method']
  have "\<exists>c. canonical_name (ze_name e) = Some c \<and> c \<notin> zw_names w \<and> zw_names w1 = insert c (zw_names w)"
    using clean(2) by (auto simp: w1_def note_name_def Let_def zip_clean_def split: option.splits if_splits)
  moreover have "zw_names w3 = zw_names w1" "zw_central w3 = ze_next e"
    by (simp_all add: w3_def w2_def count_entry_def)
  moreover have "verified_entry data dir e"
    using content v off(1) local_payload_bound(2) [OF off(1)] unfolding verified_entry_def by blast
  ultimately show ?thesis using e content by auto
qed

lemma inspect_entries_clean:
  "inspect_impl env limits data shared depth = Some (s, shared') \<Longrightarrow> True"
  "inspect_entries env limits data dir depth n w = Some (s, shared') \<Longrightarrow> zip_clean s \<Longrightarrow>
     \<exists>es cs. directory_entries data (central_end dir) n (zw_central w) = Some (es, central_end dir) \<and>
       map (\<lambda>e. canonical_name (ze_name e)) es = map Some cs \<and> distinct cs \<and> set cs \<inter> zw_names w = {} \<and>
       list_all (verified_entry data dir) es"
proof (induction env limits data shared depth and env limits data dir depth n w arbitrary: s shared' and s shared'
    rule: inspect_impl_inspect_entries.induct)
  case (2 env limits data dir depth w)
  then show ?case by (auto simp: zip_clean_def split: if_splits)
next
  case (3 env limits data dir depth n w)
  obtain out where out: "entry_step env limits data dir (central_end dir) w = Some out"
    using entry_step_safe by (rule in_bounds_cases)
  obtain w' where w': "inspect_entries env limits data dir depth n w' = Some (s, shared') \<or> out = Entry_stop w'"
    "keeps_warnings (zw_summary (out_walk out)) (zw_summary w')" "zw_central w' = zw_central (out_walk out)"
    "zw_names w' = zw_names (out_walk out)"
    "zip_clean s \<Longrightarrow> out \<noteq> Entry_stop w' \<Longrightarrow> \<exists>es cs. directory_entries data (central_end dir) n (zw_central w') = Some (es, central_end dir) \<and>
       map (\<lambda>e. canonical_name (ze_name e)) es = map Some cs \<and> distinct cs \<and> set cs \<inter> zw_names w' = {} \<and>
       list_all (verified_entry data dir) es"
  proof (cases out)
    case (Entry_stop w')
    then show thesis by (intro that [of w']) simp_all
  next
    case (Entry_next w')
    then show thesis using "3.IH"(1) [OF out Entry_next] "3.prems" out by (intro that [of w']) simp_all
  next
    case (Entry_archive content w')
    show thesis
    proof (cases "ib_maximum_depth limits \<le> depth")
      case True
      let ?w = "w'\<lparr>zw_summary := zw_summary w'\<lparr>zs_budget_exhausted := True, zs_bomb_risk := True\<rparr>\<rparr>"
      show thesis
        using "3.IH"(2) [OF out Entry_archive True] "3.prems" out Entry_archive True
        by (intro that [of ?w]) (simp_all add: keeps_warnings_iff)
    next
      case False
      obtain nested shared1 where nested: "inspect_impl env limits content (zw_shared w') (depth + 1) = Some (nested, shared1)"
        using inspect_runs by blast
      show thesis
        using "3.IH"(4) [OF out Entry_archive False nested refl, of s shared'] "3.prems" out Entry_archive False nested
        by (intro that [of "w'\<lparr>zw_summary := merge_nested (zw_summary w') nested, zw_shared := shared1\<rparr>"])
          (simp_all add: merge_nested_effect)
    qed
  qed
  have clean: "zip_clean (zw_summary (out_walk out))"
    using "3.prems"(2) inspect_keeps_warnings(2) [OF "3.prems"(1)] w' keeps_clean "3.prems"(1) out
      inspect_keeps_warnings(2) [of env limits data dir depth n w' s shared']
    by (cases out) auto
  obtain e c where e: "read_entry data (zw_central w) (central_end dir) = Some (Some e)" "zw_central w' = ze_next e"
    "canonical_name (ze_name e) = Some c" "c \<notin> zw_names w" "zw_names w' = insert c (zw_names w)"
    "verified_entry data dir e" "\<And>x. out \<noteq> Entry_stop x"
    using entry_step_clean [OF out clean] w'(3,4) by auto
  obtain es cs where "directory_entries data (central_end dir) n (zw_central w') = Some (es, central_end dir)"
    "map (\<lambda>e. canonical_name (ze_name e)) es = map Some cs" "distinct cs" "set cs \<inter> zw_names w' = {}"
    "list_all (verified_entry data dir) es"
    using w'(5) "3.prems"(2) e(7) by blast
  then show ?case using e by (intro exI [of _ "e # es"] exI [of _ "c # cs"]) auto
qed simp

text \<open>
  C22: what a clean summary guarantees. When the inspection raises none of the warnings
  malformed, path escape, duplicate name, checksum mismatch, exhausted budget and unsupported
  compression, the central directory was found, its declared number of entries fills it
  exactly, every entry has an acceptable canonical name, no two entries have the same one,
  and every entry's payload lies before the directory and decodes to content of exactly the
  declared size and checksum.
\<close>

theorem zip_clean_means_verified:
  assumes "inspect_impl env limits data shared depth = Some (s, shared')" "zip_clean s"
  shows "\<exists>dir es cs. open_archive limits data depth = Some (Inr dir) \<and>
    directory_entries data (central_end dir) (unat (dl_entries dir)) (unat (dl_offset dir)) = Some (es, central_end dir) \<and>
    map (\<lambda>e. canonical_name (ze_name e)) es = map Some cs \<and> distinct cs \<and> list_all (verified_entry data dir) es"
proof -
  obtain r where r: "open_archive limits data depth = Some r" using open_archive_safe by (rule in_bounds_cases)
  show ?thesis
  proof (cases r)
    case (Inl t)
    then show ?thesis
      using assms r by (auto simp: open_archive_def Let_def zip_clean_def split: if_splits option.splits)
  next
    case (Inr dir)
    then show ?thesis
      using inspect_entries_clean(2) [OF _ assms(2)] assms(1) r by fastforce
  qed
qed

text \<open>An archive of one stored entry \<open>a\<close> with the single byte \<open>A\<close>.\<close>

definition sample_zip :: bytes where
  "sample_zip =
     [80, 75, 3, 4, 20, 0, 0, 0, 0, 0, 0, 0, 0, 0, 139, 158, 217, 211, 1, 0, 0, 0, 1, 0, 0, 0, 1, 0, 0, 0, 97, 65] @
     [80, 75, 1, 2, 20, 0, 20, 0, 0, 0, 0, 0, 0, 0, 0, 0, 139, 158, 217, 211, 1, 0, 0, 0, 1, 0, 0, 0, 1, 0, 0, 0, 0, 0, 0, 0, 0, 0, 0, 0, 0, 0, 0, 0, 0, 0, 97] @
     [80, 75, 5, 6, 0, 0, 0, 0, 1, 0, 1, 0, 47, 0, 0, 0, 32, 0, 0, 0, 0, 0]"

definition sample_central :: central_header where
  "sample_central = \<lparr>ch_flags = 0, ch_method = 0, ch_crc = 0xd3d99e8b, ch_compressed32 = 1, ch_uncompressed32 = 1, ch_name_length = 1,
     ch_extra_length = 0, ch_comment_length = 0, ch_disk = 0, ch_local32 = 0\<rparr>"

definition sample_entry :: zip_entry where
  "sample_entry = \<lparr>ze_header = sample_central, ze_name_offset = 78, ze_name = [0x61], ze_extra = [], ze_next = 79\<rparr>"

definition sample_directory :: directory_info where
  "sample_directory = \<lparr>dl_entries = 1, dl_offset = 32, dl_size = 47\<rparr>"

definition sample_sizes :: zip64_values where
  "sample_sizes = \<lparr>z64_uncompressed = 1, z64_compressed = 1, z64_local_offset = 0, z64_disk = 0, z64_valid = True\<rparr>"

lemma sample_reads:
  "eocd_here sample_zip 79 = Some True" "directory_location sample_zip 79 = Some (Some sample_directory)"
  "read_entry sample_zip 32 79 = Some (Some sample_entry)" "parse_zip64 [] 1 1 0 0 = Some sample_sizes"
  "local_payload sample_zip sample_directory sample_entry sample_sizes = Some (Some 31)"
  "canonical_name [0x61] = Some [0x61]" "subspan sample_zip 31 1 = Some [0x41]" "crc32 [0x41] = ch_crc sample_central"
  "is_archive [0x61] [0x41] = Some False" "length sample_zip = 101"
  by code_simp+

lemma sample_open: "open_archive default_budget sample_zip 0 = Some (Inr sample_directory)"
proof -
  have "find_eocd sample_zip = Some (Some 79)"
    using sample_reads(1) by (simp add: find_eocd_def Let_def sample_reads(10) eocd_search.simps [of _ 0])
  then show ?thesis
    using sample_reads by (simp add: open_archive_def default_budget_def sample_directory_def size_max_def)
qed

lemma sample_step:
  "entry_step env default_budget sample_zip sample_directory 79
     \<lparr>zw_central = 32, zw_names = {}, zw_summary = no_zip_summary, zw_shared = \<lparr>sh_entries = 0, sh_expanded = 0\<rparr>\<rparr> =
   Some (Entry_next \<lparr>zw_central = 79, zw_names = {[0x61]},
     zw_summary = note_content env sample_central [0x61] [0x41] False
       (no_zip_summary\<lparr>zs_entry_count := 1, zs_compressed_bytes := 1, zs_uncompressed_bytes := 1\<rparr>),
     zw_shared = \<lparr>sh_entries = 1, sh_expanded = 1\<rparr>\<rparr>)"
proof -
  have "note_flags sample_central [0x61] s = s" if "s = no_zip_summary\<lparr>zs_entry_count := 1, zs_compressed_bytes := 1, zs_uncompressed_bytes := 1\<rparr>" for s
    unfolding that by code_simp
  moreover have "\<not> over_budget default_budget \<lparr>sh_entries = 1, sh_expanded = 0\<rparr> sample_sizes" by code_simp
  moreover have "saturating_sum 0 1 = 1" by code_simp
  moreover have "decode_entry sample_central sample_sizes [0x41] = Some [0x41]" by code_simp
  moreover have "descriptor_differs sample_zip sample_directory sample_central sample_sizes 32 = Some False" by code_simp
  ultimately show ?thesis
    using sample_reads
    by (simp add: entry_step_def note_name_def count_entry_def entry_content_def Let_def sample_entry_def sample_central_def
        sample_sizes_def no_zip_summary_def size_max_def)
qed

theorem zip_clean_means_verified_witness:
  "\<exists>s shared dir es. inspect_impl sample_env default_budget sample_zip \<lparr>sh_entries = 0, sh_expanded = 0\<rparr> 0 = Some (s, shared) \<and>
     open_archive default_budget sample_zip 0 = Some (Inr dir) \<and> list_all (verified_entry sample_zip dir) es \<and> es \<noteq> []"
proof -
  let ?w = "\<lparr>zw_central = 79, zw_names = {[0x61]},
     zw_summary = note_content sample_env sample_central [0x61] [0x41] False
       (no_zip_summary\<lparr>zs_entry_count := 1, zs_compressed_bytes := 1, zs_uncompressed_bytes := 1\<rparr>),
     zw_shared = \<lparr>sh_entries = 1, sh_expanded = 1\<rparr>\<rparr> :: zip_walk"
  have dir: "unat (dl_entries sample_directory) = Suc 0" "unat (dl_offset sample_directory) = 32" "central_end sample_directory = 79"
    by (simp_all add: sample_directory_def central_end_def)
  have run: "inspect_impl sample_env default_budget sample_zip \<lparr>sh_entries = 0, sh_expanded = 0\<rparr> 0 = Some (zw_summary ?w, zw_shared ?w)"
    using sample_step by (simp add: sample_open dir no_zip_summary_def)
  have clean: "zip_clean (zw_summary ?w)"
    using sample_reads(8) by (simp add: zip_clean_def note_content_def Let_def no_zip_summary_def)
  obtain dir es where "open_archive default_budget sample_zip 0 = Some (Inr dir)"
    "directory_entries sample_zip (central_end dir) (unat (dl_entries dir)) (unat (dl_offset dir)) = Some (es, central_end dir)"
    "list_all (verified_entry sample_zip dir) es"
    using zip_clean_means_verified [OF run clean] by blast
  then show ?thesis
    using run sample_open dir by (auto split: option.splits)
qed

text \<open>The budget of the sample: one byte of content is decoded.\<close>

theorem zip_budget_respected_witness:
  "\<exists>s shared. inspect_impl sample_env default_budget sample_zip \<lparr>sh_entries = 0, sh_expanded = 0\<rparr> 0 = Some (s, shared) \<and>
     examined_impl sample_env default_budget sample_zip \<lparr>sh_entries = 0, sh_expanded = 0\<rparr> 0 = [[0x41]] \<and>
     sh_expanded shared = 1 \<and> zs_maximum_depth s \<le> 6"
proof -
  have dir: "unat (dl_entries sample_directory) = Suc 0" "unat (dl_offset sample_directory) = 32" "central_end sample_directory = 79"
    by (simp_all add: sample_directory_def central_end_def)
  have "\<not> over_budget default_budget \<lparr>sh_entries = 1, sh_expanded = 0\<rparr> sample_sizes" by code_simp
  moreover have "decode_entry sample_central sample_sizes (take 1 (drop 31 sample_zip)) = Some [0x41]" by code_simp
  ultimately have "step_content default_budget sample_zip sample_directory 79
     \<lparr>zw_central = 32, zw_names = {}, zw_summary = no_zip_summary, zw_shared = \<lparr>sh_entries = 0, sh_expanded = 0\<rparr>\<rparr> = [[0x41]]"
    using sample_reads by (simp add: step_content_def count_entry_def sample_entry_def sample_central_def sample_sizes_def size_max_def)
  then have contents: "examined_impl sample_env default_budget sample_zip \<lparr>sh_entries = 0, sh_expanded = 0\<rparr> 0 = [[0x41]]"
    using sample_step by (simp add: sample_open dir no_zip_summary_def)
  obtain s shared where run: "inspect_impl sample_env default_budget sample_zip \<lparr>sh_entries = 0, sh_expanded = 0\<rparr> 0 = Some (s, shared)"
    using inspect_runs by blast
  have "unat (sh_expanded shared) = unat (1 :: u64)" "zs_maximum_depth s \<le> 6"
    using zip_budget_respected [OF run] contents by (simp_all add: Let_def default_budget_def)
  then show ?thesis using run contents by (metis word_unat_eq_iff)
qed

section \<open>Verdicts\<close>

lemma zip_evidence_parts:
  "ev_hard_rule (zip_evidence s) = (if zs_path_escape s \<or> zs_bomb_risk s \<or> zs_budget_exhausted s then 100 else 0)"
  "ev_protocol (zip_evidence s) = (if zs_malformed s \<or> zs_header_mismatch s \<or> zs_crc_mismatch s then 80 else 0)"
  "ev_novelty (zip_evidence s) = (if zs_encrypted_entry s then 30 else 0)"
  "ev_consequence (zip_evidence s) =
     (if zs_unsupported_compression s \<or> zs_executable_entry s \<or> zs_active_content_entry s \<or>
         zs_nested_container s \<or> zs_duplicate_name s then 70 else 0)"
  "ev_signature (zip_evidence s) = 0" "ev_adaptivity (zip_evidence s) = 0" "ev_campaign (zip_evidence s) = 0"
  "ev_target_criticality (zip_evidence s) = 0" "ev_sensor_integrity (zip_evidence s) = 0"
  by (simp_all add: zip_evidence_def Let_def clipped_score_def)

lemma zip_evidence_mask:
  "ev_reason_mask (zip_evidence s) AND (policy_signature_invalid OR model_signature_invalid OR abi_violation) = 0"
  "ev_reason_mask (zip_evidence s) AND sandbox_inconclusive = 0"
proof -
  have mask: "ev_reason_mask (zip_evidence s) =
      (if zs_malformed s \<or> zs_header_mismatch s \<or> zs_crc_mismatch s then proto_malformed else 0) OR
      (if zs_path_escape s then archive_path_escape OR path_traversal else 0) OR
      (if zs_bomb_risk s \<or> zs_budget_exhausted s then archive_bomb_risk else 0) OR
      (if zs_unsupported_compression s \<or> zs_executable_entry s \<or> zs_active_content_entry s \<or>
          zs_nested_container s \<or> zs_duplicate_name s then consequence_detected else 0)"
    by (simp add: zip_evidence_def Let_def or.assoc)
  show "ev_reason_mask (zip_evidence s) AND (policy_signature_invalid OR model_signature_invalid OR abi_violation) = 0"
    "ev_reason_mask (zip_evidence s) AND sandbox_inconclusive = 0"
    unfolding mask by (simp_all split: if_split)
qed

text \<open>
  Through evidence and policy, an archive with a refused name, a suspected bomb or an
  exhausted budget is quarantined in every mode and for every service, and an archive with
  no warning at all is let through.
\<close>

theorem zip_policy_verdict:
  "if zs_path_escape s \<or> zs_bomb_risk s \<or> zs_budget_exhausted s
   then policy_action context (zip_evidence s) = SA_quarantine
   else lets_through (policy_action context (zip_evidence s)) =
     (\<not> (zs_malformed s \<or> zs_header_mismatch s \<or> zs_crc_mismatch s) \<and>
      \<not> (zs_unsupported_compression s \<or> zs_executable_entry s \<or> zs_active_content_entry s \<or>
         zs_nested_container s \<or> zs_duplicate_name s))"
proof (cases "zs_path_escape s \<or> zs_bomb_risk s \<or> zs_budget_exhausted s")
  case True
  then have "ev_hard_rule (zip_evidence s) = 100" by (simp add: zip_evidence_parts)
  then have "rs_hard_block (risk_score_of (zip_evidence s))" by (simp add: risk_score_of_def Let_def)
  then show ?thesis using True zip_evidence_mask by (simp add: policy_action_def Let_def)
next
  case False
  then show ?thesis
    using zip_evidence_mask [of s]
    by (simp add: lets_through_exact fatal_reasons_def scores_def zip_evidence_parts)
qed

end
