(* ===== verification/AIS_Gates.thy ===== *)
theory AIS_Gates
  imports AIS_Policy
begin

text \<open>
  The gates an installation, a release, a data set or a transfer has to pass, and the
  registries of protected services (\<open>src/release_gate.cpp\<close>, \<open>src/compatibility_lab.cpp\<close>,
  \<open>src/fuzz_plan.cpp\<close>, \<open>src/system_preflight.cpp\<close>, \<open>src/policy_authorization.cpp\<close>,
  \<open>src/dataset_governance.cpp\<close>, \<open>src/cloud_optin.cpp\<close>, \<open>src/service_registry.cpp\<close>,
  \<open>src/service_discovery.cpp\<close>, \<open>src/service_identity.cpp\<close>, \<open>src/tls_service_policy.cpp\<close>,
  \<open>src/shadow_catalog.cpp\<close>). Shown are: a gate opens exactly when all its conditions hold
  and reports how many do not; the registry is a map from transport and port to the policy
  last registered there; a managed endpoint is authorized exactly for the first pin stored
  for its service.
\<close>

section \<open>Gates that count their failed checks\<close>

text \<open>\<open>failed += check ? 0U : 1U\<close>, check after check.\<close>

definition failed_checks :: "bool list \<Rightarrow> u32" where
  "failed_checks checks = foldl (\<lambda>failed c. failed + (if c then 0 else 1)) 0 checks"

record release_metrics =
  rm_soak_days :: u32
  rm_hardware_profiles :: u32
  rm_bugcheck_free :: bool
  rm_deadlock_free :: bool
  rm_known_attack_corpus_blocked :: bool
  rm_benign_false_block_ppm :: u32
  rm_mutation_campaign_detection_percent :: u32
  rm_consequence_guard_complete :: bool
  rm_throughput_percent :: u32
  rm_p99_fastpath_us :: u32
  rm_recovery_drill_passed :: bool

record gate_report =
  gr_release_allowed :: bool
  gr_failed_checks :: u32

definition release_checks :: "release_metrics \<Rightarrow> bool list" where
  "release_checks m =
     [rm_soak_days m \<ge> 30, rm_hardware_profiles m \<ge> 10, rm_bugcheck_free m, rm_deadlock_free m,
      rm_known_attack_corpus_blocked m, rm_benign_false_block_ppm m < 100,
      rm_mutation_campaign_detection_percent m \<ge> 95, rm_consequence_guard_complete m, rm_throughput_percent m \<ge> 90,
      rm_p99_fastpath_us m \<le> 250, rm_recovery_drill_passed m]"

definition release_evaluate :: "release_metrics \<Rightarrow> gate_report" where
  "release_evaluate m =
     (let failed = failed_checks (release_checks m) in \<lparr>gr_release_allowed = (failed = 0), gr_failed_checks = failed\<rparr>)"

record lab_result =
  lr_hvci_enabled :: bool
  lr_secure_boot_enabled :: bool
  lr_verifier_72h_passed :: bool
  lr_hlk_passed :: bool
  lr_vpn_clients_passed :: bool
  lr_hyperv_passed :: bool
  lr_defender_passed :: bool
  lr_hardware_profiles :: u32

record lab_gate =
  lg_accepted :: bool
  lg_failed_checks :: u32

definition lab_checks :: "lab_result \<Rightarrow> bool list" where
  "lab_checks r = [lr_hvci_enabled r, lr_secure_boot_enabled r, lr_verifier_72h_passed r, lr_hlk_passed r,
     lr_vpn_clients_passed r, lr_hyperv_passed r, lr_defender_passed r, lr_hardware_profiles r \<ge> 10]"

definition lab_evaluate :: "lab_result \<Rightarrow> lab_gate" where
  "lab_evaluate r = (let failed = failed_checks (lab_checks r) in \<lparr>lg_accepted = (failed = 0), lg_failed_checks = failed\<rparr>)"

record corpus_status =
  cs_has_seed_corpus :: bool
  cs_has_roundtrip_invariants :: bool
  cs_has_length_offset_invariants :: bool
  cs_has_unicode_cases :: bool
  cs_aggregate_test_cases :: u64
  cs_cpu_days :: u32

record readiness =
  rd_accepted :: bool
  rd_missing_checks :: u32

definition corpus_checks :: "corpus_status \<Rightarrow> bool list" where
  "corpus_checks s = [cs_has_seed_corpus s, cs_has_roundtrip_invariants s, cs_has_length_offset_invariants s,
     cs_has_unicode_cases s, cs_aggregate_test_cases s \<ge> 1000000000 \<or> cs_cpu_days s \<ge> 30]"

definition corpus_assess :: "corpus_status \<Rightarrow> readiness" where
  "corpus_assess s = (let missing = failed_checks (corpus_checks s) in \<lparr>rd_accepted = (missing = 0), rd_missing_checks = missing\<rparr>)"

record system_facts =
  sf_supported_edition :: bool
  sf_secure_boot :: bool
  sf_tpm2 :: bool
  sf_virtualization :: bool
  sf_hvci_compatible :: bool
  sf_enough_disk :: bool
  sf_conflicting_driver :: bool

record preflight_report =
  pr_install_allowed :: bool
  pr_failure_count :: u32

definition system_checks :: "system_facts \<Rightarrow> bool list" where
  "system_checks f = [sf_supported_edition f, sf_secure_boot f, sf_tpm2 f, sf_virtualization f, sf_hvci_compatible f,
     sf_enough_disk f, \<not> sf_conflicting_driver f]"

definition system_evaluate :: "system_facts \<Rightarrow> preflight_report" where
  "system_evaluate f =
     (let failures = failed_checks (system_checks f) in \<lparr>pr_install_allowed = (failures = 0), pr_failure_count = failures\<rparr>)"

lemma failed_checks_from:
  "unat a + length cs < 2 ^ 32 \<Longrightarrow>
     unat (foldl (\<lambda>failed c. failed + (if c then 0 else 1)) (a :: u32) cs) = unat a + length (filter Not cs)"
proof (induction cs arbitrary: a)
  case (Cons c cs)
  then have "unat (a + 1) = unat a + 1" by (simp add: unat_plus_if')
  then show ?case using Cons.IH [of a] Cons.IH [of "a + 1"] Cons.prems by simp
qed simp

lemma failed_checks_count: "length cs < 2 ^ 32 \<Longrightarrow> unat (failed_checks cs) = length (filter Not cs)"
  using failed_checks_from [of 0 cs] by (simp add: failed_checks_def)

lemma failed_checks_none: "length cs < 2 ^ 32 \<Longrightarrow> failed_checks cs = 0 \<longleftrightarrow> list_all id cs"
  using failed_checks_count [of cs] by (auto simp: word_unat_eq_iff filter_empty_conv list_all_iff)

lemmas gate_checks = release_checks_def lab_checks_def corpus_checks_def system_checks_def

text \<open>
  Each of the four gates opens exactly when every one of its checks holds, and the
  number it reports is the number of checks that failed.
\<close>

theorem gates_exact:
  "gr_release_allowed (release_evaluate m) = list_all id (release_checks m) \<and>
   unat (gr_failed_checks (release_evaluate m)) = length (filter Not (release_checks m)) \<and>
   lg_accepted (lab_evaluate r) = list_all id (lab_checks r) \<and>
   unat (lg_failed_checks (lab_evaluate r)) = length (filter Not (lab_checks r)) \<and>
   rd_accepted (corpus_assess s) = list_all id (corpus_checks s) \<and>
   unat (rd_missing_checks (corpus_assess s)) = length (filter Not (corpus_checks s)) \<and>
   pr_install_allowed (system_evaluate f) = list_all id (system_checks f) \<and>
   unat (pr_failure_count (system_evaluate f)) = length (filter Not (system_checks f))"
proof -
  have short: "length (release_checks m) < 2 ^ 32" "length (lab_checks r) < 2 ^ 32" "length (corpus_checks s) < 2 ^ 32"
    "length (system_checks f) < 2 ^ 32" by (simp_all add: gate_checks)
  show ?thesis
    unfolding release_evaluate_def lab_evaluate_def corpus_assess_def system_evaluate_def Let_def
    using short by (simp add: failed_checks_count failed_checks_none)
qed

section \<open>Authorizations\<close>

record policy_change =
  pc_actor_id :: u64
  pc_admin :: bool
  pc_high_risk :: bool
  pc_local_confirmation :: bool
  pc_requested_reason_mask :: u32

definition policy_authorize :: "policy_change \<Rightarrow> unit result" where
  "policy_authorize c =
     (if pc_actor_id c = 0 \<or> \<not> pc_admin c then Inl St_integrity_failure
      else if pc_high_risk c \<and> \<not> pc_local_confirmation c then Inl St_invalid_state_transition
      else ok_unit)"

record dataset_version =
  dv_version :: u64
  dv_source_fingerprint :: digest
  dv_privacy_filter_applied :: bool
  dv_human_reviewed_edge_cases :: bool

definition accept_dataset :: "dataset_version \<Rightarrow> unit result" where
  "accept_dataset d =
     (if dv_version d = 0 then Inl St_invalid_argument
      else if \<not> dv_privacy_filter_applied d \<or> \<not> dv_human_reviewed_edge_cases d then Inl St_integrity_failure
      else ok_unit)"

record canary_evaluation =
  ce_production_model_version :: u64
  ce_canary_model_version :: u64
  ce_monitor_mode_only :: bool
  ce_attack_detection_percent :: u32
  ce_false_block_ppm :: u32
  ce_rollback_available :: bool

definition approve_canary_promotion :: "canary_evaluation \<Rightarrow> unit result" where
  "approve_canary_promotion e =
     (if ce_canary_model_version e \<le> ce_production_model_version e then Inl St_downgrade_attempt
      else if \<not> ce_monitor_mode_only e \<or> \<not> ce_rollback_available e then Inl St_invalid_state_transition
      else if ce_attack_detection_percent e < 100 \<or> ce_false_block_ppm e \<ge> 100 then Inl St_integrity_failure
      else ok_unit)"

record transfer_request =
  tr_admin_opt_in :: bool
  tr_contains_payload :: bool
  tr_payload_export_enabled :: bool
  tr_max_bytes :: u64
  tr_requested_bytes :: u64

definition authorize_transfer :: "transfer_request \<Rightarrow> unit result" where
  "authorize_transfer r =
     (if \<not> tr_admin_opt_in r then Inl St_integrity_failure
      else if tr_requested_bytes r = 0 \<or> tr_requested_bytes r > tr_max_bytes r then Inl St_out_of_budget
      else if tr_contains_payload r \<and> \<not> tr_payload_export_enabled r then Inl St_invalid_state_transition
      else ok_unit)"

text \<open>
  A sequence of promotions: each replaces the production version by its canary when it is
  approved, so the version in production only grows.
\<close>

definition promote :: "canary_evaluation \<Rightarrow> u64 \<Rightarrow> u64" where
  "promote e production =
     (let e = e\<lparr>ce_production_model_version := production\<rparr> in
      if res_ok (approve_canary_promotion e) then ce_canary_model_version e else production)"

lemma promotions_grow: "production \<le> fold promote es production"
proof (induction es arbitrary: production)
  case (Cons e es)
  have "production \<le> promote e production" by (auto simp: promote_def approve_canary_promotion_def Let_def not_le)
  then show ?case using Cons.IH [of "promote e production"] by simp
qed simp

section \<open>Protected services\<close>

datatype transport = Tp_tcp | Tp_udp

datatype fail_mode = FM_fail_closed | FM_allow_monitored_interactive

record service_policy =
  sp_port_be :: u16
  sp_transport :: transport
  sp_protocol_id :: u16
  sp_externally_reachable :: bool
  sp_critical_service :: bool
  sp_fail_policy :: fail_mode
  sp_max_payload_bytes :: u32

definition default_service :: service_policy where
  "default_service = \<lparr>sp_port_be = 0, sp_transport = Tp_tcp, sp_protocol_id = 0, sp_externally_reachable = False,
     sp_critical_service = True, sp_fail_policy = FM_fail_closed, sp_max_payload_bytes = 64 * 1024\<rparr>"

record admission =
  am_action :: shield_action
  am_reason_mask :: u32
  am_policy :: service_policy

fun replace_service :: "service_policy \<Rightarrow> service_policy list \<Rightarrow> service_policy list" where
  "replace_service p [] = [p]"
| "replace_service p (e # es) =
     (if sp_port_be e = sp_port_be p \<and> sp_transport e = sp_transport p then p # es else e # replace_service p es)"

definition register_service :: "service_policy \<Rightarrow> service_policy list \<Rightarrow> unit result \<times> service_policy list" where
  "register_service p services =
     (if sp_port_be p = 0 \<or> sp_max_payload_bytes p = 0 then (Inl St_invalid_argument, services)
      else (ok_unit, replace_service p services))"

definition admit :: "transport \<Rightarrow> u16 \<Rightarrow> service_policy list \<Rightarrow> admission" where
  "admit t port services =
     (case find (\<lambda>p. sp_transport p = t \<and> sp_port_be p = port \<and> sp_externally_reachable p) services of
        Some p \<Rightarrow> \<lparr>am_action = SA_allow_monitored, am_reason_mask = 0, am_policy = p\<rparr>
      | None \<Rightarrow> \<lparr>am_action = SA_drop_flow, am_reason_mask = unregistered_service, am_policy = default_service\<rparr>)"

record observed_listener =
  ol_port_be :: u16
  ol_transport :: transport
  ol_protocol_id :: u16
  ol_externally_reachable :: bool

definition propose :: "observed_listener \<Rightarrow> service_policy result" where
  "propose l =
     (if ol_port_be l = 0 \<or> ol_protocol_id l = 0 then Inl St_invalid_argument
      else Inr \<lparr>sp_port_be = ol_port_be l, sp_transport = ol_transport l, sp_protocol_id = ol_protocol_id l,
        sp_externally_reachable = ol_externally_reachable l, sp_critical_service = True,
        sp_fail_policy = FM_fail_closed, sp_max_payload_bytes = 64 * 1024\<rparr>)"

definition confirm :: "service_policy \<Rightarrow> service_policy list \<Rightarrow> unit result \<times> service_policy list" where
  "confirm p services = register_service p services"

text \<open>The registry as a map: what the list of policies says of a transport and port.\<close>

definition registered :: "service_policy list \<Rightarrow> transport \<times> u16 \<Rightarrow> service_policy option" where
  "registered services key = find (\<lambda>p. (sp_transport p, sp_port_be p) = key) services"

definition registry_inv :: "service_policy list \<Rightarrow> bool" where
  "registry_inv services \<longleftrightarrow> distinct (map (\<lambda>p. (sp_transport p, sp_port_be p)) services)"

lemma replace_service_keys:
  "set (map (\<lambda>p. (sp_transport p, sp_port_be p)) (replace_service p services)) =
     insert (sp_transport p, sp_port_be p) (set (map (\<lambda>p. (sp_transport p, sp_port_be p)) services))"
  by (induction services) auto

lemma replace_service_inv: "registry_inv services \<Longrightarrow> registry_inv (replace_service p services)"
proof (induction services)
  case (Cons e es)
  then show ?case using replace_service_keys [of p es] by (auto simp: registry_inv_def)
qed (simp add: registry_inv_def)

lemma replace_service_registered:
  "registered (replace_service p services) = (registered services)((sp_transport p, sp_port_be p) \<mapsto> p)"
proof (induction services)
  case (Cons e es)
  show ?case
  proof (rule ext)
    fix key
    show "registered (replace_service p (e # es)) key = ((registered (e # es))((sp_transport p, sp_port_be p) \<mapsto> p)) key"
      using fun_cong [OF Cons.IH, of key] by (auto simp: registered_def)
  qed
qed (auto simp: registered_def fun_eq_iff)

lemma admit_registered:
  assumes "registry_inv services"
  shows "admit t port services =
    (case registered services (t, port) of
       Some p \<Rightarrow> if sp_externally_reachable p
                 then \<lparr>am_action = SA_allow_monitored, am_reason_mask = 0, am_policy = p\<rparr>
                 else \<lparr>am_action = SA_drop_flow, am_reason_mask = unregistered_service, am_policy = default_service\<rparr>
     | None \<Rightarrow> \<lparr>am_action = SA_drop_flow, am_reason_mask = unregistered_service, am_policy = default_service\<rparr>)"
  using assms
proof (induction services)
  case (Cons e es)
  have none: "registered es (t, port) = None \<and> find (\<lambda>p. sp_transport p = t \<and> sp_port_be p = port \<and> sp_externally_reachable p) es = None"
    if here: "sp_transport e = t" "sp_port_be e = port"
  proof -
    have "(t, port) \<notin> (\<lambda>p. (sp_transport p, sp_port_be p)) ` set es"
      using Cons.prems here by (simp add: registry_inv_def)
    then have "\<not> (sp_transport p = t \<and> sp_port_be p = port)" if "p \<in> set es" for p
      using that by (metis (mono_tags, lifting) image_eqI)
    then show ?thesis by (auto simp: registered_def find_None_iff)
  qed
  have "registry_inv es" using Cons.prems by (simp add: registry_inv_def)
  then show ?case using Cons.IH none by (cases "sp_transport e = t \<and> sp_port_be e = port") (auto simp: admit_def registered_def)
qed (simp add: admit_def registered_def)

definition registry_step :: "service_policy \<Rightarrow> service_policy list \<Rightarrow> service_policy list" where
  "registry_step p services = snd (register_service p services)"

interpretation service_run: invariant_machine registry_step registry_inv
  by unfold_locales (simp add: registry_step_def register_service_def replace_service_inv)

text \<open>The abstract registry: a map, updated by every valid policy.\<close>

definition map_register :: "service_policy \<Rightarrow> (transport \<times> u16 \<rightharpoonup> service_policy) \<Rightarrow> (transport \<times> u16 \<rightharpoonup> service_policy)" where
  "map_register p m =
     (if sp_port_be p = 0 \<or> sp_max_payload_bytes p = 0 then m else m((sp_transport p, sp_port_be p) \<mapsto> p))"

lemma registry_refines: "registered (fold registry_step ps services) = fold map_register ps (registered services)"
  by (induction ps arbitrary: services)
    (simp_all add: registry_step_def register_service_def map_register_def replace_service_registered)

text \<open>
  After any sequence of registrations the registry behaves as the map that each valid
  registration updates at its transport and port: traffic is admitted exactly for the
  policy last registered there, when that policy is externally reachable, and dropped
  otherwise; no earlier policy for the same port survives.
\<close>

theorem registry_admits_latest:
  "admit t port (fold registry_step ps []) =
     (case fold map_register ps (\<lambda>_. None) (t, port) of
        Some p \<Rightarrow> if sp_externally_reachable p
                  then \<lparr>am_action = SA_allow_monitored, am_reason_mask = 0, am_policy = p\<rparr>
                  else \<lparr>am_action = SA_drop_flow, am_reason_mask = unregistered_service, am_policy = default_service\<rparr>
      | None \<Rightarrow> \<lparr>am_action = SA_drop_flow, am_reason_mask = unregistered_service, am_policy = default_service\<rparr>)"
proof -
  have "registry_inv []" by (simp add: registry_inv_def)
  then have "registry_inv (fold registry_step ps [])" by (rule service_run.run_inv)
  moreover have "registered [] = (\<lambda>_. None)" by (simp add: registered_def fun_eq_iff)
  ultimately show ?thesis by (simp only: admit_registered registry_refines)
qed

section \<open>Pins, managed endpoints and shadow targets\<close>

record certificate_pin =
  cp_service_id :: u64
  cp_spki_sha256 :: digest

definition pin_add :: "certificate_pin \<Rightarrow> certificate_pin list \<Rightarrow> unit result \<times> certificate_pin list" where
  "pin_add pin pins = (if cp_service_id pin = 0 then (Inl St_invalid_argument, pins) else (ok_unit, pins @ [pin]))"

definition pin_verify :: "u64 \<Rightarrow> digest \<Rightarrow> certificate_pin list \<Rightarrow> bool" where
  "pin_verify service_id presented pins =
     (case find (\<lambda>p. cp_service_id p = service_id) pins of
        None \<Rightarrow> False
      | Some p \<Rightarrow> constant_time_equal (cp_spki_sha256 p) presented)"

record managed_endpoint =
  me_service_id :: u64
  me_policy :: service_policy
  me_spki_sha256 :: digest
  me_administrator_provided_certificate :: bool

definition authorize_managed_endpoint :: "managed_endpoint \<Rightarrow> certificate_pin list \<Rightarrow> unit result" where
  "authorize_managed_endpoint e pins =
     (if me_service_id e = 0 \<or> sp_port_be (me_policy e) = 0 \<or> \<not> sp_externally_reachable (me_policy e)
      then Inl St_invalid_argument
      else if \<not> me_administrator_provided_certificate e then Inl St_integrity_failure
      else if \<not> pin_verify (me_service_id e) (me_spki_sha256 e) pins then Inl St_integrity_failure
      else ok_unit)"

datatype target_kind = TK_http_service | TK_parser | TK_download | TK_multi_flow

record shadow_target =
  st_service_id :: u64
  st_kind :: target_kind
  st_tier :: sandbox_tier
  st_p99_budget_ns :: u64

definition shadow_add :: "shadow_target \<Rightarrow> shadow_target list \<Rightarrow> unit result \<times> shadow_target list" where
  "shadow_add t targets =
     (if st_service_id t = 0 \<or> st_p99_budget_ns t = 0 then (Inl St_invalid_argument, targets) else (ok_unit, targets @ [t]))"

definition shadow_select :: "u64 \<Rightarrow> u16 \<Rightarrow> shadow_target list \<Rightarrow> shadow_target result" where
  "shadow_select service_id risk_score targets =
     (case find (\<lambda>t. st_service_id t = service_id) targets of
        None \<Rightarrow> Inl St_not_found
      | Some t \<Rightarrow>
          Inr (if risk_score \<ge> 90
               then t\<lparr>st_tier := Tier_hyperv_isolated,
                      st_p99_budget_ns := if st_p99_budget_ns t < 2000000000 then 2000000000 else st_p99_budget_ns t\<rparr>
               else t))"

text \<open>
  A pin added for a service that has one already is stored but never consulted: the pin
  store answers as it did before.
\<close>

lemma find_snoc: "find P (xs @ [x]) = (case find P xs of None \<Rightarrow> if P x then Some x else None | Some y \<Rightarrow> Some y)"
  by (induction xs) simp_all

lemma later_pin_ignored:
  "find (\<lambda>p. cp_service_id p = cp_service_id pin) pins \<noteq> None \<Longrightarrow>
     pin_verify service_id presented (snd (pin_add pin pins)) = pin_verify service_id presented pins"
  by (auto simp: pin_verify_def pin_add_def find_snoc split: option.splits)

lemma shadow_high_risk_isolated:
  "shadow_select service_id risk targets = Inr t \<Longrightarrow> risk \<ge> 90 \<Longrightarrow>
     st_tier t = Tier_hyperv_isolated \<and> st_p99_budget_ns t \<ge> 2000000000"
  by (auto simp: shadow_select_def not_less split: option.splits if_splits)

end
