(* ===== verification/AIS_Formats.thy ===== *)
theory AIS_Formats
  imports AIS_Policy AIS_Reader
begin

text \<open>
  The preflights of documents and media: JSON (\<open>src/json_preflight.cpp\<close>), XML
  (\<open>src/xml_preflight.cpp\<close>), PDF (\<open>src/pdf_preflight.cpp\<close>), WAVE (\<open>src/wav_preflight.cpp\<close>) and PE
  images (\<open>src/pe_preflight.cpp\<close>). Each makes one pass over the bytes and collects marks. Shown
  are: the JSON pass accepts exactly the texts whose brackets outside strings balance within
  the depth budget; a WAVE file made of chunks is read as exactly these chunks; the PE
  preflight reads no byte outside the image.
\<close>

section \<open>JSON\<close>

record json_summary =
  js_max_depth :: u32
  js_string_count :: u32
  js_number_count :: u32
  js_malformed :: bool
  js_duplicate_object_key_risk :: bool
  js_control_character :: bool
  js_depth_budget_exceeded :: bool

definition empty_json :: json_summary where
  "empty_json = \<lparr>js_max_depth = 0, js_string_count = 0, js_number_count = 0, js_malformed = False,
     js_duplicate_object_key_risk = False, js_control_character = False, js_depth_budget_exceeded = False\<rparr>"

text \<open>The loop's variables with the summary.\<close>

record json_state =
  jp_summary :: json_summary
  jp_depth :: u32
  jp_in_string :: bool
  jp_escaped :: bool
  jp_expecting_key :: bool
  jp_key_has_colon :: bool

definition is_json_digit :: "u8 \<Rightarrow> bool" where
  "is_json_digit c \<longleftrightarrow> 0x30 \<le> c \<and> c \<le> 0x39"

definition is_json_space :: "u8 \<Rightarrow> bool" where
  "is_json_space c \<longleftrightarrow> c = 0x20 \<or> 0x09 \<le> c \<and> c \<le> 0x0d"

text \<open>Letters of the literals and the signs of numbers, which are passed over.\<close>

definition is_json_filler :: "u8 \<Rightarrow> bool" where
  "is_json_filler c \<longleftrightarrow> is_json_space c \<or> c \<in> set (bytes_of ''-.tfnrueals'')"

definition json_in_string :: "u8 \<Rightarrow> json_state \<Rightarrow> json_state" where
  "json_in_string c s =
     (if jp_escaped s then s\<lparr>jp_escaped := False\<rparr>
      else if c = 0x5c then s\<lparr>jp_escaped := True\<rparr>
      else if c = 0x22
      then let s = s\<lparr>jp_in_string := False, jp_summary := jp_summary s\<lparr>js_string_count := js_string_count (jp_summary s) + 1\<rparr>\<rparr> in
           if jp_expecting_key s \<and> \<not> jp_key_has_colon s then s\<lparr>jp_key_has_colon := True\<rparr> else s
      else if c < 0x20 then s\<lparr>jp_summary := jp_summary s\<lparr>js_control_character := True, js_malformed := True\<rparr>\<rparr>
      else s)"

text \<open>\<open>(s, True)\<close> is the early return of the loop.\<close>

definition json_open :: "u32 \<Rightarrow> u8 \<Rightarrow> json_state \<Rightarrow> json_state \<times> bool" where
  "json_open budget c s =
     (let s = s\<lparr>jp_depth := jp_depth s + 1\<rparr>;
          s = (if jp_depth s > js_max_depth (jp_summary s)
               then s\<lparr>jp_summary := jp_summary s\<lparr>js_max_depth := jp_depth s\<rparr>\<rparr> else s) in
      if jp_depth s > budget
      then (s\<lparr>jp_summary := jp_summary s\<lparr>js_depth_budget_exceeded := True, js_malformed := True\<rparr>\<rparr>, True)
      else (s\<lparr>jp_expecting_key := (c = 0x7b), jp_key_has_colon := False\<rparr>, False))"

definition json_close :: "json_state \<Rightarrow> json_state \<times> bool" where
  "json_close s =
     (if jp_depth s = 0 then (s\<lparr>jp_summary := jp_summary s\<lparr>js_malformed := True\<rparr>\<rparr>, True)
      else (s\<lparr>jp_depth := jp_depth s - 1, jp_expecting_key := False, jp_key_has_colon := False\<rparr>, False))"

definition json_step :: "u32 \<Rightarrow> u8 \<Rightarrow> json_state \<Rightarrow> json_state \<times> bool" where
  "json_step budget c s =
     (if jp_in_string s then (json_in_string c s, False)
      else if c = 0x22 then (s\<lparr>jp_in_string := True\<rparr>, False)
      else if c = 0x7b \<or> c = 0x5b then json_open budget c s
      else if c = 0x7d \<or> c = 0x5d then json_close s
      else if c = 0x3a then (s\<lparr>jp_key_has_colon := True\<rparr>, False)
      else if c = 0x2c
      then ((if jp_expecting_key s \<and> \<not> jp_key_has_colon s
             then s\<lparr>jp_summary := jp_summary s\<lparr>js_duplicate_object_key_risk := True\<rparr>\<rparr> else s)\<lparr>jp_key_has_colon := False\<rparr>, False)
      else if is_json_digit c
      then (s\<lparr>jp_summary := jp_summary s\<lparr>js_number_count := js_number_count (jp_summary s) + 1\<rparr>\<rparr>, False)
      else if is_json_filler c then (s, False)
      else (s\<lparr>jp_summary := jp_summary s\<lparr>js_malformed := True\<rparr>\<rparr>, True))"

fun json_loop :: "u32 \<Rightarrow> bytes \<Rightarrow> json_state \<Rightarrow> json_summary" where
  "json_loop budget [] s =
     (if jp_in_string s \<or> jp_depth s \<noteq> 0 then (jp_summary s)\<lparr>js_malformed := True\<rparr> else jp_summary s)"
| "json_loop budget (c # cs) s =
     (case json_step budget c s of (s, returned) \<Rightarrow> if returned then jp_summary s else json_loop budget cs s)"

definition json_start :: json_state where
  "json_start = \<lparr>jp_summary = empty_json, jp_depth = 0, jp_in_string = False, jp_escaped = False,
     jp_expecting_key = False, jp_key_has_colon = False\<rparr>"

definition json_preflight :: "bytes \<Rightarrow> u32 \<Rightarrow> json_summary result" where
  "json_preflight input depth_budget =
     (if depth_budget = 0 \<or> length input > 1024 * 1024 then Inl St_out_of_budget
      else Inr (json_loop depth_budget input json_start))"

definition json_evidence :: "json_summary \<Rightarrow> evidence" where
  "json_evidence s =
     (let e = no_evidence;
          e = (if js_malformed s then add_reason proto_malformed (e\<lparr>ev_protocol := 70\<rparr>) else e);
          e = (if js_depth_budget_exceeded s then add_reason proto_ambiguous (e\<lparr>ev_hard_rule := 100\<rparr>) else e)
      in if js_duplicate_object_key_risk s \<or> js_max_depth s > 32 then e\<lparr>ev_novelty := 35\<rparr> else e)"

interpretation json_detector: evidence_source json_evidence
  by unfold_locales (simp add: json_evidence_def Let_def evidence_bounds)

section \<open>XML\<close>

record xml_summary =
  xs_max_depth :: u32
  xs_element_count :: u32
  xs_entity_reference_count :: u32
  xs_malformed :: bool
  xs_doctype_seen :: bool
  xs_external_entity_risk :: bool
  xs_entity_expansion_risk :: bool
  xs_depth_budget_exceeded :: bool

definition empty_xml :: xml_summary where
  "empty_xml = \<lparr>xs_max_depth = 0, xs_element_count = 0, xs_entity_reference_count = 0, xs_malformed = False,
     xs_doctype_seen = False, xs_external_entity_risk = False, xs_entity_expansion_risk = False,
     xs_depth_budget_exceeded = False\<rparr>"

text \<open>
  One iteration of the loop over the positions: \<open>Inl\<close> is an early return, \<open>Inr\<close> the next
  position with the depth and the summary.
\<close>

definition xml_step :: "u32 \<Rightarrow> string \<Rightarrow> nat \<Rightarrow> u32 \<Rightarrow> xml_summary \<Rightarrow> xml_summary + nat \<times> u32 \<times> xml_summary" where
  "xml_step budget input i depth s =
     (let s = (if input ! i = CHR ''&'' then s\<lparr>xs_entity_reference_count := xs_entity_reference_count s + 1\<rparr> else s) in
      if input ! i \<noteq> CHR ''<'' then Inr (i + 1, depth, s)
      else if i + 1 \<ge> length input then Inl (s\<lparr>xs_malformed := True\<rparr>)
      else let following = input ! (i + 1) in
           if following = CHR ''?'' \<or> following = CHR ''!'' then Inr (i + 1, depth, s)
           else if following = CHR ''/''
           then if depth = 0 then Inl (s\<lparr>xs_malformed := True\<rparr>) else Inr (i + 1, depth - 1, s)
           else let s = s\<lparr>xs_element_count := xs_element_count s + 1, xs_max_depth := max (xs_max_depth s) (depth + 1)\<rparr> in
                if depth + 1 > budget then Inl (s\<lparr>xs_depth_budget_exceeded := True, xs_malformed := True\<rparr>)
                else (case find_from ''>'' input (i + 1) of
                        None \<Rightarrow> Inl (s\<lparr>xs_malformed := True\<rparr>)
                      | Some close \<Rightarrow> Inr (close + 1, if input ! (close - 1) = CHR ''/'' then depth else depth + 1, s)))"

lemma xml_step_later: "xml_step budget input i depth s = Inr (i', r) \<Longrightarrow> i < i'"
  by (auto simp: xml_step_def Let_def dest!: find_from_bound split: if_splits option.splits)

function xml_loop :: "u32 \<Rightarrow> string \<Rightarrow> nat \<Rightarrow> u32 \<Rightarrow> xml_summary \<Rightarrow> xml_summary + xml_summary \<times> u32" where
  "xml_loop budget input i depth s =
     (if i < length input
      then (case xml_step budget input i depth s of
              Inl s \<Rightarrow> Inl s
            | Inr (i, depth, s) \<Rightarrow> xml_loop budget input i depth s)
      else Inr (s, depth))"
  by pat_completeness auto
termination
  by (relation "measure (\<lambda>(budget, input, i, depth, s). length input - i)") (auto dest!: xml_step_later)

declare xml_loop.simps [simp del]

definition xml_preflight :: "string \<Rightarrow> u32 \<Rightarrow> xml_summary result" where
  "xml_preflight input depth_budget =
     (if depth_budget = 0 \<or> length input > 2 * 1024 * 1024 then Inl St_out_of_budget
      else let lower = lower_copy input;
               s = empty_xml\<lparr>xs_doctype_seen := contains lower ''<!doctype'',
                     xs_external_entity_risk := contains lower ''system'' \<or> contains lower ''public''\<rparr> in
           Inr (case xml_loop depth_budget input 0 0 s of
                  Inl s \<Rightarrow> s
                | Inr (s, depth) \<Rightarrow>
                    let s = s\<lparr>xs_entity_expansion_risk := xs_doctype_seen s \<and> xs_entity_reference_count s > 16\<rparr> in
                    if depth \<noteq> 0 then s\<lparr>xs_malformed := True\<rparr> else s))"

definition xml_evidence :: "xml_summary \<Rightarrow> evidence" where
  "xml_evidence s =
     (let e = no_evidence;
          e = (if xs_malformed s then add_reason proto_malformed (e\<lparr>ev_protocol := 70\<rparr>) else e);
          e = (if xs_entity_expansion_risk s \<or> xs_external_entity_risk s
               then add_reason xml_entity_expansion (e\<lparr>ev_hard_rule := 100\<rparr>) else e)
      in if xs_depth_budget_exceeded s then add_reason proto_ambiguous e else e)"

interpretation xml_detector: evidence_source xml_evidence
  by unfold_locales (simp add: xml_evidence_def Let_def evidence_bounds)

section \<open>PDF\<close>

record pdf_summary =
  pd_object_count :: u32
  pd_malformed :: bool
  pd_javascript :: bool
  pd_launch_action :: bool
  pd_embedded_file :: bool
  pd_open_action :: bool
  pd_xref_missing :: bool
  pd_eof_missing :: bool

definition empty_pdf :: pdf_summary where
  "empty_pdf = \<lparr>pd_object_count = 0, pd_malformed = False, pd_javascript = False, pd_launch_action = False,
     pd_embedded_file = False, pd_open_action = False, pd_xref_missing = False, pd_eof_missing = False\<rparr>"

function count_objects :: "string \<Rightarrow> nat \<Rightarrow> u32 \<Rightarrow> u32" where
  "count_objects text pos n =
     (case find_from '' obj'' text pos of
        None \<Rightarrow> n
      | Some at \<Rightarrow> count_objects text (at + 4) (n + 1))"
  by pat_completeness auto
termination
  by (relation "measure (\<lambda>(text, pos, n). length text - pos)") (auto dest!: find_from_bound)

declare count_objects.simps [simp del]

definition pdf_preflight :: "bytes \<Rightarrow> pdf_summary result" where
  "pdf_preflight data =
     (if length data < 8 \<or> length data > 256 * 1024 * 1024 then Inl St_malformed_input
      else let text = text_of data in
           if \<not> prefix ''%PDF-'' text then Inr (empty_pdf\<lparr>pd_malformed := True\<rparr>)
           else let n = count_objects text 0 0; eof_missing = \<not> contains text ''%%EOF'' in
                Inr \<lparr>pd_object_count = n, pd_malformed = (n = 0 \<or> eof_missing),
                  pd_javascript = (contains text ''/JavaScript'' \<or> contains text ''/JS''),
                  pd_launch_action = contains text ''/Launch'', pd_embedded_file = contains text ''/EmbeddedFile'',
                  pd_open_action = contains text ''/OpenAction'', pd_xref_missing = (\<not> contains text ''xref''),
                  pd_eof_missing = eof_missing\<rparr>)"

definition pdf_evidence :: "pdf_summary \<Rightarrow> evidence" where
  "pdf_evidence s =
     (let e = no_evidence;
          e = (if pd_malformed s \<or> pd_xref_missing s then add_reason proto_malformed (e\<lparr>ev_protocol := 60\<rparr>) else e)
      in if pd_javascript s \<or> pd_launch_action s \<or> pd_embedded_file s \<or> pd_open_action s
         then add_reason (document_active_content OR consequence_detected)
                (e\<lparr>ev_consequence := clipped_score (ucast (ev_consequence e) + 80)\<rparr>)
         else e)"

interpretation pdf_detector: evidence_source pdf_evidence
  by unfold_locales (simp add: pdf_evidence_def Let_def evidence_bounds)

section \<open>WAVE\<close>

record wave_summary =
  ws_chunk_count :: u32
  ws_malformed :: bool
  ws_format_present :: bool
  ws_audio_data_present :: bool
  ws_suspicious_metadata :: bool

definition empty_wave :: wave_summary where
  "empty_wave = \<lparr>ws_chunk_count = 0, ws_malformed = False, ws_format_present = False, ws_audio_data_present = False,
     ws_suspicious_metadata = False\<rparr>"

definition tag_is :: "bytes \<Rightarrow> nat \<Rightarrow> string \<Rightarrow> bool" where
  "tag_is data off tag \<longleftrightarrow> off \<le> length data \<and> length tag \<le> length data - off \<and>
     take (length tag) (drop off data) = bytes_of tag"

definition metadata_byte :: "u8 \<Rightarrow> u8" where
  "metadata_byte c = (if 0x20 \<le> c \<and> c \<le> 0x7e then (if 0x41 \<le> c \<and> c \<le> 0x5a then c + 0x20 else c) else 0x20)"

definition launch_tokens :: "string list" where
  "launch_tokens = [''cmd.exe'', ''powershell'', ''pwsh'', ''curl.exe'', ''wget.exe'', ''mshta'', ''rundll32'',
     ''regsvr32'', ''wscript'', ''cscript'', ''certutil'', ''bitsadmin'']"

definition command_bearing_metadata :: "bytes \<Rightarrow> bool" where
  "command_bearing_metadata payload \<longleftrightarrow>
     (let text = map metadata_byte (take (1024 * 1024) payload) in list_ex (\<lambda>t. contains text (bytes_of t)) launch_tokens)"

definition has_wave_signature :: "bytes \<Rightarrow> bool" where
  "has_wave_signature data \<longleftrightarrow> length data \<ge> 12 \<and> tag_is data 0 ''RIFF'' \<and> tag_is data 8 ''WAVE''"

text \<open>What a chunk with the given tag bytes and payload adds to the summary.\<close>

definition note_chunk :: "bytes \<Rightarrow> bytes \<Rightarrow> wave_summary \<Rightarrow> wave_summary" where
  "note_chunk tag payload s =
     (let s = s\<lparr>ws_chunk_count := ws_chunk_count s + 1\<rparr> in
      if tag = bytes_of ''fmt ''
      then let s = s\<lparr>ws_format_present := length payload \<ge> 16\<rparr> in
           if \<not> ws_format_present s then s\<lparr>ws_malformed := True\<rparr> else s
      else if tag = bytes_of ''data'' then s\<lparr>ws_audio_data_present := True\<rparr>
      else if tag \<in> set (map bytes_of [''LIST'', ''INFO'', ''ICMT'', ''IART'', ''INAM'', ''ISFT''])
      then s\<lparr>ws_suspicious_metadata := ws_suspicious_metadata s \<or> command_bearing_metadata payload\<rparr>
      else s)"

text \<open>The loop over the chunks; the result is the summary and the offset where it stopped.\<close>

function wave_loop :: "bytes \<Rightarrow> nat \<Rightarrow> nat \<Rightarrow> wave_summary \<Rightarrow> (wave_summary \<times> nat) option" where
  "wave_loop data parse_end off s =
     (if off < parse_end
      then if parse_end - off < 8 then Some (s\<lparr>ws_malformed := True\<rparr>, off)
           else case read_le32 data (off + 4) of
                  None \<Rightarrow> None
                | Some chunk_size \<Rightarrow>
                    let n = unat chunk_size; payload_off = off + 8 in
                    if n > parse_end - payload_off then Some (s\<lparr>ws_malformed := True\<rparr>, off)
                    else let s = note_chunk (take 4 (drop off data)) (take n (drop payload_off data)) s;
                             padded = n + n mod 2 in
                         if payload_off + padded > parse_end then Some (s\<lparr>ws_malformed := True\<rparr>, off)
                         else wave_loop data parse_end (payload_off + padded) s
      else Some (s, off))"
  by pat_completeness auto
termination
  by (relation "measure (\<lambda>(data, parse_end, off, s). parse_end - off)") auto

declare wave_loop.simps [simp del]

definition wave_preflight :: "bytes \<Rightarrow> wave_summary result option" where
  "wave_preflight data =
     (if \<not> has_wave_signature data \<or> length data > 256 * 1024 * 1024 then Some (Inl St_malformed_input)
      else do {
        riff_size \<leftarrow> read_le32 data 4;
        let declared_end = unat riff_size + 8;
        let s = (if declared_end \<noteq> length data \<or> declared_end < 12 then empty_wave\<lparr>ws_malformed := True\<rparr> else empty_wave);
        let parse_end = min declared_end (length data);
        (s, off) \<leftarrow> wave_loop data parse_end 12 s;
        Some (Inr (if \<not> ws_format_present s \<or> \<not> ws_audio_data_present s \<or> off \<noteq> parse_end
                   then s\<lparr>ws_malformed := True\<rparr> else s))
      })"

section \<open>PE images\<close>

record image_summary =
  ps_machine :: u16
  ps_section_count :: u16
  ps_optional_magic :: u16
  ps_size_of_image :: u32
  ps_malformed :: bool
  ps_executable :: bool
  ps_dll :: bool
  ps_driver_like :: bool
  ps_unusual_sections :: bool
  ps_overlay_present :: bool

definition empty_image :: image_summary where
  "empty_image = \<lparr>ps_machine = 0, ps_section_count = 0, ps_optional_magic = 0, ps_size_of_image = 0,
     ps_malformed = False, ps_executable = False, ps_dll = False, ps_driver_like = False,
     ps_unusual_sections = False, ps_overlay_present = False\<rparr>"

abbreviation image_bad :: "image_summary \<Rightarrow> image_summary result option" where
  "image_bad s \<equiv> Some (Inr (s\<lparr>ps_malformed := True\<rparr>))"

text \<open>
  The section headers: \<open>None\<close> within is the early return. The sum of a section's pointer and
  size is the 32-bit sum of the code, which wraps.
\<close>

fun section_loop :: "bytes \<Rightarrow> nat \<Rightarrow> nat \<Rightarrow> u32 \<Rightarrow> u32 option option" where
  "section_loop data sec 0 max_end = Some (Some max_end)"
| "section_loop data sec (Suc n) max_end =
     (if sec + 40 > length data then Some None
      else case (read_le32 data (sec + 16), read_le32 data (sec + 20)) of
             (Some raw_size, Some raw_ptr) \<Rightarrow>
               if raw_size > 0 \<and> unat (raw_ptr + raw_size) > length data then Some None
               else section_loop data (sec + 40) n (if raw_ptr + raw_size > max_end then raw_ptr + raw_size else max_end)
           | _ \<Rightarrow> None)"

definition image_marks :: "u16 \<Rightarrow> image_summary \<Rightarrow> image_summary" where
  "image_marks characteristics s =
     (let s = s\<lparr>ps_executable := characteristics AND 0x0002 \<noteq> 0, ps_dll := characteristics AND 0x2000 \<noteq> 0\<rparr> in
      s\<lparr>ps_driver_like := ps_machine s = 0x8664 \<and> ps_executable s \<and> \<not> ps_dll s \<and> ps_section_count s \<le> 3,
        ps_unusual_sections := ps_section_count s > 32 \<or> ps_size_of_image s = 0\<rparr>)"

definition image_body :: "bytes \<Rightarrow> u32 \<Rightarrow> image_summary result option" where
  "image_body data pe_offset = do {
     machine \<leftarrow> read_le16 data (unat (pe_offset + 4));
     section_count \<leftarrow> read_le16 data (unat (pe_offset + 6));
     optional_size \<leftarrow> read_le16 data (unat (pe_offset + 20));
     characteristics \<leftarrow> read_le16 data (unat (pe_offset + 22));
     let s = empty_image\<lparr>ps_machine := machine, ps_section_count := section_count\<rparr>;
     let optional_offset = pe_offset + 24;
     if optional_size < 0x60 \<or> unat (optional_offset + ucast optional_size) > length data \<or> section_count = 0 \<or> section_count > 96
     then image_bad s
     else do {
       optional_magic \<leftarrow> read_le16 data (unat optional_offset);
       size_of_image \<leftarrow> read_le32 data (unat (optional_offset + 56));
       let s = image_marks characteristics (s\<lparr>ps_optional_magic := optional_magic, ps_size_of_image := size_of_image\<rparr>);
       sections \<leftarrow> section_loop data (unat (optional_offset + ucast optional_size)) (unat section_count) 0;
       (case sections of
         None \<Rightarrow> image_bad s
       | Some max_end \<Rightarrow>
           Some (Inr (s\<lparr>ps_overlay_present := max_end > 0 \<and> unat (max_end + 1024) < length data\<rparr>)))
     }
   }"

definition image_preflight :: "bytes \<Rightarrow> image_summary result option" where
  "image_preflight data =
     (if length data < 0x100 then Some (Inl St_malformed_input)
      else do {
        m \<leftarrow> byte_at data 0;
        z \<leftarrow> byte_at data 1;
        if m \<noteq> 0x4d \<or> z \<noteq> 0x5a then Some (Inl St_malformed_input)
        else do {
          pe_offset \<leftarrow> read_le32 data 0x3c;
          if unat pe_offset > length data \<or> unat (pe_offset + 0x18) > length data then image_bad empty_image
          else do {
            p0 \<leftarrow> byte_at data (unat pe_offset);
            p1 \<leftarrow> byte_at data (unat (pe_offset + 1));
            p2 \<leftarrow> byte_at data (unat (pe_offset + 2));
            p3 \<leftarrow> byte_at data (unat (pe_offset + 3));
            if p0 \<noteq> 0x50 \<or> p1 \<noteq> 0x45 \<or> p2 \<noteq> 0 \<or> p3 \<noteq> 0 then image_bad empty_image
            else image_body data pe_offset
          }
        }
      })"

definition image_evidence :: "image_summary \<Rightarrow> evidence" where
  "image_evidence s =
     (let e = no_evidence;
          e = (if ps_malformed s then add_reason proto_malformed (e\<lparr>ev_protocol := 80\<rparr>) else e);
          e = (if ps_executable s \<or> ps_dll s \<or> ps_driver_like s
               then add_reason external_exec_pending (e\<lparr>ev_consequence := clipped_score (ucast (ev_consequence e) + 70)\<rparr>) else e)
      in if ps_unusual_sections s \<or> ps_overlay_present s
         then add_reason executable_format_anomaly (e\<lparr>ev_novelty := clipped_score (ucast (ev_novelty e) + 40)\<rparr>) else e)"

interpretation image_detector: evidence_source image_evidence
  by unfold_locales (simp add: image_evidence_def Let_def evidence_bounds)

section \<open>What the JSON pass accepts\<close>

text \<open>The characters outside strings, and that every string is closed and free of control characters.\<close>

fun outside_strings :: "bool \<Rightarrow> bool \<Rightarrow> bytes \<Rightarrow> bytes" where
  "outside_strings in_string escaped [] = []"
| "outside_strings in_string escaped (c # cs) =
     (if in_string
      then outside_strings (escaped \<or> c \<noteq> 0x22) (\<not> escaped \<and> c = 0x5c) cs
      else if c = 0x22 then outside_strings True escaped cs
      else c # outside_strings False escaped cs)"

fun strings_ok :: "bool \<Rightarrow> bool \<Rightarrow> bytes \<Rightarrow> bool" where
  "strings_ok in_string escaped [] = (\<not> in_string)"
| "strings_ok in_string escaped (c # cs) =
     (if in_string
      then (escaped \<or> c \<ge> 0x20) \<and> strings_ok (escaped \<or> c \<noteq> 0x22) (\<not> escaped \<and> c = 0x5c) cs
      else strings_ok (c = 0x22) escaped cs)"

fun levels_return :: "nat \<Rightarrow> nat \<Rightarrow> bytes \<Rightarrow> bool" where
  "levels_return budget d [] = (d = 0)"
| "levels_return budget d (c # cs) =
     (if c = 0x7b \<or> c = 0x5b then d + 1 \<le> budget \<and> levels_return budget (d + 1) cs
      else if c = 0x7d \<or> c = 0x5d then d > 0 \<and> levels_return budget (d - 1) cs
      else (c = 0x3a \<or> c = 0x2c \<or> is_json_digit c \<or> is_json_filler c) \<and> levels_return budget d cs)"

lemma json_step_malformed:
  "js_malformed (jp_summary s) \<Longrightarrow> js_malformed (jp_summary (fst (json_step budget c s)))"
  by (auto simp: json_step_def json_in_string_def json_open_def json_close_def Let_def)

lemma json_loop_malformed: "js_malformed (jp_summary s) \<Longrightarrow> js_malformed (json_loop budget cs s)"
proof (induction cs arbitrary: s)
  case (Cons c cs)
  then show ?case using json_step_malformed [OF Cons.prems, of budget c] by (auto split: prod.splits)
qed simp

lemma json_in_string_step:
  assumes "jp_in_string s"
  shows "jp_in_string (json_in_string c s) = (jp_escaped s \<or> c \<noteq> 0x22)"
    "jp_escaped (json_in_string c s) = (\<not> jp_escaped s \<and> c = 0x5c)"
    "jp_depth (json_in_string c s) = jp_depth s"
    "js_malformed (jp_summary (json_in_string c s)) = (js_malformed (jp_summary s) \<or> \<not> (jp_escaped s \<or> c \<ge> 0x20))"
  using assms by (auto simp: json_in_string_def Let_def not_le)

lemma word_succ_le: "unat d + 1 < 2 ^ 32 \<Longrightarrow> d + 1 > b \<longleftrightarrow> \<not> unat d + 1 \<le> unat (b :: u32)"
  by (simp add: word_less_nat_alt unat_plus_if' not_le)

lemma json_loop_exact:
  "unat (jp_depth s) + length cs < 2 ^ 32 \<Longrightarrow> \<not> js_malformed (jp_summary s) \<Longrightarrow>
     \<not> js_malformed (json_loop budget cs s) \<longleftrightarrow>
       strings_ok (jp_in_string s) (jp_escaped s) cs \<and>
       levels_return (unat budget) (unat (jp_depth s)) (outside_strings (jp_in_string s) (jp_escaped s) cs)"
proof (induction cs arbitrary: s)
  case Nil
  then show ?case by (simp add: unat_eq_0)
next
  case (Cons c cs)
  note depth = word_succ_le [of "jp_depth s" budget]
  show ?case
  proof (cases "jp_in_string s")
    case True
    note step = json_in_string_step [OF True, of c]
    show ?thesis
    proof (cases "jp_escaped s \<or> c \<ge> 0x20")
      case ok: True
      then show ?thesis
        using True Cons.IH [of "json_in_string c s"] Cons.prems step by (simp add: json_step_def)
    next
      case False
      then have "js_malformed (json_loop budget cs (json_in_string c s))"
        using json_loop_malformed [of "json_in_string c s" budget cs] step(4) by simp
      then show ?thesis using True False by (simp add: json_step_def)
    qed
  next
    case outside: False
    consider (quote) "c = 0x22" | (opens) "c = 0x7b \<or> c = 0x5b" "c \<noteq> 0x22"
      | (closes) "c = 0x7d \<or> c = 0x5d" "\<not> (c = 0x7b \<or> c = 0x5b)" "c \<noteq> 0x22"
      | (other) "c \<noteq> 0x22" "\<not> (c = 0x7b \<or> c = 0x5b)" "\<not> (c = 0x7d \<or> c = 0x5d)" by blast
    then show ?thesis
    proof cases
      case quote
      then show ?thesis using outside Cons.IH [of "s\<lparr>jp_in_string := True\<rparr>"] Cons.prems by (simp add: json_step_def)
    next
      case opens
      let ?s = "fst (json_open budget c s)"
      have d: "unat (jp_depth s + 1) = unat (jp_depth s) + 1" using Cons.prems by (simp add: unat_plus_if')
      show ?thesis
      proof (cases "jp_depth s + 1 > budget")
        case True
        then have "js_malformed (json_loop budget (c # cs) s)"
          using opens outside by (auto simp: json_step_def json_open_def Let_def)
        then show ?thesis using True depth Cons.prems opens outside by simp
      next
        case False
        then have "json_step budget c s = (?s, False)" "jp_depth ?s = jp_depth s + 1" "jp_in_string ?s = False"
          "jp_escaped ?s = jp_escaped s" "js_malformed (jp_summary ?s) = js_malformed (jp_summary s)"
          using opens outside by (simp_all add: json_step_def json_open_def Let_def)
        then show ?thesis using Cons.IH [of ?s] Cons.prems False depth opens outside d by simp
      qed
    next
      case closes
      let ?s = "fst (json_close s)"
      show ?thesis
      proof (cases "jp_depth s = 0")
        case True
        then show ?thesis using closes outside by (auto simp: json_step_def json_close_def)
      next
        case False
        then have "unat (jp_depth s - 1) = unat (jp_depth s) - 1" "unat (jp_depth s) > 0"
          by (simp_all add: unat_minus_one unat_gt_0)
        moreover have "json_step budget c s = (?s, False)" "jp_depth ?s = jp_depth s - 1" "jp_in_string ?s = False"
          "jp_escaped ?s = jp_escaped s" "js_malformed (jp_summary ?s) = js_malformed (jp_summary s)"
          using False closes outside by (simp_all add: json_step_def json_close_def)
        ultimately show ?thesis using Cons.IH [of ?s] Cons.prems closes outside by simp
      qed
    next
      case other
      show ?thesis
      proof (cases "c = 0x3a \<or> c = 0x2c \<or> is_json_digit c \<or> is_json_filler c")
        case True
        obtain s' r where step: "json_step budget c s = (s', r)" by (cases "json_step budget c s")
        then have "\<not> r" "jp_depth s' = jp_depth s" "jp_in_string s' = False" "jp_escaped s' = jp_escaped s"
          "js_malformed (jp_summary s') = js_malformed (jp_summary s)"
          using True other outside by (auto simp: json_step_def split: if_splits)
        then show ?thesis using step Cons.IH [of s'] Cons.prems other outside True by simp
      next
        case False
        then show ?thesis using other outside by (simp add: json_step_def)
      qed
    qed
  qed
qed

text \<open>
  Properly nested brackets: a brace closes a brace and a square bracket a square bracket. The
  pass does not tell the two kinds apart; nesting within the depth budget is enough for it,
  and not needed.
\<close>

definition json_plain :: "u8 \<Rightarrow> bool" where
  "json_plain c \<longleftrightarrow> c = 0x3a \<or> c = 0x2c \<or> is_json_digit c \<or> is_json_filler c"

inductive nested :: "nat \<Rightarrow> bytes \<Rightarrow> bool" where
  nested_nil: "nested n []"
| nested_plain: "nested n (c # cs)" if "json_plain c" "nested n cs"
| nested_object: "nested (Suc n) (0x7b # xs @ 0x7d # ys)" if "nested n xs" "nested (Suc n) ys"
| nested_array: "nested (Suc n) (0x5b # xs @ 0x5d # ys)" if "nested n xs" "nested (Suc n) ys"

lemma json_plain_no_bracket: "json_plain c \<Longrightarrow> c \<noteq> 0x7b \<and> c \<noteq> 0x5b \<and> c \<noteq> 0x7d \<and> c \<noteq> 0x5d"
  by (auto simp: json_plain_def is_json_digit_def is_json_filler_def is_json_space_def bytes_of_def)

lemma nested_levels_append:
  "nested n xs \<Longrightarrow> d + n \<le> budget \<Longrightarrow> levels_return budget d (xs @ ys) = levels_return budget d ys"
proof (induction arbitrary: d ys rule: nested.induct)
  case (nested_plain c n cs)
  then show ?case using json_plain_no_bracket [of c] by (simp add: json_plain_def)
qed simp_all

lemma nested_levels: "nested budget xs \<Longrightarrow> levels_return budget 0 xs"
  using nested_levels_append [of budget xs 0 budget "[]"] by simp

text \<open>
  C38: a JSON text within the size limit passes as well formed exactly when every string is
  closed and has no bare control character, and outside strings only brackets, colons,
  commas, digits, blanks, minus signs, points and the letters of true, false and null stand,
  where an opening bracket raises the depth by one, never beyond the budget, a closing one
  lowers it, never below zero, and the text ends at depth zero. Which kind of bracket closes
  which does not matter. Texts whose brackets are properly nested within the budget pass.
\<close>

theorem json_accepts_iff_levels:
  assumes "json_preflight input budget = Inr s"
  shows "(\<not> js_malformed s \<longleftrightarrow>
       strings_ok False False input \<and> levels_return (unat budget) 0 (outside_strings False False input)) \<and>
     (if strings_ok False False input \<and> nested (unat budget) (outside_strings False False input)
      then \<not> js_malformed s else True)"
proof -
  have "length input \<le> 1024 * 1024" "s = json_loop budget input json_start"
    using assms by (auto simp: json_preflight_def split: if_splits)
  then show ?thesis
    using json_loop_exact [of json_start input budget] nested_levels [of "unat budget" "outside_strings False False input"]
    by (simp add: json_start_def empty_json_def)
qed

theorem json_accepts_iff_levels_witness:
  "\<exists>s. json_preflight (bytes_of ''[{:[]}]'') 3 = Inr s \<and> \<not> js_malformed s"
proof -
  have run: "json_preflight (bytes_of ''[{:[]}]'') 3 = Inr (json_loop 3 (bytes_of ''[{:[]}]'') json_start)"
    by (simp add: json_preflight_def)
  have "strings_ok False False (bytes_of ''[{:[]}]'')" "levels_return 3 0 (outside_strings False False (bytes_of ''[{:[]}]''))"
    by code_simp+
  then show ?thesis using json_accepts_iff_levels [OF run] run by simp
qed

text \<open>A square bracket closed by a brace passes, though no properly nested text looks like that.\<close>

lemma json_mixed_brackets_pass:
  "strings_ok False False (bytes_of ''[}'')" "levels_return 1 0 (outside_strings False False (bytes_of ''[}''))"
  by code_simp+

inductive_cases nested_array_cases: "nested n (0x5b # cs)"

lemma mixed_brackets_not_nested: "\<not> nested n [0x5b, 0x7d]"
  by (auto elim!: nested_array_cases simp: Cons_eq_append_conv dest: json_plain_no_bracket)

text \<open>A number with a capital exponent or an explicit positive exponent is not among the accepted texts.\<close>

lemma json_exponent_refused:
  "\<not> levels_return 64 0 (outside_strings False False (bytes_of ''1E5''))"
  "\<not> levels_return 64 0 (outside_strings False False (bytes_of ''1e+5''))"
  by code_simp+

section \<open>WAVE chunks\<close>

lemma in_bounds_wave_loop: "parse_end \<le> length data \<Longrightarrow> in_bounds (wave_loop data parse_end off s)"
proof (induction data parse_end off s rule: wave_loop.induct)
  case (1 data parse_end off s)
  show ?case
  proof (cases "off < parse_end \<and> \<not> parse_end - off < 8")
    case True
    then have "in_bounds (read_le32 data (off + 4))" using "1.prems" by (intro safe_intros) auto
    then obtain n where "read_le32 data (off + 4) = Some n" by (rule in_bounds_cases)
    then show ?thesis using 1 True by (subst wave_loop.simps) (simp add: Let_def)
  qed (subst wave_loop.simps, auto)
qed

lemma wave_preflight_safe: "in_bounds (wave_preflight data)"
  unfolding wave_preflight_def Let_def
  by (intro safe_intros in_bounds_wave_loop) (auto simp: has_wave_signature_def)

text \<open>A chunk on the wire: tag, size, payload and a pad byte after an odd payload.\<close>

definition chunk_bytes :: "bytes \<times> bytes \<Rightarrow> bytes" where
  "chunk_bytes c = (case c of (tag, payload) \<Rightarrow>
     tag @ le32 (of_nat (length payload)) @ payload @ (if odd (length payload) then [0] else []))"

definition chunks_bytes :: "(bytes \<times> bytes) list \<Rightarrow> bytes" where
  "chunks_bytes cs = concat (map chunk_bytes cs)"

definition wave_file :: "(bytes \<times> bytes) list \<Rightarrow> bytes" where
  "wave_file cs = bytes_of ''RIFF'' @ le32 (of_nat (length (chunks_bytes cs) + 4)) @ bytes_of ''WAVE'' @ chunks_bytes cs"

lemma read_le32_at: "read_le32 (pre @ le32 v @ post) (length pre) = Some v"
proof -
  have four: "le32 v = [ucast v, ucast (drop_bit 8 v), ucast (drop_bit 16 v), ucast (drop_bit 24 v)]"
  proof -
    have "[0..<4] = [0, 1, 2, 3 :: nat]" by code_simp
    then show ?thesis by (simp add: le_bytes_def)
  qed
  have "(ucast (ucast v :: u8) OR push_bit 8 (ucast (ucast (drop_bit 8 v) :: u8)) OR
      push_bit 16 (ucast (ucast (drop_bit 16 v) :: u8)) OR push_bit 24 (ucast (ucast (drop_bit 24 v) :: u8)) :: u32) = v"
  proof (rule bit_word_eqI)
    fix k assume k: "k < LENGTH(32)"
    consider "k < 8" | "8 \<le> k" "k < 16" | "16 \<le> k" "k < 24" | "24 \<le> k" by linarith
    then show "bit (ucast (ucast v :: u8) OR push_bit 8 (ucast (ucast (drop_bit 8 v) :: u8)) OR
        push_bit 16 (ucast (ucast (drop_bit 16 v) :: u8)) OR push_bit 24 (ucast (ucast (drop_bit 24 v) :: u8)) :: u32) k \<longleftrightarrow> bit v k"
      using k by cases (auto simp: bit_or_iff bit_push_bit_iff bit_ucast_iff bit_drop_bit_eq)
  qed
  then show ?thesis by (simp add: four read_le32_def byte_at_def nth_append)
qed

lemma wave_loop_chunks:
  "list_all (\<lambda>(tag, payload). length tag = 4) cs \<Longrightarrow> length (chunks_bytes cs) < 2 ^ 32 \<Longrightarrow>
     wave_loop (pre @ chunks_bytes cs) (length (pre @ chunks_bytes cs)) (length pre) s =
       Some (fold (\<lambda>(tag, payload). note_chunk tag payload) cs s, length (pre @ chunks_bytes cs))"
proof (induction cs arbitrary: pre s)
  case Nil
  then show ?case by (subst wave_loop.simps) (simp add: chunks_bytes_def)
next
  case (Cons c cs)
  obtain tag payload where c: "c = (tag, payload)" by (cases c)
  let ?pad = "if odd (length payload) then [0 :: u8] else []"
  let ?data = "pre @ tag @ le32 (of_nat (length payload)) @ payload @ ?pad @ chunks_bytes cs"
  have tag: "length tag = 4" using Cons.prems c by simp
  have n: "unat (of_nat (length payload) :: u32) = length payload"
    using Cons.prems c by (simp add: chunks_bytes_def chunk_bytes_def unat_of_nat)
  have read: "read_le32 ?data (length pre + 4) = Some (of_nat (length payload))"
    using read_le32_at [of "pre @ tag" "of_nat (length payload)" "payload @ ?pad @ chunks_bytes cs"] tag by simp
  have pad: "length payload + length payload mod 2 = length (payload @ ?pad)" by (auto simp: odd_iff_mod_2_eq_one)
  have "wave_loop ?data (length ?data) (length pre) s =
      wave_loop ?data (length ?data) (length pre + 8 + length (payload @ ?pad)) (note_chunk tag payload s)"
    using read n tag pad by (subst wave_loop.simps) (simp add: Let_def)
  also have "\<dots> = wave_loop ((pre @ chunk_bytes c) @ chunks_bytes cs) (length ((pre @ chunk_bytes c) @ chunks_bytes cs))
      (length (pre @ chunk_bytes c)) (note_chunk tag payload s)"
    using tag by (simp add: c chunk_bytes_def add.commute add.left_commute)
  finally show ?case
    using Cons.IH [of "pre @ chunk_bytes c" "note_chunk tag payload s"] Cons.prems
    by (simp add: c chunks_bytes_def chunk_bytes_def)
qed

text \<open>
  C39: a WAVE file written as a RIFF header and a sequence of chunks, padded where their length
  is odd, is read as exactly these chunks if it has at most 256 MiB, and is called malformed
  only for a chunk rule: a short format chunk, or no format or no data chunk. A larger one is refused
  as malformed without being read.
\<close>

theorem wave_reads_chunks:
  assumes "list_all (\<lambda>(tag, payload). length tag = 4) cs"
  shows "wave_preflight (wave_file cs) =
    (if length (wave_file cs) > 256 * 1024 * 1024 then Some (Inl St_malformed_input)
     else let s = fold (\<lambda>(tag, payload). note_chunk tag payload) cs empty_wave in
     Some (Inr (if ws_format_present s \<and> ws_audio_data_present s then s else s\<lparr>ws_malformed := True\<rparr>)))"
proof (cases "length (wave_file cs) > 256 * 1024 * 1024")
  case True
  then show ?thesis by (simp add: wave_preflight_def)
next
  case False
  have small: "length (chunks_bytes cs) + 12 \<le> 256 * 1024 * 1024"
    using False by (simp add: wave_file_def)
  let ?size = "of_nat (length (chunks_bytes cs) + 4) :: u32"
  have n: "unat ?size = length (chunks_bytes cs) + 4" using small by (simp only: unat_of_nat) simp
  have len: "length (wave_file cs) = length (chunks_bytes cs) + 12" by (simp add: wave_file_def)
  have sig: "has_wave_signature (wave_file cs)"
    by (simp add: has_wave_signature_def len tag_is_def) (simp add: wave_file_def)
  have riff: "length (bytes_of ''RIFF'') = 4" by simp
  have read: "read_le32 (wave_file cs) 4 = Some ?size"
    using read_le32_at [of "bytes_of ''RIFF''" ?size "bytes_of ''WAVE'' @ chunks_bytes cs"]
    by (simp only: wave_file_def riff)
  have loop: "wave_loop (wave_file cs) (length (wave_file cs)) 12 empty_wave =
      Some (fold (\<lambda>(tag, payload). note_chunk tag payload) cs empty_wave, length (wave_file cs))"
    using wave_loop_chunks [OF assms, of "bytes_of ''RIFF'' @ le32 ?size @ bytes_of ''WAVE''" empty_wave] small
    by (simp add: wave_file_def)
  have bounds: "\<not> length (wave_file cs) > 256 * 1024 * 1024" "unat ?size + 8 = length (wave_file cs)"
    "\<not> length (wave_file cs) < 12" using small n by (simp_all only: len)
  show ?thesis
    unfolding wave_preflight_def Let_def using sig read loop bounds False by (simp del: of_nat_add)
qed

theorem wave_reads_chunks_witness:
  "wave_preflight (wave_file [(bytes_of ''fmt '', replicate 16 0), (bytes_of ''data'', [1, 2, 3])]) =
     Some (Inr \<lparr>ws_chunk_count = 2, ws_malformed = False, ws_format_present = True, ws_audio_data_present = True,
       ws_suspicious_metadata = False\<rparr>)"
proof -
  let ?cs = "[(bytes_of ''fmt '', replicate 16 0), (bytes_of ''data'', [1, 2, 3])]"
  have "length (chunks_bytes ?cs) = 36" by (simp add: chunks_bytes_def chunk_bytes_def)
  moreover have "fold (\<lambda>(tag, payload). note_chunk tag payload) ?cs empty_wave =
      \<lparr>ws_chunk_count = 2, ws_malformed = False, ws_format_present = True, ws_audio_data_present = True,
       ws_suspicious_metadata = False\<rparr>"
    by code_simp
  ultimately show ?thesis using wave_reads_chunks [of ?cs] by (simp add: Let_def wave_file_def)
qed

section \<open>PE images stay in bounds\<close>

lemma section_loop_safe [safe_intros]: "in_bounds (section_loop data sec n max_end)"
proof (induction n arbitrary: sec max_end)
  case (Suc n)
  show ?case
  proof (cases "sec + 40 > length data")
    case False
    then have "in_bounds (read_le32 data (sec + 16))" "in_bounds (read_le32 data (sec + 20))" by (auto intro!: safe_intros)
    then show ?thesis using Suc.IH by (auto elim!: in_bounds_cases simp: False)
  qed simp
qed simp

lemma unat_offset: "unat a < 2 ^ 31 \<Longrightarrow> unat b < 2 ^ 31 \<Longrightarrow> unat (a + b :: u32) = unat a + unat b"
  by (simp add: unat_plus_if')

lemma image_body_safe:
  assumes "length data < 2 ^ 31" "unat pe_offset + 24 \<le> length data"
  shows "in_bounds (image_body data pe_offset)"
proof -
  have small: "unat (k :: u32) < 2 ^ 31 \<Longrightarrow> unat (pe_offset + k) = unat pe_offset + unat k" for k
    using assms by (simp add: unat_offset)
  have fields: "unat (pe_offset + 4) = unat pe_offset + 4" "unat (pe_offset + 6) = unat pe_offset + 6"
    "unat (pe_offset + 20) = unat pe_offset + 20" "unat (pe_offset + 22) = unat pe_offset + 22"
    "unat (pe_offset + 24) = unat pe_offset + 24" by (simp_all add: small)
  have size: "unat (pe_offset + 24 + ucast (n :: u16)) = unat pe_offset + 24 + unat n" for n
    using assms fields(5) unsigned_less [of n, where 'a = nat] by (subst unat_offset) simp_all
  have "unat (pe_offset + 24 + 56) = unat pe_offset + 24 + 56"
    using assms fields(5) by (subst unat_offset) simp_all
  then have body: "unat (pe_offset + 80) = unat pe_offset + 80" by (simp add: add.assoc)
  have big: "96 \<le> unat n" if "\<not> n < (0x60 :: u16)" for n using that by (simp add: word_less_nat_alt)
  show ?thesis
    unfolding image_body_def Let_def
    by (intro safe_intros) (use assms fields size body big in \<open>fastforce simp: add.assoc\<close>)+
qed

text \<open>
  The PE preflight reads no byte outside an image shorter than 2 GiB, whatever offsets
  and sizes its headers declare, and returns.
\<close>

theorem image_preflight_safe:
  assumes "length data < 2 ^ 31"
  shows "image_preflight data \<noteq> None"
proof -
  have off: "unat (pe + k) = unat pe + unat k" if "unat pe \<le> length data" "unat k < 2 ^ 31" for pe k :: u32
    using that assms by (simp add: unat_offset)
  have "in_bounds (image_preflight data)"
    unfolding image_preflight_def Let_def
    by (intro safe_intros image_body_safe assms) (auto simp: off not_less)
  then show ?thesis unfolding in_bounds_def .
qed

theorem image_preflight_safe_witness: "image_preflight (replicate 300 0x4d) \<noteq> None"
  by (rule image_preflight_safe) simp

text \<open>
  A section whose pointer and size add up beyond 32 bits passes the range check although it
  lies far outside the image.
\<close>

lemma section_range_wraps:
  "(0x200 :: u32) > 0 \<and> unat (0xffffff00 + 0x200 :: u32) \<le> 0x400 \<and> unat (0xffffff00 :: u32) + 0x200 > 0x400"
  by simp

section \<open>XML marks\<close>

definition xml_same_risk :: "xml_summary \<Rightarrow> xml_summary \<Rightarrow> bool" where
  "xml_same_risk s t \<longleftrightarrow> xs_external_entity_risk t = xs_external_entity_risk s"

lemma xml_step_risk:
  "case xml_step budget input i depth s of Inl t \<Rightarrow> xml_same_risk s t | Inr (i', d, t) \<Rightarrow> xml_same_risk s t"
  by (simp add: xml_step_def Let_def xml_same_risk_def split: option.split)

lemma xml_loop_risk:
  "case xml_loop budget input i depth s of Inl t \<Rightarrow> xml_same_risk s t | Inr (t, d) \<Rightarrow> xml_same_risk s t"
proof (induction budget input i depth s rule: xml_loop.induct)
  case (1 budget input i depth s)
  show ?case
  proof (cases "i < length input")
    case True
    note risk = xml_step_risk [where budget = budget and input = input and i = i and depth = depth and s = s]
    show ?thesis
    proof (cases "xml_step budget input i depth s")
      case (Inl t)
      then show ?thesis using True risk by (subst xml_loop.simps) simp
    next
      case (Inr r)
      obtain i' d t where r: "r = (i', d, t)" by (cases r)
      have "case xml_loop budget input i' d t of Inl u \<Rightarrow> xml_same_risk t u | Inr (u, d) \<Rightarrow> xml_same_risk t u"
        using "1.IH" True Inr r by blast
      then have "case xml_loop budget input i' d t of Inl u \<Rightarrow> xml_same_risk s u | Inr (u, d) \<Rightarrow> xml_same_risk s u"
        using risk Inr r by (auto simp: xml_same_risk_def split: sum.splits)
      then show ?thesis using True Inr r by (subst xml_loop.simps) simp
    qed
  qed (subst xml_loop.simps, simp add: xml_same_risk_def)
qed

text \<open>
  Any document in which the word system or public occurs, in whatever letter case and
  without any document type declaration, is marked for external entities.
\<close>

lemma xml_external_mark:
  assumes "xml_preflight input budget = Inr s"
  shows "xs_external_entity_risk s \<longleftrightarrow> contains (lower_copy input) ''system'' \<or> contains (lower_copy input) ''public''"
proof -
  let ?s = "empty_xml\<lparr>xs_doctype_seen := contains (lower_copy input) ''<!doctype'',
      xs_external_entity_risk := contains (lower_copy input) ''system'' \<or> contains (lower_copy input) ''public''\<rparr>"
  show ?thesis
  proof (cases "xml_loop budget input 0 0 ?s")
    case (Inl t)
    then show ?thesis
      using assms xml_loop_risk [where budget = budget and input = input and i = 0 and depth = 0 and s = ?s]
      by (simp add: xml_preflight_def Let_def xml_same_risk_def split: if_splits)
  next
    case (Inr r)
    obtain t d where "r = (t, d)" by (cases r)
    then show ?thesis
      using assms xml_loop_risk [where budget = budget and input = input and i = 0 and depth = 0 and s = ?s] Inr
      by (auto simp: xml_preflight_def Let_def xml_same_risk_def split: if_splits)
  qed
qed

end
