(* ===== verification/AIS_Replay.thy ===== *)
theory AIS_Replay
  imports AIS_Audit AIS_Trace AIS_Http AIS_Gates AIS_Net AIS_Codec
begin

text \<open>
  \<open>src/replay.cpp\<close>: recorded scenarios are run through the whole product. \<open>execute\<close> puts
  the components of the other theories together: the detectors over the payload, the
  protocol parser the hint selects, the signature rule, the decision, one audit record and
  the causal graph of flow and process. \<open>parse_and_execute\<close> reads a log of events with a
  state machine (or the older flat format) and executes the scenario it describes.
\<close>

section \<open>Scenarios and results\<close>

datatype event_kind =
    EK_flow_open | EK_flow_data | EK_service_identity | EK_protocol_hint | EK_process_evidence
  | EK_file_evidence | EK_flow_close | EK_correlation_context

datatype protocol_hint = PH_unknown | PH_http1 | PH_http2

record scenario =
  sc_flow_id :: u64
  sc_service_id :: u64
  sc_policy_version :: u64
  sc_critical_service :: bool
  sc_payload :: bytes
  sc_protocol_hint :: protocol_hint
  sc_service_identity_verified :: bool
  sc_file_external :: bool
  sc_process :: process_evidence
  sc_correlation :: corr_context

record replay_result =
  rr_decision :: shield_decision
  rr_audit_root :: digest
  rr_audit_records :: u64
  rr_causal_nodes :: u64
  rr_causal_edges :: u64
  rr_policy_version :: u64
  rr_audit_verifiable :: bool
  rr_causal_graph_complete :: bool
  rr_correlation :: corr_context

definition no_process :: process_evidence where
  "no_process = \<lparr>pe_parent_process_id = 0, pe_child_process_id = 0, pe_inherited_flow_id = 0,
     pe_parent_external_influenced = False, pe_child_signature = SS_unknown, pe_image_path = [], pe_command_line = []\<rparr>"

definition kMaxReplayPayload :: nat where "kMaxReplayPayload = 1024 * 1024"
definition kMaxReplayEvents :: u64 where "kMaxReplayEvents = 4096"
definition kMaxReplayEventBytes :: u32 where "kMaxReplayEventBytes = 1024 * 1024"

section \<open>Reading\<close>

definition read_u32 :: "bytes \<Rightarrow> nat \<Rightarrow> u32 result \<times> nat" where
  "read_u32 bs off =
     (if off + 4 > length bs then (Inl St_malformed_input, off)
      else (Inr (foldl (\<lambda>v i. v OR push_bit (i * 8) (ucast (bs ! (off + i)))) 0 [0..<4]), off + 4))"

definition read_u64 :: "bytes \<Rightarrow> nat \<Rightarrow> u64 result \<times> nat" where
  "read_u64 bs off =
     (let (low, off) = read_u32 bs off; (high, off) = read_u32 bs off
      in case (low, high) of
           (Inr l, Inr h) \<Rightarrow> (Inr (ucast l OR push_bit 32 (ucast h)), off)
         | _ \<Rightarrow> (Inl St_malformed_input, off))"

definition event_kind_from :: "u32 \<Rightarrow> event_kind result" where
  "event_kind_from v =
     (if v = 1 then Inr EK_flow_open else if v = 2 then Inr EK_flow_data
      else if v = 3 then Inr EK_service_identity else if v = 4 then Inr EK_protocol_hint
      else if v = 5 then Inr EK_process_evidence else if v = 6 then Inr EK_file_evidence
      else if v = 7 then Inr EK_flow_close else if v = 8 then Inr EK_correlation_context
      else Inl St_malformed_input)"

definition protocol_hint_from :: "u32 \<Rightarrow> protocol_hint result" where
  "protocol_hint_from v =
     (if v = 0 then Inr PH_unknown else if v = 1 then Inr PH_http1 else if v = 2 then Inr PH_http2
      else Inl St_malformed_input)"

definition signature_from :: "u32 \<Rightarrow> signature_state result" where
  "signature_from v =
     (if v = 0 then Inr SS_unknown else if v = 1 then Inr SS_unsigned_image
      else if v = 2 then Inr SS_trusted_signed else if v = 3 then Inr SS_invalid_signature
      else Inl St_malformed_input)"

section \<open>Executing a scenario\<close>

definition merge_evidence :: "evidence \<Rightarrow> evidence \<Rightarrow> evidence" where
  "merge_evidence left right = left
     \<lparr>ev_hard_rule := clipped_score (ucast (ev_hard_rule left) + ucast (ev_hard_rule right)),
      ev_signature := clipped_score (ucast (ev_signature left) + ucast (ev_signature right)),
      ev_protocol := clipped_score (ucast (ev_protocol left) + ucast (ev_protocol right)),
      ev_novelty := clipped_score (ucast (ev_novelty left) + ucast (ev_novelty right)),
      ev_adaptivity := clipped_score (ucast (ev_adaptivity left) + ucast (ev_adaptivity right)),
      ev_campaign := clipped_score (ucast (ev_campaign left) + ucast (ev_campaign right)),
      ev_consequence := clipped_score (ucast (ev_consequence left) + ucast (ev_consequence right)),
      ev_reason_mask := ev_reason_mask left OR ev_reason_mask right\<rparr>"

text \<open>The evidence of the payload, the service identity, the file and the process.\<close>

definition local_evidence :: "scenario \<Rightarrow> evidence" where
  "local_evidence s =
     (let e = inspect_payload (sc_payload s);
          e = (if \<not> sc_service_identity_verified s
               then add_reason unregistered_service (e\<lparr>ev_sensor_integrity := 100\<rparr>) else e);
          e = (if sc_file_external s
               then add_reason external_exec_pending (e\<lparr>ev_consequence := clipped_score (ucast (ev_consequence e) + 50)\<rparr>)
               else e)
      in if pe_parent_process_id (sc_process s) \<noteq> 0 \<or> pe_child_process_id (sc_process s) \<noteq> 0
         then merge_evidence e (evaluate_create_process (sc_process s)) else e)"

text \<open>The protocol parser the hint selects; a parser that refuses adds nothing.\<close>

definition protocol_evidence :: "scenario \<Rightarrow> evidence \<Rightarrow> evidence option" where
  "protocol_evidence s e =
     (if sc_protocol_hint s = PH_http2
      then (case http2_preflight (sc_payload s) (16 * 1024) 1000000 of
              None \<Rightarrow> None
            | Some (Inr h) \<Rightarrow> Some (merge_evidence e (frame_evidence h))
            | Some (Inl _) \<Rightarrow> Some e)
      else (case parse_request (text_of (sc_payload s)) of
              Inr h \<Rightarrow> Some (merge_evidence e (http_evidence h))
            | Inl _ \<Rightarrow> Some e))"

definition traversal_rule :: sig_rule where
  "traversal_rule = \<lparr>sr_rule_id = 1, sr_kind = RK_substring, sr_severity = 100, sr_hash = zero_digest, sr_pattern = ''../''\<rparr>"

definition late_evidence :: "sig_rule list \<Rightarrow> bytes \<Rightarrow> evidence \<Rightarrow> evidence" where
  "late_evidence rules payload e =
     (let e = merge_evidence e (sig_inspect rules payload)
      in if nf_payload_bytes (extract_network payload) > 512
         then e\<lparr>ev_novelty := clipped_score (ucast (ev_novelty e) + 20)\<rparr> else e)"

definition evidence_hash_of :: "bytes \<Rightarrow> digest" where
  "evidence_hash_of payload =
     (case canonicalize_request (text_of payload) of
        Inr canonical \<Rightarrow> sha256 (bytes_of canonical)
      | Inl _ \<Rightarrow> sha256 payload)"

definition replay_policy :: "scenario \<Rightarrow> policy_context" where
  "replay_policy s = \<lparr>pc_decision_id = sc_flow_id s, pc_flow_id = sc_flow_id s, pc_now_monotonic_ns = 1000000,
     pc_critical_service = sc_critical_service s, pc_runtime_gate_active = True, pc_mode = PM_balanced\<rparr>"

definition replay_context :: "scenario \<Rightarrow> corr_context" where
  "replay_context s =
     (let c = (sc_correlation s)\<lparr>cx_flow_id := sc_flow_id s, cx_policy_version := sc_policy_version s\<rparr>;
          c = (if cx_model_version c = 0 then c\<lparr>cx_model_version := 1\<rparr> else c);
          c = (if cx_process_id c = 0 then c\<lparr>cx_process_id := pe_child_process_id (sc_process s)\<rparr> else c)
      in if cx_parent_process_id c = 0
         then c\<lparr>cx_parent_process_id := pe_parent_process_id (sc_process s)\<rparr> else c)"

text \<open>The graph of the flow and the process it reached; the second component is the process's id.\<close>

definition replay_graph :: "scenario \<Rightarrow> causal_graph result \<times> u64" where
  "replay_graph s =
     (let context = replay_context s;
          (flow_node, graph) = add_node \<lparr>nd_id = sc_flow_id s, nd_kind = NK_flow,
             nd_identity_hash = sha256 (bytes_of ''flow''), nd_correlation = context\<rparr> empty_graph;
          process_id = (if cx_process_id context \<noteq> 0 then cx_process_id context else sc_flow_id s + 1);
          (process_node, graph) = add_node \<lparr>nd_id = process_id, nd_kind = NK_process,
             nd_identity_hash = sha256 (bytes_of ''process''), nd_correlation = context\<rparr> graph;
          (edge, graph) = add_edge (sc_flow_id s) process_id graph
      in (if flow_node \<noteq> ok_unit \<or> process_node \<noteq> ok_unit \<or> edge \<noteq> ok_unit then Inl St_integrity_failure else Inr graph,
          process_id))"

text \<open>The decision, the audit record and the graph over the evidence that was gathered.\<close>

definition conclude :: "scenario \<Rightarrow> evidence \<Rightarrow> replay_result result" where
  "conclude s e =
     (case policy_authorize \<lparr>pc_actor_id = 1, pc_admin = True, pc_high_risk = (ev_hard_rule e \<ge> 100),
             pc_local_confirmation = True, pc_requested_reason_mask = 0\<rparr> of
        Inl st \<Rightarrow> Inl st
      | Inr _ \<Rightarrow>
          let evidence_hash = evidence_hash_of (sc_payload s);
              decision = policy_decide (replay_policy s) e evidence_hash
          in (case chain_append \<lparr>ar_sequence = 1, ar_monotonic_ns = 1000000, ar_reason_mask = sd_reason_mask decision,
                     ar_evidence_hash = evidence_hash, ar_correlation = empty_context\<rparr> [] of
                (Inl st, _) \<Rightarrow> Inl st
              | (Inr _, audit_chain) \<Rightarrow>
                  (case replay_graph s of
                     (Inl st, _) \<Rightarrow> Inl st
                   | (Inr graph, process_id) \<Rightarrow>
                       Inr \<lparr>rr_decision = decision, rr_audit_root = as_segment_hash (last audit_chain),
                         rr_audit_records = 1, rr_causal_nodes = of_nat (length (gr_nodes graph)),
                         rr_causal_edges = of_nat (length (gr_edges graph)), rr_policy_version = sc_policy_version s,
                         rr_audit_verifiable = (verify audit_chain = ok_unit),
                         rr_causal_graph_complete =
                           (case chain_to process_id graph of Inr ns \<Rightarrow> length ns = 2 | Inl _ \<Rightarrow> False),
                         rr_correlation = replay_context s\<rparr>)))"

definition execute :: "scenario \<Rightarrow> replay_result result option" where
  "execute s =
     (if sc_flow_id s = 0 \<or> sc_service_id s = 0 \<or> sc_policy_version s = 0 \<or> sc_payload s = [] \<or>
         length (sc_payload s) > kMaxReplayPayload
      then Some (Inl St_invalid_argument)
      else case protocol_evidence s (local_evidence s) of
             None \<Rightarrow> None
           | Some e \<Rightarrow>
               let (rule_added, rules) = sig_add_rule traversal_rule []
               in if \<not> rule_added then Some (Inl St_integrity_failure)
                  else Some (conclude s (late_evidence rules (sc_payload s) e)))"

section \<open>What is recorded\<close>

definition process_node_id :: "scenario \<Rightarrow> u64" where
  "process_node_id s =
     (if cx_process_id (replay_context s) \<noteq> 0 then cx_process_id (replay_context s) else sc_flow_id s + 1)"

definition flow_reaches_process :: "scenario \<Rightarrow> causal_graph" where
  "flow_reaches_process s = \<lparr>gr_nodes =
       [\<lparr>nd_id = sc_flow_id s, nd_kind = NK_flow, nd_identity_hash = sha256 (bytes_of ''flow''),
         nd_correlation = replay_context s\<rparr>,
        \<lparr>nd_id = process_node_id s, nd_kind = NK_process, nd_identity_hash = sha256 (bytes_of ''process''),
         nd_correlation = replay_context s\<rparr>],
     gr_edges = [\<lparr>eg_from = sc_flow_id s, eg_to = process_node_id s\<rparr>]\<rparr>"

lemma replay_graph_exact:
  assumes "sc_flow_id s \<noteq> 0"
  shows "replay_graph s =
    (if process_node_id s = 0 \<or> process_node_id s = sc_flow_id s then Inl St_integrity_failure
     else Inr (flow_reaches_process s), process_node_id s)"
  using assms
  by (auto simp: replay_graph_def process_node_id_def [symmetric] Let_def add_node_def add_edge_def find_node_def
      empty_graph_def flow_reaches_process_def)

lemma chain_to_process:
  assumes "process_node_id s \<noteq> sc_flow_id s"
  shows "\<exists>ns. chain_to (process_node_id s) (flow_reaches_process s) = Inr ns \<and> length ns = 2"
  using assms
  by (auto simp: chain_to_def find_node_def flow_reaches_process_def chain_walk.simps [of _ _ "[_]"]
      chain_walk.simps [of _ _ "[_, _]"])

definition replay_record :: "scenario \<Rightarrow> u32 \<Rightarrow> audit_record" where
  "replay_record s reasons = \<lparr>ar_sequence = 1, ar_monotonic_ns = 1000000, ar_reason_mask = reasons,
     ar_evidence_hash = evidence_hash_of (sc_payload s), ar_correlation = empty_context\<rparr>"

lemma first_append:
  assumes "ar_sequence r = 1" "wf_record r"
  shows "\<exists>segment. chain_append r [] = (ok_unit, [segment]) \<and> as_segment_hash segment = hash_segment zero_digest [r] \<and>
    verify [segment] = ok_unit"
  using assms by (simp add: chain_append_def verify_def)

lemma wf_replay_record: "wf_record (replay_record s reasons)"
  by (simp add: wf_record_def replay_record_def evidence_hash_of_def split: sum.split)

text \<open>The replay of a scenario with the evidence \<open>e\<close>, in closed form.\<close>

definition replayed :: "scenario \<Rightarrow> evidence \<Rightarrow> replay_result" where
  "replayed s e =
     \<lparr>rr_decision = policy_decide (replay_policy s) e (evidence_hash_of (sc_payload s)),
      rr_audit_root = hash_segment zero_digest [replay_record s (ev_reason_mask e)],
      rr_audit_records = 1, rr_causal_nodes = 2, rr_causal_edges = 1, rr_policy_version = sc_policy_version s,
      rr_audit_verifiable = True, rr_causal_graph_complete = True, rr_correlation = replay_context s\<rparr>"

lemma authorize_replay [simp]:
  "policy_authorize \<lparr>pc_actor_id = 1, pc_admin = True, pc_high_risk = h, pc_local_confirmation = True,
     pc_requested_reason_mask = m\<rparr> = ok_unit"
  by (simp add: policy_authorize_def)

lemma conclude_exact:
  assumes "sc_flow_id s \<noteq> 0"
  shows "conclude s e =
    (if process_node_id s = 0 \<or> process_node_id s = sc_flow_id s then Inl St_integrity_failure else Inr (replayed s e))"
proof -
  have mask: "sd_reason_mask (policy_decide c e h) = ev_reason_mask e" for c h by (simp add: policy_decide_def)
  obtain segment where "chain_append (replay_record s (ev_reason_mask e)) [] = (ok_unit, [segment])"
    and "as_segment_hash segment = hash_segment zero_digest [replay_record s (ev_reason_mask e)]"
    and "verify [segment] = ok_unit"
    using first_append [OF _ wf_replay_record [of s "ev_reason_mask e"]] by (auto simp: replay_record_def)
  note audit = this
  show ?thesis
  proof (cases "process_node_id s = 0 \<or> process_node_id s = sc_flow_id s")
    case False
    then obtain ns where "chain_to (process_node_id s) (flow_reaches_process s) = Inr ns" "length ns = 2"
      using chain_to_process by blast
    then show ?thesis
      using False audit
      by (simp add: conclude_def Let_def mask replay_record_def [symmetric] replay_graph_exact [OF assms] replayed_def
          flow_reaches_process_def)
  qed (use audit in \<open>auto simp: conclude_def Let_def mask replay_record_def [symmetric] replay_graph_exact [OF assms]\<close>)
qed

section \<open>What merging keeps\<close>

text \<open>\<open>at_least h g c i e\<close>: lower bounds on the three blocking scores and the sensor score; \<open>reasons_not_fatal\<close>: no integrity failure is claimed.\<close>

definition at_least :: "nat \<Rightarrow> nat \<Rightarrow> nat \<Rightarrow> nat \<Rightarrow> evidence \<Rightarrow> bool" where
  "at_least h g c i e \<longleftrightarrow> h \<le> unat (ev_hard_rule e) \<and> g \<le> unat (ev_signature e) \<and> c \<le> unat (ev_consequence e) \<and>
     i \<le> unat (ev_sensor_integrity e)"

definition reasons_not_fatal :: "evidence \<Rightarrow> bool" where
  "reasons_not_fatal e \<longleftrightarrow> ev_reason_mask e AND (fatal_reasons OR sandbox_inconclusive) = 0"

named_theorems gathered \<comment> \<open>what each step of the replay does to the bounds and the reasons\<close>

lemma sum_of_scores: "unat (ucast (a :: u16) + ucast (b :: u16) :: u32) = unat a + unat b"
proof -
  have "unat a < 65536" "unat b < 65536"
    using unsigned_less [of a, where 'a = nat] unsigned_less [of b, where 'a = nat] by simp_all
  then show ?thesis by (simp add: unat_plus_if' unsigned_ucast_eq take_bit_nat_eq_self)
qed

lemma clipped_sum: "unat (clipped_score (ucast (a :: u16) + ucast (b :: u16))) = min (unat a + unat b) 100"
proof -
  have "unat (min (ucast a + ucast b :: u32) 100) = min (unat a + unat b) 100"
    by (simp add: min_def word_le_nat_alt sum_of_scores)
  then show ?thesis by (simp add: clipped_score_def unsigned_ucast_eq take_bit_nat_eq_self)
qed

lemma merge_at_least [gathered]:
  assumes "at_least h g c i e" "h \<le> 100" "g \<le> 100" "c \<le> 100"
  shows "at_least h g c i (merge_evidence e e')"
  using assms by (simp add: at_least_def merge_evidence_def clipped_sum)

lemma merge_not_fatal [gathered]:
  "reasons_not_fatal e \<Longrightarrow> reasons_not_fatal e' \<Longrightarrow> reasons_not_fatal (merge_evidence e e')"
  by (simp add: reasons_not_fatal_def merge_evidence_def bit.conj_disj_distrib2)

lemma http_not_fatal: "reasons_not_fatal (http_evidence h)"
  by (simp add: reasons_not_fatal_def http_evidence_def Let_def fatal_reasons_def)

lemma frames_not_fatal: "reasons_not_fatal (frame_evidence h)"
  by (simp add: reasons_not_fatal_def frame_evidence_def Let_def fatal_reasons_def)

lemma process_not_fatal: "reasons_not_fatal (evaluate_create_process p)"
  by (simp add: reasons_not_fatal_def evaluate_create_process_def Let_def fatal_reasons_def)

lemma payload_not_fatal: "reasons_not_fatal (inspect_payload p)"
  by (simp add: reasons_not_fatal_def inspect_payload_def inspect_text_cases fatal_reasons_def)

lemma rule_not_fatal: "reasons_not_fatal (sig_inspect rules p)"
proof -
  have "reasons_not_fatal e \<Longrightarrow> reasons_not_fatal (fold (\<lambda>rule e. if sig_matched p rule then sig_hit rule e else e) rules e)" for e
    by (induction rules arbitrary: e)
      (simp_all add: reasons_not_fatal_def sig_hit_def Let_def fatal_reasons_def bit.conj_disj_distrib2)
  then show ?thesis by (simp add: sig_inspect_def reasons_not_fatal_def)
qed

lemma merge_adds_hard: "h \<le> unat (ev_hard_rule e') \<Longrightarrow> h \<le> 100 \<Longrightarrow> at_least h 0 0 0 (merge_evidence e e')"
  by (simp add: at_least_def merge_evidence_def clipped_sum)

lemma late_at_least [gathered]:
  assumes "at_least h g c i e" "h \<le> 100" "g \<le> 100" "c \<le> 100"
  shows "at_least h g c i (late_evidence rules p e)"
  using merge_at_least [OF assms, of "sig_inspect rules p"] by (simp add: late_evidence_def Let_def at_least_def)

lemma late_not_fatal [gathered]: "reasons_not_fatal e \<Longrightarrow> reasons_not_fatal (late_evidence rules p e)"
  using merge_not_fatal [OF _ rule_not_fatal [of rules p], of e]
  by (simp add: late_evidence_def Let_def reasons_not_fatal_def)

lemma protocol_at_least [gathered]:
  assumes "protocol_evidence s e = Some e'" "at_least h g c i e" "h \<le> 100" "g \<le> 100" "c \<le> 100"
  shows "at_least h g c i e'"
  using assms by (auto simp: protocol_evidence_def merge_at_least split: if_splits option.splits sum.splits)

lemma protocol_not_fatal [gathered]:
  "protocol_evidence s e = Some e' \<Longrightarrow> reasons_not_fatal e \<Longrightarrow> reasons_not_fatal e'"
  by (auto simp: protocol_evidence_def merge_not_fatal http_not_fatal frames_not_fatal split: if_splits option.splits sum.splits)

lemma protocol_evidence_safe: "protocol_evidence s e \<noteq> None"
  using frame_walk_safe [of "16 * 1024" 1000000 "sc_payload s" 0 empty_frames]
  by (auto simp: protocol_evidence_def http2_preflight_def in_bounds_def split: sum.split)

text \<open>What the product is meant to stop: attack markers in the payload, or an interpreter started under outside influence.\<close>

definition launches_interpreter :: "process_evidence \<Rightarrow> bool" where
  "launches_interpreter p \<longleftrightarrow> (pe_parent_process_id p \<noteq> 0 \<or> pe_child_process_id p \<noteq> 0) \<and>
     pe_parent_external_influenced p \<and> contains_forbidden_interpreter (pe_image_path p) (pe_command_line p)"

definition hard_payload :: "string \<Rightarrow> bool" where
  "hard_payload t \<longleftrightarrow> has_traversal t \<or> has_command t \<or> has_signature t"

lemma local_keeps:
  "at_least h g c i (inspect_payload (sc_payload s)) \<Longrightarrow> h \<le> 100 \<Longrightarrow> g \<le> 100 \<Longrightarrow> c \<le> 100 \<Longrightarrow> i \<le> 100 \<Longrightarrow>
     at_least h g c i (local_evidence s)"
proof -
  assume payload: "at_least h g c i (inspect_payload (sc_payload s))" and le: "h \<le> 100" "g \<le> 100" "c \<le> 100" "i \<le> 100"
  have more: "min (unat (ev_consequence e) + 50) 100 = unat (clipped_score (ucast (ev_consequence e) + 50))" for e
    using clipped_sum [of "ev_consequence e" 50] by simp
  show ?thesis
    unfolding local_evidence_def Let_def
    by (rule if_split [THEN iffD2], intro conjI impI merge_at_least)
      (use payload le in \<open>auto simp: at_least_def simp flip: more\<close>)
qed

lemma local_not_fatal: "reasons_not_fatal (local_evidence s)"
proof -
  have service: "reasons_not_fatal (add_reason unregistered_service (e\<lparr>ev_sensor_integrity := 100\<rparr>)) = reasons_not_fatal e" for e
    by (simp add: reasons_not_fatal_def fatal_reasons_def bit.conj_disj_distrib2)
  have external: "reasons_not_fatal (add_reason external_exec_pending (e\<lparr>ev_consequence := n\<rparr>)) = reasons_not_fatal e" for e n
    by (simp add: reasons_not_fatal_def fatal_reasons_def bit.conj_disj_distrib2)
  show ?thesis
    unfolding local_evidence_def Let_def
    by (simp only: service external payload_not_fatal merge_not_fatal process_not_fatal split: if_split) simp
qed

lemma local_hard:
  assumes "hard_payload (text_of (sc_payload s)) \<or> launches_interpreter (sc_process s)"
  shows "at_least 100 0 0 0 (local_evidence s) \<or> at_least 0 100 0 0 (local_evidence s)"
  using assms
proof
  assume "hard_payload (text_of (sc_payload s))"
  then have "at_least 100 0 0 0 (inspect_payload (sc_payload s)) \<or> at_least 0 100 0 0 (inspect_payload (sc_payload s))"
    by (auto simp: hard_payload_def inspect_payload_def inspect_text_cases at_least_def)
  then show ?thesis by (auto intro: local_keeps)
next
  assume "launches_interpreter (sc_process s)"
  then show ?thesis
    by (auto simp: launches_interpreter_def local_evidence_def Let_def evaluate_create_process_def intro!: merge_adds_hard)
qed

lemma local_unverified: "\<not> sc_service_identity_verified s \<Longrightarrow> at_least 0 0 0 100 (local_evidence s)"
  by (auto simp: local_evidence_def Let_def at_least_def merge_evidence_def)

lemma local_external: "sc_file_external s \<Longrightarrow> at_least 0 0 50 0 (local_evidence s)"
proof -
  have "50 \<le> unat (clipped_score (ucast (n :: u16) + 50))" for n using clipped_sum [of n 50] by simp
  then show "sc_file_external s \<Longrightarrow> ?thesis"
    by (auto simp: local_evidence_def Let_def at_least_def merge_evidence_def clipped_sum intro: trans_le_add1)
qed

text \<open>All the evidence a scenario gathers.\<close>

definition gathered_evidence :: "scenario \<Rightarrow> evidence" where
  "gathered_evidence s = late_evidence [traversal_rule] (sc_payload s) (the (protocol_evidence s (local_evidence s)))"

lemma protocol_some: "protocol_evidence s e = Some (the (protocol_evidence s e))"
  using protocol_evidence_safe [of s e] by auto

lemma gathered_not_fatal: "reasons_not_fatal (gathered_evidence s)"
  unfolding gathered_evidence_def
  by (intro late_not_fatal protocol_not_fatal [OF protocol_some] local_not_fatal)

lemma gathered_at_least:
  "at_least h g c i (local_evidence s) \<Longrightarrow> h \<le> 100 \<Longrightarrow> g \<le> 100 \<Longrightarrow> c \<le> 100 \<Longrightarrow> at_least h g c i (gathered_evidence s)"
  unfolding gathered_evidence_def
  by (intro late_at_least protocol_at_least [OF protocol_some])

lemma execute_exact:
  "execute s = Some
     (if sc_flow_id s = 0 \<or> sc_service_id s = 0 \<or> sc_policy_version s = 0 \<or> sc_payload s = [] \<or>
         length (sc_payload s) > kMaxReplayPayload then Inl St_invalid_argument
      else if process_node_id s = 0 \<or> process_node_id s = sc_flow_id s then Inl St_integrity_failure
      else Inr (replayed s (gathered_evidence s)))"
proof -
  have "sig_add_rule traversal_rule [] = (True, [traversal_rule])" by (simp add: sig_add_rule_def traversal_rule_def)
  moreover obtain e where "protocol_evidence s (local_evidence s) = Some e" using protocol_some by blast
  ultimately show ?thesis by (simp add: execute_def gathered_evidence_def conclude_exact)
qed

lemma action_of_replayed: "sd_action (rr_decision (replayed s e)) = action_code (policy_action (replay_policy s) e)"
  by (simp add: replayed_def policy_decide_def)

lemma not_fatal_split:
  "reasons_not_fatal e \<Longrightarrow> ev_reason_mask e AND fatal_reasons = 0 \<and> ev_reason_mask e AND sandbox_inconclusive = 0"
  by (simp add: reasons_not_fatal_def bit.conj_disj_distrib or_eq_0_iff)

lemma blocked_quarantined:
  assumes "at_least 100 0 0 0 e \<or> at_least 0 100 0 0 e" "reasons_not_fatal e"
  shows "policy_action context e = SA_quarantine"
proof -
  have "rs_hard_block (risk_score_of e)"
    using assms(1) by (auto simp: at_least_def risk_score_of_def Let_def word_le_nat_alt)
  then show ?thesis
    using not_fatal_split [OF assms(2)] by (simp add: policy_action_def Let_def fatal_reasons_def)
qed

lemma risky_stopped:
  assumes "at_least 0 0 0 100 e \<or> at_least 0 0 50 0 e" "reasons_not_fatal e"
  shows "\<not> lets_through (policy_action context e)"
proof -
  have "50 \<le> sum_list (scores e)" using assms(1) by (auto simp: at_least_def scores_def)
  then show ?thesis using not_fatal_split [OF assms(2)] by (simp add: lets_through_exact)
qed

section \<open>The whole replay\<close>

definition bad_arguments :: "scenario \<Rightarrow> bool" where
  "bad_arguments s \<longleftrightarrow> sc_flow_id s = 0 \<or> sc_service_id s = 0 \<or> sc_policy_version s = 0 \<or> sc_payload s = [] \<or>
     length (sc_payload s) > kMaxReplayPayload"

lemma replayed_context_valid: "\<not> bad_arguments s \<Longrightarrow> correlation_valid (replay_context s)"
  by (simp add: bad_arguments_def correlation_valid_def replay_context_def Let_def)

text \<open>
  C10: a replay always comes to an end and reads no byte outside the payload. It is refused exactly
  for missing identifiers or an empty or oversized payload, and when the node of the process
  cannot be told from that of the flow; otherwise the decision is the policy's over all the
  evidence that was gathered, the one audit record carries the reasons of that decision and
  its chain verifies, the graph leads from the flow to the process, and the correlation of
  the result is complete.
\<close>

theorem replay_concludes:
  "case execute s of
     None \<Rightarrow> False
   | Some (Inl st) \<Rightarrow>
       st = (if bad_arguments s then St_invalid_argument else St_integrity_failure) \<and>
       (bad_arguments s \<or> process_node_id s = 0 \<or> process_node_id s = sc_flow_id s)
   | Some (Inr r) \<Rightarrow>
       \<not> (bad_arguments s \<or> process_node_id s = 0 \<or> process_node_id s = sc_flow_id s) \<and>
       rr_decision r = policy_decide (replay_policy s) (gathered_evidence s) (evidence_hash_of (sc_payload s)) \<and>
       rr_audit_root r = hash_segment zero_digest [replay_record s (sd_reason_mask (rr_decision r))] \<and>
       rr_audit_verifiable r \<and> rr_causal_graph_complete r \<and>
       rr_audit_records r = 1 \<and> rr_causal_nodes r = 2 \<and> rr_causal_edges r = 1 \<and>
       rr_policy_version r = sc_policy_version s \<and> correlation_valid (rr_correlation r)"
proof -
  have "sd_reason_mask (policy_decide c e h) = ev_reason_mask e" for c e h by (simp add: policy_decide_def)
  then show ?thesis
    using replayed_context_valid [of s]
    by (simp add: execute_exact bad_arguments_def [symmetric] replayed_def)
qed

lemma attacks_stopped:
  assumes "execute s = Some (Inr r)"
  shows "if hard_payload (text_of (sc_payload s)) \<or> launches_interpreter (sc_process s)
         then sd_action (rr_decision r) = action_code SA_quarantine
         else if \<not> sc_service_identity_verified s \<or> sc_file_external s
         then sd_action (rr_decision r) \<noteq> action_code SA_allow \<and> sd_action (rr_decision r) \<noteq> action_code SA_allow_monitored
         else True"
proof -
  have r: "sd_action (rr_decision r) = action_code (policy_action (replay_policy s) (gathered_evidence s))"
    using assms by (auto simp: execute_exact action_of_replayed split: if_splits)
  have "policy_action (replay_policy s) (gathered_evidence s) = SA_quarantine"
    if "hard_payload (text_of (sc_payload s)) \<or> launches_interpreter (sc_process s)"
    using local_hard [OF that] by (intro blocked_quarantined gathered_not_fatal) (auto intro: gathered_at_least)
  moreover have "\<not> lets_through (policy_action (replay_policy s) (gathered_evidence s))"
    if "\<not> sc_service_identity_verified s \<or> sc_file_external s"
  proof (intro risky_stopped gathered_not_fatal)
    show "at_least 0 0 0 100 (gathered_evidence s) \<or> at_least 0 0 50 0 (gathered_evidence s)"
      using that local_unverified [of s] local_external [of s] by (auto intro: gathered_at_least)
  qed
  ultimately show ?thesis by (simp add: r lets_through_def del: action_code.simps)
qed

text \<open>
  C9: no replayed attack gets through. When the payload carries a traversal, an interpreter or
  an attack signature, or the process is an interpreter started under outside influence, the
  decision is quarantine, whatever protocol, service and other evidence the scenario has;
  and traffic of a service whose identity was not verified, or of a file from outside, is
  neither allowed nor allowed under monitoring.
\<close>

theorem replay_stops_attacks:
  assumes "execute s = Some (Inr r)"
  shows "if hard_payload (text_of (sc_payload s)) \<or> launches_interpreter (sc_process s)
         then sd_action (rr_decision r) = action_code SA_quarantine
         else if \<not> sc_service_identity_verified s \<or> sc_file_external s
         then sd_action (rr_decision r) \<noteq> action_code SA_allow \<and> sd_action (rr_decision r) \<noteq> action_code SA_allow_monitored
         else True"
  using attacks_stopped [OF assms] .

definition sample_scenario :: scenario where
  "sample_scenario = \<lparr>sc_flow_id = 7, sc_service_id = 3, sc_policy_version = 1, sc_critical_service = True,
     sc_payload = bytes_of ''GET /../etc'', sc_protocol_hint = PH_http1, sc_service_identity_verified = True,
     sc_file_external = False, sc_process = no_process, sc_correlation = empty_context\<rparr>"

lemma sample_executes: "execute sample_scenario = Some (Inr (replayed sample_scenario (gathered_evidence sample_scenario)))"
  by (simp add: execute_exact sample_scenario_def process_node_id_def replay_context_def empty_context_def no_process_def
      kMaxReplayPayload_def bytes_of_def)

theorem replay_stops_attacks_witness:
  "hard_payload (text_of (sc_payload sample_scenario)) \<and>
   sd_action (rr_decision (replayed sample_scenario (gathered_evidence sample_scenario))) = action_code SA_quarantine"
proof -
  have "contains (lower_copy (text_of (sc_payload sample_scenario))) ''../''" by code_simp
  then have "hard_payload (text_of (sc_payload sample_scenario))" by (simp add: hard_payload_def has_traversal_def)
  then show ?thesis using replay_stops_attacks [OF sample_executes] by simp
qed

section \<open>The verdict on a payload\<close>

definition text_marked :: "string \<Rightarrow> bool" where
  "text_marked s \<longleftrightarrow> has_traversal s \<or> has_command s \<or> has_signature s"

definition http_hard :: "http_summary \<Rightarrow> bool" where
  "http_hard h \<longleftrightarrow> hs_ambiguous_framing h \<or> hs_path_traversal h \<or> hs_command_marker h"

lemma http_verdict:
  "policy_action context (http_evidence h) =
     (if http_hard h then SA_quarantine
      else if http_summary.hs_malformed h then (if pc_mode context = PM_strict then SA_redirect_sandbox else SA_rate_limit)
      else SA_allow)"
proof -
  have "ev_reason_mask (http_evidence h) AND sandbox_inconclusive = 0" "ev_reason_mask (http_evidence h) AND fatal_reasons = 0"
    by (simp_all add: http_evidence_def Let_def fatal_reasons_def)
  then show ?thesis
    by (cases "http_hard h"; cases "http_summary.hs_malformed h")
      (auto simp: policy_action_def Let_def fatal_reasons_def risk_score_of_def risk_sum_def http_evidence_def
        http_hard_def clipped_60 band_for_score_def band_action_def no_evidence_def)
qed

lemma merged_payload_blocked:
  assumes "text_marked s \<or> http_hard h"
  shows "policy_action context (merge_evidence (inspect_text s) (http_evidence h)) = SA_quarantine"
proof -
  let ?e = "merge_evidence (inspect_text s) (http_evidence h)"
  have "reasons_not_fatal ?e"
    using payload_not_fatal [of "bytes_of s"] http_not_fatal [of h]
    by (intro merge_not_fatal) (simp_all add: reasons_not_fatal_def inspect_text_cases fatal_reasons_def)
  note mask = not_fatal_split [OF this]
  have "rs_hard_block (risk_score_of ?e)"
    using assms
    by (auto simp: text_marked_def http_hard_def risk_score_of_def Let_def merge_evidence_def inspect_text_cases
        http_evidence_def word_le_nat_alt clipped_sum)
  then show ?thesis using mask by (simp add: policy_action_def Let_def fatal_reasons_def)
qed

lemma ambiguous_request:
  assumes "parse_request s = Inr h" "request_parts s = Some (rl, L)" "head_of s = Some head" "\<not> has_ctl head"
    and "list_all line_ok L" "lengths_of L \<noteq> []" "filter is_chunked L \<noteq> [] \<or> 1 < card (set (lengths_of L))"
  shows "hs_ambiguous_framing h"
proof -
  have "length s \<le> 131072" using assms(1) parse_request_early(1) [of s] by (cases "131072 < length s") auto
  from framing_marks [OF this assms(3,4,2)] show ?thesis using assms by auto
qed

text \<open>
  Text that holds both framing headers, in any spelling the HTTP parser understands.
\<close>

definition ambiguous_headers :: "string \<Rightarrow> bool" where
  "ambiguous_headers s =
     (case head_of s of
        None \<Rightarrow> False
      | Some head \<Rightarrow> \<not> has_ctl head \<and>
          (case request_parts s of
             None \<Rightarrow> False
           | Some (_, L) \<Rightarrow> list_all line_ok L \<and> lengths_of L \<noteq> [] \<and>
               (filter is_chunked L \<noteq> [] \<or> 1 < card (set (lengths_of L)))))"

text \<open>
  C2: the verdict on a payload. From the text detector alone: a payload with a path
  traversal, a command interpreter or an attack signature, in whatever case it is written and
  wherever it stands, is quarantined in every mode and for every service; without one of
  these, a payload with the two strings \<open>content-length:\<close> and \<open>transfer-encoding: chunked\<close>
  (letters of any case, exactly one blank) is only delayed or sandboxed, and any other payload
  is allowed. From
  the HTTP parser's evidence, where plan 14.1 puts the hard rule: a request reported as
  ambiguous, as traversing or as naming an interpreter is quarantined, one that is only
  malformed is delayed or sandboxed, any other allowed; and a request the parser reads whose
  well-formed header lines hold a content length beside a chunked transfer encoding, in any
  spelling of the value, or two different lengths, is reported as ambiguous. From both
  together: one quarantine suffices.
\<close>

theorem payload_verdict:
  "policy_action context (inspect_text s) =
     (if text_marked s then SA_quarantine
      else if has_smuggling s
        then (if length s > 65536 \<or> pc_mode context = PM_strict then SA_redirect_sandbox else SA_rate_limit)
      else SA_allow) \<and>
   (case parse_request s of
      Inl _ \<Rightarrow> True
    | Inr h \<Rightarrow>
        policy_action context (http_evidence h) =
          (if http_hard h then SA_quarantine
           else if http_summary.hs_malformed h then (if pc_mode context = PM_strict then SA_redirect_sandbox else SA_rate_limit)
           else SA_allow) \<and>
        (if ambiguous_headers s then hs_ambiguous_framing h else True) \<and>
        (if text_marked s \<or> http_hard h
         then policy_action context (merge_evidence (inspect_text s) (http_evidence h)) = SA_quarantine else True))"
proof -
  have "if ambiguous_headers s then hs_ambiguous_framing h else True" if "parse_request s = Inr h" for h
    using ambiguous_request [OF that] by (auto simp: ambiguous_headers_def split: option.splits)
  then show ?thesis
    by (auto simp: text_verdict text_marked_def http_verdict merged_payload_blocked split: sum.split)
qed

text \<open>The spelling without the blank: the text detector allows it, the parser has it quarantined.\<close>

definition unspaced_head :: string where
  "unspaced_head = ''POST / HTTP/1.1'' @ crlf @ ''Content-Length: 4'' @ crlf @ ''Transfer-Encoding:chunked''"

lemma unspaced_ambiguous: "ambiguous_headers (unspaced_head @ crlf @ crlf)"
proof -
  have h: "head_of (unspaced_head @ crlf @ crlf) = Some unspaced_head"
    by (simp add: head_of_def unspaced_head_def crlf_def)
  have p: "request_parts (unspaced_head @ crlf @ crlf) =
      Some (''POST / HTTP/1.1'', [''Content-Length: 4'', ''Transfer-Encoding:chunked''])"
  proof -
    have r: "find_sub crlf unspaced_head = Some 15" by (simp add: crlf_def unspaced_head_def)
    have t: "take 15 unspaced_head = ''POST / HTTP/1.1''" by (simp add: unspaced_head_def)
    have b: "block_of (drop 17 unspaced_head) = [''Content-Length: 4'', ''Transfer-Encoding:chunked'']"
      by (simp add: crlf_def crlf_lines.simps unspaced_head_def)
    show ?thesis by (simp add: request_parts_def h r t b)
  qed
  have c: "\<not> has_ctl unspaced_head" by (simp add: has_ctl_def crlf_def unspaced_head_def)
  have n: "header_name ''Content-Length: 4'' = ''content-length''" "header_value ''Content-Length: 4'' = ''4''"
    "header_name ''Transfer-Encoding:chunked'' = ''transfer-encoding''"
    "header_value ''Transfer-Encoding:chunked'' = ''chunked''" "lower_copy ''chunked'' = ''chunked''"
    "header_ok ''Content-Length: 4''" "header_ok ''Transfer-Encoding:chunked''"
    by code_simp+
  moreover have "decimal_u64 ''4''" by (simp add: decimal_u64_def is_digit_def digits_value_def)
  ultimately show ?thesis
    by (simp add: ambiguous_headers_def h p c lengths_of_def is_length_def is_chunked_def line_ok_def)
qed

lemma unspaced_request_seen_by_parser_only:
  "policy_action context (inspect_text (unspaced_head @ crlf @ crlf)) = SA_allow"
  "case parse_request (unspaced_head @ crlf @ crlf) of
     Inl _ \<Rightarrow> False | Inr h \<Rightarrow> policy_action context (http_evidence h) = SA_quarantine"
proof -
  let ?r = "unspaced_head @ crlf @ crlf"
  have l: "lower_copy ?r =
      ''post / http/1.1'' @ crlf @ ''content-length: 4'' @ crlf @ ''transfer-encoding:chunked'' @ crlf @ crlf"
    by code_simp
  have "\<not> text_marked ?r" "\<not> has_smuggling ?r"
    unfolding text_marked_def has_traversal_def has_command_def has_signature_def has_smuggling_def l contains_iff [symmetric]
    by code_simp+
  then show "policy_action context (inspect_text ?r) = SA_allow"
    by (simp add: text_verdict text_marked_def)
  obtain head rl L where r: "head_of ?r = Some head" "\<not> has_ctl head" "request_parts ?r = Some (rl, L)" "list_all line_ok L"
      "lengths_of L \<noteq> []" "filter is_chunked L \<noteq> [] \<or> 1 < card (set (lengths_of L))"
    using unspaced_ambiguous by (auto simp: ambiguous_headers_def split: option.splits)
  have "length ?r \<le> 131072" by (simp add: unspaced_head_def crlf_def)
  from framing_marks [OF this r(1,2,3)] obtain h where h: "parse_request ?r = Inr h" by auto
  have "hs_ambiguous_framing h" by (rule ambiguous_request [OF h r(3,1,2,4,5,6)])
  then show "case parse_request ?r of Inl _ \<Rightarrow> False | Inr h \<Rightarrow> policy_action context (http_evidence h) = SA_quarantine"
    by (simp add: h http_verdict http_hard_def)
qed

text \<open>
  Process and flow identifiers share one node space: a process whose number equals the flow's
  makes the replay fail.
\<close>

lemma equal_ids_refused:
  "\<not> bad_arguments s \<Longrightarrow> cx_process_id (sc_correlation s) = sc_flow_id s \<Longrightarrow> execute s = Some (Inl St_integrity_failure)"
  by (auto simp: execute_exact bad_arguments_def process_node_id_def replay_context_def Let_def)

end
