(* ===== verification/AIS_ReplayLog.thy ===== *)
theory AIS_ReplayLog
  imports AIS_Replay
begin

text \<open>
  The log reader of \<open>src/replay.cpp\<close> (\<open>parse_and_execute\<close>): a state machine over events with
  sized bodies, and the older flat format.
\<close>

section \<open>Reading a log of events\<close>

record replay_state =
  rp_flow_id :: u64
  rp_service_id :: u64
  rp_critical_service :: bool
  rp_identity_verified :: bool
  rp_flow_opened :: bool
  rp_flow_closed :: bool
  rp_file_external :: bool
  rp_protocol_hint :: protocol_hint
  rp_process :: process_evidence
  rp_correlation :: corr_context
  rp_payload :: bytes

definition replay_start :: replay_state where
  "replay_start = \<lparr>rp_flow_id = 0, rp_service_id = 0, rp_critical_service = True, rp_identity_verified = False,
     rp_flow_opened = False, rp_flow_closed = False, rp_file_external = False, rp_protocol_hint = PH_unknown,
     rp_process = no_process, rp_correlation = empty_context, rp_payload = []\<rparr>"

definition open_event :: "u32 \<Rightarrow> bytes \<Rightarrow> replay_state \<Rightarrow> replay_state result" where
  "open_event raw_size body s =
     (if rp_flow_opened s \<or> raw_size \<noteq> 32 then Inl St_invalid_state_transition
      else
        let (flow, off) = read_u64 body 0; (service, off) = read_u64 body off;
            (critical, off) = read_u64 body off; (monotonic, off) = read_u64 body off
        in case (flow, service, critical, monotonic) of
             (Inr f, Inr sv, Inr cr, Inr _) \<Rightarrow>
               if f = 0 \<or> sv = 0 then Inl St_malformed_input
               else Inr (s\<lparr>rp_flow_id := f, rp_service_id := sv, rp_critical_service := (cr \<noteq> 0), rp_flow_opened := True\<rparr>)
           | _ \<Rightarrow> Inl St_malformed_input)"

definition data_event :: "bytes \<Rightarrow> replay_state \<Rightarrow> replay_state result" where
  "data_event body s =
     (if \<not> rp_flow_opened s \<or> rp_flow_closed s \<or> length (rp_payload s) + length body > kMaxReplayPayload
      then Inl St_invalid_state_transition
      else Inr (s\<lparr>rp_payload := rp_payload s @ body\<rparr>))"

definition identity_event :: "u32 \<Rightarrow> bytes \<Rightarrow> replay_state \<Rightarrow> replay_state result" where
  "identity_event raw_size body s =
     (if \<not> rp_flow_opened s \<or> raw_size \<noteq> 16 then Inl St_invalid_state_transition
      else
        let (service, off) = read_u64 body 0; (verified, off) = read_u64 body off
        in case (service, verified) of
             (Inr sv, Inr v) \<Rightarrow>
               if sv \<noteq> rp_service_id s then Inl St_integrity_failure else Inr (s\<lparr>rp_identity_verified := (v \<noteq> 0)\<rparr>)
           | _ \<Rightarrow> Inl St_integrity_failure)"

definition hint_event :: "u32 \<Rightarrow> bytes \<Rightarrow> replay_state \<Rightarrow> replay_state result" where
  "hint_event raw_size body s =
     (if raw_size \<noteq> 4 then Inl St_malformed_input
      else case fst (read_u32 body 0) of
             Inl st \<Rightarrow> Inl st
           | Inr v \<Rightarrow>
               (case protocol_hint_from v of
                  Inl st \<Rightarrow> Inl st
                | Inr hint \<Rightarrow> Inr (s\<lparr>rp_protocol_hint := hint\<rparr>)))"

definition process_event :: "u32 \<Rightarrow> bytes \<Rightarrow> replay_state \<Rightarrow> replay_state result" where
  "process_event raw_size body s =
     (if \<not> rp_flow_opened s \<or> raw_size \<noteq> 40 then Inl St_invalid_state_transition
      else
        let (parent, off) = read_u64 body 0; (child, off) = read_u64 body off;
            (external, off) = read_u64 body off; (signature, off) = read_u32 body off;
            (reserved, off) = read_u32 body off; (command_marker, off) = read_u64 body off
        in case (parent, child, external, signature, reserved, command_marker) of
             (Inr pa, Inr ch, Inr ex, Inr sg, Inr re, Inr cm) \<Rightarrow>
               (case signature_from sg of
                  Inl _ \<Rightarrow> Inl St_malformed_input
                | Inr sig \<Rightarrow>
                    if re \<noteq> 0 then Inl St_malformed_input
                    else Inr (s\<lparr>rp_process :=
                      \<lparr>pe_parent_process_id = pa, pe_child_process_id = ch, pe_inherited_flow_id = rp_flow_id s,
                       pe_parent_external_influenced = (ex \<noteq> 0), pe_child_signature = sig,
                       pe_image_path = (if cm \<noteq> 0 then ''powershell.exe'' else ''service.exe''),
                       pe_command_line = (if cm \<noteq> 0 then ''powershell -EncodedCommand AAAA'' else ''service'')\<rparr>\<rparr>))
           | _ \<Rightarrow> Inl St_malformed_input)"

definition file_event :: "u32 \<Rightarrow> bytes \<Rightarrow> replay_state \<Rightarrow> replay_state result" where
  "file_event raw_size body s =
     (if \<not> rp_flow_opened s \<or> raw_size \<noteq> 8 then Inl St_invalid_state_transition
      else case fst (read_u64 body 0) of
             Inl _ \<Rightarrow> Inl St_malformed_input
           | Inr v \<Rightarrow> Inr (s\<lparr>rp_file_external := (v \<noteq> 0)\<rparr>))"

definition close_event :: "u32 \<Rightarrow> replay_state \<Rightarrow> replay_state result" where
  "close_event raw_size s =
     (if \<not> rp_flow_opened s \<or> rp_flow_closed s \<or> raw_size \<noteq> 8 then Inl St_invalid_state_transition
      else Inr (s\<lparr>rp_flow_closed := True\<rparr>))"

definition context_event :: "u64 \<Rightarrow> u32 \<Rightarrow> bytes \<Rightarrow> replay_state \<Rightarrow> replay_state result" where
  "context_event policy_version raw_size body s =
     (if \<not> rp_flow_opened s \<or> raw_size \<noteq> 72 then Inl St_invalid_state_transition
      else
        let (object_id, off) = read_u64 body 0; (file_id, off) = read_u64 body off;
            (volume_id, off) = read_u64 body off; (provenance_id, off) = read_u64 body off;
            (process_id, off) = read_u64 body off; (parent_id, off) = read_u64 body off;
            (policy, off) = read_u64 body off; (model, off) = read_u64 body off;
            (flow, off) = read_u64 body off
        in case (object_id, file_id, volume_id, provenance_id, process_id, parent_id, policy, model, flow) of
             (Inr ob, Inr fi, Inr vo, Inr pv, Inr pr, Inr pa, Inr po, Inr mo, Inr fl) \<Rightarrow>
               if fl \<noteq> rp_flow_id s \<or> po \<noteq> policy_version \<or> mo = 0 then Inl St_integrity_failure
               else Inr (s\<lparr>rp_correlation :=
                 \<lparr>cx_flow_id = fl, cx_object_id = ob, cx_file_id = fi, cx_volume_id = vo, cx_provenance_id = pv,
                  cx_process_id = pr, cx_parent_process_id = pa, cx_policy_version = po, cx_model_version = mo\<rparr>\<rparr>)
           | _ \<Rightarrow> Inl St_integrity_failure)"

fun event_step :: "u64 \<Rightarrow> event_kind \<Rightarrow> u32 \<Rightarrow> bytes \<Rightarrow> replay_state \<Rightarrow> replay_state result" where
  "event_step policy EK_flow_open n body s = open_event n body s"
| "event_step policy EK_flow_data n body s = data_event body s"
| "event_step policy EK_service_identity n body s = identity_event n body s"
| "event_step policy EK_protocol_hint n body s = hint_event n body s"
| "event_step policy EK_process_evidence n body s = process_event n body s"
| "event_step policy EK_file_evidence n body s = file_event n body s"
| "event_step policy EK_flow_close n body s = close_event n s"
| "event_step policy EK_correlation_context n body s = context_event policy n body s"

fun event_loop :: "u64 \<Rightarrow> bytes \<Rightarrow> nat \<Rightarrow> nat \<Rightarrow> replay_state \<Rightarrow> (replay_state \<times> nat) result" where
  "event_loop policy bs 0 off s = Inr (s, off)"
| "event_loop policy bs (Suc n) off s =
     (let (raw_kind, off) = read_u32 bs off; (raw_size, off) = read_u32 bs off
      in case (raw_kind, raw_size) of
           (Inr k, Inr raw_size) \<Rightarrow>
             if raw_size > kMaxReplayEventBytes \<or> off + unat raw_size > length bs then Inl St_malformed_input
             else (case event_kind_from k of
                     Inl st \<Rightarrow> Inl st
                   | Inr kind \<Rightarrow>
                       (case event_step policy kind raw_size (take (unat raw_size) (drop off bs)) s of
                          Inl st \<Rightarrow> Inl st
                        | Inr s \<Rightarrow> event_loop policy bs n (off + unat raw_size) s))
         | _ \<Rightarrow> Inl St_malformed_input)"

definition log_magic :: bytes where "log_magic = bytes_of ''AISHRP02''"
definition flat_magic :: bytes where "flat_magic = bytes_of ''AISHRPLY''"

definition scenario_of :: "u64 \<Rightarrow> replay_state \<Rightarrow> scenario" where
  "scenario_of policy s = \<lparr>sc_flow_id = rp_flow_id s, sc_service_id = rp_service_id s, sc_policy_version = policy,
     sc_critical_service = rp_critical_service s, sc_payload = rp_payload s,
     sc_protocol_hint = (if rp_protocol_hint s = PH_unknown then PH_http1 else rp_protocol_hint s),
     sc_service_identity_verified = rp_identity_verified s, sc_file_external = rp_file_external s,
     sc_process = rp_process s, sc_correlation = rp_correlation s\<rparr>"

definition parse_log :: "bytes \<Rightarrow> scenario result" where
  "parse_log bs =
     (let (policy_version, off) = read_u64 bs 8; (event_count, off) = read_u64 bs off
      in case (policy_version, event_count) of
           (Inr policy, Inr n) \<Rightarrow>
             if policy = 0 \<or> n = 0 \<or> n > kMaxReplayEvents then Inl St_malformed_input
             else (case event_loop policy bs (unat n) off replay_start of
                     Inl st \<Rightarrow> Inl st
                   | Inr (s, off) \<Rightarrow>
                       if off \<noteq> length bs \<or> \<not> rp_flow_opened s \<or> \<not> rp_flow_closed s \<or> rp_payload s = []
                       then Inl St_malformed_input
                       else Inr (scenario_of policy s))
         | _ \<Rightarrow> Inl St_malformed_input)"

definition parse_flat :: "bytes \<Rightarrow> scenario result" where
  "parse_flat bs =
     (if length bs < 40 then Inl St_malformed_input
      else if \<not> starts_with flat_magic bs then Inl St_malformed_input
      else
        let (flow, off) = read_u64 bs 8; (service, off) = read_u64 bs off;
            (policy, off) = read_u64 bs off; (payload_size, off) = read_u64 bs off
        in case (flow, service, policy, payload_size) of
             (Inr f, Inr sv, Inr po, Inr n) \<Rightarrow>
               if unat n > kMaxReplayPayload \<or> off + unat n \<noteq> length bs then Inl St_malformed_input
               else Inr \<lparr>sc_flow_id = f, sc_service_id = sv, sc_policy_version = po, sc_critical_service = True,
                 sc_payload = take (unat n) (drop off bs), sc_protocol_hint = PH_http1,
                 sc_service_identity_verified = True, sc_file_external = False, sc_process = no_process,
                 sc_correlation = empty_context\<rparr>
           | _ \<Rightarrow> Inl St_malformed_input)"

definition parse_and_execute :: "bytes \<Rightarrow> replay_result result option" where
  "parse_and_execute bs =
     (case (if length bs \<ge> 24 \<and> starts_with log_magic bs then parse_log bs else parse_flat bs) of
        Inl st \<Rightarrow> Some (Inl st)
      | Inr scenario \<Rightarrow> execute scenario)"

section \<open>The integers of a log\<close>

lemma read_u32_le: "read_u32 bs off = read_le 4 bs off"
proof (cases "off + 4 > length bs")
  case False
  then have "length (take 4 (drop off bs)) = 4" by simp
  then have "le_word (take 4 (drop off bs)) =
      foldl (\<lambda>v i. v OR push_bit (i * 8) (ucast (take 4 (drop off bs) ! i))) (0 :: u32) [0..<4]" by (simp add: le_word_def)
  also have "\<dots> = foldl (\<lambda>v i. v OR push_bit (i * 8) (ucast (bs ! (off + i)))) 0 [0..<4]"
    by (rule foldl_cong) (use False in auto)
  finally show ?thesis using False by (simp add: read_u32_def read_le_def)
qed (simp add: read_u32_def read_le_def)

lemma read_u32_iff: "read_u32 bs off = (Inr v, off') \<longleftrightarrow> stands_at (le32 v) bs off \<and> off' = off + 4"
  using u32_codec.dec_iff [of bs off v] u32_codec.dec_moves [of bs off v]
  by (cases "read_le 4 bs off :: u32 result \<times> nat") (auto simp: read_u32_le)

lemma u64_halves: "(ucast (ucast v :: u32) OR push_bit 32 (ucast (ucast (drop_bit 32 v) :: u32)) :: u64) = v"
  by (rule bit_word_eqI) (auto simp: bit_simps)

lemma halves_u64:
  "ucast (ucast l OR push_bit 32 (ucast h) :: u64) = (l :: u32)"
  "ucast (drop_bit 32 (ucast l OR push_bit 32 (ucast h) :: u64)) = (h :: u32)"
  by (rule bit_word_eqI; auto simp: bit_simps dest: bit_imp_le_length)+

lemma le64_halves: "le64 v = le32 (ucast v) @ le32 (ucast (drop_bit 32 v))"
proof (rule nth_equalityI)
  fix i assume "i < length (le64 v)"
  then consider "i < 4" | j where "i = j + 4" "j < 4" by (metis add.commute le_Suc_ex length_le_bytes linorder_not_less nat_add_left_cancel_less numeral_Bit0)
  then show "le64 v ! i = (le32 (ucast v) @ le32 (ucast (drop_bit 32 v))) ! i"
    by cases (auto simp: le_bytes_def nth_append bit_simps algebra_simps intro!: bit_word_eqI)
qed simp

lemma read_u64_iff: "read_u64 bs off = (Inr v, off') \<longleftrightarrow> stands_at (le64 v) bs off \<and> off' = off + 8"
proof
  assume "read_u64 bs off = (Inr v, off')"
  then obtain l h off1 where "read_u32 bs off = (Inr l, off1)" "read_u32 bs off1 = (Inr h, off')"
    and v: "v = ucast l OR push_bit 32 (ucast h)"
    by (auto simp: read_u64_def Let_def split: prod.splits sum.splits)
  then have "stands_at (le32 l) bs off" "stands_at (le32 h) bs (off + 4)" "off' = off + 8" by (auto simp: read_u32_iff)
  then show "stands_at (le64 v) bs off \<and> off' = off + 8" unfolding v le64_halves halves_u64 stands_at_append by simp
next
  assume "stands_at (le64 v) bs off \<and> off' = off + 8"
  then have "read_u32 bs off = (Inr (ucast v), off + 4)" "read_u32 bs (off + 4) = (Inr (ucast (drop_bit 32 v)), off')"
    by (simp_all add: read_u32_iff le64_halves stands_at_append)
  then show "read_u64 bs off = (Inr v, off')" by (simp add: read_u64_def u64_halves)
qed

section \<open>Logs as lists of events\<close>

fun kind_code :: "event_kind \<Rightarrow> u32" where
  "kind_code EK_flow_open = 1"
| "kind_code EK_flow_data = 2"
| "kind_code EK_service_identity = 3"
| "kind_code EK_protocol_hint = 4"
| "kind_code EK_process_evidence = 5"
| "kind_code EK_file_evidence = 6"
| "kind_code EK_flow_close = 7"
| "kind_code EK_correlation_context = 8"

lemma event_kind_code [simp]: "event_kind_from (kind_code k) = Inr k"
  by (cases k) (simp_all add: event_kind_from_def)

type_synonym raw_event = "event_kind \<times> bytes"

definition event_bytes :: "raw_event \<Rightarrow> bytes" where
  "event_bytes e = le32 (kind_code (fst e)) @ le32 (of_nat (length (snd e))) @ snd e"

definition log_bytes :: "u64 \<Rightarrow> raw_event list \<Rightarrow> bytes" where
  "log_bytes policy evs = log_magic @ le64 policy @ le64 (of_nat (length evs)) @ concat (map event_bytes evs)"

definition small_events :: "raw_event list \<Rightarrow> bool" where
  "small_events evs \<longleftrightarrow> list_all (\<lambda>e. length (snd e) \<le> 1024 * 1024) evs"

fun run_events :: "u64 \<Rightarrow> raw_event list \<Rightarrow> replay_state \<Rightarrow> replay_state result" where
  "run_events policy [] s = Inr s"
| "run_events policy ((k, body) # evs) s =
     (case event_step policy k (of_nat (length body)) body s of
        Inl st \<Rightarrow> Inl st
      | Inr s \<Rightarrow> run_events policy evs s)"

lemma small_size:
  assumes "length body \<le> 1024 * 1024"
  shows "unat (of_nat (length body) :: u32) = length body" "\<not> (of_nat (length body) :: u32) > kMaxReplayEventBytes"
proof -
  show n: "unat (of_nat (length body) :: u32) = length body" using assms by (simp add: unat_of_nat)
  show "\<not> (of_nat (length body) :: u32) > kMaxReplayEventBytes"
    using assms by (simp add: kMaxReplayEventBytes_def word_less_nat_alt n)
qed

lemma event_loop_runs:
  assumes "small_events evs" "stands_at (concat (map event_bytes evs)) bs off"
  shows "event_loop policy bs (length evs) off s =
    (case run_events policy evs s of Inl st \<Rightarrow> Inl st
     | Inr s' \<Rightarrow> Inr (s', off + length (concat (map event_bytes evs))))"
  using assms
proof (induction evs arbitrary: off s)
  case (Cons e evs)
  obtain k body where e: "e = (k, body)" by (cases e)
  have small: "length body \<le> 1024 * 1024" and rest: "small_events evs" using Cons.prems(1) by (auto simp: small_events_def e)
  have at: "stands_at (le32 (kind_code k)) bs off" "stands_at (le32 (of_nat (length body))) bs (off + 4)"
    "stands_at body bs (off + 8)" "stands_at (concat (map event_bytes evs)) bs (off + 8 + length body)"
    using Cons.prems(2) by (simp_all add: e event_bytes_def [of "(k, body)"] stands_at_append add.assoc)
  then have reads: "read_u32 bs off = (Inr (kind_code k), off + 4)"
    "read_u32 bs (off + 4) = (Inr (of_nat (length body)), off + 8)" by (simp_all add: read_u32_iff)
  have "off + 8 + length body \<le> length bs"
    using stands_at_length [OF at(2)] stands_at_length [OF at(3)]
    by (cases "body = []") (auto simp flip: length_greater_0_conv)
  moreover have "take (length body) (drop (off + 8) bs) = body" using at(3) by (simp add: stands_at_take)
  ultimately show ?case
    using Cons.IH [OF rest at(4)] small_size [OF small]
    by (simp add: e reads event_bytes_def [of "(k, body)"] add.assoc split: sum.split)
qed simp

lemma log_bytes_parts:
  assumes "bs = log_bytes policy evs" "length evs \<le> 4096"
  shows "starts_with log_magic bs" "24 \<le> length bs" "read_u64 bs 8 = (Inr policy, 16)"
    "read_u64 bs 16 = (Inr (of_nat (length evs)), 24)" "stands_at (concat (map event_bytes evs)) bs 24"
    "length bs = 24 + length (concat (map event_bytes evs))"
proof -
  have m: "length log_magic = 8" by (simp add: log_magic_def bytes_of_def)
  have "stands_at bs bs 0" by (simp add: stands_at_def)
  then have at: "stands_at log_magic bs 0" "stands_at (le64 policy) bs 8" "stands_at (le64 (of_nat (length evs))) bs 16"
    "stands_at (concat (map event_bytes evs)) bs 24"
    using stands_at_append [of _ _ bs] by (auto simp: assms(1) log_bytes_def m)
  show "length bs = 24 + length (concat (map event_bytes evs))" by (simp add: assms(1) log_bytes_def m)
  then show "starts_with log_magic bs" "24 \<le> length bs"
    using at(1) by (simp_all add: starts_with_stands m)
  show "read_u64 bs 8 = (Inr policy, 16)" "read_u64 bs 16 = (Inr (of_nat (length evs)), 24)"
    using at by (simp_all add: read_u64_iff)
  show "stands_at (concat (map event_bytes evs)) bs 24" by (rule at)
qed

lemma replay_log_reads:
  assumes "small_events evs" "length evs \<le> 4096"
  shows "parse_and_execute (log_bytes policy evs) =
    (if policy = 0 \<or> evs = [] then Some (Inl St_malformed_input)
     else case run_events policy evs replay_start of
            Inl st \<Rightarrow> Some (Inl st)
          | Inr s \<Rightarrow> if rp_flow_opened s \<and> rp_flow_closed s \<and> rp_payload s \<noteq> [] then execute (scenario_of policy s)
                    else Some (Inl St_malformed_input))"
proof -
  note parts = log_bytes_parts [OF refl assms(2), of policy]
  have n: "unat (of_nat (length evs) :: u64) = length evs" using assms(2) by (simp add: unat_of_nat)
  have count: "\<not> (of_nat (length evs) :: u64) > kMaxReplayEvents" "(of_nat (length evs) :: u64) = 0 \<longleftrightarrow> evs = []"
    using assms(2) by (auto simp: kMaxReplayEvents_def word_less_nat_alt word_unat_eq_iff n)
  show ?thesis
    using event_loop_runs [OF assms(1) parts(5), of policy replay_start]
    by (auto simp: parse_and_execute_def parse_log_def parts count n split: sum.split)
qed

text \<open>
  C12: a log is read back as it was written. For any list of at most 4096 events with bodies of
  at most one MiB, the bytes of the log are executed as the run of exactly these events, in
  their order: refused with the status of the first event that is refused; refused as
  malformed without a policy version or without events, or when the flow was not opened, not
  closed or carried no data; otherwise the scenario of the final state is executed.
\<close>

theorem replay_log_roundtrip:
  assumes "small_events evs" "length evs \<le> 4096"
  shows "parse_and_execute (log_bytes policy evs) =
    (if policy = 0 \<or> evs = [] then Some (Inl St_malformed_input)
     else case run_events policy evs replay_start of
            Inl st \<Rightarrow> Some (Inl st)
          | Inr s \<Rightarrow> if rp_flow_opened s \<and> rp_flow_closed s \<and> rp_payload s \<noteq> [] then execute (scenario_of policy s)
                    else Some (Inl St_malformed_input))"
  using replay_log_reads [OF assms] .

definition sample_log :: "raw_event list" where
  "sample_log = [(EK_protocol_hint, le32 1), (EK_flow_open, le64 7 @ le64 3 @ le64 1 @ le64 0),
     (EK_service_identity, le64 3 @ le64 1), (EK_flow_data, [71, 69, 84, 32, 47, 46]), (EK_flow_data, [46, 47, 101]),
     (EK_flow_close, le64 0)]"

definition sample_end :: replay_state where
  "sample_end = replay_start\<lparr>rp_flow_id := 7, rp_service_id := 3, rp_identity_verified := True,
     rp_flow_opened := True, rp_flow_closed := True, rp_protocol_hint := PH_http1, rp_payload := [71, 69, 84, 32, 47, 46, 46, 47, 101]\<rparr>"

lemma sample_runs: "run_events 1 sample_log replay_start = Inr sample_end"
proof -
  have "stands_at (le32 1) (le32 1) 0" "stands_at (le64 7) (le64 7 @ x) 0" "stands_at (le64 3) (le64 7 @ le64 3 @ y) 8"
    "stands_at (le64 1) (le64 7 @ le64 3 @ le64 1 @ z) 16" "stands_at (le64 0) (le64 7 @ le64 3 @ le64 1 @ le64 0) 24"
    "stands_at (le64 3) (le64 3 @ x) 0" "stands_at (le64 1) (le64 3 @ le64 1) 8" for x y z
    by (simp_all add: stands_at_def)
  then have "read_u32 (le32 1) 0 = (Inr 1, 4)" "read_u64 (le64 7 @ x) 0 = (Inr 7, 8)"
    "read_u64 (le64 7 @ le64 3 @ y) 8 = (Inr 3, 16)" "read_u64 (le64 7 @ le64 3 @ le64 1 @ z) 16 = (Inr 1, 24)"
    "read_u64 (le64 7 @ le64 3 @ le64 1 @ le64 0) 24 = (Inr 0, 32)"
    "read_u64 (le64 3 @ x) 0 = (Inr 3, 8)" "read_u64 (le64 3 @ le64 1) 8 = (Inr 1, 16)" for x y z
    by (simp_all add: read_u32_iff read_u64_iff)
  note reads = this
  show ?thesis
    by (simp add: sample_log_def sample_end_def replay_start_def reads hint_event_def open_event_def identity_event_def
        data_event_def close_event_def protocol_hint_from_def kMaxReplayPayload_def)
qed

theorem replay_log_roundtrip_witness:
  "parse_and_execute (log_bytes 1 sample_log) = execute (scenario_of 1 sample_end)"
  using replay_log_roundtrip [of sample_log 1] sample_runs
  by (simp add: small_events_def sample_log_def sample_end_def)

section \<open>The order of the events\<close>

abbreviation kinds :: "raw_event list \<Rightarrow> event_kind set" where
  "kinds evs \<equiv> fst ` set evs"

definition data_of :: "raw_event list \<Rightarrow> bytes" where
  "data_of evs = concat (map snd (filter (\<lambda>e. fst e = EK_flow_data) evs))"

text \<open>What an accepted event changes, whatever its kind.\<close>

definition step_effect :: "event_kind \<Rightarrow> bytes \<Rightarrow> replay_state \<Rightarrow> replay_state \<Rightarrow> bool" where
  "step_effect k body s t \<longleftrightarrow>
     (if k = EK_flow_open
      then \<not> rp_flow_opened s \<and> prefix (le64 (rp_flow_id t) @ le64 (rp_service_id t)) body \<and>
        rp_flow_id t \<noteq> 0 \<and> rp_service_id t \<noteq> 0
      else rp_flow_id t = rp_flow_id s \<and> rp_service_id t = rp_service_id s \<and> (rp_flow_opened s \<or> k = EK_protocol_hint)) \<and>
     rp_flow_opened t = (rp_flow_opened s \<or> k = EK_flow_open) \<and>
     rp_flow_closed t = (rp_flow_closed s \<or> k = EK_flow_close) \<and>
     (if k = EK_flow_close \<or> k = EK_flow_data then \<not> rp_flow_closed s else True) \<and>
     rp_payload t = rp_payload s @ (if k = EK_flow_data then body else []) \<and>
     (if length (rp_payload s) \<le> kMaxReplayPayload then length (rp_payload t) \<le> kMaxReplayPayload else True)"

lemma open_effect: "open_event n body s = Inr t \<Longrightarrow> step_effect EK_flow_open body s t"
proof -
  assume "open_event n body s = Inr t"
  then obtain f sv cr mo o1 o2 o3 o4 where "\<not> rp_flow_opened s" "f \<noteq> 0" "sv \<noteq> 0"
    and "read_u64 body 0 = (Inr f, o1)" "read_u64 body o1 = (Inr sv, o2)"
    and t: "t = s\<lparr>rp_flow_id := f, rp_service_id := sv, rp_critical_service := (cr \<noteq> (0 :: u64)), rp_flow_opened := True\<rparr>"
    by (auto simp: open_event_def Let_def split: prod.splits sum.splits if_splits)
  then have "stands_at (le64 f @ le64 sv) body 0" by (simp add: read_u64_iff stands_at_append)
  then show ?thesis using \<open>\<not> rp_flow_opened s\<close> \<open>f \<noteq> 0\<close> \<open>sv \<noteq> 0\<close> by (simp add: step_effect_def t stands_at_def)
qed

lemma event_effect: "event_step policy k n body s = Inr t \<Longrightarrow> step_effect k body s t"
proof (cases k)
  case EK_flow_open
  then show "event_step policy k n body s = Inr t \<Longrightarrow> ?thesis" by (simp add: open_effect)
next
  case EK_flow_data
  then show "event_step policy k n body s = Inr t \<Longrightarrow> ?thesis"
    by (auto simp: data_event_def step_effect_def split: if_splits)
next
  case EK_service_identity
  then show "event_step policy k n body s = Inr t \<Longrightarrow> ?thesis"
    by (auto simp: identity_event_def step_effect_def Let_def split: prod.splits sum.splits if_splits)
next
  case EK_protocol_hint
  then show "event_step policy k n body s = Inr t \<Longrightarrow> ?thesis"
    by (auto simp: hint_event_def step_effect_def split: sum.splits if_splits)
next
  case EK_process_evidence
  then show "event_step policy k n body s = Inr t \<Longrightarrow> ?thesis"
    by (auto simp: process_event_def step_effect_def Let_def split: prod.splits sum.splits if_splits)
next
  case EK_correlation_context
  then show "event_step policy k n body s = Inr t \<Longrightarrow> ?thesis"
    by (auto simp: context_event_def step_effect_def Let_def split: prod.splits sum.splits if_splits)
qed (auto simp: file_event_def close_event_def step_effect_def split: sum.splits if_splits)

text \<open>
  The shape of what was read so far: hints until the flow opens; then the session, with the
  data in its order; after the close no data and no second open or close.
\<close>

definition session_shape :: "raw_event list \<Rightarrow> bytes \<Rightarrow> raw_event list \<Rightarrow> raw_event list \<Rightarrow> replay_state \<Rightarrow> bool" where
  "session_shape before head session after s \<longleftrightarrow>
     kinds before \<subseteq> {EK_protocol_hint} \<and> EK_flow_open \<notin> kinds session \<and> EK_flow_close \<notin> kinds session \<and>
     rp_payload s = data_of session \<and> rp_flow_id s \<noteq> 0 \<and> rp_service_id s \<noteq> 0 \<and>
     prefix (le64 (rp_flow_id s) @ le64 (rp_service_id s)) head \<and>
     (if rp_flow_closed s
      then after \<noteq> [] \<and> fst (hd after) = EK_flow_close \<and> kinds (tl after) \<inter> {EK_flow_open, EK_flow_close, EK_flow_data} = {}
      else after = [])"

definition log_shape :: "raw_event list \<Rightarrow> replay_state \<Rightarrow> bool" where
  "log_shape evs s \<longleftrightarrow>
     length (rp_payload s) \<le> kMaxReplayPayload \<and>
     (if \<not> rp_flow_opened s then \<not> rp_flow_closed s \<and> rp_payload s = [] \<and> kinds evs \<subseteq> {EK_protocol_hint}
      else \<exists>before head session after. evs = before @ (EK_flow_open, head) # session @ after \<and>
        session_shape before head session after s)"

lemma data_of_snoc [simp]: "data_of (evs @ [(k, body)]) = data_of evs @ (if k = EK_flow_data then body else [])"
  by (simp add: data_of_def)

lemma data_of_Nil [simp]: "data_of [] = []"
  by (simp add: data_of_def)

lemma log_shapeI:
  assumes "rp_flow_opened s" "length (rp_payload s) \<le> kMaxReplayPayload"
    and "evs = before @ (EK_flow_open, head) # session @ after" "session_shape before head session after s"
  shows "log_shape evs s"
  using assms by (auto simp: log_shape_def)

lemma log_shapeE:
  assumes "log_shape evs s" "rp_flow_opened s"
  obtains before head session after where "length (rp_payload s) \<le> kMaxReplayPayload"
    "evs = before @ (EK_flow_open, head) # session @ after" "session_shape before head session after s"
  using assms by (auto simp: log_shape_def)

lemma log_shape_opens:
  assumes "log_shape evs s" "step_effect EK_flow_open body s t"
  shows "log_shape (evs @ [(EK_flow_open, body)]) t"
proof -
  have s: "\<not> rp_flow_opened s" "\<not> rp_flow_closed s" "rp_payload s = []" "kinds evs \<subseteq> {EK_protocol_hint}"
    using assms by (auto simp: log_shape_def step_effect_def)
  then show ?thesis
    using assms(2) by (intro log_shapeI [where before = evs and session = "[]"]) (auto simp: step_effect_def session_shape_def)
qed

lemma log_shape_closes:
  assumes "log_shape evs s" "step_effect EK_flow_close body s t" "rp_flow_opened s"
  shows "log_shape (evs @ [(EK_flow_close, body)]) t"
proof -
  obtain before head session after where "length (rp_payload s) \<le> kMaxReplayPayload"
    "evs = before @ (EK_flow_open, head) # session @ after" "session_shape before head session after s"
    using log_shapeE [OF assms(1,3)] by blast
  then show ?thesis
    using assms(2,3)
    by (intro log_shapeI [where before = before and head = head and session = session and after = "[(EK_flow_close, body)]"])
      (auto simp: step_effect_def session_shape_def)
qed

lemma log_shape_goes_on:
  assumes "log_shape evs s" "step_effect k body s t" "k \<noteq> EK_flow_open" "k \<noteq> EK_flow_close"
  shows "log_shape (evs @ [(k, body)]) t"
proof (cases "rp_flow_opened s")
  case False
  then show ?thesis using assms by (auto simp: log_shape_def step_effect_def split: if_splits)
next
  case True
  then obtain before head session after where *: "length (rp_payload s) \<le> kMaxReplayPayload"
    "evs = before @ (EK_flow_open, head) # session @ after" "session_shape before head session after s"
    using log_shapeE [OF assms(1)] by blast
  show ?thesis
  proof (cases "rp_flow_closed s")
    case closed: True
    then have "after \<noteq> []" using *(3) by (simp add: session_shape_def)
    with * show ?thesis
      using assms(2-) True closed
      by (intro log_shapeI [where before = before and head = head and session = session and after = "after @ [(k, body)]"])
        (auto simp: step_effect_def session_shape_def)
  next
    case False
    with * show ?thesis
      using assms(2-) True
      by (intro log_shapeI [where before = before and head = head and session = "session @ [(k, body)]" and after = "[]"])
        (auto simp: step_effect_def session_shape_def)
  qed
qed

lemma run_events_snoc:
  "run_events policy (evs @ [(k, body)]) s =
    (case run_events policy evs s of
       Inl st \<Rightarrow> Inl st
     | Inr t \<Rightarrow> event_step policy k (of_nat (length body)) body t)"
  by (induction policy evs s rule: run_events.induct) (auto split: sum.split)

lemma run_events_shape: "run_events policy evs replay_start = Inr s \<Longrightarrow> log_shape evs s"
proof (induction evs arbitrary: s rule: rev_induct)
  case Nil
  then show ?case by (auto simp: log_shape_def replay_start_def)
next
  case (snoc e evs)
  obtain k body where e: "e = (k, body)" by (cases e)
  then obtain t where t: "run_events policy evs replay_start = Inr t" and step: "event_step policy k (of_nat (length body)) body t = Inr s"
    using snoc.prems by (auto simp: run_events_snoc split: sum.splits)
  note shape = snoc.IH [OF t] and effect = event_effect [OF step]
  consider "k = EK_flow_open" | "k = EK_flow_close" | "k \<noteq> EK_flow_open" "k \<noteq> EK_flow_close" by blast
  then show ?case
  proof cases
    case 2
    then have "rp_flow_opened t" using effect by (simp add: step_effect_def)
    then show ?thesis using log_shape_closes shape effect by (simp add: e 2)
  qed (use shape effect in \<open>simp_all add: e log_shape_opens log_shape_goes_on\<close>)
qed

text \<open>
  C11: only a well-ordered session is ever executed, and it is executed whole. If a log is
  executed, its events are protocol hints, one open, a session without another open or
  close, one close, and then neither data nor open nor close. The flow and the service are
  those the open names, the payload is the data of the session in its order and within the
  limit; and an attack in it is quarantined however it was spread over the data events.
\<close>

theorem replay_log_ordered:
  assumes "small_events evs" "length evs \<le> 4096"
    and "parse_and_execute (log_bytes policy evs) = Some (Inr r)"
  shows "\<exists>before head session closing rest s.
    evs = before @ (EK_flow_open, head) # session @ (EK_flow_close, closing) # rest \<and>
    kinds before \<subseteq> {EK_protocol_hint} \<and> EK_flow_open \<notin> kinds session \<and> EK_flow_close \<notin> kinds session \<and>
    kinds rest \<inter> {EK_flow_open, EK_flow_close, EK_flow_data} = {} \<and>
    execute s = Some (Inr r) \<and> sc_policy_version s = policy \<and>
    prefix (le64 (sc_flow_id s) @ le64 (sc_service_id s)) head \<and>
    sc_payload s = data_of session \<and> length (data_of session) \<le> 1024 * 1024 \<and>
    (hard_payload (text_of (data_of session)) \<longrightarrow> sd_action (rr_decision r) = action_code SA_quarantine)"
proof -
  obtain s where run: "run_events policy evs replay_start = Inr s" and "rp_flow_opened s" and closed: "rp_flow_closed s"
    and exec: "execute (scenario_of policy s) = Some (Inr r)"
    using assms(3) replay_log_reads [OF assms(1,2), of policy] by (auto split: if_splits sum.splits)
  obtain before head session after where len: "length (rp_payload s) \<le> kMaxReplayPayload"
    and evs: "evs = before @ (EK_flow_open, head) # session @ after" and shape: "session_shape before head session after s"
    using log_shapeE [OF run_events_shape [OF run] \<open>rp_flow_opened s\<close>] by blast
  obtain closing rest where after: "after = (EK_flow_close, closing) # rest"
    using shape closed by (cases after) (auto simp: session_shape_def)
  have "hard_payload (text_of (data_of session)) \<longrightarrow> sd_action (rr_decision r) = action_code SA_quarantine"
    using attacks_stopped [OF exec] shape by (simp add: scenario_of_def session_shape_def)
  then show ?thesis
    using len evs shape closed after exec
    by (intro exI [of _ before] exI [of _ head] exI [of _ session] exI [of _ closing] exI [of _ rest]
        exI [of _ "scenario_of policy s"]) (simp add: session_shape_def scenario_of_def kMaxReplayPayload_def)
qed

lemma sample_log_executes:
  "parse_and_execute (log_bytes 1 sample_log) =
     Some (Inr (replayed (scenario_of 1 sample_end) (gathered_evidence (scenario_of 1 sample_end))))"
proof -
  have "parse_and_execute (log_bytes 1 sample_log) = execute (scenario_of 1 sample_end)"
    using replay_log_reads [of sample_log 1] sample_runs by (simp add: small_events_def sample_log_def sample_end_def)
  then show ?thesis
    by (simp add: execute_exact scenario_of_def sample_end_def replay_start_def process_node_id_def replay_context_def
        empty_context_def no_process_def kMaxReplayPayload_def)
qed

theorem replay_log_ordered_witness:
  "\<exists>before head session closing rest (s :: scenario).
     sample_log = before @ (EK_flow_open, head) # session @ (EK_flow_close, closing) # rest \<and>
     kinds before \<subseteq> {EK_protocol_hint} \<and> sc_payload s = data_of session \<and>
     prefix (le64 (sc_flow_id s) @ le64 (sc_service_id s)) head"
proof -
  have "small_events sample_log" "length sample_log \<le> 4096" by (simp_all add: small_events_def sample_log_def)
  from replay_log_ordered [OF this sample_log_executes] show ?thesis
    by (elim exE conjE, intro exI conjI) assumption+
qed

end
