(* ===== verification/AIS_Kernel.thy ===== *)
theory AIS_Kernel
  imports AIS_Abi
begin

text \<open>
  What the three Windows drivers share: the records and constants of
  \<open>platform/windows/common/ai_shield_driver_protocol.h\<close>, the event queue of
  \<open>ai_shield_event_queue.h\<close>, the markers they look for in paths, and the path hash. What the
  kernel supplies is a parameter: the record \<open>kernel\<close> carries its table of upper-case
  characters and the values of its constants; identifiers, names and times enter the
  operations as arguments. Locks make each operation atomic, so that a run is a sequence
  of operations.
\<close>

section \<open>Records of the protocol\<close>

type_synonym wchar = u16
type_synonym wide = "wchar list"

record kernel =
  k_upcase :: "wchar \<Rightarrow> wchar"
  k_action_block :: u32
  k_action_permit :: u32
  k_access_denied :: u32

datatype ntstatus =
    NT_success | NT_invalid_device_request | NT_invalid_parameter | NT_no_more_entries | NT_access_denied
  | NT_insufficient_resources

definition protocol_version :: u32 where "protocol_version = 0x00010002"
definition policy_audit :: u32 where "policy_audit = 0"
definition policy_enforce :: u32 where "policy_enforce = 1"
definition block_quarantine_execution :: u32 where "block_quarantine_execution = 0x01"
definition block_user_temp_execution :: u32 where "block_user_temp_execution = 0x02"
definition block_download_execution :: u32 where "block_download_execution = 0x04"
definition block_risky_script_command :: u32 where "block_risky_script_command = 0x08"
definition block_office_child_process :: u32 where "block_office_child_process = 0x10"
definition system_network_guard :: u32 where "system_network_guard = 0x20"
definition block_unsolicited_inbound :: u32 where "block_unsolicited_inbound = 0x40"
definition block_browser_non_web :: u32 where "block_browser_non_web = 0x80"
definition policy_all_flags :: u32 where "policy_all_flags = 0xff"

definition sensor_wfp :: u32 where "sensor_wfp = 1"
definition sensor_minifilter :: u32 where "sensor_minifilter = 2"
definition sensor_process :: u32 where "sensor_process = 3"

definition event_connect :: u32 where "event_connect = 1"
definition event_accept :: u32 where "event_accept = 2"
definition event_redirect :: u32 where "event_redirect = 3"
definition event_file_open :: u32 where "event_file_open = 4"
definition event_process_create :: u32 where "event_process_create = 5"
definition event_file_write :: u32 where "event_file_write = 6"
definition event_file_rename :: u32 where "event_file_rename = 7"
definition event_image_section :: u32 where "event_image_section = 8"
definition event_image_load :: u32 where "event_image_load = 9"
definition event_handle_filter :: u32 where "event_handle_filter = 10"

definition flag_ipv6 :: u32 where "flag_ipv6 = 0x01"
definition flag_blocked :: u32 where "flag_blocked = 0x02"
definition flag_risky_command :: u32 where "flag_risky_command = 0x08"
definition flag_office_child :: u32 where "flag_office_child = 0x10"

definition file_pending :: u32 where "file_pending = 0"
definition file_clean :: u32 where "file_clean = 1"
definition file_quarantined :: u32 where "file_quarantined = 2"

record driver_policy =
  dp_version :: u32
  dp_size :: u32
  dp_mode :: u32
  dp_block_inbound_port :: u32
  dp_redirect_outbound_port :: u32
  dp_proxy_port :: u32
  dp_flags :: u32
  dp_exempt_process_id :: u32

record driver_status =
  dt_version :: u32
  dt_size :: u32
  dt_mode :: u32
  dt_observed :: u64
  dt_allowed :: u64
  dt_blocked :: u64
  dt_redirected :: u64
  dt_dropped_telemetry :: u64

record driver_event =
  dv_version :: u32
  dv_size :: u32
  dv_sensor :: u32
  dv_kind :: u32
  dv_sequence :: u64
  dv_timestamp_100ns :: u64
  dv_process_id :: u64
  dv_subject_id :: u64
  dv_address_family :: u32
  dv_local_port :: u32
  dv_remote_port :: u32
  dv_decision :: u32
  dv_flags :: u32
  dv_reserved :: u32

record registration =
  rg_version :: u32
  rg_size :: u32
  rg_process_id :: u64

definition sizeof_policy :: u32 where "sizeof_policy = 32"
definition sizeof_status :: u32 where "sizeof_status = 56"
definition sizeof_event :: u32 where "sizeof_event = 72"
definition sizeof_registration :: u32 where "sizeof_registration = 16"

definition no_event :: driver_event where
  "no_event = \<lparr>dv_version = 0, dv_size = 0, dv_sensor = 0, dv_kind = 0, dv_sequence = 0, dv_timestamp_100ns = 0,
     dv_process_id = 0, dv_subject_id = 0, dv_address_family = 0, dv_local_port = 0, dv_remote_port = 0,
     dv_decision = 0, dv_flags = 0, dv_reserved = 0\<rparr>"

definition start_policy :: driver_policy where
  "start_policy = \<lparr>dp_version = protocol_version, dp_size = sizeof_policy, dp_mode = policy_audit,
     dp_block_inbound_port = 0, dp_redirect_outbound_port = 0, dp_proxy_port = 0, dp_flags = 0, dp_exempt_process_id = 0\<rparr>"

definition start_status :: driver_status where
  "start_status = \<lparr>dt_version = protocol_version, dt_size = sizeof_status, dt_mode = policy_audit,
     dt_observed = 0, dt_allowed = 0, dt_blocked = 0, dt_redirected = 0, dt_dropped_telemetry = 0\<rparr>"

abbreviation enforcing :: "driver_policy \<Rightarrow> bool" where
  "enforcing p \<equiv> dp_mode p = policy_enforce"

abbreviation has_flag :: "driver_policy \<Rightarrow> u32 \<Rightarrow> bool" where
  "has_flag p f \<equiv> dp_flags p AND f \<noteq> 0"

section \<open>The event queue\<close>

record event_queue =
  eq_read_index :: u32
  eq_write_index :: u32
  eq_count :: u32
  eq_next_sequence :: u64
  eq_events :: "driver_event list"

definition queue_capacity :: u32 where "queue_capacity = 256"

definition queue_initialize :: event_queue where
  "queue_initialize = \<lparr>eq_read_index = 0, eq_write_index = 0, eq_count = 0, eq_next_sequence = 1,
     eq_events = replicate 256 no_event\<rparr>"

definition queue_push :: "event_queue \<Rightarrow> driver_event \<Rightarrow> bool \<times> event_queue" where
  "queue_push q event =
     (if eq_count q < queue_capacity
      then let event = event\<lparr>dv_version := protocol_version, dv_size := sizeof_event, dv_sequence := eq_next_sequence q\<rparr>
           in (True, q\<lparr>eq_next_sequence := eq_next_sequence q + 1,
                eq_events := (eq_events q)[unat (eq_write_index q) := event],
                eq_write_index := (eq_write_index q + 1) mod queue_capacity,
                eq_count := eq_count q + 1\<rparr>)
      else (False, q))"

definition queue_pop :: "event_queue \<Rightarrow> driver_event option \<times> event_queue" where
  "queue_pop q =
     (if eq_count q \<noteq> 0
      then (Some (eq_events q ! unat (eq_read_index q)),
            q\<lparr>eq_read_index := (eq_read_index q + 1) mod queue_capacity, eq_count := eq_count q - 1\<rparr>)
      else (None, q))"

text \<open>\<open>if (!Push) InterlockedIncrement64(&g_Status.DroppedTelemetry)\<close>\<close>

definition report :: "driver_event \<Rightarrow> event_queue \<times> driver_status \<Rightarrow> event_queue \<times> driver_status" where
  "report event s =
     (let (accepted, q) = queue_push (fst s) event
      in (q, if accepted then snd s else (snd s)\<lparr>dt_dropped_telemetry := dt_dropped_telemetry (snd s) + 1\<rparr>))"

section \<open>Markers in paths\<close>

text \<open>Markers are written here with slashes for the backslashes of the source.\<close>

definition win :: "string \<Rightarrow> string" where
  "win s = map (\<lambda>c. if c = CHR ''/'' then CHR 0x5C else c) s"

definition wide_text :: "string \<Rightarrow> wide" where
  "wide_text s = map of_char s"

text \<open>\<open>RtlEqualUnicodeString\<close> with case-insensitive comparison.\<close>

definition equal_ci :: "kernel \<Rightarrow> wide \<Rightarrow> wide \<Rightarrow> bool" where
  "equal_ci k a b \<longleftrightarrow> map (k_upcase k) a = map (k_upcase k) b"

definition path_contains :: "kernel \<Rightarrow> string \<Rightarrow> wide \<Rightarrow> bool" where
  "path_contains k marker path =
     (let m = wide_text marker in
      length m \<le> length path \<and>
      list_ex (\<lambda>offset. equal_ci k (take (length m) (drop offset path)) m) [0..<Suc (length path - length m)])"

definition path_ends_with :: "kernel \<Rightarrow> string \<Rightarrow> wide \<Rightarrow> bool" where
  "path_ends_with k suffix' path =
     (let m = wide_text suffix' in
      length m \<le> length path \<and> equal_ci k (drop (length path - length m) path) m)"

definition path_hash :: "kernel \<Rightarrow> wide \<Rightarrow> u64" where
  "path_hash k path = foldl (\<lambda>hash c. (hash XOR ucast (k_upcase k c)) * 1099511628211) 1469598103934665603 path"

lemma path_contains_iff:
  "path_contains k marker path \<longleftrightarrow> sublist (map (k_upcase k) (wide_text marker)) (map (k_upcase k) path)"
proof
  assume "path_contains k marker path"
  then obtain i where "equal_ci k (take (length (wide_text marker)) (drop i path)) (wide_text marker)"
    by (auto simp: path_contains_def Let_def list_ex_iff simp del: upt_Suc)
  then have eq: "take (length (wide_text marker)) (drop i (map (k_upcase k) path)) = map (k_upcase k) (wide_text marker)"
    by (simp add: equal_ci_def take_map drop_map)
  then show "sublist (map (k_upcase k) (wide_text marker)) (map (k_upcase k) path)"
    by (metis sublist_drop sublist_order.order_trans sublist_take)
next
  assume "sublist (map (k_upcase k) (wide_text marker)) (map (k_upcase k) path)"
  then obtain a b where ab: "map (k_upcase k) path = a @ map (k_upcase k) (wide_text marker) @ b" by (auto simp: sublist_def)
  then have len: "length path = length a + length (wide_text marker) + length b"
    by (metis add.assoc length_append length_map)
  have "take (length (wide_text marker)) (drop (length a) (map (k_upcase k) path)) = map (k_upcase k) (wide_text marker)"
    by (simp add: ab)
  then have "equal_ci k (take (length (wide_text marker)) (drop (length a) path)) (wide_text marker)"
    by (simp add: equal_ci_def take_map drop_map)
  then show "path_contains k marker path"
    using len by (auto simp: path_contains_def Let_def list_ex_iff intro!: bexI [of _ "length a"] simp del: upt_Suc)
qed

section \<open>The queue keeps order and numbers\<close>

definition queue_inv :: "event_queue \<Rightarrow> bool" where
  "queue_inv q \<longleftrightarrow> length (eq_events q) = 256 \<and> unat (eq_read_index q) < 256 \<and> unat (eq_count q) \<le> 256 \<and>
     unat (eq_write_index q) = (unat (eq_read_index q) + unat (eq_count q)) mod 256"

definition queue_items :: "event_queue \<Rightarrow> driver_event list" where
  "queue_items q = map (\<lambda>i. eq_events q ! ((unat (eq_read_index q) + i) mod 256)) [0..<unat (eq_count q)]"

definition stamped :: "u64 \<Rightarrow> driver_event \<Rightarrow> driver_event" where
  "stamped n event = event\<lparr>dv_version := protocol_version, dv_size := sizeof_event, dv_sequence := n\<rparr>"

lemma next_index: "unat (i :: u32) < 256 \<Longrightarrow> unat ((i + 1) mod queue_capacity) = (unat i + 1) mod 256"
  by (simp add: queue_capacity_def unat_mod unat_plus_if')

lemma queue_push_refines:
  assumes "queue_inv q"
  shows "queue_inv (snd (queue_push q e))"
    and "fst (queue_push q e) \<longleftrightarrow> length (queue_items q) < 256"
    and "queue_items (snd (queue_push q e)) =
      queue_items q @ (if length (queue_items q) < 256 then [stamped (eq_next_sequence q) e] else [])"
    and "eq_next_sequence (snd (queue_push q e)) = eq_next_sequence q + (if length (queue_items q) < 256 then 1 else 0)"
proof -
  have len: "length (queue_items q) = unat (eq_count q)" by (simp add: queue_items_def)
  have full: "eq_count q < queue_capacity \<longleftrightarrow> unat (eq_count q) < 256"
    by (simp add: queue_capacity_def word_less_nat_alt)
  have count: "unat (eq_count q + 1) = unat (eq_count q) + 1" if "unat (eq_count q) < 256"
    using that by (simp add: unat_plus_if')
  have wr: "unat (eq_write_index q) < 256" using assms by (simp add: queue_inv_def)
  show "fst (queue_push q e) \<longleftrightarrow> length (queue_items q) < 256" by (simp add: queue_push_def Let_def full len)
  show "queue_inv (snd (queue_push q e))"
    using assms wr by (auto simp: queue_push_def Let_def full count queue_inv_def next_index mod_simps)
  show "eq_next_sequence (snd (queue_push q e)) = eq_next_sequence q + (if length (queue_items q) < 256 then 1 else 0)"
    by (simp add: queue_push_def Let_def full len)
  have old: False
    if "(unat (eq_read_index q) + unat (eq_count q)) mod 256 = (unat (eq_read_index q) + i) mod 256"
      "i < unat (eq_count q)" "unat (eq_count q) < 256" for i
  proof -
    have "unat (eq_count q) mod 256 = i mod 256" using that(1) by (simp add: nat_mod_eq_iff)
    then show False using that by simp
  qed
  show "queue_items (snd (queue_push q e)) =
      queue_items q @ (if length (queue_items q) < 256 then [stamped (eq_next_sequence q) e] else [])"
    using assms wr
    by (auto simp: queue_push_def Let_def full len queue_items_def count queue_inv_def stamped_def nth_list_update dest: old)
qed

lemma queue_pop_refines:
  assumes "queue_inv q"
  shows "queue_inv (snd (queue_pop q))"
    and "case queue_pop q of
           (Some e, q') \<Rightarrow> queue_items q = e # queue_items q' \<and> eq_next_sequence q' = eq_next_sequence q
         | (None, q') \<Rightarrow> queue_items q = [] \<and> q' = q"
proof -
  have pos: "eq_count q \<noteq> 0 \<longleftrightarrow> 0 < unat (eq_count q)" by (simp add: unat_gt_0)
  have count: "unat (eq_count q - 1) = unat (eq_count q) - 1" if "eq_count q \<noteq> 0"
    using that by (simp add: unat_minus_one)
  have read: "unat (eq_read_index q) < 256" using assms by (simp add: queue_inv_def)
  have wrap: "(r + c) mod 256 = (Suc r mod 256 + c - Suc 0) mod 256" if "0 < c" for r c :: nat
    using that by (cases c) (simp_all add: mod_simps)
  show "queue_inv (snd (queue_pop q))"
    using assms pos wrap by (auto simp: queue_pop_def queue_inv_def count next_index)
  have step: "[0..<Suc n] = 0 # map Suc [0..<n]" for n by (simp add: upt_conv_Cons map_Suc_upt del: upt_Suc)
  have "queue_items q = eq_events q ! unat (eq_read_index q) # queue_items (snd (queue_pop q))" if "eq_count q \<noteq> 0"
  proof -
    have "0 < unat (eq_count q)" using that pos by simp
    then obtain n where n: "unat (eq_count q) = Suc n" by (auto simp: gr0_conv_Suc)
    show ?thesis
      using that read
      by (simp add: queue_items_def queue_pop_def n count step next_index mod_simps del: upt_Suc)
  qed
  then show "case queue_pop q of
           (Some e, q') \<Rightarrow> queue_items q = e # queue_items q' \<and> eq_next_sequence q' = eq_next_sequence q
         | (None, q') \<Rightarrow> queue_items q = [] \<and> q' = q"
    by (cases "eq_count q = 0") (auto simp: queue_pop_def queue_items_def)
qed

datatype queue_op = QO_push driver_event | QO_pop

text \<open>A run of the queue: what the consumer received, and the queue that is left.\<close>

fun queue_run :: "queue_op list \<Rightarrow> event_queue \<Rightarrow> driver_event list \<times> event_queue" where
  "queue_run [] q = ([], q)"
| "queue_run (QO_push e # ops) q = queue_run ops (snd (queue_push q e))"
| "queue_run (QO_pop # ops) q =
     (case queue_pop q of
        (None, q') \<Rightarrow> queue_run ops q'
      | (Some e, q') \<Rightarrow> (case queue_run ops q' of (outs, q'') \<Rightarrow> (e # outs, q'')))"

text \<open>The events that find room when \<open>n\<close> are waiting; and the numbers they are given.\<close>

fun accepted :: "queue_op list \<Rightarrow> nat \<Rightarrow> driver_event list" where
  "accepted [] n = []"
| "accepted (QO_push e # ops) n = (if n < 256 then e # accepted ops (Suc n) else accepted ops n)"
| "accepted (QO_pop # ops) n = accepted ops (n - 1)"

fun stamp_all :: "u64 \<Rightarrow> driver_event list \<Rightarrow> driver_event list" where
  "stamp_all n [] = []"
| "stamp_all n (e # es) = stamped n e # stamp_all (n + 1) es"

lemma queue_run_in_order:
  "queue_inv q \<Longrightarrow> queue_run ops q = (outs, q') \<Longrightarrow>
     queue_inv q' \<and> outs @ queue_items q' = queue_items q @ stamp_all (eq_next_sequence q) (accepted ops (length (queue_items q)))"
proof (induction ops q arbitrary: outs q' rule: queue_run.induct)
  case (2 e ops q)
  then show ?case using queue_push_refines [OF 2(2), of e] by auto
next
  case (3 ops q)
  obtain r q1 where r: "queue_pop q = (r, q1)" by (cases "queue_pop q")
  then have inv: "queue_inv q1" using queue_pop_refines(1) [OF 3(3)] by simp
  show ?case
  proof (cases r)
    case None
    then show ?thesis using 3(1) [OF r [symmetric]] 3(4) queue_pop_refines(2) [OF 3(3)] r inv by auto
  next
    case (Some e)
    then obtain outs' where "queue_run ops q1 = (outs', q')" "outs = e # outs'"
      using 3(4) r by (auto split: prod.splits)
    then show ?thesis using 3(2) [OF r [symmetric]] Some queue_pop_refines(2) [OF 3(3)] r inv by auto
  qed
qed auto

lemma queue_inv_start: "queue_inv queue_initialize" "queue_items queue_initialize = []"
  by (simp_all add: queue_inv_def queue_initialize_def queue_items_def)

text \<open>
  C17: the reader of a driver's events receives the accepted events in the order they were
  reported, numbered 1, 2, 3 and so on without a gap or a repetition, whatever was reported and read in
  between and however often the ring wrapped around; an event that finds 256 waiting is left
  out without using up a number, and no other event is left out.
\<close>

theorem driver_events_in_order:
  "case queue_run ops queue_initialize of
     (outs, q) \<Rightarrow> outs @ queue_items q = stamp_all 1 (accepted ops 0) \<and> length (queue_items q) \<le> 256"
proof -
  obtain outs q where run: "queue_run ops queue_initialize = (outs, q)" by (cases "queue_run ops queue_initialize")
  show ?thesis
    using queue_run_in_order [OF queue_inv_start(1) run]
    by (simp add: run queue_inv_start(2)) (simp add: queue_initialize_def queue_inv_def queue_items_def)
qed

end
