(* ===== verification/AIS_Wfp.thy ===== *)
theory AIS_Wfp
  imports AIS_Kernel
begin

text \<open>
  The network driver, \<open>platform/windows/wfp/driver/ai_shield_wfp.c\<close>: the two classify callbacks
  and the device control. Its state are the policy, the counters, the event queue, and the
  registered broker and isolated process. A call carries what the filter engine passes to
  it and which process is current.
\<close>

section \<open>State and calls\<close>

type_synonym process = u64

record wfp_state =
  wd_policy :: driver_policy
  wd_status :: driver_status
  wd_queue :: event_queue
  wd_broker :: "process option"
  wd_isolated :: "process option"

definition wfp_start :: wfp_state where
  "wfp_start = \<lparr>wd_policy = start_policy, wd_status = start_status, wd_queue = queue_initialize,
     wd_broker = None, wd_isolated = None\<rparr>"

datatype wfp_layer = WL_accept_v4 | WL_accept_v6 | WL_connect_v4 | WL_connect_v6 | WL_redirect_v4 | WL_redirect_v6 | WL_other

record connection =
  cn_layer :: wfp_layer
  cn_port :: u16
  cn_protocol :: u8
  cn_address_v4 :: u32
  cn_address_v6 :: bytes
  cn_process_id :: "u64 option"
  cn_process_path :: "wide option"
  cn_current :: process
  cn_time :: u64
  cn_may_write :: bool
  cn_filter_context :: u64

text \<open>What is written to \<open>classifyOut\<close>; \<open>None\<close> leaves the action as it was.\<close>

record classify_out =
  co_action :: "u32 option"
  co_write_cleared :: bool

definition untouched :: classify_out where
  "untouched = \<lparr>co_action = None, co_write_cleared = False\<rparr>"

section \<open>Who and where\<close>

definition current_process_is :: "process option \<Rightarrow> connection \<Rightarrow> bool" where
  "current_process_is expected c \<longleftrightarrow> expected = Some (cn_current c)"

definition replace_process :: "process \<Rightarrow> process option \<Rightarrow> process option" where
  "replace_process p destination = Some p"

definition process_path_contains :: "kernel \<Rightarrow> string \<Rightarrow> connection \<Rightarrow> bool" where
  "process_path_contains k marker c =
     (case cn_process_path c of
        None \<Rightarrow> False
      | Some path \<Rightarrow> 2 * length path \<le> 65535 \<and> path_contains k marker path)"

definition process_path_ends_with :: "kernel \<Rightarrow> string \<Rightarrow> connection \<Rightarrow> bool" where
  "process_path_ends_with k suffix' c =
     (case cn_process_path c of
        None \<Rightarrow> False
      | Some path \<Rightarrow> 2 * length path \<le> 65535 \<and> path_ends_with k suffix' path)"

definition is_browser :: "kernel \<Rightarrow> connection \<Rightarrow> bool" where
  "is_browser k c \<longleftrightarrow>
     process_path_contains k (win ''/chrome.exe'') c \<or> process_path_contains k (win ''/msedge.exe'') c \<or>
     process_path_contains k (win ''/firefox.exe'') c \<or> process_path_contains k (win ''/brave.exe'') c \<or>
     process_path_contains k (win ''/opera.exe'') c"

definition is_file_scanner :: "kernel \<Rightarrow> connection \<Rightarrow> bool" where
  "is_file_scanner k c \<longleftrightarrow>
     process_path_ends_with k (win ''/program files/aishield/bin/ai_shield_file_scanner.exe'') c"

definition is_web_port :: "u16 \<Rightarrow> bool" where
  "is_web_port port \<longleftrightarrow> port = 53 \<or> port = 80 \<or> port = 443 \<or> port = 853"

definition is_worm_egress_port :: "u16 \<Rightarrow> bool" where
  "is_worm_egress_port port \<longleftrightarrow> port = 135 \<or> (port \<ge> 137 \<and> port \<le> 139) \<or> port = 445 \<or> port = 3389"

definition address_id :: "bytes \<Rightarrow> u64" where
  "address_id bs = foldl (\<lambda>hash b. (hash XOR ucast b) * 1099511628211) 1469598103934665603 bs"

section \<open>The authorize callback\<close>

text \<open>The event of a connection, its port, and whether it goes out.\<close>

definition connection_event :: "connection \<Rightarrow> driver_event \<times> u16 \<times> bool" where
  "connection_event c =
     (let e = no_event\<lparr>dv_sensor := sensor_wfp, dv_timestamp_100ns := cn_time c,
                dv_process_id := (case cn_process_id c of None \<Rightarrow> 0 | Some i \<Rightarrow> i)\<rparr>
      in case cn_layer c of
           WL_accept_v4 \<Rightarrow>
             (e\<lparr>dv_kind := event_accept, dv_local_port := ucast (cn_port c), dv_reserved := ucast (cn_protocol c),
                dv_subject_id := ucast (cn_address_v4 c)\<rparr>, cn_port c, False)
         | WL_accept_v6 \<Rightarrow>
             (e\<lparr>dv_kind := event_accept, dv_flags := flag_ipv6, dv_local_port := ucast (cn_port c),
                dv_reserved := ucast (cn_protocol c), dv_subject_id := address_id (cn_address_v6 c)\<rparr>, cn_port c, False)
         | WL_connect_v4 \<Rightarrow>
             (e\<lparr>dv_kind := event_connect, dv_remote_port := ucast (cn_port c), dv_reserved := ucast (cn_protocol c),
                dv_subject_id := ucast (cn_address_v4 c)\<rparr>, cn_port c, True)
         | WL_connect_v6 \<Rightarrow>
             (e\<lparr>dv_kind := event_connect, dv_flags := flag_ipv6, dv_remote_port := ucast (cn_port c),
                dv_reserved := ucast (cn_protocol c), dv_subject_id := address_id (cn_address_v6 c)\<rparr>, cn_port c, True)
         | _ \<Rightarrow> (e, 0, False))"

abbreviation with_report :: "driver_event \<Rightarrow> wfp_state \<Rightarrow> wfp_state" where
  "with_report event s \<equiv>
     s\<lparr>wd_queue := fst (report event (wd_queue s, wd_status s)), wd_status := snd (report event (wd_queue s, wd_status s))\<rparr>"

definition block_connection :: "kernel \<Rightarrow> driver_event \<Rightarrow> wfp_state \<Rightarrow> classify_out \<times> wfp_state" where
  "block_connection k event s =
     (let s = s\<lparr>wd_status := (wd_status s)\<lparr>dt_blocked := dt_blocked (wd_status s) + 1\<rparr>\<rparr>
      in (\<lparr>co_action = Some (k_action_block k), co_write_cleared = True\<rparr>,
          with_report (event\<lparr>dv_decision := k_action_block k, dv_flags := dv_flags event OR flag_blocked\<rparr>) s))"

definition permit_connection :: "kernel \<Rightarrow> driver_event \<Rightarrow> wfp_state \<Rightarrow> classify_out \<times> wfp_state" where
  "permit_connection k event s =
     (let s = s\<lparr>wd_status := (wd_status s)\<lparr>dt_allowed := dt_allowed (wd_status s) + 1\<rparr>\<rparr>
      in (\<lparr>co_action = Some (k_action_permit k), co_write_cleared = False\<rparr>,
          with_report (event\<lparr>dv_decision := k_action_permit k\<rparr>) s))"

definition authorize_classify :: "kernel \<Rightarrow> connection \<Rightarrow> wfp_state \<Rightarrow> classify_out \<times> wfp_state" where
  "authorize_classify k c s =
     (let policy = wd_policy s;
          s = s\<lparr>wd_status := (wd_status s)\<lparr>dt_observed := dt_observed (wd_status s) + 1\<rparr>\<rparr>
      in if \<not> cn_may_write c
         then (untouched, s\<lparr>wd_status := (wd_status s)\<lparr>dt_dropped_telemetry := dt_dropped_telemetry (wd_status s) + 1\<rparr>\<rparr>)
         else
           let (event, port, outbound) = connection_event c
           in if current_process_is (wd_isolated s) c \<or> is_file_scanner k c then block_connection k event s
              else if enforcing policy \<and> outbound \<and>
                      (has_flag policy system_network_guard \<and> is_worm_egress_port port \<or>
                       has_flag policy block_browser_non_web \<and> is_browser k c \<and> \<not> is_web_port port)
              then block_connection k event s
              else if enforcing policy \<and> \<not> outbound \<and> has_flag policy block_unsolicited_inbound \<and>
                      (dp_proxy_port policy = 0 \<or> port \<noteq> ucast (dp_proxy_port policy))
              then block_connection k event s
              else if enforcing policy \<and> cn_filter_context c = 1 \<and> dp_block_inbound_port policy \<noteq> 0 \<and>
                      port = ucast (dp_block_inbound_port policy)
              then block_connection k event s
              else permit_connection k event s)"

section \<open>The redirect callback\<close>

datatype redirect_target = RT_v4 u32 u16 | RT_v6 bytes u16

record redirect_request =
  rd_target :: redirect_target
  rd_target_process_id :: u32

definition byteswap16 :: "u16 \<Rightarrow> u16" where
  "byteswap16 v = push_bit 8 v OR drop_bit 8 v"

text \<open>
  \<open>handle_ok\<close> and \<open>pointer_ok\<close> say whether the filter engine gives out the classify handle and
  the writable request.
\<close>

definition redirect_classify ::
    "kernel \<Rightarrow> bool \<Rightarrow> bool \<Rightarrow> connection \<Rightarrow> wfp_state \<Rightarrow> classify_out \<times> redirect_request option \<times> wfp_state" where
  "redirect_classify k handle_ok pointer_ok c s =
     (let policy = wd_policy s;
          s = s\<lparr>wd_status := (wd_status s)\<lparr>dt_observed := dt_observed (wd_status s) + 1\<rparr>\<rparr>;
          event = no_event\<lparr>dv_sensor := sensor_wfp, dv_kind := event_redirect, dv_timestamp_100ns := cn_time c,
                    dv_process_id := (case cn_process_id c of None \<Rightarrow> 0 | Some i \<Rightarrow> i)\<rparr>;
          permit = \<lparr>co_action = Some (k_action_permit k), co_write_cleared = False\<rparr>;
          dropped = s\<lparr>wd_status := (wd_status s)\<lparr>dt_dropped_telemetry := dt_dropped_telemetry (wd_status s) + 1\<rparr>\<rparr>
      in if \<not> cn_may_write c then (untouched, None, s)
         else if \<not> enforcing policy \<or> dp_redirect_outbound_port policy = 0 \<or> dp_proxy_port policy = 0 \<or>
                 dp_redirect_outbound_port policy = dp_proxy_port policy then (permit, None, s)
         else if dp_exempt_process_id policy \<noteq> 0 \<and> cn_process_id c = Some (ucast (dp_exempt_process_id policy))
         then (permit, None, s)
         else if cn_layer c \<noteq> WL_redirect_v4 \<and> cn_layer c \<noteq> WL_redirect_v6 then (permit, None, s)
         else
           let event = (if cn_layer c = WL_redirect_v6 then event\<lparr>dv_flags := dv_flags event OR flag_ipv6\<rparr> else event)
           in if cn_port c \<noteq> ucast (dp_redirect_outbound_port policy) then (permit, None, s)
              else if \<not> handle_ok \<or> \<not> pointer_ok then (permit, None, dropped)
              else
                let port = byteswap16 (ucast (dp_proxy_port policy));
                    target = (if cn_layer c = WL_redirect_v4 then RT_v4 0x0100007f port
                              else RT_v6 (replicate 15 0 @ [1]) port);
                    s = s\<lparr>wd_status := (wd_status s)\<lparr>dt_redirected := dt_redirected (wd_status s) + 1\<rparr>\<rparr>;
                    event = event\<lparr>dv_remote_port := ucast (cn_port c), dv_local_port := dp_proxy_port policy,
                              dv_decision := k_action_permit k\<rparr>
                in (permit, Some \<lparr>rd_target = target, rd_target_process_id = dp_exempt_process_id policy\<rparr>,
                    with_report event s))"

section \<open>Device control\<close>

text \<open>
  A request with its buffer; \<open>None\<close> stands for an input of the wrong length, a number for the
  length of the output buffer. For the isolated process the last argument is what
  \<open>PsLookupProcessByProcessId\<close> finds.
\<close>

datatype wfp_request =
    WR_get_status nat
  | WR_set_policy "driver_policy option"
  | WR_get_event nat
  | WR_register_broker "registration option"
  | WR_register_isolated "registration option" "process option"
  | WR_other

datatype io_output = IO_none | IO_status driver_status | IO_event driver_event

definition wfp_policy_ok :: "driver_policy \<Rightarrow> bool" where
  "wfp_policy_ok p \<longleftrightarrow> dp_version p = protocol_version \<and> dp_size p = sizeof_policy \<and> dp_mode p \<le> policy_enforce \<and>
     dp_block_inbound_port p \<le> 65535 \<and> dp_redirect_outbound_port p \<le> 65535 \<and> dp_proxy_port p \<le> 65535"

definition registration_ok :: "registration \<Rightarrow> bool" where
  "registration_ok r \<longleftrightarrow> rg_version r = protocol_version \<and> rg_size r = sizeof_registration"

fun wfp_control :: "process \<Rightarrow> u64 \<Rightarrow> wfp_request \<Rightarrow> wfp_state \<Rightarrow> ntstatus \<times> io_output \<times> wfp_state" where
  "wfp_control current pid (WR_get_status n) s =
     (if n \<ge> 56
      then let s = s\<lparr>wd_status := (wd_status s)\<lparr>dt_mode := dp_mode (wd_policy s)\<rparr>\<rparr>
           in (NT_success, IO_status (wd_status s), s)
      else (NT_invalid_device_request, IO_none, s))"
| "wfp_control current pid (WR_set_policy input) s =
     (case input of
        None \<Rightarrow> (NT_invalid_device_request, IO_none, s)
      | Some p \<Rightarrow>
          if wfp_policy_ok p then (NT_success, IO_none, s\<lparr>wd_policy := p\<rparr>)
          else (NT_invalid_parameter, IO_none, s))"
| "wfp_control current pid (WR_get_event n) s =
     (if n \<ge> 72
      then (case queue_pop (wd_queue s) of
              (Some e, q) \<Rightarrow> (NT_success, IO_event e, s\<lparr>wd_queue := q\<rparr>)
            | (None, q) \<Rightarrow> (NT_no_more_entries, IO_none, s))
      else (NT_invalid_device_request, IO_none, s))"
| "wfp_control current pid (WR_register_broker input) s =
     (case input of
        None \<Rightarrow> (NT_invalid_device_request, IO_none, s)
      | Some r \<Rightarrow>
          if registration_ok r \<and> rg_process_id r = pid
          then (NT_success, IO_none, s\<lparr>wd_broker := replace_process current (wd_broker s)\<rparr>)
          else (NT_access_denied, IO_none, s))"
| "wfp_control current pid (WR_register_isolated input found) s =
     (case input of
        None \<Rightarrow> (NT_invalid_device_request, IO_none, s)
      | Some r \<Rightarrow>
          (if wd_broker s = Some current \<and> registration_ok r
           then (case found of
                   Some p \<Rightarrow> (NT_success, IO_none, s\<lparr>wd_isolated := replace_process p (wd_isolated s)\<rparr>)
                 | None \<Rightarrow> (NT_access_denied, IO_none, s))
           else (NT_access_denied, IO_none, s)))"
| "wfp_control current pid WR_other s = (NT_invalid_device_request, IO_none, s)"

section \<open>Runs of the driver\<close>

datatype wfp_call =
    WC_authorize connection
  | WC_redirect bool bool connection
  | WC_control process u64 wfp_request

fun wfp_step :: "kernel \<Rightarrow> wfp_call \<Rightarrow> wfp_state \<Rightarrow> wfp_state" where
  "wfp_step k (WC_authorize c) s = snd (authorize_classify k c s)"
| "wfp_step k (WC_redirect h p c) s = snd (snd (redirect_classify k h p c s))"
| "wfp_step k (WC_control current pid r) s = snd (snd (wfp_control current pid r s))"

lemmas wfp_steps = authorize_classify_def redirect_classify_def block_connection_def permit_connection_def Let_def

lemma wfp_policy_changes:
  "wd_policy (wfp_step k call s) =
     (case call of
        WC_control current pid (WR_set_policy (Some p)) \<Rightarrow> if wfp_policy_ok p then p else wd_policy s
      | _ \<Rightarrow> wd_policy s)"
proof (cases call)
  case (WC_authorize c)
  then show ?thesis by (auto simp: wfp_steps split: prod.splits)
next
  case (WC_redirect h p c)
  then show ?thesis by (auto simp: wfp_steps)
next
  case (WC_control current pid r)
  then show ?thesis by (cases r) (auto simp: Let_def split: option.splits prod.splits)
qed

lemma wfp_isolated_changes:
  "wd_isolated (wfp_step k call s) =
     (case call of
        WC_control current pid (WR_register_isolated (Some r) (Some p)) \<Rightarrow>
          if wd_broker s = Some current \<and> registration_ok r then Some p else wd_isolated s
      | _ \<Rightarrow> wd_isolated s)"
proof (cases call)
  case (WC_authorize c)
  then show ?thesis by (auto simp: wfp_steps split: prod.splits)
next
  case (WC_redirect h p c)
  then show ?thesis by (auto simp: wfp_steps)
next
  case (WC_control current pid r)
  then show ?thesis by (cases r) (auto simp: Let_def replace_process_def split: option.splits prod.splits)
qed

definition wfp_inv :: "wfp_state \<Rightarrow> bool" where
  "wfp_inv s \<longleftrightarrow> wfp_policy_ok (wd_policy s)"

interpretation wfp_machine: invariant_machine "wfp_step k" wfp_inv for k
  by unfold_locales
    (auto simp: wfp_inv_def wfp_policy_changes split: wfp_call.splits wfp_request.splits option.splits)

lemma wfp_inv_start: "wfp_inv wfp_start"
  by (simp add: wfp_inv_def wfp_start_def wfp_policy_ok_def start_policy_def policy_audit_def policy_enforce_def)

text \<open>Calls that do not name another isolated process.\<close>

fun keeps_isolated :: "wfp_call \<Rightarrow> bool" where
  "keeps_isolated (WC_control current pid (WR_register_isolated _ _)) = False"
| "keeps_isolated _ = True"

lemma isolated_kept:
  "list_all keeps_isolated calls \<Longrightarrow> wd_isolated (fold (wfp_step k) calls s) = wd_isolated s"
proof (induction calls arbitrary: s)
  case (Cons call calls)
  have "wd_isolated (wfp_step k call s) = wd_isolated s"
    using Cons.prems by (auto simp: wfp_isolated_changes split: wfp_call.splits wfp_request.splits option.splits)
  then show ?case using Cons by simp
qed simp

lemma isolated_blocked:
  assumes "wd_isolated s = Some (cn_current c)" "cn_may_write c"
  shows "fst (authorize_classify k c s) = \<lparr>co_action = Some (k_action_block k), co_write_cleared = True\<rparr>"
  using assms by (simp add: authorize_classify_def block_connection_def current_process_is_def Let_def split: prod.split)

lemma not_isolated_same:
  "cn_current c \<noteq> p \<Longrightarrow> wd_isolated s = Some p \<Longrightarrow>
     fst (authorize_classify k c s) = fst (authorize_classify k c (s\<lparr>wd_isolated := None\<rparr>))"
  by (cases "connection_event c")
    (auto simp: authorize_classify_def block_connection_def permit_connection_def current_process_is_def Let_def)

text \<open>
  C15: a process the broker isolated is cut off from the network as long as it acts itself. Once
  the registration succeeded, which only the registered broker can bring about, and whatever
  calls and policies come in between, as long as no other process is registered as isolated:
  every connection on which the driver may decide and whose authorization runs while that
  process is current is blocked, and the decision is closed to later callouts. Every other
  connection is decided exactly as if no process were isolated, also one the filtering
  platform ascribes to the isolated process but has authorized in the context of another.
\<close>

theorem wfp_isolated_contained:
  assumes "wfp_control current pid (WR_register_isolated (Some r) (Some p)) s = (NT_success, out, s')"
    and "list_all keeps_isolated calls" "cn_may_write c"
  shows "wd_broker s = Some current \<and>
    (let t = fold (wfp_step k) calls s' in
     fst (authorize_classify k c t) =
       (if cn_current c = p then \<lparr>co_action = Some (k_action_block k), co_write_cleared = True\<rparr>
        else fst (authorize_classify k c (t\<lparr>wd_isolated := None\<rparr>))))"
proof -
  have "wd_broker s = Some current" and "wd_isolated s' = Some p"
    using assms(1) by (auto simp: replace_process_def split: if_splits)
  then show ?thesis
    using isolated_blocked [of "fold (wfp_step k) calls s'" c] isolated_kept [OF assms(2), of k s'] assms(3)
      not_isolated_same [of c p "fold (wfp_step k) calls s'" k]
    by (simp add: Let_def)
qed

definition sample_kernel :: kernel where
  "sample_kernel = \<lparr>k_upcase = id, k_action_block = 0x1001, k_action_permit = 0x1002, k_access_denied = 0xc0000022\<rparr>"

definition sample_connection :: connection where
  "sample_connection = \<lparr>cn_layer = WL_connect_v4, cn_port = 443, cn_protocol = 6, cn_address_v4 = 0x08080808,
     cn_address_v6 = [], cn_process_id = Some 9, cn_process_path = None, cn_current = 9, cn_time = 1,
     cn_may_write = True, cn_filter_context = 0\<rparr>"

definition sample_registration :: registration where
  "sample_registration = \<lparr>rg_version = protocol_version, rg_size = sizeof_registration, rg_process_id = 9\<rparr>"

theorem wfp_isolated_contained_witness:
  "fst (authorize_classify sample_kernel sample_connection
     (fold (wfp_step sample_kernel) [WC_control 4 4 (WR_set_policy (Some start_policy)), WC_authorize sample_connection]
       (wfp_start\<lparr>wd_broker := Some 5, wd_isolated := Some 9\<rparr>))) =
   \<lparr>co_action = Some 0x1001, co_write_cleared = True\<rparr>"
  using wfp_isolated_contained [where current = 5 and pid = 5 and r = sample_registration and p = 9 and out = IO_none
      and s = "wfp_start\<lparr>wd_broker := Some 5\<rparr>" and s' = "wfp_start\<lparr>wd_broker := Some 5, wd_isolated := Some 9\<rparr>"
      and k = sample_kernel and c = sample_connection
      and calls = "[WC_control 4 4 (WR_set_policy (Some start_policy)), WC_authorize sample_connection]"]
  by (simp add: replace_process_def registration_ok_def sample_registration_def sample_connection_def
      sample_kernel_def del: wfp_step.simps fold.simps)

text \<open>
  The same connection, ascribed to the isolated process but authorized while process 4 is
  current, is permitted: the driver compares the current process and not the one the
  metadata name.
\<close>

lemma isolation_follows_context:
  "cn_process_id (sample_connection\<lparr>cn_current := 4\<rparr>) = Some 9 \<and>
   co_action (fst (authorize_classify sample_kernel (sample_connection\<lparr>cn_current := 4\<rparr>)
     (wfp_start\<lparr>wd_broker := Some 5, wd_isolated := Some 9\<rparr>))) = Some 0x1002"
proof -
  have audit: "\<not> enforcing (wd_policy (wfp_start\<lparr>wd_broker := Some 5, wd_isolated := Some 9\<rparr>))" by code_simp
  have scanner: "\<not> is_file_scanner sample_kernel (sample_connection\<lparr>cn_current := 4\<rparr>)" by code_simp
  show ?thesis
    using audit scanner
    by (simp add: authorize_classify_def permit_connection_def current_process_is_def Let_def sample_connection_def
        sample_kernel_def split: prod.split)
qed

text \<open>
  There is one place for an isolated process: registering a second one gives the first its
  network back, unless it is the file scanner.
\<close>

lemma isolated_replaced:
  assumes "wd_broker s = Some current" "registration_ok r" "q \<noteq> cn_current c" "\<not> is_file_scanner k c"
    and "\<not> enforcing (wd_policy s)" "cn_may_write c"
  shows "co_action (fst (authorize_classify k c
    (wfp_step k (WC_control current pid (WR_register_isolated (Some r) (Some q))) s))) = Some (k_action_permit k)"
  using assms
  by (simp add: authorize_classify_def permit_connection_def current_process_is_def replace_process_def Let_def split: prod.split)

section \<open>Redirection\<close>

definition redirected :: "kernel \<Rightarrow> bool \<Rightarrow> bool \<Rightarrow> connection \<Rightarrow> wfp_state \<Rightarrow> redirect_request option" where
  "redirected k h p c s = fst (snd (redirect_classify k h p c s))"

lemma port_cast: "(p :: u32) \<le> 65535 \<Longrightarrow> q \<le> 65535 \<Longrightarrow> (ucast p :: u16) = ucast q \<longleftrightarrow> p = q"
  by (auto simp: word_unat_eq_iff unsigned_ucast_eq take_bit_nat_eq_self word_le_nat_alt)

lemma redirected_iff:
  assumes "wfp_inv s"
  shows "redirected k h w c s =
    (let p = wd_policy s in
     if cn_may_write c \<and> enforcing p \<and> dp_redirect_outbound_port p \<noteq> 0 \<and> dp_proxy_port p \<noteq> 0 \<and>
        dp_redirect_outbound_port p \<noteq> dp_proxy_port p \<and>
        (dp_exempt_process_id p = 0 \<or> cn_process_id c \<noteq> Some (ucast (dp_exempt_process_id p))) \<and>
        cn_layer c \<in> {WL_redirect_v4, WL_redirect_v6} \<and>
        unat (cn_port c) = unat (dp_redirect_outbound_port p) \<and> h \<and> w
     then Some \<lparr>rd_target = (if cn_layer c = WL_redirect_v4 then RT_v4 0x0100007f (byteswap16 (ucast (dp_proxy_port p)))
                              else RT_v6 (replicate 15 0 @ [1]) (byteswap16 (ucast (dp_proxy_port p)))),
                rd_target_process_id = dp_exempt_process_id p\<rparr>
     else None)"
proof -
  have "cn_port c = ucast (dp_redirect_outbound_port (wd_policy s)) \<longleftrightarrow>
      unat (cn_port c) = unat (dp_redirect_outbound_port (wd_policy s))"
    using assms by (simp add: wfp_inv_def wfp_policy_ok_def word_unat_eq_iff unsigned_ucast_eq take_bit_nat_eq_self word_le_nat_alt)
  then show ?thesis by (auto simp: redirected_def redirect_classify_def Let_def)
qed

text \<open>
  In every state the driver can reach, exactly the connections to the port the enforced
  policy names are redirected, never those of the exempt process, and always to the proxy
  port of the loopback address; and the connection that results is not redirected again.
\<close>

theorem wfp_redirects_once:
  "let s = fold (wfp_step k) calls wfp_start; p = wd_policy s in
     redirected k h w c s =
       (if cn_may_write c \<and> enforcing p \<and> dp_redirect_outbound_port p \<noteq> 0 \<and> dp_proxy_port p \<noteq> 0 \<and>
           dp_redirect_outbound_port p \<noteq> dp_proxy_port p \<and>
           (dp_exempt_process_id p = 0 \<or> cn_process_id c \<noteq> Some (ucast (dp_exempt_process_id p))) \<and>
           cn_layer c \<in> {WL_redirect_v4, WL_redirect_v6} \<and>
           unat (cn_port c) = unat (dp_redirect_outbound_port p) \<and> h \<and> w
        then Some \<lparr>rd_target = (if cn_layer c = WL_redirect_v4 then RT_v4 0x0100007f (byteswap16 (ucast (dp_proxy_port p)))
                                 else RT_v6 (replicate 15 0 @ [1]) (byteswap16 (ucast (dp_proxy_port p)))),
                   rd_target_process_id = dp_exempt_process_id p\<rparr>
        else None) \<and>
     redirected k h' w' (d\<lparr>cn_port := ucast (dp_proxy_port p)\<rparr>) s = None"
proof -
  define s where "s = fold (wfp_step k) calls wfp_start"
  have inv: "wfp_inv s" unfolding s_def by (rule wfp_machine.run_inv) (rule wfp_inv_start)
  have "dp_proxy_port (wd_policy s) \<le> 65535" using inv by (simp add: wfp_inv_def wfp_policy_ok_def)
  then have "unat (ucast (dp_proxy_port (wd_policy s)) :: u16) = unat (dp_proxy_port (wd_policy s))"
    by (simp add: unsigned_ucast_eq take_bit_nat_eq_self word_le_nat_alt)
  then have "redirected k h' w' (d\<lparr>cn_port := ucast (dp_proxy_port (wd_policy s))\<rparr>) s = None"
    by (auto simp: redirected_iff [OF inv] Let_def word_unat_eq_iff)
  then show ?thesis unfolding s_def [symmetric] Let_def by (simp add: redirected_iff [OF inv, of k h w c] Let_def)
qed

end
