(* ===== verification/AIS_Minifilter.thy ===== *)
theory AIS_Minifilter
  imports AIS_Wfp
begin

text \<open>
  The file driver, \<open>platform/windows/minifilter/driver/ai_shield_minifilter.c\<close>: the table of
  files that wait for a verdict, the callbacks of the filter manager, and the device
  control. What the filter manager answers about a file enters each callback as a
  \<open>file_call\<close>: its name when it can be had, its identity when it can be queried, the process
  that is current, the time.
\<close>

section \<open>The table of pending files\<close>

record pending_file =
  pn_file_id :: u64
  pn_volume_id :: u32
  pn_verdict :: u32
  pn_updated :: u64

definition free_slot :: pending_file where
  "free_slot = \<lparr>pn_file_id = 0, pn_volume_id = 0, pn_verdict = 0, pn_updated = 0\<rparr>"

definition pending_capacity :: nat where "pending_capacity = 4096"

text \<open>
  The search of \<open>AiShieldSetPendingVerdict\<close>: the entry of the file when there is one, otherwise
  the last free slot; \<open>AI_SHIELD_PENDING_CAPACITY\<close> when neither exists.
\<close>

fun find_target :: "u64 \<Rightarrow> u32 \<Rightarrow> pending_file list \<Rightarrow> nat \<Rightarrow> nat \<Rightarrow> nat" where
  "find_target file volume [] index target = target"
| "find_target file volume (p # ps) index target =
     (if pn_file_id p = file \<and> pn_volume_id p = volume then index
      else find_target file volume ps (Suc index) (if pn_file_id p = 0 then index else target))"

definition set_pending_verdict ::
    "u64 \<Rightarrow> u32 \<Rightarrow> u32 \<Rightarrow> u64 \<Rightarrow> pending_file list \<Rightarrow> bool \<times> pending_file list" where
  "set_pending_verdict file volume verdict now table =
     (if file = 0 \<or> volume = 0 then (False, table)
      else
        let target = find_target file volume table 0 pending_capacity
        in if target < pending_capacity
           then (True, table[target := (if verdict = file_clean then free_slot
                   else \<lparr>pn_file_id = file, pn_volume_id = volume, pn_verdict = verdict, pn_updated = now\<rparr>)])
           else (False, table))"

definition access_blocked :: "u64 \<Rightarrow> u32 \<Rightarrow> pending_file list \<Rightarrow> bool" where
  "access_blocked file volume table =
     (case find (\<lambda>p. pn_file_id p = file \<and> pn_volume_id p = volume) table of
        None \<Rightarrow> False
      | Some p \<Rightarrow> pn_verdict p \<noteq> file_clean)"

section \<open>The table is a map\<close>

text \<open>The verdict kept for a file; the table stands for the map from files to verdicts.\<close>

definition verdict_of :: "pending_file list \<Rightarrow> u64 \<times> u32 \<Rightarrow> u32 option" where
  "verdict_of table key =
     (if fst key = 0 then None
      else map_option pn_verdict (find (\<lambda>p. pn_file_id p = fst key \<and> pn_volume_id p = snd key) table))"

definition slot_key :: "pending_file \<Rightarrow> u64 \<times> u32" where
  "slot_key p = (pn_file_id p, pn_volume_id p)"

definition table_inv :: "pending_file list \<Rightarrow> bool" where
  "table_inv table \<longleftrightarrow> length table = pending_capacity \<and>
     (\<forall>i < length table. \<forall>j < length table.
        slot_key (table ! i) = slot_key (table ! j) \<and> pn_file_id (table ! i) \<noteq> 0 \<longrightarrow> i = j) \<and>
     (\<forall>p \<in> set table. if pn_file_id p = 0 then p = free_slot else pn_volume_id p \<noteq> 0 \<and> pn_verdict p \<noteq> file_clean)"

lemma find_target_cases:
  "(\<exists>i < length table. slot_key (table ! i) = (file, volume) \<and> find_target file volume table n t = n + i) \<or>
   (file, volume) \<notin> slot_key ` set table \<and>
     ((\<exists>i < length table. pn_file_id (table ! i) = 0 \<and> find_target file volume table n t = n + i) \<or>
      0 \<notin> pn_file_id ` set table \<and> find_target file volume table n t = t)"
proof (induction table arbitrary: n t)
  case (Cons p ps)
  show ?case
  proof (cases "slot_key p = (file, volume)")
    case True
    then show ?thesis by (intro disjI1 exI [of _ 0]) (simp add: slot_key_def)
  next
    case False
    define t' where "t' = (if pn_file_id p = 0 then n else t)"
    have step: "find_target file volume (p # ps) n t = find_target file volume ps (Suc n) t'"
      using False by (auto simp: slot_key_def t'_def)
    consider i where "i < length ps" "slot_key (ps ! i) = (file, volume)" "find_target file volume ps (Suc n) t' = Suc n + i"
      | i where "(file, volume) \<notin> slot_key ` set ps" "i < length ps" "pn_file_id (ps ! i) = 0"
          "find_target file volume ps (Suc n) t' = Suc n + i"
      | "(file, volume) \<notin> slot_key ` set ps" "0 \<notin> pn_file_id ` set ps" "find_target file volume ps (Suc n) t' = t'"
      using Cons.IH [of "Suc n" t'] by blast
    then show ?thesis
    proof cases
      case (1 i)
      then show ?thesis by (intro disjI1 exI [of _ "Suc i"]) (simp only: step, simp)
    next
      case (2 i)
      then show ?thesis using False by (intro disjI2 conjI disjI1 exI [of _ "Suc i"]) (auto simp only: step, auto)
    next
      case 3
      show ?thesis
      proof (cases "pn_file_id p = 0")
        case True
        then show ?thesis using 3 False by (intro disjI2 conjI disjI1 exI [of _ 0]) (auto simp only: step t'_def, auto)
      next
        case occ: False
        then show ?thesis using 3 False by (intro disjI2 conjI disjI2) (auto simp only: step t'_def, auto)
      qed
    qed
  qed
qed simp

lemma verdict_iff:
  assumes "table_inv table"
  shows "verdict_of table (file, volume) = Some d \<longleftrightarrow>
    file \<noteq> 0 \<and> (\<exists>i < length table. slot_key (table ! i) = (file, volume) \<and> pn_verdict (table ! i) = d)"
proof -
  have unique: "i = j" if "i < length table" "j < length table" "slot_key (table ! i) = (file, volume)"
    "slot_key (table ! j) = (file, volume)" "file \<noteq> 0" for i j
    using assms that by (auto simp: table_inv_def slot_key_def)
  show ?thesis
  proof (cases "find (\<lambda>p. pn_file_id p = file \<and> pn_volume_id p = volume) table")
    case None
    then have "\<forall>i < length table. slot_key (table ! i) \<noteq> (file, volume)"
      using nth_mem [of _ table] by (auto simp: find_None_iff slot_key_def simp del: nth_mem)
    then show ?thesis using None by (auto simp: verdict_of_def)
  next
    case (Some p)
    then obtain i where "i < length table" "p = table ! i" "slot_key (table ! i) = (file, volume)"
      by (auto simp: find_Some_iff slot_key_def)
    then show ?thesis using Some unique by (auto simp: verdict_of_def)
  qed
qed

lemma blocked_iff: "file \<noteq> 0 \<Longrightarrow> access_blocked file volume table \<longleftrightarrow>
    (case verdict_of table (file, volume) of None \<Rightarrow> False | Some d \<Rightarrow> d \<noteq> file_clean)"
  by (simp add: access_blocked_def verdict_of_def split: option.split)

definition has_room :: "pending_file list \<Rightarrow> bool" where
  "has_room table \<longleftrightarrow> 0 \<in> pn_file_id ` set table"

lemma room_iff_card:
  assumes "table_inv table"
  shows "has_room table \<longleftrightarrow> card (dom (verdict_of table)) < pending_capacity"
proof -
  define used where "used = {i. i < length table \<and> pn_file_id (table ! i) \<noteq> 0}"
  have len: "length table = pending_capacity" using assms by (simp add: table_inv_def)
  have "dom (verdict_of table) = (\<lambda>i. slot_key (table ! i)) ` used"
  proof (rule set_eqI)
    fix key :: "u64 \<times> u32"
    obtain f v where key: "key = (f, v)" by (cases key)
    have "key \<in> dom (verdict_of table) \<longleftrightarrow> f \<noteq> 0 \<and> (\<exists>i < length table. slot_key (table ! i) = (f, v))"
      unfolding key dom_def mem_Collect_eq not_None_eq verdict_iff [OF assms] by blast
    also have "\<dots> \<longleftrightarrow> key \<in> (\<lambda>i. slot_key (table ! i)) ` used"
      by (auto simp: key used_def slot_key_def image_iff)
    finally show "key \<in> dom (verdict_of table) \<longleftrightarrow> key \<in> (\<lambda>i. slot_key (table ! i)) ` used" .
  qed
  moreover have "inj_on (\<lambda>i. slot_key (table ! i)) used"
    using assms by (auto simp: inj_on_def used_def table_inv_def)
  ultimately have card: "card (dom (verdict_of table)) = card used" by (simp add: card_image)
  have sub: "used \<subseteq> {..<pending_capacity}" by (auto simp: used_def len)
  have "has_room table \<longleftrightarrow> (\<exists>p \<in> set table. pn_file_id p = 0)" unfolding has_room_def by auto
  also have "\<dots> \<longleftrightarrow> (\<exists>i < pending_capacity. pn_file_id (table ! i) = 0)"
    using len by (metis in_set_conv_nth)
  also have "\<dots> \<longleftrightarrow> used \<noteq> {..<pending_capacity}" unfolding used_def len by blast
  also have "\<dots> \<longleftrightarrow> used \<subset> {..<pending_capacity}" using sub by auto
  also have "\<dots> \<longleftrightarrow> card used < pending_capacity"
    using sub psubset_card_mono [of "{..<pending_capacity}" used] card_mono [of "{..<pending_capacity}" used]
    by (metis card_lessThan finite_lessThan less_irrefl psubsetI)
  finally show ?thesis by (simp add: card)
qed

lemma update_entry_map:
  assumes inv: "table_inv table" and i: "i < length table" and key: "file \<noteq> 0" "volume \<noteq> 0"
    and at: "slot_key (table ! i) = (file, volume) \<or> pn_file_id (table ! i) = 0 \<and> (file, volume) \<notin> slot_key ` set table"
    and e: "slot_key e = (file, volume)" "pn_verdict e = d" "d \<noteq> file_clean"
  shows "table_inv (table[i := e])" "verdict_of (table[i := e]) = (verdict_of table)((file, volume) \<mapsto> d)"
proof -
  have other: "slot_key (table ! j) \<noteq> (file, volume)" if "j < length table" "j \<noteq> i" for j
    using that inv at i key by (auto simp: table_inv_def slot_key_def image_iff dest!: nth_mem)
  show inv': "table_inv (table[i := e])"
    unfolding table_inv_def
  proof (intro conjI allI impI ballI)
    show "length (table[i := e]) = pending_capacity" using inv by (simp add: table_inv_def)
  next
    fix a b
    assume "a < length (table[i := e])" "b < length (table[i := e])"
      and "slot_key (table[i := e] ! a) = slot_key (table[i := e] ! b) \<and> pn_file_id (table[i := e] ! a) \<noteq> 0"
    then show "a = b"
      using inv e i other [of a] other [of b] by (cases "a = i"; cases "b = i") (auto simp: table_inv_def)
  next
    fix p
    assume "p \<in> set (table[i := e])"
    then have "p \<in> insert e (set table)" by (rule set_update_subset_insert [THEN subsetD])
    then show "if pn_file_id p = 0 then p = free_slot else pn_volume_id p \<noteq> 0 \<and> pn_verdict p \<noteq> file_clean"
      using inv e key by (auto simp: table_inv_def slot_key_def)
  qed
  show "verdict_of (table[i := e]) = (verdict_of table)((file, volume) \<mapsto> d)"
  proof (rule ext)
    fix key' :: "u64 \<times> u32"
    obtain f v where k: "key' = (f, v)" by (cases key')
    have "verdict_of (table[i := e]) (f, v) = Some x \<longleftrightarrow> ((verdict_of table)((file, volume) \<mapsto> d)) (f, v) = Some x" for x
    proof (cases "(f, v) = (file, volume)")
      case True
      then show ?thesis
        unfolding verdict_iff [OF inv'] using e i key other
        by (auto simp: nth_list_update intro!: exI [of _ i])
    next
      case False
      have "slot_key (table ! i) = (f, v) \<Longrightarrow> f \<noteq> 0 \<Longrightarrow> False" using at False by (auto simp: slot_key_def)
      then have "(\<exists>j < length table. slot_key (table[i := e] ! j) = (f, v) \<and> pn_verdict (table[i := e] ! j) = x) \<longleftrightarrow>
          (\<exists>j < length table. slot_key (table ! j) = (f, v) \<and> pn_verdict (table ! j) = x)" if "f \<noteq> 0"
        using that False e i by (metis nth_list_update_eq nth_list_update_neq)
      then show ?thesis using False unfolding verdict_iff [OF inv'] by (auto simp: verdict_iff [OF inv])
    qed
    then show "verdict_of (table[i := e]) key' = ((verdict_of table)((file, volume) \<mapsto> d)) key'"
      unfolding k by (metis not_Some_eq)
  qed
qed

lemma clear_entry_map:
  assumes inv: "table_inv table" and i: "i < length table" and key: "file \<noteq> 0"
    and at: "slot_key (table ! i) = (file, volume) \<or> pn_file_id (table ! i) = 0 \<and> (file, volume) \<notin> slot_key ` set table"
  shows "table_inv (table[i := free_slot])" "verdict_of (table[i := free_slot]) = (verdict_of table)((file, volume) := None)"
proof -
  have other: "slot_key (table ! j) \<noteq> (file, volume)" if "j < length table" "j \<noteq> i" for j
    using that inv at i key by (auto simp: table_inv_def slot_key_def image_iff dest!: nth_mem)
  have free: "pn_file_id free_slot = 0" by (simp add: free_slot_def)
  show inv': "table_inv (table[i := free_slot])"
    unfolding table_inv_def
  proof (intro conjI allI impI ballI)
    show "length (table[i := free_slot]) = pending_capacity" using inv by (simp add: table_inv_def)
  next
    fix a b
    assume "a < length (table[i := free_slot])" "b < length (table[i := free_slot])"
      and "slot_key (table[i := free_slot] ! a) = slot_key (table[i := free_slot] ! b) \<and>
        pn_file_id (table[i := free_slot] ! a) \<noteq> 0"
    then show "a = b"
      using inv i free by (cases "a = i"; cases "b = i") (auto simp: table_inv_def slot_key_def)
  next
    fix p
    assume "p \<in> set (table[i := free_slot])"
    then have "p \<in> insert free_slot (set table)" by (rule set_update_subset_insert [THEN subsetD])
    then show "if pn_file_id p = 0 then p = free_slot else pn_volume_id p \<noteq> 0 \<and> pn_verdict p \<noteq> file_clean"
      using inv free by (auto simp: table_inv_def)
  qed
  show "verdict_of (table[i := free_slot]) = (verdict_of table)((file, volume) := None)"
  proof (rule ext)
    fix key' :: "u64 \<times> u32"
    obtain f v where k: "key' = (f, v)" by (cases key')
    have "verdict_of (table[i := free_slot]) (f, v) = Some x \<longleftrightarrow> ((verdict_of table)((file, volume) := None)) (f, v) = Some x" for x
    proof (cases "(f, v) = (file, volume)")
      case True
      have "slot_key (table[i := free_slot] ! j) \<noteq> (file, volume)" if "j < length table" for j
        using that other [of j] free key i by (cases "j = i") (auto simp: slot_key_def)
      then show ?thesis unfolding verdict_iff [OF inv'] using True by auto
    next
      case False
      have "slot_key (table ! i) = (f, v) \<Longrightarrow> f \<noteq> 0 \<Longrightarrow> False" using at False by (auto simp: slot_key_def)
      moreover have "slot_key free_slot = (f, v) \<Longrightarrow> f \<noteq> 0 \<Longrightarrow> False" by (simp add: slot_key_def free)
      ultimately have "(\<exists>j < length table. slot_key (table[i := free_slot] ! j) = (f, v) \<and> pn_verdict (table[i := free_slot] ! j) = x) \<longleftrightarrow>
          (\<exists>j < length table. slot_key (table ! j) = (f, v) \<and> pn_verdict (table ! j) = x)" if "f \<noteq> 0"
        using that i by (metis nth_list_update_eq nth_list_update_neq)
      then show ?thesis using False unfolding verdict_iff [OF inv'] by (auto simp: verdict_iff [OF inv])
    qed
    then show "verdict_of (table[i := free_slot]) key' = ((verdict_of table)((file, volume) := None)) key'"
      unfolding k by (metis not_Some_eq)
  qed
qed

definition update_verdict :: "(u64 \<times> u32 \<Rightarrow> u32 option) \<Rightarrow> u64 \<times> u32 \<Rightarrow> u32 \<Rightarrow> (u64 \<times> u32 \<Rightarrow> u32 option)" where
  "update_verdict m key d = m(key := (if d = file_clean then None else Some d))"

lemma set_pending_refines:
  assumes inv: "table_inv table" and set: "set_pending_verdict file volume d now table = (ok, table')"
  shows "table_inv table'"
    and "ok \<longleftrightarrow> file \<noteq> 0 \<and> volume \<noteq> 0 \<and>
      (verdict_of table (file, volume) \<noteq> None \<or> card (dom (verdict_of table)) < 4096)"
    and "verdict_of table' = (if ok then update_verdict (verdict_of table) (file, volume) d else verdict_of table)"
proof -
  note room = room_iff_card [OF inv, unfolded has_room_def, unfolded pending_capacity_def]
  have len: "length table = pending_capacity" using inv by (simp add: table_inv_def)
  have goal: "table_inv table' \<and> (ok \<longleftrightarrow> file \<noteq> 0 \<and> volume \<noteq> 0 \<and>
      (verdict_of table (file, volume) \<noteq> None \<or> card (dom (verdict_of table)) < 4096)) \<and>
    verdict_of table' = (if ok then update_verdict (verdict_of table) (file, volume) d else verdict_of table)"
  proof (cases "file = 0 \<or> volume = 0")
    case True
    then show ?thesis using set inv by (auto simp: set_pending_verdict_def)
  next
    case False
    define t where "t = find_target file volume table 0 pending_capacity"
    define e where "e = \<lparr>pn_file_id = file, pn_volume_id = volume, pn_verdict = d, pn_updated = now\<rparr>"
    have e: "slot_key e = (file, volume)" "pn_verdict e = d" by (simp_all add: e_def slot_key_def)
    have out: "ok \<longleftrightarrow> t < pending_capacity" "table' = (if t < pending_capacity
        then table[t := (if d = file_clean then free_slot else e)] else table)"
      using set False by (auto simp: set_pending_verdict_def Let_def t_def [symmetric] e_def split: if_splits)
    consider "t < length table" "slot_key (table ! t) = (file, volume)"
      | "t < length table" "(file, volume) \<notin> slot_key ` set table" "pn_file_id (table ! t) = 0"
      | "t = pending_capacity" "(file, volume) \<notin> slot_key ` set table" "0 \<notin> pn_file_id ` set table"
      using find_target_cases [of table "file" volume 0 pending_capacity] by (fold t_def) auto
    then show ?thesis
    proof cases
      case 1
      then have "verdict_of table (file, volume) \<noteq> None"
        using False verdict_iff [OF inv, of "file" volume "pn_verdict (table ! t)"] by auto
      then show ?thesis
        using 1 False out len e update_entry_map [OF inv 1(1), of "file" volume e d] clear_entry_map [OF inv 1(1), of "file" volume]
        by (auto simp: update_verdict_def)
    next
      case 2
      then have "0 \<in> pn_file_id ` set table" by (metis image_eqI nth_mem)
      then show ?thesis
        using 2 False out len e room update_entry_map [OF inv 2(1), of "file" volume e d] clear_entry_map [OF inv 2(1), of "file" volume]
        by (auto simp: update_verdict_def)
    next
      case 3
      have "verdict_of table (file, volume) = None"
      proof (rule ccontr)
        assume "verdict_of table (file, volume) \<noteq> None"
        then obtain x where "verdict_of table (file, volume) = Some x" by auto
        then show False using 3(2) verdict_iff [OF inv] by (metis image_eqI nth_mem)
      qed
      then show ?thesis using 3 out inv room by simp
    qed
  qed
  show "table_inv table'" using goal by blast
  show "ok \<longleftrightarrow> file \<noteq> 0 \<and> volume \<noteq> 0 \<and> (verdict_of table (file, volume) \<noteq> None \<or> card (dom (verdict_of table)) < 4096)"
    using goal by blast
  show "verdict_of table' = (if ok then update_verdict (verdict_of table) (file, volume) d else verdict_of table)"
    using goal by blast
qed

section \<open>State and calls\<close>

record minifilter_state =
  mf_policy :: driver_policy
  mf_status :: driver_status
  mf_queue :: event_queue
  mf_table :: "pending_file list"
  mf_broker :: "process option"
  mf_client_port :: bool
  mf_request_id :: u64

definition minifilter_start :: minifilter_state where
  "minifilter_start = \<lparr>mf_policy = start_policy, mf_status = start_status, mf_queue = queue_initialize,
     mf_table = replicate pending_capacity free_slot, mf_broker = None, mf_client_port = False, mf_request_id = 0\<rparr>"

record file_call =
  fc_name :: "wide option"
  fc_identity :: "(u64 \<times> u32) option"
  fc_current :: process
  fc_process_id :: u64
  fc_time :: u64

definition is_broker_process :: "process \<Rightarrow> minifilter_state \<Rightarrow> bool" where
  "is_broker_process current s \<longleftrightarrow> mf_broker s = Some current"

datatype preop_result = FP_pass | FP_complete ntstatus

abbreviation file_report :: "driver_event \<Rightarrow> minifilter_state \<Rightarrow> minifilter_state" where
  "file_report event s \<equiv>
     s\<lparr>mf_queue := fst (report event (mf_queue s, mf_status s)), mf_status := snd (report event (mf_queue s, mf_status s))\<rparr>"

abbreviation count_blocked :: "minifilter_state \<Rightarrow> minifilter_state" where
  "count_blocked s \<equiv> s\<lparr>mf_status := (mf_status s)\<lparr>dt_blocked := dt_blocked (mf_status s) + 1\<rparr>\<rparr>"

section \<open>Paths\<close>

definition contains_quarantine :: "kernel \<Rightarrow> wide \<Rightarrow> bool" where
  "contains_quarantine k path = path_contains k (win ''/AI_Shield_Quarantine/'') path"

definition is_protected_storage :: "kernel \<Rightarrow> wide \<Rightarrow> bool" where
  "is_protected_storage k path = path_contains k (win ''/ProgramData/AIShield/'') path"

definition is_external_work_path :: "kernel \<Rightarrow> wide \<Rightarrow> bool" where
  "is_external_work_path k path \<longleftrightarrow>
     path_ends_with k '':Zone.Identifier'' path \<or>
     list_ex (\<lambda>marker. path_contains k (win marker) path)
       [''/Downloads/'', ''/Desktop/'', ''/Documents/'', ''/Pictures/'', ''/Music/'', ''/Videos/'', ''/AI_Shield_Quarantine/'']"

section \<open>Callbacks\<close>

text \<open>The identity replaces the path hash when both queries succeed.\<close>

definition set_file_identity :: "(u64 \<times> u32) option \<Rightarrow> driver_event \<Rightarrow> driver_event" where
  "set_file_identity identity event =
     (case identity of
        None \<Rightarrow> event
      | Some (index, serial) \<Rightarrow> event\<lparr>dv_subject_id := index, dv_reserved := serial\<rparr>)"

definition build_file_event :: "kernel \<Rightarrow> u32 \<Rightarrow> bool \<Rightarrow> file_call \<Rightarrow> (driver_event \<times> bool) option" where
  "build_file_event k kind external_only call =
     (case fc_name call of
        None \<Rightarrow> None
      | Some name \<Rightarrow>
          if \<not> is_protected_storage k name \<and> (\<not> external_only \<or> is_external_work_path k name)
          then Some (set_file_identity (fc_identity call)
                 (no_event\<lparr>dv_sensor := sensor_minifilter, dv_kind := kind, dv_timestamp_100ns := fc_time call,
                    dv_process_id := fc_process_id call, dv_subject_id := path_hash k name\<rparr>),
               contains_quarantine k name)
          else None)"

text \<open>The common part of a write and a rename: the file waits for a verdict from now on.\<close>

definition mark_pending :: "kernel \<Rightarrow> u32 \<Rightarrow> file_call \<Rightarrow> minifilter_state \<Rightarrow> preop_result \<times> minifilter_state" where
  "mark_pending k kind call s =
     (case build_file_event k kind True call of
        None \<Rightarrow> (FP_pass, s)
      | Some (event, _) \<Rightarrow>
          let (ok, table) = set_pending_verdict (dv_subject_id event) (dv_reserved event) file_pending (fc_time call) (mf_table s)
          in if \<not> ok \<and> enforcing (mf_policy s) \<and> has_flag (mf_policy s) block_quarantine_execution
             then (FP_complete NT_insufficient_resources, s)
             else (FP_pass, file_report (event\<lparr>dv_decision := 0\<rparr>) (s\<lparr>mf_table := table\<rparr>)))"

definition pre_write :: "kernel \<Rightarrow> file_call \<Rightarrow> minifilter_state \<Rightarrow> preop_result \<times> minifilter_state" where
  "pre_write k call s = mark_pending k event_file_write call s"

definition pre_set_information :: "kernel \<Rightarrow> bool \<Rightarrow> file_call \<Rightarrow> minifilter_state \<Rightarrow> preop_result \<times> minifilter_state" where
  "pre_set_information k is_rename call s = (if is_rename then mark_pending k event_file_rename call s else (FP_pass, s))"

definition pre_acquire_section :: "kernel \<Rightarrow> file_call \<Rightarrow> minifilter_state \<Rightarrow> preop_result \<times> minifilter_state" where
  "pre_acquire_section k call s =
     (case build_file_event k event_image_section False call of
        None \<Rightarrow> (FP_pass, s)
      | Some (event, quarantine) \<Rightarrow>
          if (quarantine \<or> access_blocked (dv_subject_id event) (dv_reserved event) (mf_table s)) \<and>
             \<not> is_broker_process (fc_current call) s \<and> enforcing (mf_policy s) \<and>
             has_flag (mf_policy s) block_quarantine_execution
          then (FP_complete NT_access_denied,
                file_report (event\<lparr>dv_decision := k_access_denied k, dv_flags := dv_flags event OR flag_blocked\<rparr>) (count_blocked s))
          else (FP_pass, file_report (event\<lparr>dv_decision := 0\<rparr>) s))"

text \<open>The result says whether the open is cancelled.\<close>

definition post_create :: "kernel \<Rightarrow> bool \<Rightarrow> bool \<Rightarrow> file_call \<Rightarrow> minifilter_state \<Rightarrow> bool \<times> minifilter_state" where
  "post_create k opened read_request call s =
     (if \<not> opened \<or> \<not> read_request \<or> is_broker_process (fc_current call) s \<or> \<not> enforcing (mf_policy s) \<or>
         \<not> has_flag (mf_policy s) block_quarantine_execution then (False, s)
      else case build_file_event k event_file_open True call of
             None \<Rightarrow> (False, s)
           | Some (event, _) \<Rightarrow>
               if \<not> access_blocked (dv_subject_id event) (dv_reserved event) (mf_table s) then (False, s)
               else (True, file_report (event\<lparr>dv_decision := k_access_denied k, dv_flags := dv_flags event OR flag_blocked\<rparr>)
                      (count_blocked s)))"

definition pre_create :: "kernel \<Rightarrow> bool \<Rightarrow> file_call \<Rightarrow> minifilter_state \<Rightarrow> preop_result \<times> minifilter_state" where
  "pre_create k execution_request call s =
     (let event = no_event\<lparr>dv_sensor := sensor_minifilter, dv_kind := event_file_open,
                    dv_timestamp_100ns := fc_time call, dv_process_id := fc_process_id call\<rparr>
      in if (case fc_name call of None \<Rightarrow> False | Some name \<Rightarrow> is_protected_storage k name) then (FP_pass, s)
         else
           let quarantine = (case fc_name call of None \<Rightarrow> False | Some name \<Rightarrow> execution_request \<and> contains_quarantine k name);
               event = (case fc_name call of None \<Rightarrow> event | Some name \<Rightarrow> event\<lparr>dv_subject_id := path_hash k name\<rparr>);
               s = s\<lparr>mf_status := (mf_status s)\<lparr>dt_observed := dt_observed (mf_status s) + 1\<rparr>\<rparr>
           in if quarantine \<and> enforcing (mf_policy s) \<and> has_flag (mf_policy s) block_quarantine_execution
              then (FP_complete NT_access_denied,
                    file_report (event\<lparr>dv_decision := k_access_denied k, dv_flags := dv_flags event OR flag_blocked\<rparr>) (count_blocked s))
              else
                let s = s\<lparr>mf_status := (mf_status s)\<lparr>dt_allowed := dt_allowed (mf_status s) + 1\<rparr>\<rparr>
                in (FP_pass, if execution_request then file_report (event\<lparr>dv_decision := 0\<rparr>) s else s))"

section \<open>Analysis on cleanup\<close>

record analysis_request =
  rq_request_id :: u64
  rq_file_id :: u64
  rq_volume_id :: u32
  rq_path :: wide

text \<open>
  \<open>name_again\<close> and \<open>memory\<close> say whether the name can be had once more and the context be
  allocated; the request is handed to the completion.
\<close>

definition pre_cleanup ::
    "kernel \<Rightarrow> bool \<Rightarrow> bool \<Rightarrow> file_call \<Rightarrow> minifilter_state \<Rightarrow> analysis_request option \<times> minifilter_state" where
  "pre_cleanup k name_again memory call s =
     (if is_broker_process (fc_current call) s then (None, s)
      else case (build_file_event k event_file_write True call, fc_name call) of
             (Some (event, _), Some name) \<Rightarrow>
               if dv_subject_id event = 0 \<or> dv_reserved event = 0 \<or>
                  \<not> access_blocked (dv_subject_id event) (dv_reserved event) (mf_table s) \<or>
                  \<not> name_again \<or> length name = 0 \<or> length name \<ge> 1024 \<or> \<not> memory
               then (None, s)
               else (Some \<lparr>rq_request_id = mf_request_id s + 1, rq_file_id = dv_subject_id event,
                       rq_volume_id = dv_reserved event, rq_path = name\<rparr>,
                     s\<lparr>mf_request_id := mf_request_id s + 1\<rparr>)
           | _ \<Rightarrow> (None, s))"

record analysis_reply =
  rp_version :: u32
  rp_size :: u32
  rp_request_id :: u64
  rp_verdict :: u32

text \<open>The broker's answer, when one of the right length arrives in time.\<close>

definition post_cleanup_safe :: "analysis_request \<Rightarrow> analysis_reply option \<Rightarrow> u64 \<Rightarrow> minifilter_state \<Rightarrow> minifilter_state" where
  "post_cleanup_safe request reply now s =
     (if \<not> mf_client_port s then s
      else case reply of
             None \<Rightarrow> s
           | Some r \<Rightarrow>
               if rp_version r = protocol_version \<and> rp_size r = 24 \<and> rp_request_id r = rq_request_id request \<and>
                  rp_verdict r \<le> file_quarantined
               then s\<lparr>mf_table := snd (set_pending_verdict (rq_file_id request) (rq_volume_id request) (rp_verdict r) now (mf_table s))\<rparr>
               else s)"

definition post_cleanup ::
    "bool \<Rightarrow> bool \<Rightarrow> analysis_request \<Rightarrow> analysis_reply option \<Rightarrow> u64 \<Rightarrow> minifilter_state \<Rightarrow> minifilter_state" where
  "post_cleanup draining when_safe request reply now s =
     (if \<not> draining \<and> when_safe then post_cleanup_safe request reply now s else s)"

definition port_connect :: "process \<Rightarrow> minifilter_state \<Rightarrow> ntstatus \<times> minifilter_state" where
  "port_connect current s =
     (if \<not> is_broker_process current s \<or> mf_client_port s then (NT_access_denied, s)
      else (NT_success, s\<lparr>mf_client_port := True\<rparr>))"

definition port_disconnect :: "minifilter_state \<Rightarrow> minifilter_state" where
  "port_disconnect s = s\<lparr>mf_client_port := False\<rparr>"

section \<open>Device control\<close>

record file_verdict_input =
  fv_version :: u32
  fv_size :: u32
  fv_file_id :: u64
  fv_volume_id :: u32
  fv_verdict :: u32

datatype minifilter_request =
    MR_get_status nat
  | MR_set_policy "driver_policy option"
  | MR_get_event nat
  | MR_register_broker "registration option"
  | MR_set_file_verdict "file_verdict_input option" u64
  | MR_admin_file_verdict "file_verdict_input option" u64
  | MR_other

definition file_policy_ok :: "driver_policy \<Rightarrow> bool" where
  "file_policy_ok p \<longleftrightarrow> dp_version p = protocol_version \<and> dp_size p = sizeof_policy \<and> dp_mode p \<le> policy_enforce \<and>
     dp_flags p AND NOT policy_all_flags = 0"

definition verdict_header_ok :: "file_verdict_input \<Rightarrow> bool" where
  "verdict_header_ok v \<longleftrightarrow> fv_version v = protocol_version \<and> fv_size v = 24"

definition apply_verdict :: "file_verdict_input \<Rightarrow> u64 \<Rightarrow> minifilter_state \<Rightarrow> ntstatus \<times> io_output \<times> minifilter_state" where
  "apply_verdict v now s =
     (let (ok, table) = set_pending_verdict (fv_file_id v) (fv_volume_id v) (fv_verdict v) now (mf_table s)
      in (if ok then NT_success else NT_insufficient_resources, IO_none, s\<lparr>mf_table := table\<rparr>))"

fun minifilter_control :: "process \<Rightarrow> u64 \<Rightarrow> minifilter_request \<Rightarrow> minifilter_state \<Rightarrow> ntstatus \<times> io_output \<times> minifilter_state" where
  "minifilter_control current pid (MR_get_status n) s =
     (if n \<ge> 56
      then let s = s\<lparr>mf_status := (mf_status s)\<lparr>dt_mode := dp_mode (mf_policy s)\<rparr>\<rparr>
           in (NT_success, IO_status (mf_status s), s)
      else (NT_invalid_device_request, IO_none, s))"
| "minifilter_control current pid (MR_set_policy input) s =
     (case input of
        None \<Rightarrow> (NT_invalid_device_request, IO_none, s)
      | Some p \<Rightarrow>
          if file_policy_ok p then (NT_success, IO_none, s\<lparr>mf_policy := p\<rparr>)
          else (NT_invalid_parameter, IO_none, s))"
| "minifilter_control current pid (MR_get_event n) s =
     (if n \<ge> 72
      then (case queue_pop (mf_queue s) of
              (Some e, q) \<Rightarrow> (NT_success, IO_event e, s\<lparr>mf_queue := q\<rparr>)
            | (None, q) \<Rightarrow> (NT_no_more_entries, IO_none, s))
      else (NT_invalid_device_request, IO_none, s))"
| "minifilter_control current pid (MR_register_broker input) s =
     (case input of
        None \<Rightarrow> (NT_invalid_device_request, IO_none, s)
      | Some r \<Rightarrow>
          if registration_ok r \<and> rg_process_id r = pid then (NT_success, IO_none, s\<lparr>mf_broker := Some current\<rparr>)
          else (NT_access_denied, IO_none, s))"
| "minifilter_control current pid (MR_set_file_verdict input now) s =
     (case input of
        None \<Rightarrow> (NT_invalid_device_request, IO_none, s)
      | Some v \<Rightarrow>
          if is_broker_process current s \<and> verdict_header_ok v \<and> fv_verdict v \<le> file_quarantined
          then apply_verdict v now s
          else (NT_access_denied, IO_none, s))"
| "minifilter_control current pid (MR_admin_file_verdict input now) s =
     (case input of
        None \<Rightarrow> (NT_invalid_device_request, IO_none, s)
      | Some v \<Rightarrow>
          if verdict_header_ok v \<and> (fv_verdict v = file_clean \<or> fv_verdict v = file_quarantined)
          then apply_verdict v now s
          else (NT_invalid_parameter, IO_none, s))"
| "minifilter_control current pid MR_other s = (NT_invalid_device_request, IO_none, s)"

section \<open>Runs of the driver\<close>

datatype minifilter_call =
    MC_write file_call
  | MC_set_information bool file_call
  | MC_section file_call
  | MC_opened bool bool file_call
  | MC_open bool file_call
  | MC_cleanup bool bool file_call
  | MC_cleaned bool bool analysis_request "analysis_reply option" u64
  | MC_connect process
  | MC_disconnect
  | MC_control process u64 minifilter_request

fun minifilter_step :: "kernel \<Rightarrow> minifilter_call \<Rightarrow> minifilter_state \<Rightarrow> minifilter_state" where
  "minifilter_step k (MC_write call) s = snd (pre_write k call s)"
| "minifilter_step k (MC_set_information is_rename call) s = snd (pre_set_information k is_rename call s)"
| "minifilter_step k (MC_section call) s = snd (pre_acquire_section k call s)"
| "minifilter_step k (MC_opened opened read_request call) s = snd (post_create k opened read_request call s)"
| "minifilter_step k (MC_open execution_request call) s = snd (pre_create k execution_request call s)"
| "minifilter_step k (MC_cleanup name_again memory call) s = snd (pre_cleanup k name_again memory call s)"
| "minifilter_step k (MC_cleaned draining when_safe request reply now) s = post_cleanup draining when_safe request reply now s"
| "minifilter_step k (MC_connect current) s = snd (port_connect current s)"
| "minifilter_step k MC_disconnect s = port_disconnect s"
| "minifilter_step k (MC_control current pid r) s = snd (snd (minifilter_control current pid r s))"

section \<open>The table refines a bounded map\<close>

lemma table_start: "table_inv (replicate pending_capacity free_slot)" "verdict_of (replicate pending_capacity free_slot) = Map.empty"
  by (auto simp: table_inv_def free_slot_def verdict_of_def fun_eq_iff find_None_iff)

text \<open>The bounded map the table stands for.\<close>

definition map_verdict :: "u64 \<times> u32 \<times> u32 \<times> u64 \<Rightarrow> (u64 \<times> u32 \<Rightarrow> u32 option) \<Rightarrow> (u64 \<times> u32 \<Rightarrow> u32 option)" where
  "map_verdict op m =
     (case op of (f, v, d, now) \<Rightarrow>
        if f \<noteq> 0 \<and> v \<noteq> 0 \<and> (m (f, v) \<noteq> None \<or> card (dom m) < 4096) then update_verdict m (f, v) d else m)"

definition table_verdict :: "u64 \<times> u32 \<times> u32 \<times> u64 \<Rightarrow> pending_file list \<Rightarrow> pending_file list" where
  "table_verdict op table = (case op of (f, v, d, now) \<Rightarrow> snd (set_pending_verdict f v d now table))"

lemma table_verdict_refines:
  assumes "table_inv table"
  shows "table_inv (table_verdict op table) \<and> verdict_of (table_verdict op table) = map_verdict op (verdict_of table)"
proof -
  obtain f v d now where op: "op = (f, v, d, now)" by (cases op)
  obtain ok table' where set: "set_pending_verdict f v d now table = (ok, table')"
    by (cases "set_pending_verdict f v d now table")
  show ?thesis
    using set_pending_refines [OF assms set] by (simp add: op table_verdict_def map_verdict_def set del: not_None_eq)
qed

lemma map_verdict_small:
  assumes "finite (dom m)" "card (dom m) \<le> 4096"
  shows "finite (dom (map_verdict op m)) \<and> card (dom (map_verdict op m)) \<le> 4096"
proof -
  obtain f v d now where op: "op = (f, v, d, now)" by (cases op)
  have less: "card (dom m - {(f, v)}) \<le> 4096" using assms card_Diff1_le [of "dom m" "(f, v)"] by linarith
  have "card (insert (f, v) (dom m)) \<le> 4096" if "(f, v) \<in> dom m \<or> card (dom m) < 4096"
    using that assms by (auto simp: card_insert_if)
  then show ?thesis using assms less by (auto simp: op map_verdict_def update_verdict_def domIff)
qed

lemma blocked_inv:
  assumes "table_inv table" "f \<noteq> 0"
  shows "access_blocked f v table \<longleftrightarrow> verdict_of table (f, v) \<noteq> None"
proof -
  have "d \<noteq> file_clean" if "verdict_of table (f, v) = Some d" for d
    using that assms unfolding verdict_iff [OF assms(1)] by (auto simp: table_inv_def slot_key_def dest!: nth_mem)
  then show ?thesis by (auto simp: blocked_iff [OF assms(2)] split: option.split)
qed

text \<open>
  Identity zero is the one the zeroed slots have: a query for it finds the first free slot,
  whose verdict is not the clean one.
\<close>

lemma blocked_zero:
  assumes "table_inv table"
  shows "access_blocked 0 v table \<longleftrightarrow> v = 0 \<and> card (dom (verdict_of table)) < pending_capacity"
proof -
  have free: "p = free_slot" if "p \<in> set table" "pn_file_id p = 0" for p
    using that assms by (auto simp: table_inv_def)
  have v: "pn_verdict free_slot \<noteq> file_clean" "pn_volume_id free_slot = 0" "pn_file_id free_slot = 0"
    by (simp_all add: free_slot_def file_clean_def)
  show ?thesis
  proof (cases "find (\<lambda>p. pn_file_id p = 0 \<and> pn_volume_id p = v) table")
    case None
    then have none: "\<not> (\<exists>p \<in> set table. pn_file_id p = 0 \<and> pn_volume_id p = v)" by (auto simp: find_None_iff)
    have "v = 0 \<Longrightarrow> \<not> has_room table" using none free v by (force simp: has_room_def)
    then show ?thesis using None by (auto simp: access_blocked_def room_iff_card [OF assms, symmetric])
  next
    case (Some p)
    then have p: "p \<in> set table" "pn_file_id p = 0" "pn_volume_id p = v" by (auto simp: find_Some_iff)
    then have "v = 0" "has_room table" using free [OF p(1,2)] v by (auto simp: has_room_def intro: rev_image_eqI)
    then show ?thesis
      using Some free [OF p(1,2)] v by (simp add: access_blocked_def room_iff_card [OF assms, symmetric])
  qed
qed

text \<open>
  C14: the table of 4096 slots is a map from files to verdicts with at most 4096 entries. After
  any sequence of verdicts it holds what the map holds: a verdict replaces the one of the same
  file, a clean verdict removes it, a new file is refused only when 4096 files wait or when it
  has no identity, and no entry is lost or duplicated. Access to a file with a non-zero identity is blocked
  exactly while the map has an entry for it; an access whose file and volume number are
  both zero, because they could not be told, is blocked exactly while a slot is free, and one
  with file number zero on a numbered volume never.
\<close>

theorem verdict_table_refines_map:
  "let table = fold table_verdict ops (replicate pending_capacity free_slot); m = fold map_verdict ops Map.empty in
     verdict_of table = m \<and> card (dom m) \<le> 4096 \<and>
     access_blocked f v table = (if f = 0 then v = 0 \<and> card (dom m) < 4096 else m (f, v) \<noteq> None)"
proof -
  have run: "table_inv table \<Longrightarrow> table_inv (fold table_verdict ops table) \<and>
      verdict_of (fold table_verdict ops table) = fold map_verdict ops (verdict_of table)" for table
    by (induction ops arbitrary: table) (simp_all add: table_verdict_refines)
  define table where "table = fold table_verdict ops (replicate pending_capacity free_slot)"
  have inv: "table_inv table" and abs: "verdict_of table = fold map_verdict ops Map.empty"
    using run [OF table_start(1)] by (simp_all add: table_def table_start(2))
  have "finite (dom m) \<and> card (dom m) \<le> 4096 \<Longrightarrow>
      finite (dom (fold map_verdict ops m)) \<and> card (dom (fold map_verdict ops m)) \<le> 4096" for m
    by (induction ops arbitrary: m) (simp_all add: map_verdict_small)
  from this [of Map.empty] show ?thesis
    unfolding table_def [symmetric] Let_def using inv
    by (simp add: abs [symmetric] blocked_inv blocked_zero pending_capacity_def)
qed

section \<open>A written file stays blocked\<close>

fun clears :: "u64 \<times> u32 \<Rightarrow> minifilter_call \<Rightarrow> bool" where
  "clears key (MC_control _ _ (MR_set_file_verdict (Some v) _)) = (fv_verdict v = file_clean \<and> (fv_file_id v, fv_volume_id v) = key)"
| "clears key (MC_control _ _ (MR_admin_file_verdict (Some v) _)) = (fv_verdict v = file_clean \<and> (fv_file_id v, fv_volume_id v) = key)"
| "clears key (MC_cleaned _ _ request (Some r) _) = (rp_verdict r = file_clean \<and> (rq_file_id request, rq_volume_id request) = key)"
| "clears key _ = False"

text \<open>One call writes at most one verdict, and a clean one only if the call clears the file.\<close>

definition table_effect :: "minifilter_call \<Rightarrow> pending_file list \<Rightarrow> pending_file list \<Rightarrow> bool" where
  "table_effect call t t' \<longleftrightarrow> t' = t \<or>
     (\<exists>f v d now. t' = table_verdict (f, v, d, now) t \<and> (d = file_clean \<longrightarrow> clears (f, v) call))"

lemma effect_refl: "table_effect call t t"
  by (simp add: table_effect_def)

lemma mark_table: "\<exists>f v now. mf_table (snd (mark_pending k kind call s)) \<in>
    {mf_table s, table_verdict (f, v, file_pending, now) (mf_table s)}"
proof (cases "build_file_event k kind True call")
  case (Some a)
  obtain e quarantine where a: "a = (e, quarantine)" by (cases a)
  obtain ok t where "set_pending_verdict (dv_subject_id e) (dv_reserved e) file_pending (fc_time call) (mf_table s) = (ok, t)"
    by (cases "set_pending_verdict (dv_subject_id e) (dv_reserved e) file_pending (fc_time call) (mf_table s)")
  then show ?thesis
    by (intro exI [of _ "dv_subject_id e"] exI [of _ "dv_reserved e"] exI [of _ "fc_time call"])
      (simp add: mark_pending_def Some a table_verdict_def)
qed (simp add: mark_pending_def)

lemma mark_effect: "table_effect mc (mf_table s) (mf_table (snd (mark_pending k kind call s)))"
proof -
  have "file_pending \<noteq> file_clean" by (simp add: file_pending_def file_clean_def)
  then show ?thesis using mark_table [of k kind call s] unfolding table_effect_def by blast
qed

lemma control_table:
  "mf_table (snd (snd (minifilter_control current pid r s))) =
     (case r of
        MR_set_file_verdict (Some v) now \<Rightarrow>
          if is_broker_process current s \<and> verdict_header_ok v \<and> fv_verdict v \<le> file_quarantined
          then table_verdict (fv_file_id v, fv_volume_id v, fv_verdict v, now) (mf_table s) else mf_table s
      | MR_admin_file_verdict (Some v) now \<Rightarrow>
          if verdict_header_ok v \<and> (fv_verdict v = file_clean \<or> fv_verdict v = file_quarantined)
          then table_verdict (fv_file_id v, fv_volume_id v, fv_verdict v, now) (mf_table s) else mf_table s
      | _ \<Rightarrow> mf_table s)"
  by (cases r) (auto simp: apply_verdict_def table_verdict_def Let_def split: option.split prod.split)

lemma step_table: "table_effect call (mf_table s) (mf_table (minifilter_step k call s))"
proof (cases call)
  case (MC_write c)
  then show ?thesis by (simp add: pre_write_def mark_effect)
next
  case (MC_set_information b c)
  then show ?thesis by (simp add: pre_set_information_def mark_effect effect_refl)
next
  case (MC_section c)
  then have "mf_table (minifilter_step k call s) = mf_table s"
    by (simp add: pre_acquire_section_def split: option.split prod.split)
  then show ?thesis by (simp add: effect_refl)
next
  case (MC_opened a b c)
  then have "mf_table (minifilter_step k call s) = mf_table s"
    by (simp add: post_create_def split: option.split prod.split)
  then show ?thesis by (simp add: effect_refl)
next
  case (MC_open b c)
  then have "mf_table (minifilter_step k call s) = mf_table s" by (simp add: pre_create_def Let_def)
  then show ?thesis by (simp add: effect_refl)
next
  case (MC_cleanup a b c)
  then have "mf_table (minifilter_step k call s) = mf_table s"
    by (simp add: pre_cleanup_def split: option.split prod.split)
  then show ?thesis by (simp add: effect_refl)
next
  case (MC_cleaned a b request reply now)
  then show ?thesis
    by (cases reply) (auto simp: post_cleanup_def post_cleanup_safe_def table_effect_def table_verdict_def)
next
  case (MC_control current pid r)
  have "table_effect call (mf_table s) (mf_table (snd (snd (minifilter_control current pid r s))))"
    unfolding control_table MC_control
    by (auto simp: effect_refl table_effect_def split: minifilter_request.split option.split)
  then show ?thesis by (simp add: MC_control)
qed (simp_all add: port_connect_def port_disconnect_def effect_refl)

lemma effect_keeps:
  assumes "table_inv t" "table_effect call t t'" "\<not> clears key call" "verdict_of t key \<noteq> None"
  shows "table_inv t' \<and> verdict_of t' key \<noteq> None"
proof -
  have "table_inv t' \<and> verdict_of t' key \<noteq> None"
    if "t' = table_verdict (f, v, d, now) t" "d = file_clean \<longrightarrow> clears (f, v) call" for f v d now
    using that assms(3,4) table_verdict_refines [OF assms(1), of "(f, v, d, now)"]
    by (auto simp: map_verdict_def update_verdict_def)
  then show ?thesis using assms(1,2,4) unfolding table_effect_def by blast
qed

lemma run_keeps:
  "table_inv (mf_table s) \<Longrightarrow> list_all (\<lambda>call. \<not> clears key call) calls \<Longrightarrow> verdict_of (mf_table s) key \<noteq> None \<Longrightarrow>
     table_inv (mf_table (fold (minifilter_step k) calls s)) \<and> verdict_of (mf_table (fold (minifilter_step k) calls s)) key \<noteq> None"
proof (induction calls arbitrary: s)
  case (Cons call calls)
  have "\<not> clears key call" using Cons.prems(2) by simp
  then have "table_inv (mf_table (minifilter_step k call s)) \<and> verdict_of (mf_table (minifilter_step k call s)) key \<noteq> None"
    by (rule effect_keeps [OF Cons.prems(1) step_table _ Cons.prems(3)])
  then show ?case using Cons.IH [of "minifilter_step k call s"] Cons.prems(2) by simp
qed simp

lemma table_inv_step: "table_inv (mf_table s) \<Longrightarrow> table_inv (mf_table (minifilter_step k call s))"
  using step_table [of call s k] table_verdict_refines by (auto simp: table_effect_def)

interpretation minifilter_machine: invariant_machine "minifilter_step k" "\<lambda>s. table_inv (mf_table s)" for k
  by unfold_locales (rule table_inv_step)

definition guards_execution :: "minifilter_state \<Rightarrow> bool" where
  "guards_execution s \<longleftrightarrow> enforcing (mf_policy s) \<and> has_flag (mf_policy s) block_quarantine_execution"

definition watched :: "kernel \<Rightarrow> u64 \<times> u32 \<Rightarrow> file_call \<Rightarrow> bool" where
  "watched k key call \<longleftrightarrow> fc_identity call = Some key \<and>
     (case fc_name call of None \<Rightarrow> False | Some name \<Rightarrow> \<not> is_protected_storage k name \<and> is_external_work_path k name)"

lemma watched_event:
  assumes "watched k (f, v) call"
  shows "\<exists>event quarantine. build_file_event k kind external_only call = Some (event, quarantine) \<and>
    dv_subject_id event = f \<and> dv_reserved event = v"
  using assms by (auto simp: watched_def build_file_event_def set_file_identity_def split: option.splits)

lemma named_event:
  assumes "fc_identity access = Some (f, v)" "fc_name access = Some name" "\<not> is_protected_storage k name"
  shows "\<exists>event quarantine. build_file_event k event_image_section False access = Some (event, quarantine) \<and>
      dv_subject_id event = f \<and> dv_reserved event = v"
    and "if is_external_work_path k name
      then \<exists>event quarantine. build_file_event k event_file_open True access = Some (event, quarantine) \<and>
        dv_subject_id event = f \<and> dv_reserved event = v
      else build_file_event k event_file_open True access = None"
  using assms by (auto simp: build_file_event_def set_file_identity_def)

lemma written_is_pending:
  assumes "table_inv (mf_table s)" "guards_execution s" "watched k (f, v) call" "pre_write k call s = (FP_pass, s')"
  shows "f \<noteq> 0 \<and> verdict_of (mf_table s') (f, v) \<noteq> None"
proof -
  obtain event quarantine where event: "build_file_event k event_file_write True call = Some (event, quarantine)"
    "dv_subject_id event = f" "dv_reserved event = v" using watched_event [OF assms(3)] by blast
  obtain ok table where set: "set_pending_verdict f v file_pending (fc_time call) (mf_table s) = (ok, table)"
    by (cases "set_pending_verdict f v file_pending (fc_time call) (mf_table s)")
  have ok: ok "mf_table s' = table"
    using assms(2,4) event set by (auto simp: pre_write_def mark_pending_def guards_execution_def split: if_splits)
  have "file_pending \<noteq> file_clean" by (simp add: file_pending_def file_clean_def)
  then show ?thesis
    using set_pending_refines [OF assms(1) set] ok by (auto simp: update_verdict_def)
qed

text \<open>
  C13: a file that was written stays out of reach until it is cleared. If the driver let a write to
  a watched file pass while execution is guarded, then whatever calls follow, as long as none of
  them is a clean verdict for this very file (by the broker, an administrator, or the
  analysis reply), while execution is guarded every process but the broker is denied to map
  a file of this identity for execution, under whatever name and in whatever folder it lies by
  then, the product's own storage excepted; and an opening of it for reading is cancelled
  exactly when that name lies in a watched folder. Both hold for accesses whose name and
  identity the filter manager can tell. A file that was moved out of the watched folders can
  be read.
\<close>

theorem written_file_stays_blocked:
  assumes "guards_execution s" "s = fold (minifilter_step k) earlier minifilter_start"
    and "watched k key call" "pre_write k call s = (FP_pass, s')"
    and "list_all (\<lambda>c. \<not> clears key c) calls"
    and "t = fold (minifilter_step k) calls s'" "guards_execution t"
    and "fc_identity access = Some key" "fc_name access = Some name" "\<not> is_protected_storage k name"
    and "\<not> is_broker_process (fc_current access) t"
  shows "fst (pre_acquire_section k access t) = FP_complete NT_access_denied \<and>
    fst (post_create k True True access t) = is_external_work_path k name"
proof -
  obtain f v where key: "key = (f, v)" by (cases key)
  have inv: "table_inv (mf_table s)"
    unfolding assms(2) by (rule minifilter_machine.run_inv) (simp add: minifilter_start_def table_start)
  have "watched k (f, v) call" using assms(3) by (simp only: key)
  then have pending: "f \<noteq> 0" "verdict_of (mf_table s') (f, v) \<noteq> None"
    using written_is_pending [OF inv assms(1) _ assms(4)] by blast+
  have "table_inv (mf_table s')"
    using table_inv_step [OF inv, of k "MC_write call"] assms(4) by simp
  from run_keeps [OF this assms(5) [unfolded key] pending(2), of k]
  have "table_inv (mf_table t)" "verdict_of (mf_table t) (f, v) \<noteq> None" unfolding assms(6) by blast+
  then have "access_blocked f v (mf_table t)" using pending(1) by (simp add: blocked_inv)
  then show ?thesis
    using named_event [OF assms(8) [unfolded key] assms(9,10)] assms(7,11)
    by (cases "is_external_work_path k name")
      (auto simp: pre_acquire_section_def post_create_def guards_execution_def)
qed

text \<open>
  Two ways round it: a name the filter manager cannot tell, and a place outside the watched
  folders, from which the file can be read.
\<close>

lemma nameless_access_passes:
  "fc_name access = None \<Longrightarrow> fst (pre_acquire_section k access s) = FP_pass \<and> \<not> fst (post_create k True True access s)"
  by (simp add: pre_acquire_section_def post_create_def build_file_event_def)

lemma moved_file_readable:
  "fc_name access = Some name \<Longrightarrow> \<not> is_external_work_path k name \<Longrightarrow> \<not> fst (post_create k opened read_request access s)"
  by (simp add: post_create_def build_file_event_def)

definition guarding_policy :: driver_policy where
  "guarding_policy = start_policy\<lparr>dp_mode := policy_enforce, dp_flags := block_quarantine_execution\<rparr>"

definition sample_access :: file_call where
  "sample_access = \<lparr>fc_name = Some (wide_text (win ''/Downloads/a'')), fc_identity = Some (11, 22), fc_current = 9,
     fc_process_id = 9, fc_time = 1\<rparr>"

definition guarded_start :: minifilter_state where
  "guarded_start = fold (minifilter_step sample_kernel) [MC_control 4 4 (MR_set_policy (Some guarding_policy))] minifilter_start"

lemma guarded_start_guards: "guards_execution guarded_start"
  by (simp add: guarded_start_def guards_execution_def guarding_policy_def file_policy_ok_def policy_enforce_def start_policy_def
      block_quarantine_execution_def policy_all_flags_def)

lemma sample_watched: "watched sample_kernel (11, 22) sample_access"
proof -
  have "\<not> is_protected_storage sample_kernel (wide_text (win ''/Downloads/a''))"
    "path_contains sample_kernel (win ''/Downloads/'') (wide_text (win ''/Downloads/a''))" by code_simp+
  then show ?thesis by (simp add: watched_def sample_access_def is_external_work_path_def)
qed

lemma sample_write_passes: "fst (pre_write sample_kernel sample_access guarded_start) = FP_pass"
proof -
  obtain event quarantine where event: "build_file_event sample_kernel event_file_write True sample_access = Some (event, quarantine)"
    "dv_subject_id event = 11" "dv_reserved event = 22" using watched_event [OF sample_watched] by blast
  have table: "mf_table guarded_start = replicate pending_capacity free_slot"
    by (simp add: guarded_start_def minifilter_start_def guarding_policy_def file_policy_ok_def)
  obtain ok t where set: "set_pending_verdict 11 22 file_pending 1 (replicate pending_capacity free_slot) = (ok, t)"
    by (cases "set_pending_verdict 11 22 file_pending 1 (replicate pending_capacity free_slot)")
  have ok by (simp add: set_pending_refines(2) [OF table_start(1) set] table_start(2))
  moreover have "fc_time sample_access = 1" by (simp add: sample_access_def)
  ultimately show ?thesis using set by (simp add: pre_write_def mark_pending_def event table)
qed

theorem written_file_stays_blocked_witness:
  "fst (pre_acquire_section sample_kernel sample_access (snd (pre_write sample_kernel sample_access guarded_start))) =
     FP_complete NT_access_denied"
proof -
  define s' where "s' = snd (pre_write sample_kernel sample_access guarded_start)"
  have passes: "pre_write sample_kernel sample_access guarded_start = (FP_pass, s')"
    using sample_write_passes by (simp add: s'_def prod_eq_iff)
  have keep: "mf_policy s' = mf_policy guarded_start" "mf_broker s' = mf_broker guarded_start"
    by (auto simp: s'_def pre_write_def mark_pending_def Let_def split: option.split prod.split)
  have "guards_execution s'" using guarded_start_guards by (simp add: guards_execution_def keep)
  moreover have "\<not> is_broker_process (fc_current sample_access) s'"
    by (simp add: is_broker_process_def keep guarded_start_def minifilter_start_def guarding_policy_def file_policy_ok_def)
  moreover obtain name where "fc_identity sample_access = Some (11, 22)" "fc_name sample_access = Some name"
      "\<not> is_protected_storage sample_kernel name"
    using sample_watched by (auto simp: watched_def split: option.splits)
  ultimately show ?thesis
    using written_file_stays_blocked [OF guarded_start_guards guarded_start_def sample_watched passes, where calls = "[]" and t = s'
        and access = sample_access and name = name]
    by (simp add: s'_def)
qed

text \<open>
  The comparison with a free slot: a file without any identity counts as blocked as long as
  one slot is free.
\<close>

lemma zero_identity_blocked: "access_blocked 0 0 (mf_table minifilter_start)"
proof -
  have "pending_capacity = Suc 4095" by (simp add: pending_capacity_def)
  then have "replicate pending_capacity free_slot = free_slot # replicate 4095 free_slot" by (metis replicate_Suc)
  then show ?thesis by (simp add: access_blocked_def minifilter_start_def free_slot_def file_clean_def)
qed

end
