(* ===== verification/AIS_Guard.thy ===== *)
theory AIS_Guard
  imports AIS_Minifilter
begin

text \<open>
  The process driver, \<open>platform/windows/process_guard/driver/ai_shield_process_guard.c\<close>: the
  notifications of new processes and loaded images, the filter on process handles, and the
  device control. Strings the kernel may leave out are options.
\<close>

section \<open>State\<close>

record guard_state =
  pg_policy :: driver_policy
  pg_status :: driver_status
  pg_queue :: event_queue

definition guard_start :: guard_state where
  "guard_start = \<lparr>pg_policy = start_policy, pg_status = start_status, pg_queue = queue_initialize\<rparr>"

abbreviation guard_report :: "driver_event \<Rightarrow> guard_state \<Rightarrow> guard_state" where
  "guard_report event s \<equiv>
     s\<lparr>pg_queue := fst (report event (pg_queue s, pg_status s)), pg_status := snd (report event (pg_queue s, pg_status s))\<rparr>"

abbreviation guard_count_blocked :: "guard_state \<Rightarrow> guard_state" where
  "guard_count_blocked s \<equiv> s\<lparr>pg_status := (pg_status s)\<lparr>dt_blocked := dt_blocked (pg_status s) + 1\<rparr>\<rparr>"

definition dangerous_process_access :: u32 where
  "dangerous_process_access = 0x00000001 OR 0x00000002 OR 0x00000020 OR 0x00000040 OR 0x00000800"

record creation =
  cr_image :: "wide option"
  cr_command :: "wide option"
  cr_parent_id :: u64
  cr_parent_image :: "wide option"
  cr_process_id :: u64
  cr_time :: u64

section \<open>What a command looks like\<close>

definition string_contains :: "kernel \<Rightarrow> wide option \<Rightarrow> string \<Rightarrow> bool" where
  "string_contains k v marker = (case v of None \<Rightarrow> False | Some path \<Rightarrow> path_contains k marker path)"

definition guard_contains_quarantine :: "kernel \<Rightarrow> wide option \<Rightarrow> bool" where
  "guard_contains_quarantine k path = string_contains k path (win ''/AI_Shield_Quarantine/'')"

definition is_risky_script_command :: "kernel \<Rightarrow> creation \<Rightarrow> bool" where
  "is_risky_script_command k c =
     (if cr_image c = None \<or> cr_command c = None then False
      else
        let script_host = list_ex (\<lambda>m. string_contains k (cr_image c) (win m))
              [''/powershell.exe'', ''/pwsh.exe'', ''/mshta.exe'', ''/wscript.exe'', ''/cscript.exe'', ''/regsvr32.exe'',
               ''/rundll32.exe'', ''/certutil.exe'', ''/bitsadmin.exe''];
            obfuscated_argument = list_ex (string_contains k (cr_command c))
              ['' -enc '', '' -encodedcommand '', ''javascript:'', ''frombase64string''];
            hidden_network_transfer = string_contains k (cr_command c) '' -w hidden'' \<and>
              list_ex (string_contains k (cr_command c)) [''http://'', ''https://'', ''invoke-webrequest''];
            known_download_primitive = string_contains k (cr_command c) ''downloadstring'';
            lolbin_transfer =
              string_contains k (cr_image c) (win ''/certutil.exe'') \<and> string_contains k (cr_command c) '' -urlcache'' \<or>
              string_contains k (cr_image c) (win ''/bitsadmin.exe'') \<and> string_contains k (cr_command c) '' /transfer''
        in script_host \<and> (obfuscated_argument \<or> hidden_network_transfer \<or> known_download_primitive \<or> lolbin_transfer))"

definition is_downloaded_script_launch :: "kernel \<Rightarrow> creation \<Rightarrow> bool" where
  "is_downloaded_script_launch k c =
     (if cr_image c = None \<or> cr_command c = None then False
      else
        let interpreter = list_ex (\<lambda>m. string_contains k (cr_image c) (win m))
       [''/powershell.exe'', ''/pwsh.exe'', ''/cmd.exe'', ''/wscript.exe'', ''/cscript.exe'', ''/mshta.exe'',
        ''/bash.exe'', ''/sh.exe'', ''/wsl.exe'', ''/python.exe'', ''/python3.exe'', ''/py.exe'', ''/node.exe'',
        ''/perl.exe'', ''/ruby.exe'', ''/php.exe'', ''/java.exe'', ''/javaw.exe'', ''/dotnet.exe'', ''/csi.exe'',
        ''/msiexec.exe'', ''/rundll32.exe'', ''/regsvr32.exe'', ''/control.exe'', ''/hh.exe'', ''/reg.exe'',
        ''/regedit.exe'', ''/cmstp.exe'', ''/installutil.exe'', ''/regasm.exe'', ''/regsvcs.exe'',
        ''/msbuild.exe''];
            download_path = string_contains k (cr_command c) (win ''/Downloads/'') \<or>
              string_contains k (cr_command c) ''/Downloads/'' \<or>
              string_contains k (cr_command c) (CHR 0x5C # ''Downloads/'') \<or>
              string_contains k (cr_command c) (''/Downloads'' @ [CHR 0x5C])
        in interpreter \<and> download_path)"

text \<open>\<open>cr_parent_image\<close> is the image of the parent when the parent and its name can be found.\<close>

definition is_office_child :: "kernel \<Rightarrow> creation \<Rightarrow> bool" where
  "is_office_child k c =
     (if cr_image c = None \<or> cr_parent_id c = 0 then False
      else
        let dangerous_child = list_ex (\<lambda>m. string_contains k (cr_image c) (win m))
              [''/powershell.exe'', ''/pwsh.exe'', ''/cmd.exe'', ''/wscript.exe'', ''/cscript.exe'', ''/mshta.exe'', ''/rundll32.exe'']
        in dangerous_child \<and>
           list_ex (\<lambda>m. string_contains k (cr_parent_image c) (win m))
             [''/winword.exe'', ''/excel.exe'', ''/outlook.exe'', ''/powerpnt.exe''])"

definition is_credential_or_persistence_command :: "kernel \<Rightarrow> creation \<Rightarrow> bool" where
  "is_credential_or_persistence_command k c =
     (if cr_image c = None \<or> cr_command c = None then False
      else
        let img = (\<lambda>m. string_contains k (cr_image c) (win m));
            cmd = string_contains k (cr_command c);
            credential_access =
              img ''/procdump.exe'' \<and> cmd ''lsass'' \<or>
              img ''/rundll32.exe'' \<and> cmd ''comsvcs.dll'' \<and> cmd ''minidump'' \<or>
              img ''/reg.exe'' \<and> (cmd ''sam'' \<or> cmd ''security'') \<and> cmd '' save '';
            external_payload =
              cmd (win ''/Downloads/'') \<or> cmd (win ''/AppData/Local/Temp/'') \<or> cmd (win ''/AI_Shield_Quarantine/'') \<or>
              cmd (win ''/ProgramData/AIShield/quarantine/'');
            persistence = external_payload \<and>
              (img ''/schtasks.exe'' \<and> cmd '' /create'' \<or>
               img ''/sc.exe'' \<and> cmd '' create '' \<or>
               img ''/reg.exe'' \<and> cmd (win ''/currentversion/run'') \<and> cmd '' add '' \<or>
               img ''/wmic.exe'' \<and> cmd ''process call create'')
        in credential_access \<or> persistence)"

definition image_id :: "kernel \<Rightarrow> wide option \<Rightarrow> u64" where
  "image_id k path = (case path of None \<Rightarrow> 0 | Some p \<Rightarrow> path_hash k p)"

definition is_external_image_path :: "kernel \<Rightarrow> wide option \<Rightarrow> bool" where
  "is_external_image_path k path \<longleftrightarrow>
     string_contains k path (win ''/Downloads/'') \<or> string_contains k path (win ''/AppData/Local/Temp/'') \<or>
     string_contains k path (win ''/AI_Shield_Quarantine/'') \<or>
     string_contains k path (win ''/ProgramData/AIShield/quarantine/'')"

section \<open>Notifications\<close>

definition image_notify :: "kernel \<Rightarrow> wide option \<Rightarrow> u64 \<Rightarrow> u64 \<Rightarrow> guard_state \<Rightarrow> guard_state" where
  "image_notify k img process_id now s =
     (if process_id = 0 \<or> img = None then s
      else if \<not> is_external_image_path k img \<and>
              (dp_exempt_process_id (pg_policy s) = 0 \<or> process_id \<noteq> ucast (dp_exempt_process_id (pg_policy s)))
      then s
      else guard_report (no_event\<lparr>dv_sensor := sensor_process, dv_kind := event_image_load, dv_timestamp_100ns := now,
             dv_process_id := process_id, dv_subject_id := image_id k img, dv_decision := 0\<rparr>) s)"

datatype handle_operation = HO_create | HO_duplicate | HO_other

text \<open>The access that is left for the handle, and the new state.\<close>

definition object_pre_operation ::
    "bool \<Rightarrow> bool \<Rightarrow> handle_operation \<Rightarrow> u64 \<Rightarrow> u64 \<Rightarrow> u64 \<Rightarrow> u32 \<Rightarrow> guard_state \<Rightarrow> u32 \<times> guard_state" where
  "object_pre_operation is_process_type kernel_handle operation target caller now desired s =
     (let policy = pg_policy s in
      if \<not> enforcing policy \<or> dp_exempt_process_id policy = 0 \<or> \<not> is_process_type \<or> kernel_handle then (desired, s)
      else if target \<noteq> ucast (dp_exempt_process_id policy) \<or> target = caller \<or> caller = 4 then (desired, s)
      else if operation = HO_other then (desired, s)
      else
        let left = desired AND NOT dangerous_process_access
        in if left = desired then (desired, s)
           else (left,
             guard_report (no_event\<lparr>dv_sensor := sensor_process, dv_kind := event_handle_filter, dv_timestamp_100ns := now,
               dv_process_id := caller, dv_subject_id := target, dv_decision := desired XOR left, dv_flags := flag_blocked\<rparr>)
               (guard_count_blocked s)))"

text \<open>What the policy holds against a creation: whether to block it, and the flags of the event.\<close>

definition creation_marks :: "kernel \<Rightarrow> driver_policy \<Rightarrow> creation \<Rightarrow> bool \<times> u32" where
  "creation_marks k policy c =
     (let quarantined = has_flag policy block_quarantine_execution \<and> guard_contains_quarantine k (cr_image c);
          temporary = has_flag policy block_user_temp_execution \<and>
            string_contains k (cr_image c) (win ''/AppData/Local/Temp/'');
          downloaded = has_flag policy block_download_execution \<and>
            (string_contains k (cr_image c) (win ''/Downloads/'') \<or> is_downloaded_script_launch k c);
          risky = has_flag policy block_risky_script_command \<and>
            (is_risky_script_command k c \<or> is_credential_or_persistence_command k c);
          office = has_flag policy block_office_child_process \<and> is_office_child k c
      in (quarantined \<or> temporary \<or> downloaded \<or> risky \<or> office,
          (if downloaded \<or> risky then flag_risky_command else 0) OR (if office then flag_office_child else 0)))"

text \<open>The result says whether the creation is refused.\<close>

definition process_notify :: "kernel \<Rightarrow> creation \<Rightarrow> guard_state \<Rightarrow> bool \<times> guard_state" where
  "process_notify k c s =
     (let s = s\<lparr>pg_status := (pg_status s)\<lparr>dt_observed := dt_observed (pg_status s) + 1\<rparr>\<rparr>;
          (block, flags) = creation_marks k (pg_policy s) c;
          event = no_event\<lparr>dv_sensor := sensor_process, dv_kind := event_process_create, dv_timestamp_100ns := cr_time c,
                    dv_process_id := cr_process_id c, dv_subject_id := image_id k (cr_image c),
                    dv_reserved := ucast (cr_parent_id c), dv_flags := flags\<rparr>
      in if block \<and> enforcing (pg_policy s)
         then (True, guard_report (event\<lparr>dv_decision := k_access_denied k, dv_flags := flags OR flag_blocked\<rparr>)
                 (guard_count_blocked s))
         else (False, guard_report (event\<lparr>dv_decision := 0\<rparr>)
                 (s\<lparr>pg_status := (pg_status s)\<lparr>dt_allowed := dt_allowed (pg_status s) + 1\<rparr>\<rparr>)))"

section \<open>Device control\<close>

datatype guard_request = GR_get_status nat | GR_set_policy "driver_policy option" | GR_get_event nat | GR_other

fun guard_control :: "guard_request \<Rightarrow> guard_state \<Rightarrow> ntstatus \<times> io_output \<times> guard_state" where
  "guard_control (GR_get_status n) s =
     (if n \<ge> 56
      then let s = s\<lparr>pg_status := (pg_status s)\<lparr>dt_mode := dp_mode (pg_policy s)\<rparr>\<rparr>
           in (NT_success, IO_status (pg_status s), s)
      else (NT_invalid_device_request, IO_none, s))"
| "guard_control (GR_set_policy input) s =
     (case input of
        None \<Rightarrow> (NT_invalid_device_request, IO_none, s)
      | Some p \<Rightarrow>
          if file_policy_ok p then (NT_success, IO_none, s\<lparr>pg_policy := p\<rparr>)
          else (NT_invalid_parameter, IO_none, s))"
| "guard_control (GR_get_event n) s =
     (if n \<ge> 72
      then (case queue_pop (pg_queue s) of
              (Some e, q) \<Rightarrow> (NT_success, IO_event e, s\<lparr>pg_queue := q\<rparr>)
            | (None, q) \<Rightarrow> (NT_no_more_entries, IO_none, s))
      else (NT_invalid_device_request, IO_none, s))"
| "guard_control GR_other s = (NT_invalid_device_request, IO_none, s)"

section \<open>Runs of the driver\<close>

datatype guard_call =
    GC_image "wide option" u64 u64
  | GC_handle bool bool handle_operation u64 u64 u64 u32
  | GC_create creation
  | GC_control guard_request

fun guard_step :: "kernel \<Rightarrow> guard_call \<Rightarrow> guard_state \<Rightarrow> guard_state" where
  "guard_step k (GC_image img i now) s = image_notify k img i now s"
| "guard_step k (GC_handle p h operation target caller now desired) s =
     snd (object_pre_operation p h operation target caller now desired s)"
| "guard_step k (GC_create c) s = snd (process_notify k c s)"
| "guard_step k (GC_control r) s = snd (snd (guard_control r s))"

definition guard_inv :: "guard_state \<Rightarrow> bool" where
  "guard_inv s \<longleftrightarrow> file_policy_ok (pg_policy s)"

lemma guard_policy_changes:
  "pg_policy (guard_step k call s) =
     (case call of GC_control (GR_set_policy (Some p)) \<Rightarrow> if file_policy_ok p then p else pg_policy s | _ \<Rightarrow> pg_policy s)"
proof (cases call)
  case (GC_control r)
  then show ?thesis by (cases r) (auto simp: Let_def split: option.splits prod.splits)
next
  case (GC_handle p h operation target caller now desired)
  then show ?thesis by (simp add: object_pre_operation_def Let_def)
next
  case (GC_create c)
  then show ?thesis by (simp add: process_notify_def Let_def split: prod.split)
qed (simp add: image_notify_def)

interpretation guard_machine: invariant_machine "guard_step k" guard_inv for k
  by unfold_locales
    (auto simp: guard_inv_def guard_policy_changes split: guard_call.splits guard_request.splits option.splits)

lemma guard_inv_start: "guard_inv guard_start"
  by (simp add: guard_inv_def guard_start_def start_policy_def file_policy_ok_def policy_audit_def policy_enforce_def)

definition other_access :: "u64 \<Rightarrow> u64 \<Rightarrow> bool" where
  "other_access target caller \<longleftrightarrow> target \<noteq> caller \<and> caller \<noteq> 4"

lemma handle_left:
  "fst (object_pre_operation p h operation target caller now desired s) =
     (if enforcing (pg_policy s) \<and> dp_exempt_process_id (pg_policy s) \<noteq> 0 \<and> p \<and> \<not> h \<and>
         target = ucast (dp_exempt_process_id (pg_policy s)) \<and> other_access target caller \<and> operation \<noteq> HO_other
      then desired AND NOT dangerous_process_access else desired)"
  by (auto simp: object_pre_operation_def Let_def other_access_def)

text \<open>
  The mask 0x863 is PROCESS_TERMINATE (1), PROCESS_CREATE_THREAD (2), PROCESS_VM_WRITE (0x20),
  PROCESS_DUP_HANDLE (0x40) and PROCESS_SUSPEND_RESUME (0x800). PROCESS_VM_OPERATION (8) and
  PROCESS_VM_READ (0x10) are not in it.
\<close>

text \<open>
  C16: the rights to kill, stop or write to the protected process are taken off the handles
  that others open on it from user mode. In every state the driver can reach with the policy enforced, a handle on the exempt process that
  another process than itself and the system opens or duplicates from user mode keeps none
  of the rights to terminate it, create threads in it, write its memory, duplicate its
  handles, or suspend it, and keeps all of the other rights it asked for, those to read its
  memory and to operate on it included; every other handle is left exactly as it was asked
  for; and the counter of blocked requests moves exactly when a right was taken away.
\<close>

theorem protected_process_handles:
  "let s = fold (guard_step k) calls guard_start;
       r = object_pre_operation p h operation target caller now desired s;
       guarded = (dp_mode (pg_policy s) = 1 \<and> dp_exempt_process_id (pg_policy s) \<noteq> 0 \<and> p \<and> \<not> h \<and>
         target = ucast (dp_exempt_process_id (pg_policy s)) \<and> other_access target caller \<and> operation \<noteq> HO_other)
   in (if guarded then fst r AND 0x863 = 0 \<and> fst r OR 0x863 = desired OR 0x863 \<and> fst r AND 0x18 = desired AND 0x18 else fst r = desired) \<and>
      dt_blocked (pg_status (snd r)) = dt_blocked (pg_status s) + (if fst r = desired then 0 else 1) \<and>
      dp_mode (pg_policy s) \<le> 1 \<and> pg_policy (snd r) = pg_policy s"
proof -
  define s where "s = fold (guard_step k) calls guard_start"
  have "guard_inv s" unfolding s_def by (rule guard_machine.run_inv) (rule guard_inv_start)
  then have mode: "dp_mode (pg_policy s) \<le> 1" by (simp add: guard_inv_def file_policy_ok_def policy_enforce_def)
  have danger: "dangerous_process_access = 0x863" by (simp add: dangerous_process_access_def)
  have bits: "(desired AND NOT 0x863) AND 0x863 = 0" "(desired AND NOT 0x863) OR 0x863 = desired OR 0x863"
    by (rule bit_word_eqI; auto simp: bit_simps)+
  have memory: "(desired AND NOT 0x863) AND 0x18 = desired AND 0x18" by (simp add: and.assoc)
  have blocked: "dt_blocked (pg_status (snd (object_pre_operation p h operation target caller now desired s))) =
      dt_blocked (pg_status s) + (if fst (object_pre_operation p h operation target caller now desired s) = desired then 0 else 1)"
    by (simp add: object_pre_operation_def Let_def report_def split: prod.split)
  have policy: "pg_policy (snd (object_pre_operation p h operation target caller now desired s)) = pg_policy s"
    by (simp add: object_pre_operation_def Let_def)
  show ?thesis
    unfolding s_def [symmetric] Let_def blocked policy handle_left danger
    using mode bits memory by (auto simp: policy_enforce_def)
qed

text \<open>A program in the download folder is refused, however its path is spelled in upper and lower case.\<close>

lemma download_refused:
  assumes "enforcing (pg_policy s)" "has_flag (pg_policy s) block_download_execution" "cr_image c = Some path"
    and "sublist (map (k_upcase k) (wide_text (win ''/Downloads/''))) (map (k_upcase k) path)"
  shows "fst (process_notify k c s)"
  using assms
  by (simp add: process_notify_def creation_marks_def Let_def string_contains_def path_contains_iff split: prod.split)

lemma audit_never_refuses: "\<not> enforcing (pg_policy s) \<Longrightarrow> \<not> fst (process_notify k c s)"
  by (simp add: process_notify_def Let_def split: prod.split)

end
