(* ===== verification/AIS_Windows.thy ===== *)
theory AIS_Windows
  imports AIS_Abi AIS_Flow AIS_Trace AIS_Gates AIS_Kernel
begin

text \<open>
  The user-mode adapters of \<open>platform/windows\<close>: flow observations and driver events are
  translated into the messages of the core (\<open>common/abi_translation.cpp\<close>,
  \<open>wfp/adapter/wfp_telemetry.cpp\<close>, \<open>sensors/etw_amsi_adapter.cpp\<close>), the fast path answers
  before the broker does (\<open>wfp/adapter/wfp_enforcement.cpp\<close>), file events reach the
  provenance store (\<open>minifilter/provenance_adapter.cpp\<close>) and flow events the driver channel
  (\<open>service/driver_channel.cpp\<close>). A driver event read by a client is the record of
  \<open>AIS_Kernel\<close>: \<open>DriverEventObservation\<close> has the same members.
\<close>

section \<open>abi_translation.cpp\<close>

record win_flow_observation =
  wo_sequence :: u64
  wo_flow_id :: u64
  wo_monotonic_ns :: u64
  wo_local_ipv4_be :: u32
  wo_remote_ipv4_be :: u32
  wo_local_port_be :: u16
  wo_remote_port_be :: u16
  wo_transport :: u16
  wo_flags :: u16
  wo_payload_hash :: digest

definition wt_tcp :: u16 where "wt_tcp = 6"
definition wt_udp :: u16 where "wt_udp = 17"

definition to_flow_event :: "win_flow_observation \<Rightarrow> flow_event result" where
  "to_flow_event observation =
     (if wo_sequence observation = 0 \<or> wo_flow_id observation = 0 \<or>
         wo_transport observation \<noteq> wt_tcp \<and> wo_transport observation \<noteq> wt_udp
      then Inl St_invalid_argument
      else Inr \<lparr>fe_abi_version = kAbiVersion, fe_structure_size = sizeof_FlowEvent,
        fe_sequence = wo_sequence observation, fe_flow_id = wo_flow_id observation,
        fe_monotonic_ns = wo_monotonic_ns observation, fe_source_ipv4_be = wo_remote_ipv4_be observation,
        fe_target_ipv4_be = wo_local_ipv4_be observation, fe_source_port_be = wo_remote_port_be observation,
        fe_target_port_be = wo_local_port_be observation, fe_protocol = wo_transport observation,
        fe_flags = wo_flags observation, fe_payload_hash = wo_payload_hash observation,
        fe_message_mac = zero_digest\<rparr>)"

text \<open>The 72 bytes of a driver event, which has no padding.\<close>

definition driver_event_bytes :: "driver_event \<Rightarrow> bytes" where
  "driver_event_bytes e =
     le32 (dv_version e) @ le32 (dv_size e) @ le32 (dv_sensor e) @ le32 (dv_kind e) @ le64 (dv_sequence e) @
     le64 (dv_timestamp_100ns e) @ le64 (dv_process_id e) @ le64 (dv_subject_id e) @ le32 (dv_address_family e) @
     le32 (dv_local_port e) @ le32 (dv_remote_port e) @ le32 (dv_decision e) @ le32 (dv_flags e) @ le32 (dv_reserved e)"

definition blank_sensor_event :: sensor_event where
  "blank_sensor_event =
     \<lparr>se_header = \<lparr>mh_magic = kMagic, mh_abi_major = kMajor, mh_abi_minor = kMinor, mh_message_type = mt_sensor_event,
        mh_header_size = 0, mh_structure_size = 0, mh_sequence = 0, mh_monotonic_ns = 0, mh_payload_length = 0,
        mh_flags = 0, mh_flow_id = 0, mh_object_id = 0, mh_policy_version = 0, mh_model_version = 0,
        mh_message_mac = zero_digest\<rparr>,
      se_sensor = 0, se_kind = 0, se_process_id = 0, se_parent_process_id = 0, se_provenance_id = 0, se_volume_id = 0,
      se_file_id = 0, se_subject_id = 0, se_local_port = 0, se_remote_port = 0, se_address_family = 0, se_protocol = 0,
      se_decision = 0, se_event_flags = 0, se_source_address = replicate 16 0, se_target_address = replicate 16 0,
      se_evidence_hash = zero_digest\<rparr>"

definition translatable :: "driver_event \<Rightarrow> bool" where
  "translatable e \<longleftrightarrow>
     dv_version e = 0x00010002 \<and> dv_size e = 72 \<and> dv_sequence e \<noteq> 0 \<and> 1 \<le> dv_sensor e \<and> dv_sensor e \<le> 3 \<and>
     1 \<le> dv_kind e \<and> dv_kind e \<le> 10 \<and> dv_flags e AND NOT kKnownEventFlags = 0"

definition clock_ns :: "u64 \<Rightarrow> u64" where
  "clock_ns t = (if t \<le> 0xffffffffffffffff div 100 then t * 100 else 0xffffffffffffffff)"

definition to_sensor_event_v2 :: "driver_event \<Rightarrow> u64 \<Rightarrow> u64 \<Rightarrow> digest \<Rightarrow> sensor_event result" where
  "to_sensor_event_v2 e policy_version model_version channel_key =
     (if \<not> translatable e then Inl St_integrity_failure
      else
        let header = (se_header blank_sensor_event)\<lparr>mh_sequence := dv_sequence e,
              mh_monotonic_ns := clock_ns (dv_timestamp_100ns e), mh_object_id := dv_subject_id e,
              mh_flow_id := (if dv_sensor e = 1
                 then push_bit 32 (dv_process_id e) XOR dv_subject_id e XOR push_bit 16 (ucast (dv_local_port e)) XOR
                      ucast (dv_remote_port e)
                 else 0),
              mh_policy_version := policy_version, mh_model_version := model_version\<rparr>;
            event = blank_sensor_event\<lparr>se_header := header, se_sensor := dv_sensor e, se_kind := dv_kind e,
              se_process_id := dv_process_id e, se_subject_id := dv_subject_id e\<rparr>;
            event =
              (if dv_sensor e = 2 \<and> dv_reserved e \<noteq> 0
               then event\<lparr>se_file_id := dv_subject_id e, se_volume_id := ucast (dv_reserved e),
                      se_provenance_id := push_bit 32 (ucast (dv_reserved e)) XOR dv_subject_id e\<rparr>
               else if dv_sensor e = 3 \<and> dv_kind e = 5 then event\<lparr>se_parent_process_id := ucast (dv_reserved e)\<rparr>
               else event);
            event = event\<lparr>se_local_port := dv_local_port e, se_remote_port := dv_remote_port e,
              se_address_family := ucast (dv_address_family e),
              se_protocol := (if dv_sensor e = 1 then ucast (dv_reserved e) else 0),
              se_decision := dv_decision e, se_event_flags := dv_flags e,
              se_evidence_hash := sha256 (driver_event_bytes e)\<rparr>
        in Inr (abi2_seal event channel_key))"

section \<open>wfp_telemetry.cpp\<close>

datatype layer_event = LE_connect | LE_recv_accept | LE_established | LE_closure

definition translate_telemetry :: "layer_event \<Rightarrow> win_flow_observation \<Rightarrow> bool \<Rightarrow> flow_event result" where
  "translate_telemetry layer observation inbound =
     (let observation = (if inbound then observation
            else observation\<lparr>wo_remote_ipv4_be := wo_local_ipv4_be observation,
                   wo_remote_port_be := wo_local_port_be observation,
                   wo_local_ipv4_be := wo_remote_ipv4_be observation,
                   wo_local_port_be := wo_remote_port_be observation\<rparr>)
      in to_flow_event observation)"

section \<open>wfp_enforcement.cpp\<close>

datatype kernel_action = KA_allow | KA_block | KA_pend

record fast_policy_input =
  fp_admission :: admission
  fp_broker_available :: bool
  fp_known_blocked_source :: bool
  fp_pending_capacity_available :: bool
  fp_service_class :: service_class

record fast_policy_decision =
  fd_action :: kernel_action
  fd_fallback_action :: shield_action
  fd_reason_mask :: u32

definition decide_fast_path :: "fast_policy_input \<Rightarrow> fast_policy_decision" where
  "decide_fast_path input =
     (if fp_known_blocked_source input
        then \<lparr>fd_action = KA_block, fd_fallback_action = SA_block_origin, fd_reason_mask = campaign_correlation\<rparr>
      else if am_action (fp_admission input) = SA_drop_flow
        then \<lparr>fd_action = KA_block, fd_fallback_action = SA_drop_flow, fd_reason_mask = am_reason_mask (fp_admission input)\<rparr>
      else if \<not> fp_broker_available input \<or> \<not> fp_pending_capacity_available input
        then let fallback = fail_policy_decide (fp_service_class input) FK_core 100
             in \<lparr>fd_action = (if ad_action fallback = SA_allow_monitored then KA_allow else KA_block),
                  fd_fallback_action = ad_action fallback, fd_reason_mask = ad_reason_mask fallback\<rparr>
      else \<lparr>fd_action = KA_pend, fd_fallback_action = SA_drop_flow, fd_reason_mask = 0\<rparr>)"

section \<open>provenance_adapter.cpp\<close>

datatype file_event =
    FE_external_create file_identity
  | FE_copy file_identity file_identity
  | FE_rename file_identity file_identity
  | FE_image_load file_identity

fun apply_file_event :: "file_event \<Rightarrow> provenance_store \<Rightarrow> unit result \<times> provenance_store" where
  "apply_file_event (FE_external_create target) store = record_external target store"
| "apply_file_event (FE_copy source target) store = propagate_copy source target store"
| "apply_file_event (FE_rename source target) store = propagate_rename source target store"
| "apply_file_event (FE_image_load target) store =
     (if execution_allowed target store = Inr True then ok_unit else Inl St_invalid_state_transition, store)"

section \<open>driver_channel.cpp\<close>

record channel_limits =
  cl_max_clock_skew_ns :: u64
  cl_decision_budget_ns :: u64

record driver_channel =
  dc_next_sequence :: u64
  dc_now_monotonic_ns :: u64
  dc_limits :: channel_limits

definition new_channel :: driver_channel where
  "new_channel = \<lparr>dc_next_sequence = 1, dc_now_monotonic_ns = 0,
     dc_limits = \<lparr>cl_max_clock_skew_ns = 1000000000, cl_decision_budget_ns = 250000000\<rparr>\<rparr>"

definition accept_flow_event :: "flow_event \<Rightarrow> driver_channel \<Rightarrow> unit result \<times> driver_channel" where
  "accept_flow_event event channel =
     (let valid = av_validate_flow_event event
            \<lparr>av_expected_next_sequence = dc_next_sequence channel, av_now_monotonic_ns = dc_now_monotonic_ns channel,
             av_max_clock_skew_ns = cl_max_clock_skew_ns (dc_limits channel), av_known_flow_id = 0\<rparr>
      in if \<not> res_ok valid then (Inl (res_status valid), channel)
         else if fe_sequence event \<noteq> dc_next_sequence channel then (Inl St_integrity_failure, channel)
         else (ok_unit, channel\<lparr>dc_next_sequence := dc_next_sequence channel + 1\<rparr>))"

definition complete_pending ::
    "u64 \<Rightarrow> shield_action \<Rightarrow> u64 \<Rightarrow> pending_manager \<Rightarrow> action_decision result \<times> pending_manager" where
  "complete_pending flow_id action now pending = complete_at flow_id action now pending"

section \<open>etw_amsi_adapter.cpp\<close>

definition kEtwSensor :: u32 where "kEtwSensor = 4"
definition kAmsiSensor :: u32 where "kAmsiSensor = 5"

record etw_observation =
  et_sequence :: u64
  et_monotonic_ns :: u64
  et_provider_id :: bytes
  et_event_id :: u16
  et_version :: u8
  et_level :: u8
  et_correlation :: corr_context
  et_evidence_hash :: digest

record amsi_observation =
  ao_sequence :: u64
  ao_monotonic_ns :: u64
  ao_process_id :: u64
  ao_scan_result :: u32
  ao_policy_version :: u64
  ao_model_version :: u64
  ao_content_hash :: digest

definition translate_etw :: "etw_observation \<Rightarrow> digest \<Rightarrow> sensor_event result" where
  "translate_etw source channel_key =
     (let cx = et_correlation source in
      if et_sequence source = 0 \<or> et_monotonic_ns source = 0 \<or> et_event_id source = 0 \<or>
         cx_policy_version cx = 0 \<or> cx_model_version cx = 0
      then Inl St_invalid_argument
      else
        let header = (se_header blank_sensor_event)\<lparr>mh_sequence := et_sequence source,
              mh_monotonic_ns := et_monotonic_ns source, mh_flow_id := cx_flow_id cx, mh_object_id := cx_object_id cx,
              mh_policy_version := cx_policy_version cx, mh_model_version := cx_model_version cx\<rparr>
        in Inr (abi2_seal
             (blank_sensor_event\<lparr>se_header := header, se_sensor := kEtwSensor, se_kind := ucast (et_event_id source),
                se_process_id := cx_process_id cx, se_parent_process_id := cx_parent_process_id cx,
                se_provenance_id := cx_provenance_id cx, se_volume_id := cx_volume_id cx, se_file_id := cx_file_id cx,
                se_subject_id := push_bit 32 (ucast (et_level source)) OR push_bit 16 (ucast (et_version source)) OR
                                 ucast (et_event_id source),
                se_source_address := et_provider_id source, se_evidence_hash := et_evidence_hash source\<rparr>)
             channel_key))"

text \<open>
  What \<open>amsi.h\<close> and the AMSI provider decide: the verdict codes that mean malware, and the
  range of codes for content an administrator blocked.
\<close>

record amsi =
  as_is_malware :: "u32 \<Rightarrow> bool"
  as_blocked_start :: u32
  as_blocked_end :: u32

definition translate_amsi :: "amsi \<Rightarrow> amsi_observation \<Rightarrow> digest \<Rightarrow> sensor_event result" where
  "translate_amsi api source channel_key =
     (if ao_sequence source = 0 \<or> ao_monotonic_ns source = 0 \<or> ao_process_id source = 0 \<or>
         ao_policy_version source = 0 \<or> ao_model_version source = 0
      then Inl St_invalid_argument
      else
        let r = ao_scan_result source;
            header = (se_header blank_sensor_event)\<lparr>mh_sequence := ao_sequence source,
              mh_monotonic_ns := ao_monotonic_ns source, mh_object_id := ao_process_id source,
              mh_policy_version := ao_policy_version source, mh_model_version := ao_model_version source\<rparr>
        in Inr (abi2_seal
             (blank_sensor_event\<lparr>se_header := header, se_sensor := kAmsiSensor, se_kind := 1,
                se_process_id := ao_process_id source, se_subject_id := ucast r, se_decision := r,
                se_event_flags := (if as_is_malware api r \<or> as_blocked_start api \<le> r \<and> r \<le> as_blocked_end api then 2 else 0),
                se_evidence_hash := ao_content_hash source\<rparr>)
             channel_key))"

text \<open>\<open>initialized\<close> and \<open>scanned\<close> are the results of the AMSI calls, \<open>pid\<close> the number of the process.\<close>

definition scan_with_amsi ::
    "bool \<Rightarrow> u32 option \<Rightarrow> u64 \<Rightarrow> bytes \<Rightarrow> u64 \<Rightarrow> u64 \<Rightarrow> u64 \<Rightarrow> u64 \<Rightarrow> amsi_observation result" where
  "scan_with_amsi initialized scanned pid content sequence now policy_version model_version =
     (if content = [] \<or> length content > 0xffffffff \<or> sequence = 0 \<or> now = 0 \<or> policy_version = 0 \<or> model_version = 0
      then Inl St_invalid_argument
      else if \<not> initialized then Inl St_integrity_failure
      else case scanned of
             None \<Rightarrow> Inl St_integrity_failure
           | Some r \<Rightarrow> Inr \<lparr>ao_sequence = sequence, ao_monotonic_ns = now, ao_process_id = pid, ao_scan_result = r,
               ao_policy_version = policy_version, ao_model_version = model_version, ao_content_hash = sha256 content\<rparr>)"

section \<open>What the translations promise\<close>

lemma driver_event_bytes_inject [simp]: "driver_event_bytes e = driver_event_bytes e' \<longleftrightarrow> e = e'"
  by (auto simp: driver_event_bytes_def inj_simps)

text \<open>The parts of a translated event that its receiver looks at.\<close>

lemma translated_parts:
  assumes "to_sensor_event_v2 e p m key = Inr v"
  shows "translatable e" "\<exists>w. v = abi2_seal w key \<and> mh_flags (se_header w) = 0"
    "mh_sequence (se_header v) = dv_sequence e" "mh_monotonic_ns (se_header v) = clock_ns (dv_timestamp_100ns e)"
    "se_sensor v = dv_sensor e" "se_kind v = dv_kind e" "se_event_flags v = dv_flags e"
    "se_evidence_hash v = sha256 (driver_event_bytes e)" "mh_flags (se_header v) = 0"
  using assms
  by (auto simp: to_sensor_event_v2_def Let_def blank_sensor_event_def split: if_splits intro!: exI conjI)

lemma translated_acceptance:
  assumes "to_sensor_event_v2 e p m (a2_channel_key c) = Inr v"
  shows "abi2_validate v c = ok_unit \<longleftrightarrow> dv_sequence e = a2_expected_sequence c \<and>
    within_window (a2_now_monotonic_ns c) (a2_maximum_clock_skew_ns c) (clock_ns (dv_timestamp_100ns e))"
proof -
  note parts = translated_parts [OF assms]
  from parts(2) obtain w where w: "v = abi2_seal w (a2_channel_key c)" "mh_flags (se_header w) = 0" by blast
  have "mh_sequence (se_header w) = dv_sequence e" "mh_monotonic_ns (se_header w) = clock_ns (dv_timestamp_100ns e)"
    "se_sensor w = dv_sensor e" "se_kind w = dv_kind e" "se_event_flags w = dv_flags e"
    using parts(3-7) w(1) by simp_all
  moreover have "dv_sensor e \<noteq> 0" "dv_kind e \<noteq> 0" "dv_flags e AND NOT kKnownEventFlags = 0"
    using parts(1) by (auto simp: translatable_def)
  ultimately show ?thesis unfolding w(1) abi2_sealed_accepted_iff using w(2) by auto
qed

lemma translated_total: "translatable e \<Longrightarrow> \<exists>v. to_sensor_event_v2 e p m key = Inr v"
  by (simp add: to_sensor_event_v2_def Let_def)

text \<open>
  C19: a driver event is refused exactly when its version, size, sequence, sensor, kind or flags
  are out of their ranges; otherwise the message made of it is sealed so that a receiver with
  the same channel key accepts it as soon as it expects that sequence number and its clock
  window covers the time of the event, a time beyond the 64-bit range of nanoseconds being
  clamped. Two driver events whose messages carry the same evidence digest are the same
  record, byte for byte, or exhibit a collision of SHA-256.
\<close>

theorem driver_translation_sound:
  "(case to_sensor_event_v2 e p m (a2_channel_key c) of
      Inl s \<Rightarrow> s = St_integrity_failure \<and> \<not> translatable e
    | Inr v \<Rightarrow> translatable e \<and>
        (abi2_validate v c = ok_unit) =
          (dv_sequence e = a2_expected_sequence c \<and>
           within_window (a2_now_monotonic_ns c) (a2_maximum_clock_skew_ns c) (clock_ns (dv_timestamp_100ns e))) \<and>
        unat (clock_ns (dv_timestamp_100ns e)) =
          (if unat (dv_timestamp_100ns e) * 100 < 2 ^ 64 then unat (dv_timestamp_100ns e) * 100 else 2 ^ 64 - 1) \<and>
        (case to_sensor_event_v2 e' p' m' key' of
           Inl _ \<Rightarrow> True
         | Inr v' \<Rightarrow> (if se_evidence_hash v = se_evidence_hash v'
             then e = e' \<or> is_collision (driver_event_bytes e, driver_event_bytes e') else True)))"
proof (cases "to_sensor_event_v2 e p m (a2_channel_key c)")
  case (Inl s)
  then have "\<not> translatable e" using translated_total [of e p m "a2_channel_key c"] by auto
  then show ?thesis by (simp add: to_sensor_event_v2_def)
next
  case (Inr v)
  have clock: "unat (clock_ns t) = (if unat t * 100 < 2 ^ 64 then unat t * 100 else 2 ^ 64 - 1)" for t :: u64
  proof -
    have le: "t \<le> 0xffffffffffffffff div 100 \<longleftrightarrow> unat t * 100 < 2 ^ 64"
      by (simp add: word_le_nat_alt) linarith
    show ?thesis unfolding clock_ns_def le by (auto simp: unat_word_ariths)
  qed
  have same: "se_evidence_hash v = se_evidence_hash v' \<Longrightarrow> to_sensor_event_v2 e' p' m' key' = Inr v' \<Longrightarrow>
      e = e' \<or> is_collision (driver_event_bytes e, driver_event_bytes e')" for v'
    using translated_parts(8) [OF Inr] translated_parts(8) [of e' p' m' key' v']
      sha256_equal_or_collision [of "driver_event_bytes e" "driver_event_bytes e'"] by auto
  show ?thesis
    using Inr translated_parts(1) [OF Inr] translated_acceptance [OF Inr] same
    by (auto simp: clock split: sum.splits)
qed

lemma find_SomeD: "find P xs = Some x \<Longrightarrow> x \<in> set xs \<and> P x"
  by (auto simp: find_Some_iff)

text \<open>The direction of a flow: the source is the peer of an inbound flow and this host of an outbound one.\<close>

lemma telemetry_direction:
  "translate_telemetry layer ob inbound = Inr e \<Longrightarrow>
     fe_source_ipv4_be e = (if inbound then wo_remote_ipv4_be ob else wo_local_ipv4_be ob) \<and>
     fe_target_ipv4_be e = (if inbound then wo_local_ipv4_be ob else wo_remote_ipv4_be ob) \<and>
     fe_source_port_be e = (if inbound then wo_remote_port_be ob else wo_local_port_be ob) \<and>
     fe_target_port_be e = (if inbound then wo_local_port_be ob else wo_remote_port_be ob) \<and>
     fe_protocol e \<in> {6, 17}"
  by (auto simp: translate_telemetry_def to_flow_event_def wt_tcp_def wt_udp_def Let_def split: if_splits)

text \<open>
  Without the broker only media and game services are let through, and only at ports that are
  registered as reachable from outside.
\<close>

lemma fast_path_allows:
  "fd_action (decide_fast_path \<lparr>fp_admission = admit t port services, fp_broker_available = broker,
       fp_known_blocked_source = known, fp_pending_capacity_available = capacity, fp_service_class = c\<rparr>) = KA_allow
   \<longleftrightarrow> \<not> known \<and> (\<not> broker \<or> \<not> capacity) \<and> c = SC_media_game \<and>
     (\<exists>p \<in> set services. sp_transport p = t \<and> sp_port_be p = port \<and> sp_externally_reachable p)"
proof -
  have "am_action (admit t port services) = (if \<exists>p \<in> set services. sp_transport p = t \<and> sp_port_be p = port \<and>
      sp_externally_reachable p then SA_allow_monitored else SA_drop_flow)"
    by (auto simp: admit_def find_None_iff split: option.split dest!: find_SomeD)
  then show ?thesis by (cases c) (auto simp: decide_fast_path_def fail_policy_decide_def Let_def)
qed

section \<open>Runs of the driver channel\<close>

fun channel_run :: "flow_event list \<Rightarrow> driver_channel \<Rightarrow> flow_event list \<times> driver_channel" where
  "channel_run [] channel = ([], channel)"
| "channel_run (e # es) channel =
     (let (result, channel) = accept_flow_event e channel;
          (accepted, channel) = channel_run es channel
      in (if res_ok result then e # accepted else accepted, channel))"

lemma res_ok_of_validation: "res_ok (Inl (res_status r)) \<longleftrightarrow> res_ok (r :: unit result)"
  by (cases r) simp_all

lemma accept_cases:
  "accept_flow_event e ch =
     (if fst (accept_flow_event e ch) = ok_unit
      then (ok_unit, ch\<lparr>dc_next_sequence := dc_next_sequence ch + 1\<rparr>) else (fst (accept_flow_event e ch), ch)) \<and>
   (res_ok (fst (accept_flow_event e ch)) \<longleftrightarrow> fst (accept_flow_event e ch) = ok_unit) \<and>
   (fst (accept_flow_event e ch) = ok_unit \<longrightarrow> fe_sequence e = dc_next_sequence ch \<and> fe_flow_id e \<noteq> 0)"
  by (auto simp: accept_flow_event_def Let_def res_ok_of_validation av_validate_flow_event_def
      av_validate_flow_event_header_def split: if_splits)

text \<open>
  Whatever flow events arrive, the channel passes on a run of consecutive sequence numbers
  that starts at the one it waited for: no event is accepted twice, none is skipped and none
  overtakes another.
\<close>

theorem channel_accepts_consecutive:
  "let (accepted, after) = channel_run events channel
   in map fe_sequence accepted = map (\<lambda>i. dc_next_sequence channel + of_nat i) [0..<length accepted] \<and>
      dc_next_sequence after = dc_next_sequence channel + of_nat (length accepted) \<and>
      subseq accepted events \<and> 0 \<notin> set (map fe_flow_id accepted)"
proof (induction events arbitrary: channel)
  case Nil
  show ?case by simp
next
  case (Cons e es)
  obtain r channel' where step: "accept_flow_event e channel = (r, channel')" by fastforce
  obtain accepted "after" where run: "channel_run es channel' = (accepted, after)" by fastforce
  note IH = Cons.IH [of channel', unfolded run Let_def case_prod_conv]
  show ?case
  proof (cases "r = ok_unit")
    case True
    with accept_cases [of e channel] step have
      next': "dc_next_sequence channel' = dc_next_sequence channel + 1" and
      e: "fe_sequence e = dc_next_sequence channel" "fe_flow_id e \<noteq> 0" by auto
    have "map (\<lambda>i. dc_next_sequence channel + of_nat i) [0..<Suc n] =
      dc_next_sequence channel # map (\<lambda>i. dc_next_sequence channel' + of_nat i) [0..<n]" for n
      by (simp add: map_upt_Suc next' ac_simps del: upt_Suc)
    then show ?thesis using IH e by (simp add: step run True next' ac_simps del: upt_Suc)
  next
    case False
    with accept_cases [of e channel] step have same: "channel' = channel" and "\<not> res_ok r" by auto
    then show ?thesis using IH run by (simp add: step same) auto
  qed
qed

end
