(* ===== verification/AIS_Runtime.thy ===== *)
theory AIS_Runtime
  imports AIS_Codec
begin

text \<open>
  \<open>platform/windows/security/secure_runtime_state.cpp\<close>: the versions and channel keys of the
  broker, kept in a file that the Windows data protection API seals, with a copy of the state
  before it as a fallback. The three files, and a count of the system calls made so far, are
  the state; what the calls answer is a parameter (\<open>runtime_os\<close>): each call that may fail asks
  the environment under its number, opening, reading and unsealing a file included, so that
  every pattern of failures is an instance. Two things are left out: the forms of \<open>exists\<close> in
  \<open>load_or_create\<close> that throw are taken to answer (where they throw, the files stay as they
  are), and \<open>create_directories\<close>, whose result the code ignores.
\<close>

section \<open>The state and its bytes\<close>

record runtime_state =
  rs_generation :: u64
  rs_policy_version :: u64
  rs_model_version :: u64
  rs_previous_generation :: u64
  rs_channel_key :: digest
  rs_previous_channel_key :: digest

definition initial_runtime :: runtime_state where
  "initial_runtime = \<lparr>rs_generation = 1, rs_policy_version = 0, rs_model_version = 1, rs_previous_generation = 0,
     rs_channel_key = zero_digest, rs_previous_channel_key = zero_digest\<rparr>"

definition runtime_magic :: bytes where
  "runtime_magic = [0x41, 0x49, 0x53, 0x48, 0x52, 0x54, 0x30, 0x32]"

definition kPlainSize :: nat where
  "kPlainSize = 8 + 4 * 8 + 64"

definition runtime_serialize :: "runtime_state \<Rightarrow> bytes" where
  "runtime_serialize s =
     runtime_magic @ le64 (rs_generation s) @ le64 (rs_policy_version s) @ le64 (rs_model_version s) @
     le64 (rs_previous_generation s) @ rs_channel_key s @ rs_previous_channel_key s"

definition runtime_deserialize :: "bytes \<Rightarrow> runtime_state result" where
  "runtime_deserialize bs =
     (if length bs \<noteq> kPlainSize \<or> take 8 bs \<noteq> runtime_magic then Inl St_malformed_input
      else
        let (generation, offset) = read_le 8 bs 8;
            (policy, offset) = read_le 8 bs offset;
            (model, offset) = read_le 8 bs offset;
            (previous, offset) = read_le 8 bs offset
        in case (generation, policy, model, previous) of
             (Inr g, Inr p, Inr m, Inr v) \<Rightarrow>
               if g = 0 \<or> m = 0 then Inl St_integrity_failure
               else Inr \<lparr>rs_generation = g, rs_policy_version = p, rs_model_version = m, rs_previous_generation = v,
                 rs_channel_key = map (\<lambda>i. bs ! (offset + i)) [0..<32],
                 rs_previous_channel_key = map (\<lambda>i. bs ! (offset + 32 + i)) [0..<32]\<rparr>
           | _ \<Rightarrow> Inl St_integrity_failure)"

definition wf_runtime :: "runtime_state \<Rightarrow> bool" where
  "wf_runtime s \<longleftrightarrow> wf_digest (rs_channel_key s) \<and> wf_digest (rs_previous_channel_key s) \<and>
     rs_generation s \<noteq> 0 \<and> rs_model_version s \<noteq> 0"

section \<open>The store\<close>

record runtime_files =
  rf_primary :: "bytes option"
  rf_recovery :: "bytes option"
  rf_legacy :: "bytes option"
  rf_calls :: nat

text \<open>
  What the stream delivers of a file that is there (\<open>None\<close>: it cannot be opened, now),
  \<open>CryptProtectData\<close> and \<open>CryptUnprotectData\<close>, \<open>BCryptGenRandom\<close>, whether another call on the file
  system succeeds, and what a copy that fails leaves in its target.
\<close>

record runtime_os =
  os_read :: "nat \<Rightarrow> bytes \<Rightarrow> bytes option"
  os_protect :: "nat \<Rightarrow> bytes \<Rightarrow> bytes option"
  os_unprotect :: "nat \<Rightarrow> bytes \<Rightarrow> bytes option"
  os_random :: "nat \<Rightarrow> digest option"
  os_ok :: "nat \<Rightarrow> bool"
  os_torn :: "nat \<Rightarrow> bytes option"

abbreviation called :: "runtime_files \<Rightarrow> runtime_files" where
  "called f \<equiv> f\<lparr>rf_calls := Suc (rf_calls f)\<rparr>"

definition max_dword :: nat where
  "max_dword = 0xffffffff"

definition read_protected :: "runtime_os \<Rightarrow> bytes option \<Rightarrow> runtime_files \<Rightarrow> runtime_state result \<times> runtime_files" where
  "read_protected os content f =
     (case (case content of None \<Rightarrow> None | Some bs \<Rightarrow> os_read os (rf_calls f) bs) of
        None \<Rightarrow> (Inl St_not_found, called f)
      | Some encrypted \<Rightarrow>
          if encrypted = [] \<or> length encrypted > max_dword then (Inl St_malformed_input, called f)
          else case os_unprotect os (Suc (rf_calls f)) encrypted of
                 None \<Rightarrow> (Inl St_integrity_failure, called (called f))
               | Some plain \<Rightarrow> (runtime_deserialize plain, called (called f)))"

text \<open>\<open>atomic_write\<close> replaces the file or leaves it alone.\<close>

definition atomic_write_primary :: "runtime_os \<Rightarrow> bytes \<Rightarrow> runtime_files \<Rightarrow> bool \<times> runtime_files" where
  "atomic_write_primary os content f =
     (if length content \<le> max_dword \<and> os_ok os (rf_calls f) then (True, called (f\<lparr>rf_primary := Some content\<rparr>))
      else (False, called f))"

text \<open>Where \<open>exists\<close> fails it answers no, and nothing is copied.\<close>

definition copy_to_recovery :: "runtime_os \<Rightarrow> runtime_files \<Rightarrow> bool \<times> runtime_files" where
  "copy_to_recovery os f =
     (if rf_primary f = None \<or> \<not> os_ok os (rf_calls f) then (True, called f)
      else let f = called f in
        if os_ok os (rf_calls f) then (True, called (f\<lparr>rf_recovery := rf_primary f\<rparr>))
        else (False, called (f\<lparr>rf_recovery := os_torn os (rf_calls f)\<rparr>)))"

definition runtime_save :: "runtime_os \<Rightarrow> runtime_state \<Rightarrow> runtime_files \<Rightarrow> unit result \<times> runtime_files" where
  "runtime_save os s f =
     (case os_protect os (rf_calls f) (runtime_serialize s) of
        None \<Rightarrow> (Inl St_integrity_failure, called f)
      | Some encrypted \<Rightarrow>
          let (ok, f) = copy_to_recovery os (called f);
              (ok, f) = (if ok then atomic_write_primary os encrypted f else (False, f))
          in (if ok then ok_unit else Inl St_integrity_failure, f))"

definition runtime_load :: "runtime_os \<Rightarrow> runtime_files \<Rightarrow> runtime_state result \<times> runtime_files" where
  "runtime_load os f =
     (case read_protected os (rf_primary f) f of
        (Inr s, f) \<Rightarrow> (Inr s, f)
      | (Inl _, f) \<Rightarrow>
          (case read_protected os (rf_recovery f) f of
             (Inl e, f) \<Rightarrow> (Inl e, f)
           | (Inr s, f) \<Rightarrow>
               if \<not> os_ok os (rf_calls f) then (Inl St_integrity_failure, called f)
               else case runtime_save os s (called (f\<lparr>rf_primary := None\<rparr>)) of
                      (Inl e, f) \<Rightarrow> (Inl e, f)
                    | (Inr _, f) \<Rightarrow> (Inr s, f)))"

text \<open>The first channel key: the legacy key file when it has exactly 32 bytes, a fresh one otherwise.\<close>

definition first_key :: "runtime_os \<Rightarrow> runtime_files \<Rightarrow> digest option \<times> runtime_files" where
  "first_key os f =
     (let f' = called f in
      case (case rf_legacy f of None \<Rightarrow> None | Some bs \<Rightarrow> os_read os (rf_calls f) bs) of
        Some key \<Rightarrow> if length key = 32 then (Some key, f') else (os_random os (rf_calls f'), called f')
      | None \<Rightarrow> (os_random os (rf_calls f'), called f'))"

definition load_or_create :: "runtime_os \<Rightarrow> runtime_files \<Rightarrow> runtime_state result \<times> runtime_files" where
  "load_or_create os f =
     (case runtime_load os f of
        (Inr s, f) \<Rightarrow> (Inr s, f)
      | (Inl _, f) \<Rightarrow>
          if rf_primary f \<noteq> None \<or> rf_recovery f \<noteq> None then (Inl St_integrity_failure, f)
          else case first_key os f of
                 (None, f) \<Rightarrow> (Inl St_integrity_failure, f)
               | (Some key, f) \<Rightarrow>
                   let s = initial_runtime\<lparr>rs_channel_key := key\<rparr>;
                       (saved, f) = runtime_save os s f
                   in if \<not> res_ok saved then (Inl (res_status saved), f)
                      else if rf_legacy f = None then (Inr s, f)
                      else if os_ok os (rf_calls f) then (Inr s, called (f\<lparr>rf_legacy := None\<rparr>))
                      else (Inl St_integrity_failure, called f))"

definition update_versions :: "runtime_os \<Rightarrow> u64 \<Rightarrow> u64 \<Rightarrow> runtime_files \<Rightarrow> runtime_state result \<times> runtime_files" where
  "update_versions os policy_version model_version f =
     (if policy_version = 0 \<or> model_version = 0 then (Inl St_invalid_argument, f)
      else case load_or_create os f of
             (Inl _, f) \<Rightarrow> (Inl St_integrity_failure, f)
           | (Inr s, f) \<Rightarrow>
               if policy_version < rs_policy_version s \<or> model_version < rs_model_version s
               then (Inl St_integrity_failure, f)
               else
                 let s = s\<lparr>rs_policy_version := policy_version, rs_model_version := model_version\<rparr>;
                     (saved, f) = runtime_save os s f
                 in (if res_ok saved then Inr s else Inl (res_status saved), f))"

definition rotate_runtime_key :: "runtime_os \<Rightarrow> runtime_files \<Rightarrow> runtime_state result \<times> runtime_files" where
  "rotate_runtime_key os f =
     (case load_or_create os f of
        (Inl _, f) \<Rightarrow> (Inl St_integrity_failure, f)
      | (Inr s, f) \<Rightarrow>
          if rs_generation s = 0xffffffffffffffff then (Inl St_integrity_failure, f)
          else case os_random os (rf_calls f) of
                 None \<Rightarrow> (Inl St_integrity_failure, called f)
               | Some key \<Rightarrow>
                   let s = s\<lparr>rs_previous_generation := rs_generation s, rs_previous_channel_key := rs_channel_key s,
                         rs_generation := rs_generation s + 1, rs_channel_key := key\<rparr>;
                       (saved, f) = runtime_save os s (called f)
                   in (if res_ok saved then Inr s else Inl (res_status saved), f))"

section \<open>The bytes determine the state\<close>

lemma runtime_deserialize_iff:
  "(runtime_deserialize bs = Inr s) = (wf_runtime s \<and> bs = runtime_serialize s)"
proof
  assume r: "runtime_deserialize bs = Inr s"
  then have len: "length bs = 104" and magic: "take 8 bs = runtime_magic"
    by (auto simp: runtime_deserialize_def kPlainSize_def split: if_splits)
  have keys: "map (\<lambda>i. bs ! (40 + i)) [0..<32] = take 32 (drop 40 bs)"
    "map (\<lambda>i. bs ! (72 + i)) [0..<32] = take 32 (drop 72 bs)"
    using len by (simp_all add: map_nth_window del: upt_rec_numeral)
  have s: "s = \<lparr>rs_generation = le_word (take 8 (drop 8 bs)), rs_policy_version = le_word (take 8 (drop 16 bs)),
      rs_model_version = le_word (take 8 (drop 24 bs)), rs_previous_generation = le_word (take 8 (drop 32 bs)),
      rs_channel_key = take 32 (drop 40 bs), rs_previous_channel_key = take 32 (drop 72 bs)\<rparr>"
    and nonzero: "rs_generation s \<noteq> 0" "rs_model_version s \<noteq> 0"
    using r keys by (auto simp: runtime_deserialize_def kPlainSize_def read_le_def len magic
        simp del: upt_rec_numeral split: if_splits)
  have "bs = take 8 bs @ take 8 (drop 8 bs) @ take 8 (drop 16 bs) @ take 8 (drop 24 bs) @ take 8 (drop 32 bs) @
      take 32 (drop 40 bs) @ take 32 (drop 72 bs)"
    by (rule nth_equalityI) (auto simp: len nth_append)
  also have "\<dots> = runtime_serialize s"
    by (simp add: runtime_serialize_def magic s le_bytes_le_word len)
  finally show "wf_runtime s \<and> bs = runtime_serialize s"
    using nonzero len by (simp add: wf_runtime_def s wf_digest_def)
next
  assume s: "wf_runtime s \<and> bs = runtime_serialize s"
  then have len: "length (rs_channel_key s) = 32" "length (rs_previous_channel_key s) = 32"
    by (simp_all add: wf_runtime_def wf_digest_def)
  have magic: "length runtime_magic = 8" by (simp add: runtime_magic_def)
  have bs: "length bs = 104" "take 8 bs = runtime_magic" using s len magic by (simp_all add: runtime_serialize_def)
  have reads: "read_le 8 bs 8 = (Inr (rs_generation s), 16)" "read_le 8 bs 16 = (Inr (rs_policy_version s), 24)"
    "read_le 8 bs 24 = (Inr (rs_model_version s), 32)" "read_le 8 bs 32 = (Inr (rs_previous_generation s), 40)"
    using s len magic by (simp_all add: read_le_def runtime_serialize_def)
  have keys: "map (\<lambda>i. bs ! (40 + i)) [0..<32] = rs_channel_key s"
    "map (\<lambda>i. bs ! (72 + i)) [0..<32] = rs_previous_channel_key s"
    using s len magic by (simp_all add: map_nth_window runtime_serialize_def del: upt_rec_numeral)
  show "runtime_deserialize bs = Inr s"
    using s [THEN conjunct1] keys
    by (simp add: runtime_deserialize_def kPlainSize_def bs reads wf_runtime_def del: upt_rec_numeral)
qed


section \<open>What the store promises\<close>

text \<open>
  The assumption on the protection API: what it sealed it opens again to the same contents,
  or fails to open. Random keys have 32 bytes.
\<close>

definition sealing_os :: "runtime_os \<Rightarrow> bool" where
  "sealing_os os \<longleftrightarrow>
     (\<forall>n plain e. length plain = kPlainSize \<longrightarrow> os_protect os n plain = Some e \<longrightarrow>
        e \<noteq> [] \<and> length e \<le> max_dword \<and> (\<forall>m. os_unprotect os m e \<in> {None, Some plain})) \<and>
     (\<forall>n key. os_random os n = Some key \<longrightarrow> wf_digest key)"

text \<open>
  Reading is steady: a file that is there can be opened and read in full, and unsealing the
  same bytes gives the same answer every time, never a failure for what was sealed.
\<close>

definition steady_os :: "runtime_os \<Rightarrow> bool" where
  "steady_os os \<longleftrightarrow> (\<forall>n bs. os_read os n bs = Some bs) \<and> (\<forall>m e. os_unprotect os m e = os_unprotect os 0 e) \<and>
     (\<forall>n plain e. os_protect os n plain = Some e \<longrightarrow> os_unprotect os 0 e \<noteq> None)"

text \<open>The state the files stand for when they are read without a failure.\<close>

definition file_state :: "runtime_os \<Rightarrow> bytes option \<Rightarrow> runtime_state result" where
  "file_state os content =
     (case content of
        None \<Rightarrow> Inl St_not_found
      | Some encrypted \<Rightarrow>
          if encrypted = [] \<or> length encrypted > max_dword then Inl St_malformed_input
          else case os_unprotect os 0 encrypted of
                 None \<Rightarrow> Inl St_integrity_failure
               | Some plain \<Rightarrow> runtime_deserialize plain)"

definition current_state :: "runtime_os \<Rightarrow> runtime_files \<Rightarrow> runtime_state option" where
  "current_state os f =
     (case file_state os (rf_primary f) of
        Inr s \<Rightarrow> Some s
      | Inl _ \<Rightarrow> (case file_state os (rf_recovery f) of Inr s \<Rightarrow> Some s | Inl _ \<Rightarrow> None))"

lemma read_steady:
  assumes "steady_os os"
  obtains n where "read_protected os c f = (file_state os c, f\<lparr>rf_calls := n\<rparr>)"
proof -
  have "\<exists>n. read_protected os c f = (file_state os c, f\<lparr>rf_calls := n\<rparr>)"
  proof -
    have "os_read os (rf_calls f) bs = Some bs" "os_unprotect os (Suc (rf_calls f)) e = os_unprotect os 0 e" for bs e
      using assms unfolding steady_os_def by blast+
    then show ?thesis unfolding read_protected_def file_state_def by (cases c) (auto split: option.split)
  qed
  then show thesis using that by blast
qed

lemma current_state_calls [simp]: "current_state os (f\<lparr>rf_calls := n\<rparr>) = current_state os f"
  by (simp add: current_state_def split: sum.split)

text \<open>No version is lower, and the key is the same unless the generation is higher.\<close>

definition newer :: "runtime_state \<Rightarrow> runtime_state \<Rightarrow> bool" where
  "newer s s' \<longleftrightarrow>
     rs_policy_version s \<le> rs_policy_version s' \<and> rs_model_version s \<le> rs_model_version s' \<and>
     rs_generation s \<le> rs_generation s' \<and>
     (rs_generation s = rs_generation s' \<longrightarrow> rs_channel_key s = rs_channel_key s' \<and>
        rs_previous_channel_key s = rs_previous_channel_key s')"

lemma newer_refl [simp]: "newer s s"
  by (simp add: newer_def)

lemma newer_trans: "newer a b \<Longrightarrow> newer b c \<Longrightarrow> newer a c"
  unfolding newer_def by (metis order_antisym order_trans)

text \<open>The primary file holds the state, or it is gone and the copy holds it.\<close>

definition settled :: "runtime_os \<Rightarrow> runtime_state \<Rightarrow> runtime_files \<Rightarrow> bool" where
  "settled os s f \<longleftrightarrow> file_state os (rf_primary f) = Inr s \<or>
     rf_primary f = None \<and> file_state os (rf_recovery f) = Inr s"

lemma read_none [simp]: "file_state os None = Inl St_not_found"
  by (simp add: file_state_def)

lemma settled_current: "settled os s f \<Longrightarrow> current_state os f = Some s"
  by (auto simp: settled_def current_state_def)

lemma read_wf: "file_state os c = Inr s \<Longrightarrow> wf_runtime s"
  by (auto simp: file_state_def runtime_deserialize_iff split: option.splits if_splits)

lemma settled_wf: "settled os s f \<Longrightarrow> wf_runtime s"
  by (auto simp: settled_def dest: read_wf)

lemma read_sealed:
  "sealing_os os \<Longrightarrow> steady_os os \<Longrightarrow> wf_runtime s \<Longrightarrow> os_protect os n (runtime_serialize s) = Some e \<Longrightarrow>
     file_state os (Some e) = Inr s"
proof -
  assume os: "sealing_os os" and st: "steady_os os" and s: "wf_runtime s" and e: "os_protect os n (runtime_serialize s) = Some e"
  have "length (runtime_serialize s) = kPlainSize"
    using s by (simp add: runtime_serialize_def kPlainSize_def wf_runtime_def wf_digest_def runtime_magic_def)
  with os e have sealed: "e \<noteq> []" "length e \<le> max_dword" "os_unprotect os 0 e \<in> {None, Some (runtime_serialize s)}"
    unfolding sealing_os_def by blast+
  moreover have "os_unprotect os 0 e \<noteq> None" using st e unfolding steady_os_def by blast
  ultimately have "e \<noteq> []" "length e \<le> max_dword" "os_unprotect os 0 e = Some (runtime_serialize s)" by auto
  then show ?thesis using s by (simp add: file_state_def runtime_deserialize_iff)
qed

lemma saved:
  assumes "sealing_os os" "steady_os os" "wf_runtime s'" "runtime_save os s' f = (r, f')"
  shows "if r = ok_unit then file_state os (rf_primary f') = Inr s' \<and>
           (os_ok os (Suc (rf_calls f)) \<longrightarrow>
              rf_recovery f' = (if rf_primary f = None then rf_recovery f else rf_primary f))
         else settled os s f \<longrightarrow> settled os s f'"
    and "rf_legacy f' = rf_legacy f" "r = ok_unit \<or> r = Inl St_integrity_failure"
  using assms(4) read_sealed [OF assms(1-3)]
  by (auto simp: runtime_save_def copy_to_recovery_def atomic_write_primary_def settled_def Let_def
      split: option.splits if_splits)

lemma loaded:
  assumes "sealing_os os" "steady_os os" "runtime_load os f = (r, f')"
  shows "case r of Inr s \<Rightarrow> current_state os f = Some s \<and> settled os s f'
         | Inl _ \<Rightarrow> (case current_state os f of Some s \<Rightarrow> current_state os f' = Some s
                   | None \<Rightarrow> \<exists>n. f' = f\<lparr>rf_calls := n\<rparr>)"
proof -
  obtain n where p: "read_protected os (rf_primary f) f = (file_state os (rf_primary f), f\<lparr>rf_calls := n\<rparr>)"
    using read_steady [OF assms(2)] .
  let ?f = "f\<lparr>rf_calls := n\<rparr>"
  show ?thesis
  proof (cases "file_state os (rf_primary f)")
    case (Inr s)
    then have "r = Inr s" "f' = ?f" using assms(3) p by (simp_all add: runtime_load_def)
    then show ?thesis using Inr by (simp add: current_state_def settled_def)
  next
    case prim: (Inl e)
    obtain m where q: "read_protected os (rf_recovery ?f) ?f = (file_state os (rf_recovery f), f\<lparr>rf_calls := m\<rparr>)"
      using read_steady [OF assms(2), of "rf_recovery ?f" ?f] by auto
    let ?g = "f\<lparr>rf_calls := m\<rparr>"
    show ?thesis
    proof (cases "file_state os (rf_recovery f)")
      case (Inl e')
      then have "r = Inl e'" "f' = ?g" using assms(3) p q prim by (simp_all add: runtime_load_def)
      then show ?thesis using prim Inl by (auto simp: current_state_def)
    next
      case (Inr s)
      then have cur: "current_state os f = Some s" by (simp add: current_state_def prim)
      let ?h = "called (?g\<lparr>rf_primary := None\<rparr>)"
      obtain r1 f1 where s1: "runtime_save os s ?h = (r1, f1)" by fastforce
      note sv = saved [OF assms(1,2) read_wf [OF Inr] s1]
      have "settled os s ?h" using Inr by (simp add: settled_def)
      then have s1': "settled os s f1" using sv(1) [of s] by (cases "r1 = ok_unit") (simp_all add: settled_def)
      show ?thesis
      proof (cases "os_ok os m")
        case False
        then have "r = Inl St_integrity_failure" "f' = called ?g"
          using assms(3) p q prim Inr by (simp_all add: runtime_load_def)
        then show ?thesis using cur by simp
      next
        case True
        then have "r = (case r1 of Inl e \<Rightarrow> Inl e | Inr _ \<Rightarrow> Inr s)" "f' = f1"
          using assms(3) p q prim Inr s1 by (auto simp: runtime_load_def split: sum.splits)
        then show ?thesis using cur s1' settled_current [OF s1'] by (auto split: sum.split)
      qed
    qed
  qed
qed

lemma reopened:
  assumes "sealing_os os" "steady_os os" "load_or_create os f = (r, f')" "current_state os f = Some s"
  shows "case r of Inr t \<Rightarrow> t = s \<and> settled os s f' | Inl _ \<Rightarrow> current_state os f' = Some s"
proof -
  obtain r1 f1 where l: "runtime_load os f = (r1, f1)" by fastforce
  note ld = loaded [OF assms(1,2) l]
  show ?thesis
  proof (cases r1)
    case (Inr t)
    then show ?thesis using ld assms(3,4) l by (auto simp: load_or_create_def)
  next
    case (Inl e)
    then have c: "current_state os f1 = Some s" using ld assms(4) by simp
    then have "rf_primary f1 \<noteq> None \<or> rf_recovery f1 \<noteq> None"
      by (cases "rf_primary f1"; cases "rf_recovery f1") (simp_all add: current_state_def)
    then have "r = Inl St_integrity_failure \<and> f' = f1" using assms(3) l Inl by (auto simp: load_or_create_def)
    then show ?thesis using c by simp
  qed
qed

datatype runtime_op = RO_open | RO_update u64 u64 | RO_rotate

fun runtime_do :: "runtime_os \<Rightarrow> runtime_op \<Rightarrow> runtime_files \<Rightarrow> runtime_state result \<times> runtime_files" where
  "runtime_do os RO_open f = load_or_create os f"
| "runtime_do os (RO_update p m) f = update_versions os p m f"
| "runtime_do os RO_rotate f = rotate_runtime_key os f"

lemma saved_step:
  assumes os: "sealing_os os" "steady_os os" and s: "settled os s f" and t: "wf_runtime t" "newer s t"
    and sv: "runtime_save os t f = (r, f')"
  shows "\<exists>u. current_state os f' = Some u \<and> newer s u \<and> (r = ok_unit \<longrightarrow> u = t)"
proof (cases "r = ok_unit")
  case True
  then show ?thesis using saved(1) [OF os t(1) sv] t by (simp add: current_state_def)
next
  case False
  then show ?thesis using saved(1) [OF os t(1) sv, of s] s settled_current by force
qed

lemma runtime_do_newer:
  assumes os: "sealing_os os" "steady_os os" and cur: "current_state os f = Some s" and step: "runtime_do os op f = (r, f')"
  shows "\<exists>u. current_state os f' = Some u \<and> newer s u \<and> (case r of Inl _ \<Rightarrow> True | Inr t \<Rightarrow> t = u)"
proof -
  obtain r1 f1 where l: "load_or_create os f = (r1, f1)" by fastforce
  note re = reopened [OF os l cur]
  have same: "current_state os f1 = Some s" using re settled_current by (cases r1) auto
  show ?thesis
  proof (cases op)
    case RO_open
    then show ?thesis using step l re same by (cases r1) auto
  next
    case (RO_update p m)
    show ?thesis
    proof (cases "p = 0 \<or> m = 0 \<or> (\<exists>e. r1 = Inl e) \<or> p < rs_policy_version s \<or> m < rs_model_version s")
      case True
      then show ?thesis using step RO_update l re same cur by (cases r1) (auto simp: update_versions_def split: if_splits)
    next
      case False
      then have r1: "r1 = Inr s" "settled os s f1" using re by (cases r1; auto)+
      let ?t = "s\<lparr>rs_policy_version := p, rs_model_version := m\<rparr>"
      obtain r2 f2 where sv: "runtime_save os ?t f1 = (r2, f2)" by fastforce
      have "wf_runtime ?t" "newer s ?t" using settled_wf [OF r1(2)] False by (auto simp: wf_runtime_def newer_def)
      from saved_step [OF os r1(2) this sv] show ?thesis
        using saved(3) [OF os \<open>wf_runtime ?t\<close> sv] step RO_update False l r1 sv
        by (auto simp: update_versions_def Let_def)
    qed
  next
    case RO_rotate
    show ?thesis
    proof (cases "(\<exists>e. r1 = Inl e) \<or> rs_generation s = 0xffffffffffffffff \<or> os_random os (rf_calls f1) = None")
      case True
      show ?thesis using True step RO_rotate l re same
        by (cases r1) (auto simp: rotate_runtime_key_def split: if_splits)
    next
      case False
      then obtain key where key: "os_random os (rf_calls f1) = Some key" by auto
      from False have r1: "r1 = Inr s" "settled os s f1" using re by (cases r1; auto)+
      let ?t = "s\<lparr>rs_previous_generation := rs_generation s, rs_previous_channel_key := rs_channel_key s,
        rs_generation := rs_generation s + 1, rs_channel_key := key\<rparr>"
      obtain r2 f2 where sv: "runtime_save os ?t (called f1) = (r2, f2)" by fastforce
      have g: "rs_generation s < rs_generation s + 1"
      proof -
        have "unat (rs_generation s) \<noteq> unat (0xffffffffffffffff :: u64)" using False by (simp only: word_unat_eq_iff [symmetric]) simp
        moreover have "unat (rs_generation s) < 2 ^ 64" using unsigned_less [of "rs_generation s"] by simp
        ultimately show ?thesis by (simp add: word_less_nat_alt unat_plus_if')
      qed
      have "wf_digest key" using key os(1) by (auto simp: sealing_os_def)
      then have t: "wf_runtime ?t" "newer s ?t" using settled_wf [OF r1(2)] g by (auto simp: wf_runtime_def newer_def)
      have "settled os s (called f1)" using r1(2) by (simp add: settled_def)
      from saved_step [OF os this t sv] show ?thesis
        using saved(3) [OF os t(1) sv] step RO_rotate False key l r1 sv
        by (auto simp: rotate_runtime_key_def Let_def)
    qed
  qed
qed


lemma runtime_run_newer:
  "sealing_os os \<Longrightarrow> steady_os os \<Longrightarrow> current_state os f = Some s \<Longrightarrow>
   \<exists>u. current_state os (fold (\<lambda>op f. snd (runtime_do os op f)) ops f) = Some u \<and> newer s u"
proof (induction ops arbitrary: f s)
  case Nil
  then show ?case by auto
next
  case (Cons op ops)
  obtain r f1 where step: "runtime_do os op f = (r, f1)" by fastforce
  from runtime_do_newer [OF Cons.prems step] obtain u where u: "current_state os f1 = Some u" "newer s u" by blast
  from Cons.IH [OF Cons.prems(1,2) u(1)] show ?case using newer_trans [OF u(2)] by (auto simp: step)
qed

text \<open>
  C18: as long as reading is steady - a file that is there can be opened and read, and unsealing
  it gives the same answer every time - then whatever other calls fail (sealing, copying,
  writing, replacing, removing, random numbers), once the files hold a state they always do:
  after any run of opening, updating and rotating they hold one whose policy and model
  versions and key generation are not lower, with the same keys unless the generation is
  higher; an operation that reports success leaves exactly the state it reports, and one that
  fails leaves one that is no older. Without the condition this is false: one failed read of
  the primary file brings back the copy.
\<close>

theorem runtime_store_never_goes_back:
  assumes "sealing_os os" and "steady_os os" and "current_state os f = Some s"
  shows "\<exists>u. current_state os (fold (\<lambda>op f. snd (runtime_do os op f)) ops f) = Some u \<and> newer s u \<and>
    (\<exists>v. current_state os (snd (runtime_do os op (fold (\<lambda>op f. snd (runtime_do os op f)) ops f))) = Some v \<and>
         newer u v \<and>
         (case fst (runtime_do os op (fold (\<lambda>op f. snd (runtime_do os op f)) ops f)) of
            Inl _ \<Rightarrow> True | Inr t \<Rightarrow> t = v))"
proof -
  let ?g = "fold (\<lambda>op f. snd (runtime_do os op f)) ops f"
  obtain u where u: "current_state os ?g = Some u" "newer s u" using runtime_run_newer [OF assms] by blast
  obtain r g' where "runtime_do os op ?g = (r, g')" by fastforce
  with runtime_do_newer [OF assms(1,2) u(1) this] u show ?thesis by auto
qed

text \<open>A protection API that marks what it sealed, every second call of which fails.\<close>

definition sample_os :: runtime_os where
  "sample_os = \<lparr>os_read = (\<lambda>_. Some), os_protect = (\<lambda>n plain. if even n then Some (0 # plain) else None),
     os_unprotect = (\<lambda>_ e. Some (tl e)),
     os_random = (\<lambda>n. Some (replicate 32 (of_nat n))), os_ok = even, os_torn = (\<lambda>_. Some [])\<rparr>"

definition sample_runtime :: runtime_state where
  "sample_runtime = initial_runtime\<lparr>rs_policy_version := 3\<rparr>"

definition sample_files :: runtime_files where
  "sample_files = \<lparr>rf_primary = Some (0 # runtime_serialize sample_runtime), rf_recovery = None, rf_legacy = None, rf_calls = 0\<rparr>"

lemma sample_os_steady: "steady_os sample_os"
  by (simp add: steady_os_def sample_os_def)

lemma sample_os_seals: "sealing_os sample_os"
  by (auto simp: sealing_os_def sample_os_def kPlainSize_def max_dword_def wf_digest_def split: if_splits)

lemma sample_files_hold: "current_state sample_os sample_files = Some sample_runtime"
proof -
  have wf: "wf_runtime sample_runtime"
    by (simp add: wf_runtime_def sample_runtime_def initial_runtime_def)
  have "file_state sample_os (Some (0 # runtime_serialize sample_runtime)) = Inr sample_runtime"
    by (rule read_sealed [OF sample_os_seals sample_os_steady wf, of 0]) (simp add: sample_os_def)
  then show ?thesis by (simp add: current_state_def sample_files_def)
qed

theorem runtime_store_never_goes_back_witness:
  "\<exists>u. current_state sample_os (fold (\<lambda>op f. snd (runtime_do sample_os op f)) [RO_update 5 2, RO_rotate] sample_files)
     = Some u \<and> newer sample_runtime u"
  using runtime_store_never_goes_back [OF sample_os_seals sample_os_steady sample_files_hold, of "[RO_update 5 2, RO_rotate]" RO_open]
  by blast

text \<open>A store whose files are there but cannot be read is refused: it is never started afresh.\<close>

lemma unreadable_store_refused:
  assumes "steady_os os" "current_state os f = None" "rf_primary f \<noteq> None \<or> rf_recovery f \<noteq> None"
  shows "fst (load_or_create os f) = Inl St_integrity_failure"
proof -
  obtain n where p: "read_protected os (rf_primary f) f = (file_state os (rf_primary f), f\<lparr>rf_calls := n\<rparr>)"
    using read_steady [OF assms(1)] .
  obtain m where q: "read_protected os (rf_recovery f) (f\<lparr>rf_calls := n\<rparr>) = (file_state os (rf_recovery f), f\<lparr>rf_calls := m\<rparr>)"
    using read_steady [OF assms(1), of "rf_recovery f" "f\<lparr>rf_calls := n\<rparr>"] by auto
  show ?thesis
    using assms(2,3) p q by (auto simp: load_or_create_def runtime_load_def current_state_def split: sum.splits)
qed

text \<open>
  Losing the primary file brings back the state before the last save: its versions and its
  key, which the last rotation had retired.
\<close>

lemma lost_primary_rolls_back:
  assumes "sealing_os os" "steady_os os" "file_state os (rf_primary f) = Inr s" "wf_runtime t"
    and "runtime_save os t f = (ok_unit, f')" "os_ok os (Suc (rf_calls f))"
  shows "current_state os (f'\<lparr>rf_primary := None\<rparr>) = Some s"
proof -
  have "rf_recovery f' = rf_primary f"
    using saved(1) [OF assms(1,2,4,5)] assms(3,6) by (cases "rf_primary f") (auto simp: file_state_def)
  then show ?thesis using assms(3) by (simp add: current_state_def file_state_def)
qed

text \<open>
  So does one failed read: when the primary file cannot be opened at this call, or not be
  unsealed, though it is whole, opening the store returns the state of the copy, with success,
  and the newer primary file is deleted and replaced. The versions and the key that the last
  save had retired are in force again.
\<close>

lemma failed_read_rolls_back:
  assumes "read_protected os (rf_primary f) f = (Inl e, g)" "read_protected os (rf_recovery g) g = (Inr s, h)"
    and "os_ok os (rf_calls h)" "runtime_save os s (called (h\<lparr>rf_primary := None\<rparr>)) = (ok_unit, f')"
  shows "load_or_create os f = (Inr s, f')"
  using assms by (simp add: load_or_create_def runtime_load_def)

definition flaky_os :: runtime_os where
  "flaky_os = \<lparr>os_read = (\<lambda>n bs. if n = 0 then None else Some bs), os_protect = (\<lambda>_ plain. Some (0 # plain)),
     os_unprotect = (\<lambda>_ e. Some (tl e)), os_random = (\<lambda>_. None), os_ok = (\<lambda>_. True), os_torn = (\<lambda>_. None)\<rparr>"

definition two_versions :: runtime_files where
  "two_versions = \<lparr>rf_primary = Some (0 # runtime_serialize (sample_runtime\<lparr>rs_policy_version := 9\<rparr>)),
     rf_recovery = Some (0 # runtime_serialize sample_runtime), rf_legacy = None, rf_calls = 0\<rparr>"

lemma flaky_read_lowers_version:
  "current_state flaky_os two_versions = Some (sample_runtime\<lparr>rs_policy_version := 9\<rparr>)"
  "fst (load_or_create flaky_os two_versions) = Inr sample_runtime"
  "rf_primary (snd (load_or_create flaky_os two_versions)) = Some (0 # runtime_serialize sample_runtime)"
proof -
  have d: "runtime_deserialize (runtime_serialize (sample_runtime\<lparr>rs_policy_version := p\<rparr>)) =
      Inr (sample_runtime\<lparr>rs_policy_version := p\<rparr>)" for p
    unfolding runtime_deserialize_iff by (simp add: wf_runtime_def sample_runtime_def initial_runtime_def)
  have d3: "runtime_deserialize (runtime_serialize sample_runtime) = Inr sample_runtime"
    using d [of 3] by (simp add: sample_runtime_def)
  have len: "length (runtime_serialize (sample_runtime\<lparr>rs_policy_version := p\<rparr>)) = 104"
    "length (runtime_serialize sample_runtime) = 104" for p
    by (simp_all add: runtime_serialize_def sample_runtime_def initial_runtime_def runtime_magic_def zero_digest_def)
  show "current_state flaky_os two_versions = Some (sample_runtime\<lparr>rs_policy_version := 9\<rparr>)"
    by (simp add: current_state_def file_state_def flaky_os_def two_versions_def d len max_dword_def)
  have open': "load_or_create flaky_os two_versions = (Inr sample_runtime,
      two_versions\<lparr>rf_primary := Some (0 # runtime_serialize sample_runtime),
        rf_calls := rf_calls (snd (load_or_create flaky_os two_versions))\<rparr>)"
    by (simp add: load_or_create_def runtime_load_def read_protected_def runtime_save_def copy_to_recovery_def
        atomic_write_primary_def Let_def flaky_os_def two_versions_def d3 len max_dword_def)
  show "fst (load_or_create flaky_os two_versions) = Inr sample_runtime"
    "rf_primary (snd (load_or_create flaky_os two_versions)) = Some (0 # runtime_serialize sample_runtime)"
    by (subst open', simp)+
qed

end
