(* ===== verification/AIS_Export.thy ===== *)
theory AIS_Export
  imports AIS_Audit AIS_Trace AIS_Http
begin

text \<open>
  What leaves the product: event lines for a security information system (\<open>src/siem.cpp\<close>),
  incident and support packages (\<open>src/incident_package.cpp\<close>, \<open>src/support_package.cpp\<close>), and
  paths in a form all platforms share (\<open>src/platform_uri.cpp\<close>).
\<close>

section \<open>siem.cpp\<close>

text \<open>\<open>std::to_string\<close> of an unsigned number.\<close>

fun decimal :: "nat \<Rightarrow> string" where
  "decimal n = (if n < 10 then [char_of (48 + n)] else decimal (n div 10) @ [char_of (48 + n mod 10)])"

declare decimal.simps [simp del]

datatype siem_format = SF_json_lines | SF_cef | SF_leef

record siem_event =
  si_monotonic_ns :: u64
  si_reason_mask :: u32
  si_risk_score :: u16
  si_action :: string
  si_correlation :: corr_context

abbreviation backslash :: char where "backslash \<equiv> CHR 0x5C"
abbreviation tab :: char where "tab \<equiv> CHR 0x09"

definition visible :: "char \<Rightarrow> bool" where
  "visible c \<longleftrightarrow> \<not> ((of_char c :: nat) < 0x20 \<or> (of_char c :: nat) = 0x7f)"

definition escape_char :: "char \<Rightarrow> char \<Rightarrow> string" where
  "escape_char separator c = (if c = backslash \<or> c = separator \<or> c = CHR ''='' then [backslash, c] else [c])"

definition siem_escape :: "string \<Rightarrow> char \<Rightarrow> string" where
  "siem_escape v separator = concat (map (escape_char separator) (filter visible v))"

definition siem_fields :: "siem_event \<Rightarrow> char \<Rightarrow> string" where
  "siem_fields event separator =
     (let cx = si_correlation event in
      ''act='' @ siem_escape (si_action event) separator @ [separator] @
      ''risk='' @ decimal (unat (si_risk_score event)) @ [separator] @
      ''reason='' @ decimal (unat (si_reason_mask event)) @ [separator] @
      ''flow='' @ decimal (unat (cx_flow_id cx)) @ [separator] @
      ''file='' @ decimal (unat (cx_file_id cx)) @ [separator] @
      ''process='' @ decimal (unat (cx_process_id cx)) @ [separator] @
      ''policy='' @ decimal (unat (cx_policy_version cx)) @ [separator] @
      ''model='' @ decimal (unat (cx_model_version cx)))"

definition quote :: string where
  "quote = [CHR 0x22]"

definition siem_json :: "siem_event \<Rightarrow> string" where
  "siem_json event =
     (let cx = si_correlation event;
          key = (\<lambda>name. '','' @ quote @ name @ quote @ '':'')
      in ''{'' @ quote @ ''schema'' @ quote @ '':2'' @
         key ''time_ns'' @ decimal (unat (si_monotonic_ns event)) @
         key ''action'' @ quote @ siem_escape (si_action event) (CHR ''|'') @ quote @
         key ''risk'' @ decimal (unat (si_risk_score event)) @
         key ''reason'' @ decimal (unat (si_reason_mask event)) @
         key ''flow_id'' @ decimal (unat (cx_flow_id cx)) @
         key ''file_id'' @ decimal (unat (cx_file_id cx)) @
         key ''process_id'' @ decimal (unat (cx_process_id cx)) @
         key ''policy_version'' @ decimal (unat (cx_policy_version cx)) @
         key ''model_version'' @ decimal (unat (cx_model_version cx)) @ ''}'')"

definition siem_text :: "siem_event \<Rightarrow> siem_format \<Rightarrow> string" where
  "siem_text event output_format =
     (case output_format of
        SF_cef \<Rightarrow> ''CEF:0|AI Shield|AI Shield|2.0|'' @ decimal (unat (si_reason_mask event)) @
          ''|Security decision|'' @ decimal (min 10 (unat (si_risk_score event) div 26)) @ ''|'' @
          siem_fields event (CHR '' '')
      | SF_leef \<Rightarrow> ''LEEF:2.0|AI Shield|AI Shield|2.0|'' @ decimal (unat (si_reason_mask event)) @ ''|'' @
          siem_fields event tab
      | SF_json_lines \<Rightarrow> siem_json event)"

section \<open>incident_package.cpp\<close>

record incident_event =
  ie_monotonic_ns :: u64
  ie_reason_mask :: u32
  ie_evidence_hash :: digest
  ie_correlation :: corr_context

record incident_package =
  ip_incident_id :: u64
  ip_timeline_hash :: digest
  ip_audit_export_hash :: digest
  ip_aggregate_reason_mask :: u32
  ip_payload :: sanitized_payload
  ip_events :: "incident_event list"
  ip_correlation :: corr_context

definition names_object :: "corr_context \<Rightarrow> bool" where
  "names_object c \<longleftrightarrow> cx_flow_id c \<noteq> 0 \<or> cx_object_id c \<noteq> 0"

definition incident_event_of :: "corr_context \<Rightarrow> audit_record \<Rightarrow> incident_event" where
  "incident_event_of correlation r =
     \<lparr>ie_monotonic_ns = ar_monotonic_ns r, ie_reason_mask = ar_reason_mask r, ie_evidence_hash = ar_evidence_hash r,
      ie_correlation = (if names_object (ar_correlation r) then ar_correlation r else correlation)\<rparr>"

definition timeline_bytes :: "incident_event \<Rightarrow> bytes" where
  "timeline_bytes e =
     le64 (ie_monotonic_ns e) @ le_bytes 8 (ie_reason_mask e) @ ie_evidence_hash e @ context_bytes (ie_correlation e)"

definition build_correlated ::
    "u64 \<Rightarrow> corr_context \<Rightarrow> chain \<Rightarrow> result_summary list \<Rightarrow> bytes \<Rightarrow> export_policy \<Rightarrow> incident_package result" where
  "build_correlated incident_id correlation c sandbox_results payload p =
     (if \<not> res_ok (verify c) then Inl (res_status (verify c))
      else
        let sanitized = sanitize_payload payload p;
            records = concat (map as_records c);
            events = map (incident_event_of correlation) records;
            reasons = fold (\<lambda>r mask. mask OR ar_reason_mask r) records (sp_reason_mask sanitized);
            reasons = fold (\<lambda>s mask. mask OR ev_reason_mask (evidence_from s)) sandbox_results reasons
        in Inr \<lparr>ip_incident_id = incident_id, ip_timeline_hash = sha256 (concat (map timeline_bytes events)),
             ip_audit_export_hash = sha256 (serialize c), ip_aggregate_reason_mask = reasons,
             ip_payload = sanitized, ip_events = events,
             ip_correlation = (if events \<noteq> [] \<and> \<not> names_object correlation then ie_correlation (hd events)
               else correlation)\<rparr>)"

definition build_incident ::
    "u64 \<Rightarrow> chain \<Rightarrow> result_summary list \<Rightarrow> bytes \<Rightarrow> export_policy \<Rightarrow> incident_package result" where
  "build_incident incident_id c sandbox_results payload p =
     build_correlated incident_id empty_context c sandbox_results payload p"

section \<open>support_package.cpp\<close>

record support_manifest =
  sm_package_id :: u64
  sm_diagnostics_hash :: digest
  sm_incident_hash :: digest
  sm_reason_mask :: u32
  sm_payload_redacted :: bool

definition build_manifest :: "u64 \<Rightarrow> diag_snapshot \<Rightarrow> incident_package \<Rightarrow> support_manifest" where
  "build_manifest package_id snapshot package =
     \<lparr>sm_package_id = package_id,
      sm_diagnostics_hash = sha256 (le32 (dn_active_flows snapshot) @ le32 (dn_pending_decisions snapshot) @
        le32 (dn_sandbox_capacity snapshot) @ le32 (dn_worker_circuits_open snapshot) @
        le32 (dg_reason_mask (dn_health snapshot))),
      sm_incident_hash = sha256 (le64 (ip_incident_id package) @ le32 (ip_aggregate_reason_mask package) @
        ip_timeline_hash package @ ip_audit_export_hash package),
      sm_reason_mask = dg_reason_mask (dn_health snapshot) OR ip_aggregate_reason_mask package,
      sm_payload_redacted = (sp_reason_mask (ip_payload package) AND privacy_redacted \<noteq> 0)\<rparr>"

section \<open>platform_uri.cpp\<close>

fun split_slash :: "string \<Rightarrow> string list" where
  "split_slash [] = [[]]"
| "split_slash (c # cs) =
     (if c = CHR ''/'' then [] # split_slash cs
      else case split_slash cs of [] \<Rightarrow> [[c]] | part # parts \<Rightarrow> (c # part) # parts)"

definition uri_start :: "string \<Rightarrow> nat" where
  "uri_start path =
     (let start = (if length path \<ge> 2 \<and> path ! 1 = CHR '':'' then 2 else 0)
      in start + length (takeWhile (\<lambda>c. c = CHR ''/'') (drop start path)))"

fun join_slash :: "string list \<Rightarrow> string" where
  "join_slash [] = []"
| "join_slash [part] = part"
| "join_slash (part # parts) = part @ ''/'' @ join_slash parts"

definition normalize_path_uri :: "string \<Rightarrow> string result" where
  "normalize_path_uri platform_path =
     (if platform_path = [] \<or> length platform_path > 4096 then Inl St_invalid_argument
      else
        let path = map (\<lambda>c. if c = backslash then CHR ''/'' else tolower c) platform_path;
            parts = split_slash (drop (uri_start path) path)
        in if ''..'' \<in> set parts then Inl St_ambiguous_input
           else Inr (''file:///'' @ (if length path \<ge> 2 \<and> path ! 1 = CHR '':'' then [path ! 0, CHR ''/''] else []) @
             join_slash (filter (\<lambda>part. part \<noteq> [] \<and> part \<noteq> ''.'') parts)))"

section \<open>Event lines cannot be forged\<close>

text \<open>How a reader takes a line of fields apart: at the separators that no backslash precedes.\<close>

fun split_unescaped :: "char \<Rightarrow> string \<Rightarrow> string list" where
  "split_unescaped sep [] = [[]]"
| "split_unescaped sep (c # cs) =
     (if c = sep then [] # split_unescaped sep cs
      else if c = backslash \<and> cs \<noteq> [] then (c # hd cs # hd (split_unescaped sep (tl cs))) # tl (split_unescaped sep (tl cs))
      else (c # hd (split_unescaped sep cs)) # tl (split_unescaped sep cs))"

fun unescape :: "string \<Rightarrow> string" where
  "unescape [] = []"
| "unescape [c] = [c]"
| "unescape (c # d # cs) = (if c = backslash then d # unescape cs else c # unescape (d # cs))"

text \<open>Every separator of the text has a backslash before it, and no backslash is left over at the end.\<close>

fun sealed_text :: "char \<Rightarrow> string \<Rightarrow> bool" where
  "sealed_text sep [] \<longleftrightarrow> True"
| "sealed_text sep (c # cs) \<longleftrightarrow>
     (if c = backslash then cs \<noteq> [] \<and> sealed_text sep (tl cs) else c \<noteq> sep \<and> sealed_text sep cs)"

lemma split_sealed:
  "sealed_text sep xs \<Longrightarrow> sep \<noteq> backslash \<Longrightarrow> split_unescaped sep xs = [xs]"
  by (induction sep xs rule: sealed_text.induct) (auto split: if_splits)

lemma split_sealed_more:
  "sealed_text sep xs \<Longrightarrow> sep \<noteq> backslash \<Longrightarrow> split_unescaped sep (xs @ sep # ys) = xs # split_unescaped sep ys"
  by (induction sep xs rule: sealed_text.induct) (auto simp: neq_Nil_conv split: if_splits)

lemma sealed_append: "sealed_text sep xs \<Longrightarrow> sealed_text sep ys \<Longrightarrow> sealed_text sep (xs @ ys)"
  by (induction sep xs rule: sealed_text.induct) (auto split: if_splits)

lemma sealed_plain: "sep \<notin> set xs \<Longrightarrow> backslash \<notin> set xs \<Longrightarrow> sealed_text sep xs"
  by (induction xs) auto

lemma sealed_escape: "sealed_text sep (siem_escape v sep)"
  unfolding siem_escape_def
  by (induction v) (auto simp: escape_char_def)

lemma unescape_escape: "unescape (siem_escape v sep) = filter visible v"
proof -
  have "unescape (escape_char sep c @ xs) = c # unescape xs" for c xs
    by (cases xs) (auto simp: escape_char_def)
  then show ?thesis unfolding siem_escape_def by (induction v) auto
qed

lemma decimal_digits: "c \<in> set (decimal n) \<Longrightarrow> is_digit c"
proof (induction n rule: decimal.induct)
  case (1 n)
  then show ?case by (subst (asm) (2) decimal.simps) (auto simp: is_digit_def split: if_splits)
qed

lemma decimal_value: "digits_value (decimal n) = n"
proof (induction n rule: decimal.induct)
  case (1 n)
  show ?case
  proof (cases "n < 10")
    case True
    then show ?thesis by (subst decimal.simps) (simp add: digits_value_def)
  next
    case False
    then have "digits_value (decimal n) = digits_value (decimal (n div 10)) * 10 + n mod 10"
      by (subst decimal.simps) (simp add: digits_value_def)
    then show ?thesis using 1 False by simp
  qed
qed

definition field_separator :: "siem_format \<Rightarrow> char" where
  "field_separator f = (case f of SF_leef \<Rightarrow> tab | _ \<Rightarrow> CHR '' '')"

lemma sealed_decimal: "sealed_text (field_separator f) (decimal n)"
  by (rule sealed_plain) (auto dest!: decimal_digits simp: is_digit_def field_separator_def split: siem_format.splits)

lemma sealed_name:
  "set name \<subseteq> set ''actriskeonflwpdym='' \<Longrightarrow> sealed_text (field_separator f) name"
  by (rule sealed_plain) (auto simp: field_separator_def split: siem_format.splits)

lemma name_before: "CHR ''='' \<notin> set name \<Longrightarrow> takeWhile (\<lambda>c. c \<noteq> CHR ''='') (name @ CHR ''='' # rest) = name"
  by (induction name) auto

lemma value_after: "CHR ''='' \<notin> set name \<Longrightarrow> tl (dropWhile (\<lambda>c. c \<noteq> CHR ''='') (name @ CHR ''='' # rest)) = rest"
  by (induction name) auto

lemma siem_fields_split:
  fixes event f
  defines "sep \<equiv> field_separator f" and "cx \<equiv> si_correlation event"
  shows "split_unescaped sep (siem_fields event sep) =
    [''act='' @ siem_escape (si_action event) sep, ''risk='' @ decimal (unat (si_risk_score event)),
     ''reason='' @ decimal (unat (si_reason_mask event)), ''flow='' @ decimal (unat (cx_flow_id cx)),
     ''file='' @ decimal (unat (cx_file_id cx)), ''process='' @ decimal (unat (cx_process_id cx)),
     ''policy='' @ decimal (unat (cx_policy_version cx)), ''model='' @ decimal (unat (cx_model_version cx))]"
proof -
  have s: "sep \<noteq> backslash" by (simp add: sep_def field_separator_def split: siem_format.splits)
  have act: "sealed_text sep (''act='' @ siem_escape (si_action event) sep)"
    unfolding sep_def by (intro sealed_append sealed_escape sealed_name) simp
  have num: "sealed_text sep (name @ decimal n)" if "set name \<subseteq> set ''actriskeonflwpdym=''" for name n
    unfolding sep_def using that by (intro sealed_append sealed_decimal sealed_name)
  have step: "split_unescaped sep (x @ [sep] @ ys) = x # split_unescaped sep ys" if "sealed_text sep x" for x ys
    using split_sealed_more [OF that s] by simp
  have form: "siem_fields event sep =
      (''act='' @ siem_escape (si_action event) sep) @ [sep] @ (''risk='' @ decimal (unat (si_risk_score event))) @ [sep] @
      (''reason='' @ decimal (unat (si_reason_mask event))) @ [sep] @ (''flow='' @ decimal (unat (cx_flow_id cx))) @ [sep] @
      (''file='' @ decimal (unat (cx_file_id cx))) @ [sep] @ (''process='' @ decimal (unat (cx_process_id cx))) @ [sep] @
      (''policy='' @ decimal (unat (cx_policy_version cx))) @ [sep] @ (''model='' @ decimal (unat (cx_model_version cx)))"
    by (simp add: siem_fields_def Let_def cx_def)
  have last: "split_unescaped sep (''model='' @ decimal n) = [''model='' @ decimal n]" for n
    by (rule split_sealed [OF num s]) simp
  show ?thesis
    unfolding form
    by (subst step, rule act, (subst step, rule num, simp)+, subst last, rule refl)
qed

text \<open>
  C21: a line of fields is taken apart at its unescaped separators into the eight fields that were
  written, in their order; the first gives back the visible characters of the action and the
  others their numbers. So no action text, whatever it contains, adds a field to a CEF or LEEF
  line or changes one.
\<close>

theorem siem_fields_recoverable:
  "let sep = field_separator f; cx = si_correlation event; parts = split_unescaped sep (siem_fields event sep)
   in map (takeWhile (\<lambda>c. c \<noteq> CHR ''='')) parts =
        [''act'', ''risk'', ''reason'', ''flow'', ''file'', ''process'', ''policy'', ''model''] \<and>
      unescape (drop 4 (hd parts)) = filter visible (si_action event) \<and>
      map (\<lambda>part. digits_value (tl (dropWhile (\<lambda>c. c \<noteq> CHR ''='') part))) (tl parts) =
        [unat (si_risk_score event), unat (si_reason_mask event), unat (cx_flow_id cx), unat (cx_file_id cx),
         unat (cx_process_id cx), unat (cx_policy_version cx), unat (cx_model_version cx)]"
  by (simp add: Let_def siem_fields_split unescape_escape decimal_value)

text \<open>The JSON form leaves quotation marks in the action alone.\<close>

lemma siem_json_quote_kept: "siem_escape (quote @ '',x:'' @ quote) (CHR ''|'') = quote @ '',x:'' @ quote"
  by (simp add: siem_escape_def escape_char_def visible_def quote_def)

section \<open>Packages bind the evidence\<close>

lemma serialize_inject:
  assumes "storable c" "storable c'" "serialize c = serialize c'"
  shows "c = c'"
proof -
  have "le64 (of_nat (length c)) @ concat (map enc_segment c) = le64 (of_nat (length c')) @ concat (map enc_segment c')"
    using assms(3) by (simp add: serialize_def)
  then have eq: "le64 (of_nat (length c)) = le64 (of_nat (length c'))"
    "concat (map enc_segment c) @ [] = concat (map enc_segment c') @ []"
    by (simp_all only: append_eq_append_conv length_le_bytes append_Nil2 simp_thms)
  have len: "length c = length c'"
    using assms(1,2) eq(1) by (simp add: le_bytes_inject of_nat_u64_inject storable_def)
  have "c = c' \<and> ([] :: bytes) = []"
    by (rule concat_prefix_free [where P = storable_segment, OF segment_codec.enc_prefix_free _ _ len eq(2)])
      (use assms(1,2) in \<open>simp_all add: storable_def\<close>)
  then show ?thesis by simp
qed

lemma timeline_inject:
  assumes "\<forall>e \<in> set es. wf_digest (ie_evidence_hash e)" "\<forall>e \<in> set es'. wf_digest (ie_evidence_hash e)"
    and "concat (map timeline_bytes es) = concat (map timeline_bytes es')"
  shows "es = es'"
proof -
  let ?P = "\<lambda>e. wf_digest (ie_evidence_hash e)"
  have step: "x = y \<and> u = v" if "?P x" "?P y" "timeline_bytes x @ u = timeline_bytes y @ v" for x y u v
  proof -
    have "length (ie_evidence_hash x) = length (ie_evidence_hash y)" using that(1,2) by (simp add: wf_digest_def)
    then have "le64 (ie_monotonic_ns x) = le64 (ie_monotonic_ns y) \<and>
        le_bytes 8 (ie_reason_mask x) = le_bytes 8 (ie_reason_mask y) \<and> ie_evidence_hash x = ie_evidence_hash y \<and>
        context_bytes (ie_correlation x) = context_bytes (ie_correlation y) \<and> u = v"
      using that(3) by (simp only: timeline_bytes_def append_assoc append_eq_append_conv length_le_bytes length_context_bytes simp_thms)
    then show ?thesis by (cases x; cases y) (simp add: context_bytes_inject le_bytes_inject)
  qed
  have len: "length (timeline_bytes e) = 120" if "?P e" for e using that by (simp add: timeline_bytes_def wf_digest_def)
  have size: "length (concat (map timeline_bytes xs)) = 120 * length xs" if "\<forall>e \<in> set xs. ?P e" for xs
    using that by (induction xs) (auto simp: len)
  have "length es = length es'" using size [OF assms(1)] size [OF assms(2)] assms(3) by simp
  have "es = es' \<and> ([] :: bytes) = []"
    by (rule concat_prefix_free [where P = ?P, OF step assms(1,2) \<open>length es = length es'\<close>]) (use assms(3) in simp_all)
  then show ?thesis by simp
qed

lemma bit_fold_or:
  "bit (fold (\<lambda>r mask. mask OR f r) rs (m :: u32)) b \<longleftrightarrow> bit m b \<or> (\<exists>r \<in> set rs. bit (f r) b)"
  by (induction rs arbitrary: m) (auto simp: bit_simps)

lemma verify_status: "verify c = Inl s \<Longrightarrow> s \<noteq> St_ok"
proof -
  have "verify_from p e c = Inl s \<Longrightarrow> s \<noteq> St_ok" for p e
    by (induction p e c rule: verify_from.induct) (auto split: if_splits)
  then show "verify c = Inl s \<Longrightarrow> s \<noteq> St_ok" by (simp add: verify_def)
qed

text \<open>The records of a chain that the audit format can hold carry digests of 32 bytes.\<close>

lemma storable_events:
  "storable c \<Longrightarrow> \<forall>e \<in> set (map (incident_event_of cx) (concat (map as_records c))). wf_digest (ie_evidence_hash e)"
  by (auto simp: storable_def storable_segment_def wf_segment_def wf_record_def incident_event_of_def)

text \<open>
  C20: a package is built exactly from an audit chain that verifies; it has one event per audit
  record, and a reason is in its mask exactly when a record, a sandbox result or the redaction
  of the payload gives it. Two packages whose audit digests agree were built from the same
  chain, and two whose timeline digests agree carry the same events, unless they exhibit a
  collision of SHA-256. The manifest of a package says that the payload was redacted exactly
  when the excerpt is not the whole of it.
\<close>

theorem incident_package_binds_evidence:
  "case build_correlated i cx c sr payload p of
     Inl s \<Rightarrow> verify c = Inl s
   | Inr k \<Rightarrow>
       verify c = ok_unit \<and> length (ip_events k) = sum_list (map (\<lambda>s. length (as_records s)) c) \<and>
       (\<forall>b. bit (ip_aggregate_reason_mask k) b \<longleftrightarrow>
          (\<exists>s \<in> set c. \<exists>r \<in> set (as_records s). bit (ar_reason_mask r) b) \<or>
          (\<exists>s \<in> set sr. bit (ev_reason_mask (evidence_from s)) b) \<or>
          bit (privacy_redacted) b \<and> sp_excerpt (ip_payload k) \<noteq> payload) \<and>
       sm_payload_redacted (build_manifest m snapshot k) = (sp_excerpt (ip_payload k) \<noteq> payload) \<and>
       (case build_correlated i' cx' c' sr' payload' p' of
          Inl _ \<Rightarrow> True
        | Inr k' \<Rightarrow>
            (if storable c \<and> storable c' \<and> ip_audit_export_hash k = ip_audit_export_hash k'
             then c = c' \<or> is_collision (serialize c, serialize c') else True) \<and>
            (if storable c \<and> storable c' \<and> ip_timeline_hash k = ip_timeline_hash k'
             then ip_events k = ip_events k' \<or>
                  is_collision (concat (map timeline_bytes (ip_events k)), concat (map timeline_bytes (ip_events k')))
             else True))"
proof (cases "verify c")
  case (Inl s)
  then have "s \<noteq> St_ok" using verify_status by blast
  then show ?thesis using Inl by (simp add: build_correlated_def)
next
  case (Inr u)
  define es where "es = map (incident_event_of cx) (concat (map as_records c))"
  obtain k where k: "build_correlated i cx c sr payload p = Inr k" using Inr by (simp add: build_correlated_def Let_def)
  have parts: "ip_events k = es" "ip_timeline_hash k = sha256 (concat (map timeline_bytes es))"
    "ip_audit_export_hash k = sha256 (serialize c)" "ip_payload k = sanitize_payload payload p"
    "ip_aggregate_reason_mask k = fold (\<lambda>s mask. mask OR ev_reason_mask (evidence_from s)) sr
       (fold (\<lambda>r mask. mask OR ar_reason_mask r) (concat (map as_records c)) (sp_reason_mask (sanitize_payload payload p)))"
    using k Inr by (auto simp: build_correlated_def Let_def es_def)
  have "length es = sum_list (map (\<lambda>s. length (as_records s)) c)"
    by (simp add: es_def length_concat comp_def)
  moreover have "bit (ip_aggregate_reason_mask k) b \<longleftrightarrow>
          (\<exists>s \<in> set c. \<exists>r \<in> set (as_records s). bit (ar_reason_mask r) b) \<or>
          (\<exists>s \<in> set sr. bit (ev_reason_mask (evidence_from s)) b) \<or>
          bit (privacy_redacted) b \<and> sp_excerpt (ip_payload k) \<noteq> payload" for b
    unfolding parts bit_fold_or sanitize_exact(3) by auto
  moreover have "sm_payload_redacted (build_manifest m snapshot k) = (sp_excerpt (ip_payload k) \<noteq> payload)"
    by (simp add: build_manifest_def parts sanitize_exact(3))
  moreover have "case build_correlated i' cx' c' sr' payload' p' of
          Inl _ \<Rightarrow> True
        | Inr k' \<Rightarrow>
            (if storable c \<and> storable c' \<and> ip_audit_export_hash k = ip_audit_export_hash k'
             then c = c' \<or> is_collision (serialize c, serialize c') else True) \<and>
            (if storable c \<and> storable c' \<and> ip_timeline_hash k = ip_timeline_hash k'
             then ip_events k = ip_events k' \<or>
                  is_collision (concat (map timeline_bytes (ip_events k)), concat (map timeline_bytes (ip_events k')))
             else True)"
  proof (cases "build_correlated i' cx' c' sr' payload' p'")
    case (Inr k')
    define es' where "es' = map (incident_event_of cx') (concat (map as_records c'))"
    have parts': "ip_events k' = es'" "ip_timeline_hash k' = sha256 (concat (map timeline_bytes es'))"
      "ip_audit_export_hash k' = sha256 (serialize c')"
      using Inr by (auto simp: build_correlated_def Let_def es'_def split: if_splits)
    show ?thesis
      using sha256_equal_or_collision [of "serialize c" "serialize c'"] serialize_inject [of c c']
        sha256_equal_or_collision [of "concat (map timeline_bytes es)" "concat (map timeline_bytes es')"]
        timeline_inject [of es es'] storable_events [of c cx] storable_events [of c' cx']
      by (simp add: Inr parts(1-3) parts' es_def [symmetric] es'_def [symmetric]) blast
  qed simp
  ultimately show ?thesis using k Inr parts(1) by simp
qed

section \<open>Normal forms of paths\<close>

lemma split_slash_parts: "\<forall>part \<in> set (split_slash s). CHR ''/'' \<notin> set part \<and> set part \<subseteq> set s"
proof (induction s)
  case (Cons c s)
  then show ?case by (cases "split_slash s") auto
qed simp

lemma split_join: "join_slash (split_slash s) = s"
proof (induction s)
  case (Cons c s)
  have ne: "split_slash s \<noteq> []" by (cases s) (auto split: list.splits)
  then obtain part parts where "split_slash s = part # parts" by (cases "split_slash s") auto
  then show ?case using Cons by (cases parts) auto
qed simp

definition plain_part :: "string \<Rightarrow> bool" where
  "plain_part part \<longleftrightarrow> part \<noteq> [] \<and> part \<noteq> ''.'' \<and> part \<noteq> ''..'' \<and> CHR ''/'' \<notin> set part \<and> backslash \<notin> set part \<and>
     list_all (\<lambda>c. tolower c = c) part"

definition folded :: "char \<Rightarrow> char" where
  "folded c = (if c = backslash then CHR ''/'' else tolower c)"

definition path_components :: "string \<Rightarrow> string list" where
  "path_components path = split_slash (drop (uri_start (map folded path)) (map folded path))"

lemma of_char_tolower: "(of_char (tolower c) :: nat) = (if 65 \<le> (of_char c :: nat) \<and> (of_char c :: nat) \<le> 90
    then of_char c + 32 else of_char c)"
  by (simp add: tolower_def Let_def)

lemma tolower_idem: "tolower (tolower c) = tolower c"
proof (cases "65 \<le> (of_char c :: nat) \<and> (of_char c :: nat) \<le> 90")
  case True
  then show ?thesis using of_char_tolower [of c] by (simp add: tolower_def [of "tolower c"] Let_def)
next
  case False
  then have "tolower c = c" by (auto simp: tolower_def Let_def)
  then show ?thesis by simp
qed

lemma tolower_backslash: "tolower c = backslash \<Longrightarrow> c = backslash"
proof -
  assume l: "tolower c = backslash"
  then have "(of_char c :: nat) = of_char backslash" using of_char_tolower [of c] by (auto split: if_splits)
  then show "c = backslash" by (rule of_char_eqI)
qed

lemma folded_plain: "tolower (folded c) = folded c" "folded c \<noteq> backslash"
  by (auto simp: folded_def tolower_idem dest: tolower_backslash) (simp add: tolower_def)

text \<open>
  The form of a path: an error for a path that is empty, too long or has a parent directory
  among its components; otherwise the drive, if there is one, and the remaining components in
  their order, none of them empty, with a separator or a capital, or a dot that stands for a
  directory.
\<close>

theorem path_uri_normal_form:
  "case normalize_path_uri path of
     Inl s \<Rightarrow> if path = [] \<or> length path > 4096 then s = St_invalid_argument
       else s = St_ambiguous_input \<and> ''..'' \<in> set (path_components path)
   | Inr uri \<Rightarrow> path \<noteq> [] \<and> length path \<le> 4096 \<and>
       (\<exists>drive parts. uri = ''file:///'' @ drive @ join_slash parts \<and> list_all plain_part parts \<and>
          parts = filter (\<lambda>part. part \<noteq> [] \<and> part \<noteq> ''.'') (path_components path) \<and>
          drive = (if length path \<ge> 2 \<and> folded (path ! 1) = CHR '':'' then [folded (path ! 0), CHR ''/''] else []))"
proof -
  have eq: "map (\<lambda>c. if c = backslash then CHR ''/'' else tolower c) path = map folded path"
    by (simp add: folded_def)
  have parts: "list_all plain_part (filter (\<lambda>part. part \<noteq> [] \<and> part \<noteq> ''.'') (path_components path))"
    if "''..'' \<notin> set (path_components path)"
  proof (unfold list_all_iff, safe)
    fix part assume "part \<in> set (filter (\<lambda>part. part \<noteq> [] \<and> part \<noteq> ''.'') (path_components path))"
    then have p: "part \<in> set (path_components path)" "part \<noteq> []" "part \<noteq> ''.''" by auto
    have "CHR ''/'' \<notin> set part" "set part \<subseteq> folded ` set path"
      using split_slash_parts [of "drop (uri_start (map folded path)) (map folded path)"] p(1) set_drop_subset
      unfolding path_components_def by fastforce+
    have "c \<noteq> backslash \<and> tolower c = c" if "c \<in> set part" for c
    proof -
      from that \<open>set part \<subseteq> folded ` set path\<close> obtain d where "c = folded d" by blast
      then show ?thesis using folded_plain [of d] by simp
    qed
    then show "plain_part part" using p \<open>''..'' \<notin> set (path_components path)\<close> \<open>CHR ''/'' \<notin> set part\<close> by (auto simp: plain_part_def list_all_iff)
  qed
  show ?thesis
    using parts by (auto simp: normalize_path_uri_def eq Let_def path_components_def [symmetric] nth_map)
qed

end
