(* ===== verification/AIS_Scanner.thy ===== *)
theory AIS_Scanner
  imports AIS_Zip AIS_Formats AIS_Windows
begin

text \<open>
  The isolated file scanner, \<open>tools/ai_shield_file_scanner/main.cpp\<close>: it reads a file through a
  handle it inherited, runs the parsers of the other theories over it and asks AMSI; its exit
  code is the verdict. The handle is a function from an offset and a length to what one read
  gives (nothing when it fails or is too slow); path decomposition and the entropy estimate
  are the parameters of \<open>AIS_FilePreflight\<close>.
\<close>

section \<open>Reading a locked file\<close>

type_synonym reader = "nat \<Rightarrow> nat \<Rightarrow> bytes option"

definition read_chunk :: nat where "read_chunk = 1048576"

text \<open>
  The loop over a file of a known size, in chunks of at most a mebibyte; a read that fails or
  gives nothing ends it.
\<close>

function read_locked :: "reader \<Rightarrow> nat \<Rightarrow> bytes \<Rightarrow> bytes option" where
  "read_locked rd n content =
     (if length content \<ge> n then Some content
      else
        let requested = min (n - length content) read_chunk
        in case rd (length content) requested of
             None \<Rightarrow> None
           | Some received \<Rightarrow>
               if take requested received = [] then None else read_locked rd n (content @ take requested received))"
  by pat_completeness auto
termination
  by (relation "measure (\<lambda>(rd, n, content). n - length content)") (auto simp: not_le length_greater_0_conv [symmetric] simp del: length_greater_0_conv)

declare read_locked.simps [simp del]

text \<open>What a read gives stands in the file at its offset.\<close>

definition reads :: "reader \<Rightarrow> bytes \<Rightarrow> bool" where
  "reads rd stored \<longleftrightarrow> (\<forall>offset n. case rd offset n of None \<Rightarrow> True | Some received \<Rightarrow> prefix (take n received) (drop offset stored))"

lemma read_locked_content:
  assumes "reads rd stored" "read_locked rd n content = Some result" "prefix content stored" "length content \<le> n"
  shows "result = take n stored \<and> length result = n"
  using assms
proof (induction rd n content rule: read_locked.induct)
  case (1 rd n content)
  note step = read_locked.simps [of rd n content]
  show ?case
  proof (cases "length content \<ge> n")
    case True
    then have "result = content" "length content = n" using 1(3,5) step by simp_all
    then show ?thesis using 1(4) by (auto simp: prefix_def)
  next
    case False
    define requested where "requested = min (n - length content) read_chunk"
    have step': "read_locked rd n content = (case rd (length content) requested of None \<Rightarrow> None
        | Some received \<Rightarrow> if take requested received = [] then None else read_locked rd n (content @ take requested received))"
      using step False by (simp add: requested_def [symmetric] Let_def)
    obtain received where r: "rd (length content) requested = Some received" "take requested received \<noteq> []"
      using 1(3) unfolding step' by (auto split: option.splits if_splits)
    have more: "read_locked rd n (content @ take requested received) = Some result"
      using 1(3) unfolding step' r(1) option.simps if_not_P [OF r(2)] .
    have "prefix (take requested received) (drop (length content) stored)"
      using 1(2) [unfolded reads_def, rule_format, of requested "length content"] r(1) by simp
    then have "prefix (content @ take requested received) stored"
      using 1(4) by (auto simp: prefix_def)
    moreover have "length (content @ take requested received) \<le> n" using False by (simp add: requested_def)
    ultimately show ?thesis
      using 1(1) [OF False requested_def r 1(2) more] by blast
  qed
qed

section \<open>The structure of the content\<close>

definition pdf_risk :: "bytes \<Rightarrow> bool" where
  "pdf_risk content =
     (case pdf_preflight content of
        Inl _ \<Rightarrow> True
      | Inr s \<Rightarrow> pd_malformed s \<or> pd_javascript s \<or> pd_launch_action s \<or> pd_embedded_file s \<or> pd_open_action s)"

definition zip_marks :: "zip_summary \<Rightarrow> bool" where
  "zip_marks s \<longleftrightarrow> zs_malformed s \<or> zs_path_escape s \<or> zs_bomb_risk s \<or> zs_encrypted_entry s \<or>
     zs_unsupported_compression s \<or> zs_executable_entry s \<or> zs_active_content_entry s \<or> zs_nested_container s \<or>
     zs_duplicate_name s"

definition zip_risk :: "preflight_env \<Rightarrow> bytes \<Rightarrow> bool option" where
  "zip_risk env content =
     map_option (\<lambda>r. case r of Inl _ \<Rightarrow> True | Inr s \<Rightarrow> zip_marks s) (zip_preflight env content)"

definition wave_risk :: "bytes \<Rightarrow> bool option" where
  "wave_risk content =
     map_option (\<lambda>r. case r of Inl _ \<Rightarrow> True | Inr s \<Rightarrow> ws_malformed s \<or> ws_suspicious_metadata s) (wave_preflight content)"

definition structural_risk :: "preflight_env \<Rightarrow> bytes \<Rightarrow> wide \<Rightarrow> bool option" where
  "structural_risk env content path =
     (if high_risk (file_inspect env content (env_filename env path)) then Some True
      else
        let extension = lower_extension env path
        in if (extension = wide_of ''.pdf'' \<or> take 5 content = bytes_of ''%PDF-'') \<and> pdf_risk content then Some True
           else do {
             zip \<leftarrow> (if extension = wide_of ''.zip'' \<or> take 2 content = bytes_of ''PK'' \<and> length content \<ge> 4
                    then zip_risk env content else Some False);
             if zip then Some True
             else if extension = wide_of ''.wav'' \<or> has_wave_signature content then wave_risk content
             else Some False
           })"

section \<open>The verdict\<close>

text \<open>What the AMSI library answers, once it is loaded, initialized and has scanned the buffer.\<close>

record scan_api =
  sa_amsi :: amsi
  sa_scan :: "bytes \<Rightarrow> u32 option"

definition classify_amsi_result :: "amsi \<Rightarrow> u32 \<Rightarrow> u32" where
  "classify_amsi_result api r =
     (if as_is_malware api r then 10
      else if as_blocked_start api \<le> r \<and> r \<le> as_blocked_end api then 11
      else 0)"

definition amsi_verdict :: "scan_api \<Rightarrow> bytes \<Rightarrow> u32" where
  "amsi_verdict api content =
     (case sa_scan api content of None \<Rightarrow> 3 | Some r \<Rightarrow> classify_amsi_result (sa_amsi api) r)"

text \<open>
  \<open>scan-handle\<close>: the two numbers are \<open>None\<close> when the argument is not a number. The result is the
  exit code.
\<close>

definition scan_handle :: "preflight_env \<Rightarrow> scan_api \<Rightarrow> u64 option \<Rightarrow> u64 option \<Rightarrow> wide \<Rightarrow> reader \<Rightarrow> u32 option" where
  "scan_handle env api handle_value n path rd =
     (case (handle_value, n) of
        (Some h, Some n) \<Rightarrow>
          if h = 0 \<or> n = 0 \<or> n > 256 * 1024 * 1024 then Some 3
          else (case read_locked rd (unat n) [] of
                  None \<Rightarrow> Some 3
                | Some content \<Rightarrow> do {
                    risk \<leftarrow> structural_risk env content path;
                    Some (if risk then 11 else amsi_verdict api content)
                  })
      | _ \<Rightarrow> Some 3)"

section \<open>The isolation probe\<close>

text \<open>
  \<open>probe-handles\<close>: what the system answers when it is asked for the process's handles with a
  buffer of a given len, and the loop that enlarges the buffer at most eight times.
\<close>

datatype handle_answer = HA_too_small nat | HA_failed | HA_table "u64 list"

fun query_handles :: "nat \<Rightarrow> (nat \<Rightarrow> handle_answer) \<Rightarrow> nat \<Rightarrow> u64 list option" where
  "query_handles 0 query len = None"
| "query_handles (Suc attempts) query len =
     (case query len of
        HA_too_small required \<Rightarrow> query_handles attempts query (max (len * 2) (required + 4096))
      | HA_failed \<Rightarrow> None
      | HA_table handles \<Rightarrow> Some handles)"

definition process_has_handle :: "u64 \<Rightarrow> (nat \<Rightarrow> handle_answer) \<Rightarrow> bool option" where
  "process_has_handle v query = map_option (\<lambda>handles. v \<in> set handles) (query_handles 8 query (64 * 1024))"

definition probe_handles :: "u64 option \<Rightarrow> u64 option \<Rightarrow> (nat \<Rightarrow> handle_answer) \<Rightarrow> (nat \<Rightarrow> handle_answer) \<Rightarrow> u32" where
  "probe_handles allowed forbidden first second =
     (case (allowed, forbidden) of
        (Some a, Some f) \<Rightarrow>
          (case (process_has_handle a first, process_has_handle f second) of
             (Some present, Some leaked) \<Rightarrow> if \<not> present then 5 else if leaked then 6 else 0
           | _ \<Rightarrow> 4)
      | _ \<Rightarrow> 2)"

text \<open>The probe passes only on two tables: the allowed handle stands in one, the forbidden one not in the other.\<close>

lemma probe_passes_iff:
  "probe_handles allowed forbidden first second = 0 \<longleftrightarrow>
     (\<exists>a f t u. allowed = Some a \<and> forbidden = Some f \<and> query_handles 8 first (64 * 1024) = Some t \<and>
        query_handles 8 second (64 * 1024) = Some u \<and> a \<in> set t \<and> f \<notin> set u)"
  by (auto simp: probe_handles_def process_has_handle_def split: option.splits)

text \<open>An answer is found when one of the first eight buffers, each at least twice the last, is large enough.\<close>

lemma query_handles_enough:
  assumes "\<And>n. n \<ge> enough \<Longrightarrow> query n = HA_table handles"
    and "\<And>n. n < enough \<Longrightarrow> \<exists>required. query n = HA_too_small required"
    and "enough \<le> len * 2 ^ attempts"
  shows "query_handles (Suc attempts) query len = Some handles"
  using assms(3)
proof (induction attempts arbitrary: len)
  case 0
  then show ?case using assms(1) by simp
next
  case (Suc attempts)
  show ?case
  proof (cases "len \<ge> enough")
    case True
    then show ?thesis using assms(1) by simp
  next
    case False
    then obtain required where "query len = HA_too_small required" using assms(2) [of len] by auto
    moreover have "enough \<le> max (len * 2) (required + 4096) * 2 ^ attempts"
      using Suc.prems order.trans [OF _ mult_le_mono1 [OF max.cobounded1 [of "len * 2" "required + 4096"], of "2 ^ attempts"]]
      by (simp add: mult.assoc)
    ultimately show ?thesis using Suc.IH [of "max (len * 2) (required + 4096)"] by simp
  qed
qed

section \<open>What the exit code means\<close>

lemma scan_handle_total:
  "\<exists>code. scan_handle env api h n path rd = Some code \<and> code \<in> {0, 3, 10, 11}"
proof -
  have zip: "\<exists>b. zip_risk env content = Some b" for content
    using inspect_safe(1) [of env default_budget content "\<lparr>sh_entries = 0, sh_expanded = 0\<rparr>" 0]
    by (auto simp: zip_risk_def zip_preflight_def inspect_deep_def elim!: in_bounds_cases)
  have wave: "\<exists>b. wave_risk content = Some b" for content
    using wave_preflight_safe [of content] by (auto simp: wave_risk_def elim!: in_bounds_cases)
  have "\<exists>b. structural_risk env content path = Some b" for content
    using zip [of content] wave [of content] by (auto simp: structural_risk_def Let_def)
  then obtain risk where risk: "structural_risk env content path = Some (risk content)" for content by metis
  show ?thesis
    by (simp add: scan_handle_def amsi_verdict_def classify_amsi_result_def risk split: option.split)
qed

text \<open>What the content of a file and its name must show before the scanner lets it pass.\<close>

definition passes_inspection :: "preflight_env \<Rightarrow> scan_api \<Rightarrow> bytes \<Rightarrow> wide \<Rightarrow> bool" where
  "passes_inspection env api content path \<longleftrightarrow>
     \<not> high_risk (file_inspect env content (env_filename env path)) \<and>
     (if lower_extension env path = wide_of ''.pdf'' \<or> take 5 content = bytes_of ''%PDF-''
      then \<exists>s. pdf_preflight content = Inr s \<and> \<not> pd_malformed s \<and> \<not> pd_javascript s \<and> \<not> pd_launch_action s \<and>
             \<not> pd_embedded_file s \<and> \<not> pd_open_action s
      else True) \<and>
     (if lower_extension env path = wide_of ''.zip'' \<or> take 2 content = bytes_of ''PK'' \<and> length content \<ge> 4
      then \<exists>s. zip_preflight env content = Some (Inr s) \<and> \<not> zip_marks s else True) \<and>
     (if lower_extension env path = wide_of ''.wav'' \<or> has_wave_signature content
      then \<exists>s. wave_preflight content = Some (Inr s) \<and> \<not> ws_malformed s \<and> \<not> ws_suspicious_metadata s else True) \<and>
     (\<exists>r. sa_scan api content = Some r \<and> \<not> as_is_malware (sa_amsi api) r \<and>
        \<not> (as_blocked_start (sa_amsi api) \<le> r \<and> r \<le> as_blocked_end (sa_amsi api)))"

lemma risk_free:
  "structural_risk env content path = Some False \<and> amsi_verdict api content = 0 \<longleftrightarrow> passes_inspection env api content path"
proof -
  have pdf: "\<not> pdf_risk content \<longleftrightarrow> (\<exists>s. pdf_preflight content = Inr s \<and> \<not> pd_malformed s \<and> \<not> pd_javascript s \<and>
      \<not> pd_launch_action s \<and> \<not> pd_embedded_file s \<and> \<not> pd_open_action s)"
    by (cases "pdf_preflight content") (auto simp: pdf_risk_def)
  have zip: "zip_risk env content = Some False \<longleftrightarrow> (\<exists>s. zip_preflight env content = Some (Inr s) \<and> \<not> zip_marks s)"
    by (cases "zip_preflight env content") (auto simp: zip_risk_def split: sum.split)
  have wave: "wave_risk content = Some False \<longleftrightarrow>
      (\<exists>s. wave_preflight content = Some (Inr s) \<and> \<not> ws_malformed s \<and> \<not> ws_suspicious_metadata s)"
    by (cases "wave_preflight content") (auto simp: wave_risk_def split: sum.split)
  have amsi: "amsi_verdict api content = 0 \<longleftrightarrow> (\<exists>r. sa_scan api content = Some r \<and> \<not> as_is_malware (sa_amsi api) r \<and>
        \<not> (as_blocked_start (sa_amsi api) \<le> r \<and> r \<le> as_blocked_end (sa_amsi api)))"
    by (cases "sa_scan api content") (auto simp: amsi_verdict_def classify_amsi_result_def)
  have bind: "(do { zip \<leftarrow> z; if zip then Some True else w }) = Some False \<longleftrightarrow> z = Some False \<and> w = Some False"
    for z w :: "bool option" by (cases z) auto
  have cond: "(if c then z else Some False) = Some False \<longleftrightarrow> (if c then z = Some False else True)" for c and z :: "bool option"
    by simp
  have "structural_risk env content path = Some False \<longleftrightarrow>
      \<not> high_risk (file_inspect env content (env_filename env path)) \<and>
      (if lower_extension env path = wide_of ''.pdf'' \<or> take 5 content = bytes_of ''%PDF-'' then \<not> pdf_risk content else True) \<and>
      (if lower_extension env path = wide_of ''.zip'' \<or> take 2 content = bytes_of ''PK'' \<and> length content \<ge> 4
       then zip_risk env content = Some False else True) \<and>
      (if lower_extension env path = wide_of ''.wav'' \<or> has_wave_signature content then wave_risk content = Some False else True)"
    unfolding structural_risk_def Let_def by (simp only: bind cond split: if_split) blast
  then show ?thesis unfolding passes_inspection_def pdf zip wave amsi by blast
qed

text \<open>
  When the scanner exits with the code for clean, it has read as many bytes as it was told,
  the first of the file, and they pass: no flag of the universal preflight, no active or
  malformed document, archive or audio structure, and an AMSI answer that is neither malware
  nor blocked by an administrator.
\<close>

lemma clean_exit_inspected:
  assumes "reads rd stored" and "scan_handle env api h n path rd = Some 0"
  shows "\<exists>size. n = Some size \<and> 0 < unat size \<and> unat size \<le> 256 * 1024 * 1024 \<and>
    unat size \<le> length stored \<and> passes_inspection env api (take (unat size) stored) path"
proof -
  from assms(2) obtain v size content where
    n: "h = Some v" "n = Some size" "size \<noteq> 0" "\<not> size > 256 * 1024 * 1024" and
    content: "read_locked rd (unat size) [] = Some content" and
    ok: "structural_risk env content path \<bind> (\<lambda>risk. Some (if risk then 11 else amsi_verdict api content)) = Some 0"
    by (auto simp: scan_handle_def split: option.splits if_splits)
  from ok have "structural_risk env content path = Some False \<and> amsi_verdict api content = 0"
    by (cases "structural_risk env content path") (auto split: if_splits)
  moreover have "content = take (unat size) stored" "length content = unat size"
    using read_locked_content [OF assms(1) content Nil_prefix] by auto
  moreover from this have "unat size \<le> length stored"
    by (metis length_take min.cobounded1)
  moreover have "0 < unat size" using n(3) by (simp add: unat_gt_0)
  moreover have "unat size \<le> 256 * 1024 * 1024" using n(4) by (simp add: word_le_nat_alt not_less)
  ultimately show ?thesis using n(2) risk_free by metis
qed

text \<open>The checksum of an archive's members plays no part in the verdict.\<close>

lemma crc_mismatch_passes: "zip_marks (s\<lparr>zs_crc_mismatch := b\<rparr>) = zip_marks s"
  by (simp add: zip_marks_def)

definition sample_api :: scan_api where
  "sample_api = \<lparr>sa_amsi = \<lparr>as_is_malware = (\<lambda>r. r \<ge> 32768), as_blocked_start = 0x4000, as_blocked_end = 0x4fff\<rparr>,
     sa_scan = (\<lambda>_. Some 0)\<rparr>"

definition reader_of :: "bytes \<Rightarrow> reader" where
  "reader_of stored offset n = Some (take n (drop offset stored))"

lemma reads_reader_of: "reads (reader_of stored) stored"
  by (simp add: reads_def reader_of_def take_is_prefix)

lemma read_locked_small:
  assumes "0 < n" "n \<le> read_chunk" "n \<le> length stored"
  shows "read_locked (reader_of stored) n [] = Some (take n stored)"
proof -
  have "read_locked (reader_of stored) n (take n stored) = Some (take n stored)"
    using assms(3) by (subst read_locked.simps) simp
  moreover have "stored \<noteq> []" using assms by auto
  ultimately show ?thesis
    using assms by (subst read_locked.simps) (simp add: reader_of_def Let_def)
qed

lemma sample_passes: "passes_inspection sample_env sample_api sample_gif (wide_of ''a.gif'')"
proof -
  have "lower_extension sample_env (wide_of ''a.gif'') = wide_of ''.gif''" "\<not> has_wave_signature sample_gif"
    "take 5 sample_gif \<noteq> bytes_of ''%PDF-''" "take 2 sample_gif \<noteq> bytes_of ''PK''"
    "wide_of ''.gif'' \<noteq> wide_of ''.pdf''" "wide_of ''.gif'' \<noteq> wide_of ''.zip''" "wide_of ''.gif'' \<noteq> wide_of ''.wav''"
    "env_filename sample_env (wide_of ''a.gif'') = wide_of ''a.gif''"
    by code_simp+
  then show ?thesis using sample_gif_fine by (simp add: passes_inspection_def sample_api_def)
qed

lemma sample_scan_clean:
  "scan_handle sample_env sample_api (Some 44) (Some 7) (wide_of ''a.gif'') (reader_of sample_gif) = Some 0"
proof -
  have len: "length sample_gif = 7" by code_simp
  have "read_locked (reader_of sample_gif) 7 [] = Some sample_gif"
    using read_locked_small [of 7 sample_gif] len by (simp add: read_chunk_def)
  then show ?thesis using sample_passes unfolding risk_free [symmetric] by (simp add: scan_handle_def)
qed

end
