(* ===== verification/AIS_Broker.thy ===== *)
theory AIS_Broker
  imports AIS_Scanner AIS_Minifilter AIS_Export
begin

text \<open>
  The quarantine of the broker, \<open>tools/ai_shield_broker/main.cpp\<close>: which files are analysed, how
  the isolated scanner's exit codes are read, the decision between release and quarantine,
  and the verdicts that it gives the file driver. The driver is the state machine of
  \<open>AIS_Minifilter\<close>: a verdict is a device-control request to it. What Windows answers about a
  file while the broker holds it open is a \<open>file_view\<close>. The health log, whose lines are
  written at best effort and never read, and the diagnostic number in it are left out.
\<close>

section \<open>Content policy\<close>

definition kContentDocuments :: u32 where "kContentDocuments = 0x001"
definition kContentArchives :: u32 where "kContentArchives = 0x002"
definition kContentImages :: u32 where "kContentImages = 0x004"
definition kContentAudio :: u32 where "kContentAudio = 0x008"
definition kContentVideo :: u32 where "kContentVideo = 0x010"
definition kContentWeb :: u32 where "kContentWeb = 0x020"
definition kContentPrograms :: u32 where "kContentPrograms = 0x040"
definition kContentWindowsScripts :: u32 where "kContentWindowsScripts = 0x080"
definition kContentDeveloperScripts :: u32 where "kContentDeveloperScripts = 0x100"
definition kContentLaunchers :: u32 where "kContentLaunchers = 0x200"
definition kContentUnknown :: u32 where "kContentUnknown = 0x400"
definition kContentLegacyAll :: u32 where "kContentLegacyAll = 0x03f"

definition kContentExecutionAll :: u32 where
  "kContentExecutionAll = kContentPrograms OR kContentWindowsScripts OR kContentDeveloperScripts OR kContentLaunchers"

definition kContentAll :: u32 where
  "kContentAll = kContentLegacyAll OR kContentExecutionAll OR kContentUnknown"

record content_policy =
  cp_magic :: u32
  cp_version :: u32
  cp_enabled_categories :: u32
  cp_fail_closed :: u32
  cp_release_required :: u32

definition default_content_policy :: content_policy where
  "default_content_policy = \<lparr>cp_magic = 0x50435341, cp_version = 4, cp_enabled_categories = kContentAll,
     cp_fail_closed = 1, cp_release_required = 1\<rparr>"

definition content_policy_bytes :: "content_policy \<Rightarrow> bytes" where
  "content_policy_bytes p =
     le32 (cp_magic p) @ le32 (cp_version p) @ le32 (cp_enabled_categories p) @ le32 (cp_fail_closed p) @
     le32 (cp_release_required p)"

text \<open>The current layout, of which version 3 lacks a category, and the layout of versions 1 and 2.\<close>

definition read_content_policy :: "bytes \<Rightarrow> content_policy option" where
  "read_content_policy clear =
     (if length clear = 20 then
        let p = \<lparr>cp_magic = le32_at clear 0, cp_version = le32_at clear 4, cp_enabled_categories = le32_at clear 8,
              cp_fail_closed = le32_at clear 12, cp_release_required = le32_at clear 16\<rparr>
        in if cp_version p = 3
           then Some (p\<lparr>cp_version := 4, cp_enabled_categories := cp_enabled_categories p OR kContentUnknown\<rparr>)
           else if cp_version p = 4 then Some p else None
      else if length clear = 16 then
        let version = le32_at clear 4
        in if version = 1 \<or> version = 2
           then Some \<lparr>cp_magic = le32_at clear 0, cp_version = 4,
                  cp_enabled_categories = (if version = 1 then le32_at clear 8 OR kContentExecutionAll
                    else le32_at clear 8) OR kContentUnknown,
                  cp_fail_closed = le32_at clear 12, cp_release_required = 1\<rparr>
           else None
      else None)"

definition content_policy_valid :: "content_policy \<Rightarrow> bool" where
  "content_policy_valid p \<longleftrightarrow> cp_magic p = cp_magic default_content_policy \<and>
     cp_enabled_categories p AND NOT kContentAll = 0 \<and> cp_fail_closed p \<le> 1 \<and> cp_release_required p \<le> 1"

text \<open>The file, when it can be read, and \<open>CryptUnprotectData\<close>.\<close>

definition load_content_policy :: "(bytes \<Rightarrow> bytes option) \<Rightarrow> bytes option \<Rightarrow> content_policy" where
  "load_content_policy unprotect content =
     (case content of
        None \<Rightarrow> default_content_policy
      | Some stored \<Rightarrow>
          if stored = [] \<or> length stored > 4096 then default_content_policy
          else case unprotect stored of
                 None \<Rightarrow> default_content_policy
               | Some clear \<Rightarrow>
                   (case read_content_policy clear of
                      None \<Rightarrow> default_content_policy
                    | Some p \<Rightarrow> if content_policy_valid p then p else default_content_policy))"

text \<open>
  What Windows grants a command: whether it may, \<open>CryptProtectData\<close>, and whether the directory
  can be made and the file written; a file that is not written stays as it was.
\<close>

record policy_os =
  po_elevated :: bool
  po_protect :: "bytes \<Rightarrow> bytes option"
  po_written :: bool

definition save_content_policy :: "policy_os \<Rightarrow> content_policy \<Rightarrow> bytes option \<Rightarrow> bool \<times> bytes option" where
  "save_content_policy os p content =
     (case po_protect os (content_policy_bytes p) of
        None \<Rightarrow> (False, content)
      | Some stored \<Rightarrow> if po_written os then (True, Some stored) else (False, content))"

text \<open>\<open>content-policy-set\<close>: its arguments, when they are numbers; the exit code and the file.\<close>

definition content_policy_set ::
    "policy_os \<Rightarrow> u32 option \<Rightarrow> u32 option \<Rightarrow> u32 option \<Rightarrow> bytes option \<Rightarrow> nat \<times> bytes option" where
  "content_policy_set os categories fail_closed release_required content =
     (if \<not> po_elevated os then (5, content)
      else case (categories, fail_closed, release_required) of
             (Some c, Some f, Some r) \<Rightarrow>
               if c AND NOT kContentAll \<noteq> 0 \<or> f > 1 \<or> r > 1 then (2, content)
               else
                 let (saved, content) = save_content_policy os
                       (default_content_policy\<lparr>cp_enabled_categories := c, cp_fail_closed := f, cp_release_required := r\<rparr>) content
                 in (if saved then 0 else 2, content)
           | _ \<Rightarrow> (2, content))"

section \<open>Categories\<close>

definition content_category :: "preflight_env \<Rightarrow> wide \<Rightarrow> u32" where
  "content_category env path =
     (let extension = lower_extension env path in
      if is_one_of extension [''.pdf'', ''.doc'', ''.docx'', ''.docm'', ''.xls'', ''.xlsx'', ''.xlsm'', ''.ppt'', ''.pptx'',
        ''.pptm'', ''.rtf'', ''.odt'', ''.ods'', ''.odp'', ''.one'', ''.fdf'', ''.xps'', ''.oxps'', ''.djvu'', ''.csv'', ''.tsv'',
        ''.eml'', ''.msg'', ''.ics'', ''.vcf'', ''.epub'', ''.mobi'', ''.azw'', ''.azw3'', ''.fb2''] then kContentDocuments
      else if is_one_of extension [''.zip'', ''.7z'', ''.rar'', ''.iso'', ''.cab'', ''.tar'', ''.gz'', ''.bz2'', ''.xz'', ''.zst'',
        ''.img'', ''.vhd'', ''.vhdx'', ''.vmdk'', ''.wim'', ''.esd'', ''.dmg'', ''.apk'', ''.nupkg'', ''.crx'', ''.xpi'', ''.vsix'']
      then kContentArchives
      else if is_one_of extension [''.jpg'', ''.jpeg'', ''.jfif'', ''.png'', ''.gif'', ''.bmp'', ''.tif'', ''.tiff'', ''.webp'',
        ''.ico'', ''.svg'', ''.heif'', ''.heic'', ''.avif'', ''.jxl'', ''.psd'', ''.raw''] then kContentImages
      else if is_one_of extension [''.mp3'', ''.wav'', ''.flac'', ''.aac'', ''.ogg'', ''.m4a'', ''.wma'', ''.aiff'', ''.opus'',
        ''.m3u'', ''.m3u8'', ''.pls'', ''.asx'', ''.cue''] then kContentAudio
      else if is_one_of extension [''.mp4'', ''.m4v'', ''.mov'', ''.avi'', ''.mkv'', ''.webm'', ''.wmv''] then kContentVideo
      else if is_one_of extension [''.html'', ''.htm'', ''.mhtml'', ''.mht'', ''.xhtml'', ''.xml'', ''.xsl'', ''.xslt'', ''.json'',
        ''.yaml'', ''.yml'', ''.toml''] then kContentWeb
      else if is_one_of extension [''.exe'', ''.com'', ''.scr'', ''.pif'', ''.dll'', ''.ocx'', ''.cpl'', ''.sys'', ''.drv'', ''.msi'',
        ''.msp'', ''.mst'', ''.msix'', ''.msixbundle'', ''.appx'', ''.appxbundle'', ''.appinstaller'', ''.efi''] then kContentPrograms
      else if is_one_of extension [''.bat'', ''.cmd'', ''.ps1'', ''.psm1'', ''.psd1'', ''.vbs'', ''.vbe'', ''.js'', ''.jse'', ''.wsf'',
        ''.wsh'', ''.hta'', ''.sct''] then kContentWindowsScripts
      else if is_one_of extension [''.sh'', ''.bash'', ''.zsh'', ''.fish'', ''.py'', ''.pyw'', ''.pyz'', ''.mjs'', ''.cjs'', ''.pl'',
        ''.pm'', ''.rb'', ''.rake'', ''.php'', ''.phar'', ''.lua'', ''.tcl'', ''.jar'', ''.groovy'', ''.kts'', ''.wasm'']
      then kContentDeveloperScripts
      else if is_one_of extension [''.lnk'', ''.url'', ''.scf'', ''.application'', ''.appref-ms'', ''.gadget'', ''.diagcab'',
        ''.diagpkg'', ''.reg'', ''.inf'', ''.chm'', ''.xll'', ''.iqy'', ''.oqy'', ''.rqy'', ''.slk'', ''.settingcontent-ms'',
        ''.library-ms'', ''.search-ms'', ''.torrent'', ''.rdp'', ''.pbk'', ''.mobileconfig'', ''.pkl'', ''.pickle'', ''.joblib'',
        ''.dill'', ''.pt'', ''.pth'', ''.ckpt'', ''.onnx'', ''.safetensors'', ''.gguf''] then kContentLaunchers
      else kContentUnknown)"

definition executable_extension :: "preflight_env \<Rightarrow> wide \<Rightarrow> u32 \<Rightarrow> bool" where
  "executable_extension env path enabled \<longleftrightarrow> content_category env path AND enabled AND kContentExecutionAll \<noteq> 0"

definition parser_risk_extension :: "preflight_env \<Rightarrow> wide \<Rightarrow> u32 \<Rightarrow> bool" where
  "parser_risk_extension env path enabled \<longleftrightarrow> content_category env path AND enabled \<noteq> 0"

definition transient_download_path :: "preflight_env \<Rightarrow> wide \<Rightarrow> bool" where
  "transient_download_path env path \<longleftrightarrow>
     is_one_of (lower_extension env path) [''.crdownload'', ''.part'', ''.partial'', ''.opdownload'', ''.download'']"

definition content_analysis_bypassed :: "preflight_env \<Rightarrow> wide \<Rightarrow> u32 \<Rightarrow> bool" where
  "content_analysis_bypassed env path enabled_categories \<longleftrightarrow>
     transient_download_path env path \<or> content_category env path AND enabled_categories = 0"

section \<open>Publishers and signatures\<close>

definition toupper :: "char \<Rightarrow> char" where
  "toupper c = (let n = (of_char c :: nat) in if 97 \<le> n \<and> n \<le> 122 then char_of (n - 32) else c)"

definition is_upper_hex :: "char \<Rightarrow> bool" where
  "is_upper_hex c \<longleftrightarrow> is_digit c \<or> 65 \<le> (of_char c :: nat) \<and> (of_char c :: nat) \<le> 70"

definition publisher_line :: "string \<Rightarrow> string option" where
  "publisher_line line =
     (let line = map toupper (filter (\<lambda>c. c \<notin> {CHR '' '', tab, CHR 0x0D, CHR '':''}) line)
      in if length line = 64 \<and> list_all is_upper_hex line then Some line else None)"

text \<open>The lines of the file; a missing file has none.\<close>

definition load_trusted_publishers :: "string list \<Rightarrow> string set" where
  "load_trusted_publishers lines = set (List.map_filter publisher_line lines)"

record signature_trust =
  sg_valid :: bool
  sg_pinned :: bool
  sg_thumbprint :: string

definition no_signature :: signature_trust where
  "no_signature = \<lparr>sg_valid = False, sg_pinned = False, sg_thumbprint = []\<rparr>"

text \<open>\<open>verified\<close> is the answer of \<open>WinVerifyTrust\<close>, \<open>thumbprint\<close> that of \<open>certificate_thumbprint\<close>.\<close>

definition inspect_signature :: "bool \<Rightarrow> string \<Rightarrow> string set \<Rightarrow> signature_trust" where
  "inspect_signature verified thumbprint publishers =
     (if verified then \<lparr>sg_valid = True, sg_pinned = (thumbprint \<noteq> [] \<and> thumbprint \<in> publishers), sg_thumbprint = thumbprint\<rparr>
      else no_signature)"

section \<open>The scanner's verdict\<close>

datatype defender_verdict = DV_clean | DV_threat | DV_unavailable | DV_suspicious

text \<open>How one launch of the scanner goes; the exit code when it ended in time and can be had.\<close>

record scanner_launch =
  sl_launched :: bool
  sl_registered :: bool
  sl_resumed :: bool
  sl_exit_code :: "u32 option"

record scan_view =
  sv_path_known :: bool
  sv_scanner_exists :: bool
  sv_duplicated :: bool
  sv_first :: scanner_launch
  sv_duplicated_again :: bool
  sv_second :: scanner_launch

definition kMaximumClassifiedFileSize :: u64 where "kMaximumClassifiedFileSize = 256 * 1024 * 1024"

definition kDllInitFailed :: u32 where "kDllInitFailed = 0xC0000142"

definition exit_verdict :: "u32 \<Rightarrow> defender_verdict" where
  "exit_verdict code =
     (if code = 0 then DV_clean else if code = 10 then DV_threat else if code = 11 then DV_suspicious else DV_unavailable)"

text \<open>
  The scanner is started in an app container; when it cannot initialize there it is started
  once more with a restricted token.
\<close>

definition scan_with_defender :: "scan_view \<Rightarrow> u64 \<Rightarrow> defender_verdict" where
  "scan_with_defender v n =
     (if n = 0 \<or> n > kMaximumClassifiedFileSize \<or> \<not> sv_path_known v \<or> \<not> sv_scanner_exists v \<or> \<not> sv_duplicated v
      then DV_unavailable
      else
        let first = sv_first v in
        if \<not> sl_launched first \<or> \<not> sl_registered first \<or> \<not> sl_resumed first then DV_unavailable
        else case sl_exit_code first of
               None \<Rightarrow> DV_unavailable
             | Some code \<Rightarrow>
                 if code \<noteq> kDllInitFailed then exit_verdict code
                 else if \<not> sv_duplicated_again v then DV_unavailable
                 else
                   let second = sv_second v in
                   if \<not> sl_launched second \<or> \<not> sl_registered second \<or> \<not> sl_resumed second then DV_unavailable
                   else (case sl_exit_code second of None \<Rightarrow> DV_unavailable | Some code \<Rightarrow> exit_verdict code))"

section \<open>The quarantine\<close>

record file_stamp =
  st_size :: u64
  st_modified :: int

datatype processing_state =
    PS_analyzed_clean | PS_quarantined | PS_release_pending | PS_retry_pending | PS_identity_rejected
  | PS_permanently_unsupported

text \<open>
  The manager, with the file driver it talks to (\<open>qm_driver\<close>), its own process as the driver
  sees it, the identifiers of the objects in quarantine and the lines of its two logs.
\<close>

record quarantine_manager =
  qm_policy :: content_policy
  qm_publishers :: "string set"
  qm_volume :: u32
  qm_stable :: "wide \<rightharpoonup> file_stamp"
  qm_processed :: "wide \<rightharpoonup> file_stamp"
  qm_states :: "wide \<rightharpoonup> processing_state"
  qm_retry :: "wide \<rightharpoonup> u64"
  qm_objects :: "string set"
  qm_provenance :: "string list"
  qm_journal :: "string list"
  qm_restored :: "string list"
  qm_driver :: minifilter_state
  qm_process :: process
  qm_process_id :: u64

text \<open>What Windows answers while one file is classified.\<close>

record file_view =
  vw_opened :: bool
  vw_now :: u64                                 \<comment> \<open>\<open>GetTickCount64\<close>\<close>
  vw_kernel_time :: u64
  vw_basic_info :: bool
  vw_reparse_point :: "bool option"
  vw_streams :: "wide list + bool"              \<comment> \<open>the names, or whether the error is the end of the file\<close>
  vw_size :: u64
  vw_links :: u32
  vw_volume :: u32
  vw_index :: u64
  vw_write_time :: u64
  vw_modified :: "int option"
  vw_reader :: reader
  vw_hashing :: bool
  vw_signature_valid :: bool
  vw_thumbprint :: string
  vw_scan :: scan_view
  vw_provenance_logged :: bool
  vw_intent_logged :: bool
  vw_committed_logged :: bool
  vw_renamed :: bool
  vw_copied :: bool
  vw_disposed :: bool

definition safe_stream_set :: "wide list + bool \<Rightarrow> bool" where
  "safe_stream_set streams =
     (case streams of
        Inr end_of_file \<Rightarrow> end_of_file
      | Inl names \<Rightarrow> list_all (\<lambda>name. is_one_of name [''::$DATA'', '':Zone.Identifier:$DATA'']) names)"

definition hash_locked_file :: "file_view \<Rightarrow> u64 \<Rightarrow> digest option" where
  "hash_locked_file v n =
     (if vw_size v \<noteq> n \<or> n \<ge> 0x8000000000000000 \<or> \<not> vw_hashing v then None
      else map_option sha256 (read_locked (vw_reader v) (unat n) []))"

definition copy_locked_to_quarantine :: "file_view \<Rightarrow> u64 \<Rightarrow> digest \<Rightarrow> bool" where
  "copy_locked_to_quarantine v n expected \<longleftrightarrow>
     vw_copied v \<and> vw_hashing v \<and> map_option sha256 (read_locked (vw_reader v) (unat n) []) = Some expected"

text \<open>\<open>DeviceIoControl\<close> to the file driver: whether it took the verdict.\<close>

definition submit_file_verdict :: "u64 \<Rightarrow> u32 \<Rightarrow> u32 \<Rightarrow> u64 \<Rightarrow> quarantine_manager \<Rightarrow> bool \<times> quarantine_manager" where
  "submit_file_verdict file_id volume_id verdict now m =
     (let (status, _, driver) = minifilter_control (qm_process m) (qm_process_id m)
            (MR_set_file_verdict (Some \<lparr>fv_version = protocol_version, fv_size = 24, fv_file_id = file_id,
               fv_volume_id = volume_id, fv_verdict = verdict\<rparr>) now) (qm_driver m)
      in (status = NT_success, m\<lparr>qm_driver := driver\<rparr>))"

definition digest_hex :: "digest \<Rightarrow> string" where
  "digest_hex d = concat (map (\<lambda>b. [''0123456789abcdef'' ! (unat b div 16), ''0123456789abcdef'' ! (unat b mod 16)]) d)"

definition json_escape :: "wide \<Rightarrow> string" where
  "json_escape v =
     concat (map (\<lambda>c. (if c = 0x5C \<or> c = 0x22 then [backslash] else []) @
       (if 0x20 \<le> c \<and> c \<le> 0x7e then [char_of (unat c)] else if c > 0x7e then ''?'' else [])) v)"

definition line_end :: string where "line_end = [CHR 0x0D, CHR 0x0A]"

definition json_text :: "string \<Rightarrow> string \<Rightarrow> string" where
  "json_text name v = quote @ name @ quote @ '':'' @ quote @ v @ quote"

text \<open>The decision about an analysed file, and its name in the log.\<close>

record analysis =
  an_executable :: bool
  an_trust :: signature_trust
  an_verdict :: defender_verdict
  an_release_pending :: bool
  an_quarantine :: bool
  an_classification :: string

definition analyse :: "preflight_env \<Rightarrow> content_policy \<Rightarrow> string set \<Rightarrow> wide \<Rightarrow> u64 \<Rightarrow> file_view \<Rightarrow> analysis" where
  "analyse env p publishers source n v =
     (let executable = executable_extension env source (cp_enabled_categories p);
          parser_risk = parser_risk_extension env source (cp_enabled_categories p);
          trust = (if executable then inspect_signature (vw_signature_valid v) (vw_thumbprint v) publishers else no_signature);
          trusted = (executable \<and> sg_valid trust \<and> sg_pinned trust);
          defender = scan_with_defender (vw_scan v) n;
          suspicious = (defender = DV_suspicious);
          release_pending = (parser_risk \<and> cp_release_required p \<noteq> 0);
          unavailable = (defender = DV_unavailable);
          quarantine = (release_pending \<or> (executable \<and> \<not> trusted) \<or> suspicious \<or> defender = DV_threat \<or>
            (cp_fail_closed p \<noteq> 0 \<and> unavailable))
      in \<lparr>an_executable = executable, an_trust = trust, an_verdict = defender, an_release_pending = release_pending,
          an_quarantine = quarantine,
          an_classification =
            (if defender = DV_threat then ''malware_detected''
             else if suspicious then ''suspicious_file_structure''
             else if cp_fail_closed p \<noteq> 0 \<and> unavailable then ''content_scan_unavailable''
             else if executable \<and> sg_valid trust \<and> \<not> sg_pinned trust then ''signed_unpinned_publisher''
             else if executable \<and> \<not> trusted then ''external_untrusted_executable''
             else if release_pending then ''pending_user_release''
             else if trusted then ''external_trusted_scanned'' else ''external_content_scanned_safe'')\<rparr>)"

definition provenance_record :: "string \<Rightarrow> wide \<Rightarrow> u64 \<Rightarrow> digest \<Rightarrow> analysis \<Rightarrow> string" where
  "provenance_record identifier source n content_digest a =
     ''{'' @ json_text ''id'' identifier @ '','' @ json_text ''source'' (json_escape source) @ '','' @
     quote @ ''size'' @ quote @ '':'' @ decimal (unat n) @ '','' @ json_text ''sha256'' (digest_hex content_digest) @ '','' @
     json_text ''classification'' (an_classification a) @ '','' @
     json_text ''publisher_sha256'' (sg_thumbprint (an_trust a)) @ '','' @
     quote @ ''publisher_pinned'' @ quote @ '':'' @ (if sg_pinned (an_trust a) then ''true'' else ''false'') @ '','' @
     json_text ''defender'' (case an_verdict a of DV_clean \<Rightarrow> ''clean'' | DV_threat \<Rightarrow> ''threat''
       | DV_suspicious \<Rightarrow> ''structural_suspicious'' | DV_unavailable \<Rightarrow> ''unavailable'') @ ''}'' @ line_end"

definition with_state :: "string \<Rightarrow> string \<Rightarrow> string" where
  "with_state record' st = take (length record' - 3) record' @ '','' @ json_text ''state'' st @ ''}'' @ line_end"

definition retry_later :: "processing_state \<Rightarrow> wide \<Rightarrow> file_view \<Rightarrow> quarantine_manager \<Rightarrow> quarantine_manager" where
  "retry_later st source v m =
     m\<lparr>qm_states := (qm_states m)(source \<mapsto> st), qm_retry := (qm_retry m)(source \<mapsto> vw_now v + 5000)\<rparr>"

text \<open>The common end of the two branches that let a file go.\<close>

definition release_file :: "wide \<Rightarrow> u64 \<Rightarrow> int \<Rightarrow> file_view \<Rightarrow> quarantine_manager \<Rightarrow> quarantine_manager" where
  "release_file source n modified v m =
     (let (ok, m) = submit_file_verdict (vw_index v) (vw_volume v) file_clean (vw_kernel_time v) m
      in if \<not> ok then retry_later PS_retry_pending source v m
         else m\<lparr>qm_processed := (qm_processed m)(source \<mapsto> \<lparr>st_size = n, st_modified = modified\<rparr>),
                qm_states := (qm_states m)(source \<mapsto> PS_analyzed_clean), qm_retry := (qm_retry m)(source := None)\<rparr>)"

definition identity_safe :: "u64 \<Rightarrow> int \<Rightarrow> u64 \<Rightarrow> u32 \<Rightarrow> file_view \<Rightarrow> bool" where
  "identity_safe n modified expected_file_id expected_volume_id v \<longleftrightarrow>
     vw_basic_info v \<and> vw_size v = n \<and> vw_modified v = Some modified \<and>
     (expected_file_id = 0 \<or> expected_file_id = vw_index v) \<and>
     (expected_volume_id = 0 \<or> expected_volume_id = vw_volume v) \<and>
     vw_reparse_point v = Some False \<and> vw_links v = 1 \<and> safe_stream_set (vw_streams v)"

definition file_identifier :: "u64 \<Rightarrow> file_view \<Rightarrow> string" where
  "file_identifier n v = digest_hex (sha256 (le_bytes 8 (vw_volume v) @ le64 (vw_index v) @ le64 n @ le64 (vw_write_time v)))"

text \<open>
  Into quarantine: the intent is logged, the object is renamed (or copied, checked and
  deleted, from another volume), the verdict is given and the move is logged as committed. An
  object that is there already is not replaced.
\<close>

definition quarantine_file ::
    "wide \<Rightarrow> u64 \<Rightarrow> digest \<Rightarrow> analysis \<Rightarrow> string \<Rightarrow> string \<Rightarrow> file_view \<Rightarrow> quarantine_manager \<Rightarrow> quarantine_manager" where
  "quarantine_file source n content_digest a identifier record' v m =
     (if \<not> vw_intent_logged v then retry_later PS_retry_pending source v m
      else
        let m = m\<lparr>qm_journal := qm_journal m @ [with_state record' ''intent'']\<rparr>;
            moved = (identifier \<notin> qm_objects m \<and>
              (if vw_volume v = qm_volume m then vw_renamed v
               else copy_locked_to_quarantine v n content_digest \<and> vw_disposed v))
        in if \<not> moved then retry_later PS_retry_pending source v m
           else
             let m = m\<lparr>qm_objects := insert identifier (qm_objects m),
                       qm_states := (qm_states m)(source \<mapsto> (if an_release_pending a then PS_release_pending else PS_quarantined))\<rparr>;
                 (_, m) = submit_file_verdict (vw_index v) (vw_volume v) file_quarantined (vw_kernel_time v) m;
                 m = m\<lparr>qm_retry := (qm_retry m)(source := None)\<rparr>
             in if vw_committed_logged v then m\<lparr>qm_journal := qm_journal m @ [with_state record' ''committed'']\<rparr> else m)"

definition classify ::
    "preflight_env \<Rightarrow> wide \<Rightarrow> u64 \<Rightarrow> int \<Rightarrow> u64 \<Rightarrow> u32 \<Rightarrow> file_view \<Rightarrow> quarantine_manager \<Rightarrow> quarantine_manager" where
  "classify env source n modified expected_file_id expected_volume_id v m =
     (if \<not> vw_opened v then retry_later PS_retry_pending source v m
      else if \<not> identity_safe n modified expected_file_id expected_volume_id v
      then retry_later PS_identity_rejected source v m
      else if content_analysis_bypassed env source (cp_enabled_categories (qm_policy m))
      then release_file source n modified v m
      else case hash_locked_file v n of
             None \<Rightarrow> retry_later PS_retry_pending source v m
           | Some content_digest \<Rightarrow>
               let a = analyse env (qm_policy m) (qm_publishers m) source n v;
                   identifier = file_identifier n v;
                   record' = provenance_record identifier source n content_digest a
               in if \<not> vw_provenance_logged v then retry_later PS_retry_pending source v m
                  else
                    let m = m\<lparr>qm_provenance := qm_provenance m @ [record']\<rparr>
                    in if \<not> an_quarantine a then release_file source n modified v m
                       else quarantine_file source n content_digest a identifier record' v m)"

section \<open>Walking the download folders\<close>

text \<open>What the directory walk finds, entry by entry; a query that fails is \<open>None\<close>.\<close>

record scan_entry =
  en_path :: wide
  en_regular :: "bool option"
  en_modified :: "int option"
  en_size :: "u64 option"
  en_external_zone :: bool
  en_now :: u64

record scan_root =
  sr_exists :: bool
  sr_downloads :: bool
  sr_entries :: "scan_entry list"

record candidate =
  cd_path :: wide
  cd_size :: u64
  cd_modified :: int

record walk =
  wk_visited :: nat
  wk_error :: bool
  wk_stable :: "wide \<rightharpoonup> file_stamp"
  wk_candidates :: "candidate list"

text \<open>
  One entry. The error of a failed query is kept: \<open>error || !entry.is_regular_file(error)\<close> then
  passes over whatever follows in the same root.
\<close>

definition scan_visit :: "preflight_env \<Rightarrow> quarantine_manager \<Rightarrow> bool \<Rightarrow> scan_entry \<Rightarrow> walk \<Rightarrow> walk" where
  "scan_visit env m downloads entry w =
     (if wk_error w then w
      else case en_regular entry of
             None \<Rightarrow> w\<lparr>wk_error := True\<rparr>
           | Some regular \<Rightarrow>
               if \<not> regular \<or> transient_download_path env (en_path entry) \<or>
                  (\<not> downloads \<and> \<not> executable_extension env (en_path entry) (cp_enabled_categories (qm_policy m)))
               then w
               else (case (en_modified entry, en_size entry) of
                       (Some modified, Some n) \<Rightarrow>
                         let key = en_path entry; stamp = \<lparr>st_size = n, st_modified = modified\<rparr> in
                         if \<not> downloads \<and> \<not> en_external_zone entry then w
                         else if (case qm_retry m key of None \<Rightarrow> False | Some time \<Rightarrow> en_now entry < time) then w
                         else if qm_processed m key = Some stamp then w
                         else if wk_stable w key \<noteq> Some stamp then w\<lparr>wk_stable := (wk_stable w)(key \<mapsto> stamp)\<rparr>
                         else w\<lparr>wk_candidates := wk_candidates w @ [\<lparr>cd_path = key, cd_size = n, cd_modified = modified\<rparr>],
                                wk_stable := (wk_stable w)(key := None)\<rparr>
                     | _ \<Rightarrow> w\<lparr>wk_error := True\<rparr>))"

text \<open>The result says whether the walk came to its end; the whole scan returns when it did not.\<close>

fun scan_entries :: "preflight_env \<Rightarrow> quarantine_manager \<Rightarrow> bool \<Rightarrow> scan_entry list \<Rightarrow> walk \<Rightarrow> bool \<times> walk" where
  "scan_entries env m downloads [] w = (True, w)"
| "scan_entries env m downloads (entry # entries) w =
     (let w = w\<lparr>wk_visited := wk_visited w + 1\<rparr>
      in if wk_visited w > 20000 then (False, w)
         else scan_entries env m downloads entries (scan_visit env m downloads entry w))"

fun scan_roots :: "preflight_env \<Rightarrow> quarantine_manager \<Rightarrow> scan_root list \<Rightarrow> walk \<Rightarrow> bool \<times> walk" where
  "scan_roots env m [] w = (True, w)"
| "scan_roots env m (root # roots) w =
     (if \<not> sr_exists root then scan_roots env m roots w
      else case scan_entries env m (sr_downloads root) (sr_entries root) (w\<lparr>wk_error := False\<rparr>) of
             (False, w) \<Rightarrow> (False, w)
           | (True, w) \<Rightarrow> scan_roots env m roots w)"

text \<open>
  Smaller files first, among them newer ones first; \<open>std::sort\<close> leaves open the order of equal
  ones. At most 256 files are classified, the one at place \<open>i\<close> under the view \<open>views i\<close>.
\<close>

definition candidate_order :: "candidate list \<Rightarrow> candidate list" where
  "candidate_order = sort_key (\<lambda>c. unat (cd_size c)) \<circ> sort_key (\<lambda>c. - cd_modified c)"

definition scan ::
    "preflight_env \<Rightarrow> content_policy \<Rightarrow> scan_root list \<Rightarrow> (nat \<Rightarrow> file_view) \<Rightarrow> quarantine_manager \<Rightarrow> quarantine_manager" where
  "scan env policy roots views m =
     (let m = m\<lparr>qm_policy := policy\<rparr>;
          (finished, w) = scan_roots env m roots
            \<lparr>wk_visited = 0, wk_error = False, wk_stable = qm_stable m, wk_candidates = []\<rparr>;
          m = m\<lparr>qm_stable := wk_stable w\<rparr>
      in if \<not> finished then m
         else fold (\<lambda>(c, i) m. classify env (cd_path c) (cd_size c) (cd_modified c) 0 0 (views i) m)
                (zip (take 256 (candidate_order (wk_candidates w))) [0..<256]) m)"

text \<open>The files found when the service starts count as processed, 20000 at most per root after the first.\<close>

definition baseline_wanted :: "preflight_env \<Rightarrow> content_policy \<Rightarrow> bool \<Rightarrow> scan_entry \<Rightarrow> bool" where
  "baseline_wanted env p downloads entry \<longleftrightarrow>
     en_regular entry = Some True \<and> \<not> transient_download_path env (en_path entry) \<and>
     (executable_extension env (en_path entry) (cp_enabled_categories p) \<or>
      downloads \<and> parser_risk_extension env (en_path entry) (cp_enabled_categories p)) \<and>
     en_modified entry \<noteq> None \<and> en_size entry \<noteq> None"

fun baseline_entries ::
    "preflight_env \<Rightarrow> content_policy \<Rightarrow> bool \<Rightarrow> scan_entry list \<Rightarrow> nat \<times> (wide \<rightharpoonup> file_stamp) \<Rightarrow> nat \<times> (wide \<rightharpoonup> file_stamp)"
  where
  "baseline_entries env p downloads [] (baseline, processed) = (baseline, processed)"
| "baseline_entries env p downloads (entry # entries) (baseline, processed) =
     (if \<not> baseline_wanted env p downloads entry then baseline_entries env p downloads entries (baseline, processed)
      else
        let processed = processed(en_path entry \<mapsto> \<lparr>st_size = the (en_size entry), st_modified = the (en_modified entry)\<rparr>)
        in if baseline + 1 \<ge> 20000 then (baseline + 1, processed)
           else baseline_entries env p downloads entries (baseline + 1, processed))"

definition quarantine_initialize ::
    "preflight_env \<Rightarrow> content_policy \<Rightarrow> string list \<Rightarrow> bool \<Rightarrow> u32 option \<Rightarrow> scan_root list \<Rightarrow> quarantine_manager \<Rightarrow>
     bool \<times> quarantine_manager" where
  "quarantine_initialize env policy publisher_lines created objects_volume roots m =
     (let m = m\<lparr>qm_policy := policy, qm_publishers := load_trusted_publishers publisher_lines\<rparr>
      in if \<not> created then (False, m)
         else case objects_volume of
                None \<Rightarrow> (False, m)
              | Some volume \<Rightarrow>
                  (True, m\<lparr>qm_volume := volume,
                     qm_processed := snd (fold (\<lambda>root. if sr_exists root
                       then baseline_entries env policy (sr_downloads root) (sr_entries root) else id)
                       roots (0, qm_processed m))\<rparr>))"

section \<open>Files the driver reports\<close>

definition win32_path :: "wide \<Rightarrow> wide" where
  "win32_path path =
     (let dos = wide_text (win ''/??/''); device = wide_text (win ''/Device/'') in
      if take (length dos) path = dos then wide_text (win ''//?/'') @ drop (length dos) path
      else if take (length device) path = device then wide_text (win ''//?/GLOBALROOT'') @ path
      else path)"

record pending_view =
  nv_regular :: bool
  nv_size :: "u64 option"
  nv_modified :: "int option"

definition classify_pending ::
    "preflight_env \<Rightarrow> content_policy \<Rightarrow> wide \<Rightarrow> u64 \<Rightarrow> u32 \<Rightarrow> pending_view \<Rightarrow> file_view \<Rightarrow> quarantine_manager \<Rightarrow>
     u32 \<times> quarantine_manager" where
  "classify_pending env policy normalized_path file_id volume_id nv v m =
     (let m = m\<lparr>qm_policy := policy\<rparr>; source = win32_path normalized_path in
      if normalized_path = [] \<or> file_id = 0 \<or> volume_id = 0 \<or> \<not> nv_regular nv then (file_pending, m)
      else case (nv_size nv, nv_modified nv) of
             (Some n, Some modified) \<Rightarrow>
               let m = classify env source n modified file_id volume_id v m
               in (case qm_states m source of
                     None \<Rightarrow> file_pending
                   | Some PS_analyzed_clean \<Rightarrow> file_clean
                   | Some PS_quarantined \<Rightarrow> file_quarantined
                   | Some PS_release_pending \<Rightarrow> file_quarantined
                   | Some _ \<Rightarrow> file_pending, m)
           | _ \<Rightarrow> (file_pending, m))"

section \<open>Restoring an object\<close>

text \<open>
  What Windows answers to \<open>quarantine-restore\<close>; an identity is a volume, an index and a number
  of links. The objects and the driver are the ones of the running broker.
\<close>

record restore_view =
  rt_parent_created :: bool
  rt_destination_exists :: bool
  rt_source :: "(u32 \<times> u64 \<times> u32) option"
  rt_parent_volume :: "u32 option"
  rt_moved :: bool
  rt_destination :: "(u32 \<times> u64 \<times> u32) option"
  rt_moved_back :: bool
  rt_committed_logged :: bool
  rt_rolled_back_logged :: bool
  rt_device :: "(process \<times> u64) option"
  rt_now :: u64

definition is_hex :: "wchar \<Rightarrow> bool" where
  "is_hex c \<longleftrightarrow> 48 \<le> c \<and> c \<le> 57 \<or> 65 \<le> c \<and> c \<le> 70 \<or> 97 \<le> c \<and> c \<le> 102"

definition restore_arguments_ok :: "wide \<Rightarrow> wide \<Rightarrow> bool" where
  "restore_arguments_ok identifier reason \<longleftrightarrow>
     length identifier = 64 \<and> list_all is_hex identifier \<and> 3 \<le> length reason \<and> length reason \<le> 256 \<and>
     0x0D \<notin> set reason \<and> 0x0A \<notin> set reason"

text \<open>File names do not depend on the case of letters.\<close>

definition object_named :: "wide \<Rightarrow> string" where
  "object_named identifier = map (\<lambda>c. tolower (char_of (unat c))) identifier"

definition restore_record :: "wide \<Rightarrow> wide \<Rightarrow> wide \<Rightarrow> string \<Rightarrow> string" where
  "restore_record identifier destination reason st =
     ''{'' @ json_text ''id'' (json_escape identifier) @ '','' @ json_text ''destination'' (json_escape destination) @ '','' @
     json_text ''reason'' (json_escape reason) @ '','' @ json_text ''state'' st @ ''}'' @ line_end"

definition submit_admin_file_verdict :: "restore_view \<Rightarrow> u64 \<Rightarrow> u32 \<Rightarrow> u32 \<Rightarrow> quarantine_manager \<Rightarrow> bool \<times> quarantine_manager" where
  "submit_admin_file_verdict v file_id volume_id verdict m =
     (case rt_device v of
        None \<Rightarrow> (False, m)
      | Some (current, pid) \<Rightarrow>
          let (status, _, driver) = minifilter_control current pid
                (MR_admin_file_verdict (Some \<lparr>fv_version = protocol_version, fv_size = 24, fv_file_id = file_id,
                   fv_volume_id = volume_id, fv_verdict = verdict\<rparr>) (rt_now v)) (qm_driver m)
          in (status = NT_success, m\<lparr>qm_driver := driver\<rparr>))"

definition move_back :: "string \<Rightarrow> restore_view \<Rightarrow> quarantine_manager \<Rightarrow> quarantine_manager" where
  "move_back object v m = (if rt_moved_back v then m\<lparr>qm_objects := insert object (qm_objects m)\<rparr> else m)"

definition restore :: "wide \<Rightarrow> wide \<Rightarrow> wide \<Rightarrow> restore_view \<Rightarrow> quarantine_manager \<Rightarrow> bool \<times> quarantine_manager" where
  "restore identifier destination reason v m =
     (let object = object_named identifier in
      if \<not> restore_arguments_ok identifier reason \<or> \<not> rt_parent_created v \<or> rt_destination_exists v then (False, m)
      else case rt_source v of
             None \<Rightarrow> (False, m)
           | Some (volume, index, links) \<Rightarrow>
               if object \<notin> qm_objects m \<or> links \<noteq> 1 \<or> rt_parent_volume v \<noteq> Some volume \<or> \<not> rt_moved v then (False, m)
               else
                 let m = m\<lparr>qm_objects := qm_objects m - {object}\<rparr>
                 in if rt_destination v \<noteq> Some (volume, index, 1) \<or> \<not> rt_committed_logged v
                    then (False, move_back object v m)
                    else
                      let m = m\<lparr>qm_restored := qm_restored m @ [restore_record identifier destination reason ''committed'']\<rparr>;
                          (submitted, m) = submit_admin_file_verdict v index volume file_clean m
                      in if submitted then (True, m)
                         else
                           let m = move_back object v m
                           in (False, if rt_rolled_back_logged v
                                then m\<lparr>qm_restored := qm_restored m @ [restore_record identifier destination reason ''rolled_back'']\<rparr>
                                else m))"

section \<open>What a verdict does to the driver\<close>

lemma submit_keeps:
  assumes "submit_file_verdict f vol d now m = (ok, m')"
  shows "\<exists>driver. m' = m\<lparr>qm_driver := driver\<rparr>"
proof -
  obtain status out driver where "minifilter_control (qm_process m) (qm_process_id m)
      (MR_set_file_verdict (Some \<lparr>fv_version = protocol_version, fv_size = 24, fv_file_id = f, fv_volume_id = vol,
        fv_verdict = d\<rparr>) now) (qm_driver m) = (status, out, driver)"
    by (rule prod_cases3)
  then show ?thesis using assms by (auto simp: submit_file_verdict_def simp del: minifilter_control.simps)
qed

lemma submit_parts:
  assumes "submit_file_verdict f vol d now m = (ok, m')"
  shows "mf_table (qm_driver m') = (if is_broker_process (qm_process m) (qm_driver m) \<and> d \<le> file_quarantined
      then table_verdict (f, vol, d, now) (mf_table (qm_driver m)) else mf_table (qm_driver m))"
    and "ok \<longleftrightarrow> is_broker_process (qm_process m) (qm_driver m) \<and> d \<le> file_quarantined \<and>
      fst (set_pending_verdict f vol d now (mf_table (qm_driver m)))"
  using assms
  by (auto simp: submit_file_verdict_def verdict_header_ok_def apply_verdict_def table_verdict_def Let_def
      split: prod.splits if_splits)

lemma verdicts_small: "file_clean \<le> file_quarantined" "file_quarantined \<le> file_quarantined" "file_quarantined \<noteq> file_clean"
  "file_pending \<noteq> file_clean" "file_pending \<noteq> file_quarantined"
  by (simp_all add: file_clean_def file_quarantined_def file_pending_def)

text \<open>One verdict touches one file; a clean one that is taken unblocks it, another one blocks it.\<close>

lemma submit_blocked:
  assumes inv: "table_inv (mf_table (qm_driver m))" and "submit_file_verdict f vol d now m = (ok, m')" "d \<le> file_quarantined"
    and "f' \<noteq> 0"
  shows "table_inv (mf_table (qm_driver m'))"
    and "access_blocked f' vol' (mf_table (qm_driver m')) \<longleftrightarrow>
      (if ok \<and> (f', vol') = (f, vol) then d \<noteq> file_clean else access_blocked f' vol' (mf_table (qm_driver m)))"
proof -
  note parts = submit_parts [OF assms(2)]
  obtain ok' t where set: "set_pending_verdict f vol d now (mf_table (qm_driver m)) = (ok', t)"
    by (cases "set_pending_verdict f vol d now (mf_table (qm_driver m))")
  have t: "mf_table (qm_driver m') = (if ok then t else mf_table (qm_driver m))"
    using parts set assms(3) set_pending_refines(3) [OF inv set]
    by (auto simp: table_verdict_def set_pending_verdict_def Let_def split: if_splits)
  note refines = set_pending_refines [OF inv set]
  show inv': "table_inv (mf_table (qm_driver m'))" using t refines(1) inv by simp
  have "ok \<Longrightarrow> ok'" using parts(2) set by simp
  then show "access_blocked f' vol' (mf_table (qm_driver m')) \<longleftrightarrow>
      (if ok \<and> (f', vol') = (f, vol) then d \<noteq> file_clean else access_blocked f' vol' (mf_table (qm_driver m)))"
    using refines(3)
    by (cases ok)
      (auto simp: t blocked_inv [OF refines(1) assms(4)] blocked_inv [OF inv assms(4)] update_verdict_def simp del: not_None_eq)
qed

lemma submit_refused: "submit_file_verdict f vol d now m = (False, m') \<Longrightarrow> m' = m"
  by (auto simp: submit_file_verdict_def apply_verdict_def set_pending_verdict_def Let_def split: prod.splits if_splits)

section \<open>The three outcomes of a classification\<close>

definition cleared_by :: "preflight_env \<Rightarrow> wide \<Rightarrow> u64 \<Rightarrow> file_view \<Rightarrow> quarantine_manager \<Rightarrow> quarantine_manager \<Rightarrow> bool" where
  "cleared_by env source n v m m' \<longleftrightarrow>
     qm_states m' source = Some PS_analyzed_clean \<and> qm_objects m' = qm_objects m \<and> qm_journal m' = qm_journal m \<and>
     (\<exists>m\<^sub>0 m\<^sub>1. submit_file_verdict (vw_index v) (vw_volume v) file_clean (vw_kernel_time v) m\<^sub>0 = (True, m\<^sub>1) \<and>
        qm_driver m\<^sub>0 = qm_driver m \<and> qm_driver m' = qm_driver m\<^sub>1) \<and>
     (if content_analysis_bypassed env source (cp_enabled_categories (qm_policy m)) then qm_provenance m' = qm_provenance m
      else \<exists>d. hash_locked_file v n = Some d \<and>
        \<not> an_quarantine (analyse env (qm_policy m) (qm_publishers m) source n v) \<and>
        qm_provenance m' = qm_provenance m @ [provenance_record (file_identifier n v) source n d
          (analyse env (qm_policy m) (qm_publishers m) source n v)])"

definition quarantined_by :: "preflight_env \<Rightarrow> wide \<Rightarrow> u64 \<Rightarrow> file_view \<Rightarrow> quarantine_manager \<Rightarrow> quarantine_manager \<Rightarrow> bool" where
  "quarantined_by env source n v m m' \<longleftrightarrow>
     (let a = analyse env (qm_policy m) (qm_publishers m) source n v; identifier = file_identifier n v in
      qm_states m' source = Some (if an_release_pending a then PS_release_pending else PS_quarantined) \<and>
      identifier \<notin> qm_objects m \<and> qm_objects m' = insert identifier (qm_objects m) \<and> an_quarantine a \<and>
      (\<exists>ok m\<^sub>0 m\<^sub>1. submit_file_verdict (vw_index v) (vw_volume v) file_quarantined (vw_kernel_time v) m\<^sub>0 = (ok, m\<^sub>1) \<and>
        qm_driver m\<^sub>0 = qm_driver m \<and> qm_driver m' = qm_driver m\<^sub>1) \<and>
      (\<exists>d. hash_locked_file v n = Some d \<and>
        qm_provenance m' = qm_provenance m @ [provenance_record identifier source n d a] \<and>
        (\<exists>more. qm_journal m' = qm_journal m @ with_state (provenance_record identifier source n d a) ''intent'' # more)))"

definition deferred_by :: "wide \<Rightarrow> quarantine_manager \<Rightarrow> quarantine_manager \<Rightarrow> bool" where
  "deferred_by source m m' \<longleftrightarrow>
     qm_states m' source \<in> {Some PS_retry_pending, Some PS_identity_rejected} \<and>
     qm_objects m' = qm_objects m \<and> qm_driver m' = qm_driver m \<and>
     (\<exists>more. qm_provenance m' = qm_provenance m @ more) \<and> (\<exists>more. qm_journal m' = qm_journal m @ more)"

lemma release_outcome:
  assumes "m' = release_file source n modified v m"
  shows "m' = retry_later PS_retry_pending source v m \<or>
    (\<exists>s. submit_file_verdict (vw_index v) (vw_volume v) file_clean (vw_kernel_time v) m = (True, s) \<and>
      qm_driver m' = qm_driver s \<and> qm_states m' source = Some PS_analyzed_clean \<and>
      qm_objects m' = qm_objects m \<and> qm_journal m' = qm_journal m \<and> qm_provenance m' = qm_provenance m)"
proof -
  obtain ok s where s: "submit_file_verdict (vw_index v) (vw_volume v) file_clean (vw_kernel_time v) m = (ok, s)"
    by (cases "submit_file_verdict (vw_index v) (vw_volume v) file_clean (vw_kernel_time v) m")
  show ?thesis
  proof (cases ok)
    case True
    obtain driver where "s = m\<lparr>qm_driver := driver\<rparr>" using submit_keeps [OF s] by blast
    then show ?thesis using assms s True by (simp add: release_file_def)
  next
    case False
    then have "s = m" using submit_refused s by simp
    then show ?thesis using assms s False by (simp add: release_file_def)
  qed
qed

lemma quarantine_outcome:
  assumes "m' = quarantine_file source n d a identifier record' v m"
  shows "deferred_by source m m' \<or>
    (identifier \<notin> qm_objects m \<and> qm_objects m' = insert identifier (qm_objects m) \<and>
     qm_states m' source = Some (if an_release_pending a then PS_release_pending else PS_quarantined) \<and>
     (\<exists>ok m\<^sub>0 m\<^sub>1. submit_file_verdict (vw_index v) (vw_volume v) file_quarantined (vw_kernel_time v) m\<^sub>0 = (ok, m\<^sub>1) \<and>
        qm_driver m\<^sub>0 = qm_driver m \<and> qm_driver m' = qm_driver m\<^sub>1) \<and>
     qm_provenance m' = qm_provenance m \<and>
     (\<exists>more. qm_journal m' = qm_journal m @ with_state record' ''intent'' # more))"
proof -
  define m\<^sub>0 where "m\<^sub>0 = m\<lparr>qm_journal := qm_journal m @ [with_state record' ''intent''],
     qm_objects := insert identifier (qm_objects m),
     qm_states := (qm_states m)(source \<mapsto> (if an_release_pending a then PS_release_pending else PS_quarantined))\<rparr>"
  obtain ok s where s: "submit_file_verdict (vw_index v) (vw_volume v) file_quarantined (vw_kernel_time v) m\<^sub>0 = (ok, s)"
    by (cases "submit_file_verdict (vw_index v) (vw_volume v) file_quarantined (vw_kernel_time v) m\<^sub>0")
  obtain driver where driver: "s = m\<^sub>0\<lparr>qm_driver := driver\<rparr>" using submit_keeps [OF s] by blast
  consider "\<not> vw_intent_logged v"
    | "vw_intent_logged v" "\<not> (identifier \<notin> qm_objects m \<and> (if vw_volume v = qm_volume m then vw_renamed v
        else copy_locked_to_quarantine v n d \<and> vw_disposed v))"
    | "vw_intent_logged v" "identifier \<notin> qm_objects m" "if vw_volume v = qm_volume m then vw_renamed v
        else copy_locked_to_quarantine v n d \<and> vw_disposed v" by blast
  then show ?thesis
  proof cases
    case 1
    then show ?thesis using assms by (simp add: quarantine_file_def deferred_by_def retry_later_def)
  next
    case 2
    then have "m' = retry_later PS_retry_pending source v (m\<lparr>qm_journal := qm_journal m @ [with_state record' ''intent'']\<rparr>)"
      using assms unfolding quarantine_file_def Let_def by simp
    then show ?thesis by (simp add: deferred_by_def retry_later_def)
  next
    case 3
    then have "m' = (let m = s\<lparr>qm_retry := (qm_retry s)(source := None)\<rparr> in
        if vw_committed_logged v then m\<lparr>qm_journal := qm_journal m @ [with_state record' ''committed'']\<rparr> else m)"
      using assms s by (simp add: quarantine_file_def Let_def m\<^sub>0_def)
    then show ?thesis using 3 s by (auto simp: Let_def driver m\<^sub>0_def intro!: exI)
  qed
qed

text \<open>A move that is journaled and succeeds puts the object there.\<close>

lemma quarantine_moves:
  assumes "vw_intent_logged v" "identifier \<notin> qm_objects m"
    "if vw_volume v = qm_volume m then vw_renamed v else copy_locked_to_quarantine v n d \<and> vw_disposed v"
  shows "identifier \<in> qm_objects (quarantine_file source n d a identifier record' v m)"
proof -
  define m\<^sub>0 where "m\<^sub>0 = m\<lparr>qm_journal := qm_journal m @ [with_state record' ''intent''],
     qm_objects := insert identifier (qm_objects m),
     qm_states := (qm_states m)(source \<mapsto> (if an_release_pending a then PS_release_pending else PS_quarantined))\<rparr>"
  obtain ok s where s: "submit_file_verdict (vw_index v) (vw_volume v) file_quarantined (vw_kernel_time v) m\<^sub>0 = (ok, s)"
    by (cases "submit_file_verdict (vw_index v) (vw_volume v) file_quarantined (vw_kernel_time v) m\<^sub>0")
  obtain driver where "s = m\<^sub>0\<lparr>qm_driver := driver\<rparr>" using submit_keeps [OF s] by blast
  then show ?thesis using assms s by (simp add: quarantine_file_def Let_def m\<^sub>0_def)
qed

lemma classify_outcome:
  assumes "m' = classify env source n modified file_id volume_id v m"
  shows "deferred_by source m m' \<or>
    vw_opened v \<and> identity_safe n modified file_id volume_id v \<and> cleared_by env source n v m m' \<or>
    vw_opened v \<and> identity_safe n modified file_id volume_id v \<and>
      \<not> content_analysis_bypassed env source (cp_enabled_categories (qm_policy m)) \<and> quarantined_by env source n v m m'"
proof (cases "vw_opened v \<and> identity_safe n modified file_id volume_id v")
  case False
  then have "\<exists>st. (st = PS_retry_pending \<or> st = PS_identity_rejected) \<and> m' = retry_later st source v m"
    using assms by (auto simp: classify_def)
  then show ?thesis by (auto simp: deferred_by_def retry_later_def)
next
  case safe: True
  let ?a = "analyse env (qm_policy m) (qm_publishers m) source n v"
  show ?thesis
  proof (cases "content_analysis_bypassed env source (cp_enabled_categories (qm_policy m))")
    case True
    then have "m' = release_file source n modified v m" using assms safe by (simp add: classify_def)
    from release_outcome [OF this] show ?thesis
      using safe True by (auto simp: deferred_by_def retry_later_def cleared_by_def)
  next
    case looked: False
    show ?thesis
    proof (cases "hash_locked_file v n")
      case None
      then have "m' = retry_later PS_retry_pending source v m" using assms safe looked by (simp add: classify_def)
      then show ?thesis by (auto simp: deferred_by_def retry_later_def)
    next
      case (Some d)
      define record' where "record' = provenance_record (file_identifier n v) source n d ?a"
      define m\<^sub>0 where "m\<^sub>0 = m\<lparr>qm_provenance := qm_provenance m @ [record']\<rparr>"
      have m': "m' = (if \<not> vw_provenance_logged v then retry_later PS_retry_pending source v m
          else if \<not> an_quarantine ?a then release_file source n modified v m\<^sub>0
          else quarantine_file source n d ?a (file_identifier n v) record' v m\<^sub>0)"
        using assms safe looked Some by (simp add: classify_def Let_def record'_def m\<^sub>0_def)
      consider "\<not> vw_provenance_logged v" | "vw_provenance_logged v" "\<not> an_quarantine ?a" | "vw_provenance_logged v" "an_quarantine ?a"
        by blast
      then show ?thesis
      proof cases
        case 1
        then show ?thesis using m' by (simp add: deferred_by_def retry_later_def)
      next
        case 2
        then have "m' = release_file source n modified v m\<^sub>0" using m' by simp
        from release_outcome [OF this] show ?thesis
        proof
          assume "m' = retry_later PS_retry_pending source v m\<^sub>0"
          then show ?thesis by (simp add: deferred_by_def retry_later_def m\<^sub>0_def)
        next
          assume "\<exists>s. submit_file_verdict (vw_index v) (vw_volume v) file_clean (vw_kernel_time v) m\<^sub>0 = (True, s) \<and>
            qm_driver m' = qm_driver s \<and> qm_states m' source = Some PS_analyzed_clean \<and>
            qm_objects m' = qm_objects m\<^sub>0 \<and> qm_journal m' = qm_journal m\<^sub>0 \<and> qm_provenance m' = qm_provenance m\<^sub>0"
          moreover have "qm_driver m\<^sub>0 = qm_driver m" by (simp add: m\<^sub>0_def)
          ultimately have "cleared_by env source n v m m'"
            unfolding cleared_by_def using looked Some 2(2) by (fastforce simp: m\<^sub>0_def record'_def)
          then show ?thesis using safe by blast
        qed
      next
        case 3
        then have "m' = quarantine_file source n d ?a (file_identifier n v) record' v m\<^sub>0" using m' by simp
        from quarantine_outcome [OF this] show ?thesis
          using safe looked Some 3
          by (auto simp: deferred_by_def quarantined_by_def m\<^sub>0_def record'_def Let_def)
      qed
    qed
  qed
qed

section \<open>What makes a file readable again\<close>

text \<open>The scanner's processes run \<open>scan_handle\<close> over the handle they inherit, when they run at all.\<close>

definition runs_scanner :: "preflight_env \<Rightarrow> scan_api \<Rightarrow> file_view \<Rightarrow> u64 \<Rightarrow> wide \<Rightarrow> bool" where
  "runs_scanner env api v n source \<longleftrightarrow>
     (\<forall>launch \<in> {sv_first (vw_scan v), sv_second (vw_scan v)}.
        case sl_exit_code launch of
          None \<Rightarrow> True
        | Some code \<Rightarrow> code = kDllInitFailed \<or>
            (\<exists>h. scan_handle env api (Some h) (Some n) (env_filename env source) (vw_reader v) = Some code))"

lemma exit_clean: "exit_verdict code = DV_clean \<longleftrightarrow> code = 0"
  by (simp add: exit_verdict_def)

lemma clean_scan_code:
  assumes "scan_with_defender s n = DV_clean"
  shows "\<exists>launch \<in> {sv_first s, sv_second s}. sl_exit_code launch = Some 0"
  using assms by (auto simp: scan_with_defender_def exit_clean Let_def split: if_splits option.splits)

lemma clean_scan_passes:
  assumes "scan_with_defender (vw_scan v) n = DV_clean" "runs_scanner env api v n source" "reads (vw_reader v) stored"
  shows "unat n \<le> length stored \<and> passes_inspection env api (take (unat n) stored) (env_filename env source)"
proof -
  obtain launch where launch: "launch \<in> {sv_first (vw_scan v), sv_second (vw_scan v)}" "sl_exit_code launch = Some 0"
    using clean_scan_code [OF assms(1)] by blast
  then obtain h where "scan_handle env api (Some h) (Some n) (env_filename env source) (vw_reader v) = Some 0"
    using assms(2) unfolding runs_scanner_def by (force simp: kDllInitFailed_def)
  from clean_exit_inspected [OF assms(3) this] show ?thesis by auto
qed

lemma not_quarantined:
  assumes "\<not> an_quarantine (analyse env p publishers source n v)" "\<not> content_analysis_bypassed env source (cp_enabled_categories p)"
  shows "cp_release_required p = 0"
    "executable_extension env source (cp_enabled_categories p) \<Longrightarrow> vw_signature_valid v \<and> vw_thumbprint v \<in> publishers"
    "scan_with_defender (vw_scan v) n = DV_clean \<or> cp_fail_closed p = 0 \<and> scan_with_defender (vw_scan v) n = DV_unavailable"
  using assms
  by (auto simp: analyse_def Let_def content_analysis_bypassed_def parser_risk_extension_def inspect_signature_def no_signature_def
      split: if_splits) (cases "scan_with_defender (vw_scan v) n"; simp)+

lemma hash_locked_content:
  assumes "hash_locked_file v n = Some d" "reads (vw_reader v) stored"
  shows "d = sha256 (take (unat n) stored)"
proof -
  obtain content where "read_locked (vw_reader v) (unat n) [] = Some content" "d = sha256 content"
    using assms(1) by (auto simp: hash_locked_file_def split: if_splits)
  then show ?thesis using read_locked_content [OF assms(2) _ Nil_prefix, of "unat n" content] by simp
qed

text \<open>
  The broker makes a blocked file readable again only after it has been looked at. If the file
  driver, in whatever state its calls have brought it to, blocks a file and does not block it any more once
  the broker has classified one, then it is the very file that the broker held open, with the
  size, time and identity it was announced with, a single link, no reparse point and no
  hidden stream; and either its name is exempt from analysis (an unfinished download or a
  category the policy has switched off), or the policy asks for no release by the user, an
  executable has a valid signature of a pinned publisher, the digest of its content has been
  logged, and, unless the policy tolerates that the scanner is unavailable, the content
  passed the inspection of the isolated scanner.
\<close>

theorem broker_clears_only_inspected:
  assumes "qm_driver m = fold (minifilter_step k) calls minifilter_start"
    and "f \<noteq> 0" and "access_blocked f vol (mf_table (qm_driver m))"
    and "m' = classify env source n modified file_id volume_id v m"
    and "\<not> access_blocked f vol (mf_table (qm_driver m'))"
    and "reads (vw_reader v) stored" and "runs_scanner env api v n source"
  shows "(f, vol) = (vw_index v, vw_volume v) \<and> identity_safe n modified file_id volume_id v \<and>
    (if content_analysis_bypassed env source (cp_enabled_categories (qm_policy m)) then True
     else cp_release_required (qm_policy m) = 0 \<and>
       (if executable_extension env source (cp_enabled_categories (qm_policy m))
        then vw_signature_valid v \<and> vw_thumbprint v \<in> qm_publishers m else True) \<and>
       (\<exists>a. qm_provenance m' = qm_provenance m @
          [provenance_record (file_identifier n v) source n (sha256 (take (unat n) stored)) a]) \<and>
       (if cp_fail_closed (qm_policy m) = 0 \<and> scan_with_defender (vw_scan v) n = DV_unavailable then True
        else unat n \<le> length stored \<and> passes_inspection env api (take (unat n) stored) (env_filename env source)))"
proof -
  have inv: "table_inv (mf_table (qm_driver m))"
    unfolding assms(1) by (rule minifilter_machine.run_inv) (simp add: minifilter_start_def table_start)
  have changed: "ok \<and> (f, vol) = (vw_index v, vw_volume v) \<and> d = file_clean"
    if "submit_file_verdict (vw_index v) (vw_volume v) d now m\<^sub>0 = (ok, m\<^sub>1)" "d \<le> file_quarantined"
      "qm_driver m\<^sub>0 = qm_driver m" "qm_driver m' = qm_driver m\<^sub>1" for d now m\<^sub>0 m\<^sub>1 ok
    using submit_blocked(2) [OF _ that(1,2) assms(2), of vol] inv assms(3,5) that(3,4) by (auto split: if_splits)
  have "\<not> deferred_by source m m'" using assms(3,5) by (auto simp: deferred_by_def)
  moreover have "\<not> quarantined_by env source n v m m'"
    using changed verdicts_small unfolding quarantined_by_def Let_def by metis
  ultimately have out: "identity_safe n modified file_id volume_id v" "cleared_by env source n v m m'"
    using classify_outcome [OF assms(4)] by blast+
  then have same: "(f, vol) = (vw_index v, vw_volume v)"
    using changed verdicts_small(1) unfolding cleared_by_def by blast
  show ?thesis
  proof (cases "content_analysis_bypassed env source (cp_enabled_categories (qm_policy m))")
    case True
    then show ?thesis using out(1) same by simp
  next
    case False
    then obtain d where d: "hash_locked_file v n = Some d"
      "\<not> an_quarantine (analyse env (qm_policy m) (qm_publishers m) source n v)"
      "qm_provenance m' = qm_provenance m @ [provenance_record (file_identifier n v) source n d
        (analyse env (qm_policy m) (qm_publishers m) source n v)]"
      using out(2) unfolding cleared_by_def by auto
    note clean = not_quarantined [OF d(2) False]
    show ?thesis
      using False out(1) same clean d(3) hash_locked_content [OF d(1) assms(6)] clean_scan_passes [OF _ assms(7,6)] by auto
  qed
qed

definition sample_launch :: scanner_launch where
  "sample_launch = \<lparr>sl_launched = True, sl_registered = True, sl_resumed = True, sl_exit_code = Some 0\<rparr>"

definition sample_view :: file_view where
  "sample_view = \<lparr>vw_opened = True, vw_now = 100, vw_kernel_time = 2, vw_basic_info = True, vw_reparse_point = Some False,
     vw_streams = Inl [wide_of ''::$DATA''], vw_size = 7, vw_links = 1, vw_volume = 22, vw_index = 11, vw_write_time = 5,
     vw_modified = Some 5, vw_reader = reader_of sample_gif, vw_hashing = True, vw_signature_valid = False, vw_thumbprint = [],
     vw_scan = \<lparr>sv_path_known = True, sv_scanner_exists = True, sv_duplicated = True, sv_first = sample_launch,
       sv_duplicated_again = False, sv_second = sample_launch\<rparr>,
     vw_provenance_logged = True, vw_intent_logged = True, vw_committed_logged = True, vw_renamed = True, vw_copied = False,
     vw_disposed = False\<rparr>"

text \<open>The driver guards execution, the broker is process 4, and file 11 of volume 22 has been written.\<close>

definition sample_calls :: "minifilter_call list" where
  "sample_calls = [MC_control 4 4 (MR_set_policy (Some guarding_policy)),
     MC_control 4 4 (MR_register_broker (Some \<lparr>rg_version = protocol_version, rg_size = sizeof_registration, rg_process_id = 4\<rparr>)),
     MC_write sample_access]"

definition sample_manager :: quarantine_manager where
  "sample_manager = \<lparr>qm_policy = default_content_policy\<lparr>cp_release_required := 0\<rparr>, qm_publishers = {}, qm_volume = 1,
     qm_stable = Map.empty, qm_processed = Map.empty, qm_states = Map.empty, qm_retry = Map.empty, qm_objects = {},
     qm_provenance = [], qm_journal = [], qm_restored = [],
     qm_driver = fold (minifilter_step sample_kernel) sample_calls minifilter_start, qm_process = 4, qm_process_id = 4\<rparr>"

lemma sample_blocked:
  "access_blocked 11 22 (mf_table (qm_driver sample_manager))" "table_inv (mf_table (qm_driver sample_manager))"
  "mf_broker (qm_driver sample_manager) = Some 4"
proof -
  define s where "s = minifilter_step sample_kernel (sample_calls ! 1) guarded_start"
  have s: "mf_table s = mf_table guarded_start" "mf_broker s = Some 4" "mf_policy s = mf_policy guarded_start"
    by (simp_all add: s_def sample_calls_def registration_ok_def)
  have driver: "qm_driver sample_manager = snd (pre_write sample_kernel sample_access s)"
    by (simp add: sample_manager_def sample_calls_def guarded_start_def s_def)
  have fresh: "mf_table guarded_start = replicate pending_capacity free_slot"
    by (simp add: guarded_start_def minifilter_start_def guarding_policy_def file_policy_ok_def)
  show inv: "table_inv (mf_table (qm_driver sample_manager))"
    using table_inv_step [of s sample_kernel "MC_write sample_access"] table_start(1) by (simp add: driver s fresh)
  have guards: "guards_execution s" using guarded_start_guards by (simp add: guards_execution_def s)
  have "fst (pre_write sample_kernel sample_access s) = FP_pass"
    using sample_write_passes unfolding pre_write_def mark_pending_def s by (auto simp: Let_def split: option.splits prod.splits)
  then have "verdict_of (mf_table (qm_driver sample_manager)) (11, 22) \<noteq> None"
    using written_is_pending [OF _ guards sample_watched] table_start(1) by (simp add: driver s fresh prod_eq_iff)
  then show "access_blocked 11 22 (mf_table (qm_driver sample_manager))" using blocked_inv [OF inv] by simp
  show "mf_broker (qm_driver sample_manager) = Some 4"
    by (auto simp: driver s pre_write_def mark_pending_def Let_def split: option.split prod.split)
qed

lemma sample_kind:
  "\<not> content_analysis_bypassed sample_env (wide_of ''a.gif'') kContentAll"
  "\<not> executable_extension sample_env (wide_of ''a.gif'') kContentAll"
  by code_simp+

lemma sample_analysis: "\<not> an_quarantine (analyse sample_env (qm_policy sample_manager) publishers (wide_of ''a.gif'') 7 sample_view)"
proof -
  have "scan_with_defender (vw_scan sample_view) 7 = DV_clean"
    by (simp add: scan_with_defender_def sample_view_def sample_launch_def kMaximumClassifiedFileSize_def kDllInitFailed_def exit_verdict_def)
  then show ?thesis using sample_kind(2) by (simp add: analyse_def Let_def sample_manager_def default_content_policy_def)
qed

lemma sample_submit:
  assumes "submit_file_verdict 11 22 file_clean now m = (ok, m')" "qm_driver m = qm_driver sample_manager" "qm_process m = 4"
  shows "ok \<and> \<not> access_blocked 11 22 (mf_table (qm_driver m'))"
proof -
  have inv: "table_inv (mf_table (qm_driver m))" and known: "verdict_of (mf_table (qm_driver m)) (11, 22) \<noteq> None"
    using sample_blocked(1,2) blocked_inv [OF sample_blocked(2), of 11 22] by (simp_all add: assms(2))
  obtain ok' t where set: "set_pending_verdict 11 22 file_clean now (mf_table (qm_driver m)) = (ok', t)"
    by (cases "set_pending_verdict 11 22 file_clean now (mf_table (qm_driver m))")
  have ok' using set_pending_refines(2) [OF inv set] known by simp
  then have ok: ok
    using submit_parts(2) [OF assms(1)] set verdicts_small(1) sample_blocked(3) by (simp add: is_broker_process_def assms(2,3))
  then show ?thesis using submit_blocked(2) [OF inv assms(1) verdicts_small(1), of 11 22] by simp
qed

lemma sample_cleared:
  "\<not> access_blocked 11 22 (mf_table (qm_driver (classify sample_env (wide_of ''a.gif'') 7 5 0 0 sample_view sample_manager)))"
proof -
  have safe: "vw_opened sample_view" "identity_safe 7 5 0 0 sample_view" "vw_provenance_logged sample_view"
    by (simp_all add: identity_safe_def sample_view_def safe_stream_set_def is_one_of_def)
  have "length sample_gif = 7" by code_simp
  then have "\<exists>d. hash_locked_file sample_view 7 = Some d"
    using read_locked_small [of 7 sample_gif] by (simp add: hash_locked_file_def sample_view_def read_chunk_def)
  then obtain d where d: "hash_locked_file sample_view 7 = Some d" by blast
  have look: "\<not> content_analysis_bypassed sample_env (wide_of ''a.gif'') (cp_enabled_categories (qm_policy sample_manager))"
    using sample_kind(1) by (simp add: sample_manager_def default_content_policy_def)
  define m where "m = sample_manager\<lparr>qm_provenance := qm_provenance sample_manager @
      [provenance_record (file_identifier 7 sample_view) (wide_of ''a.gif'') 7 d
        (analyse sample_env (qm_policy sample_manager) (qm_publishers sample_manager) (wide_of ''a.gif'') 7 sample_view)]\<rparr>"
  obtain ok s where s: "submit_file_verdict 11 22 file_clean (vw_kernel_time sample_view) m = (ok, s)"
    by (cases "submit_file_verdict 11 22 file_clean (vw_kernel_time sample_view) m")
  have submitted: "ok \<and> \<not> access_blocked 11 22 (mf_table (qm_driver s))"
    by (rule sample_submit [OF s]) (simp_all add: m_def, simp add: sample_manager_def)
  have "classify sample_env (wide_of ''a.gif'') 7 5 0 0 sample_view sample_manager = release_file (wide_of ''a.gif'') 7 5 sample_view m"
    using safe look d sample_analysis by (simp add: classify_def Let_def m_def)
  moreover have "vw_index sample_view = 11" "vw_volume sample_view = 22" by (simp_all add: sample_view_def)
  ultimately show ?thesis using s submitted by (simp add: release_file_def)
qed

lemma sample_scan_runs: "runs_scanner sample_env sample_api sample_view 7 (wide_of ''a.gif'')"
proof -
  have "env_filename sample_env (wide_of ''a.gif'') = wide_of ''a.gif''" by code_simp
  then show ?thesis
    using sample_scan_clean by (auto simp: runs_scanner_def sample_view_def sample_launch_def)
qed

theorem broker_clears_only_inspected_witness:
  "let m' = classify sample_env (wide_of ''a.gif'') 7 5 0 0 sample_view sample_manager in
     access_blocked 11 22 (mf_table (qm_driver sample_manager)) \<and> \<not> access_blocked 11 22 (mf_table (qm_driver m')) \<and>
     identity_safe 7 5 0 0 sample_view \<and>
     passes_inspection sample_env sample_api (take 7 sample_gif) (env_filename sample_env (wide_of ''a.gif''))"
proof -
  have "qm_driver sample_manager = fold (minifilter_step sample_kernel) sample_calls minifilter_start"
    by (simp add: sample_manager_def)
  moreover have "reads (vw_reader sample_view) sample_gif" using reads_reader_of by (simp add: sample_view_def)
  moreover have "cp_fail_closed (qm_policy sample_manager) = 1" "cp_enabled_categories (qm_policy sample_manager) = kContentAll"
    by (simp_all add: sample_manager_def default_content_policy_def)
  ultimately show ?thesis
    using broker_clears_only_inspected [OF _ _ sample_blocked(1) refl sample_cleared _ sample_scan_runs, of sample_kernel sample_calls sample_gif]
      sample_blocked(1) sample_cleared sample_kind(1)
    by (simp add: Let_def)
qed

section \<open>The answer about a pending file\<close>

text \<open>
  An answer is true of the driver and of the quarantine: a file reported clean is the one that was asked about and
  is readable, one reported as quarantined has moved, and nothing has changed for any other answer.
\<close>

lemma pending_answer_truthful:
  assumes "table_inv (mf_table (qm_driver m))"
    and "classify_pending env policy path file_id volume_id nv v m = (verdict, m')"
  shows "verdict = file_clean \<Longrightarrow> vw_index v = file_id \<and> vw_volume v = volume_id \<and>
      \<not> access_blocked file_id volume_id (mf_table (qm_driver m'))"
    and "verdict = file_quarantined \<Longrightarrow> qm_objects m' \<noteq> qm_objects m"
    and "verdict = file_pending \<Longrightarrow> qm_objects m' = qm_objects m \<and> qm_driver m' = qm_driver m"
proof -
  define m\<^sub>0 where "m\<^sub>0 = m\<lparr>qm_policy := policy\<rparr>"
  have m\<^sub>0: "qm_driver m\<^sub>0 = qm_driver m" "qm_objects m\<^sub>0 = qm_objects m" by (simp_all add: m\<^sub>0_def)
  have all: "(verdict = file_clean \<longrightarrow> vw_index v = file_id \<and> vw_volume v = volume_id \<and>
      \<not> access_blocked file_id volume_id (mf_table (qm_driver m'))) \<and>
    (verdict = file_quarantined \<longrightarrow> qm_objects m' \<noteq> qm_objects m) \<and>
    (verdict = file_pending \<longrightarrow> qm_objects m' = qm_objects m \<and> qm_driver m' = qm_driver m)"
  proof (cases "path = [] \<or> file_id = 0 \<or> volume_id = 0 \<or> \<not> nv_regular nv \<or> nv_size nv = None \<or> nv_modified nv = None")
    case True
    then have "verdict = file_pending" "m' = m\<^sub>0"
      using assms(2) by (auto simp: classify_pending_def m\<^sub>0_def Let_def split: if_splits option.splits)
    then show ?thesis using m\<^sub>0 verdicts_small by simp
  next
    case False
    then obtain n modified where view: "nv_size nv = Some n" "nv_modified nv = Some modified" by auto
    have m': "m' = classify env (win32_path path) n modified file_id volume_id v m\<^sub>0"
      and verdict: "verdict = (case qm_states m' (win32_path path) of
          None \<Rightarrow> file_pending | Some PS_analyzed_clean \<Rightarrow> file_clean | Some PS_quarantined \<Rightarrow> file_quarantined
        | Some PS_release_pending \<Rightarrow> file_quarantined | Some _ \<Rightarrow> file_pending)"
      using assms(2) False view by (auto simp: classify_pending_def Let_def m\<^sub>0_def)
    from classify_outcome [OF m'] consider
        "deferred_by (win32_path path) m\<^sub>0 m'"
      | "identity_safe n modified file_id volume_id v" "cleared_by env (win32_path path) n v m\<^sub>0 m'"
      | "quarantined_by env (win32_path path) n v m\<^sub>0 m'" by blast
    then show ?thesis
    proof cases
      case 1
      then have "verdict = file_pending" unfolding verdict deferred_by_def by auto
      then show ?thesis using 1 m\<^sub>0 verdicts_small by (simp add: deferred_by_def)
    next
      case 2
      then have "verdict = file_clean" unfolding verdict cleared_by_def by simp
      moreover obtain a b where sub: "submit_file_verdict (vw_index v) (vw_volume v) file_clean (vw_kernel_time v) a = (True, b)"
        "qm_driver a = qm_driver m" "qm_driver m' = qm_driver b" using 2(2) m\<^sub>0(1) unfolding cleared_by_def by auto
      moreover have same: "vw_index v = file_id" "vw_volume v = volume_id" using 2(1) False by (auto simp: identity_safe_def)
      moreover have "table_inv (mf_table (qm_driver a))" using assms(1) sub(2) by simp
      ultimately show ?thesis
        using submit_blocked(2) [OF _ sub(1) verdicts_small(1), of file_id volume_id] False verdicts_small by auto
    next
      case 3
      then have "verdict = file_quarantined" unfolding verdict quarantined_by_def Let_def by simp
      moreover have "qm_objects m' \<noteq> qm_objects m" using 3 m\<^sub>0(2) unfolding quarantined_by_def Let_def by auto
      ultimately show ?thesis using verdicts_small by simp
    qed
  qed
  then show "verdict = file_clean \<Longrightarrow> vw_index v = file_id \<and> vw_volume v = volume_id \<and>
      \<not> access_blocked file_id volume_id (mf_table (qm_driver m'))"
    and "verdict = file_quarantined \<Longrightarrow> qm_objects m' \<noteq> qm_objects m"
    and "verdict = file_pending \<Longrightarrow> qm_objects m' = qm_objects m \<and> qm_driver m' = qm_driver m" by blast+
qed

section \<open>Every object in quarantine is accounted for\<close>

datatype broker_op =
    BO_scan content_policy "scan_root list" "nat \<Rightarrow> file_view"
  | BO_pending content_policy wide u64 u32 pending_view file_view
  | BO_restore wide wide wide restore_view

fun broker_step :: "preflight_env \<Rightarrow> broker_op \<Rightarrow> quarantine_manager \<Rightarrow> quarantine_manager" where
  "broker_step env (BO_scan policy roots views) m = scan env policy roots views m"
| "broker_step env (BO_pending policy path file_id volume_id nv v) m = snd (classify_pending env policy path file_id volume_id nv v m)"
| "broker_step env (BO_restore identifier destination reason v) m = snd (restore identifier destination reason v m)"

definition objects_logged :: "quarantine_manager \<Rightarrow> bool" where
  "objects_logged m \<longleftrightarrow>
     (\<forall>identifier \<in> qm_objects m. \<exists>source n d a.
        provenance_record identifier source n d a \<in> set (qm_provenance m) \<and>
        with_state (provenance_record identifier source n d a) ''intent'' \<in> set (qm_journal m))"

lemma logged_more:
  assumes "objects_logged m" "qm_objects m' \<subseteq> qm_objects m" "\<exists>more. qm_provenance m' = qm_provenance m @ more"
    "\<exists>more. qm_journal m' = qm_journal m @ more"
  shows "objects_logged m'"
  using assms unfolding objects_logged_def by fastforce

lemma classify_logged:
  assumes "objects_logged m"
  shows "objects_logged (classify env source n modified file_id volume_id v m)"
proof -
  define m' where m': "m' = classify env source n modified file_id volume_id v m"
  from classify_outcome [OF m'] consider "deferred_by source m m'" | "cleared_by env source n v m m'" | "quarantined_by env source n v m m'"
    by blast
  then have "objects_logged m'"
  proof cases
    case 1
    then show ?thesis using logged_more [OF assms, of m'] by (simp add: deferred_by_def)
  next
    case 2
    then show ?thesis using logged_more [OF assms, of m'] by (auto simp: cleared_by_def split: if_splits)
  next
    case 3
    then obtain d more where out: "qm_objects m' = insert (file_identifier n v) (qm_objects m)"
      "qm_provenance m' = qm_provenance m @ [provenance_record (file_identifier n v) source n d (analyse env (qm_policy m) (qm_publishers m) source n v)]"
      "qm_journal m' = qm_journal m @ with_state (provenance_record (file_identifier n v) source n d
         (analyse env (qm_policy m) (qm_publishers m) source n v)) ''intent'' # more"
      unfolding quarantined_by_def Let_def by blast
    show ?thesis
      using assms unfolding objects_logged_def out by fastforce
  qed
  then show ?thesis by (simp add: m')
qed

lemma submit_admin_keeps:
  assumes "submit_admin_file_verdict v f vol d m = (ok, m')"
  shows "\<exists>driver. m' = m\<lparr>qm_driver := driver\<rparr>"
proof (cases "rt_device v")
  case (Some device)
  obtain current pid where device: "device = (current, pid)" by (cases device)
  obtain status out driver where "minifilter_control current pid
      (MR_admin_file_verdict (Some \<lparr>fv_version = protocol_version, fv_size = 24, fv_file_id = f, fv_volume_id = vol,
        fv_verdict = d\<rparr>) (rt_now v)) (qm_driver m) = (status, out, driver)"
    by (rule prod_cases3)
  then show ?thesis using assms Some device by (auto simp: submit_admin_file_verdict_def simp del: minifilter_control.simps)
qed (use assms in \<open>auto simp: submit_admin_file_verdict_def intro: exI [of _ "qm_driver m"]\<close>)

lemma submit_admin_refused: "submit_admin_file_verdict v f vol d m = (False, m') \<Longrightarrow> m' = m"
  by (auto simp: submit_admin_file_verdict_def apply_verdict_def set_pending_verdict_def Let_def
      split: prod.splits if_splits option.splits)

text \<open>What \<open>restore\<close> does to the quarantine, its log and the driver.\<close>

lemma restore_outcome:
  assumes "restore identifier destination reason v m = (ok, m')"
  shows "qm_journal m' = qm_journal m \<and> qm_provenance m' = qm_provenance m \<and>
    (if ok then \<exists>volume index s.
        object_named identifier \<in> qm_objects m \<and> qm_objects m' = qm_objects m - {object_named identifier} \<and>
        rt_source v = Some (volume, index, 1) \<and> rt_destination v = Some (volume, index, 1) \<and>
        qm_restored m' = qm_restored m @ [restore_record identifier destination reason ''committed''] \<and>
        qm_driver s = qm_driver m \<and> submit_admin_file_verdict v index volume file_clean s = (True, m')
     else (qm_objects m' = qm_objects m \<or> \<not> rt_moved_back v \<and> qm_objects m' = qm_objects m - {object_named identifier}) \<and>
       qm_driver m' = qm_driver m)"
proof (cases "restore_arguments_ok identifier reason \<and> rt_parent_created v \<and> \<not> rt_destination_exists v \<and>
    (\<exists>volume index. rt_source v = Some (volume, index, 1) \<and> rt_parent_volume v = Some volume) \<and>
    object_named identifier \<in> qm_objects m \<and> rt_moved v")
  case False
  then have "ok = False \<and> m' = m"
    using assms by (auto simp: restore_def Let_def split: option.splits if_splits)
  then show ?thesis by simp
next
  case True
  then obtain volume index where here: "rt_source v = Some (volume, index, 1)" "rt_parent_volume v = Some volume" by blast
  define m\<^sub>0 where "m\<^sub>0 = m\<lparr>qm_objects := qm_objects m - {object_named identifier}\<rparr>"
  define m\<^sub>1 where "m\<^sub>1 = m\<^sub>0\<lparr>qm_restored := qm_restored m @ [restore_record identifier destination reason ''committed'']\<rparr>"
  obtain sent s where s: "submit_admin_file_verdict v index volume file_clean m\<^sub>1 = (sent, s)"
    by (cases "submit_admin_file_verdict v index volume file_clean m\<^sub>1")
  obtain driver where driver: "s = m\<^sub>1\<lparr>qm_driver := driver\<rparr>" using submit_admin_keeps [OF s] by blast
  have again: "insert (object_named identifier) (qm_objects m - {object_named identifier}) = qm_objects m" using True by blast
  consider "rt_destination v \<noteq> Some (volume, index, 1) \<or> \<not> rt_committed_logged v"
    | "rt_destination v = Some (volume, index, 1)" "sent" "rt_committed_logged v"
    | "rt_destination v = Some (volume, index, 1)" "\<not> sent" "rt_committed_logged v" by blast
  then show ?thesis
  proof cases
    case 1
    then have "ok = False" "m' = move_back (object_named identifier) v m\<^sub>0"
      using assms True here by (auto simp: restore_def Let_def m\<^sub>0_def)
    then show ?thesis using again by (auto simp: move_back_def m\<^sub>0_def)
  next
    case 2
    then have "ok = True" "m' = s" using assms True here s by (simp_all add: restore_def Let_def m\<^sub>0_def m\<^sub>1_def)
    then show ?thesis
      using True here 2 s by (auto simp: driver m\<^sub>0_def m\<^sub>1_def intro!: exI [of _ "m\<^sub>1"])
  next
    case 3
    then have "ok = False" "qm_driver m' = qm_driver s" "qm_journal m' = qm_journal s" "qm_provenance m' = qm_provenance s"
      "qm_objects m' = qm_objects (move_back (object_named identifier) v s)"
      using assms True here s by (auto simp: restore_def Let_def m\<^sub>0_def m\<^sub>1_def move_back_def split: if_splits)
    moreover have "s = m\<^sub>1" using submit_admin_refused s 3(2) by simp
    ultimately show ?thesis using again by (simp add: m\<^sub>0_def m\<^sub>1_def move_back_def)
  qed
qed

lemma scan_logged:
  assumes "objects_logged m"
  shows "objects_logged (scan env policy roots views m)"
proof -
  have all: "objects_logged m \<Longrightarrow>
      objects_logged (fold (\<lambda>(c, i) m. classify env (cd_path c) (cd_size c) (cd_modified c) 0 0 (views i) m) cs m)" for m cs
    by (induction cs arbitrary: m) (auto intro: classify_logged)
  have "objects_logged (m\<lparr>qm_policy := policy, qm_stable := stable\<rparr>)" for stable
    using assms by (simp add: objects_logged_def)
  then show ?thesis by (auto simp: scan_def Let_def intro: all split: prod.split)
qed

lemma pending_logged:
  assumes "objects_logged m"
  shows "objects_logged (snd (classify_pending env policy path file_id volume_id nv v m))"
proof -
  have "objects_logged (m\<lparr>qm_policy := policy\<rparr>)" using assms by (simp add: objects_logged_def)
  then show ?thesis by (auto simp: classify_pending_def Let_def intro: classify_logged split: option.split)
qed

lemma restore_logged:
  assumes "objects_logged m"
  shows "objects_logged (snd (restore identifier destination reason v m))"
proof -
  obtain ok m' where m': "restore identifier destination reason v m = (ok, m')"
    by (cases "restore identifier destination reason v m")
  have "objects_logged m'"
    using restore_outcome [OF m'] by (intro logged_more [OF assms, of m']) (auto split: if_splits)
  then show ?thesis by (simp add: m')
qed

interpretation broker_machine: invariant_machine "broker_step env" objects_logged for env
proof unfold_locales
  fix op m
  assume "objects_logged m"
  then show "objects_logged (broker_step env op m)"
    by (cases op) (auto intro: scan_logged pending_logged restore_logged)
qed

text \<open>
  Whatever sequence of scans, driver requests and restores the broker goes through, every
  object in the quarantine is accounted for: a provenance record that names it, its source,
  size and content digest stands in the provenance log, and the intent to move it stands in
  the journal, next to the same record.
\<close>

theorem quarantine_is_journaled:
  assumes "qm_objects m = {}" and "identifier \<in> qm_objects (fold (broker_step env) ops m)"
  shows "\<exists>source n d a.
    provenance_record identifier source n d a \<in> set (qm_provenance (fold (broker_step env) ops m)) \<and>
    with_state (provenance_record identifier source n d a) ''intent'' \<in> set (qm_journal (fold (broker_step env) ops m))"
proof -
  have "objects_logged m" using assms(1) by (simp add: objects_logged_def)
  then have "objects_logged (fold (broker_step env) ops m)" by (rule broker_machine.run_inv)
  then show ?thesis using assms(2) by (simp add: objects_logged_def)
qed

definition moving_view :: file_view where
  "moving_view = sample_view\<lparr>vw_copied := True, vw_disposed := True\<rparr>"

definition sample_report :: broker_op where
  "sample_report = BO_pending default_content_policy (wide_of ''a.gif'') 11 22
     \<lparr>nv_regular = True, nv_size = Some 7, nv_modified = Some 5\<rparr> moving_view"

lemma sample_report_moves: "file_identifier 7 moving_view \<in> qm_objects (broker_step sample_env sample_report sample_manager)"
proof -
  define m where "m = sample_manager\<lparr>qm_policy := default_content_policy\<rparr>"
  have safe: "vw_opened moving_view" "identity_safe 7 5 11 22 moving_view" "vw_provenance_logged moving_view" "vw_intent_logged moving_view"
    by (simp_all add: identity_safe_def moving_view_def sample_view_def safe_stream_set_def is_one_of_def)
  have look: "\<not> content_analysis_bypassed sample_env (wide_of ''a.gif'') (cp_enabled_categories (qm_policy m))"
    using sample_kind(1) by (simp add: m_def default_content_policy_def)
  have "an_release_pending (analyse sample_env (qm_policy m) publishers (wide_of ''a.gif'') 7 moving_view)" for publishers
    using sample_kind(1)
    by (simp add: m_def default_content_policy_def analyse_def Let_def parser_risk_extension_def content_analysis_bypassed_def)
  then have moved_out: "an_quarantine (analyse sample_env (qm_policy m) publishers (wide_of ''a.gif'') 7 moving_view)" for publishers
    by (simp add: analyse_def Let_def)
  have "length sample_gif = 7" by code_simp
  then have content: "read_locked (vw_reader moving_view) 7 [] = Some sample_gif"
    using read_locked_small [of 7 sample_gif] by (simp add: moving_view_def sample_view_def read_chunk_def)
  then have d: "hash_locked_file moving_view 7 = Some (sha256 sample_gif)"
    by (simp add: hash_locked_file_def moving_view_def sample_view_def)
  have copied: "copy_locked_to_quarantine moving_view 7 (sha256 sample_gif)" "vw_disposed moving_view" "vw_volume moving_view \<noteq> 1"
    using content by (simp_all add: copy_locked_to_quarantine_def moving_view_def sample_view_def)
  define m' where m': "m' = classify sample_env (wide_of ''a.gif'') 7 5 11 22 moving_view m"
  define r where "r = provenance_record (file_identifier 7 moving_view) (wide_of ''a.gif'') 7 (sha256 sample_gif)
    (analyse sample_env (qm_policy m) (qm_publishers m) (wide_of ''a.gif'') 7 moving_view)"
  have "m' = quarantine_file (wide_of ''a.gif'') 7 (sha256 sample_gif)
      (analyse sample_env (qm_policy m) (qm_publishers m) (wide_of ''a.gif'') 7 moving_view) (file_identifier 7 moving_view) r
      moving_view (m\<lparr>qm_provenance := qm_provenance m @ [r]\<rparr>)"
    using safe look d moved_out by (simp add: m' classify_def Let_def r_def)
  then have "file_identifier 7 moving_view \<in> qm_objects m'"
    using copied safe(4) by (auto intro!: quarantine_moves simp: m_def sample_manager_def)
  moreover have "win32_path (wide_of ''a.gif'') = wide_of ''a.gif''" by code_simp
  ultimately show ?thesis by (simp add: sample_report_def classify_pending_def m_def [symmetric] m' wide_of_def Let_def)
qed

theorem quarantine_is_journaled_witness:
  "\<exists>source n d a.
     provenance_record (file_identifier 7 moving_view) source n d a
       \<in> set (qm_provenance (fold (broker_step sample_env) [sample_report] sample_manager)) \<and>
     with_state (provenance_record (file_identifier 7 moving_view) source n d a) ''intent''
       \<in> set (qm_journal (fold (broker_step sample_env) [sample_report] sample_manager))"
proof -
  have "qm_objects sample_manager = {}" by (simp add: sample_manager_def)
  moreover have "file_identifier 7 moving_view \<in> qm_objects (fold (broker_step sample_env) [sample_report] sample_manager)"
    using sample_report_moves by simp
  ultimately show ?thesis by (rule quarantine_is_journaled)
qed

section \<open>Restoring is all or nothing\<close>

lemma admin_parts:
  assumes "submit_admin_file_verdict v f vol file_clean m = (True, m')" "table_inv (mf_table (qm_driver m))" "f' \<noteq> 0"
  shows "access_blocked f' vol' (mf_table (qm_driver m')) \<longleftrightarrow>
    (f', vol') \<noteq> (f, vol) \<and> access_blocked f' vol' (mf_table (qm_driver m))"
proof -
  obtain ok t where set: "set_pending_verdict f vol file_clean (rt_now v) (mf_table (qm_driver m)) = (ok, t)"
    by (cases "set_pending_verdict f vol file_clean (rt_now v) (mf_table (qm_driver m))")
  have t: "mf_table (qm_driver m') = t" ok
    using assms(1) set by (auto simp: submit_admin_file_verdict_def verdict_header_ok_def apply_verdict_def Let_def
        split: option.splits if_splits)
  note refines = set_pending_refines [OF assms(2) set]
  show ?thesis
    using refines(3) t
    by (auto simp: blocked_inv [OF refines(1) assms(3)] blocked_inv [OF assms(2,3)] update_verdict_def simp del: not_None_eq)
qed

text \<open>
  A restore is all or nothing as far as Windows moves files back. When it reports success,
  the object has left the quarantine, the file at the destination is the very object (same
  volume, same index, one link), the restore was logged as committed, and of all files the
  driver has stopped blocking exactly this one. When it reports failure, the driver blocks
  what it blocked before, and the quarantine holds what it held before.
\<close>

theorem restore_all_or_nothing:
  assumes "qm_driver m = fold (minifilter_step k) calls minifilter_start" and "rt_moved_back v"
  shows "case restore identifier destination reason v m of
      (ok, m') \<Rightarrow>
        if ok then
          \<exists>volume index. rt_source v = Some (volume, index, 1) \<and> rt_destination v = Some (volume, index, 1) \<and>
            object_named identifier \<in> qm_objects m \<and> qm_objects m' = qm_objects m - {object_named identifier} \<and>
            last (qm_restored m') = restore_record identifier destination reason ''committed'' \<and>
            (if f = 0 then True else access_blocked f vol (mf_table (qm_driver m')) =
              ((f, vol) \<noteq> (index, volume) \<and> access_blocked f vol (mf_table (qm_driver m))))
        else qm_objects m' = qm_objects m \<and> qm_driver m' = qm_driver m"
proof -
  have inv: "table_inv (mf_table (qm_driver m))"
    unfolding assms(1) by (rule minifilter_machine.run_inv) (simp add: minifilter_start_def table_start)
  obtain ok m' where m': "restore identifier destination reason v m = (ok, m')"
    by (cases "restore identifier destination reason v m")
  note out = restore_outcome [OF m']
  show ?thesis
  proof (cases ok)
    case True
    then obtain volume index s where here: "object_named identifier \<in> qm_objects m"
      "qm_objects m' = qm_objects m - {object_named identifier}" "rt_source v = Some (volume, index, 1)"
      "rt_destination v = Some (volume, index, 1)"
      "qm_restored m' = qm_restored m @ [restore_record identifier destination reason ''committed'']"
      "qm_driver s = qm_driver m" "submit_admin_file_verdict v index volume file_clean s = (True, m')"
      using out by auto
    have "table_inv (mf_table (qm_driver s))" using inv here(6) by simp
    then show ?thesis
      using True here m' admin_parts [OF here(7), of f vol] by auto
  next
    case False
    then show ?thesis using out m' assms(2) by simp
  qed
qed

definition sample_object :: wide where "sample_object = replicate 64 97"

definition restoring_view :: restore_view where
  "restoring_view = \<lparr>rt_parent_created = True, rt_destination_exists = False, rt_source = Some (22, 11, 1),
     rt_parent_volume = Some 22, rt_moved = True, rt_destination = Some (22, 11, 1), rt_moved_back = True,
     rt_committed_logged = True, rt_rolled_back_logged = True, rt_device = Some (9, 9), rt_now = 3\<rparr>"

theorem restore_all_or_nothing_witness:
  "let m = sample_manager\<lparr>qm_objects := {object_named sample_object}\<rparr>;
       (ok, m') = restore sample_object (wide_of ''b.gif'') (wide_of ''benign'') restoring_view m
   in access_blocked 11 22 (mf_table (qm_driver m)) \<and>
      (if ok then qm_objects m' = {} \<and> \<not> access_blocked 11 22 (mf_table (qm_driver m'))
       else qm_objects m' = qm_objects m \<and> qm_driver m' = qm_driver m)"
proof -
  define m where "m = sample_manager\<lparr>qm_objects := {object_named sample_object}\<rparr>"
  have driver: "qm_driver m = fold (minifilter_step sample_kernel) sample_calls minifilter_start" "qm_driver m = qm_driver sample_manager"
    "qm_objects m = {object_named sample_object}"
    by (simp_all add: m_def sample_manager_def)
  have "rt_moved_back restoring_view" "rt_source restoring_view = Some (22, 11, 1)" by (simp_all add: restoring_view_def)
  then show ?thesis
    unfolding m_def [symmetric] Let_def
    using restore_all_or_nothing [OF driver(1), of restoring_view sample_object "wide_of ''b.gif''" "wide_of ''benign''" 11 22]
      sample_blocked(1) by (auto simp: driver(2,3) split: prod.splits if_splits)
qed

section \<open>The content policy survives\<close>

lemma loaded_policy_valid: "content_policy_valid (load_content_policy unprotect content) \<and>
    cp_version (load_content_policy unprotect content) = 4"
proof -
  have fallback: "content_policy_valid default_content_policy" "cp_version default_content_policy = 4"
    by (simp_all add: content_policy_valid_def default_content_policy_def kContentAll_def kContentLegacyAll_def
        kContentExecutionAll_def kContentPrograms_def kContentWindowsScripts_def kContentDeveloperScripts_def
        kContentLaunchers_def kContentUnknown_def)
  have "cp_version p = 4" if "read_content_policy clear = Some p" for clear p
    using that by (auto simp: read_content_policy_def Let_def split: if_splits)
  then show ?thesis
    using fallback by (auto simp: load_content_policy_def split: option.splits)
qed

lemma read_content_policy_bytes: "cp_version p = 4 \<Longrightarrow> read_content_policy (content_policy_bytes p) = Some p"
  by (simp add: read_content_policy_def content_policy_bytes_def le32_at_def Let_def)

text \<open>What an administrator sets is what the broker loads, as long as the encryption is undone.\<close>

lemma content_policy_kept:
  assumes "content_policy_set os categories fail_closed release_required content = (0, content')"
    and "\<And>x y. po_protect os x = Some y \<Longrightarrow> y \<noteq> [] \<and> length y \<le> 4096 \<and> unprotect y = Some x"
  shows "load_content_policy unprotect content' = default_content_policy\<lparr>cp_enabled_categories := the categories,
    cp_fail_closed := the fail_closed, cp_release_required := the release_required\<rparr>"
proof -
  obtain c f r where args: "categories = Some c" "fail_closed = Some f" "release_required = Some r"
    "c AND NOT kContentAll = 0" "f \<le> 1" "r \<le> 1"
    using assms(1) by (auto simp: content_policy_set_def not_less split: if_splits option.splits)
  define p where "p = default_content_policy\<lparr>cp_enabled_categories := c, cp_fail_closed := f, cp_release_required := r\<rparr>"
  have p: "content_policy_valid p" "cp_version p = 4"
    using args by (simp_all add: p_def content_policy_valid_def default_content_policy_def)
  have saved: "save_content_policy os p content = (True, content')"
    using assms(1) args by (auto simp: content_policy_set_def p_def not_less split: if_splits prod.splits)
  then obtain y where "po_protect os (content_policy_bytes p) = Some y" "content' = Some y"
    by (auto simp: save_content_policy_def split: option.splits if_splits)
  then show ?thesis
    using assms(2) [of "content_policy_bytes p" y] p read_content_policy_bytes [OF p(2)]
    by (simp add: load_content_policy_def args p_def not_less)
qed

lemma content_policy_refused:
  "content_policy_set os categories fail_closed release_required content = (code, content') \<Longrightarrow> code \<noteq> 0 \<Longrightarrow> content' = content"
  by (auto simp: content_policy_set_def save_content_policy_def split: if_splits option.splits prod.splits)

section \<open>Files a scan does not reach\<close>

text \<open>A scan that meets more than 20000 entries classifies none of them, whatever they are.\<close>

lemma crowded_scan_classifies_nothing:
  assumes "scan_roots env (m\<lparr>qm_policy := policy\<rparr>) roots
    \<lparr>wk_visited = 0, wk_error = False, wk_stable = qm_stable m, wk_candidates = []\<rparr> = (False, w)"
  shows "scan env policy roots views m = m\<lparr>qm_policy := policy, qm_stable := wk_stable w\<rparr>"
  using assms by (simp add: scan_def Let_def)

text \<open>After one failed query the rest of the root is passed over.\<close>

lemma scan_error_sticks:
  assumes "wk_error w"
  shows "snd (scan_entries env m downloads entries w) = w\<lparr>wk_visited := wk_visited (snd (scan_entries env m downloads entries w))\<rparr>"
  using assms
proof (induction entries arbitrary: w)
  case (Cons entry entries)
  have "scan_visit env m downloads entry (w\<lparr>wk_visited := wk_visited w + 1\<rparr>) = w\<lparr>wk_visited := wk_visited w + 1\<rparr>"
    using Cons.prems by (simp add: scan_visit_def)
  then show ?case using Cons.IH [of "w\<lparr>wk_visited := wk_visited w + 1\<rparr>"] Cons.prems by (auto simp: Let_def)
qed simp

end
