(* ===== verification/AIS_BrokerLoop.thy ===== *)
theory AIS_BrokerLoop
  imports AIS_Broker AIS_Behaviour AIS_Guard
begin

text \<open>
  The service loop of the broker, \<open>tools/ai_shield_broker/main.cpp\<close>: it drains the event queues
  of the three drivers, turns each event into a sealed sensor event, writes the accepted ones
  to audit files, watches for ransomware, and serves the analysis requests of the file driver.
  Whether a file is written is given with each operation; what the drivers queue is an
  argument, as they run beside the broker.
\<close>

section \<open>The audit writer\<close>

text \<open>The directory is a map from file names to contents.\<close>

record audit_writer =
  aw_chain :: chain
  aw_count :: nat
  aw_index :: u64
  aw_files :: "string \<rightharpoonup> bytes"

definition kRecordsPerSegment :: nat where "kRecordsPerSegment = 4096"

definition audit_name :: "u64 \<Rightarrow> string" where
  "audit_name index = ''kernel-audit-'' @ decimal (unat index) @ ''.bin''"

definition is_audit_name :: "string \<Rightarrow> bool" where
  "is_audit_name name \<longleftrightarrow> take 13 name = ''kernel-audit-'' \<and> drop (length name - 4) name = ''.bin''"

text \<open>\<open>names\<close> are the entries of the directory; the index starts at the number of audit files.\<close>

definition writer_initialize :: "string list \<Rightarrow> audit_writer \<Rightarrow> audit_writer" where
  "writer_initialize names w = w\<lparr>aw_index := aw_index w + of_nat (length (filter is_audit_name names))\<rparr>"

definition audit_record_of :: "nat \<Rightarrow> sensor_event \<Rightarrow> audit_record" where
  "audit_record_of n event =
     \<lparr>ar_sequence = of_nat (n + 1), ar_monotonic_ns = mh_monotonic_ns (se_header event),
      ar_reason_mask = (if se_event_flags event AND flag_blocked \<noteq> 0 then se_decision event else 0),
      ar_evidence_hash = se_evidence_hash event,
      ar_correlation = \<lparr>cx_flow_id = mh_flow_id (se_header event), cx_object_id = mh_object_id (se_header event),
        cx_file_id = se_file_id event, cx_volume_id = se_volume_id event, cx_provenance_id = se_provenance_id event,
        cx_process_id = se_process_id event, cx_parent_process_id = se_parent_process_id event,
        cx_policy_version = mh_policy_version (se_header event), cx_model_version = mh_model_version (se_header event)\<rparr>\<rparr>"

definition writer_flush :: "bool \<Rightarrow> audit_writer \<Rightarrow> bool \<times> audit_writer" where
  "writer_flush written w =
     (if aw_count w = 0 then (True, w)
      else if \<not> written then (False, w)
      else (True, w\<lparr>aw_files := (aw_files w)(audit_name (aw_index w) \<mapsto> serialize (aw_chain w)),
             aw_index := aw_index w + 1, aw_count := 0, aw_chain := []\<rparr>))"

definition writer_append :: "bool \<Rightarrow> sensor_event \<Rightarrow> audit_writer \<Rightarrow> bool \<times> audit_writer" where
  "writer_append written event w =
     (let (result, chain) = chain_append (audit_record_of (aw_count w) event) (aw_chain w)
      in if \<not> res_ok result then (False, w\<lparr>aw_chain := chain\<rparr>)
         else
           let w = w\<lparr>aw_chain := chain, aw_count := aw_count w + 1\<rparr>
           in if aw_count w < kRecordsPerSegment then (True, w) else writer_flush written w)"

section \<open>Draining the drivers\<close>

text \<open>What the loop keeps: for each sensor the last sequence number, and the counters.\<close>

record pump =
  bp_last :: "u32 \<Rightarrow> u64"
  bp_writer :: audit_writer
  bp_detector :: rw_detector
  bp_signaled :: "u64 set"
  bp_signals :: "string list"
  bp_accepted :: u64
  bp_rejected :: u64

record pump_keys =
  pk_policy_version :: u64
  pk_model_version :: u64
  pk_channel_key :: digest

definition valid_event :: "u32 \<Rightarrow> driver_event \<Rightarrow> nat \<Rightarrow> bool" where
  "valid_event sensor event n \<longleftrightarrow>
     n = 72 \<and> dv_version event = protocol_version \<and> dv_size event = sizeof_event \<and> dv_sensor event = sensor \<and>
     event_connect \<le> dv_kind event \<and> dv_kind event \<le> event_handle_filter \<and> dv_sequence event \<noteq> 0"

definition signal_record :: "driver_event \<Rightarrow> sensor_event \<Rightarrow> rw_verdict \<Rightarrow> string" where
  "signal_record event translated verdict =
     ''{'' @ json_text ''schema'' ''AIShieldRansomwareKernelSignal/1'' @ '','' @
     quote @ ''process_id'' @ quote @ '':'' @ decimal (unat (dv_process_id event)) @ '','' @
     quote @ ''parent_process_id'' @ quote @ '':'' @ decimal (unat (se_parent_process_id translated)) @ '','' @
     quote @ ''score'' @ quote @ '':'' @ decimal (unat (rv_score verdict)) @ '','' @
     quote @ ''reason_mask'' @ quote @ '':'' @ decimal (unat (rv_reason_mask verdict)) @ '','' @
     quote @ ''containment_recommended'' @ quote @ '':'' @ (if rv_contain_process_tree verdict then ''true'' else ''false'') @
     ''}'' @ line_end"

text \<open>\<open>signal_written\<close> is the answer of \<open>append_durable\<close>.\<close>

definition watch_ransomware :: "bool \<Rightarrow> driver_event \<Rightarrow> sensor_event \<Rightarrow> pump \<Rightarrow> pump" where
  "watch_ransomware signal_written event translated s =
     (if dv_sensor event = sensor_minifilter \<and> (dv_kind event = event_file_write \<or> dv_kind event = event_file_rename) \<and>
         dv_process_id event \<notin> bp_signaled s
      then
        let (verdict, detector) = rw_observe
              \<lparr>ro_process_id = dv_process_id event, ro_parent_process_id = se_parent_process_id translated,
               ro_object_id = se_file_id translated, ro_monotonic_ns = mh_monotonic_ns (se_header translated),
               ro_kind = (if dv_kind event = event_file_rename then MU_rename else MU_write),
               ro_entropy_before_milli = 0, ro_entropy_after_milli = 0, ro_trusted_process = False\<rparr> (bp_detector s);
            s = s\<lparr>bp_detector := detector\<rparr>
        in if rv_create_incident verdict \<and> signal_written
           then s\<lparr>bp_signals := bp_signals s @ [signal_record event translated verdict],
                  bp_signaled := insert (dv_process_id event) (bp_signaled s)\<rparr>
           else s
      else s)"

text \<open>One event that a driver gave; the result says whether the loop goes on.\<close>

definition pump_event ::
    "pump_keys \<Rightarrow> u32 \<Rightarrow> driver_event \<Rightarrow> nat \<Rightarrow> bool \<Rightarrow> bool \<Rightarrow> pump \<Rightarrow> bool \<times> pump" where
  "pump_event keys sensor event n written signal_written s =
     (let last = bp_last s sensor; rejected = s\<lparr>bp_rejected := bp_rejected s + 1\<rparr> in
      if \<not> valid_event sensor event n \<or> (last \<noteq> 0 \<and> dv_sequence event \<noteq> last + 1)
      then (True, if dv_sequence event > last then rejected\<lparr>bp_last := (bp_last s)(sensor := dv_sequence event)\<rparr> else rejected)
      else
        let s = s\<lparr>bp_last := (bp_last s)(sensor := dv_sequence event)\<rparr> in
        case to_sensor_event_v2 event (pk_policy_version keys) (pk_model_version keys) (pk_channel_key keys) of
          Inl _ \<Rightarrow> (True, s\<lparr>bp_rejected := bp_rejected s + 1\<rparr>)
        | Inr translated \<Rightarrow>
            if abi2_validate translated \<lparr>a2_expected_sequence = dv_sequence event,
                 a2_now_monotonic_ns = mh_monotonic_ns (se_header translated), a2_maximum_clock_skew_ns = 0,
                 a2_channel_key = pk_channel_key keys\<rparr> \<noteq> ok_unit
            then (True, s\<lparr>bp_rejected := bp_rejected s + 1\<rparr>)
            else
              let (appended, writer) = writer_append written translated (bp_writer s);
                  s = s\<lparr>bp_writer := writer\<rparr>
              in if \<not> appended then (False, s)
                 else
                   let s = watch_ransomware signal_written event translated s
                   in (True, s\<lparr>bp_accepted := bp_accepted s + 1\<rparr>))"

text \<open>The loop with its timed flushes.\<close>

datatype pump_op =
    PO_event u32 driver_event bool bool
  | PO_flush bool

fun pump_step :: "pump_keys \<Rightarrow> pump_op \<Rightarrow> pump \<Rightarrow> bool \<times> pump" where
  "pump_step keys (PO_event sensor event written signal_written) s = pump_event keys sensor event 72 written signal_written s"
| "pump_step keys (PO_flush written) s =
     (let (flushed, writer) = writer_flush written (bp_writer s) in (flushed, s\<lparr>bp_writer := writer\<rparr>))"

fun pump_run :: "pump_keys \<Rightarrow> pump_op list \<Rightarrow> pump \<Rightarrow> bool \<times> pump" where
  "pump_run keys [] s = (True, s)"
| "pump_run keys (op # ops) s =
     (case pump_step keys op s of (True, s) \<Rightarrow> pump_run keys ops s | (False, s) \<Rightarrow> (False, s))"

section \<open>Analysis requests of the file driver\<close>

record analysis_message =
  am_version :: u32
  am_size :: u32
  am_request_id :: u64
  am_file_id :: u64
  am_volume_id :: u32
  am_path_length :: u32
  am_path :: wide

definition message_valid :: "analysis_message \<Rightarrow> bool" where
  "message_valid a \<longleftrightarrow>
     am_version a = protocol_version \<and> am_size a = 2080 \<and> am_request_id a \<noteq> 0 \<and> am_file_id a \<noteq> 0 \<and> am_volume_id a \<noteq> 0 \<and>
     am_path_length a > 0 \<and> am_path_length a < 1024 \<and> am_path a ! unat (am_path_length a) = 0"

definition kMaximumQueuedRequests :: nat where "kMaximumQueuedRequests = 4096"

definition enqueue :: "analysis_message \<Rightarrow> analysis_message list \<Rightarrow> bool \<times> analysis_message list" where
  "enqueue a queue = (if length queue \<ge> kMaximumQueuedRequests then (False, queue) else (True, queue @ [a]))"

text \<open>The receiver answers every message at once, with the verdict \<open>AI_SHIELD_FILE_PENDING\<close>.\<close>

definition receive_message :: "analysis_message \<Rightarrow> analysis_message list \<Rightarrow> bool \<times> analysis_reply \<times> analysis_message list" where
  "receive_message a queue =
     (let (accepted, queue) = (if message_valid a then enqueue a queue else (False, queue))
      in (accepted, \<lparr>rp_version = protocol_version, rp_size = 24, rp_request_id = am_request_id a, rp_verdict = file_pending\<rparr>,
          queue))"

definition analysis_step ::
    "preflight_env \<Rightarrow> content_policy \<Rightarrow> pending_view \<Rightarrow> file_view \<Rightarrow> analysis_message list \<times> quarantine_manager \<Rightarrow>
     analysis_message list \<times> quarantine_manager" where
  "analysis_step env policy nv v s =
     (case s of
        ([], m) \<Rightarrow> ([], m)
      | (a # queue, m) \<Rightarrow> (queue, snd (classify_pending env policy (take (unat (am_path_length a)) (am_path a))
            (am_file_id a) (am_volume_id a) nv v m)))"

section \<open>Audit files\<close>

lemma deserialize_serialize: "storable c \<Longrightarrow> verify c = ok_unit \<Longrightarrow> deserialize (serialize c) = Inr c"
  unfolding deserialize_value by (subst count_stands) (auto simp: serialize_def storable_def at_simps stands_at_take)

definition numbered :: "sensor_event list \<Rightarrow> audit_record list" where
  "numbered events = map2 audit_record_of [0..<length events] events"

definition holds_events :: "chain \<Rightarrow> sensor_event list \<Rightarrow> bool" where
  "holds_events c events \<longleftrightarrow> chain_inv c \<and> map as_records c = map (\<lambda>r. [r]) (numbered events)"

lemma numbered_snoc: "numbered (events @ [e]) = numbered events @ [audit_record_of (length events) e]"
  by (simp add: numbered_def)

lemma length_numbered [simp]: "length (numbered events) = length events"
  by (simp add: numbered_def)

lemma holds_length: "holds_events c events \<Longrightarrow> length c = length events"
  by (metis holds_events_def length_map length_numbered)

lemma holds_read:
  assumes "holds_events c events" "length events \<le> 1000000"
  shows "deserialize (serialize c) = Inr c" "concat (map as_records c) = numbered events"
proof -
  have inv: "wf_chain c" "verify c = ok_unit"
    using assms(1) verify_linked by (auto simp: holds_events_def chain_inv_def)
  have "length (as_records s) = 1" if "s \<in> set c" for s
  proof -
    have "as_records s \<in> set (map (\<lambda>r. [r]) (numbered events))"
      using that assms(1) unfolding holds_events_def by (metis image_eqI list.set_map)
    then show ?thesis by auto
  qed
  then have "storable c"
    using inv(1) assms(2) holds_length [OF assms(1)] by (auto simp: storable_def storable_segment_def wf_chain_def)
  then show "deserialize (serialize c) = Inr c" using inv(2) by (rule deserialize_serialize)
  show "concat (map as_records c) = numbered events"
    using assms(1) by (simp add: holds_events_def concat_map_singleton)
qed

lemma append_holds:
  assumes "holds_events c events" "wf_digest (se_evidence_hash e)"
  shows "\<exists>c'. chain_append (audit_record_of (length events) e) c = (ok_unit, c') \<and> holds_events c' (events @ [e])"
proof -
  define r where "r = audit_record_of (length events) e"
  have inv: "chain_inv c" "length c = length events" using assms(1) holds_length by (auto simp: holds_events_def)
  have "ar_sequence r = (if c = [] then 1 else as_sequence (last c) + 1)"
    using inv linked_last_sequence [of zero_digest 1 c] by (auto simp: chain_inv_def r_def audit_record_of_def)
  then have append: "fst (chain_append r c) = ok_unit" "map as_records (snd (chain_append r c)) = map as_records c @ [[r]]"
    by (simp_all add: chain_append_def Let_def)
  have "wf_record r" using assms(2) by (simp add: wf_record_def r_def audit_record_of_def)
  then have "chain_inv (snd (chain_append r c))" by (rule chain_append_inv [OF inv(1)])
  then have "holds_events (snd (chain_append r c)) (events @ [e])"
    using append(2) assms(1) by (simp add: holds_events_def numbered_snoc r_def)
  then show ?thesis using append(1) by (auto simp: r_def prod_eq_iff)
qed

lemma decimal_inject: "decimal m = decimal n \<longleftrightarrow> m = n"
  by (metis decimal_value)

lemma audit_name_inject [simp]: "audit_name i = audit_name j \<longleftrightarrow> i = j"
  by (simp add: audit_name_def decimal_inject word_unat_eq_iff)

text \<open>
  The state of the writer: the events it was given since it started at index \<open>i\<close>, some of them in
  files of at most 4096 each, the others in memory.
\<close>

definition writer_holds ::
    "u64 \<Rightarrow> (string \<rightharpoonup> bytes) \<Rightarrow> sensor_event list list \<Rightarrow> sensor_event list \<Rightarrow> audit_writer \<Rightarrow> bool" where
  "writer_holds i files chunks events w \<longleftrightarrow>
     aw_index w = i + of_nat (length chunks) \<and> aw_count w = length events \<and> length events \<le> 4096 \<and>
     holds_events (aw_chain w) events \<and> (\<forall>chunk \<in> set chunks. length chunk \<le> 4096) \<and>
     (\<forall>j < length chunks. \<exists>c. aw_files w (audit_name (i + of_nat j)) = Some (serialize c) \<and> holds_events c (chunks ! j)) \<and>
     (\<forall>name. (\<forall>j < length chunks. name \<noteq> audit_name (i + of_nat j)) \<longrightarrow> aw_files w name = files name)"

lemma of_nat_differ: "j < k \<Longrightarrow> k < 2 ^ 64 \<Longrightarrow> (of_nat j :: u64) \<noteq> of_nat k"
  by (simp add: word_of_nat_eq_iff take_bit_nat_eq_self)

lemma store_chunk:
  assumes holds: "\<forall>j < length chunks. \<exists>c. aw_files w (audit_name (i + of_nat j)) = Some (serialize c) \<and> holds_events c (chunks ! j)"
    and others: "\<forall>name. (\<forall>j < length chunks. name \<noteq> audit_name (i + of_nat j)) \<longrightarrow> aw_files w name = files name"
    and chunk: "holds_events c events" and small: "length chunks < 2 ^ 64"
    and w': "aw_files w' = (aw_files w)(audit_name (i + of_nat (length chunks)) \<mapsto> serialize c)"
  shows "\<forall>j < length (chunks @ [events]). \<exists>c. aw_files w' (audit_name (i + of_nat j)) = Some (serialize c) \<and>
      holds_events c ((chunks @ [events]) ! j)"
    and "\<forall>name. (\<forall>j < length (chunks @ [events]). name \<noteq> audit_name (i + of_nat j)) \<longrightarrow> aw_files w' name = files name"
proof -
  show "\<forall>j < length (chunks @ [events]). \<exists>c. aw_files w' (audit_name (i + of_nat j)) = Some (serialize c) \<and>
      holds_events c ((chunks @ [events]) ! j)"
  proof (intro allI impI)
    fix j
    assume "j < length (chunks @ [events])"
    then consider "j < length chunks" | "j = length chunks" by fastforce
    then show "\<exists>c. aw_files w' (audit_name (i + of_nat j)) = Some (serialize c) \<and> holds_events c ((chunks @ [events]) ! j)"
    proof cases
      case 1
      then show ?thesis using holds of_nat_differ [OF 1 small] by (simp add: w' nth_append)
    next
      case 2
      then show ?thesis using chunk by (auto simp: w')
    qed
  qed
  show "\<forall>name. (\<forall>j < length (chunks @ [events]). name \<noteq> audit_name (i + of_nat j)) \<longrightarrow> aw_files w' name = files name"
    using others by (simp add: w')
qed

lemma flush_holds:
  assumes "writer_holds i files chunks events w" "length chunks < 2 ^ 64"
  shows "\<exists>w'. writer_flush True w = (True, w') \<and> writer_holds i files (if events = [] then chunks else chunks @ [events]) [] w'"
proof (cases "events = []")
  case True
  then show ?thesis using assms(1) by (auto simp: writer_flush_def writer_holds_def)
next
  case False
  define w' where "w' = w\<lparr>aw_files := (aw_files w)(audit_name (aw_index w) \<mapsto> serialize (aw_chain w)),
    aw_index := aw_index w + 1, aw_count := 0, aw_chain := []\<rparr>"
  have w: "aw_index w = i + of_nat (length chunks)" "holds_events (aw_chain w) events" "aw_count w = length events"
    "length events \<le> 4096" "\<forall>chunk \<in> set chunks. length chunk \<le> 4096"
    and holds: "\<forall>j < length chunks. \<exists>c. aw_files w (audit_name (i + of_nat j)) = Some (serialize c) \<and> holds_events c (chunks ! j)"
    and others: "\<forall>name. (\<forall>j < length chunks. name \<noteq> audit_name (i + of_nat j)) \<longrightarrow> aw_files w name = files name"
    using assms(1) unfolding writer_holds_def by blast+
  have flush: "writer_flush True w = (True, w')" using False w(3) by (simp add: writer_flush_def w'_def)
  have files: "aw_files w' = (aw_files w)(audit_name (i + of_nat (length chunks)) \<mapsto> serialize (aw_chain w))"
    by (simp add: w'_def w(1))
  have empty: "holds_events [] []" by (simp add: holds_events_def numbered_def chain_inv_def wf_chain_def)
  note stored = store_chunk [OF holds others w(2) assms(2) files]
  have "aw_index w' = i + of_nat (length (chunks @ [events]))" "aw_count w' = length ([] :: sensor_event list)" "aw_chain w' = []"
    "\<forall>chunk \<in> set (chunks @ [events]). length chunk \<le> 4096"
    using w(1,4,5) by (auto simp: w'_def)
  then have "writer_holds i files (chunks @ [events]) [] w'"
    unfolding writer_holds_def using stored empty by simp
  then show ?thesis using flush False by auto
qed

lemma append_event_holds:
  assumes "writer_holds i files chunks events w" "length events < 4096" "length chunks < 2 ^ 64" "wf_digest (se_evidence_hash e)"
  shows "\<exists>w' chunks' events'. writer_append True e w = (True, w') \<and> writer_holds i files chunks' events' w' \<and> length events' < 4096 \<and>
    concat chunks' @ events' = concat chunks @ events @ [e] \<and> length chunks' \<le> length chunks + 1"
proof -
  have w: "holds_events (aw_chain w) events" "aw_count w = length events" using assms(1) by (simp_all add: writer_holds_def)
  obtain c' where c': "chain_append (audit_record_of (length events) e) (aw_chain w) = (ok_unit, c')" "holds_events c' (events @ [e])"
    using append_holds [OF w(1) assms(4)] by blast
  define w\<^sub>1 where "w\<^sub>1 = w\<lparr>aw_chain := c', aw_count := aw_count w + 1\<rparr>"
  have holds: "writer_holds i files chunks (events @ [e]) w\<^sub>1"
    using assms(1,2) c'(2) unfolding writer_holds_def by (simp add: w\<^sub>1_def)
  have step: "writer_append True e w = (if length events + 1 < 4096 then (True, w\<^sub>1) else writer_flush True w\<^sub>1)"
    by (simp add: writer_append_def w(2) c'(1) w\<^sub>1_def kRecordsPerSegment_def res_ok_def)
  show ?thesis
  proof (cases "length events + 1 < 4096")
    case True
    then show ?thesis using step holds by (intro exI [of _ "w\<^sub>1"] exI [of _ chunks] exI [of _ "events @ [e]"]) simp
  next
    case False
    obtain w' where w': "writer_flush True w\<^sub>1 = (True, w')" "writer_holds i files (chunks @ [events @ [e]]) [] w'"
      using flush_holds [OF holds assms(3)] by auto
    then show ?thesis using step False
      by (intro exI [of _ w'] exI [of _ "chunks @ [events @ [e]]"] exI [of _ "[]"]) simp
  qed
qed

section \<open>What the loop accepts\<close>

definition translated :: "pump_keys \<Rightarrow> driver_event \<Rightarrow> sensor_event" where
  "translated keys e =
     (case to_sensor_event_v2 e (pk_policy_version keys) (pk_model_version keys) (pk_channel_key keys) of
        Inl _ \<Rightarrow> blank_sensor_event | Inr v \<Rightarrow> v)"

lemma watch_keeps [simp]:
  "bp_last (watch_ransomware b e v s) = bp_last s" "bp_writer (watch_ransomware b e v s) = bp_writer s"
  "bp_accepted (watch_ransomware b e v s) = bp_accepted s" "bp_rejected (watch_ransomware b e v s) = bp_rejected s"
  by (simp_all add: watch_ransomware_def Let_def split: prod.split)

lemma valid_when_translatable: "translatable e \<Longrightarrow> valid_event (dv_sensor e) e 72"
  by (simp add: valid_event_def translatable_def protocol_version_def sizeof_event_def event_connect_def event_handle_filter_def)

lemma window_of_one: "within_window t 0 t"
  by (simp add: within_window_def skew_lower_def)

text \<open>An event of the right form in sequence goes to the audit writer.\<close>

lemma pump_event_accepts:
  assumes "translatable e" "bp_last s (dv_sensor e) = 0 \<or> dv_sequence e = bp_last s (dv_sensor e) + 1"
    and "writer_append written (translated keys e) (bp_writer s) = (True, w)"
  shows "\<exists>s'. pump_event keys (dv_sensor e) e 72 written signal_written s = (True, s') \<and> bp_writer s' = w \<and>
    bp_last s' = (bp_last s)(dv_sensor e := dv_sequence e) \<and> bp_rejected s' = bp_rejected s \<and> bp_accepted s' = bp_accepted s + 1"
proof -
  obtain v where v: "to_sensor_event_v2 e (pk_policy_version keys) (pk_model_version keys) (pk_channel_key keys) = Inr v"
    using translated_total [OF assms(1)] by blast
  then have same: "translated keys e = v" by (simp add: translated_def)
  define c where "c = \<lparr>a2_expected_sequence = dv_sequence e, a2_now_monotonic_ns = mh_monotonic_ns (se_header v),
    a2_maximum_clock_skew_ns = 0, a2_channel_key = pk_channel_key keys\<rparr>"
  have "to_sensor_event_v2 e (pk_policy_version keys) (pk_model_version keys) (a2_channel_key c) = Inr v" using v by (simp add: c_def)
  from translated_acceptance [OF this] have "abi2_validate v c = ok_unit"
    using translated_parts(4) [OF v] by (simp add: c_def window_of_one)
  then have "pump_event keys (dv_sensor e) e 72 written signal_written s =
      (True, let s = watch_ransomware signal_written e v (s\<lparr>bp_last := (bp_last s)(dv_sensor e := dv_sequence e), bp_writer := w\<rparr>)
             in s\<lparr>bp_accepted := bp_accepted s + 1\<rparr>)"
    using valid_when_translatable [OF assms(1)] assms(2,3) v
    by (auto simp: pump_event_def Let_def same c_def [symmetric])
  then show ?thesis by (simp add: Let_def)
qed

text \<open>Everything else is refused without a trace in the audit files.\<close>

lemma pump_event_refuses:
  assumes "\<not> (valid_event sensor e n \<and> translatable e \<and> (bp_last s sensor = 0 \<or> dv_sequence e = bp_last s sensor + 1))"
  shows "\<exists>s'. pump_event keys sensor e n written signal_written s = (True, s') \<and> bp_writer s' = bp_writer s \<and>
    bp_rejected s' = bp_rejected s + 1 \<and> bp_accepted s' = bp_accepted s"
  using assms translated_parts(1)
  by (cases "to_sensor_event_v2 e (pk_policy_version keys) (pk_model_version keys) (pk_channel_key keys)")
    (auto simp: pump_event_def Let_def)

lemma translated_evidence: "translatable e \<Longrightarrow> wf_digest (se_evidence_hash (translated keys e))"
  using translated_total [of e "pk_policy_version keys" "pk_model_version keys" "pk_channel_key keys"] translated_parts(8)
  by (fastforce simp: translated_def)

fun events_of :: "u32 \<Rightarrow> pump_op list \<Rightarrow> driver_event list" where
  "events_of sensor [] = []"
| "events_of sensor (PO_event id' e written signal_written # ops) =
     (if id' = sensor then e # events_of sensor ops else events_of sensor ops)"
| "events_of sensor (PO_flush written # ops) = events_of sensor ops"

fun all_events :: "pump_op list \<Rightarrow> driver_event list" where
  "all_events [] = []"
| "all_events (PO_event id' e written signal_written # ops) = e # all_events ops"
| "all_events (PO_flush written # ops) = all_events ops"

fun op_written :: "pump_op \<Rightarrow> bool" where
  "op_written (PO_event _ _ written _) = written"
| "op_written (PO_flush written) = written"

text \<open>Sequence numbers without a gap; the first one after a start is taken as it comes.\<close>

fun in_sequence :: "u64 \<Rightarrow> driver_event list \<Rightarrow> bool" where
  "in_sequence previous [] \<longleftrightarrow> True"
| "in_sequence previous (e # es) \<longleftrightarrow> (previous = 0 \<or> dv_sequence e = previous + 1) \<and> in_sequence (dv_sequence e) es"

lemma pump_run_holds:
  assumes "\<forall>sensor. in_sequence (bp_last s sensor) (events_of sensor ops) \<and>
      list_all (\<lambda>e. translatable e \<and> dv_sensor e = sensor) (events_of sensor ops)"
    and "list_all op_written ops"
    and "writer_holds i files chunks events (bp_writer s)" "length events < 4096" "length chunks + length ops < 2 ^ 64"
  shows "\<exists>s' chunks' events'. pump_run keys ops s = (True, s') \<and> writer_holds i files chunks' events' (bp_writer s') \<and>
    length events' < 4096 \<and> length chunks' \<le> length chunks + length ops \<and>
    concat chunks' @ events' = concat chunks @ events @ map (translated keys) (all_events ops) \<and>
    bp_rejected s' = bp_rejected s \<and> bp_accepted s' = bp_accepted s + of_nat (length (all_events ops))"
  using assms
proof (induction ops arbitrary: s chunks events)
  case Nil
  then show ?case by auto
next
  case (Cons op ops)
  have small: "length chunks < 2 ^ 64" using Cons.prems(5) by simp
  show ?case
  proof (cases op)
    case (PO_event sensor e written signal_written)
    have ok: "written" "translatable e" "dv_sensor e = sensor"
      "bp_last s (dv_sensor e) = 0 \<or> dv_sequence e = bp_last s (dv_sensor e) + 1"
      using Cons.prems(1) [rule_format, of sensor] Cons.prems(2) by (auto simp: PO_event)
    obtain w chunks\<^sub>1 events\<^sub>1 where w: "writer_append True (translated keys e) (bp_writer s) = (True, w)"
      "writer_holds i files chunks\<^sub>1 events\<^sub>1 w" "length events\<^sub>1 < 4096"
      "concat chunks\<^sub>1 @ events\<^sub>1 = concat chunks @ events @ [translated keys e]" "length chunks\<^sub>1 \<le> length chunks + 1"
      using append_event_holds [OF Cons.prems(3,4) small translated_evidence [OF ok(2)], of keys] by blast
    obtain s\<^sub>1 where s\<^sub>1: "pump_event keys sensor e 72 True signal_written s = (True, s\<^sub>1)" "bp_writer s\<^sub>1 = w"
      "bp_last s\<^sub>1 = (bp_last s)(sensor := dv_sequence e)" "bp_rejected s\<^sub>1 = bp_rejected s" "bp_accepted s\<^sub>1 = bp_accepted s + 1"
      using pump_event_accepts [OF ok(2,4) w(1), of signal_written] ok(3) by auto
    have rest: "\<forall>other. in_sequence (bp_last s\<^sub>1 other) (events_of other ops) \<and>
        list_all (\<lambda>e. translatable e \<and> dv_sensor e = other) (events_of other ops)"
    proof
      fix other
      show "in_sequence (bp_last s\<^sub>1 other) (events_of other ops) \<and>
          list_all (\<lambda>e. translatable e \<and> dv_sensor e = other) (events_of other ops)"
        using Cons.prems(1) [rule_format, of other] by (auto simp: PO_event s\<^sub>1(3) split: if_splits)
    qed
    have "list_all op_written ops" "length chunks\<^sub>1 + length ops < 2 ^ 64" using Cons.prems(2,5) w(5) by simp_all
    from Cons.IH [OF rest this(1) _ w(3) this(2)] w(2) s\<^sub>1(2)
    obtain s' chunks' events' where out: "pump_run keys ops s\<^sub>1 = (True, s')" "writer_holds i files chunks' events' (bp_writer s')"
      "length events' < 4096" "length chunks' \<le> length chunks\<^sub>1 + length ops"
      "concat chunks' @ events' = concat chunks\<^sub>1 @ events\<^sub>1 @ map (translated keys) (all_events ops)"
      "bp_rejected s' = bp_rejected s\<^sub>1" "bp_accepted s' = bp_accepted s\<^sub>1 + of_nat (length (all_events ops))" by auto
    have "concat chunks' @ events' = (concat chunks\<^sub>1 @ events\<^sub>1) @ map (translated keys) (all_events ops)" using out(5) by simp
    then have "concat chunks' @ events' = concat chunks @ events @ map (translated keys) (all_events (op # ops))"
      unfolding w(4) by (simp add: PO_event)
    then show ?thesis
      using out s\<^sub>1 w(5) ok(1)
      by (intro exI [of _ s'] exI [of _ chunks'] exI [of _ events']) (simp add: PO_event)
  next
    case (PO_flush written)
    have ok: written using Cons.prems(2) by (simp add: PO_flush)
    define chunks\<^sub>1 where "chunks\<^sub>1 = (if events = [] then chunks else chunks @ [events])"
    obtain w where w: "writer_flush True (bp_writer s) = (True, w)" "writer_holds i files chunks\<^sub>1 [] w"
      using flush_holds [OF Cons.prems(3) small] by (auto simp: chunks\<^sub>1_def)
    define s\<^sub>1 where "s\<^sub>1 = s\<lparr>bp_writer := w\<rparr>"
    have rest: "\<forall>other. in_sequence (bp_last s\<^sub>1 other) (events_of other ops) \<and>
        list_all (\<lambda>e. translatable e \<and> dv_sensor e = other) (events_of other ops)"
      using Cons.prems(1) by (simp add: PO_flush s\<^sub>1_def)
    have len: "length chunks\<^sub>1 \<le> length chunks + 1" "concat chunks\<^sub>1 = concat chunks @ events" by (simp_all add: chunks\<^sub>1_def)
    have "list_all op_written ops" "length chunks\<^sub>1 + length ops < 2 ^ 64" using Cons.prems(2,5) len(1) by simp_all
    from Cons.IH [OF rest this(1) _ _ this(2), of "[]"] w(2)
    obtain s' chunks' events' where "pump_run keys ops s\<^sub>1 = (True, s')" "writer_holds i files chunks' events' (bp_writer s')"
      "length events' < 4096" "length chunks' \<le> length chunks\<^sub>1 + length ops"
      "concat chunks' @ events' = concat chunks\<^sub>1 @ map (translated keys) (all_events ops)"
      "bp_rejected s' = bp_rejected s\<^sub>1" "bp_accepted s' = bp_accepted s\<^sub>1 + of_nat (length (all_events ops))"
      by (auto simp: s\<^sub>1_def)
    then show ?thesis
      using w(1) ok len
      by (intro exI [of _ s'] exI [of _ chunks'] exI [of _ events']) (simp add: PO_flush s\<^sub>1_def)
  qed
qed

section \<open>What the drivers queue\<close>

text \<open>An event as a driver hands it to its queue: all that translation needs but the stamp.\<close>

definition reportable :: "u32 \<Rightarrow> driver_event \<Rightarrow> bool" where
  "reportable sensor e \<longleftrightarrow> dv_sensor e = sensor \<and> 1 \<le> sensor \<and> sensor \<le> 3 \<and> 1 \<le> dv_kind e \<and> dv_kind e \<le> 10 \<and>
     dv_flags e AND NOT kKnownEventFlags = 0"

lemma stamped_translatable: "reportable sensor e \<Longrightarrow> n \<noteq> 0 \<Longrightarrow> translatable (stamped n e) \<and> dv_sensor (stamped n e) = sensor"
  by (auto simp: reportable_def translatable_def stamped_def protocol_version_def sizeof_event_def)

lemma stamp_all_sequence: "in_sequence n (stamp_all (n + 1) es)"
proof (induction es arbitrary: n)
  case (Cons e es)
  then show ?case using Cons.IH [of "n + 1"] by (simp add: stamped_def)
qed simp

lemma stamp_all_translatable:
  "list_all (reportable sensor) es \<Longrightarrow> n \<noteq> 0 \<Longrightarrow> unat n + length es \<le> 2 ^ 64 \<Longrightarrow>
     list_all (\<lambda>e. translatable e \<and> dv_sensor e = sensor) (stamp_all n es)"
proof (induction es arbitrary: n)
  case (Cons e es)
  show ?case
  proof (cases es)
    case Nil
    then show ?thesis using Cons.prems stamped_translatable by simp
  next
    case (Cons f fs)
    then have small: "unat n + 1 < 2 ^ 64" using Cons.prems(3) by simp
    then have succ: "unat (n + 1) = unat n + 1" by (simp add: unat_plus_if')
    then have "n + 1 \<noteq> 0" by (metis add_eq_0_iff_both_eq_0 one_neq_zero unsigned_0)
    then have "list_all (\<lambda>e. translatable e \<and> dv_sensor e = sensor) (stamp_all (n + 1) es)"
      using Cons.IH [of "n + 1"] Cons.prems succ by simp
    then show ?thesis using Cons.prems stamped_translatable [of sensor e n] by simp
  qed
qed simp

lemma in_sequence_prefix: "in_sequence n (xs @ ys) \<Longrightarrow> in_sequence n xs"
  by (induction xs arbitrary: n) auto

definition push_ok :: "u32 \<Rightarrow> queue_op \<Rightarrow> bool" where
  "push_ok sensor op = (case op of QO_push e \<Rightarrow> reportable sensor e | QO_pop \<Rightarrow> True)"

lemma push_ok_simps [simp]: "push_ok sensor (QO_push e) = reportable sensor e" "push_ok sensor QO_pop"
  by (simp_all add: push_ok_def)

lemma accepted_ok: "list_all (push_ok sensor) ops \<Longrightarrow> list_all (reportable sensor) (accepted ops n)"
  by (induction ops n rule: accepted.induct) auto

lemma length_accepted: "length (accepted ops n) \<le> length ops"
  by (induction ops n rule: accepted.induct) auto

text \<open>What the reader of a queue gets is in sequence and can be translated.\<close>

lemma queue_reader:
  assumes "queue_run ops queue_initialize = (outs, q)" "list_all (push_ok sensor) ops" "length ops < 2 ^ 64"
  shows "in_sequence 0 outs \<and> list_all (\<lambda>e. translatable e \<and> dv_sensor e = sensor) outs"
proof -
  have whole: "outs @ queue_items q = stamp_all 1 (accepted ops 0)"
    using queue_run_in_order [OF queue_inv_start(1) assms(1)] by (simp add: queue_inv_start(2)) (simp add: queue_initialize_def)
  have "list_all (\<lambda>e. translatable e \<and> dv_sensor e = sensor) (stamp_all 1 (accepted ops 0))"
    using accepted_ok [OF assms(2), of 0] length_accepted [of ops 0] assms(3) by (intro stamp_all_translatable) auto
  moreover have "in_sequence 0 (stamp_all 1 (accepted ops 0))" using stamp_all_sequence [of 0] by simp
  ultimately show ?thesis unfolding whole [symmetric] using in_sequence_prefix by auto
qed

text \<open>What successive reads deliver while a driver runs.\<close>

fun delivered :: "('call \<Rightarrow> 's \<Rightarrow> 's) \<Rightarrow> ('s \<Rightarrow> event_queue) \<Rightarrow> ('call \<Rightarrow> bool) \<Rightarrow> 'call list \<Rightarrow> 's \<Rightarrow> driver_event list" where
  "delivered step queue reads' [] s = []"
| "delivered step queue reads' (call # calls) s =
     (if reads' call then (case fst (queue_pop (queue s)) of None \<Rightarrow> [] | Some e \<Rightarrow> [e]) else []) @
     delivered step queue reads' calls (step call s)"

locale event_source =
  fixes step :: "'call \<Rightarrow> 's \<Rightarrow> 's" and queue :: "'s \<Rightarrow> event_queue"
    and reads' :: "'call \<Rightarrow> bool" and legal :: "'call \<Rightarrow> bool" and sensor :: u32
  assumes read_pops: "reads' call \<Longrightarrow> queue (step call s) = snd (queue_pop (queue s))"
    and call_pushes: "legal call \<Longrightarrow> \<not> reads' call \<Longrightarrow>
      queue (step call s) = queue s \<or> (\<exists>e. reportable sensor e \<and> queue (step call s) = snd (queue_push (queue s) e))"
begin

lemma run_is_queue_run:
  "list_all legal calls \<Longrightarrow> \<exists>ops. queue_run ops (queue s) = (delivered step queue reads' calls s, queue (fold step calls s)) \<and>
     list_all (push_ok sensor) ops \<and> length ops \<le> length calls"
proof (induction calls arbitrary: s)
  case Nil
  then show ?case by (intro exI [of _ "[]"]) simp
next
  case (Cons call calls)
  obtain ops where ops: "queue_run ops (queue (step call s)) =
      (delivered step queue reads' calls (step call s), queue (fold step calls (step call s)))"
    "list_all (push_ok sensor) ops" "length ops \<le> length calls"
    using Cons.IH [of "step call s"] Cons.prems by auto
  show ?case
  proof (cases "reads' call")
    case True
    then show ?thesis
      using ops read_pops [OF True, of s]
      by (intro exI [of _ "QO_pop # ops"]) (cases "queue_pop (queue s)"; auto split: option.split)
  next
    case False
    consider "queue (step call s) = queue s" | e where "reportable sensor e" "queue (step call s) = snd (queue_push (queue s) e)"
      using call_pushes [OF _ False, of s] Cons.prems by auto
    then show ?thesis
    proof cases
      case 1
      then show ?thesis using ops False by (intro exI [of _ ops]) simp
    next
      case (2 e)
      then show ?thesis using ops False by (intro exI [of _ "QO_push e # ops"]) simp
    qed
  qed
qed

lemma delivered_in_sequence:
  assumes "list_all legal calls" "length calls < 2 ^ 64" "queue s = queue_initialize"
  shows "in_sequence 0 (delivered step queue reads' calls s) \<and>
    list_all (\<lambda>e. translatable e \<and> dv_sensor e = sensor) (delivered step queue reads' calls s)"
proof -
  obtain ops where "queue_run ops queue_initialize = (delivered step queue reads' calls s, queue (fold step calls s))"
    "list_all (push_ok sensor) ops" "length ops \<le> length calls"
    using run_is_queue_run [OF assms(1), of s] assms(3) by auto
  then show ?thesis using assms(2) by (intro queue_reader) auto
qed

end

section \<open>The three drivers\<close>

lemma known_flags: "kKnownEventFlags = 0x1f" "flag_ipv6 = 1" "flag_blocked = 2" "flag_risky_command = 8" "flag_office_child = 16"
  by (simp_all add: kKnownEventFlags_def flag_ipv6_def flag_blocked_def flag_risky_command_def flag_office_child_def)

lemmas event_kinds = event_connect_def event_accept_def event_redirect_def event_file_open_def event_process_create_def
  event_file_write_def event_file_rename_def event_image_section_def event_image_load_def event_handle_filter_def

lemmas sensors = sensor_wfp_def sensor_minifilter_def sensor_process_def

lemma report_queue: "fst (report e (q, st)) = snd (queue_push q e)"
  by (simp add: report_def split: prod.split)

fun wfp_reads :: "wfp_call \<Rightarrow> bool" where
  "wfp_reads (WC_control _ _ (WR_get_event n)) = (n \<ge> 72)"
| "wfp_reads _ = False"

text \<open>The filter engine calls the authorization at the four layers it is registered for.\<close>

fun wfp_legal :: "wfp_call \<Rightarrow> bool" where
  "wfp_legal (WC_authorize c) = (cn_layer c \<in> {WL_accept_v4, WL_accept_v6, WL_connect_v4, WL_connect_v6})"
| "wfp_legal _ = True"

fun minifilter_reads :: "minifilter_call \<Rightarrow> bool" where
  "minifilter_reads (MC_control _ _ (MR_get_event n)) = (n \<ge> 72)"
| "minifilter_reads _ = False"

fun guard_reads :: "guard_call \<Rightarrow> bool" where
  "guard_reads (GC_control (GR_get_event n)) = (n \<ge> 72)"
| "guard_reads _ = False"

lemma connection_reportable:
  assumes "cn_layer c \<in> {WL_accept_v4, WL_accept_v6, WL_connect_v4, WL_connect_v6}" "connection_event c = (e, rest)"
  shows "reportable 1 (e\<lparr>dv_decision := d\<rparr>)" "reportable 1 (e\<lparr>dv_decision := d, dv_flags := dv_flags e OR flag_blocked\<rparr>)"
  using assms
  by (auto simp: connection_event_def reportable_def no_event_def sensors event_kinds known_flags Let_def)

lemma authorize_queue:
  assumes "cn_layer c \<in> {WL_accept_v4, WL_accept_v6, WL_connect_v4, WL_connect_v6}"
  shows "wd_queue (snd (authorize_classify k c s)) = wd_queue s \<or>
    (\<exists>e. reportable 1 e \<and> wd_queue (snd (authorize_classify k c s)) = snd (queue_push (wd_queue s) e))"
proof -
  obtain e port outbound where e: "connection_event c = (e, port, outbound)" by (rule prod_cases3)
  have block: "\<exists>e'. reportable 1 e' \<and> wd_queue (snd (block_connection k e t)) = snd (queue_push (wd_queue t) e')" for t
    using connection_reportable(2) [OF assms e] by (auto simp: block_connection_def Let_def report_queue)
  have permit: "\<exists>e'. reportable 1 e' \<and> wd_queue (snd (permit_connection k e t)) = snd (queue_push (wd_queue t) e')" for t
    using connection_reportable(1) [OF assms e] by (auto simp: permit_connection_def Let_def report_queue)
  define t where "t = s\<lparr>wd_status := (wd_status s)\<lparr>dt_observed := dt_observed (wd_status s) + 1\<rparr>\<rparr>"
  have "snd (authorize_classify k c s) = t\<lparr>wd_status := (wd_status t)\<lparr>dt_dropped_telemetry := dt_dropped_telemetry (wd_status t) + 1\<rparr>\<rparr> \<or>
      snd (authorize_classify k c s) \<in> {snd (block_connection k e t), snd (permit_connection k e t)}"
    by (simp add: authorize_classify_def Let_def e t_def)
  moreover have "wd_queue t = wd_queue s" by (simp add: t_def)
  ultimately show ?thesis using block [of t] permit [of t] by auto
qed

lemma redirect_reportable:
  "reportable 1 (no_event\<lparr>dv_sensor := sensor_wfp, dv_kind := event_redirect, dv_timestamp_100ns := t, dv_process_id := p,
     dv_flags := f, dv_remote_port := r, dv_local_port := l, dv_decision := d\<rparr>) \<longleftrightarrow> f AND NOT 0x1f = 0"
  by (simp add: reportable_def no_event_def sensors event_kinds known_flags)

lemma redirect_queue:
  "wd_queue (snd (snd (redirect_classify k h p c s))) = wd_queue s \<or>
    (\<exists>e. reportable 1 e \<and> wd_queue (snd (snd (redirect_classify k h p c s))) = snd (queue_push (wd_queue s) e))"
proof -
  let ?e = "no_event\<lparr>dv_sensor := sensor_wfp, dv_kind := event_redirect, dv_timestamp_100ns := cn_time c,
      dv_process_id := (case cn_process_id c of None \<Rightarrow> 0 | Some i \<Rightarrow> i),
      dv_flags := (if cn_layer c = WL_redirect_v6 then flag_ipv6 else 0), dv_remote_port := ucast (cn_port c),
      dv_local_port := dp_proxy_port (wd_policy s), dv_decision := k_action_permit k\<rparr>"
  have "wd_queue (snd (snd (redirect_classify k h p c s))) = wd_queue s \<or>
      wd_queue (snd (snd (redirect_classify k h p c s))) = snd (queue_push (wd_queue s) ?e)"
    by (simp add: redirect_classify_def Let_def report_queue no_event_def)
  moreover have "reportable 1 ?e" unfolding redirect_reportable by (simp add: known_flags)
  ultimately show ?thesis by blast
qed

interpretation wfp_events: event_source "wfp_step k" wd_queue wfp_reads wfp_legal 1 for k
proof unfold_locales
  fix call s
  assume "wfp_reads call"
  then obtain current pid n where "call = WC_control current pid (WR_get_event n)" "n \<ge> 72"
    by (cases call rule: wfp_reads.cases) auto
  then show "wd_queue (wfp_step k call s) = snd (queue_pop (wd_queue s))"
    by (auto simp: queue_pop_def)
next
  fix call s
  assume legal: "wfp_legal call" "\<not> wfp_reads call"
  show "wd_queue (wfp_step k call s) = wd_queue s \<or>
      (\<exists>e. reportable 1 e \<and> wd_queue (wfp_step k call s) = snd (queue_push (wd_queue s) e))"
  proof (cases call)
    case (WC_authorize c)
    then show ?thesis using legal(1) authorize_queue [of c k s] by simp
  next
    case (WC_redirect h p c)
    then show ?thesis using redirect_queue [of k h p c s] by simp
  next
    case (WC_control current pid r)
    then show ?thesis using legal(2) by (cases r) (auto simp: Let_def split: option.split)
  qed
qed

lemma guard_event_reportable:
  "reportable 3 (no_event\<lparr>dv_sensor := sensor_process, dv_kind := kind, dv_timestamp_100ns := t, dv_process_id := p,
     dv_subject_id := i, dv_reserved := v, dv_flags := f, dv_decision := d\<rparr>) \<longleftrightarrow> 1 \<le> kind \<and> kind \<le> 10 \<and> f AND NOT 0x1f = 0"
  by (simp add: reportable_def no_event_def sensors known_flags)

lemma mark_bits:
  "((if a then flag_risky_command else 0) OR (if b then flag_office_child else 0)) AND NOT 0x1f = 0 \<and>
   ((if a then flag_risky_command else 0) OR (if b then flag_office_child else 0) OR 2) AND NOT 0x1f = 0"
  by (cases a; cases b; simp add: known_flags)

lemma marks_known:
  assumes "creation_marks k p c = (b, f)"
  shows "f AND NOT 0x1f = 0 \<and> (f OR 2) AND NOT 0x1f = 0"
proof -
  have "\<exists>risky office. f = (if risky then flag_risky_command else 0) OR (if office then flag_office_child else 0)"
    using assms unfolding creation_marks_def Let_def prod.inject by blast
  then show ?thesis using mark_bits by (metis (no_types, lifting) or.assoc)
qed

interpretation guard_events: event_source "guard_step k" pg_queue guard_reads "\<lambda>_. True" 3 for k
proof unfold_locales
  fix call s
  assume "guard_reads call"
  then obtain n where "call = GC_control (GR_get_event n)" "n \<ge> 72" by (cases call rule: guard_reads.cases) auto
  then show "pg_queue (guard_step k call s) = snd (queue_pop (pg_queue s))" by (auto simp: queue_pop_def)
next
  fix call s
  assume quiet: "\<not> guard_reads call"
  show "pg_queue (guard_step k call s) = pg_queue s \<or>
      (\<exists>e. reportable 3 e \<and> pg_queue (guard_step k call s) = snd (queue_push (pg_queue s) e))"
  proof (cases call)
    case (GC_image img i now)
    let ?e = "no_event\<lparr>dv_sensor := sensor_process, dv_kind := event_image_load, dv_timestamp_100ns := now,
             dv_process_id := i, dv_subject_id := image_id k img, dv_decision := 0\<rparr>"
    have "reportable 3 ?e" by (simp add: reportable_def no_event_def sensors event_kinds)
    moreover have "pg_queue (guard_step k call s) = pg_queue s \<or> pg_queue (guard_step k call s) = snd (queue_push (pg_queue s) ?e)"
      by (simp add: GC_image image_notify_def report_queue)
    ultimately show ?thesis by blast
  next
    case (GC_handle p h operation target caller now desired)
    let ?e = "no_event\<lparr>dv_sensor := sensor_process, dv_kind := event_handle_filter, dv_timestamp_100ns := now,
        dv_process_id := caller, dv_subject_id := target,
        dv_decision := desired XOR (desired AND NOT dangerous_process_access), dv_flags := flag_blocked\<rparr>"
    have "reportable 3 ?e" by (simp add: reportable_def no_event_def sensors event_kinds known_flags)
    moreover have "pg_queue (guard_step k call s) = pg_queue s \<or> pg_queue (guard_step k call s) = snd (queue_push (pg_queue s) ?e)"
      by (simp add: GC_handle object_pre_operation_def Let_def report_queue)
    ultimately show ?thesis by blast
  next
    case (GC_create c)
    obtain b f where marks: "creation_marks k (pg_policy s) c = (b, f)" by (cases "creation_marks k (pg_policy s) c")
    let ?e = "\<lambda>f d. no_event\<lparr>dv_sensor := sensor_process, dv_kind := event_process_create, dv_timestamp_100ns := cr_time c,
        dv_process_id := cr_process_id c, dv_subject_id := image_id k (cr_image c), dv_reserved := ucast (cr_parent_id c),
        dv_flags := f, dv_decision := d\<rparr>"
    have "reportable 3 (?e f d)" "reportable 3 (?e (f OR flag_blocked) d)" for d
      unfolding guard_event_reportable using marks_known [OF marks] by (simp_all add: event_kinds known_flags)
    moreover have "pg_queue (guard_step k call s) = snd (queue_push (pg_queue s) (?e (f OR flag_blocked) (k_access_denied k))) \<or>
        pg_queue (guard_step k call s) = snd (queue_push (pg_queue s) (?e f 0))"
      by (simp add: GC_create process_notify_def Let_def marks report_queue no_event_def)
    ultimately show ?thesis by blast
  next
    case (GC_control r)
    then show ?thesis using quiet by (cases r) (auto simp: Let_def split: option.split)
  qed
qed

lemma file_event_reportable:
  assumes "build_file_event k kind external_only call = Some (e, quarantine)" "1 \<le> kind" "kind \<le> 10"
  shows "reportable 2 (e\<lparr>dv_decision := d\<rparr>)" "reportable 2 (e\<lparr>dv_decision := d, dv_flags := dv_flags e OR flag_blocked\<rparr>)"
  using assms
  by (auto simp: build_file_event_def set_file_identity_def reportable_def no_event_def sensors known_flags
      split: option.splits if_splits)

definition queues_one :: "u32 \<Rightarrow> event_queue \<Rightarrow> event_queue \<Rightarrow> bool" where
  "queues_one sensor q q' \<longleftrightarrow> q' = q \<or> (\<exists>e. reportable sensor e \<and> q' = snd (queue_push q e))"

lemma mark_queue:
  assumes "1 \<le> kind" "kind \<le> 10"
  shows "queues_one 2 (mf_queue s) (mf_queue (snd (mark_pending k kind call s)))"
proof (cases "build_file_event k kind True call")
  case (Some a)
  obtain e quarantine where a: "a = (e, quarantine)" by (cases a)
  have "mf_queue (snd (mark_pending k kind call s)) \<in> {mf_queue s, snd (queue_push (mf_queue s) (e\<lparr>dv_decision := 0\<rparr>))}"
    by (simp add: mark_pending_def Some a report_queue split: prod.split)
  then show ?thesis using file_event_reportable(1) [OF Some [unfolded a] assms] by (auto simp: queues_one_def)
qed (simp add: mark_pending_def queues_one_def)

lemma section_queue: "queues_one 2 (mf_queue s) (mf_queue (snd (pre_acquire_section k call s)))"
proof (cases "build_file_event k event_image_section False call")
  case (Some a)
  obtain e quarantine where a: "a = (e, quarantine)" by (cases a)
  have "mf_queue (snd (pre_acquire_section k call s)) \<in> {snd (queue_push (mf_queue s) (e\<lparr>dv_decision := 0\<rparr>)),
      snd (queue_push (mf_queue s) (e\<lparr>dv_decision := k_access_denied k, dv_flags := dv_flags e OR flag_blocked\<rparr>))}"
    by (simp add: pre_acquire_section_def Some a report_queue)
  then show ?thesis
    using file_event_reportable [OF Some [unfolded a]] by (auto simp: queues_one_def event_kinds)
qed (simp add: pre_acquire_section_def queues_one_def)

lemma opened_queue: "queues_one 2 (mf_queue s) (mf_queue (snd (post_create k opened read_request call s)))"
proof (cases "build_file_event k event_file_open True call")
  case (Some a)
  obtain e quarantine where a: "a = (e, quarantine)" by (cases a)
  have "mf_queue (snd (post_create k opened read_request call s)) \<in> {mf_queue s,
      snd (queue_push (mf_queue s) (e\<lparr>dv_decision := k_access_denied k, dv_flags := dv_flags e OR flag_blocked\<rparr>))}"
    by (simp add: post_create_def Some a report_queue)
  then show ?thesis
    using file_event_reportable(2) [OF Some [unfolded a]] by (auto simp: queues_one_def event_kinds)
qed (simp add: post_create_def queues_one_def)

lemma open_reportable:
  "reportable 2 (no_event\<lparr>dv_sensor := sensor_minifilter, dv_kind := event_file_open, dv_timestamp_100ns := t,
     dv_process_id := p, dv_subject_id := i, dv_decision := d, dv_flags := f\<rparr>) \<longleftrightarrow> f AND NOT 0x1f = 0"
  by (simp add: reportable_def no_event_def sensors event_kinds known_flags)

lemma create_queue: "queues_one 2 (mf_queue s) (mf_queue (snd (pre_create k execution_request call s)))"
proof -
  let ?e = "\<lambda>d f. no_event\<lparr>dv_sensor := sensor_minifilter, dv_kind := event_file_open, dv_timestamp_100ns := fc_time call,
      dv_process_id := fc_process_id call, dv_subject_id := (case fc_name call of None \<Rightarrow> 0 | Some name \<Rightarrow> path_hash k name),
      dv_decision := d, dv_flags := f\<rparr>"
  have "mf_queue (snd (pre_create k execution_request call s)) \<in> {mf_queue s, snd (queue_push (mf_queue s) (?e 0 0)),
      snd (queue_push (mf_queue s) (?e (k_access_denied k) flag_blocked))}"
    by (cases "fc_name call") (simp_all add: pre_create_def Let_def report_queue no_event_def)
  moreover have "reportable 2 (?e 0 0)" "reportable 2 (?e (k_access_denied k) flag_blocked)"
    unfolding open_reportable by (simp_all add: known_flags)
  ultimately show ?thesis unfolding queues_one_def by blast
qed

interpretation minifilter_events: event_source "minifilter_step k" mf_queue minifilter_reads "\<lambda>_. True" 2 for k
proof unfold_locales
  fix call s
  assume "minifilter_reads call"
  then obtain current pid n where "call = MC_control current pid (MR_get_event n)" "n \<ge> 72"
    by (cases call rule: minifilter_reads.cases) auto
  then show "mf_queue (minifilter_step k call s) = snd (queue_pop (mf_queue s))" by (auto simp: queue_pop_def)
next
  fix call s
  assume quiet: "\<not> minifilter_reads call"
  have "queues_one 2 (mf_queue s) (mf_queue (minifilter_step k call s))"
  proof (cases call)
    case (MC_write c)
    then show ?thesis using mark_queue [of event_file_write] by (simp add: pre_write_def event_kinds)
  next
    case (MC_set_information b c)
    then show ?thesis using mark_queue [of event_file_rename] by (simp add: pre_set_information_def event_kinds queues_one_def)
  next
    case (MC_cleanup a b c)
    then have "mf_queue (minifilter_step k call s) = mf_queue s"
      by (simp add: pre_cleanup_def split: option.split prod.split)
    then show ?thesis by (simp add: queues_one_def)
  next
    case (MC_cleaned a b request reply now)
    then have "mf_queue (minifilter_step k call s) = mf_queue s"
      by (simp add: post_cleanup_def post_cleanup_safe_def split: option.split)
    then show ?thesis by (simp add: queues_one_def)
  next
    case (MC_control current pid r)
    then have "mf_queue (minifilter_step k call s) = mf_queue s"
      using quiet by (cases r) (auto simp: Let_def apply_verdict_def split: option.split prod.split)
    then show ?thesis by (simp add: queues_one_def)
  next
    case (MC_section c)
    then show ?thesis using section_queue by simp
  next
    case (MC_opened a b c)
    then show ?thesis using opened_queue by simp
  next
    case (MC_open b c)
    then show ?thesis using create_queue by simp
  qed (simp_all add: port_connect_def port_disconnect_def queues_one_def)
  then show "mf_queue (minifilter_step k call s) = mf_queue s \<or>
      (\<exists>e. reportable 2 e \<and> mf_queue (minifilter_step k call s) = snd (queue_push (mf_queue s) e))"
    by (simp add: queues_one_def)
qed

section \<open>From the drivers to the audit files\<close>

lemma pump_run_append:
  "pump_run keys (ops @ rest) s = (case pump_run keys ops s of (True, s') \<Rightarrow> pump_run keys rest s' | (False, s') \<Rightarrow> (False, s'))"
  by (induction ops arbitrary: s) (auto split: prod.split bool.split)

lemma fresh_holds:
  assumes "aw_chain w = []" "aw_count w = 0"
  shows "writer_holds (aw_index w) (aw_files w) [] [] w"
  using assms by (simp add: writer_holds_def holds_events_def numbered_def chain_inv_def wf_chain_def)

lemma stored_reads:
  assumes "writer_holds i files chunks events w" "j < length chunks"
  shows "\<exists>bytes c. aw_files w (audit_name (i + of_nat j)) = Some bytes \<and> deserialize bytes = Inr c \<and>
    concat (map as_records c) = numbered (chunks ! j)"
proof -
  obtain c where c: "aw_files w (audit_name (i + of_nat j)) = Some (serialize c)" "holds_events c (chunks ! j)"
    using assms unfolding writer_holds_def by blast
  have "length (chunks ! j) \<le> 4096" using assms by (auto simp: writer_holds_def)
  then show ?thesis using c(1) holds_read [OF c(2)] by auto
qed

text \<open>
  Every event that the drivers report reaches the audit files. Let the network, file and process driver
  go through any calls, and let the broker, freshly started, take from their queues, in any
  interleaving and with flushes at any moments, what the reads deliver. As long as files can
  be written it rejects no event, counts them all as accepted, and at the end the files it has
  written one after the other, all of which are read back and verify, hold exactly these
  events, translated and in the order in which they were taken, each once.
\<close>

theorem broker_audits_every_event:
  assumes "list_all wfp_legal wcs" and "length wcs + length mcs + length gcs + length ops < 2 ^ 64 - 1"
    and "events_of 1 ops = delivered (wfp_step k) wd_queue wfp_reads wcs wfp_start"
    and "events_of 2 ops = delivered (minifilter_step k) mf_queue minifilter_reads mcs minifilter_start"
    and "events_of 3 ops = delivered (guard_step k) pg_queue guard_reads gcs guard_start"
    and "\<And>sensor. sensor \<notin> {1, 2, 3} \<Longrightarrow> events_of sensor ops = []"
    and "list_all op_written ops"
    and "bp_last s = (\<lambda>_. 0)" and "aw_chain (bp_writer s) = []" and "aw_count (bp_writer s) = 0"
  shows "\<exists>s' chunks. pump_run keys (ops @ [PO_flush True]) s = (True, s') \<and>
    bp_rejected s' = bp_rejected s \<and> bp_accepted s' = bp_accepted s + of_nat (length (all_events ops)) \<and>
    concat chunks = map (translated keys) (all_events ops) \<and>
    (\<forall>j < length chunks. \<exists>bytes c.
       aw_files (bp_writer s') (audit_name (aw_index (bp_writer s) + of_nat j)) = Some bytes \<and>
       deserialize bytes = Inr c \<and> concat (map as_records c) = numbered (chunks ! j))"
proof -
  have "wd_queue wfp_start = queue_initialize" "mf_queue minifilter_start = queue_initialize" "pg_queue guard_start = queue_initialize"
    by (simp_all add: wfp_start_def minifilter_start_def guard_start_def)
  then have drivers: "in_sequence 0 (events_of i ops) \<and> list_all (\<lambda>e. translatable e \<and> dv_sensor e = i) (events_of i ops)"
    if "i \<in> {1, 2, 3}" for i
    using that assms(1-5) wfp_events.delivered_in_sequence [of wcs wfp_start k]
      minifilter_events.delivered_in_sequence [of mcs minifilter_start k]
      guard_events.delivered_in_sequence [of gcs guard_start k] by (auto simp: list_all_def)
  have "in_sequence (bp_last s i) (events_of i ops) \<and> list_all (\<lambda>e. translatable e \<and> dv_sensor e = i) (events_of i ops)" for i
    using drivers [of i] assms(6) [of i] by (cases "i \<in> {1, 2, 3}") (auto simp: assms(8))
  then obtain s\<^sub>1 chunks\<^sub>1 events where run: "pump_run keys ops s = (True, s\<^sub>1)"
    "writer_holds (aw_index (bp_writer s)) (aw_files (bp_writer s)) chunks\<^sub>1 events (bp_writer s\<^sub>1)"
    "length chunks\<^sub>1 \<le> length ops" "concat chunks\<^sub>1 @ events = map (translated keys) (all_events ops)"
    "bp_rejected s\<^sub>1 = bp_rejected s" "bp_accepted s\<^sub>1 = bp_accepted s + of_nat (length (all_events ops))"
    using pump_run_holds [OF _ assms(7) fresh_holds [OF assms(9,10)], of keys] assms(2) by auto
  obtain w where w: "writer_flush True (bp_writer s\<^sub>1) = (True, w)"
    "writer_holds (aw_index (bp_writer s)) (aw_files (bp_writer s)) (if events = [] then chunks\<^sub>1 else chunks\<^sub>1 @ [events]) [] w"
    using flush_holds [OF run(2)] run(3) assms(2) by auto
  have "pump_run keys (ops @ [PO_flush True]) s = (True, s\<^sub>1\<lparr>bp_writer := w\<rparr>)"
    using run(1) w(1) by (simp add: pump_run_append)
  moreover have "concat (if events = [] then chunks\<^sub>1 else chunks\<^sub>1 @ [events]) = map (translated keys) (all_events ops)"
    using run(4) by auto
  ultimately show ?thesis
    using run(5,6) stored_reads [OF w(2)]
    by (intro exI [of _ "s\<^sub>1\<lparr>bp_writer := w\<rparr>"] exI [of _ "if events = [] then chunks\<^sub>1 else chunks\<^sub>1 @ [events]"]) simp
qed

definition sample_guard_calls :: "guard_call list" where
  "sample_guard_calls = [GC_image (Some (wide_text (win ''/Downloads/a''))) 7 1, GC_control (GR_get_event 72)]"

definition sample_pump_ops :: "pump_op list" where
  "sample_pump_ops = map (\<lambda>e. PO_event 3 e True True)
     (delivered (guard_step sample_kernel) pg_queue guard_reads sample_guard_calls guard_start)"

definition sample_keys :: pump_keys where
  "sample_keys = \<lparr>pk_policy_version = 1, pk_model_version = 1, pk_channel_key = zero_digest\<rparr>"

definition sample_pump :: pump where
  "sample_pump = \<lparr>bp_last = (\<lambda>_. 0), bp_writer = \<lparr>aw_chain = [], aw_count = 0, aw_index = 0, aw_files = Map.empty\<rparr>,
     bp_detector = rw_new default_rw_policy, bp_signaled = {}, bp_signals = [], bp_accepted = 0, bp_rejected = 0\<rparr>"

lemma events_of_one: "events_of i (map (\<lambda>e. PO_event j e b c) es) = (if i = j then es else [])"
  by (induction es) auto

lemma sample_event: "length sample_pump_ops = 1"
proof -
  have "length (delivered (guard_step sample_kernel) pg_queue guard_reads sample_guard_calls guard_start) = 1" by code_simp
  then show ?thesis by (simp add: sample_pump_ops_def)
qed

theorem broker_audits_every_event_witness:
  "length sample_pump_ops = 1 \<and> (\<exists>s' chunks. pump_run sample_keys (sample_pump_ops @ [PO_flush True]) sample_pump = (True, s') \<and>
     bp_rejected s' = 0 \<and> concat chunks = map (translated sample_keys) (all_events sample_pump_ops))"
proof -
  have "events_of i sample_pump_ops = (if i = 3 then delivered (guard_step sample_kernel) pg_queue guard_reads sample_guard_calls guard_start else [])"
    for i by (simp add: sample_pump_ops_def events_of_one)
  moreover have "list_all op_written sample_pump_ops" by (simp add: sample_pump_ops_def list_all_def)
  moreover have "length sample_guard_calls = 2" by (simp add: sample_guard_calls_def)
  moreover have "bp_last sample_pump = (\<lambda>_. 0)" "aw_chain (bp_writer sample_pump) = []" "aw_count (bp_writer sample_pump) = 0"
    "bp_rejected sample_pump = 0" by (simp_all add: sample_pump_def)
  ultimately show ?thesis
    using broker_audits_every_event [of "[]" "[]" sample_guard_calls sample_pump_ops sample_kernel sample_pump sample_keys] sample_event
    by auto
qed

section \<open>Where the broker falls short\<close>

text \<open>
  The index of the next audit file is the number of files in the directory, not one past the
  last: when the oldest file has been removed, the newest one is overwritten.
\<close>

lemma removed_file_overwrites:
  assumes "aw_index w = 0" "aw_count w \<noteq> 0"
  shows "aw_files (snd (writer_flush True (writer_initialize [audit_name 1, audit_name 2] w))) (audit_name 2) =
    Some (serialize (aw_chain w))"
proof -
  have "is_audit_name (audit_name 1)" "is_audit_name (audit_name 2)" by code_simp+
  then show ?thesis using assms by (simp add: writer_initialize_def writer_flush_def)
qed

text \<open>
  The receiver hands a request to the worker before it answers it, and the answer is always
  \<open>AI_SHIELD_FILE_PENDING\<close>: when the worker's clean verdict comes first, the answer blocks the
  file again.
\<close>

lemma late_answer_blocks:
  assumes "table_inv (mf_table s)" "mf_client_port s" "card (dom (verdict_of (mf_table s))) < 4096"
    and "rq_request_id request = am_request_id a" "rq_file_id request \<noteq> 0" "rq_volume_id request \<noteq> 0"
  shows "access_blocked (rq_file_id request) (rq_volume_id request)
    (mf_table (post_cleanup_safe request (Some (fst (snd (receive_message a queue)))) now s))"
proof -
  obtain ok t where set: "set_pending_verdict (rq_file_id request) (rq_volume_id request) file_pending now (mf_table s) = (ok, t)"
    by (cases "set_pending_verdict (rq_file_id request) (rq_volume_id request) file_pending now (mf_table s)")
  note refines = set_pending_refines [OF assms(1) set]
  have "mf_table (post_cleanup_safe request (Some (fst (snd (receive_message a queue)))) now s) = t"
    using assms(2,4) set by (simp add: post_cleanup_safe_def receive_message_def file_pending_def split: prod.split)
  moreover have ok using refines(2) assms(3,5,6) by simp
  ultimately show ?thesis
    using refines(3) verdicts_small(4) by (simp add: blocked_inv [OF refines(1) assms(5)] update_verdict_def)
qed

end
