(* ===== verification/Spec2Isabelle.thy ===== *)
theory Spec2Isabelle
  imports AIS_Prelude AIS_Sha256 AIS_Digest AIS_Abi AIS_Codec AIS_Evidence AIS_Policy AIS_Audit
    AIS_Package AIS_Enterprise AIS_Fleet AIS_Flow AIS_Behaviour AIS_Trace AIS_Reader AIS_Dns
    AIS_Http AIS_Crc AIS_ZipText AIS_Huffman AIS_Inflate AIS_FilePreflight AIS_Zip AIS_Gates
    AIS_Net AIS_Formats AIS_Replay AIS_ReplayLog AIS_Kernel AIS_Wfp AIS_Minifilter AIS_Guard
    AIS_Windows AIS_Runtime AIS_Export AIS_Scanner AIS_Broker AIS_BrokerLoop
begin

text \<open>
  AI Shield is a security gateway written in C++20: parsers of untrusted input and detectors
  produce evidence, a policy turns the evidence into an action, and around them stand the
  authenticated sensor interface, the audit chain, signed packages, an enterprise control
  plane and the adapters to the operating system. This development models the core library
  (\<open>include/ai_shield\<close> and \<open>src\<close>), the parts of \<open>platform/windows\<close> that decide something, and
  the broker and file scanner of \<open>tools\<close>, in higher-order logic, one theory per component, and proves what each component
  promises. The root theory only gathers them.

  How the parts fit together. Bytes enter through a protocol parser or preflight, whose
  summary becomes an \<^emph>\<open>evidence\<close> record (\<open>detection::Evidence\<close>: capped scores and a mask of
  reasons). \<open>risk::Score\<close> adds the evidence up with saturation, \<open>policy::decide\<close> picks the
  action, and the decision record is checked by \<open>abi_validation\<close> before an adapter acts on it.
  Sensor events reach the broker sealed by an HMAC (\<open>abi2\<close>); decisions are recorded in a
  hash chain (\<open>audit\<close>); policies, models and updates arrive as packages (\<open>package_manifest\<close>,
  \<open>policy_store\<close>, \<open>model_registry\<close>, \<open>update_manager\<close>); commands, policies and telemetry of
  a fleet pass \<open>enterprise_*\<close> and \<open>fleet_telemetry\<close>.

  The theories.
  \<^item> \<open>AIS_Prelude\<close>: widths of integers, bytes, text, \<open>Status\<close> and \<open>Result\<close> (a sum with the
    failure on the left), checked arithmetic, little- and big-endian encodings, and the locale
    \<open>invariant_machine\<close> of components with a state and an invariant.
  \<^item> \<open>AIS_Sha256\<close>, \<open>AIS_Digest\<close>: the streaming hash with its block buffer, equal to the function
    of the standard; constant-time comparison; HMAC and its binding of messages up to collisions.
  \<^item> \<open>AIS_Abi\<close>: the wire records, their validation, sealing and acceptance of sensor events.
  \<^item> \<open>AIS_Codec\<close>: readers and writers of byte formats, with the locale that composes them.
  \<^item> \<open>AIS_Evidence\<close>, \<open>AIS_Policy\<close>: detectors, the score, the decision and the small policies.
  \<^item> \<open>AIS_Audit\<close>, \<open>AIS_Package\<close>: the audit chain with its binary format; manifests, stores, slots.
  \<^item> \<open>AIS_Enterprise\<close>, \<open>AIS_Fleet\<close>: roles, dual control, commands, replay guard, envelopes; the
    device registry and the telemetry queue.
  \<^item> \<open>AIS_Flow\<close>: the flow state machine, ring buffer, token bucket, limiters, pending decisions.
  \<^item> \<open>AIS_Behaviour\<close>, \<open>AIS_Trace\<close>: ransomware window, worker circuit, campaigns, n-grams;
    causal graph, provenance, recovery vault, similarity hash, features, pseudonyms.
  \<^item> \<open>AIS_Reader\<close>: checked reads, where an access outside a span is \<open>None\<close>, so that memory safety
    is a theorem; the locale \<open>skipper\<close> of readers that move an offset.
  \<^item> \<open>AIS_Dns\<close>, \<open>AIS_Http\<close>, \<open>AIS_Net\<close>: DNS messages, HTTP/1 requests, TLS hellos, IPv6 chains,
    QUIC headers and HTTP/2 frames.
  \<^item> \<open>AIS_Crc\<close>, \<open>AIS_ZipText\<close>, \<open>AIS_Huffman\<close>, \<open>AIS_Inflate\<close>, \<open>AIS_Zip\<close>: the archive inspection, from
    the checksum, the names and the decompressor to the walk through nested archives.
  \<^item> \<open>AIS_FilePreflight\<close>, \<open>AIS_Formats\<close>: the universal file preflight; JSON, XML, PDF, WAVE, PE.
  \<^item> \<open>AIS_Gates\<close>: release and qualification gates, service registry and pins.
  \<^item> \<open>AIS_Replay\<close>, \<open>AIS_ReplayLog\<close>: recorded scenarios run through all components, and their logs.
  \<^item> \<open>AIS_Export\<close>: event lines, incident and support packages, normal forms of paths.
  \<^item> \<open>AIS_Kernel\<close>, \<open>AIS_Wfp\<close>, \<open>AIS_Minifilter\<close>, \<open>AIS_Guard\<close>: the protocol and event queue of the
    Windows drivers (\<open>platform/windows/common\<close>), and the callbacks and device control of the
    network, file and process drivers; the table of files that wait for a verdict is shown to
    implement a map.
  \<^item> \<open>AIS_Windows\<close>, \<open>AIS_Runtime\<close>: the user-mode adapters that turn driver, ETW and AMSI events
    into sealed messages, and the store of versions and channel keys under failing calls.
  \<^item> \<open>AIS_Scanner\<close>, \<open>AIS_Broker\<close>, \<open>AIS_BrokerLoop\<close>: the isolated scanner's decision about a
    locked file; the broker's content policy, its quarantine with the journal, and restoring,
    over the file driver of \<open>AIS_Minifilter\<close>; the audit writer, the event loop over the queues
    of the three drivers and the analysis requests. Shown there: what the broker has checked when
    it clears a blocked file, the scanner's verdict on exactly its bytes unless the policy
    exempts it (\<open>broker_clears_only_inspected\<close>); that every event taken from the drivers' queues
    reaches the audit files in order as long as they can be written
    (\<open>broker_audits_every_event\<close>); that what lies in quarantine is journaled
    (\<open>quarantine_is_journaled\<close>); and that restoring does all or nothing where Windows moves
    files back (\<open>restore_all_or_nothing\<close>).

  Where the code falls short. A property says what the code does, and its text names the cases
  that stay out: a sandbox result without its score (\<open>inconclusive_counts_as_clean\<close>), ambiguous
  framing that the text detector alone does not see (\<open>unspaced_request_seen_by_parser_only\<close>),
  mixed brackets (\<open>json_mixed_brackets_pass\<close>), a length of zero (\<open>zero_length_accepted\<close>), a block
  of literals alone (\<open>literals_only_block_refused\<close>), a file moved out of the watched folders
  (\<open>moved_file_readable\<close>), a connection authorized in another process
  (\<open>isolation_follows_context\<close>), a read that fails once (\<open>flaky_read_lowers_version\<close>).

  Conventions. A C++ class is a record with one function per method; a mutating method
  returns its result and the new state. Unsigned integers keep their width as words, so that
  wrap-around is the machine's; container sizes and offsets are natural numbers, because no
  container reaches the range of \<open>size_t\<close>. Loops are structural recursion over what they
  traverse, or \<open>function\<close>s with a measure (the walk through nested archives decreases in the
  depth that is left and the bytes of the directory): no fuel is used, so every function is
  total and termination is part of each definition. Byte strings are lists of 8-bit words and
  text is a list of characters.

  What the code calls and the repository does not contain is a parameter: the answers of the
  kernel and of Windows (\<open>kernel\<close>, \<open>file_call\<close>, \<open>connection\<close>, \<open>creation\<close>, \<open>runtime_os\<close>, \<open>amsi\<close>, \<open>scan_api\<close>, \<open>file_view\<close>,
  \<open>restore_view\<close>, \<open>policy_os\<close>), the decomposition of paths by \<open>std::filesystem\<close>, the entropy
  estimate, and whether the memory an archive inspection asks for is there (\<open>preflight_env\<close>).
  Calls whose success may change from one to the next are numbered (\<open>runtime_os\<close>).
  Callbacks of the drivers are steps of a state; locks make each of them atomic.

  Not modelled: floating-point scores (\<open>isolation_forest\<close>, \<open>flow_baseline\<close>); loading, unloading
  and registration of the drivers; the launcher and pool of sandboxed processes, the TPM
  anchor and the syslog socket, which are sequences of Windows calls; of the broker the service
  control, the registry walk, the opening of devices and the threads; the other command-line
  tools (\<open>tools\<close>).
\<close>

end
